(* ===== verification/Prelude.thy ===== *)
theory Prelude
  imports Main "HOL-Library.Word"
begin

text \<open>
  Shared vocabulary of the development: the C++ exceptions the program throws or lets through,
  results that are either an exception or a value, effectful computations over an explicit world,
  and the rewrite collections the component theories extend.

  A C++ function that can throw is a function into \<open>exn + 'a\<close>.  A C++ function that also
  talks to the outside (database server, network) is a function \<open>'w \<Rightarrow> (exn + 'a) \<times> 'w\<close>, where
  \<open>'w\<close> is the state of that outside; it is never inspected, only threaded.
\<close>

named_theorems res_simps "evaluation rules of the exception and world monads"
named_theorems cpp_defs "definitions of the C++ standard library operations the program uses"

section \<open>Exceptions\<close>

text \<open>
  The constructors are the exception classes that the program or libpqxx throws.  \<open>Cstr\<close> and
  \<open>Dangling_cstr\<close> are the odd ones out: \<open>HTML_Parser\<close> and \<open>INI_file\<close> execute \<open>throw\<close> with a character
  pointer, which is not derived from \<open>std::exception\<close>.  That of \<open>HTML_Parser\<close> points to a string literal;
  that of \<open>INI_file\<close> points into a local \<open>std::string\<close>, which is destroyed when the exception leaves the function,
  so no handler can read a text from it, and the constructor carries none.
\<close>

datatype exn =
    Out_of_range string
  | Invalid_argument string
  | Length_error string
  | System_error string
  | Logic_error string
  | Runtime_error string
  | Overflow_error string
  | Cstr string
  | Dangling_cstr
  | Bad_alloc
  | Pqxx_failure string
  | Pqxx_broken_connection string
  | Pqxx_usage_error string
  | Pqxx_internal_error string
  | Pqxx_argument_error string
  | Pqxx_conversion_error string
  | Pqxx_conversion_overrun string
  | Pqxx_unexpected_rows string
  | Pqxx_unexpected_null string
  | Pqxx_range_error string
  | Pqxx_in_doubt_error string
  | Pqxx_completion_unknown string
  | Pqxx_sql_error string string

fun is_std_exception :: "exn \<Rightarrow> bool" where
  "is_std_exception (Cstr _) = False"
| "is_std_exception Dangling_cstr = False"
| "is_std_exception _ = True"

type_synonym 'a res = "exn + 'a"

primrec bindR :: "'a res \<Rightarrow> ('a \<Rightarrow> 'b res) \<Rightarrow> 'b res" where
  "bindR (Inl e) f = Inl e"
| "bindR (Inr x) f = f x"

declare bindR.simps [res_simps]

lemma bindR_eq_Inr: "bindR m f = Inr y \<longleftrightarrow> (\<exists>x. m = Inr x \<and> f x = Inr y)"
  by (cases m) auto

lemma bindR_eq_Inl: "bindR m f = Inl e \<longleftrightarrow> m = Inl e \<or> (\<exists>x. m = Inr x \<and> f x = Inl e)"
  by (cases m) auto

lemma bindR_assoc: "bindR (bindR m f) g = bindR m (\<lambda>x. bindR (f x) g)"
  by (cases m) auto

lemma bindR_cong [fundef_cong]:
  "m = m' \<Longrightarrow> (\<And>x. m' = Inr x \<Longrightarrow> f x = f' x) \<Longrightarrow> bindR m f = bindR m' f'"
  by (cases m') auto

section \<open>Effectful computations\<close>

type_synonym ('w, 'a) act = "'w \<Rightarrow> 'a res \<times> 'w"

definition retA :: "'a \<Rightarrow> ('w, 'a) act" where
  "retA x = (\<lambda>w. (Inr x, w))"

definition throwA :: "exn \<Rightarrow> ('w, 'a) act" where
  "throwA e = (\<lambda>w. (Inl e, w))"

definition bindA :: "('w, 'a) act \<Rightarrow> ('a \<Rightarrow> ('w, 'b) act) \<Rightarrow> ('w, 'b) act" where
  "bindA m f = (\<lambda>w. case m w of (Inl e, w') \<Rightarrow> (Inl e, w') | (Inr x, w') \<Rightarrow> f x w')"

text \<open>\<open>catchA m h\<close> is \<open>try { m } catch (...) { h }\<close>; the handler decides which exceptions it takes.\<close>

definition catchA :: "('w, 'a) act \<Rightarrow> (exn \<Rightarrow> ('w, 'a) act) \<Rightarrow> ('w, 'a) act" where
  "catchA m h = (\<lambda>w. case m w of (Inl e, w') \<Rightarrow> h e w' | (Inr x, w') \<Rightarrow> (Inr x, w'))"

text \<open>\<open>finallyA m d\<close> runs \<open>m\<close> and then the destructor \<open>d\<close>, which cannot throw.\<close>

definition finallyA :: "('w, 'a) act \<Rightarrow> ('w \<Rightarrow> 'w) \<Rightarrow> ('w, 'a) act" where
  "finallyA m d = (\<lambda>w. case m w of (r, w') \<Rightarrow> (r, d w'))"

definition liftR :: "'a res \<Rightarrow> ('w, 'a) act" where
  "liftR r = (\<lambda>w. (r, w))"

lemma retA_apply [res_simps]: "retA x w = (Inr x, w)"
  by (simp add: retA_def)

lemma throwA_apply [res_simps]: "throwA e w = (Inl e, w)"
  by (simp add: throwA_def)

lemma liftR_apply [res_simps]: "liftR r w = (r, w)"
  by (simp add: liftR_def)

lemma bindA_Inr [res_simps]: "m w = (Inr x, w') \<Longrightarrow> bindA m f w = f x w'"
  by (simp add: bindA_def)

lemma bindA_Inl [res_simps]: "m w = (Inl e, w') \<Longrightarrow> bindA m f w = (Inl e, w')"
  by (simp add: bindA_def)

lemma bindA_liftR: "bindA (liftR (Inr x)) f = f x"
  by (simp add: bindA_def liftR_def)

lemma catchA_Inr [res_simps]: "m w = (Inr x, w') \<Longrightarrow> catchA m h w = (Inr x, w')"
  by (simp add: catchA_def)

lemma catchA_Inl [res_simps]: "m w = (Inl e, w') \<Longrightarrow> catchA m h w = h e w'"
  by (simp add: catchA_def)

lemma finallyA_apply [res_simps]: "m w = (r, w') \<Longrightarrow> finallyA m d w = (r, d w')"
  by (simp add: finallyA_def)

lemma bindA_cases:
  obtains (err) e w' where "m w = (Inl e, w')" "bindA m f w = (Inl e, w')"
  | (ok) x w' where "m w = (Inr x, w')" "bindA m f w = f x w'"
proof (cases "m w")
  case (Pair r w')
  then show ?thesis
    by (cases r) (auto intro: that simp: bindA_def)
qed

text \<open>A Hoare-style frame rule: what each part keeps, the sequence keeps.\<close>

lemma bindA_keeps:
  assumes "\<And>r w'. m w = (r, w') \<Longrightarrow> P w'"
    and "\<And>x w'. m w = (Inr x, w') \<Longrightarrow> P w' \<Longrightarrow> P (snd (f x w'))"
  shows "P (snd (bindA m f w))"
  by (rule bindA_cases [of m w f]) (use assms in \<open>auto\<close>)

text \<open>A loop over a sequence whose body may throw: the first exception ends it.\<close>

primrec forA :: "'b list \<Rightarrow> ('b \<Rightarrow> ('w, unit) act) \<Rightarrow> ('w, unit) act" where
  "forA [] body = retA ()"
| "forA (x # xs) body = bindA (body x) (\<lambda>_. forA xs body)"

section \<open>Lists\<close>

text \<open>Position of the first element satisfying a predicate, and what lies before it.\<close>

primrec find_index :: "('a \<Rightarrow> bool) \<Rightarrow> 'a list \<Rightarrow> nat option" where
  "find_index P [] = None"
| "find_index P (x # xs) = (if P x then Some 0 else map_option Suc (find_index P xs))"

lemma find_index_None: "find_index P xs = None \<longleftrightarrow> (\<forall>x \<in> set xs. \<not> P x)"
  by (induction xs) auto

lemma find_index_NoneD: "find_index P xs = None \<Longrightarrow> x \<in> set xs \<Longrightarrow> \<not> P x"
  by (simp add: find_index_None)

lemma find_index_Some_length: "find_index P xs = Some i \<Longrightarrow> i = length (takeWhile (\<lambda>x. \<not> P x) xs)"
  by (induction xs arbitrary: i) (auto split: if_splits)

lemma find_index_Some_less: "find_index P xs = Some i \<Longrightarrow> i < length xs"
  by (induction xs arbitrary: i) (auto split: if_splits)

lemma find_index_Some_nth: "find_index P xs = Some i \<Longrightarrow> P (xs ! i)"
  by (induction xs arbitrary: i) (auto split: if_splits)

lemma find_index_Some_take: "find_index P xs = Some i \<Longrightarrow> take i xs = takeWhile (\<lambda>x. \<not> P x) xs"
  by (induction xs arbitrary: i) (auto split: if_splits)

lemma find_index_Some_drop: "find_index P xs = Some i \<Longrightarrow> drop i xs = dropWhile (\<lambda>x. \<not> P x) xs"
  by (induction xs arbitrary: i) (auto split: if_splits)

lemma find_index_append:
  "(\<forall>x \<in> set xs. \<not> P x) \<Longrightarrow> P y \<Longrightarrow> find_index P (xs @ y # ys) = Some (length xs)"
  by (induction xs) auto

lemma dropWhile_all: "\<forall>x \<in> set xs. P x \<Longrightarrow> dropWhile P xs = []"
  by (induction xs) auto

lemma takeWhile_all: "\<forall>x \<in> set xs. P x \<Longrightarrow> takeWhile P xs = xs"
  by (induction xs) auto

lemma dropWhile_stop: "\<forall>c \<in> set a. P c \<Longrightarrow> \<not> P x \<Longrightarrow> dropWhile P (a @ x # s) = x # s"
  by (induction a) auto

lemma takeWhile_stop: "\<forall>c \<in> set a. P c \<Longrightarrow> \<not> P x \<Longrightarrow> takeWhile P (a @ x # s) = a"
  by (induction a) auto

lemma dropWhile_none: "xs \<noteq> [] \<Longrightarrow> \<not> P (hd xs) \<Longrightarrow> dropWhile P xs = xs"
  by (cases xs) auto

lemma rev_dropWhile_rev_snoc:
  "\<not> P x \<Longrightarrow> rev (dropWhile P (rev (xs @ [x]))) = xs @ [x]"
  by simp

lemma hd_concat_map_in:
  "concat (map f xs) \<noteq> [] \<Longrightarrow> \<exists>x \<in> set xs. f x \<noteq> [] \<and> hd (concat (map f xs)) = hd (f x)"
proof (induction xs)
  case Nil
  then show ?case by simp
next
  case (Cons x xs)
  then show ?case by (cases "f x = []") auto
qed

text \<open>Appending an element unless it is there already.\<close>

definition add_unique :: "'a \<Rightarrow> 'a list \<Rightarrow> 'a list" where
  "add_unique u us = (if u \<in> set us then us else us @ [u])"

text \<open>The first occurrence of every element, in order.\<close>

primrec firsts :: "'a list \<Rightarrow> 'a list" where
  "firsts [] = []"
| "firsts (u # us) = u # filter (\<lambda>v. v \<noteq> u) (firsts us)"

lemma set_firsts [simp]: "set (firsts us) = set us"
  by (induction us) auto

lemma distinct_firsts [simp]: "distinct (firsts us)"
  by (induction us) auto

lemma fold_add_unique: "fold add_unique us acc = acc @ filter (\<lambda>u. u \<notin> set acc) (firsts us)"
proof (induction us arbitrary: acc)
  case (Cons u us)
  have "filter (\<lambda>x. x \<notin> set (acc @ [u])) (firsts us) = filter (\<lambda>x. x \<notin> set acc) (filter (\<lambda>x. x \<noteq> u) (firsts us))"
    by (auto intro: filter_cong)
  moreover have "u \<in> set acc \<Longrightarrow>
      filter (\<lambda>x. x \<notin> set acc) (filter (\<lambda>x. x \<noteq> u) (firsts us)) = filter (\<lambda>x. x \<notin> set acc) (firsts us)"
    by (auto intro: filter_cong)
  ultimately show ?case using Cons by (simp add: add_unique_def del: filter_filter)
qed simp

end
