(* ===== verification/Safe_Queue.thy ===== *)
theory Safe_Queue
  imports Prelude
begin

text \<open>
  \<open>Include/Safe_Queue.h\<close>: the queue of pending links.  Every method locks the queue's own mutex for
  its whole body, so each is one atomic operation on the list of elements; \<open>pop\<close> waits on the
  condition variable until the queue is not empty, which the model shows as \<open>None\<close>: no step is
  possible yet.  \<open>getSize\<close> converts \<open>size_t\<close> to \<open>int\<close>.

  The order of elements is a contract of its own, the locale \<open>fifo\<close>.
\<close>

record 'a Safe_Queue =
  works :: "'a list"

definition sq_new :: "'a Safe_Queue" where
  "sq_new = \<lparr>works = []\<rparr>"

definition push :: "'a \<Rightarrow> 'a Safe_Queue \<Rightarrow> 'a Safe_Queue" where
  "push work q = q\<lparr>works := works q @ [work]\<rparr>"

definition pop :: "'a Safe_Queue \<Rightarrow> ('a \<times> 'a Safe_Queue) option" where
  "pop q = (case works q of [] \<Rightarrow> None | work # r \<Rightarrow> Some (work, q\<lparr>works := r\<rparr>))"

definition sq_empty :: "'a Safe_Queue \<Rightarrow> bool" where
  "sq_empty q = (works q = [])"

definition getSize :: "'a Safe_Queue \<Rightarrow> int" where
  "getSize q = sint (word_of_nat (length (works q)) :: 32 word)"

section \<open>The contract\<close>

locale fifo =
  fixes new :: "'q"
    and put :: "'a \<Rightarrow> 'q \<Rightarrow> 'q"
    and take :: "'q \<Rightarrow> ('a \<times> 'q) option"
    and is_empty :: "'q \<Rightarrow> bool"
    and elems :: "'q \<Rightarrow> 'a list"
  assumes elems_new: "elems new = []"
    and elems_put: "elems (put x q) = elems q @ [x]"
    and take_None: "take q = None \<longleftrightarrow> elems q = []"
    and take_Some: "take q = Some (x, q') \<Longrightarrow> elems q = x # elems q'"
    and is_empty_iff: "is_empty q \<longleftrightarrow> elems q = []"
begin

primrec drain :: "nat \<Rightarrow> 'q \<Rightarrow> 'a list" where
  "drain 0 q = []"
| "drain (Suc n) q = (case take q of None \<Rightarrow> [] | Some (x, q') \<Rightarrow> x # drain n q')"

lemma elems_fold_put: "elems (fold put xs q) = elems q @ xs"
  by (induction xs arbitrary: q) (auto simp: elems_put)

lemma drain_elems: "length (elems q) \<le> n \<Longrightarrow> drain n q = elems q"
proof (induction n arbitrary: q)
  case 0
  then show ?case by simp
next
  case (Suc n)
  show ?case
  proof (cases "take q")
    case None
    then have "elems q = []" using take_None by blast
    with None show ?thesis by simp
  next
    case (Some r)
    obtain x q' where "r = (x, q')" by (cases r)
    with Some have "elems q = x # elems q'" by (simp add: take_Some)
    with Suc Some \<open>r = (x, q')\<close> show ?thesis by simp
  qed
qed

text \<open>First in, first out.\<close>

lemma drain_fold_put: "drain (length xs) (fold put xs new) = xs"
  by (simp add: drain_elems elems_fold_put elems_new)

lemma take_put_nonempty: "\<not> is_empty q \<Longrightarrow>
   take (put x q) = Some (y, q') \<Longrightarrow> \<exists>q''. take q = Some (y, q'') \<and> elems q' = elems q'' @ [x]"
proof -
  assume "\<not> is_empty q" and t: "take (put x q) = Some (y, q')"
  then obtain z q'' where q'': "take q = Some (z, q'')"
    using is_empty_iff take_None by (metis not_None_eq surj_pair)
  from take_Some [OF q''] take_Some [OF t] have "z = y" "elems q' = elems q'' @ [x]"
    by (auto simp: elems_put)
  with q'' show ?thesis by blast
qed

end

interpretation sq: fifo sq_new push pop sq_empty works
  by unfold_locales (auto simp: sq_new_def push_def pop_def sq_empty_def split: list.splits)

lemma getSize_eq: "length (works q) < 2 ^ 31 \<Longrightarrow> getSize q = int (length (works q))"
  by (simp add: getSize_def sint_uint unsigned_of_nat take_bit_nat_eq_self signed_take_bit_int_eq_self)

end
