(* ===== verification/Cpp_String.thy ===== *)
theory Cpp_String
  imports Prelude "HOL-Library.Char_ord" "HOL-Library.List_Lexorder"
begin

text \<open>
  The part of \<open>std::string\<close> the program uses.  A string is a list of bytes.  Positions are
  \<open>size_t\<close> values of a 64-bit target, held as natural numbers below \<open>2 ^ 64\<close> with the wrap-around of
  \<open>+\<close> and \<open>-\<close> written out, because the program adds 1 to and subtracts 1 from results that may be
  \<open>std::string::npos\<close> or 0.  \<open>fits s\<close> is what \<open>max_size\<close> guarantees of every \<open>std::string\<close>:
  its length is below \<open>npos\<close>.
\<close>

section \<open>Positions\<close>

type_synonym size_t = nat

definition npos :: size_t where
  "npos = 2 ^ 64 - 1"

definition sz_add :: "size_t \<Rightarrow> size_t \<Rightarrow> size_t" where
  "sz_add a b = (a + b) mod 2 ^ 64"

definition sz_sub :: "size_t \<Rightarrow> size_t \<Rightarrow> size_t" where
  "sz_sub a b = (a + 2 ^ 64 - b) mod 2 ^ 64"

definition fits :: "string \<Rightarrow> bool" where
  "fits s \<longleftrightarrow> length s < npos"

lemma npos_plus_1 [simp]: "sz_add npos (Suc 0) = 0"
  by (simp add: sz_add_def npos_def)

lemma zero_minus_1 [simp]: "sz_sub 0 (Suc 0) = npos"
  by (simp add: sz_sub_def npos_def)

lemma sz_add_1 [simp]: "i < npos \<Longrightarrow> sz_add i (Suc 0) = Suc i"
  by (simp add: sz_add_def npos_def)

lemma sz_sub_1 [simp]: "0 < i \<Longrightarrow> i \<le> npos \<Longrightarrow> sz_sub i (Suc 0) = i - 1"
proof -
  assume "0 < i" "i \<le> npos"
  then have "i + 2 ^ 64 - Suc 0 = (i - 1) + 2 ^ 64" and "i - 1 < 2 ^ 64"
    by (auto simp: npos_def)
  then show ?thesis unfolding sz_sub_def by (metis mod_add_self2 mod_less)
qed

lemma sz_sub_le [simp]: "a \<le> b \<Longrightarrow> b \<le> npos \<Longrightarrow> sz_sub b a = b - a"
proof -
  assume "a \<le> b" "b \<le> npos"
  then have "b + 2 ^ 64 - a = (b - a) + 2 ^ 64" and "b - a < 2 ^ 64"
    by (auto simp: npos_def)
  then show ?thesis unfolding sz_sub_def by (metis mod_add_self2 mod_less)
qed

lemma fits_shorter: "fits s \<Longrightarrow> length t \<le> length s \<Longrightarrow> fits t"
  by (simp add: fits_def)

lemma fits_dropWhile [intro]: "fits s \<Longrightarrow> fits (dropWhile P s)"
  by (erule fits_shorter) (rule length_dropWhile_le)

lemma fits_rev [simp]: "fits (rev s) = fits s"
  by (simp add: fits_def)

lemma fits_Cons: "fits (c # s) \<Longrightarrow> fits s"
  by (simp add: fits_def)

lemma fits_append: "fits (s @ t) \<Longrightarrow> fits s \<and> fits t"
  by (simp add: fits_def)

lemma fits_drop [intro]: "fits s \<Longrightarrow> fits (drop n s)"
  by (erule fits_shorter) simp

lemma fits_take [intro]: "fits s \<Longrightarrow> fits (take n s)"
  by (erule fits_shorter) simp

section \<open>Searching\<close>

definition pos_of :: "nat option \<Rightarrow> size_t" where
  "pos_of r = (case r of None \<Rightarrow> npos | Some i \<Rightarrow> i)"

text \<open>\<open>s.find_first_of(cs)\<close>, \<open>s.find_first_not_of(cs)\<close> and \<open>s.find_last_not_of(cs)\<close>.\<close>

definition find_first_of :: "string \<Rightarrow> string \<Rightarrow> size_t" where
  "find_first_of s cs = pos_of (find_index (\<lambda>c. c \<in> set cs) s)"

definition find_first_not_of :: "string \<Rightarrow> string \<Rightarrow> size_t" where
  "find_first_not_of s cs = pos_of (find_index (\<lambda>c. c \<notin> set cs) s)"

definition find_last_not_of :: "string \<Rightarrow> string \<Rightarrow> size_t" where
  "find_last_not_of s cs =
     (case find_index (\<lambda>c. c \<notin> set cs) (rev s) of None \<Rightarrow> npos | Some i \<Rightarrow> length s - 1 - i)"

text \<open>\<open>s.find(c, pos)\<close>; a start past the end finds nothing.\<close>

definition find_char_from :: "string \<Rightarrow> char \<Rightarrow> size_t \<Rightarrow> size_t" where
  "find_char_from s c pos =
     (if length s < pos then npos
      else case find_index (\<lambda>x. x = c) (drop pos s) of None \<Rightarrow> npos | Some i \<Rightarrow> pos + i)"

abbreviation find_char :: "string \<Rightarrow> char \<Rightarrow> size_t" where
  "find_char s c \<equiv> find_char_from s c 0"

definition is_prefix :: "string \<Rightarrow> string \<Rightarrow> bool" where
  "is_prefix p s \<longleftrightarrow> take (length p) s = p"

fun find_str_index :: "string \<Rightarrow> string \<Rightarrow> nat option" where
  "find_str_index [] p = (if is_prefix p [] then Some 0 else None)"
| "find_str_index (c # s) p =
     (if is_prefix p (c # s) then Some 0 else map_option Suc (find_str_index s p))"

text \<open>\<open>s.find(p)\<close> for a string \<open>p\<close>.\<close>

definition find_str :: "string \<Rightarrow> string \<Rightarrow> size_t" where
  "find_str s p = pos_of (find_str_index s p)"

section \<open>Substrings\<close>

text \<open>
  \<open>s.substr(pos, n)\<close> and \<open>s.erase(pos, n)\<close> throw \<open>std::out_of_range\<close> when \<open>pos\<close> is past the end and
  otherwise take at most \<open>n\<close> characters, so \<open>n = npos\<close> means the rest of the string.
\<close>

definition substr :: "string \<Rightarrow> size_t \<Rightarrow> size_t \<Rightarrow> string res" where
  "substr s pos n =
     (if length s < pos then Inl (Out_of_range ''basic_string::substr'')
      else Inr (take n (drop pos s)))"

definition erase :: "string \<Rightarrow> size_t \<Rightarrow> size_t \<Rightarrow> string res" where
  "erase s pos n =
     (if length s < pos then Inl (Out_of_range ''basic_string::erase'')
      else Inr (take pos s @ drop (min n (length s - pos)) (drop pos s)))"

text \<open>\<open>s.at(i)\<close> is checked.\<close>

definition str_at :: "string \<Rightarrow> size_t \<Rightarrow> char res" where
  "str_at s i = (if i < length s then Inr (s ! i) else Inl (Out_of_range ''basic_string::at''))"

lemmas [cpp_defs] = find_first_of_def find_first_not_of_def find_last_not_of_def
  find_char_from_def find_str_def substr_def erase_def str_at_def

section \<open>Facts\<close>

lemma find_first_of_single: "find_first_of [c] cs \<noteq> npos \<longleftrightarrow> c \<in> set cs" for c
  by (simp add: find_first_of_def pos_of_def npos_def)

lemma find_first_not_of_npos: "fits s \<Longrightarrow> find_first_not_of s cs = npos \<longleftrightarrow> set s \<subseteq> set cs"
proof -
  assume "fits s"
  then have "find_index (\<lambda>c. c \<notin> set cs) s = Some i \<Longrightarrow> i \<noteq> npos" for i
    using find_index_Some_less [of "\<lambda>c. c \<notin> set cs" s i] by (auto simp: fits_def)
  then show ?thesis
    by (cases "find_index (\<lambda>c. c \<notin> set cs) s")
       (auto simp: find_first_not_of_def pos_of_def
             dest: find_index_NoneD find_index_Some_nth find_index_Some_less intro: nth_mem)
qed

lemma erase_prefix_not_of: "fits s \<Longrightarrow>
  erase s 0 (find_first_not_of s cs) = Inr (dropWhile (\<lambda>c. c \<in> set cs) s)"
proof (cases "find_index (\<lambda>c. c \<notin> set cs) s")
  case None
  assume "fits s"
  with None show ?thesis
    by (auto simp: erase_def find_first_not_of_def pos_of_def fits_def
          dest: find_index_NoneD intro!: sym [OF dropWhile_all])
next
  case (Some i)
  then have "i < length s" by (rule find_index_Some_less)
  with Some show ?thesis
    by (simp add: erase_def find_first_not_of_def pos_of_def find_index_Some_drop)
qed

lemma erase_suffix_not_of: "fits s \<Longrightarrow>
  erase s (sz_add (find_last_not_of s cs) 1) npos = Inr (rev (dropWhile (\<lambda>c. c \<in> set cs) (rev s)))"
proof (cases "find_index (\<lambda>c. c \<notin> set cs) (rev s)")
  case None
  assume "fits s"
  moreover from None have "dropWhile (\<lambda>c. c \<in> set cs) (rev s) = []"
    by (auto dest: find_index_NoneD intro!: dropWhile_all)
  ultimately show ?thesis
    using None by (auto simp: erase_def find_last_not_of_def fits_def)
next
  case (Some i)
  assume "fits s"
  let ?k = "length s - 1 - i"
  from Some have i: "i < length s" using find_index_Some_less by fastforce
  with \<open>fits s\<close> have k: "?k < npos" by (simp add: fits_def)
  from i have Sk: "Suc ?k = length s - i" by simp
  have "dropWhile (\<lambda>c. c \<in> set cs) (rev s) = drop i (rev s)"
    using find_index_Some_drop [OF Some] by simp
  then have "rev (dropWhile (\<lambda>c. c \<in> set cs) (rev s)) = take (length s - i) s"
    by (simp add: drop_rev)
  moreover have "erase s (sz_add (find_last_not_of s cs) 1) npos = Inr (take (length s - i) s)"
    using Some k i Sk \<open>fits s\<close> by (simp add: erase_def find_last_not_of_def fits_def)
  ultimately show ?thesis by simp
qed

lemma find_char_from_npos:
  "fits s \<Longrightarrow> i \<le> length s \<Longrightarrow> find_char_from s c i = npos \<longleftrightarrow> c \<notin> set (drop i s)"
proof -
  assume "fits s" "i \<le> length s"
  then have "find_index (\<lambda>x. x = c) (drop i s) = Some j \<Longrightarrow> i + j \<noteq> npos" for j
    using find_index_Some_less [of "\<lambda>x. x = c" "drop i s" j] by (auto simp: fits_def)
  with \<open>i \<le> length s\<close> show ?thesis
    by (cases "find_index (\<lambda>x. x = c) (drop i s)")
       (auto simp: find_char_from_def
             dest: find_index_NoneD find_index_Some_nth find_index_Some_less nth_mem)
qed

lemma find_char_append:
  "c \<notin> set a \<Longrightarrow> find_char (a @ c # b) c = length a"
proof -
  assume "c \<notin> set a"
  then have "find_index (\<lambda>x. x = c) (a @ c # b) = Some (length a)"
    by (intro find_index_append) auto
  then show ?thesis by (simp add: find_char_from_def)
qed

lemma find_char_absent: "c \<notin> set s \<Longrightarrow> find_char s c = npos"
  by (auto simp: find_char_from_def split: option.split dest: find_index_Some_nth find_index_Some_less nth_mem)

lemma is_prefix_append [simp]: "is_prefix p (p @ s)"
  by (simp add: is_prefix_def)

lemma is_prefix_iff: "is_prefix p s \<longleftrightarrow> (\<exists>t. s = p @ t)"
  by (metis append_take_drop_id is_prefix_append is_prefix_def)

lemma find_str_index_Some_le: "find_str_index s p = Some i \<Longrightarrow> i + length p \<le> length s"
  by (induction s p arbitrary: i rule: find_str_index.induct)
     (auto simp: is_prefix_def split: if_splits dest: arg_cong [of _ _ length])

lemma find_str_index_Some_drop: "find_str_index s p = Some i \<Longrightarrow> is_prefix p (drop i s)"
  by (induction s p arbitrary: i rule: find_str_index.induct) (auto split: if_splits)

lemma find_str_index_None: "find_str_index s p = None \<longleftrightarrow> (\<nexists>a b. s = a @ p @ b)"
proof (induction s p rule: find_str_index.induct)
  case (1 p)
  then show ?case by (auto simp: is_prefix_iff)
next
  case (2 c s p)
  then show ?case
    by (auto simp: is_prefix_iff Cons_eq_append_conv) (metis append_Cons)+
qed

section \<open>Character classes of the C locale\<close>

definition is_space_c :: "char \<Rightarrow> bool" where
  "is_space_c c \<longleftrightarrow> c \<in> {CHR '' '', CHR 0x09, CHR 0x0A, CHR 0x0B, CHR 0x0C, CHR 0x0D}"

definition is_digit_c :: "char \<Rightarrow> bool" where
  "is_digit_c c \<longleftrightarrow> CHR ''0'' \<le> c \<and> c \<le> CHR ''9''"

definition digit_val :: "char \<Rightarrow> nat" where
  "digit_val c = of_char c - 48"

definition tolower_c :: "char \<Rightarrow> char" where
  "tolower_c c = (if CHR ''A'' \<le> c \<and> c \<le> CHR ''Z'' then char_of (of_char c + 32 :: nat) else c)"

definition digit_char :: "nat \<Rightarrow> char" where
  "digit_char d = char_of (48 + d)"

text \<open>\<open>std::to_string\<close> of a nonnegative number.\<close>

fun nat_to_string :: "nat \<Rightarrow> string" where
  "nat_to_string n = (if n < 10 then [digit_char n] else nat_to_string (n div 10) @ [digit_char (n mod 10)])"

declare nat_to_string.simps [simp del]

definition int_to_string :: "int \<Rightarrow> string" where
  "int_to_string i = (if i < 0 then CHR ''-'' # nat_to_string (nat (- i)) else nat_to_string (nat i))"

lemma digit_char_is_digit: "d < 10 \<Longrightarrow> is_digit_c (digit_char d)"
  by (simp add: is_digit_c_def digit_char_def less_eq_char_def)

lemma digit_val_digit_char [simp]: "d < 10 \<Longrightarrow> digit_val (digit_char d) = d"
  by (simp add: digit_val_def digit_char_def)

lemma nat_to_string_nonempty [simp]: "nat_to_string n \<noteq> []"
  by (subst nat_to_string.simps) simp

lemma nat_to_string_digits: "\<forall>c \<in> set (nat_to_string n). is_digit_c c"
proof (induction n rule: nat_to_string.induct)
  case (1 n)
  then show ?case
    by (subst nat_to_string.simps) (auto simp: digit_char_is_digit)
qed

lemma foldl_digits_nat_to_string:
  "foldl (\<lambda>a c. a * 10 + digit_val c) 0 (nat_to_string n) = n"
proof (induction n rule: nat_to_string.induct)
  case (1 n)
  then show ?case
    by (subst nat_to_string.simps) auto
qed

end
