(* ===== verification/Cpp_Stream.thy ===== *)
theory Cpp_Stream
  imports Cpp_String
begin

text \<open>
  Input streams: \<open>std::ifstream\<close> and \<open>std::istringstream\<close> as the program reads them, with the
  state bits that decide when a read loop ends.  An extraction into a variable returns \<open>None\<close> when
  the standard leaves the variable untouched, so that a read of an uninitialised variable stays
  visible in the model.
\<close>

record istream =
  rest :: string
  eofbit :: bool
  failbit :: bool

definition istream_of :: "string \<Rightarrow> istream" where
  "istream_of s = \<lparr>rest = s, eofbit = False, failbit = False\<rparr>"

definition good :: "istream \<Rightarrow> bool" where
  "good s \<longleftrightarrow> \<not> eofbit s \<and> \<not> failbit s"

section \<open>Unformatted reads\<close>

text \<open>\<open>s.get(ch)\<close>: one character.\<close>

definition is_get :: "istream \<Rightarrow> char option \<times> istream" where
  "is_get s =
     (if \<not> good s then (None, s\<lparr>failbit := True\<rparr>)
      else case rest s of
        [] \<Rightarrow> (None, s\<lparr>eofbit := True, failbit := True\<rparr>)
      | c # r \<Rightarrow> (Some c, s\<lparr>rest := r\<rparr>))"

text \<open>
  \<open>std::getline(s, str, delim)\<close>.  A stream that is not good leaves \<open>str\<close> as it was; otherwise the
  delimiter is consumed and dropped, and reading nothing at all sets \<open>failbit\<close>.
\<close>

definition getline :: "istream \<Rightarrow> char \<Rightarrow> string \<Rightarrow> string \<times> istream" where
  "getline s delim str =
     (if \<not> good s then (str, s\<lparr>failbit := True\<rparr>)
      else case find_index (\<lambda>c. c = delim) (rest s) of
        Some i \<Rightarrow> (take i (rest s), s\<lparr>rest := drop (Suc i) (rest s)\<rparr>)
      | None \<Rightarrow> (rest s, s\<lparr>rest := [], eofbit := True, failbit := (rest s = [])\<rparr>))"

abbreviation newline :: char where
  "newline \<equiv> CHR 0x0A"

lemma getline_progress:
  "\<not> failbit (snd (getline s delim str)) \<Longrightarrow> length (rest (snd (getline s delim str))) < length (rest s)"
  by (auto simp: getline_def good_def split: option.splits if_splits dest: find_index_Some_less)

text \<open>\<open>while (std::getline(s, str))\<close>: the lines the loop body sees, in order.\<close>

function read_lines :: "istream \<Rightarrow> string list" where
  "read_lines s =
     (let r = getline s newline []
      in if failbit (snd r) then [] else fst r # read_lines (snd r))"
  by pat_completeness auto
termination
  by (relation "measure (\<lambda>s. length (rest s))") (auto dest: getline_progress)

declare read_lines.simps [simp del]

definition lines_of :: "string \<Rightarrow> string list" where
  "lines_of content = read_lines (istream_of content)"

lemma lines_of_Nil [simp]: "lines_of [] = []"
  unfolding lines_of_def
  by (subst read_lines.simps) (simp add: getline_def istream_of_def good_def)

lemma lines_of_Cons_line:
  assumes "newline \<notin> set l"
  shows "lines_of (l @ newline # s) = l # lines_of s"
proof -
  have "find_index (\<lambda>c. c = newline) (l @ newline # s) = Some (length l)"
    using assms by (intro find_index_append) auto
  then have "getline (istream_of (l @ newline # s)) newline [] = (l, istream_of s)"
    by (simp add: getline_def istream_of_def good_def)
  then show ?thesis
    by (simp add: lines_of_def read_lines.simps [of "istream_of (l @ newline # s)"])
       (simp add: istream_of_def)
qed

lemma lines_of_last:
  assumes "newline \<notin> set l" "l \<noteq> []"
  shows "lines_of l = [l]"
proof -
  have "find_index (\<lambda>c. c = newline) l = None"
    using assms by (auto simp: find_index_None)
  then have *: "getline (istream_of l) newline [] = (l, \<lparr>rest = [], eofbit = True, failbit = False\<rparr>)"
    using assms by (simp add: getline_def istream_of_def good_def)
  have "read_lines \<lparr>rest = [], eofbit = True, failbit = False\<rparr> = []"
    by (simp add: read_lines.simps [of "\<lparr>rest = [], eofbit = True, failbit = False\<rparr>"] getline_def good_def)
  with * show ?thesis
    by (simp add: lines_of_def read_lines.simps [of "istream_of l"])
qed

lemma lines_of_concat:
  assumes "\<forall>l \<in> set ls. newline \<notin> set l"
  shows "lines_of (concat (map (\<lambda>l. l @ [newline]) ls)) = ls"
  using assms by (induction ls) (auto simp: lines_of_Cons_line)

lemma lines_of_concat_append:
  assumes "\<forall>l \<in> set ls. newline \<notin> set l"
  shows "lines_of (concat (map (\<lambda>l. l @ [newline]) ls) @ s) = ls @ lines_of s"
  using assms by (induction ls) (auto simp: lines_of_Cons_line)

section \<open>Formatted reads\<close>

text \<open>\<open>s >> word\<close>: skip white space, then read up to the next white space.\<close>

definition read_word :: "istream \<Rightarrow> string option \<times> istream" where
  "read_word s =
     (if \<not> good s then (None, s\<lparr>failbit := True\<rparr>)
      else let r = dropWhile is_space_c (rest s) in
        if r = [] then (None, s\<lparr>rest := [], eofbit := True, failbit := True\<rparr>)
        else let r' = dropWhile (\<lambda>c. \<not> is_space_c c) r in
          (Some (takeWhile (\<lambda>c. \<not> is_space_c c) r), s\<lparr>rest := r', eofbit := (r' = [])\<rparr>))"

definition is_xdigit_c :: "char \<Rightarrow> bool" where
  "is_xdigit_c c \<longleftrightarrow> is_digit_c c \<or> (CHR ''a'' \<le> c \<and> c \<le> CHR ''f'') \<or> (CHR ''A'' \<le> c \<and> c \<le> CHR ''F'')"

definition xdigit_val :: "char \<Rightarrow> nat" where
  "xdigit_val c =
     (if is_digit_c c then of_char c - 48
      else if CHR ''a'' \<le> c then of_char c - 87 else of_char c - 55)"

definition INT_MAX :: int where "INT_MAX = 2 ^ 31 - 1"
definition INT_MIN :: int where "INT_MIN = - (2 ^ 31)"

definition split_sign :: "string \<Rightarrow> bool \<times> string" where
  "split_sign s =
     (case s of c # r \<Rightarrow> (if c = CHR ''-'' then (True, r) else if c = CHR ''+'' then (False, r) else (False, s))
      | [] \<Rightarrow> (False, []))"

definition split_0x :: "string \<Rightarrow> bool \<times> string" where
  "split_0x s =
     (case s of c # d # r \<Rightarrow> (if c = CHR ''0'' \<and> (d = CHR ''x'' \<or> d = CHR ''X'') then (True, r) else (False, s))
      | _ \<Rightarrow> (False, s))"

text \<open>
  \<open>s >> std::hex >> n\<close> for an \<open>int\<close>: a failed sentry leaves \<open>n\<close> untouched (\<open>None\<close>); otherwise the
  longest field is read.  A field without digits stores 0 and fails; a value outside \<open>int\<close>
  stores the nearest bound and fails.
\<close>

definition read_hex_int :: "istream \<Rightarrow> int option \<times> istream" where
  "read_hex_int s =
     (if \<not> good s then (None, s\<lparr>failbit := True\<rparr>)
      else let r = dropWhile is_space_c (rest s) in
        if r = [] then (None, s\<lparr>rest := [], eofbit := True, failbit := True\<rparr>)
        else
          let (neg, r1) = split_sign r;
              (pre, r2) = split_0x r1;
              ds = takeWhile is_xdigit_c r2;
              r3 = dropWhile is_xdigit_c r2;
              n = int (foldl (\<lambda>a c. a * 16 + xdigit_val c) 0 ds);
              v = (if neg then - n else n);
              s' = s\<lparr>rest := r3, eofbit := (r3 = [])\<rparr>
          in if ds = [] then (Some 0, s'\<lparr>failbit := True\<rparr>)
             else if v > INT_MAX then (Some INT_MAX, s'\<lparr>failbit := True\<rparr>)
             else if v < INT_MIN then (Some INT_MIN, s'\<lparr>failbit := True\<rparr>)
             else (Some v, s'))"

lemma split_sign_length: "split_sign r = (b, r1) \<Longrightarrow> length r1 \<le> length r"
  by (auto simp: split_sign_def split: list.splits if_splits)

lemma split_0x_length: "split_0x r = (b, r1) \<Longrightarrow> length r1 \<le> length r"
  by (auto simp: split_0x_def split: list.splits if_splits)

lemma read_hex_int_length: "length (rest (snd (read_hex_int s))) \<le> length (rest s)"
proof -
  have "length (dropWhile is_xdigit_c (snd (split_0x (snd (split_sign (dropWhile is_space_c (rest s))))))) \<le> length (rest s)"
    using length_dropWhile_le [of is_space_c "rest s"]
      length_dropWhile_le [of is_xdigit_c "snd (split_0x (snd (split_sign (dropWhile is_space_c (rest s)))))"]
      split_0x_length [OF prod.collapse [symmetric], of "snd (split_sign (dropWhile is_space_c (rest s)))"]
      split_sign_length [OF prod.collapse [symmetric], of "dropWhile is_space_c (rest s)"]
    by linarith
  then show ?thesis
    by (auto simp: read_hex_int_def Let_def split: prod.splits)
qed

text \<open>\<open>std::stoi(s)\<close>, base 10; text after the number is ignored.\<close>

definition stoi :: "string \<Rightarrow> int res" where
  "stoi s =
     (let (neg, r) = split_sign (dropWhile is_space_c s);
          ds = takeWhile is_digit_c r;
          n = int (foldl (\<lambda>a c. a * 10 + digit_val c) 0 ds);
          v = (if neg then - n else n)
      in if ds = [] then Inl (Invalid_argument ''stoi'')
         else if v < INT_MIN \<or> v > INT_MAX then Inl (Out_of_range ''stoi'')
         else Inr v)"

lemma stoi_bounds: "stoi s = Inr v \<Longrightarrow> INT_MIN \<le> v \<and> v \<le> INT_MAX"
  by (auto simp: stoi_def Let_def split: prod.splits if_splits)

lemma stoi_nat_to_string:
  assumes "int n \<le> INT_MAX"
  shows "stoi (nat_to_string n) = Inr (int n)"
proof -
  let ?s = "nat_to_string n"
  have d: "\<forall>c \<in> set ?s. is_digit_c c" by (rule nat_to_string_digits)
  then have hd: "is_digit_c (hd ?s)" by simp
  have "\<not> is_space_c (hd ?s)" "hd ?s \<noteq> CHR ''-''" "hd ?s \<noteq> CHR ''+''"
    using hd by (auto simp: is_space_c_def is_digit_c_def less_eq_char_def)
  then have "dropWhile is_space_c ?s = ?s" "split_sign ?s = (False, ?s)"
    by (auto simp: dropWhile_none split_sign_def split: list.splits)
  moreover have "takeWhile is_digit_c ?s = ?s" using d by (rule takeWhile_all)
  ultimately show ?thesis
    using assms d by (simp add: stoi_def Let_def foldl_digits_nat_to_string INT_MIN_def takeWhile_all)
qed

lemmas [cpp_defs] = is_get_def getline_def read_word_def read_hex_int_def stoi_def

end
