(* ===== verification/Cpp_Regex.thy ===== *)
theory Cpp_Regex
  imports Cpp_String "HOL-Library.Sublist"
begin

text \<open>
  \<open>std::regex\<close> (ECMAScript grammar), restricted to the constructs of the program's five patterns:
  characters, \<open>.\<close>, bracket expressions, concatenation, greedy and lazy \<open>?\<close> and \<open>*\<close>, \<open>+\<close>, capture groups
  and \<open>$\<close>.

  ECMAScript defines matching by backtracking: the alternatives of every choice are tried in a
  fixed priority order and the first complete match wins.  The model computes the list of all ways
  to match, in priority order; a match is the head of that list and backtracking is
  concatenation.  A state is the unread input together with the captures.

  A bracket expression is the list of its characters.  \<open>[[:alnum:]-_]\<close>, where the dash follows a
  class, is read as the program's compiler (MSVC) reads it: alphanumeric, dash or underscore.
\<close>

datatype rx =
    Eps
  | Chr char
  | Any
  | OneOf string
  | NoneOf string
  | Seq rx rx
  | Opt rx
  | Star rx
  | LazyStar rx
  | Group nat rx
  | Eol

type_synonym caps = "nat \<Rightarrow> string option"
type_synonym rx_state = "string \<times> caps"

definition no_caps :: caps where
  "no_caps = (\<lambda>_. None)"

text \<open>Characters that \<open>.\<close> does not match.\<close>

definition is_line_terminator :: "char \<Rightarrow> bool" where
  "is_line_terminator c \<longleftrightarrow> c = CHR 0x0A \<or> c = CHR 0x0D"

definition step_char :: "(char \<Rightarrow> bool) \<Rightarrow> rx_state \<Rightarrow> rx_state list" where
  "step_char P st = (case fst st of [] \<Rightarrow> [] | c # r \<Rightarrow> if P c then [(r, snd st)] else [])"

text \<open>
  Iteration of a matcher: an iteration that consumes nothing is not allowed (ECMAScript's empty
  check), so the length of the unread input bounds the number of iterations and serves as fuel.
\<close>

primrec star_greedy :: "nat \<Rightarrow> (rx_state \<Rightarrow> rx_state list) \<Rightarrow> rx_state \<Rightarrow> rx_state list" where
  "star_greedy 0 m st = [st]"
| "star_greedy (Suc n) m st =
     concat (map (star_greedy n m) (filter (\<lambda>st'. length (fst st') < length (fst st)) (m st))) @ [st]"

primrec star_lazy :: "nat \<Rightarrow> (rx_state \<Rightarrow> rx_state list) \<Rightarrow> rx_state \<Rightarrow> rx_state list" where
  "star_lazy 0 m st = [st]"
| "star_lazy (Suc n) m st =
     st # concat (map (star_lazy n m) (filter (\<lambda>st'. length (fst st') < length (fst st)) (m st)))"

primrec rx_match :: "rx \<Rightarrow> rx_state \<Rightarrow> rx_state list" where
  "rx_match Eps = (\<lambda>st. [st])"
| "rx_match (Chr c) = step_char (\<lambda>x. x = c)"
| "rx_match Any = step_char (\<lambda>x. \<not> is_line_terminator x)"
| "rx_match (OneOf cs) = step_char (\<lambda>x. x \<in> set cs)"
| "rx_match (NoneOf cs) = step_char (\<lambda>x. x \<notin> set cs)"
| "rx_match (Seq r1 r2) = (\<lambda>st. concat (map (rx_match r2) (rx_match r1 st)))"
| "rx_match (Opt r) = (\<lambda>st. filter (\<lambda>st'. length (fst st') < length (fst st)) (rx_match r st) @ [st])"
| "rx_match (Star r) = (\<lambda>st. star_greedy (length (fst st)) (rx_match r) st)"
| "rx_match (LazyStar r) = (\<lambda>st. star_lazy (length (fst st)) (rx_match r) st)"
| "rx_match (Group n r) = (\<lambda>st. map (\<lambda>st'. (fst st',
     (snd st')(n \<mapsto> take (length (fst st) - length (fst st')) (fst st)))) (rx_match r st))"
| "rx_match Eol = (\<lambda>st. case fst st of [] \<Rightarrow> [st] | c # _ \<Rightarrow> if is_line_terminator c then [st] else [])"

definition Plus :: "rx \<Rightarrow> rx" where
  "Plus r = Seq r (Star r)"

fun lit :: "string \<Rightarrow> rx" where
  "lit [] = Eps"
| "lit [c] = Chr c"
| "lit (c # cs) = Seq (Chr c) (lit cs)"

section \<open>Searching\<close>

text \<open>
  \<open>std::regex_search\<close>: the leftmost position with a match.  A result gives the text before the
  match, the matched text, the text after it and the captures.
\<close>

record smatch =
  m_prefix :: string
  m_str :: string
  m_suffix :: string
  m_groups :: caps

fun rx_search_from :: "rx \<Rightarrow> string \<Rightarrow> string \<Rightarrow> smatch option" where
  "rx_search_from r seen s =
     (case rx_match r (s, no_caps) of
        (s', cs) # _ \<Rightarrow> Some \<lparr>m_prefix = rev seen, m_str = take (length s - length s') s, m_suffix = s', m_groups = cs\<rparr>
      | [] \<Rightarrow> (case s of [] \<Rightarrow> None | c # s' \<Rightarrow> rx_search_from r (c # seen) s'))"

declare rx_search_from.simps [simp del]

definition rx_search :: "rx \<Rightarrow> string \<Rightarrow> smatch option" where
  "rx_search r s = rx_search_from r [] s"

text \<open>\<open>sm[n].str()\<close>: a group that took no part, or a failed search, gives the empty string.\<close>

definition sub_match :: "smatch option \<Rightarrow> nat \<Rightarrow> string" where
  "sub_match sm n = (case sm of None \<Rightarrow> [] | Some m \<Rightarrow> (case m_groups m n of None \<Rightarrow> [] | Some s \<Rightarrow> s))"

lemma star_greedy_suffix:
  assumes "\<And>st st'. st' \<in> set (m st) \<Longrightarrow> suffix (fst st') (fst st)"
  shows "st' \<in> set (star_greedy n m st) \<Longrightarrow> suffix (fst st') (fst st)"
  by (induction n arbitrary: st) (auto intro: suffix_order.trans dest: assms)

lemma star_lazy_suffix:
  assumes "\<And>st st'. st' \<in> set (m st) \<Longrightarrow> suffix (fst st') (fst st)"
  shows "st' \<in> set (star_lazy n m st) \<Longrightarrow> suffix (fst st') (fst st)"
  by (induction n arbitrary: st) (auto intro: suffix_order.trans dest: assms)

lemma step_char_suffix: "st' \<in> set (step_char P st) \<Longrightarrow> suffix (fst st') (fst st)"
  by (cases "fst st") (auto simp: step_char_def suffix_ConsI split: if_splits)

text \<open>Every way to match leaves a suffix of the input unread.\<close>

lemma rx_match_suffix: "st' \<in> set (rx_match r st) \<Longrightarrow> suffix (fst st') (fst st)"
proof (induction r arbitrary: st st')
  case (Seq r1 r2)
  from Seq.prems obtain st1 where "st1 \<in> set (rx_match r1 st)" "st' \<in> set (rx_match r2 st1)"
    by auto
  with Seq.IH show ?case by (blast intro: suffix_order.trans)
next
  case (Star r)
  show ?case
    by (rule star_greedy_suffix [where m = "rx_match r"]) (use Star in auto)
next
  case (LazyStar r)
  show ?case
    by (rule star_lazy_suffix [where m = "rx_match r"]) (use LazyStar in auto)
qed (auto dest: step_char_suffix split: list.splits if_splits)

lemma rx_match_length: "st' \<in> set (rx_match r st) \<Longrightarrow> length (fst st') \<le> length (fst st)"
  by (drule rx_match_suffix) (rule suffix_length_le)

text \<open>A search result splits the input into what is before, in and after the match.\<close>

lemma rx_search_from_split:
  "rx_search_from r seen s = Some m \<Longrightarrow> m_prefix m @ m_str m @ m_suffix m = rev seen @ s"
proof (induction r seen s rule: rx_search_from.induct)
  case (1 r seen s)
  show ?case
  proof (cases "rx_match r (s, no_caps)")
    case Nil
    note no = Nil
    show ?thesis
    proof (cases s)
      case Nil
      with 1(2) no show ?thesis by (simp add: rx_search_from.simps [of r seen "[]"])
    next
      case (Cons c s')
      with 1(2) no have "rx_search_from r (c # seen) s' = Some m"
        by (simp add: rx_search_from.simps [of r seen "c # s'"])
      with 1(1) [OF no Cons] Cons show ?thesis by simp
    qed
  next
    case (Cons st sts)
    obtain s' cs where st: "st = (s', cs)" by (cases st)
    with Cons rx_match_suffix [of st r "(s, no_caps)"] have "suffix s' s" by simp
    then obtain a where "s = a @ s'" by (auto simp: suffix_def)
    moreover have "Some m = Some \<lparr>m_prefix = rev seen, m_str = take (length s - length s') s, m_suffix = s', m_groups = cs\<rparr>"
      using 1(2) Cons st by (simp add: rx_search_from.simps [of r seen s])
    ultimately show ?thesis by simp
  qed
qed

lemma rx_search_split: "rx_search r s = Some m \<Longrightarrow> m_prefix m @ m_str m @ m_suffix m = s"
  using rx_search_from_split [of r "[]" s m] by (simp add: rx_search_def)

lemma rx_search_groups:
  "rx_search_from r seen s = Some m \<Longrightarrow>
     \<exists>t. hd (rx_match r (t, no_caps)) = (m_suffix m, m_groups m) \<and> rx_match r (t, no_caps) \<noteq> []"
proof (induction r seen s rule: rx_search_from.induct)
  case (1 r seen s)
  show ?case
  proof (cases "rx_match r (s, no_caps)")
    case Nil
    note no = Nil
    show ?thesis
    proof (cases s)
      case Nil
      with 1(2) no show ?thesis by (simp add: rx_search_from.simps [of r seen "[]"])
    next
      case (Cons c s')
      with 1(2) no have "rx_search_from r (c # seen) s' = Some m"
        by (simp add: rx_search_from.simps [of r seen "c # s'"])
      then show ?thesis by (rule 1(1) [OF no Cons])
    qed
  next
    case (Cons st sts)
    with 1(2) show ?thesis
      by (cases st) (auto simp: rx_search_from.simps [of r seen s] intro!: exI [of _ s])
  qed
qed

text \<open>
  Iterating with \<open>std::sregex_iterator\<close>: after a nonempty match the search goes on behind it.  The
  program iterates only a pattern that never matches the empty string; an empty match ends the
  list here.
\<close>

function rx_all :: "rx \<Rightarrow> string \<Rightarrow> smatch list" where
  "rx_all r s =
     (case rx_search r s of
        None \<Rightarrow> []
      | Some m \<Rightarrow> if length (m_suffix m) < length s then m # rx_all r (m_suffix m) else [])"
  by pat_completeness auto
termination
  by (relation "measure (\<lambda>(r, s). length s)") auto

declare rx_all.simps [simp del]

section \<open>Runs of one character class\<close>

text \<open>The suffixes reached by reading 0, 1, 2, ... characters of a class.\<close>

fun runs :: "(char \<Rightarrow> bool) \<Rightarrow> string \<Rightarrow> string list" where
  "runs P [] = [[]]"
| "runs P (c # s) = (c # s) # (if P c then runs P s else [])"

lemma runs_nonempty [simp]: "runs P s \<noteq> []"
  by (cases s) auto

lemma last_runs [simp]: "last (runs P s) = dropWhile P s"
  by (induction s) auto

lemma hd_rev_runs: "hd (rev (runs P s)) = dropWhile P s"
  by (simp add: hd_rev)

lemma rev_runs: "rev (runs P s) = dropWhile P s # rev (butlast (runs P s))"
  by (metis append_butlast_last_id last_runs rev.simps(2) rev_rev_ident runs_nonempty)

lemma runs_suffix: "t \<in> set (runs P s) \<Longrightarrow> \<exists>a. s = a @ t \<and> (\<forall>c \<in> set a. P c)"
proof (induction s)
  case Nil
  then show ?case by simp
next
  case (Cons c s)
  show ?case
  proof (cases "t = c # s")
    case False
    with Cons obtain a where "P c" "s = a @ t" "\<forall>c \<in> set a. P c" by (auto split: if_splits)
    then show ?thesis by (intro exI [of _ "c # a"]) simp
  qed simp
qed

lemma star_greedy_char:
  "length s \<le> n \<Longrightarrow> star_greedy n (step_char P) (s, cs) = map (\<lambda>t. (t, cs)) (rev (runs P s))"
proof (induction s arbitrary: n)
  case Nil
  then show ?case by (cases n) (auto simp: step_char_def)
next
  case (Cons c s)
  then show ?case by (cases n) (auto simp: step_char_def)
qed

lemma star_lazy_char:
  "length s \<le> n \<Longrightarrow> star_lazy n (step_char P) (s, cs) = map (\<lambda>t. (t, cs)) (runs P s)"
proof (induction s arbitrary: n)
  case Nil
  then show ?case by (cases n) (auto simp: step_char_def)
next
  case (Cons c s)
  then show ?case by (cases n) (auto simp: step_char_def)
qed

text \<open>Greedy repetition: if going on from the longest run succeeds, that is the first match.\<close>

lemma hd_greedy:
  assumes "f (dropWhile P s) \<noteq> []"
  shows "concat (map f (rev (runs P s))) \<noteq> []"
    and "hd (concat (map f (rev (runs P s)))) = hd (f (dropWhile P s))"
  using assms by (simp_all add: rev_runs)

lemma rx_match_lit:
  "rx_match (lit p) (s, cs) = (if is_prefix p s then [(drop (length p) s, cs)] else [])"
proof (induction p arbitrary: s rule: lit.induct)
  case 1
  then show ?case by (simp add: is_prefix_def)
next
  case (2 c)
  then show ?case by (cases s) (auto simp: step_char_def is_prefix_def)
next
  case (3 c d p)
  then show ?case by (cases s) (auto simp: step_char_def is_prefix_def)
qed

declare lit.simps [simp del]

lemma rx_match_SeqE:
  assumes "st' \<in> set (rx_match (Seq r1 r2) st)"
  obtains st1 where "st1 \<in> set (rx_match r1 st)" "st' \<in> set (rx_match r2 st1)"
  using assms by auto

lemma rx_match_GroupE:
  assumes "st' \<in> set (rx_match (Group n r) st)"
  obtains st1 where "st1 \<in> set (rx_match r st)"
    "st' = (fst st1, (snd st1)(n \<mapsto> take (length (fst st) - length (fst st1)) (fst st)))"
  using assms by auto

lemma rx_match_ChrE:
  assumes "st' \<in> set (rx_match (Chr c) st)"
  obtains r where "fst st = c # r" "st' = (r, snd st)"
  using assms by (cases "fst st") (auto simp: step_char_def split: if_splits)

section \<open>The first match\<close>

text \<open>
  \<open>first r st st'\<close>: the highest-priority way of matching \<open>r\<close> from \<open>st\<close> ends in \<open>st'\<close>.  The rules compose
  it along a pattern when no backtracking into an earlier part is needed.
\<close>

definition first :: "rx \<Rightarrow> rx_state \<Rightarrow> rx_state \<Rightarrow> bool" where
  "first r st st' \<longleftrightarrow> rx_match r st \<noteq> [] \<and> hd (rx_match r st) = st'"

named_theorems first_rules "how the first match composes"

lemma first_Eps [first_rules]: "first Eps st st"
  by (simp add: first_def)

lemma first_Chr [first_rules]: "first (Chr c) (c # s, k) (s, k)"
  by (simp add: first_def step_char_def)

lemma first_Any [first_rules]: "\<not> is_line_terminator c \<Longrightarrow> first Any (c # s, k) (s, k)"
  by (simp add: first_def step_char_def)

lemma first_Seq [first_rules]: "first r1 st st1 \<Longrightarrow> first r2 st1 st2 \<Longrightarrow> first (Seq r1 r2) st st2"
  by (cases "rx_match r1 st") (auto simp: first_def)

lemma first_Opt_some: "first r st st' \<Longrightarrow> length (fst st') < length (fst st) \<Longrightarrow> first (Opt r) st st'"
  by (cases "rx_match r st") (auto simp: first_def)

lemma first_Opt_none: "rx_match r st = [] \<Longrightarrow> first (Opt r) st st"
  by (simp add: first_def)

lemma first_Group [first_rules]: "first r (s, k) (s', k') \<Longrightarrow>
   first (Group n r) (s, k) (s', k'(n \<mapsto> take (length s - length s') s))"
  by (cases "rx_match r (s, k)") (auto simp: first_def)

lemma first_Group_app: "first r (a @ s, k) (s, k') \<Longrightarrow> first (Group n r) (a @ s, k) (s, k'(n \<mapsto> a))"
  by (drule first_Group [where n = n]) simp

lemma first_lit [first_rules]: "first (lit p) (p @ s, k) (s, k)"
  by (simp add: first_def rx_match_lit)

lemma first_Star_OneOf [first_rules]:
  "first (Star (OneOf cs)) (s, k) (dropWhile (\<lambda>x. x \<in> set cs) s, k)"
  by (simp add: first_def star_greedy_char rev_runs)

lemma first_Star_NoneOf [first_rules]:
  "first (Star (NoneOf cs)) (s, k) (dropWhile (\<lambda>x. x \<notin> set cs) s, k)"
  by (simp add: first_def star_greedy_char rev_runs)

lemma first_Star_Any [first_rules]:
  "first (Star Any) (s, k) (dropWhile (\<lambda>x. \<not> is_line_terminator x) s, k)"
  by (simp add: first_def star_greedy_char rev_runs)

lemma first_Plus_OneOf [first_rules]: "c \<in> set cs \<Longrightarrow>
   first (Plus (OneOf cs)) (c # s, k) (dropWhile (\<lambda>x. x \<in> set cs) s, k)"
  by (simp add: first_def Plus_def step_char_def star_greedy_char rev_runs)

lemma first_Plus_NoneOf [first_rules]: "c \<notin> set cs \<Longrightarrow>
   first (Plus (NoneOf cs)) (c # s, k) (dropWhile (\<lambda>x. x \<notin> set cs) s, k)"
  by (simp add: first_def Plus_def step_char_def star_greedy_char rev_runs)

lemma rx_search_first:
  "first r (s, no_caps) (s', k) \<Longrightarrow> rx_search r s =
     Some \<lparr>m_prefix = [], m_str = take (length s - length s') s, m_suffix = s', m_groups = k\<rparr>"
  by (cases "rx_match r (s, no_caps)")
     (auto simp: first_def rx_search_def rx_search_from.simps [of r "[]" s])

lemma rx_search_none:
  assumes "\<And>a t. s = a @ t \<Longrightarrow> rx_match r (t, no_caps) = []"
  shows "rx_search r s = None"
proof -
  have "\<forall>a t. s = a @ t \<longrightarrow> rx_match r (t, no_caps) = [] \<Longrightarrow> rx_search_from r seen s = None" for seen
  proof (induction r seen s rule: rx_search_from.induct)
    case (1 r seen s)
    from 1(2) have no: "rx_match r (s, no_caps) = []" by simp
    show ?case
    proof (cases s)
      case Nil
      with no show ?thesis by (simp add: rx_search_from.simps [of r seen "[]"])
    next
      case (Cons c s')
      with 1(2) have "\<forall>a t. s' = a @ t \<longrightarrow> rx_match r (t, no_caps) = []"
        by (metis append_Cons)
      with 1(1) [OF no Cons] no Cons show ?thesis
        by (simp add: rx_search_from.simps [of r seen "c # s'"])
    qed
  qed
  with assms show ?thesis by (simp add: rx_search_def)
qed

text \<open>A search that finds nothing in \<open>a\<close> and matches right behind it.\<close>

lemma rx_search_first_at:
  assumes "\<And>i. i < length a \<Longrightarrow> rx_match r (drop i (a @ s), no_caps) = []"
    and "first r (s, no_caps) (s', k)"
  shows "rx_search r (a @ s) =
    Some \<lparr>m_prefix = a, m_str = take (length s - length s') s, m_suffix = s', m_groups = k\<rparr>"
proof -
  have "rx_search_from r seen (a @ s) =
      Some \<lparr>m_prefix = rev seen @ a, m_str = take (length s - length s') s, m_suffix = s', m_groups = k\<rparr>" for seen
    using assms(1)
  proof (induction a arbitrary: seen)
    case Nil
    from assms(2) show ?case
      by (cases "rx_match r (s, no_caps)") (auto simp: first_def rx_search_from.simps [of r seen s])
  next
    case (Cons c a)
    from Cons.prems [of 0] have 0: "rx_match r (c # a @ s, no_caps) = []" by simp
    have "rx_match r (drop i (a @ s), no_caps) = []" if "i < length a" for i
      using Cons.prems [of "Suc i"] that by simp
    from Cons.IH [OF this, of "c # seen"] 0 show ?case
      by (simp add: rx_search_from.simps [of r seen "c # a @ s"])
  qed
  then show ?thesis by (simp add: rx_search_def)
qed

text \<open>
  A pattern that starts with a literal whose first character does not come back in it, as in
  \<open><title>\<close>: the search finds the first occurrence of the literal.
\<close>

lemma is_prefix_split:
  assumes "is_prefix p (d @ p @ t)" "p = c # p'" "c \<notin> set p'" "d \<noteq> []"
  shows "is_prefix p d"
proof (cases "length p \<le> length d")
  case True
  with assms(1) show ?thesis by (simp add: is_prefix_def)
next
  case False
  from assms(1) have "take (length p) (d @ p @ t) = p" by (simp add: is_prefix_def)
  then have "\<forall>i < length p. (d @ p @ t) ! i = p ! i" by (metis nth_take)
  with False have "(d @ p @ t) ! length d = p ! length d" by simp
  then have "p ! length d = c" by (simp add: nth_append assms(2))
  moreover obtain n where "length d = Suc n" using assms(4) by (cases d) auto
  ultimately have "p' ! n = c" "n < length p'" using False assms(2) by auto
  with assms(3) show ?thesis by (metis nth_mem)
qed

lemma rx_search_lit:
  assumes p: "p = c # p'" "c \<notin> set p'" and a: "find_str_index a p = None"
    and r: "first r (t, no_caps) (s', k)"
  shows "rx_search (Seq (lit p) r) (a @ p @ t) =
    Some \<lparr>m_prefix = a, m_str = take (length (p @ t) - length s') (p @ t), m_suffix = s', m_groups = k\<rparr>"
proof (rule rx_search_first_at)
  fix i assume i: "i < length a"
  have "\<not> is_prefix p (drop i (a @ p @ t))"
  proof
    assume "is_prefix p (drop i (a @ p @ t))"
    with i have "is_prefix p (drop i a @ p @ t)" by simp
    then have "is_prefix p (drop i a)" by (rule is_prefix_split [OF _ p]) (use i in simp)
    then obtain b where "drop i a = p @ b" by (auto simp: is_prefix_iff)
    then have "a = take i a @ p @ b" by (metis append_take_drop_id)
    with a show False by (auto simp: find_str_index_None)
  qed
  then show "rx_match (Seq (lit p) r) (drop i (a @ p @ t), no_caps) = []"
    by (simp add: rx_match_lit)
qed (rule first_Seq [OF first_lit r])

lemma rx_search_lit_app:
  assumes "p = c # p'" "c \<notin> set p'" "find_str_index a p = None"
    and "first r (v @ s', no_caps) (s', k)"
  shows "rx_search (Seq (lit p) r) (a @ p @ v @ s') =
    Some \<lparr>m_prefix = a, m_str = p @ v, m_suffix = s', m_groups = k\<rparr>"
proof -
  have "take (length (p @ v @ s') - length s') (p @ v @ s') = p @ v" by simp
  with rx_search_lit [OF assms] show ?thesis by simp
qed

lemma rx_search_lit_none:
  assumes "find_str_index s p = None"
  shows "rx_search (Seq (lit p) r) s = None"
proof (rule rx_search_none)
  fix a t assume "s = a @ t"
  with assms have "\<not> is_prefix p t" by (auto simp: find_str_index_None is_prefix_iff)
  then show "rx_match (Seq (lit p) r) (t, no_caps) = []" by (simp add: rx_match_lit)
qed

section \<open>Groups that a pattern does not set\<close>

primrec rx_groups :: "rx \<Rightarrow> nat set" where
  "rx_groups Eps = {}"
| "rx_groups (Chr c) = {}"
| "rx_groups Any = {}"
| "rx_groups (OneOf cs) = {}"
| "rx_groups (NoneOf cs) = {}"
| "rx_groups (Seq r1 r2) = rx_groups r1 \<union> rx_groups r2"
| "rx_groups (Opt r) = rx_groups r"
| "rx_groups (Star r) = rx_groups r"
| "rx_groups (LazyStar r) = rx_groups r"
| "rx_groups (Group n r) = insert n (rx_groups r)"
| "rx_groups Eol = {}"

lemma rx_groups_lit [simp]: "rx_groups (lit p) = {}"
  by (induction p rule: lit.induct) (simp_all add: lit.simps)

lemma star_greedy_caps:
  assumes "\<And>st st'. st' \<in> set (m st) \<Longrightarrow> snd st' n = snd st n"
  shows "st' \<in> set (star_greedy k m st) \<Longrightarrow> snd st' n = snd st n"
  by (induction k arbitrary: st) (auto dest: assms)

lemma star_lazy_caps:
  assumes "\<And>st st'. st' \<in> set (m st) \<Longrightarrow> snd st' n = snd st n"
  shows "st' \<in> set (star_lazy k m st) \<Longrightarrow> snd st' n = snd st n"
  by (induction k arbitrary: st) (auto dest: assms)

lemma rx_match_caps:
  "n \<notin> rx_groups r \<Longrightarrow> st' \<in> set (rx_match r st) \<Longrightarrow> snd st' n = snd st n"
proof (induction r arbitrary: st st')
  case (Seq r1 r2)
  then obtain st1 where "st1 \<in> set (rx_match r1 st)" "st' \<in> set (rx_match r2 st1)" by auto
  with Seq show ?case by (metis UnCI rx_groups.simps(6))
next
  case (Star r)
  show ?case
    by (rule star_greedy_caps [where m = "rx_match r"]) (use Star in auto)
next
  case (LazyStar r)
  show ?case
    by (rule star_lazy_caps [where m = "rx_match r"]) (use LazyStar in auto)
qed (auto simp: step_char_def split: list.splits if_splits)

text \<open>
  \<open>first_keeps n r\<close>: group \<open>n\<close>, although it may occur in \<open>r\<close>, takes no part in the first match.
\<close>

definition first_keeps :: "nat \<Rightarrow> rx \<Rightarrow> bool" where
  "first_keeps n r \<longleftrightarrow> (\<forall>st st'. first r st st' \<longrightarrow> snd st' n = snd st n)"

lemma first_keeps_Seq:
  assumes "n \<notin> rx_groups r1" "first_keeps n r2"
  shows "first_keeps n (Seq r1 r2)"
  unfolding first_keeps_def
proof (intro allI impI)
  fix st st' assume f: "first (Seq r1 r2) st st'"
  then obtain st1 where "st1 \<in> set (rx_match r1 st)" "first r2 st1 st'"
    using hd_concat_map_in [of "rx_match r2" "rx_match r1 st"] by (auto simp: first_def)
  with assms have "snd st' n = snd st1 n" "snd st1 n = snd st n"
    unfolding first_keeps_def by (blast, blast intro: rx_match_caps)
  then show "snd st' n = snd st n" by simp
qed

lemma first_keeps_Group: "first_keeps n r \<Longrightarrow> k \<noteq> n \<Longrightarrow> first_keeps n (Group k r)"
  unfolding first_keeps_def
proof (intro allI impI)
  fix st st' assume r: "\<forall>st st'. first r st st' \<longrightarrow> snd st' n = snd st n" and "k \<noteq> n"
    and f: "first (Group k r) st st'"
  then obtain st1 sts where m: "rx_match r st = st1 # sts"
    by (cases "rx_match r st") (auto simp: first_def)
  then have "first r st st1" by (simp add: first_def)
  with r have "snd st1 n = snd st n" by blast
  with f m \<open>k \<noteq> n\<close> show "snd st' n = snd st n" by (auto simp: first_def)
qed

lemma first_keeps_search:
  assumes "first_keeps n r" "rx_search r s = Some m"
  shows "m_groups m n = None"
proof -
  from rx_search_groups [of r "[]" s m] assms(2) obtain t
    where "first r (t, no_caps) (m_suffix m, m_groups m)"
    by (auto simp: rx_search_def first_def)
  with assms(1) have "snd (m_suffix m, m_groups m) n = snd (t, no_caps) n"
    unfolding first_keeps_def by blast
  then show ?thesis by (simp add: no_caps_def)
qed

end
