(* ===== verification/Utils.thy ===== *)
theory Utils
  imports Cpp_Stream Cpp_Regex
begin

text \<open>
  \<open>Include/Utils.h\<close>: character tests, trimming, lower case, percent-decoding of form data, and the
  conversion between URLs and the structure \<open>Link\<close> (\<open>LinkToURL\<close>, \<open>UrlToLink\<close>).

  The regular expression of \<open>UrlToLink\<close> is written in the source as an ordinary string literal, so
  the compiler drops the backslashes of \<open>\.\<close> and \<open>\/\<close> before \<open>std::regex\<close> sees them: the dot
  of the pattern matches any character.  The lemmas show what follows from that.
\<close>

section \<open>Data\<close>

definition letters :: string where
  "letters = ''abcdefghijklmnopqrstuvwxyzABCDEFGHIJKLMNOPQRSTUVWXYZ''"

datatype TProtocol = HTTP | HTTPS

record Link =
  protocol :: TProtocol
  host :: string
  query :: string

record TqueueItem =
  url :: string
  dept :: int

section \<open>Characters and strings\<close>

definition isAlpha :: "char \<Rightarrow> bool" where
  "isAlpha s = (if find_first_of letters [s] \<noteq> npos then True else False)"

definition blanks :: string where
  "blanks = [CHR '' '', CHR 0x09]"

definition trim :: "string \<Rightarrow> string res" where
  "trim s =
     bindR (erase s 0 (find_first_not_of s blanks)) (\<lambda>s.
     erase s (sz_add (find_last_not_of s blanks) 1) npos)"

definition toLower :: "string \<Rightarrow> string" where
  "toLower value = map tolower_c value"

text \<open>
  \<open>urlDecode\<close> declares \<open>int hex;\<close> without a value: when the extraction leaves it untouched the
  function reads an uninitialised variable, and the model returns \<open>None\<close>.
\<close>

definition low_byte :: "int \<Rightarrow> char" where
  "low_byte v = char_of (nat (v mod 256))"

lemma is_get_rest: "is_get s = (Some c, s') \<Longrightarrow> length (rest s') < length (rest s)"
  by (auto simp: is_get_def split: if_splits list.splits)

lemma read_hex_int_rest: "read_hex_int s = (v, s') \<Longrightarrow> length (rest s') \<le> length (rest s)"
  using read_hex_int_length [of s] by simp

function urlDecode_loop :: "istream \<Rightarrow> string \<Rightarrow> string option" where
  "urlDecode_loop iss res =
     (case is_get iss of
        (None, _) \<Rightarrow> Some res
      | (Some ch, iss) \<Rightarrow>
          if ch = CHR ''%'' then
            (case read_hex_int iss of
               (None, _) \<Rightarrow> None
             | (Some hex, iss) \<Rightarrow> urlDecode_loop iss (res @ [low_byte hex]))
          else urlDecode_loop iss (res @ [ch]))"
  by pat_completeness auto
termination
  by (relation "measure (\<lambda>(iss, res). length (rest iss))")
     (auto dest!: is_get_rest [OF sym] read_hex_int_rest [OF sym])

declare urlDecode_loop.simps [simp del]

definition urlDecode :: "string \<Rightarrow> string option" where
  "urlDecode encoded = urlDecode_loop (istream_of encoded) []"

definition convert_to_utf8 :: "string \<Rightarrow> string option" where
  "convert_to_utf8 str = (let url_decoded = urlDecode str in url_decoded)"

section \<open>Links\<close>

definition LinkToURL :: "Link \<Rightarrow> string" where
  "LinkToURL link =
     (if protocol link = HTTP then ''http://'' @ host link @ query link
      else ''https://'' @ host link @ query link)"

definition word_chars :: string where
  "word_chars = ''abcdefghijklmnopqrstuvwxyzABCDEFGHIJKLMNOPQRSTUVWXYZ0123456789_-''"

definition proto_rx :: rx where
  "proto_rx = Opt (Group 1 (Seq (lit ''http'') (Opt (Chr CHR ''s''))))"

definition slashes_rx :: rx where
  "slashes_rx = Opt (Group 2 (Seq (Opt (Chr CHR '':'')) (lit ''//'')))"

definition host_rx :: rx where
  "host_rx = Opt (Group 3 (Seq (Plus (OneOf word_chars)) (Seq Any (Plus (NoneOf ''/'')))))"

definition fragment_rx :: rx where
  "fragment_rx = Opt (Group 5 (Seq (Chr CHR ''#'') (Seq (Plus (NoneOf ''/'')) Eol)))"

definition query_rx :: rx where
  "query_rx = Group 4 (Seq (Chr CHR ''/'') (Seq (Star Any) fragment_rx))"

definition child_url_rx :: rx where
  "child_url_rx = Seq proto_rx (Seq slashes_rx (Seq host_rx query_rx))"

text \<open>
  \<open>tmp_link.protocol\<close> has no initialiser; the branch that would leave it so is \<open>uninit_protocol\<close>.
  Lemma \<open>child_url_group1\<close> shows it is never taken.
\<close>

definition uninit_protocol :: TProtocol where
  "uninit_protocol = undefined"

definition UrlToLink :: "string \<Rightarrow> Link \<Rightarrow> Link res" where
  "UrlToLink html parentUrl =
     (let sm = rx_search child_url_rx html;
          prot = (if length (sub_match sm 1) \<noteq> 0
                  then (if sub_match sm 1 = ''http'' then HTTP
                        else if sub_match sm 1 = ''https'' then HTTPS else uninit_protocol)
                  else protocol parentUrl);
          hst = (if length (sub_match sm 3) \<noteq> 0 then sub_match sm 3 else host parentUrl)
      in if length (sub_match sm 4) \<noteq> 0
         then if length (sub_match sm 5) = 0
              then Inr \<lparr>protocol = prot, host = hst, query = sub_match sm 4\<rparr>
              else bindR (substr (sub_match sm 4) 0 (sz_sub (length (sub_match sm 4)) (length (sub_match sm 5))))
                (\<lambda>q. Inr \<lparr>protocol = prot, host = hst, query = q\<rparr>)
         else Inr \<lparr>protocol = prot, host = hst, query = ''/''\<rparr>)"

section \<open>Facts about the string functions\<close>

definition is_blank :: "char \<Rightarrow> bool" where
  "is_blank c \<longleftrightarrow> c \<in> set blanks"

definition strip :: "string \<Rightarrow> string" where
  "strip s = rev (dropWhile is_blank (rev (dropWhile is_blank s)))"

lemma isAlpha_iff [simp]: "isAlpha c \<longleftrightarrow> c \<in> set letters"
  by (auto simp: isAlpha_def find_first_of_def pos_of_def npos_def letters_def)

lemma trim_eq [simp]: "fits s \<Longrightarrow> trim s = Inr (strip s)"
  by (simp add: trim_def erase_prefix_not_of erase_suffix_not_of [unfolded One_nat_def] fits_dropWhile strip_def is_blank_def [abs_def])

lemma length_strip: "length (strip s) \<le> length s"
  by (metis (no_types) strip_def length_dropWhile_le length_rev order_trans)

lemma fits_strip [intro]: "fits s \<Longrightarrow> fits (strip s)"
  by (erule fits_shorter) (rule length_strip)

lemma strip_ends: "strip s \<noteq> [] \<Longrightarrow> \<not> is_blank (hd (strip s)) \<and> \<not> is_blank (last (strip s))"
proof -
  let ?d = "dropWhile is_blank s"
  assume "strip s \<noteq> []"
  then have ne: "dropWhile is_blank (rev ?d) \<noteq> []" by (simp add: strip_def)
  from hd_dropWhile [OF ne] have "\<not> is_blank (last (strip s))" by (simp add: strip_def last_rev)
  moreover obtain a where "?d = strip s @ a"
    by (metis strip_def rev_append rev_rev_ident takeWhile_dropWhile_id)
  with \<open>strip s \<noteq> []\<close> have "hd ?d = hd (strip s)" "?d \<noteq> []" by auto
  with hd_dropWhile [of is_blank s] have "\<not> is_blank (hd (strip s))" by simp
  ultimately show ?thesis by simp
qed

lemma strip_id: "s = [] \<or> \<not> is_blank (hd s) \<and> \<not> is_blank (last s) \<Longrightarrow> strip s = s"
proof (cases "s = []")
  case False
  assume "s = [] \<or> \<not> is_blank (hd s) \<and> \<not> is_blank (last s)"
  with False have "dropWhile is_blank s = s" "dropWhile is_blank (rev s) = rev s"
    by (auto simp: dropWhile_none hd_rev)
  then show ?thesis by (simp add: strip_def)
qed (simp add: strip_def)

lemma strip_strip [simp]: "strip (strip s) = strip s"
  using strip_ends strip_id by blast

lemma strip_blanks: "\<forall>c \<in> set s. is_blank c \<Longrightarrow> strip s = []"
  by (simp add: strip_def dropWhile_all)

lemma strip_append_blanks:
  assumes "\<forall>c \<in> set a. is_blank c" "\<forall>c \<in> set b. is_blank c"
  shows "strip (a @ s @ b) = strip s"
proof -
  have drop: "\<forall>c \<in> set l. is_blank c \<Longrightarrow> dropWhile is_blank (l @ x) = dropWhile is_blank x" for l x
    by (induction l) auto
  show ?thesis
    by (cases "\<forall>c \<in> set s. is_blank c")
       (use assms in \<open>auto simp: strip_def dropWhile_append dropWhile_all drop\<close>)
qed

lemma tolower_idem [simp]: "tolower_c (tolower_c c) = tolower_c c"
proof (cases "CHR ''A'' \<le> c \<and> c \<le> CHR ''Z''")
  case True
  then have "(of_char c :: nat) + 32 < 256" "90 < (of_char c :: nat) + 32"
    by (auto simp: less_eq_char_def)
  then show ?thesis by (auto simp: tolower_c_def less_eq_char_def)
qed (auto simp: tolower_c_def)

lemma tolower_letters: "c \<in> set letters \<Longrightarrow> tolower_c c \<in> set (take 26 letters)"
proof -
  have "list_all (\<lambda>c. tolower_c c \<in> set (take 26 letters)) letters" by code_simp
  then show "c \<in> set letters \<Longrightarrow> tolower_c c \<in> set (take 26 letters)"
    by (simp add: list_all_iff)
qed

lemma toLower_idem [simp]: "toLower (toLower s) = toLower s"
  by (simp add: toLower_def)

lemma length_toLower [simp]: "length (toLower s) = length s"
  by (simp add: toLower_def)

section \<open>Facts about \<open>urlDecode\<close>\<close>

lemma urlDecode_loop_step:
  assumes "read_hex_int \<lparr>rest = s, eofbit = False, failbit = False\<rparr> = (Some v, iss)"
  shows "urlDecode_loop (istream_of (CHR ''%'' # s)) res = urlDecode_loop iss (res @ [low_byte v])"
  using assms
  by (subst urlDecode_loop.simps) (simp add: is_get_def istream_of_def good_def)

lemma urlDecode_loop_plain:
  "c \<noteq> CHR ''%'' \<Longrightarrow> urlDecode_loop (istream_of (c # s)) res = urlDecode_loop (istream_of s) (res @ [c])"
  by (subst urlDecode_loop.simps) (simp add: is_get_def istream_of_def good_def)

lemma urlDecode_loop_stop: "\<not> good s \<or> rest s = [] \<Longrightarrow> urlDecode_loop s res = Some res"
  by (subst urlDecode_loop.simps) (simp add: is_get_def)

lemma urlDecode_loop_no_percent:
  "CHR ''%'' \<notin> set s \<Longrightarrow> urlDecode_loop (istream_of s) res = Some (res @ s)"
proof (induction s arbitrary: res)
  case Nil
  then show ?case by (simp add: urlDecode_loop_stop istream_of_def)
next
  case (Cons c s)
  then have "c \<noteq> CHR ''%''" "CHR ''%'' \<notin> set s" by auto
  with Cons.IH show ?case by (simp add: urlDecode_loop_plain)
qed

text \<open>The encoding the decoder is made for: every byte as \<open>%\<close> and two hexadecimal digits.\<close>

definition hex_digit_char :: "nat \<Rightarrow> char" where
  "hex_digit_char n = (''0123456789ABCDEF'' ! n)"

definition pct_byte :: "char \<Rightarrow> string" where
  "pct_byte c = [CHR ''%'', hex_digit_char (of_char c div 16), hex_digit_char (of_char c mod 16)]"

lemma hex_digit_char_facts:
  assumes "n < 16"
  shows "is_xdigit_c (hex_digit_char n) \<and> xdigit_val (hex_digit_char n) = n \<and>
    \<not> is_space_c (hex_digit_char n) \<and> hex_digit_char n \<notin> {CHR ''x'', CHR ''X'', CHR ''+'', CHR ''-''}"
proof -
  have "list_all (\<lambda>n. is_xdigit_c (hex_digit_char n) \<and> xdigit_val (hex_digit_char n) = n \<and>
    \<not> is_space_c (hex_digit_char n) \<and> hex_digit_char n \<notin> {CHR ''x'', CHR ''X'', CHR ''+'', CHR ''-''}) [0..<16]"
    by code_simp
  with assms show ?thesis by (simp add: list_all_iff)
qed

lemma percent_not_xdigit: "\<not> is_xdigit_c CHR ''%''"
  by code_simp

lemma low_byte_of_char [simp]: "low_byte (int (of_char c)) = c"
  by (simp add: low_byte_def nat_mod_distrib)

lemma int_small: "n < 256 \<Longrightarrow> int n \<le> INT_MAX"
  by (simp add: INT_MAX_def)

lemma read_hex_pct:
  assumes "s = [] \<or> hd s = CHR ''%''"
  shows "read_hex_int \<lparr>rest = tl (pct_byte c) @ s, eofbit = False, failbit = False\<rparr> =
    (Some (int (of_char c)), \<lparr>rest = s, eofbit = (s = []), failbit = False\<rparr>)"
proof -
  let ?h = "hex_digit_char (of_char c div 16)" and ?l = "hex_digit_char (of_char c mod 16)"
  have "(of_char c :: nat) < 256" by simp
  then have "(of_char c :: nat) div 16 < 16" "(of_char c :: nat) mod 16 < 16"
    by (simp_all add: less_mult_imp_div_less)
  note facts = this [THEN hex_digit_char_facts]
  from assms have t: "takeWhile is_xdigit_c s = []" "dropWhile is_xdigit_c s = s"
    using percent_not_xdigit by (cases s; auto)+
  have "split_0x (?h # ?l # s) = (False, ?h # ?l # s)"
    using facts by (simp add: split_0x_def)
  moreover have "split_sign (?h # ?l # s) = (False, ?h # ?l # s)"
    using facts by (simp add: split_sign_def)
  moreover have "of_char c div 16 * 16 + of_char c mod 16 = (of_char c :: nat)" by simp
  moreover have "int (of_char c :: nat) \<le> INT_MAX"
    using \<open>(of_char c :: nat) < 256\<close> int_small by blast
  ultimately show ?thesis
    using facts t by (simp add: read_hex_int_def pct_byte_def good_def Let_def INT_MIN_def)
qed

lemma urlDecode_loop_pct:
  "urlDecode_loop \<lparr>rest = concat (map pct_byte s), eofbit = e, failbit = False\<rparr> res = Some (res @ s)"
  if "e \<Longrightarrow> s = []"
  using that
proof (induction s arbitrary: e res)
  case Nil
  then show ?case by (simp add: urlDecode_loop_stop)
next
  case (Cons c s)
  let ?t = "concat (map pct_byte s)"
  have "?t = [] \<or> hd ?t = CHR ''%''" by (cases s) (auto simp: pct_byte_def)
  note r = read_hex_pct [OF this, of c]
  have t: "?t = [] \<Longrightarrow> s = []" by (cases s) (auto simp: pct_byte_def)
  have eq: "concat (map pct_byte (c # s)) = CHR ''%'' # tl (pct_byte c) @ ?t"
    by (simp add: pct_byte_def)
  have e: "e = False" using Cons.prems by auto
  have "urlDecode_loop \<lparr>rest = concat (map pct_byte (c # s)), eofbit = e, failbit = False\<rparr> res =
      urlDecode_loop \<lparr>rest = ?t, eofbit = (?t = []), failbit = False\<rparr> (res @ [c])"
    using urlDecode_loop_step [OF r, of res] unfolding eq e by (simp add: istream_of_def)
  also have "\<dots> = Some (res @ c # s)"
    using Cons.IH [of "?t = []" "res @ [c]"] t by simp
  finally show ?case .
qed

lemma urlDecode_pct_all: "urlDecode (concat (map pct_byte s)) = Some s"
  using urlDecode_loop_pct [of False s "[]"] by (simp add: urlDecode_def istream_of_def)


section \<open>Facts about \<open>UrlToLink\<close>\<close>

lemma word_chars_facts:
  "CHR ''/'' \<notin> set word_chars" "CHR '':'' \<notin> set word_chars" "CHR ''#'' \<notin> set word_chars"
  by code_simp+

text \<open>Group 1 is empty, http or https, so \<open>protocol\<close> is always assigned.\<close>

lemma proto_rx_match: "st' \<in> set (rx_match proto_rx (s, k)) \<Longrightarrow>
   snd st' 1 \<in> {k 1, Some ''http'', Some ''https''}"
proof -
  assume "st' \<in> set (rx_match proto_rx (s, k))"
  then consider "st' = (s, k)" | "st' \<in> set (rx_match (Group 1 (Seq (lit ''http'') (Opt (Chr CHR ''s'')))) (s, k))"
    by (auto simp: proto_rx_def)
  then show ?thesis
  proof cases
    case 2
    then obtain st1 where st1: "st1 \<in> set (rx_match (Seq (lit ''http'') (Opt (Chr CHR ''s''))) (s, k))"
      and st': "st' = (fst st1, (snd st1)(1 \<mapsto> take (length s - length (fst st1)) s))"
      by (auto elim: rx_match_GroupE simp del: rx_match.simps)
    from st1 obtain st2 where "st2 \<in> set (rx_match (lit ''http'') (s, k))"
      and st2: "st1 \<in> set (rx_match (Opt (Chr CHR ''s'')) st2)"
      by (rule rx_match_SeqE)
    then obtain r where r: "s = ''http'' @ r" and "st2 = (r, k)"
      by (auto simp: rx_match_lit is_prefix_iff split: if_splits)
    with st2 have "fst st1 = r \<or> r = CHR ''s'' # fst st1"
      by (auto simp: step_char_def split: list.splits if_splits)
    with r st' show ?thesis by auto
  qed simp
qed

lemma child_rx_groups [simp]:
  "rx_groups proto_rx = {1}" "rx_groups slashes_rx = {2}" "rx_groups host_rx = {3}"
  "rx_groups fragment_rx = {5}" "rx_groups query_rx = {4, 5}"
  by (auto simp: proto_rx_def slashes_rx_def host_rx_def fragment_rx_def query_rx_def Plus_def)

lemma query_rx_caps: "st' \<in> set (rx_match query_rx st) \<Longrightarrow> \<exists>t. snd st' 4 = Some (CHR ''/'' # t)"
proof -
  assume "st' \<in> set (rx_match query_rx st)"
  then obtain st1 where st1: "st1 \<in> set (rx_match (Seq (Chr CHR ''/'') (Seq (Star Any) fragment_rx)) st)"
    and st': "snd st' 4 = Some (take (length (fst st) - length (fst st1)) (fst st))"
    by (auto simp: query_rx_def elim: rx_match_GroupE simp del: rx_match.simps)
  from st1 obtain st0 where "st0 \<in> set (rx_match (Chr CHR ''/'') st)"
    and st0: "st1 \<in> set (rx_match (Seq (Star Any) fragment_rx) st0)"
    by (rule rx_match_SeqE)
  from this(1) obtain r where r: "fst st = CHR ''/'' # r" "st0 = (r, snd st)" by (rule rx_match_ChrE)
  from rx_match_length [OF st0] have "length (fst st) - length (fst st1) = Suc (length r - length (fst st1))"
    using r by simp
  with st' r show ?thesis by simp
qed

lemma child_url_caps:
  assumes "first child_url_rx (s, no_caps) st"
  shows "snd st 1 \<in> {None, Some ''http'', Some ''https''}" "\<exists>t. snd st 4 = Some (CHR ''/'' # t)"
proof -
  from assms have "st \<in> set (rx_match child_url_rx (s, no_caps))" by (auto simp: first_def)
  then obtain st1 st2 st3 where m: "st1 \<in> set (rx_match proto_rx (s, no_caps))"
    "st2 \<in> set (rx_match slashes_rx st1)" "st3 \<in> set (rx_match host_rx st2)" "st \<in> set (rx_match query_rx st3)"
    unfolding child_url_rx_def by (elim rx_match_SeqE)
  then have "snd st 1 = snd st1 1"
    using rx_match_caps [of 1 query_rx st st3] rx_match_caps [of 1 host_rx st3 st2]
      rx_match_caps [of 1 slashes_rx st2 st1] by simp
  moreover from m(1) have "snd st1 1 \<in> {None, Some ''http'', Some ''https''}"
    using proto_rx_match [of st1 s no_caps] by (simp add: no_caps_def)
  ultimately show "snd st 1 \<in> {None, Some ''http'', Some ''https''}" by simp
  from m(4) show "\<exists>t. snd st 4 = Some (CHR ''/'' # t)" by (rule query_rx_caps)
qed

lemma child_url_search:
  assumes "rx_search child_url_rx s = Some m"
  shows "m_groups m 1 \<in> {None, Some ''http'', Some ''https''}" "\<exists>t. m_groups m 4 = Some (CHR ''/'' # t)"
proof -
  from assms rx_search_groups [of child_url_rx "[]" s m] obtain t
    where "first child_url_rx (t, no_caps) (m_suffix m, m_groups m)"
    by (auto simp: rx_search_def first_def)
  note c = child_url_caps [OF this]
  show "m_groups m 1 \<in> {None, Some ''http'', Some ''https''}" using c(1) by simp
  show "\<exists>t. m_groups m 4 = Some (CHR ''/'' # t)" using c(2) by simp
qed

text \<open>
  \<open>.*\<close> reads up to the end of the line, where no \<open>#\<close> can follow: the optional fragment group never
  takes part in the match.
\<close>

lemma fragment_rx_none: "\<not> (\<exists>r. s = CHR ''#'' # r) \<Longrightarrow> rx_match fragment_rx (s, k) = [(s, k)]"
  by (cases s) (auto simp: fragment_rx_def step_char_def)

lemma first_fragment: "first (Seq (Star Any) fragment_rx) (s, k) (dropWhile (\<lambda>x. \<not> is_line_terminator x) s, k)"
proof (rule first_Seq [OF first_Star_Any])
  let ?d = "dropWhile (\<lambda>x. \<not> is_line_terminator x) s"
  have "\<not> (\<exists>r. ?d = CHR ''#'' # r)"
  proof
    assume "\<exists>r. ?d = CHR ''#'' # r"
    then obtain r where d: "?d = CHR ''#'' # r" ..
    then have "?d \<noteq> []" by simp
    from hd_dropWhile [OF this] have "is_line_terminator CHR ''#''" unfolding d by simp
    then show False by (simp add: is_line_terminator_def)
  qed
  then show "first fragment_rx (?d, k) (?d, k)" by (simp add: first_def fragment_rx_none)
qed

lemma first_keeps_fragment: "first_keeps 5 (Seq (Star Any) fragment_rx)"
  unfolding first_keeps_def
proof (intro allI impI)
  fix st st' assume "first (Seq (Star Any) fragment_rx) st st'"
  with first_fragment [of "fst st" "snd st"] show "snd st' 5 = snd st 5" by (auto simp: first_def)
qed

lemma child_url_group5: "sub_match (rx_search child_url_rx s) 5 = []"
proof -
  have "first_keeps 5 child_url_rx"
    unfolding child_url_rx_def query_rx_def
    by (intro first_keeps_Seq first_keeps_Group first_keeps_fragment) (auto simp: child_rx_groups)
  then show ?thesis
    by (auto simp: sub_match_def dest: first_keeps_search split: option.split)
qed

lemma first_query: "first query_rx (CHR ''/'' # s, k)
  (dropWhile (\<lambda>x. \<not> is_line_terminator x) s, k(4 \<mapsto> CHR ''/'' # takeWhile (\<lambda>x. \<not> is_line_terminator x) s))"
proof -
  let ?d = "dropWhile (\<lambda>x. \<not> is_line_terminator x) s" and ?t = "takeWhile (\<lambda>x. \<not> is_line_terminator x) s"
  have eq: "CHR ''/'' # s = (CHR ''/'' # ?t) @ ?d" by simp
  have "first (Seq (Chr CHR ''/'') (Seq (Star Any) fragment_rx)) ((CHR ''/'' # ?t) @ ?d, k) (?d, k)"
    unfolding eq [symmetric] by (rule first_Seq [OF first_Chr first_fragment])
  from first_Group_app [OF this, of 4] show ?thesis
    unfolding query_rx_def eq [symmetric] .
qed

text \<open>The normal form of every result: nothing is thrown and the query is group 4 whole.\<close>

lemma UrlToLink_eq: "UrlToLink s p =
   (let sm = rx_search child_url_rx s in
    Inr \<lparr>protocol = (if sub_match sm 1 = ''http'' then HTTP
                     else if sub_match sm 1 = ''https'' then HTTPS else protocol p),
         host = (if sub_match sm 3 \<noteq> [] then sub_match sm 3 else host p),
         query = (if sub_match sm 4 \<noteq> [] then sub_match sm 4 else ''/'')\<rparr>)"
proof -
  have "sub_match (rx_search child_url_rx s) 1 \<in> {[], ''http'', ''https''}"
    using child_url_search(1) [of s] by (auto simp: sub_match_def split: option.splits) 
  then show ?thesis
    by (auto simp: UrlToLink_def Let_def child_url_group5)
qed

text \<open>URLs whose host and query the pattern takes apart without backtracking.\<close>

definition regular_host :: "string \<Rightarrow> bool" where
  "regular_host h \<longleftrightarrow> h \<noteq> [] \<and> hd h \<in> set word_chars \<and>
     (case dropWhile (\<lambda>c. c \<in> set word_chars) h of
        [] \<Rightarrow> False
      | c # b \<Rightarrow> c \<noteq> CHR ''/'' \<and> \<not> is_line_terminator c \<and> b \<noteq> [] \<and> CHR ''/'' \<notin> set b)"

definition regular_query :: "string \<Rightarrow> bool" where
  "regular_query q \<longleftrightarrow> q \<noteq> [] \<and> hd q = CHR ''/'' \<and> list_all (\<lambda>c. \<not> is_line_terminator c) q"

lemma regular_hostE:
  assumes "regular_host h"
  obtains w a c d b where "h = w # a @ c # d # b" "w \<in> set word_chars" "set a \<subseteq> set word_chars"
    "c \<notin> set word_chars" "c \<noteq> CHR ''/''" "\<not> is_line_terminator c" "d \<noteq> CHR ''/''" "CHR ''/'' \<notin> set b"
proof -
  from assms obtain w h' where h: "h = w # h'" "w \<in> set word_chars"
    by (cases h) (auto simp: regular_host_def)
  with assms obtain c b' where d: "dropWhile (\<lambda>c. c \<in> set word_chars) h' = c # b'"
    and c: "c \<noteq> CHR ''/''" "\<not> is_line_terminator c" and "b' \<noteq> []" "CHR ''/'' \<notin> set b'"
    by (auto simp: regular_host_def split: list.splits)
  then obtain d b where b': "b' = d # b" "d \<noteq> CHR ''/''" "CHR ''/'' \<notin> set b" by (cases b') auto
  have "c \<notin> set word_chars" using d by (metis dropWhile_eq_Cons_conv)
  moreover have "h' = takeWhile (\<lambda>c. c \<in> set word_chars) h' @ c # d # b"
    using takeWhile_dropWhile_id [of "\<lambda>c. c \<in> set word_chars" h'] d b' by simp
  moreover have "set (takeWhile (\<lambda>c. c \<in> set word_chars) h') \<subseteq> set word_chars"
    by (auto dest: set_takeWhileD)
  ultimately show thesis using that h c b' by metis
qed

lemma first_host:
  assumes "regular_host h"
  shows "first host_rx (h @ CHR ''/'' # q, k) (CHR ''/'' # q, k(3 \<mapsto> h))"
proof -
  from assms obtain w a c d b where h: "h = w # a @ c # d # b" "w \<in> set word_chars" "set a \<subseteq> set word_chars"
    "c \<notin> set word_chars" "c \<noteq> CHR ''/''" "\<not> is_line_terminator c" "d \<noteq> CHR ''/''" "CHR ''/'' \<notin> set b"
    by (rule regular_hostE)
  let ?r = "Seq (Plus (OneOf word_chars)) (Seq Any (Plus (NoneOf ''/'')))"
  have "dropWhile (\<lambda>x. x \<in> set word_chars) (a @ c # d # b @ CHR ''/'' # q) = c # d # b @ CHR ''/'' # q"
    using h by (intro dropWhile_stop) auto
  with first_Plus_OneOf [OF h(2), of "a @ c # d # b @ CHR ''/'' # q" k]
  have 1: "first (Plus (OneOf word_chars)) (h @ CHR ''/'' # q, k) (c # d # b @ CHR ''/'' # q, k)"
    using h by simp
  have "dropWhile (\<lambda>x. x \<notin> set ''/'') (b @ CHR ''/'' # q) = CHR ''/'' # q"
    using h by (intro dropWhile_stop) auto
  with first_Plus_NoneOf [of d "''/''" "b @ CHR ''/'' # q" k]
  have 2: "first (Plus (NoneOf ''/'')) (d # b @ CHR ''/'' # q, k) (CHR ''/'' # q, k)"
    using h by simp
  have "first ?r (h @ CHR ''/'' # q, k) (CHR ''/'' # q, k)"
    by (intro first_Seq [OF 1] first_Seq [OF first_Any 2] h)
  from first_Opt_some [OF first_Group_app [OF this, of 3]] h(1)
  show ?thesis by (simp add: host_rx_def)
qed

lemma first_proto_slashes:
  assumes "regular_host h"
  shows "first proto_rx (''http://'' @ h @ q, k) (''://'' @ h @ q, k(1 \<mapsto> ''http''))"
    and "first proto_rx (''https://'' @ h @ q, k) (''://'' @ h @ q, k(1 \<mapsto> ''https''))"
    and "first slashes_rx (''://'' @ h @ q, k) (h @ q, k(2 \<mapsto> ''://''))"
proof -
  have "first (Seq (lit ''http'') (Opt (Chr CHR ''s''))) (''http'' @ ''://'' @ h @ q, k) (''://'' @ h @ q, k)"
    by (intro first_Seq [OF first_lit] first_Opt_none) (simp add: step_char_def)
  from first_Opt_some [OF first_Group [OF this, of 1]]
  show "first proto_rx (''http://'' @ h @ q, k) (''://'' @ h @ q, k(1 \<mapsto> ''http''))"
    by (simp add: proto_rx_def)
  have "first (Seq (lit ''http'') (Opt (Chr CHR ''s''))) (''http'' @ ''s://'' @ h @ q, k) (''://'' @ h @ q, k)"
    by (intro first_Seq [OF first_lit] first_Opt_some) (simp_all add: first_def step_char_def)
  from first_Opt_some [OF first_Group [OF this, of 1]]
  show "first proto_rx (''https://'' @ h @ q, k) (''://'' @ h @ q, k(1 \<mapsto> ''https''))"
    by (simp add: proto_rx_def)
  have "first (Seq (Opt (Chr CHR '':'')) (lit ''//'')) (CHR '':'' # ''//'' @ h @ q, k) (h @ q, k)"
    by (rule first_Seq [OF first_Opt_some [OF first_Chr]]) (simp, rule first_lit)
  from first_Opt_some [OF first_Group [OF this, of 2]]
  show "first slashes_rx (''://'' @ h @ q, k) (h @ q, k(2 \<mapsto> ''://''))"
    by (simp add: slashes_rx_def)
qed

lemma first_path:
  assumes "q = [] \<or> hd q \<noteq> CHR ''/''"
  shows "first child_url_rx (CHR ''/'' # q, k)
    (dropWhile (\<lambda>x. \<not> is_line_terminator x) q,
     k(4 \<mapsto> CHR ''/'' # takeWhile (\<lambda>x. \<not> is_line_terminator x) q))"
proof -
  let ?s = "CHR ''/'' # q"
  have 1: "rx_match (Group 1 (Seq (lit ''http'') (Opt (Chr CHR ''s'')))) (?s, k) = []"
    by (simp add: rx_match_lit is_prefix_def)
  have 2: "rx_match (Group 2 (Seq (Opt (Chr CHR '':'')) (lit ''//''))) (?s, k) = []"
    using assms by (cases q) (auto simp: step_char_def rx_match_lit is_prefix_def)
  have 3: "rx_match (Group 3 (Seq (Plus (OneOf word_chars)) (Seq Any (Plus (NoneOf ''/''))))) (?s, k) = []"
    using word_chars_facts by (simp add: Plus_def step_char_def)
  show ?thesis
    unfolding child_url_rx_def proto_rx_def slashes_rx_def host_rx_def
    by (intro first_Seq [OF first_Opt_none [OF 1]] first_Seq [OF first_Opt_none [OF 2]]
        first_Seq [OF first_Opt_none [OF 3]] first_query)
qed

lemma query_rx_no_slash: "CHR ''/'' \<notin> set s \<Longrightarrow> rx_match query_rx (s, k) = []"
  by (cases s) (auto simp: query_rx_def step_char_def)

lemma child_url_no_slash:
  assumes "CHR ''/'' \<notin> set s"
  shows "rx_search child_url_rx s = None"
proof (rule rx_search_none, rule ccontr)
  fix a t assume s: "s = a @ t" and "rx_match child_url_rx (t, no_caps) \<noteq> []"
  then obtain st where "st \<in> set (rx_match child_url_rx (t, no_caps))"
    by (metis list.set_intros(1) neq_Nil_conv)
  then obtain st1 st2 st3 where m: "st1 \<in> set (rx_match proto_rx (t, no_caps))"
    "st2 \<in> set (rx_match slashes_rx st1)" "st3 \<in> set (rx_match host_rx st2)" "st \<in> set (rx_match query_rx st3)"
    unfolding child_url_rx_def by (elim rx_match_SeqE)
  from m(1-3) have "suffix (fst st3) t"
    by (auto dest!: rx_match_suffix intro: suffix_order.trans)
  with assms s have "CHR ''/'' \<notin> set (fst st3)"
    by (auto simp: suffix_def)
  with query_rx_no_slash [of "fst st3" "snd st3"] m(4) show False by simp
qed

lemma toLower_letters: "set s \<subseteq> set letters \<Longrightarrow> set (toLower s) \<subseteq> set (take 26 letters)"
  using tolower_letters by (auto simp: toLower_def)

section \<open>Properties\<close>

text \<open>C7. An absolute URL survives the conversion.  Let the host begin with a letter, digit, underscore or hyphen, have a
  separator after its first label (a character of another kind, no slash and no line break) and behind it at least one
  character but no slash; and let the query begin with a slash and contain no line break.  Then building the URL text
  of the link with \<open>LinkToURL\<close> and parsing it with \<open>UrlToLink\<close>, relative to any parent page, gives the link back.\<close>

theorem UrlToLink_LinkToURL:
  assumes "regular_host (host l)" and "regular_query (query l)"
  shows "UrlToLink (LinkToURL l) p = Inr l"
proof -
  from assms(2) obtain q where q: "query l = CHR ''/'' # q" "\<forall>c \<in> set q. \<not> is_line_terminator c"
    by (cases "query l") (auto simp: regular_query_def list_all_iff)
  note fq = first_query [of q, simplified q(2) takeWhile_all [OF q(2)] dropWhile_all [OF q(2)]]
  note fs = first_proto_slashes [OF assms(1), of "CHR ''/'' # q"]
  have "first child_url_rx (LinkToURL l, no_caps) ([], no_caps(
      1 \<mapsto> (if protocol l = HTTP then ''http'' else ''https''), 2 \<mapsto> ''://'', 3 \<mapsto> host l, 4 \<mapsto> query l))"
    unfolding child_url_rx_def LinkToURL_def
    using first_Seq [OF fs(1) first_Seq [OF fs(3) first_Seq [OF first_host [OF assms(1), of q] fq]]]
      first_Seq [OF fs(2) first_Seq [OF fs(3) first_Seq [OF first_host [OF assms(1), of q] fq]]]
    by (simp add: q(1))
  note sm = rx_search_first [OF this]
  have "host l \<noteq> []" using assms(1) by (auto simp: regular_host_def)
  then show ?thesis
    using q(1) by (cases "protocol l") (auto simp: UrlToLink_eq Let_def sm sub_match_def intro!: Link.equality)
qed

theorem UrlToLink_LinkToURL_witness:
  "UrlToLink (LinkToURL \<lparr>protocol = HTTPS, host = ''wiki.openssl.org'', query = ''/index.php''\<rparr>)
     \<lparr>protocol = HTTP, host = ''a'', query = ''/''\<rparr>
   = Inr \<lparr>protocol = HTTPS, host = ''wiki.openssl.org'', query = ''/index.php''\<rparr>"
  by (rule UrlToLink_LinkToURL) (simp_all, code_simp+)

text \<open>A link that is an absolute path stays on the parent's host with the parent's protocol,
  and its query is the whole path up to the end of the line: a fragment introduced by \<open>#\<close> is kept,
  although the pattern has a group meant to cut it off.\<close>

theorem UrlToLink_path:
  assumes "q = [] \<or> hd q \<noteq> CHR ''/''"
  shows "UrlToLink (CHR ''/'' # q) p =
    Inr (p\<lparr>query := CHR ''/'' # takeWhile (\<lambda>c. \<not> is_line_terminator c) q\<rparr>)"
  by (cases p) (simp add: UrlToLink_eq rx_search_first [OF first_path [OF assms]] sub_match_def no_caps_def)

theorem UrlToLink_path_witness:
  "UrlToLink ''/a.html#top'' \<lparr>protocol = HTTP, host = ''h'', query = ''/''\<rparr>
   = Inr \<lparr>protocol = HTTP, host = ''h'', query = ''/a.html#top''\<rparr>"
  using UrlToLink_path [of "''a.html#top''" "\<lparr>protocol = HTTP, host = ''h'', query = ''/''\<rparr>"]
  by (simp add: is_line_terminator_def)

text \<open>C40. Whatever the text of a link is, \<open>UrlToLink\<close> does not throw, returns a query
  that starts with a slash, and never an empty host unless the parent has none.\<close>

theorem UrlToLink_total:
  "\<exists>l. UrlToLink s p = Inr l \<and> (\<exists>q. query l = CHR ''/'' # q) \<and> (host l = host p \<or> host l \<noteq> [])"
proof (cases "rx_search child_url_rx s")
  case None
  then show ?thesis by (simp add: UrlToLink_eq sub_match_def)
next
  case (Some m)
  with child_url_search(2) [of s m] show ?thesis by (auto simp: UrlToLink_eq sub_match_def Let_def)
qed

theorem UrlToLink_total_witness:
  "\<exists>l. UrlToLink ''mailto:me'' \<lparr>protocol = HTTP, host = ''h'', query = ''/''\<rparr> = Inr l \<and>
     (\<exists>q. query l = CHR ''/'' # q) \<and> host l \<noteq> []"
  using UrlToLink_total [of "''mailto:me''" "\<lparr>protocol = HTTP, host = ''h'', query = ''/''\<rparr>"] by force

text \<open>A relative link without a slash, such as \<open>page.html\<close>, is resolved to the root of the
  parent's host: the page name is lost.\<close>

theorem UrlToLink_no_slash:
  assumes "CHR ''/'' \<notin> set s"
  shows "UrlToLink s p = Inr (p\<lparr>query := ''/''\<rparr>)"
  by (cases p) (simp add: UrlToLink_eq child_url_no_slash [OF assms] sub_match_def)

theorem UrlToLink_no_slash_witness:
  "UrlToLink ''page.html'' \<lparr>protocol = HTTP, host = ''h'', query = ''/x''\<rparr>
   = Inr \<lparr>protocol = HTTP, host = ''h'', query = ''/''\<rparr>"
  using UrlToLink_no_slash [of "''page.html''" "\<lparr>protocol = HTTP, host = ''h'', query = ''/x''\<rparr>"] by simp

text \<open>The unescaped dot of the host pattern matches a slash: a host without a separator, and
  a relative directory, are taken apart at the wrong place.\<close>

theorem UrlToLink_dot_matches_slash:
  "UrlToLink ''http://localhost/foo/bar'' p = Inr \<lparr>protocol = HTTP, host = ''localhost/foo'', query = ''/bar''\<rparr> \<and>
   UrlToLink ''foo/bar.html'' p = Inr \<lparr>protocol = protocol p, host = ''foo'', query = ''/bar.html''\<rparr>"
proof -
  have "map (sub_match (rx_search child_url_rx ''http://localhost/foo/bar'')) [1, 3, 4]
      = [''http'', ''localhost/foo'', ''/bar'']"
    and "map (sub_match (rx_search child_url_rx ''foo/bar.html'')) [1, 3, 4]
      = [[], ''foo'', ''/bar.html'']"
    by code_simp+
  then show ?thesis by (simp add: UrlToLink_eq Let_def)
qed

text \<open>Percent-decoding inverts percent-encoding of every byte, the form in which a browser
  sends text outside ASCII.\<close>

theorem urlDecode_roundtrip: "urlDecode (concat (map pct_byte s)) = Some s"
  by (rule urlDecode_pct_all)

text \<open>A percent sign at the end of the data makes the decoder read the uninitialised variable
  \<open>hex\<close>.\<close>

theorem urlDecode_trailing_percent:
  assumes "CHR ''%'' \<notin> set s"
  shows "urlDecode (s @ ''%'') = None"
proof -
  have "urlDecode_loop (istream_of (s @ ''%'')) res = None" for res
    using assms
  proof (induction s arbitrary: res)
    case Nil
    show ?case
      by (subst urlDecode_loop.simps) (simp add: is_get_def istream_of_def good_def read_hex_int_def)
  next
    case (Cons c s)
    then have "c \<noteq> CHR ''%''" by auto
    with Cons show ?case by (simp add: urlDecode_loop_plain)
  qed
  then show ?thesis by (simp add: urlDecode_def)
qed

theorem urlDecode_trailing_percent_witness: "urlDecode ''search=%'' = None"
  using urlDecode_trailing_percent [of "''search=''"] by simp

text \<open>The decoder reads as many hexadecimal digits as follow, not two: a letter from a to f
  or a digit behind an encoded byte is swallowed.\<close>

theorem urlDecode_overreads: "urlDecode ''%41b'' = Some [CHR 0x1B] \<and> urlDecode ''%41g'' = Some ''Ag''"
  by code_simp

end
