(* ===== verification/Cpp_Map.thy ===== *)
theory Cpp_Map
  imports Prelude "HOL-Library.Multiset"
begin

text \<open>
  \<open>std::map\<close> and \<open>std::multimap\<close>.  A map is the list of its entries in iteration order; the order
  matters to the program, which inserts rows into the database and prints results while it
  iterates.  The interface the clients rely on is the locale \<open>ordered_map\<close>; what they need
  of it (updates in place, accumulation over a sequence of keys) is proved there once.
\<close>

section \<open>The interface\<close>

locale ordered_map =
  fixes empty :: "'m"
    and put :: "'k::linorder \<Rightarrow> 'v \<Rightarrow> 'm \<Rightarrow> 'm"
    and get :: "'m \<Rightarrow> 'k \<Rightarrow> 'v option"
    and items :: "'m \<Rightarrow> ('k \<times> 'v) list"
    and inv :: "'m \<Rightarrow> bool"
  assumes get_empty: "get empty k = None"
    and get_put: "inv m \<Longrightarrow> get (put k v m) k' = (if k' = k then Some v else get m k')"
    and inv_empty: "inv empty"
    and inv_put: "inv m \<Longrightarrow> inv (put k v m)"
    and items_sorted: "inv m \<Longrightarrow> sorted_wrt (<) (map fst (items m))"
    and items_get: "inv m \<Longrightarrow> (k, v) \<in> set (items m) \<longleftrightarrow> get m k = Some v"
begin

text \<open>
  \<open>m[k] op= x\<close>: \<open>operator[]\<close> inserts the value \<open>d\<close> for a missing key, then it is updated.
\<close>

definition bump :: "'v \<Rightarrow> ('v \<Rightarrow> 'v) \<Rightarrow> 'k \<Rightarrow> 'm \<Rightarrow> 'm" where
  "bump d f k m = put k (f (case get m k of None \<Rightarrow> d | Some v \<Rightarrow> v)) m"

lemma inv_bump: "inv m \<Longrightarrow> inv (bump d f k m)"
  by (simp add: bump_def inv_put)

lemma get_bump: "inv m \<Longrightarrow> get (bump d f k m) k' =
    (if k' = k then Some (f (case get m k of None \<Rightarrow> d | Some v \<Rightarrow> v)) else get m k')"
  by (simp add: bump_def get_put)

lemma inv_fold_bump: "inv m \<Longrightarrow> inv (fold (\<lambda>x. bump d (f x) (key x)) xs m)"
  by (induction xs arbitrary: m) (auto simp: inv_bump)

text \<open>A whole loop of updates, seen from one key: only its own elements count, in their order.\<close>

lemma get_fold_bump: "inv m \<Longrightarrow> get (fold (\<lambda>x. bump d (f x) (key x)) xs m) k =
    (if \<exists>x \<in> set xs. key x = k
     then Some (fold f (filter (\<lambda>x. key x = k) xs) (case get m k of None \<Rightarrow> d | Some v \<Rightarrow> v))
     else get m k)"
proof (induction xs arbitrary: m)
  case Nil
  then show ?case by simp
next
  case (Cons x xs)
  have "inv (bump d (f x) (key x) m)" using Cons.prems by (rule inv_bump)
  from Cons.IH [OF this] Cons.prems show ?case
    by (auto simp: get_bump filter_empty_conv)
qed

lemma dom_fold_bump: "inv m \<Longrightarrow> get (fold (\<lambda>x. bump d (f x) (key x)) xs m) k \<noteq> None \<longleftrightarrow>
    k \<in> key ` set xs \<or> get m k \<noteq> None"
  by (auto simp: get_fold_bump)

lemma items_distinct: "inv m \<Longrightarrow> distinct (map fst (items m))"
  using items_sorted [of m] by (simp add: strict_sorted_iff)

lemma items_keys: "inv m \<Longrightarrow> fst ` set (items m) = {k. get m k \<noteq> None}"
  by (auto simp: items_get image_iff) (metis items_get fst_conv)+

end

section \<open>\<open>std::map\<close> as a sorted list of entries\<close>

type_synonym ('k, 'v) cmap = "('k \<times> 'v) list"

fun map_put :: "'k::linorder \<Rightarrow> 'v \<Rightarrow> ('k, 'v) cmap \<Rightarrow> ('k, 'v) cmap" where
  "map_put k v [] = [(k, v)]"
| "map_put k v ((k', v') # m) =
     (if k < k' then (k, v) # (k', v') # m
      else if k = k' then (k, v) # m else (k', v') # map_put k v m)"

fun map_get :: "('k, 'v) cmap \<Rightarrow> 'k \<Rightarrow> 'v option" where
  "map_get [] k = None"
| "map_get ((k', v') # m) k = (if k = k' then Some v' else map_get m k)"

definition map_ok :: "('k::linorder, 'v) cmap \<Rightarrow> bool" where
  "map_ok m \<longleftrightarrow> sorted_wrt (<) (map fst m)"

lemma map_ok_Nil [simp]: "map_ok []"
  by (simp add: map_ok_def)

lemma map_ok_sorted: "map_ok m \<Longrightarrow> sorted_wrt (<) (map fst m)"
  by (simp add: map_ok_def)

lemma map_get_map_of: "map_get m = map_of m"
  by (induction m) auto

lemma fst_set_map_put: "fst ` set (map_put k v m) = insert k (fst ` set m)"
  by (induction k v m rule: map_put.induct) auto

lemma map_ok_put [simp, intro]: "map_ok m \<Longrightarrow> map_ok (map_put k v m)"
proof (induction k v m rule: map_put.induct)
  case (1 k v)
  then show ?case by (simp add: map_ok_def)
next
  case (2 k v k' v' m)
  have "k' < x" if "\<not> k < k'" "k \<noteq> k'" "x \<in> fst ` set (map_put k v m)" for x
    using that 2(2) by (auto simp: fst_set_map_put map_ok_def)
  with 2 show ?case by (auto simp: map_ok_def)
qed

lemma map_get_put [simp]:
  "map_get (map_put k v m) k' = (if k' = k then Some v else map_get m k')"
  by (induction k v m rule: map_put.induct) auto

lemma map_get_set: "map_ok m \<Longrightarrow> (k, v) \<in> set m \<longleftrightarrow> map_get m k = Some v"
  by (auto simp: map_get_map_of map_ok_def strict_sorted_iff intro: map_of_SomeD)

interpretation std_map: ordered_map "[]" map_put map_get "\<lambda>m. m" map_ok
  by unfold_locales (auto simp: map_get_set intro: map_ok_sorted)

text \<open>\<open>m[k] op= x\<close> on \<open>std::map\<close>.\<close>

definition map_bump :: "'v \<Rightarrow> ('v \<Rightarrow> 'v) \<Rightarrow> 'k::linorder \<Rightarrow> ('k, 'v) cmap \<Rightarrow> ('k, 'v) cmap" where
  "map_bump d f k m = map_put k (f (case map_get m k of None \<Rightarrow> d | Some v \<Rightarrow> v)) m"

lemma map_bump_eq: "map_bump = std_map.bump"
  by (simp add: fun_eq_iff map_bump_def std_map.bump_def)

section \<open>\<open>std::multimap\<close> with \<open>std::greater\<close>\<close>

text \<open>Insertion goes after the entries with an equal key, so equal keys keep insertion order.\<close>

fun mm_insert :: "'k::linorder \<times> 'v \<Rightarrow> ('k \<times> 'v) list \<Rightarrow> ('k \<times> 'v) list" where
  "mm_insert e [] = [e]"
| "mm_insert e (x # xs) = (if fst e \<le> fst x then x # mm_insert e xs else e # x # xs)"

abbreviation desc :: "('k::linorder \<times> 'v) list \<Rightarrow> bool" where
  "desc xs \<equiv> sorted_wrt (\<lambda>a b. fst b \<le> fst a) xs"

lemma mset_mm_insert [simp]: "mset (mm_insert e xs) = add_mset e (mset xs)"
  by (induction e xs rule: mm_insert.induct) auto

lemma set_mm_insert [simp]: "set (mm_insert e xs) = insert e (set xs)"
  by (induction e xs rule: mm_insert.induct) auto

lemma desc_mm_insert [simp]: "desc xs \<Longrightarrow> desc (mm_insert e xs)"
  by (induction e xs rule: mm_insert.induct) (auto intro: order_trans less_imp_le)

lemma mset_fold_mm_insert: "mset (fold mm_insert es xs) = mset es + mset xs"
  by (induction es arbitrary: xs) auto

lemma desc_fold_mm_insert: "desc xs \<Longrightarrow> desc (fold mm_insert es xs)"
  by (induction es arbitrary: xs) auto

text \<open>Stability: among entries with one key, a new entry comes last.\<close>

lemma filter_mm_insert:
  "desc xs \<Longrightarrow> filter (\<lambda>x. fst x = k) (mm_insert e xs) =
     filter (\<lambda>x. fst x = k) xs @ (if fst e = k then [e] else [])"
proof (induction e xs rule: mm_insert.induct)
  case (1 e)
  then show ?case by simp
next
  case (2 e x xs)
  show ?case
  proof (cases "fst e \<le> fst x")
    case True
    with 2 show ?thesis by auto
  next
    case False
    with 2(2) have "\<forall>y \<in> set (x # xs). fst y < fst e" by (auto dest: le_less_trans)
    then have "fst e = k \<Longrightarrow> filter (\<lambda>y. fst y = k) (x # xs) = []"
      by (auto simp: filter_empty_conv)
    with False show ?thesis by auto
  qed
qed

lemma filter_fold_mm_insert:
  "desc xs \<Longrightarrow> filter (\<lambda>x. fst x = k) (fold mm_insert es xs) =
     filter (\<lambda>x. fst x = k) xs @ filter (\<lambda>x. fst x = k) es"
  by (induction es arbitrary: xs) (auto simp: filter_mm_insert)

end
