(* ===== verification/INI_File.thy ===== *)
theory INI_File
  imports Utils Cpp_Map
begin

text \<open>
  \<open>Include/INI_File.h\<close>: the parser of the configuration file and the lookup of \<open>section.item\<close>.
  The constructor reads the file line by line; the model takes the file system as a function from
  names to contents (\<open>None\<close>: the file cannot be opened) and returns the object or the exception.
  Every \<open>throw\<close> of the source throws the \<open>data()\<close> of a local string \<open>a\<close>.  The string is destroyed when the exception
  leaves the function, and what arrives anywhere is a dangling pointer (\<open>throw_data\<close>).
\<close>

type_synonym myINI_item = "(string, string) cmap"
type_synonym myINI = "(string, myINI_item) cmap"

record INI_file =
  ini_values :: myINI
  fileName :: string

section \<open>The constructor\<close>

text \<open>\<open>_values[sectionName]\<close> and \<open>_values[sectionName][item] = value\<close>.\<close>

definition ini_section :: "string \<Rightarrow> myINI \<Rightarrow> myINI" where
  "ini_section sectionName = map_bump [] (\<lambda>s. s) sectionName"

definition ini_put :: "string \<Rightarrow> string \<Rightarrow> string \<Rightarrow> myINI \<Rightarrow> myINI" where
  "ini_put sectionName item value = map_bump [] (map_put item value) sectionName"

text \<open>\<open>throw (a.data())\<close>: the text of \<open>a\<close> is lost.\<close>

definition throw_data :: "string \<Rightarrow> exn" where
  "throw_data a = Dangling_cstr"

definition line_error :: "string \<Rightarrow> nat \<Rightarrow> exn" where
  "line_error what strNum = throw_data (what @ nat_to_string strNum)"

text \<open>
  A line \<open>item = value ; comment\<close>.  The comment is cut at \<open>flag - 1\<close>, one character before the
  semicolon; \<open>flag = 0\<close> wraps to \<open>npos\<close> and cuts nothing.
\<close>

definition parse_item :: "nat \<Rightarrow> string \<Rightarrow> string \<Rightarrow> myINI \<Rightarrow> myINI res" where
  "parse_item strNum str sectionName vals =
     (let (item, iss) = getline (istream_of str) (CHR ''='') [];
          (value, iss) = getline iss newline []
      in bindR (trim item) (\<lambda>item.
         if item = [] then Inl (line_error ''Item error in line '' strNum)
         else bindR (trim value) (\<lambda>value.
           let flag = find_char value (CHR '';'') in
           bindR (if flag \<noteq> npos then bindR (substr value 0 (sz_sub flag 1)) trim else Inr value) (\<lambda>value.
           Inr (ini_put sectionName item value vals)))))"

definition parse_section :: "nat \<Rightarrow> string \<Rightarrow> myINI \<Rightarrow> (string \<times> myINI) res" where
  "parse_section strNum str vals =
     (if last str = CHR '']'' then
        bindR (substr str 1 (sz_sub (length str) 2)) (\<lambda>sectionName.
        Inr (sectionName, ini_section sectionName vals))
      else Inl (line_error ''Section error in line '' strNum))"

definition parse_line :: "nat \<Rightarrow> string \<Rightarrow> string \<times> myINI \<Rightarrow> (string \<times> myINI) res" where
  "parse_line strNum str st =
     bindR (trim str) (\<lambda>str.
     if str = [] then Inr st
     else bindR (trim str) (\<lambda>str.
       if hd str = CHR '';'' then Inr st
       else if hd str = CHR ''['' then parse_section strNum str (snd st)
       else bindR (parse_item strNum str (fst st) (snd st)) (\<lambda>vals. Inr (fst st, vals))))"

fun parse_lines :: "nat \<Rightarrow> string list \<Rightarrow> string \<times> myINI \<Rightarrow> (string \<times> myINI) res" where
  "parse_lines strNum [] st = Inr st"
| "parse_lines strNum (str # strs) st =
     bindR (parse_line (Suc strNum) str st) (parse_lines (Suc strNum) strs)"

text \<open>The Russian message "error opening file" in UTF-8.\<close>

definition open_error_prefix :: string where
  "open_error_prefix =
     [CHR 0xD0, CHR 0x9E, CHR 0xD1, CHR 0x88, CHR 0xD0, CHR 0xB8, CHR 0xD0, CHR 0xB1, CHR 0xD0, CHR 0xBA,
      CHR 0xD0, CHR 0xB0, CHR 0x20, CHR 0xD0, CHR 0xBE, CHR 0xD1, CHR 0x82, CHR 0xD0, CHR 0xBA, CHR 0xD1,
      CHR 0x80, CHR 0xD1, CHR 0x8B, CHR 0xD1, CHR 0x82, CHR 0xD0, CHR 0xB8, CHR 0xD1, CHR 0x8F, CHR 0x20,
      CHR 0xD1, CHR 0x84, CHR 0xD0, CHR 0xB0, CHR 0xD0, CHR 0xB9, CHR 0xD0, CHR 0xBB, CHR 0xD0, CHR 0xB0,
      CHR 0x20]"

definition INI_file :: "(string \<Rightarrow> string option) \<Rightarrow> string \<Rightarrow> INI_file res" where
  "INI_file fs name =
     (case fs name of
        None \<Rightarrow> Inl (throw_data (open_error_prefix @ name))
      | Some content \<Rightarrow>
          bindR (parse_lines 0 (lines_of content) ([], [])) (\<lambda>st.
          Inr \<lparr>ini_values = snd st, fileName = name\<rparr>))"

section \<open>\<open>get_value\<close>\<close>

definition available_items :: "myINI_item \<Rightarrow> string" where
  "available_items sec =
     newline # ''This is available items:'' @ [newline] @
     concat (map (\<lambda>(k, v). ''- '' @ k @ [newline]) sec)"

definition get_value :: "INI_file \<Rightarrow> string \<Rightarrow> string res" where
  "get_value ini sectionAndItem =
     (let flag = find_char sectionAndItem (CHR ''.'') in
      if flag = npos then Inl (throw_data (''Incorrect format of Section.Item: '' @ sectionAndItem))
      else bindR (substr sectionAndItem 0 flag) (\<lambda>section.
        bindR (substr sectionAndItem (sz_add flag 1) npos) (\<lambda>key.
        case map_get (ini_values ini) section of
          None \<Rightarrow> Inl (throw_data (''Section do not exists: '' @ section))
        | Some sec \<Rightarrow>
            (case map_get sec key of
               None \<Rightarrow> Inl (throw_data (''Item do not exists: '' @ sectionAndItem @ available_items sec))
             | Some v \<Rightarrow>
                 if v = [] then Inl (throw_data (''Value do not exists: '' @ v))
                 else (case fst (read_word (istream_of v)) of
                         None \<Rightarrow> Inl (throw_data (''Error of convert value: '' @ v))
                       | Some value \<Rightarrow> Inr value)))))"

section \<open>What one line does\<close>

text \<open>The parts of an item line before and after the first equals sign.\<close>

definition item_of :: "string \<Rightarrow> string" where
  "item_of str = strip (takeWhile (\<lambda>c. c \<noteq> CHR ''='') str)"

definition raw_value_of :: "string \<Rightarrow> string" where
  "raw_value_of str = strip (drop 1 (dropWhile (\<lambda>c. c \<noteq> CHR ''='') str))"

text \<open>The effect of the comment rule on a trimmed value.\<close>

definition cut_comment :: "string \<Rightarrow> string" where
  "cut_comment v =
     (case find_index (\<lambda>c. c = CHR '';'') v of
        None \<Rightarrow> v
      | Some 0 \<Rightarrow> v
      | Some (Suc i) \<Rightarrow> strip (take i v))"

lemma getline_item:
  assumes "newline \<notin> set str"
  shows "fst (getline (istream_of str) (CHR ''='') []) = takeWhile (\<lambda>c. c \<noteq> CHR ''='') str"
    and "fst (getline (snd (getline (istream_of str) (CHR ''='') [])) newline []) =
           drop 1 (dropWhile (\<lambda>c. c \<noteq> CHR ''='') str)"
proof -
  show "fst (getline (istream_of str) (CHR ''='') []) = takeWhile (\<lambda>c. c \<noteq> CHR ''='') str"
  proof (cases "find_index (\<lambda>c. c = CHR ''='') str")
    case None
    then have "takeWhile (\<lambda>c. c \<noteq> CHR ''='') str = str"
      by (intro takeWhile_all ballI) (rule find_index_NoneD)
    with None show ?thesis by (simp only: getline_def istream_of_def good_def) simp
  next
    case (Some i)
    then show ?thesis by (simp add: getline_def istream_of_def good_def find_index_Some_take)
  qed
  show "fst (getline (snd (getline (istream_of str) (CHR ''='') [])) newline []) =
      drop 1 (dropWhile (\<lambda>c. c \<noteq> CHR ''='') str)"
  proof (cases "find_index (\<lambda>c. c = CHR ''='') str")
    case None
    then have "dropWhile (\<lambda>c. c \<noteq> CHR ''='') str = []"
      by (intro dropWhile_all ballI) (rule find_index_NoneD)
    with None show ?thesis by (simp only: getline_def istream_of_def good_def) simp
  next
    case (Some i)
    then have d: "drop (Suc i) str = drop 1 (dropWhile (\<lambda>c. c \<noteq> CHR ''='') str)"
      by (simp add: find_index_Some_drop [symmetric])
    have "newline \<notin> set (drop (Suc i) str)" using assms in_set_dropD by fast
    then have "find_index (\<lambda>c. c = newline) (drop (Suc i) str) = None"
      by (auto simp: find_index_None)
    with Some d show ?thesis by (simp add: getline_def istream_of_def good_def)
  qed
qed

lemma cut_comment_code:
  assumes "fits v" and that: "strip v = v"
  shows "bindR (if find_char v (CHR '';'') \<noteq> npos
      then bindR (substr v 0 (sz_sub (find_char v (CHR '';'')) 1)) trim else Inr v) f = f (cut_comment v)"
proof (cases "find_index (\<lambda>c. c = CHR '';'') v")
  case None
  then show ?thesis by (simp add: find_char_from_def cut_comment_def)
next
  case (Some i)
  then have i: "i < length v" by (rule find_index_Some_less)
  with assms have n: "i < npos" "length v \<le> npos" by (auto simp: fits_def)
  show ?thesis
  proof (cases i)
    case 0
    with Some n assms that show ?thesis
      by (simp add: find_char_from_def cut_comment_def substr_def)
  next
    case (Suc j)
    with Some n assms show ?thesis
      by (simp add: find_char_from_def cut_comment_def substr_def fits_take)
  qed
qed

lemma fits_item: "fits str \<Longrightarrow> fits (takeWhile P str)" "fits str \<Longrightarrow> fits (drop n (dropWhile P str))"
  by (erule fits_shorter, rule length_takeWhile_le) auto

lemma parse_item_eq:
  assumes "fits str" "newline \<notin> set str"
  shows "parse_item n str sec vals =
    (if item_of str = [] then Inl (line_error ''Item error in line '' n)
     else Inr (ini_put sec (item_of str) (cut_comment (raw_value_of str)) vals))"
proof -
  let ?g = "getline (istream_of str) (CHR ''='') []"
  have 1: "trim (fst ?g) = Inr (item_of str)"
    using getline_item(1) [OF assms(2)] fits_item(1) [OF assms(1)] by (simp add: item_of_def)
  have 2: "trim (fst (getline (snd ?g) newline [])) = Inr (raw_value_of str)"
    using getline_item(2) [OF assms(2)] fits_item(2) [OF assms(1)] by (simp add: raw_value_of_def)
  have "fits (raw_value_of str)" "strip (raw_value_of str) = raw_value_of str"
    using fits_item(2) [OF assms(1)] by (auto simp: raw_value_of_def)
  note cc = cut_comment_code [OF this]
  show ?thesis
    unfolding parse_item_def Let_def split_beta 1 2 bindR.simps cc ..
qed

text \<open>One line, on trimmed text: the specification of \<open>parse_line\<close>.\<close>

definition line_spec :: "nat \<Rightarrow> string \<Rightarrow> string \<times> myINI \<Rightarrow> (string \<times> myINI) res" where
  "line_spec n str st =
     (let s = strip str in
      if s = [] \<or> hd s = CHR '';'' then Inr st
      else if hd s = CHR ''['' then
        (if last s = CHR '']'' then Inr (butlast (tl s), ini_section (butlast (tl s)) (snd st))
         else Inl (line_error ''Section error in line '' n))
      else if item_of s = [] then Inl (line_error ''Item error in line '' n)
      else Inr (fst st, ini_put (fst st) (item_of s) (cut_comment (raw_value_of s)) (snd st)))"

lemma set_strip: "set (strip s) \<subseteq> set s"
  by (metis set_dropWhileD set_rev strip_def subsetI)

lemma parse_line_eq:
  assumes "fits str" "newline \<notin> set str"
  shows "parse_line n str st = line_spec n str st"
proof -
  let ?s = "strip str"
  have s: "fits ?s" "newline \<notin> set ?s" using assms set_strip by auto
  have "parse_section n ?s (snd st) =
      (if last ?s = CHR '']'' then Inr (butlast (tl ?s), ini_section (butlast (tl ?s)) (snd st))
       else Inl (line_error ''Section error in line '' n))" if "?s \<noteq> []" "hd ?s = CHR ''[''"
  proof (cases "last ?s = CHR '']''")
    case True
    with that obtain t where t: "?s = CHR ''['' # t" "t \<noteq> []"
      by (cases ?s) (auto split: if_splits)
    then have "length ?s - 2 = length t - 1" "2 \<le> length ?s" by (cases t; simp)+
    with s t True show ?thesis
      by (simp add: parse_section_def substr_def fits_def butlast_conv_take)
  qed (simp add: parse_section_def)
  then show ?thesis
    using assms s parse_item_eq [OF s]
    by (auto simp: parse_line_def line_spec_def Let_def)
qed

lemma parse_lines_append:
  "parse_lines n (a @ b) st = bindR (parse_lines n a st) (parse_lines (n + length a) b)"
proof (induction a arbitrary: n st)
  case (Cons l a)
  show ?case by (cases "parse_line (Suc n) l st") (auto simp: Cons)
qed simp

section \<open>Writing a configuration\<close>

definition render_item :: "string \<times> string \<Rightarrow> string" where
  "render_item kv = fst kv @ ''='' @ snd kv"

definition render_section :: "string \<times> myINI_item \<Rightarrow> string list" where
  "render_section sec = (''['' @ fst sec @ '']'') # map render_item (snd sec)"

definition render :: "myINI \<Rightarrow> string" where
  "render cfg = concat (map (\<lambda>l. l @ [newline]) (concat (map render_section cfg)))"

definition wf_item :: "string \<times> string \<Rightarrow> bool" where
  "wf_item kv \<longleftrightarrow> (case kv of (k, v) \<Rightarrow>
     k \<noteq> [] \<and> strip k = k \<and> hd k \<notin> {CHR '';'', CHR ''[''} \<and> CHR ''='' \<notin> set k \<and> newline \<notin> set k \<and>
     strip v = v \<and> CHR '';'' \<notin> set v \<and> newline \<notin> set v)"

definition wf_section :: "string \<times> myINI_item \<Rightarrow> bool" where
  "wf_section sec \<longleftrightarrow> newline \<notin> set (fst sec) \<and> map_ok (snd sec) \<and> list_all wf_item (snd sec)"

definition wf_ini :: "myINI \<Rightarrow> bool" where
  "wf_ini cfg \<longleftrightarrow> map_ok cfg \<and> list_all wf_section cfg"

lemma not_blank [simp]: "\<not> is_blank CHR ''[''" "\<not> is_blank CHR '']''" "\<not> is_blank CHR ''=''"
  by (simp_all add: is_blank_def blanks_def)

lemma line_spec_section: "line_spec n (''['' @ s @ '']'') st = Inr (s, ini_section s (snd st))"
proof -
  have "strip (''['' @ s @ '']'') = ''['' @ s @ '']''" by (rule strip_id) simp
  then show ?thesis by (simp add: line_spec_def)
qed

lemma strip_ne: "strip s = s \<Longrightarrow> s \<noteq> [] \<Longrightarrow> \<not> is_blank (hd s) \<and> \<not> is_blank (last s)"
  using strip_ends [of s] by simp

lemma line_spec_item:
  assumes "wf_item (k, v)"
  shows "line_spec n (render_item (k, v)) st = Inr (fst st, ini_put (fst st) k v (snd st))"
proof -
  from assms have k: "k \<noteq> []" "strip k = k" "CHR ''='' \<notin> set k" "hd k \<noteq> CHR '';''" "hd k \<noteq> CHR ''[''"
    and v: "strip v = v" "CHR '';'' \<notin> set v"
    by (auto simp: wf_item_def)
  let ?l = "render_item (k, v)"
  have "strip ?l = ?l"
    using strip_ne [OF k(2,1)] strip_ne [OF v(1)] k(1)
    by (intro strip_id) (auto simp: render_item_def)
  moreover have "takeWhile (\<lambda>c. c \<noteq> CHR ''='') ?l = k" "dropWhile (\<lambda>c. c \<noteq> CHR ''='') ?l = CHR ''='' # v"
    using k(3) by (auto simp: render_item_def intro!: takeWhile_stop dropWhile_stop)
  then have "item_of ?l = k" "raw_value_of ?l = v"
    using k(2) v(1) by (auto simp: item_of_def raw_value_of_def)
  moreover have "find_index (\<lambda>c. c = CHR '';'') v = None"
    using v(2) by (auto simp: find_index_None)
  then have "cut_comment v = v" by (simp add: cut_comment_def)
  ultimately show ?thesis
    using k by (simp add: line_spec_def render_item_def)
qed

lemma map_put_above: "\<forall>k' \<in> fst ` set m. k' < k \<Longrightarrow> map_put k v m = m @ [(k, v)]"
  by (induction m) (auto simp: less_imp_neq not_less_iff_gr_or_eq)

lemma map_put_last: "\<forall>k' \<in> fst ` set m. k' < k \<Longrightarrow> map_put k v (m @ [(k, w)]) = m @ [(k, v)]"
  by (induction m) (auto simp: less_imp_neq not_less_iff_gr_or_eq)

lemma map_get_last: "\<forall>k' \<in> fst ` set m. k' < (k :: 'k :: linorder) \<Longrightarrow> map_get (m @ [(k, w)]) k = Some w"
  by (induction m) auto

lemma map_get_above: "\<forall>k' \<in> fst ` set m. k' < (k :: 'k :: linorder) \<Longrightarrow> map_get m k = None"
  by (induction m) auto

lemma fits_member: "fits (concat ls) \<Longrightarrow> l \<in> set ls \<Longrightarrow> fits l"
  by (induction ls) (auto simp: fits_def)

definition line_ok :: "string \<Rightarrow> bool" where
  "line_ok l \<longleftrightarrow> fits l \<and> newline \<notin> set l"

lemma parse_items:
  assumes "\<forall>k \<in> fst ` set m. k < s" "map_ok (its0 @ its)" "list_all wf_item its"
    and "\<forall>i \<in> set its. line_ok (render_item i)"
  shows "parse_lines n (map render_item its) (s, m @ [(s, its0)]) = Inr (s, m @ [(s, its0 @ its)])"
  using assms(2-4)
proof (induction its arbitrary: n its0)
  case Nil
  then show ?case by simp
next
  case (Cons i its)
  obtain k v where i: "i = (k, v)" by (cases i)
  with Cons.prems have l: "line_ok (render_item (k, v))" and w: "wf_item (k, v)" by auto
  have "\<forall>k' \<in> fst ` set its0. k' < k"
    using Cons.prems(1) i by (auto simp: map_ok_def sorted_wrt_append)
  then have "ini_put s k v (m @ [(s, its0)]) = m @ [(s, its0 @ [(k, v)])]"
    using assms(1) by (simp add: ini_put_def map_bump_def map_get_last map_put_last map_put_above)
  then have "parse_line (Suc n) (render_item i) (s, m @ [(s, its0)]) = Inr (s, m @ [(s, its0 @ [(k, v)])])"
    using l line_spec_item [OF w, of "Suc n" "(s, m @ [(s, its0)])"] i
    by (simp add: parse_line_eq line_ok_def)
  with Cons.IH [of "its0 @ [i]" "Suc n"] Cons.prems i show ?case by simp
qed

lemma parse_render_section:
  assumes "\<forall>k \<in> fst ` set m. k < fst sec" "wf_section sec" "\<forall>l \<in> set (render_section sec). line_ok l"
  shows "parse_lines n (render_section sec) (s0, m) = Inr (fst sec, m @ [sec])"
proof -
  obtain s its where sec: "sec = (s, its)" by (cases sec)
  have "ini_section s m = m @ [(s, [])]"
    using assms(1) sec by (simp add: ini_section_def map_bump_def map_get_above map_put_above)
  then have "parse_line (Suc n) (''['' @ s @ '']'') (s0, m) = Inr (s, m @ [(s, [])])"
    using assms(3) sec line_spec_section [of "Suc n" s "(s0, m)"]
    by (simp add: parse_line_eq line_ok_def render_section_def)
  with parse_items [of m s "[]" its "Suc n"] assms sec show ?thesis
    by (simp add: render_section_def wf_section_def)
qed

lemma parse_render:
  assumes "map_ok (m @ cfg)" "list_all wf_section cfg"
    and "\<forall>l \<in> set (concat (map render_section cfg)). line_ok l"
  shows "\<exists>s. parse_lines n (concat (map render_section cfg)) (s0, m) = Inr (s, m @ cfg)"
  using assms
proof (induction cfg arbitrary: n s0 m)
  case Nil
  then show ?case by simp
next
  case (Cons sec cfg)
  have "\<forall>k \<in> fst ` set m. k < fst sec"
    using Cons.prems(1) by (auto simp: map_ok_def sorted_wrt_append)
  with Cons.prems have "parse_lines n (render_section sec) (s0, m) = Inr (fst sec, m @ [sec])"
    by (intro parse_render_section) auto
  with Cons.IH [of "m @ [sec]" "n + length (render_section sec)" "fst sec"] Cons.prems
  show ?case by (simp add: parse_lines_append)
qed

lemma wf_lines: "list_all wf_section cfg \<Longrightarrow> l \<in> set (concat (map render_section cfg)) \<Longrightarrow> newline \<notin> set l"
  by (fastforce simp: list_all_iff wf_section_def render_section_def render_item_def wf_item_def)

section \<open>Errors\<close>

text \<open>The lines the parser rejects.\<close>

definition line_bad :: "string \<Rightarrow> bool" where
  "line_bad l =
     (let s = strip l in
      s \<noteq> [] \<and> hd s \<noteq> CHR '';'' \<and> (if hd s = CHR ''['' then last s \<noteq> CHR '']'' else item_of s = []))"

lemma line_spec_bad: "line_bad l \<Longrightarrow> line_spec n l st = Inl Dangling_cstr"
  by (auto simp: line_bad_def line_spec_def line_error_def throw_data_def Let_def)

lemma line_spec_good: "\<not> line_bad l \<Longrightarrow> \<exists>st'. line_spec n l st = Inr st'"
  by (auto simp: line_bad_def line_spec_def Let_def)

lemma parse_lines_errors:
  assumes "\<forall>l \<in> set ls. line_ok l"
  shows "case find_index line_bad ls of
      None \<Rightarrow> \<exists>st'. parse_lines n ls st = Inr st'
    | Some i \<Rightarrow> parse_lines n ls st = Inl Dangling_cstr"
  using assms
proof (induction ls arbitrary: n st)
  case Nil
  then show ?case by simp
next
  case (Cons l ls)
  then have l: "parse_line (Suc n) l st = line_spec (Suc n) l st"
    by (intro parse_line_eq) (auto simp: line_ok_def)
  show ?case
  proof (cases "line_bad l")
    case True
    with l show ?thesis by (simp add: line_spec_bad)
  next
    case False
    then obtain st' where "parse_line (Suc n) l st = Inr st'" using l line_spec_good by metis
    with Cons.IH [of "Suc n" st'] Cons.prems False show ?thesis
      by (auto split: option.splits)
  qed
qed

lemma getline_line_ok:
  assumes "fits (rest s)"
  shows "line_ok (fst (getline s newline [])) \<and> fits (rest (snd (getline s newline [])))"
proof (cases "good s")
  case True
  show ?thesis
  proof (cases "find_index (\<lambda>c. c = newline) (rest s)")
    case None
    then have "newline \<notin> set (rest s)" by (auto dest: find_index_NoneD)
    with True None assms show ?thesis by (simp add: getline_def line_ok_def fits_def)
  next
    case (Some i)
    have "newline \<notin> set (take i (rest s))"
      unfolding find_index_Some_take [OF Some] by (auto dest: set_takeWhileD)
    with True Some assms show ?thesis by (simp add: getline_def line_ok_def fits_drop fits_take)
  qed
qed (use assms in \<open>auto simp: getline_def line_ok_def fits_def\<close>)

lemma read_lines_ok: "fits (rest s) \<Longrightarrow> \<forall>l \<in> set (read_lines s). line_ok l"
proof (induction s rule: read_lines.induct)
  case (1 s)
  show ?case
  proof (cases "failbit (snd (getline s newline []))")
    case True
    then show ?thesis by (subst read_lines.simps) (simp add: Let_def)
  next
    case False
    with 1 have "\<forall>l \<in> set (read_lines (snd (getline s newline []))). line_ok l"
      using getline_line_ok by blast
    with False getline_line_ok [OF 1(2)] show ?thesis
      by (subst read_lines.simps) (simp add: Let_def)
  qed
qed

lemma lines_of_ok: "fits content \<Longrightarrow> \<forall>l \<in> set (lines_of content). line_ok l"
  unfolding lines_of_def by (rule read_lines_ok) (simp add: istream_of_def)

lemma INI_file_cases:
  assumes "fits content" "fs name = Some content"
  shows "if list_ex line_bad (lines_of content) then INI_file fs name = Inl Dangling_cstr else \<exists>ini. INI_file fs name = Inr ini"
proof (cases "find_index line_bad (lines_of content)")
  case None
  with parse_lines_errors [OF lines_of_ok [OF assms(1)], of 0 "([], [])"] assms(2) show ?thesis
    by (auto simp: INI_file_def list_ex_iff dest: find_index_NoneD)
next
  case (Some i)
  then have "list_ex line_bad (lines_of content)"
    using find_index_Some_nth find_index_Some_less by (fastforce simp: list_ex_iff)
  with Some parse_lines_errors [OF lines_of_ok [OF assms(1)], of 0 "([], [])"] assms(2) show ?thesis
    by (auto simp: INI_file_def)
qed

section \<open>Lookup\<close>

definition first_word :: "string \<Rightarrow> string" where
  "first_word v = takeWhile (\<lambda>c. \<not> is_space_c c) (dropWhile is_space_c v)"

lemma get_value_eq:
  assumes "CHR ''.'' \<notin> set sec" "fits (sec @ ''.'' @ key)"
  shows "get_value ini (sec @ ''.'' @ key) =
    (case map_get (ini_values ini) sec of
       None \<Rightarrow> Inl Dangling_cstr
     | Some items \<Rightarrow>
         (case map_get items key of
            None \<Rightarrow> Inl Dangling_cstr
          | Some v \<Rightarrow>
              if v = [] \<or> list_all is_space_c v then Inl Dangling_cstr
              else Inr (first_word v)))"
proof -
  have l: "length sec < npos" "length sec + Suc (length key) < npos"
    using assms(2) by (simp_all add: fits_def)
  have f: "find_char (sec @ ''.'' @ key) (CHR ''.'') = length sec"
    using assms(1) by (simp add: find_char_append)
  have "(\<forall>c \<in> set v. is_space_c c) \<longleftrightarrow> dropWhile is_space_c v = []" for v
    by (simp add: dropWhile_eq_Nil_conv)
  then show ?thesis
    using f l by (auto simp: get_value_def throw_data_def Let_def substr_def read_word_def istream_of_def good_def
        first_word_def list_all_iff split: option.splits)
qed

lemma get_value_error:
  assumes "fits s" "get_value ini s = Inl e"
  shows "e = Dangling_cstr"
proof (cases "CHR ''.'' \<in> set s")
  case True
  then obtain sec key where s: "s = sec @ ''.'' @ key" "CHR ''.'' \<notin> set sec"
    using split_list_first [OF True] by auto
  with assms get_value_eq [of sec key ini] show ?thesis
    by (auto split: option.splits if_splits)
next
  case False
  with assms show ?thesis by (auto simp: get_value_def throw_data_def find_char_absent)
qed

lemma INI_file_parses:
  assumes "wf_ini cfg" "fits (render cfg)"
  shows "INI_file (\<lambda>_. Some (render cfg)) name = Inr \<lparr>ini_values = cfg, fileName = name\<rparr>"
proof -
  let ?ls = "concat (map render_section cfg)"
  from assms(1) have nl: "\<forall>l \<in> set ?ls. newline \<notin> set l" using wf_lines unfolding wf_ini_def by blast
  have ok: "line_ok l" if l: "l \<in> set ?ls" for l
  proof -
    from l have "l @ [newline] \<in> set (map (\<lambda>l. l @ [newline]) ?ls)" by (simp only: set_map) blast
    with assms(2) have "fits (l @ [newline])" unfolding render_def by (rule fits_member)
    with nl l show ?thesis using fits_append unfolding line_ok_def by blast
  qed
  from assms(1) have "map_ok ([] @ cfg)" "list_all wf_section cfg" by (simp_all add: wf_ini_def)
  then obtain s where "parse_lines 0 ?ls ([], []) = Inr (s, cfg)"
    using parse_render [of "[]" cfg 0 "[]"] ok by auto
  moreover have "lines_of (render cfg) = ?ls" unfolding render_def by (rule lines_of_concat [OF nl])
  ultimately show ?thesis by (simp add: INI_file_def)
qed

section \<open>Properties\<close>

text \<open>C9. Writing a configuration out and parsing it gives it back: for a well-formed configuration
  (keys, values and section names without the characters the syntax reserves) \<open>INI_file\<close> on the
  rendered text builds exactly the same nested map.\<close>

theorem INI_file_render:
  assumes "wf_ini cfg" "fits (render cfg)"
  shows "INI_file (\<lambda>_. Some (render cfg)) name = Inr \<lparr>ini_values = cfg, fileName = name\<rparr>"
  using assms by (rule INI_file_parses)


definition sample_ini :: myINI where
  "sample_ini = [(''DB'', [(''host'', ''localhost''), (''port'', ''5432'')]), (''Spider'', [(''depth'', ''2'')])]"

lemma INI_file_render_witness:
  "INI_file (\<lambda>_. Some (render sample_ini)) ''c.ini'' = Inr \<lparr>ini_values = sample_ini, fileName = ''c.ini''\<rparr>"
  by (rule INI_file_render)
     (simp_all add: sample_ini_def wf_ini_def wf_section_def wf_item_def map_ok_def strip_def is_blank_def
       blanks_def fits_def npos_def render_def render_section_def render_item_def)

text \<open>
  C36. A configuration file that can be opened (and is shorter than \<open>npos\<close>) is accepted exactly if no line of it is
  malformed, that is, after trimming a line that begins with a bracket ends with one, and any other line that is not
  empty and not a comment has a name before its first equals sign.  A single malformed line rejects the file, and so
  does a file that cannot be opened.  What is thrown then is a pointer into a string that is destroyed: the number of
  the line, which the code puts into that string, does not leave the constructor.
\<close>

theorem INI_file_rejects:
  assumes "\<forall>content. fs name = Some content \<longrightarrow> fits content"
  shows "case fs name of
      None \<Rightarrow> INI_file fs name = Inl Dangling_cstr
    | Some content \<Rightarrow> if list_ex line_bad (lines_of content) then INI_file fs name = Inl Dangling_cstr else \<exists>ini. INI_file fs name = Inr ini"
proof (cases "fs name")
  case None
  then show ?thesis by (simp add: INI_file_def throw_data_def)
next
  case (Some content)
  with assms INI_file_cases [of content fs name] show ?thesis by simp
qed

lemma INI_file_rejects_witness:
  "INI_file (\<lambda>_. Some (''[a]'' @ [newline] @ ''k=v'' @ [newline] @ ''[b'')) ''c.ini'' = Inl Dangling_cstr"
proof -
  let ?c = "''[a]'' @ [newline] @ ''k=v'' @ [newline] @ ''[b''"
  have l: "lines_of ?c = [''[a]'', ''k=v'', ''[b'']"
    using lines_of_Cons_line [of "''[a]''" "''k=v'' @ [newline] @ ''[b''"]
      lines_of_Cons_line [of "''k=v''" "''[b''"] lines_of_last [of "''[b''"] by simp
  have "list_ex line_bad (lines_of ?c)"
    unfolding l by (simp add: line_bad_def strip_def is_blank_def blanks_def item_of_def)
  with INI_file_rejects [of "\<lambda>_. Some ?c" "''c.ini''"] show ?thesis
    by (simp add: fits_def npos_def)
qed

text \<open>Every failure of the constructor and of \<open>get_value\<close> is a dangling character pointer, not a
  \<open>std::exception\<close>: the handlers of both programs, which catch \<open>const std::exception&\<close>, never see
  one, so a mistake in the configuration file terminates the process.\<close>

theorem INI_errors_escape:
  assumes "\<forall>n c. fs n = Some c \<longrightarrow> fits c" "fits s"
    and "bindR (INI_file fs name) (\<lambda>ini. get_value ini s) = Inl e"
  shows "e = Dangling_cstr"
proof -
  have "e = Dangling_cstr" if "INI_file fs name = Inl e"
  proof (cases "fs name")
    case None
    with that show ?thesis by (auto simp: INI_file_def throw_data_def)
  next
    case (Some content)
    with assms(1) have "fits content" by blast
    from INI_file_cases [of content fs name, OF this Some] that show ?thesis by (auto split: if_splits)
  qed
  then show ?thesis
    using assms(3) get_value_error [OF assms(2)] by (auto simp: bindR_eq_Inl)
qed

lemma INI_errors_escape_witness: "INI_file (\<lambda>_. None) ''c.ini'' = Inl Dangling_cstr \<and> \<not> is_std_exception Dangling_cstr"
  using INI_errors_escape [of "\<lambda>_. None" "''a.b''" "''c.ini''" Dangling_cstr]
  by (simp add: fits_def npos_def INI_file_def throw_data_def)

text \<open>Lookup after parsing: for a well-formed configuration, \<open>get_value\<close> on \<open>section.key\<close>
  returns the first white-space separated word of the stored value, so a value that contains a
  blank is cut.\<close>

theorem get_value_parsed:
  assumes "wf_ini cfg" "fits (render cfg)" "CHR ''.'' \<notin> set sec" "fits (sec @ ''.'' @ key)"
    and "map_get cfg sec = Some items" "map_get items key = Some v" "\<not> list_all is_space_c v"
  shows "bindR (INI_file (\<lambda>_. Some (render cfg)) name) (\<lambda>ini. get_value ini (sec @ ''.'' @ key)) =
    Inr (first_word v)"
proof -
  from assms(7) have "v \<noteq> []" by auto
  with INI_file_parses [OF assms(1,2), of name] assms(5-7) get_value_eq [OF assms(3,4)]
  show ?thesis by simp
qed

lemma get_value_parsed_witness:
  "bindR (INI_file (\<lambda>_. Some (render [(''DB'', [(''password'', ''pass word'')])])) ''c.ini'')
     (\<lambda>ini. get_value ini ''DB.password'') = Inr ''pass''"
  using get_value_parsed [of "[(''DB'', [(''password'', ''pass word'')])]" "''DB''" "''password''"
      "[(''password'', ''pass word'')]" "''pass word''" "''c.ini''"]
  by (simp add: wf_ini_def wf_section_def wf_item_def map_ok_def strip_def is_blank_def
       blanks_def fits_def npos_def render_def render_section_def render_item_def first_word_def is_space_c_def)

text \<open>An end-of-line comment takes one character of the value with it: on \<open>key=valueX;comment\<close>
  the stored value is \<open>value\<close>, whatever the character \<open>X\<close>, because the cut is made at
  \<open>flag - 1\<close>.\<close>

theorem comment_eats_value:
  assumes "wf_item (k, v @ [x])" "newline \<notin> set c" "\<not> is_blank (last (k @ ''='' @ v @ [x] @ '';'' @ c))"
    and "fits (k @ ''='' @ v @ [x] @ '';'' @ c)" "v \<noteq> []"
  shows "parse_line n (k @ ''='' @ v @ [x] @ '';'' @ c) (sec, vals) = Inr (sec, ini_put sec k (strip v) vals)"
proof -
  let ?l = "k @ ''='' @ v @ [x] @ '';'' @ c"
  from assms(1) have k: "k \<noteq> []" "strip k = k" "CHR ''='' \<notin> set k" "hd k \<noteq> CHR '';''" "hd k \<noteq> CHR ''[''"
      "newline \<notin> set k"
    and v: "strip (v @ [x]) = v @ [x]" "CHR '';'' \<notin> set (v @ [x])" "newline \<notin> set (v @ [x])"
    by (auto simp: wf_item_def)
  have "strip ?l = ?l"
    using strip_ne [OF k(2,1)] assms(3) k(1) by (intro strip_id) auto
  moreover have "strip (v @ [x] @ '';'' @ c) = v @ [x] @ '';'' @ c"
    using strip_ne [OF v(1)] assms(3) \<open>v \<noteq> []\<close> by (intro strip_id) auto
  moreover have "takeWhile (\<lambda>c. c \<noteq> CHR ''='') ?l = k" "dropWhile (\<lambda>c. c \<noteq> CHR ''='') ?l = ''='' @ v @ [x] @ '';'' @ c"
    using k(3) by (auto intro!: takeWhile_stop dropWhile_stop)
  ultimately have "item_of ?l = k" "raw_value_of ?l = v @ [x] @ '';'' @ c" "strip ?l = ?l"
    using k(2) by (auto simp: item_of_def raw_value_of_def)
  moreover have "find_index (\<lambda>c. c = CHR '';'') ((v @ [x]) @ CHR '';'' # c) = Some (length (v @ [x]))"
    using v(2) by (intro find_index_append) auto
  then have "cut_comment (v @ [x] @ '';'' @ c) = strip v" by (simp add: cut_comment_def)
  ultimately have "line_spec n ?l (sec, vals) = Inr (sec, ini_put sec k (strip v) vals)"
    using k by (simp add: line_spec_def)
  moreover have "newline \<notin> set ?l" using k(6) v(3) assms(2) by auto
  ultimately show ?thesis using parse_line_eq [OF assms(4)] by metis
qed

lemma comment_eats_value_witness:
  "parse_line 7 ''port=5432;default'' (''DB'', []) = Inr (''DB'', ini_put ''DB'' ''port'' ''543'' [])"
  using comment_eats_value [of "''port''" "''543''" "CHR ''2''" "''default''" 7 "''DB''" "[]"]
  by (simp add: wf_item_def strip_def is_blank_def blanks_def fits_def npos_def)

text \<open>What a configuration gives for an item, for the programs that read one.\<close>

definition config_gives :: "myINI \<Rightarrow> string \<Rightarrow> string \<Rightarrow> string \<Rightarrow> bool" where
  "config_gives cfg sec key w =
     (case Option.bind (map_get cfg sec) (\<lambda>items. map_get items key) of
        None \<Rightarrow> False
      | Some v \<Rightarrow> \<not> list_all is_space_c v \<and> first_word v = w)"

lemma config_gives_value:
  assumes "wf_ini cfg" "fits (render cfg)" "fs name = Some (render cfg)"
  shows "\<exists>ini. INI_file fs name = Inr ini \<and> (\<forall>sec key w. config_gives cfg sec key w \<longrightarrow>
    CHR ''.'' \<notin> set sec \<longrightarrow> fits (sec @ ''.'' @ key) \<longrightarrow> get_value ini (sec @ ''.'' @ key) = Inr w)"
proof -
  have "INI_file fs name = INI_file (\<lambda>_. Some (render cfg)) name" using assms(3) by (simp add: INI_file_def)
  with INI_file_parses [OF assms(1,2), of name] obtain ini where i: "INI_file fs name = Inr ini" "ini_values ini = cfg" by auto
  have "get_value ini (sec @ ''.'' @ key) = Inr w"
    if "config_gives cfg sec key w" "CHR ''.'' \<notin> set sec" "fits (sec @ ''.'' @ key)" for sec key w
    using that(1) get_value_eq [OF that(2,3), of ini] i(2)
    by (auto simp: config_gives_def bind_eq_Some_conv split: option.splits)
  with i(1) show ?thesis by blast
qed

end
