(* ===== verification/HTML_Words.thy ===== *)
theory HTML_Words
  imports Utils Cpp_Map Cpp_Regex
begin

text \<open>
  \<open>HTML_Parser::extractWords\<close> of \<open>Include/HTML_parser.h\<close>: the word counts of a page.  The loop is
  modelled on its iterators: an iterator is the text from it to the end, and dereferencing the
  end iterator has no value, so every loop returns an \<open>option\<close>.  The reference is a
  one-pass automaton (\<open>scan_tag\<close>, \<open>scan_text\<close>).
\<close>

lemma lt_not_letter [simp]: "\<not> isAlpha CHR ''<''" "\<not> isAlpha CHR ''>''"
  by (simp_all add: letters_def)

declare isAlpha_iff [simp del, code]

section \<open>The code\<close>

type_synonym word_map = "(string, 32 word) cmap"

definition minSize :: nat where "minSize = 3"

text \<open>\<open>while (*begin != '>') { ++begin; if (begin >= end) break; }\<close>\<close>

fun skip_tag :: "string \<Rightarrow> string option" where
  "skip_tag [] = None"
| "skip_tag (c # s) = (if c = CHR ''>'' then Some (c # s) else if s = [] then Some [] else skip_tag s)"

text \<open>\<open>while (isAlpha(*begin)) { word += *begin; ++begin; if (begin >= end) break; }\<close>\<close>

fun read_alpha :: "string \<Rightarrow> string \<Rightarrow> (string \<times> string) option" where
  "read_alpha [] word = None"
| "read_alpha (c # s) word =
     (if isAlpha c then (if s = [] then Some (word @ [c], []) else read_alpha s (word @ [c]))
      else Some (word, c # s))"

lemma read_alpha_length: "read_alpha s w = Some (w', s') \<Longrightarrow> length s' \<le> length s"
  by (induction s w rule: read_alpha.induct) (auto split: if_splits)

declare read_alpha.simps [simp del]

definition count_word :: "string \<Rightarrow> word_map \<Rightarrow> word_map" where
  "count_word word wordArray =
     (if length word > minSize then map_bump 0 (\<lambda>n. n + 1) (toLower word) wordArray else wordArray)"

text \<open>\<open>while (*begin != '<') { ... }\<close>\<close>

function text_loop :: "string \<Rightarrow> word_map \<Rightarrow> (string \<times> word_map) option" where
  "text_loop s wordArray =
     (case s of
        [] \<Rightarrow> None
      | c # _ \<Rightarrow>
          if c = CHR ''<'' then Some (s, wordArray)
          else (case read_alpha s [] of
                  None \<Rightarrow> None
                | Some (word, s1) \<Rightarrow>
                    if s1 = [] then Some ([], wordArray)
                    else let wordArray = count_word word wordArray; s2 = tl s1
                         in if s2 = [] then Some ([], wordArray) else text_loop s2 wordArray))"
  by pat_completeness auto
termination
  by (relation "measure (\<lambda>(s, _). length s)") (auto dest!: read_alpha_length)

declare text_loop.simps [simp del]

lemma text_loop_Cons: "text_loop (c # s) m =
    (if c = CHR ''<'' then Some (c # s, m)
     else case read_alpha (c # s) [] of None \<Rightarrow> None
       | Some (w, s1) \<Rightarrow>
           if s1 = [] then Some ([], m)
           else if tl s1 = [] then Some ([], count_word w m) else text_loop (tl s1) (count_word w m))"
  by (subst text_loop.simps) (simp add: Let_def split: option.split)

lemma text_loop_length: "text_loop s m = Some (s', m') \<Longrightarrow> length s' \<le> length s"
proof (induction s m rule: text_loop.induct)
  case (1 s m)
  show ?case
  proof (cases s)
    case Nil
    with 1(2) show ?thesis by (simp add: text_loop.simps [of "[]"])
  next
    case s: (Cons c t)
    note IH = 1(1) [OF s] and prem = 1(2) [unfolded s text_loop_Cons]
    show ?thesis
    proof (cases "c = CHR ''<''")
      case True
      with prem s show ?thesis by auto
    next
      case False
      with prem obtain w s1 where r: "read_alpha (c # t) [] = Some (w, s1)"
        by (auto split: option.splits)
      from read_alpha_length [OF r] s have l: "length s1 \<le> length s" by simp
      show ?thesis
      proof (cases "s1 = [] \<or> tl s1 = []")
        case True
        with prem False r show ?thesis by (auto split: if_splits)
      next
        case no: False
        with prem False r have "text_loop (tl s1) (count_word w m) = Some (s', m')" by simp
        with IH [OF False r [folded s] refl] no have "length s' \<le> length (tl s1)" by simp
        with l show ?thesis by simp
      qed
    qed
  qed
qed

text \<open>The text loop is entered on a \<open>>\<close>, which it consumes.\<close>

lemma text_loop_gt: "text_loop (CHR ''>'' # s) m = (if s = [] then Some ([], m) else text_loop s m)"
  by (simp add: text_loop_Cons read_alpha.simps count_word_def minSize_def)

text \<open>The outer loop: skip to a \<open>>\<close>, then read text up to the next \<open><\<close>.\<close>

lemma skip_tag_eq: "s \<noteq> [] \<Longrightarrow> skip_tag s = Some (dropWhile (\<lambda>c. c \<noteq> CHR ''>'') s)"
  by (induction s rule: skip_tag.induct) auto

lemma skip_tag_hd: "skip_tag s = Some (c # t) \<Longrightarrow> c = CHR ''>''"
  by (induction s rule: skip_tag.induct) (auto split: if_splits)

lemma skip_tag_length: "skip_tag s = Some t \<Longrightarrow> length t \<le> length s"
  by (induction s rule: skip_tag.induct) (auto split: if_splits)

lemma words_loop_progress:
  assumes "skip_tag s = Some s1" "s1 \<noteq> []" "text_loop s1 m = Some (s2, m')" "s2 \<noteq> []"
  shows "length s2 < length s"
proof -
  obtain t where s1: "s1 = CHR ''>'' # t" using assms(1,2) skip_tag_hd by (cases s1) auto
  have t: "t \<noteq> []" using assms(3,4) by (auto simp: s1 text_loop_gt)
  then have "text_loop t m = Some (s2, m')" using assms(3) by (simp add: s1 text_loop_gt)
  from text_loop_length [OF this] skip_tag_length [OF assms(1)] show ?thesis by (simp add: s1)
qed

function words_loop :: "string \<Rightarrow> word_map \<Rightarrow> word_map option" where
  "words_loop s wordArray =
     (if s = [] then Some wordArray
      else case skip_tag s of
        None \<Rightarrow> None
      | Some s1 \<Rightarrow>
          if s1 = [] then Some wordArray
          else (case text_loop s1 wordArray of
                  None \<Rightarrow> None
                | Some (s2, wordArray) \<Rightarrow>
                    if s2 = [] then Some wordArray else words_loop s2 wordArray))"
  by pat_completeness auto
termination
  by (relation "measure (\<lambda>(s, _). length s)") (auto intro: words_loop_progress)

declare words_loop.simps [simp del]

definition title_rx :: rx where
  "title_rx = Seq (lit ''<title>'') (Seq (Group 1 (Opt Any)) (Star (NoneOf ''<'')))"

text \<open>The text that is scanned: the title, then the page from \<open><body\<close> on, or nothing of it when there
  is no \<open><body\<close>: \<open>erase(0, npos)\<close> removes everything.\<close>

definition title_of :: "string \<Rightarrow> string" where
  "title_of html = (case rx_search title_rx html of None \<Rightarrow> [] | Some titleRes \<Rightarrow> m_str titleRes @ ''</title>'')"

definition extractWords :: "string \<Rightarrow> word_map option res" where
  "extractWords html =
     (let titleStr = title_of html in
      bindR (erase html 0 (find_str html ''<body'')) (\<lambda>testString1.
      Inr (words_loop (titleStr @ testString1) [])))"

section \<open>The one-pass reference\<close>

text \<open>
  Inside a tag everything up to \<open>>\<close> is skipped.  In text, maximal runs of letters are words; the
  character that ends a word is consumed with it, whatever it is, and a run of letters that
  reaches the end of the page is dropped.
\<close>

fun scan_tag :: "string \<Rightarrow> string list" and scan_text :: "string \<Rightarrow> string \<Rightarrow> string list" where
  "scan_tag [] = []"
| "scan_tag (c # s) = (if c = CHR ''>'' then scan_text [] s else scan_tag s)"
| "scan_text w [] = []"
| "scan_text w (c # s) =
     (if isAlpha c then scan_text (w @ [c]) s
      else if w \<noteq> [] then w # scan_text [] s
      else if c = CHR ''<'' then scan_tag s else scan_text [] s)"

lemma read_alpha_eq: "s \<noteq> [] \<Longrightarrow>
    read_alpha s w = Some (w @ takeWhile isAlpha s, dropWhile isAlpha s)"
  by (induction s w rule: read_alpha.induct) (auto simp: read_alpha.simps)

lemma scan_text_run: "scan_text w s =
    (case dropWhile isAlpha s of
       [] \<Rightarrow> []
     | c # t \<Rightarrow> if w @ takeWhile isAlpha s \<noteq> [] then (w @ takeWhile isAlpha s) # scan_text [] t
                else if c = CHR ''<'' then scan_tag t else scan_text [] t)"
proof (induction s arbitrary: w)
  case (Cons c s)
  then show ?case
    by (cases "dropWhile isAlpha s") (simp_all del: dropWhile_eq_Nil_conv dropWhile_eq_Cons_conv)
qed simp

lemma scan_tag_lt: "scan_tag (CHR ''<'' # s) = scan_tag s"
  by simp

lemma text_loop_scan:
  assumes "s \<noteq> []"
  shows "\<exists>s' ws. text_loop s m = Some (s', fold count_word ws m) \<and> scan_text [] s = ws @ scan_tag s'"
  using assms
proof (induction s m rule: text_loop.induct)
  case (1 s m)
  then obtain c t where s: "s = c # t" by (cases s) auto
  show ?case
  proof (cases "c = CHR ''<''")
    case True
    then show ?thesis by (intro exI [of _ s] exI [of _ "[]"]) (simp add: s text_loop_Cons)
  next
    case False
    let ?w = "takeWhile isAlpha s" and ?s1 = "dropWhile isAlpha s"
    have r: "read_alpha s [] = Some (?w, ?s1)" using read_alpha_eq [of s "[]"] 1(2) by simp
    show ?thesis
    proof (cases ?s1)
      case Nil
      have "scan_text [] s = []" unfolding scan_text_run [of "[]" s] Nil by simp
      with r False Nil show ?thesis
        by (intro exI [of _ "[]"]) (simp add: s text_loop_Cons del: scan_text.simps)
    next
      case (Cons d t1)
      have count: "count_word ?w m = fold count_word (if ?w = [] then [] else [?w]) m"
        by (simp add: count_word_def minSize_def)
      have lt: "?w = [] \<Longrightarrow> d \<noteq> CHR ''<''" using Cons False s by (auto split: if_splits)
      then have scan: "scan_text [] s = (if ?w = [] then [] else [?w]) @ scan_text [] t1"
        using Cons by (auto simp: scan_text_run [of "[]" s])
      have tl: "text_loop s m =
          (if t1 = [] then Some ([], count_word ?w m) else text_loop t1 (count_word ?w m))"
        unfolding s text_loop_Cons using r [unfolded s] False Cons [unfolded s] by simp
      show ?thesis
      proof (cases "t1 = []")
        case True
        then show ?thesis unfolding scan tl count
          by (intro exI [of _ "[]"] exI [of _ "if ?w = [] then [] else [?w]"]) simp
      next
        case t1: False
        from 1(1) [OF s False r refl _ refl refl] Cons t1 obtain s' ws where
          "text_loop t1 (count_word ?w m) = Some (s', fold count_word ws (count_word ?w m))"
          "scan_text [] t1 = ws @ scan_tag s'" by auto
        with t1 count have "text_loop s m = Some (s', fold count_word ((if ?w = [] then [] else [?w]) @ ws) m)"
          "scan_text [] s = ((if ?w = [] then [] else [?w]) @ ws) @ scan_tag s'"
          unfolding scan tl by simp_all
        then show ?thesis by blast
      qed
    qed
  qed
qed

text \<open>The loop never dereferences the end iterator and counts the words of the reference.\<close>

lemma scan_tag_skip: "scan_tag s = scan_tag (dropWhile (\<lambda>c. c \<noteq> CHR ''>'') s)"
  by (induction s) auto

lemma words_loop_scan: "words_loop s m = Some (fold count_word (scan_tag s) m)"
proof (induction s m rule: words_loop.induct)
  case (1 s m)
  show ?case
  proof (cases "dropWhile (\<lambda>c. c \<noteq> CHR ''>'') s")
    case Nil
    with scan_tag_skip [of s] skip_tag_eq [of s] show ?thesis
      by (simp add: words_loop.simps [of s])
  next
    case (Cons c t)
    then have s: "s \<noteq> []" by auto
    with Cons skip_tag_eq [of s] have sk: "skip_tag s = Some (c # t)" by simp
    from skip_tag_hd [OF this] have c: "c = CHR ''>''" .
    from text_loop_scan [of "c # t" m] c obtain s' ws where
      tl: "text_loop (c # t) m = Some (s', fold count_word ws m)" and
      sc: "scan_text [] (c # t) = ws @ scan_tag s'" by auto
    from sc c Cons scan_tag_skip [of s] have scan: "scan_tag s = ws @ scan_tag s'" by simp
    show ?thesis
    proof (cases "s' = []")
      case True
      with s sk tl scan show ?thesis by (simp add: words_loop.simps [of s])
    next
      case False
      from 1 [OF s sk _ tl refl False] False s sk tl scan show ?thesis
        by (simp add: words_loop.simps [of s])
    qed
  qed
qed

section \<open>Counting\<close>

text \<open>The words that are counted, in order of appearance.\<close>

definition indexed_words :: "string list \<Rightarrow> string list" where
  "indexed_words ws = map toLower (filter (\<lambda>w. length w > minSize) ws)"

lemma fold_count_word: "fold count_word ws m =
    fold (\<lambda>w. std_map.bump 0 (\<lambda>n. n + 1) w) (indexed_words ws) m"
  by (induction ws arbitrary: m) (auto simp: count_word_def indexed_words_def map_bump_eq)

lemma fold_increment: "fold (\<lambda>_ n. n + 1) xs (n :: 'a::semiring_1) = n + of_nat (length xs)"
  by (induction xs arbitrary: n) (auto simp: algebra_simps)

lemma fold_count_get:
  "map_get (fold count_word ws []) w =
     (if w \<in> set (indexed_words ws) then Some (of_nat (count_list (indexed_words ws) w)) else None)"
proof -
  have "count_list xs w = length (filter (\<lambda>x. x = w) xs)" for xs :: "string list"
    by (induction xs) auto
  then show ?thesis
    using std_map.get_fold_bump [of "[]" 0 "\<lambda>_ n. n + 1" "\<lambda>w. w" "indexed_words ws" w]
    by (auto simp: fold_count_word fold_increment)
qed

lemma map_ok_fold_count: "map_ok (fold count_word ws [])"
  unfolding fold_count_word by (rule std_map.inv_fold_bump) simp

definition page_text :: "string \<Rightarrow> string" where
  "page_text html = title_of html @
     (case find_str_index html ''<body'' of None \<Rightarrow> [] | Some i \<Rightarrow> drop i html)"

lemma extractWords_scan:
  assumes "fits html"
  shows "extractWords html = Inr (Some (fold count_word (scan_tag (page_text html)) []))"
proof -
  have "erase html 0 (find_str html ''<body'') =
      Inr (case find_str_index html ''<body'' of None \<Rightarrow> [] | Some i \<Rightarrow> drop i html)"
    using assms find_str_index_Some_le [of html "''<body''"]
    by (auto simp: erase_def find_str_def pos_of_def fits_def min_def split: option.splits)
  then show ?thesis by (simp add: extractWords_def Let_def words_loop_scan page_text_def)
qed

section \<open>What a reader of the page would index\<close>

text \<open>The same scan with a tag always opened by \<open><\<close>, and the last word kept.\<close>

fun ideal_tag :: "string \<Rightarrow> string list" and ideal_text :: "string \<Rightarrow> string \<Rightarrow> string list" where
  "ideal_tag [] = []"
| "ideal_tag (c # s) = (if c = CHR ''>'' then ideal_text [] s else ideal_tag s)"
| "ideal_text w [] = (if w = [] then [] else [w])"
| "ideal_text w (c # s) =
     (if isAlpha c then ideal_text (w @ [c]) s
      else (if w = [] then [] else [w]) @ (if c = CHR ''<'' then ideal_tag s else ideal_text [] s))"

text \<open>No letter stands directly before a \<open><\<close> or at the end of the page.\<close>

fun spaced :: "string \<Rightarrow> bool" where
  "spaced [] = True"
| "spaced [c] = (\<not> isAlpha c)"
| "spaced (c # d # s) = (\<not> (isAlpha c \<and> d = CHR ''<'') \<and> spaced (d # s))"

lemma spaced_Cons: "spaced (c # s) \<Longrightarrow> spaced s"
  by (cases s) auto

lemma scan_ideal:
  "(spaced s \<longrightarrow> scan_tag s = ideal_tag s) \<and>
   (spaced s \<longrightarrow> (s = [] \<or> hd s = CHR ''<'' \<longrightarrow> w = []) \<longrightarrow> scan_text w s = ideal_text w s)"
proof (induction s arbitrary: w)
  case Nil
  then show ?case by simp
next
  case (Cons c s)
  have tag: "spaced s \<longrightarrow> scan_tag s = ideal_tag s"
    and text_case: "spaced s \<longrightarrow> (s = [] \<or> hd s = CHR ''<'' \<longrightarrow> v = []) \<longrightarrow> scan_text v s = ideal_text v s" for v
    using Cons.IH by auto
  have sp: "spaced (c # s) \<Longrightarrow> isAlpha c \<Longrightarrow> s \<noteq> [] \<and> hd s \<noteq> CHR ''<''" by (cases s) auto
  show ?case
    using tag text_case [of "[]"] text_case [of "w @ [c]"] sp spaced_Cons [of c s] by auto
qed

section \<open>The title\<close>

lemma first_title:
  assumes "t \<noteq> []" "CHR ''<'' \<notin> set t"
  shows "\<exists>k'. first (Seq (Group 1 (Opt Any)) (Star (NoneOf ''<''))) (t @ CHR ''<'' # r, k) (CHR ''<'' # r, k')"
proof -
  obtain c t' where t: "t = c # t'" using assms(1) by (cases t) auto
  have star: "first (Star (NoneOf ''<'')) (u @ CHR ''<'' # r, k') (CHR ''<'' # r, k')"
    if "CHR ''<'' \<notin> set u" for u k'
  proof -
    have "dropWhile (\<lambda>x. x \<notin> set ''<'') (u @ CHR ''<'' # r) = CHR ''<'' # r"
      by (rule dropWhile_stop) (use that in auto)
    then show ?thesis using first_Star_NoneOf [of "''<''" "u @ CHR ''<'' # r" k'] by (simp only:)
  qed
  show ?thesis
  proof (cases "is_line_terminator c")
    case True
    then have "first (Opt Any) (t @ CHR ''<'' # r, k) (t @ CHR ''<'' # r, k)"
      by (intro first_Opt_none) (simp add: t step_char_def)
    from first_Seq [OF first_Group [OF this] star [OF assms(2)]] show ?thesis by blast
  next
    case False
    then have "first (Opt Any) (c # t' @ CHR ''<'' # r, k) (t' @ CHR ''<'' # r, k)"
      by (intro first_Opt_some first_Any) simp_all
    from first_Seq [OF first_Group [OF this] star [of t']] assms(2) t show ?thesis by auto
  qed
qed

lemma title_of_eq:
  assumes "find_str_index a ''<title>'' = None" "t \<noteq> []" "CHR ''<'' \<notin> set t"
  shows "title_of (a @ ''<title>'' @ t @ CHR ''<'' # r) = ''<title>'' @ t @ ''</title>''"
proof -
  from first_title [OF assms(2,3)] obtain k where
    "first (Seq (Group 1 (Opt Any)) (Star (NoneOf ''<''))) (t @ CHR ''<'' # r, no_caps) (CHR ''<'' # r, k)"
    by blast
  from rx_search_lit_app [OF refl _ assms(1) this] show ?thesis
    by (simp add: title_of_def title_rx_def)
qed

text \<open>A word that ends at a \<open><\<close>: what is inside the tag is read as text.\<close>

lemma scan_text_leak:
  assumes "CHR ''<'' \<notin> set u" "isAlpha c"
  shows "\<exists>ws. scan_text w (u @ c # CHR ''<'' # s) = ws @ scan_text [] s"
  using assms
proof (induction u arbitrary: w)
  case Nil
  then show ?case by (intro exI [of _ "[w @ [c]]"]) simp
next
  case (Cons d u)
  show ?case
  proof (cases "isAlpha d")
    case True
    with Cons show ?thesis by simp
  next
    case False
    from Cons obtain ws where "scan_text [] (u @ c # CHR ''<'' # s) = ws @ scan_text [] s" by fastforce
    with False Cons.prems show ?thesis
      by (intro exI [of _ "(if w = [] then [] else [w]) @ ws"]) auto
  qed
qed

section \<open>Properties\<close>

text \<open>C6. The word counts are exact: the scanning loop ends, never dereferences the end iterator, and
  maps each word to the number of its occurrences among the words of more than three letters,
  in lower case, that the one-pass automaton reads off the title and the body; the count is
  taken modulo \<open>2 ^ 32\<close>.\<close>

theorem extractWords_counts:
  assumes "fits html"
  shows "\<exists>m. extractWords html = Inr (Some m) \<and> map_ok m \<and>
    (\<forall>w. map_get m w =
       (let ws = indexed_words (scan_tag (page_text html)) in
        if w \<in> set ws then Some (of_nat (count_list ws w)) else None))"
  using extractWords_scan [OF assms] fold_count_get map_ok_fold_count by (simp add: Let_def)

lemma extractWords_counts_witness:
  "\<exists>m. extractWords ''<body>Stork sees a stork.</body>'' = Inr (Some m) \<and>
     map_get m ''stork'' = Some 2 \<and> map_get m ''sees'' = Some 1 \<and> map_get m ''a'' = None"
proof -
  let ?h = "''<body>Stork sees a stork.</body>''"
  have ws: "indexed_words (scan_tag (page_text ?h)) = [''stork'', ''sees'', ''stork'']"
    by code_simp
  from extractWords_counts [of ?h] obtain m where "extractWords ?h = Inr (Some m)"
    "\<forall>w. map_get m w = (if w \<in> set [''stork'', ''sees'', ''stork'']
       then Some (of_nat (count_list [''stork'', ''sees'', ''stork''] w)) else None)"
    unfolding ws by (auto simp: fits_def npos_def Let_def)
  then show ?thesis by (intro exI [of _ m]) simp
qed

text \<open>Where no letter stands directly before a \<open><\<close> or at the very end, the words counted are the
  words of the page with its tags removed, as the indexer is specified.\<close>

theorem extractWords_ideal:
  assumes "fits html" "spaced (page_text html)"
  shows "\<exists>m. extractWords html = Inr (Some m) \<and>
    (\<forall>w. map_get m w =
       (let ws = indexed_words (ideal_tag (page_text html)) in
        if w \<in> set ws then Some (of_nat (count_list ws w)) else None))"
  using extractWords_scan [OF assms(1)] fold_count_get scan_ideal assms(2) by (simp add: Let_def)

lemma extractWords_ideal_witness:
  "\<exists>m. extractWords ''<body><b>Storks fly.</b></body>'' = Inr (Some m) \<and> map_get m ''storks'' = Some 1"
proof -
  let ?h = "''<body><b>Storks fly.</b></body>''"
  have ws: "indexed_words (ideal_tag (page_text ?h)) = [''storks'']" and sp: "spaced (page_text ?h)"
    by code_simp+
  from extractWords_ideal [of ?h, OF _ sp] obtain m where "extractWords ?h = Inr (Some m)"
    "\<forall>w. map_get m w = (if w \<in> set [''storks''] then Some (of_nat (count_list [''storks''] w)) else None)"
    unfolding ws by (auto simp: fits_def npos_def Let_def)
  then show ?thesis by (intro exI [of _ m]) simp
qed

text \<open>Tag text leaks into the index: the scan consumes the character that ends a word even when
  it is the \<open><\<close> of a tag.  So every page whose title ends in a letter is indexed under the word
  \<open>title\<close>, from the closing tag the code itself appends.\<close>

theorem title_tag_indexed:
  assumes "fits (a @ ''<title>'' @ u @ [c] @ CHR ''<'' # r)" "find_str_index a ''<title>'' = None"
    and "CHR ''<'' \<notin> set u" "isAlpha c"
  shows "\<exists>m. extractWords (a @ ''<title>'' @ u @ [c] @ CHR ''<'' # r) = Inr (Some m) \<and>
    map_get m ''title'' \<noteq> None"
proof -
  let ?h = "a @ ''<title>'' @ u @ [c] @ CHR ''<'' # r"
  from assms(4) have c: "c \<noteq> CHR ''<''" by auto
  obtain b where "page_text ?h = (''<title>'' @ (u @ [c]) @ ''</title>'') @ b"
    using title_of_eq [OF assms(2), of "u @ [c]" r] assms(3) c by (auto simp: page_text_def)
  moreover obtain ws where "scan_text [] (u @ c # CHR ''<'' # ''/title>'' @ b) = ws @ scan_text [] (''/title>'' @ b)"
    using scan_text_leak [OF assms(3,4)] by blast
  moreover have "scan_text [] (''/title>'' @ b) = ''title'' # scan_text [] b"
    by (simp add: isAlpha_iff letters_def)
  ultimately have "''title'' \<in> set (scan_tag (page_text ?h))" by simp
  then have "toLower ''title'' \<in> set (indexed_words (scan_tag (page_text ?h)))"
    by (force simp: indexed_words_def minSize_def)
  moreover have "toLower ''title'' = ''title''" by code_simp
  ultimately show ?thesis
    using extractWords_scan [OF assms(1)] by (simp add: fold_count_get)
qed

lemma title_tag_indexed_witness:
  "\<exists>m. extractWords ''<html><title>Home</title><body></body></html>'' = Inr (Some m) \<and>
     map_get m ''title'' \<noteq> None"
  using title_tag_indexed [of "''<html>''" "''Hom''" "CHR ''e''" "''/title><body></body></html>''"]
  by (simp add: fits_def npos_def is_prefix_def isAlpha_iff letters_def)

end
