(* ===== verification/HTML_Links.thy ===== *)
theory HTML_Links
  imports Utils Cpp_Regex
begin

text \<open>
  The link handling of \<open>HTML_Parser\<close> in \<open>Include/HTML_parser.h\<close>: collecting the links of a page
  (\<open>extractLink\<close>), parsing the address the parser is created with (\<open>UrlToLink\<close> with one argument,
  here \<open>UrlToLink_first\<close>) and resolving a link relative to the page (\<open>UrlToLink\<close> with two
  arguments, here \<open>UrlToLink_member\<close>, a copy of the function in \<open>Utils.h\<close>).
\<close>

section \<open>The code\<close>

definition anchor :: string where
  "anchor = ''<a href='' @ [CHR 0x22]"

definition htmlLink_rx :: rx where
  "htmlLink_rx = Seq (lit anchor) (Seq (Group 1 (LazyStar Any)) (Chr CHR 0x22))"

text \<open>
  The patterns are ordinary string literals, in which the compiler drops the backslash of the escape
  sequences \<open>\.\<close> and \<open>\/\<close>: the dot matches any character.
\<close>

definition first_host_rx :: rx where
  "first_host_rx = Opt (Group 3 (Seq (Plus (OneOf word_chars)) (Seq Any (LazyStar Any))))"

definition first_query_rx :: rx where
  "first_query_rx = Group 4 (Seq (Chr CHR ''/'') (Star Any))"

definition first_url_rx :: rx where
  "first_url_rx = Seq proto_rx (Seq slashes_rx (Seq first_host_rx first_query_rx))"

definition UrlToLink_first :: "string \<Rightarrow> Link res" where
  "UrlToLink_first html =
     (let sm = rx_search first_url_rx html in
      if length (sub_match sm 1) \<noteq> 0 then
        (let prot = (if sub_match sm 1 = ''http'' then HTTP
                     else if sub_match sm 1 = ''https'' then HTTPS else uninit_protocol) in
         if length (sub_match sm 3) \<noteq> 0 then
           Inr \<lparr>protocol = prot, host = sub_match sm 3,
                query = (if length (sub_match sm 4) \<noteq> 0 then sub_match sm 4 else ''/'')\<rparr>
         else Inl (Cstr ''Bad first URL: not find host.''))
      else Inl (Cstr ''Bad first URL: not find protocol.''))"

definition UrlToLink_member :: "string \<Rightarrow> Link \<Rightarrow> Link res" where
  "UrlToLink_member html page =
     (let sm = rx_search child_url_rx html;
          prot = (if length (sub_match sm 1) \<noteq> 0
                  then (if sub_match sm 1 = ''http'' then HTTP
                        else if sub_match sm 1 = ''https'' then HTTPS else uninit_protocol)
                  else protocol page);
          hst = (if length (sub_match sm 3) \<noteq> 0 then sub_match sm 3 else host page)
      in if length (sub_match sm 4) \<noteq> 0
         then if length (sub_match sm 5) = 0
              then Inr \<lparr>protocol = prot, host = hst, query = sub_match sm 4\<rparr>
              else bindR (substr (sub_match sm 4) 0 (sz_sub (length (sub_match sm 4)) (length (sub_match sm 5))))
                (\<lambda>q. Inr \<lparr>protocol = prot, host = hst, query = q\<rparr>)
         else Inr \<lparr>protocol = prot, host = hst, query = ''/''\<rparr>)"

primrec link_loop :: "Link \<Rightarrow> smatch list \<Rightarrow> string list \<Rightarrow> string list res" where
  "link_loop link [] arrayLinks = Inr arrayLinks"
| "link_loop link (sm # sms) arrayLinks =
     bindR (str_at (sub_match (Some sm) 1) 0) (\<lambda>c.
     if c \<noteq> CHR ''#'' then
       bindR (UrlToLink_member (sub_match (Some sm) 1) link) (\<lambda>tmplink.
       link_loop link sms
         (if LinkToURL tmplink \<in> set arrayLinks then arrayLinks else arrayLinks @ [LinkToURL tmplink]))
     else link_loop link sms arrayLinks)"

definition extractLink :: "Link \<Rightarrow> string \<Rightarrow> string list res" where
  "extractLink link htmlContent = link_loop link (rx_all htmlLink_rx htmlContent) []"

section \<open>What the link pattern finds\<close>

lemma concat_runs_lazy:
  assumes "\<forall>x \<in> set h. P x" "\<And>b. b \<noteq> [] \<Longrightarrow> suffix b h \<Longrightarrow> f (b @ t) = []" "f t \<noteq> []"
  shows "concat (map f (runs P (h @ t))) \<noteq> [] \<and> hd (concat (map f (runs P (h @ t)))) = hd (f t)"
  using assms
proof (induction h)
  case Nil
  then show ?case by (cases t) auto
next
  case (Cons c h)
  from Cons.prems(2) [of "c # h"] have "f (c # h @ t) = []" by simp
  moreover have "f (b @ t) = []" if "b \<noteq> []" "suffix b h" for b
    using Cons.prems(2) [OF that(1)] that(2) by (simp add: suffix_ConsI)
  ultimately show ?case using Cons by simp
qed

lemma first_lazy:
  assumes "\<forall>c \<in> set h. \<not> is_line_terminator c"
    and "\<And>b. b \<noteq> [] \<Longrightarrow> suffix b h \<Longrightarrow> rx_match r (b @ t, f (b @ t)) = []"
    and "first r (t, f t) st"
  shows "concat (map (\<lambda>u. rx_match r (u, f u)) (runs (\<lambda>x. \<not> is_line_terminator x) (h @ t))) \<noteq> [] \<and>
    hd (concat (map (\<lambda>u. rx_match r (u, f u)) (runs (\<lambda>x. \<not> is_line_terminator x) (h @ t)))) = st"
  using concat_runs_lazy [of h "\<lambda>x. \<not> is_line_terminator x" "\<lambda>u. rx_match r (u, f u)" t] assms
  by (auto simp: first_def)

lemma rx_match_lazy_Any:
  "rx_match (LazyStar Any) (i, k) = map (\<lambda>u. (u, k)) (runs (\<lambda>x. \<not> is_line_terminator x) i)"
  by (simp add: star_lazy_char)

lemma rx_match_lazy_group:
  "rx_match (Seq (Group n (LazyStar Any)) r) (i, k) =
     concat (map (\<lambda>u. rx_match r (u, k(n \<mapsto> take (length i - length u) i)))
       (runs (\<lambda>x. \<not> is_line_terminator x) i))"
  by (simp add: rx_match_lazy_Any o_def del: rx_match.simps(9))

lemma first_href:
  assumes "\<forall>c \<in> set h. \<not> is_line_terminator c" "CHR 0x22 \<notin> set h"
  shows "first (Seq (Group 1 (LazyStar Any)) (Chr CHR 0x22)) (h @ CHR 0x22 # s, k) (s, k(1 \<mapsto> h))"
proof -
  let ?i = "h @ CHR 0x22 # s"
  let ?f = "\<lambda>u. k(1 \<mapsto> take (length ?i - length u) ?i)"
  have none: "rx_match (Chr CHR 0x22) (b @ CHR 0x22 # s, ?f (b @ CHR 0x22 # s)) = []"
    if "b \<noteq> []" "suffix b h" for b
    using that assms(2) by (cases b) (auto simp: step_char_def suffix_def)
  have "first (Chr CHR 0x22) (CHR 0x22 # s, ?f (CHR 0x22 # s)) (s, k(1 \<mapsto> h))"
    by (simp add: first_def step_char_def)
  from first_lazy [of h "Chr CHR 0x22" "CHR 0x22 # s" ?f, OF assms(1) none this] show ?thesis
    unfolding first_def rx_match_lazy_group .
qed

text \<open>The host pattern of the first address: the lazy part ends where the rest first matches.\<close>

lemma rx_match_Plus_OneOf: "c \<in> set cs \<Longrightarrow>
   rx_match (Plus (OneOf cs)) (c # s, k) = map (\<lambda>u. (u, k)) (rev (runs (\<lambda>x. x \<in> set cs) s))"
  by (simp add: Plus_def step_char_def star_greedy_char)

lemma host_body:
  assumes "w \<in> set word_chars" "set a \<subseteq> set word_chars" "c \<notin> set word_chars" "\<not> is_line_terminator c"
  shows "\<exists>more. rx_match (Seq (Plus (OneOf word_chars)) (Seq Any (LazyStar Any))) (w # a @ c # v, k) =
    map (\<lambda>u. (u, k)) (runs (\<lambda>x. \<not> is_line_terminator x) v) @ more"
proof -
  have d: "dropWhile (\<lambda>x. x \<in> set word_chars) (a @ c # v) = c # v"
    using assms by (intro dropWhile_stop) auto
  have "rx_match (Seq Any (LazyStar Any)) (c # v, k) = map (\<lambda>u. (u, k)) (runs (\<lambda>x. \<not> is_line_terminator x) v)"
    using assms(4) by (simp add: step_char_def star_lazy_char)
  then show ?thesis
    by (simp only: rx_match.simps(6) [of "Plus _"] rx_match_Plus_OneOf [OF assms(1)] rev_runs d list.map concat.simps) blast
qed

lemma first_lazy_host:
  assumes w: "w \<in> set word_chars" "set a \<subseteq> set word_chars" "c \<notin> set word_chars" "\<not> is_line_terminator c"
    and g: "\<forall>x \<in> set g. \<not> is_line_terminator x"
    and no: "\<And>b k. b \<noteq> [] \<Longrightarrow> suffix b g \<Longrightarrow> rx_match r (b @ t, k) = []"
    and r: "first r (t, k(3 \<mapsto> w # a @ c # g)) st"
  shows "first (Seq first_host_rx r) (w # a @ c # g @ t, k) st"
proof -
  let ?i = "w # a @ c # g @ t"
  let ?R = "runs (\<lambda>x. \<not> is_line_terminator x) (g @ t)"
  let ?f = "\<lambda>u. k(3 \<mapsto> take (length ?i - length u) ?i)"
  from host_body [OF w, of "g @ t" k] obtain more where
    m: "rx_match (Seq (Plus (OneOf word_chars)) (Seq Any (LazyStar Any))) (?i, k) = map (\<lambda>u. (u, k)) ?R @ more"
    by blast
  have short: "length u < length ?i" if "u \<in> set ?R" for u
    using runs_suffix [OF that] by (auto dest: arg_cong [where f = length])
  let ?more = "filter (\<lambda>st'. length (fst st') < length ?i)
      (map (\<lambda>st'. (fst st', (snd st')(3 \<mapsto> take (length ?i - length (fst st')) ?i))) more) @ [(?i, k)]"
  have "rx_match first_host_rx (?i, k) = map (\<lambda>u. (u, ?f u)) ?R @ ?more"
    using short
    unfolding first_host_rx_def rx_match.simps(7) rx_match.simps(10) fst_conv snd_conv m map_append
      filter_append map_map o_def append_assoc
    by (simp add: filter_id_conv)
  then have e: "rx_match (Seq first_host_rx r) (?i, k) =
      concat (map (\<lambda>u. rx_match r (u, ?f u)) ?R) @ concat (map (rx_match r) ?more)"
    by (simp only: rx_match.simps(6) map_append concat_append map_map o_def)
  have "first r (t, ?f t) st" using r by simp
  from first_lazy [of g r t ?f st, OF g no this] show ?thesis
    unfolding first_def e by auto
qed

section \<open>The links of a page\<close>

lemma UrlToLink_member_eq: "UrlToLink_member = UrlToLink"
  by (intro ext) (simp only: UrlToLink_member_def UrlToLink_def)

definition resolve :: "Link \<Rightarrow> string \<Rightarrow> string" where
  "resolve link h = (case UrlToLink h link of Inl _ \<Rightarrow> [] | Inr l \<Rightarrow> LinkToURL l)"

lemma UrlToLink_member_resolve: "\<exists>l. UrlToLink_member h link = Inr l \<and> LinkToURL l = resolve link h"
  by (simp add: UrlToLink_member_eq resolve_def UrlToLink_eq Let_def)

text \<open>A page as the texts between its links, the link targets, and what follows the last one.\<close>

definition page_with_links :: "(string \<times> string) list \<Rightarrow> string \<Rightarrow> string" where
  "page_with_links ls tail = concat (map (\<lambda>(t, h). t @ anchor @ h @ [CHR 0x22]) ls) @ tail"

definition link_ok :: "string \<times> string \<Rightarrow> bool" where
  "link_ok tg \<longleftrightarrow> find_str_index (fst tg) anchor = None \<and>
     list_all (\<lambda>c. \<not> is_line_terminator c) (snd tg) \<and> CHR 0x22 \<notin> set (snd tg)"

lemma rx_all_page:
  assumes "list_all link_ok ls" "find_str_index tail anchor = None"
  shows "map (\<lambda>m. sub_match (Some m) 1) (rx_all htmlLink_rx (page_with_links ls tail)) = map snd ls"
  using assms(1)
proof (induction ls)
  case Nil
  have "rx_search htmlLink_rx tail = None"
    unfolding htmlLink_rx_def by (rule rx_search_lit_none) (rule assms(2))
  then show ?case by (simp add: page_with_links_def rx_all.simps [of htmlLink_rx tail])
next
  case (Cons tg ls)
  obtain t h where tg: "tg = (t, h)" by (cases tg)
  let ?rest = "page_with_links ls tail"
  from Cons.prems tg have ok: "find_str_index t anchor = None" "\<forall>c \<in> set h. \<not> is_line_terminator c"
      "CHR 0x22 \<notin> set h"
    by (auto simp: link_ok_def list_all_iff)
  have f: "first (Seq (Group 1 (LazyStar Any)) (Chr CHR 0x22))
      ((h @ [CHR 0x22]) @ ?rest, no_caps) (?rest, no_caps(1 \<mapsto> h))"
    using first_href [OF ok(2,3), of ?rest no_caps] by simp
  have an: "anchor = CHR ''<'' # ''a href='' @ [CHR 0x22]" "CHR ''<'' \<notin> set (''a href='' @ [CHR 0x22])"
    by (simp_all add: anchor_def)
  from rx_search_lit_app [OF an ok(1) f]
  have s: "rx_search htmlLink_rx (page_with_links (tg # ls) tail) =
      Some \<lparr>m_prefix = t, m_str = anchor @ h @ [CHR 0x22], m_suffix = ?rest, m_groups = no_caps(1 \<mapsto> h)\<rparr>"
    by (simp add: htmlLink_rx_def page_with_links_def tg)
  have "length ?rest < length (page_with_links (tg # ls) tail)"
    by (simp add: page_with_links_def tg)
  with s have "rx_all htmlLink_rx (page_with_links (tg # ls) tail) =
      \<lparr>m_prefix = t, m_str = anchor @ h @ [CHR 0x22], m_suffix = ?rest, m_groups = no_caps(1 \<mapsto> h)\<rparr> #
      rx_all htmlLink_rx ?rest"
    by (simp add: rx_all.simps [of htmlLink_rx "page_with_links (tg # ls) tail"])
  with Cons tg show ?case by (simp add: sub_match_def)
qed

lemma link_loop_eq:
  "link_loop link sms acc =
     (if [] \<in> set (map (\<lambda>m. sub_match (Some m) 1) sms)
      then Inl (Out_of_range ''basic_string::at'')
      else Inr (fold add_unique (map (resolve link) (filter (\<lambda>h. hd h \<noteq> CHR ''#'') (map (\<lambda>m. sub_match (Some m) 1) sms))) acc))"
proof (induction sms arbitrary: acc)
  case (Cons sm sms)
  obtain l where l: "UrlToLink_member (sub_match (Some sm) 1) link = Inr l"
    "LinkToURL l = resolve link (sub_match (Some sm) 1)"
    using UrlToLink_member_resolve by blast
  show ?case
  proof (cases "sub_match (Some sm) 1")
    case Nil
    then show ?thesis by (simp add: str_at_def)
  next
    case (Cons c h)
    with Cons.IH l show ?thesis by (simp add: str_at_def flip: add_unique_def)
  qed
qed simp

lemma extractLink_eq:
  assumes "list_all link_ok ls" "find_str_index tail anchor = None"
  shows "extractLink link (page_with_links ls tail) =
    (if [] \<in> set (map snd ls) then Inl (Out_of_range ''basic_string::at'')
     else Inr (firsts (map (resolve link) (filter (\<lambda>h. hd h \<noteq> CHR ''#'') (map snd ls)))))"
  unfolding extractLink_def link_loop_eq rx_all_page [OF assms] by (simp add: fold_add_unique)

section \<open>The first address\<close>

lemma first_first_query:
  "first first_query_rx (CHR ''/'' # q, k)
     (dropWhile (\<lambda>x. \<not> is_line_terminator x) q, k(4 \<mapsto> CHR ''/'' # takeWhile (\<lambda>x. \<not> is_line_terminator x) q))"
proof -
  let ?d = "dropWhile (\<lambda>x. \<not> is_line_terminator x) q" and ?t = "takeWhile (\<lambda>x. \<not> is_line_terminator x) q"
  have eq: "CHR ''/'' # q = (CHR ''/'' # ?t) @ ?d" by simp
  have "first (Seq (Chr CHR ''/'') (Star Any)) ((CHR ''/'' # ?t) @ ?d, k) (?d, k)"
    unfolding eq [symmetric] by (rule first_Seq [OF first_Chr first_Star_Any])
  from first_Group_app [OF this, of 4] show ?thesis
    unfolding first_query_rx_def eq [symmetric] .
qed

lemma first_query_fails: "s = [] \<or> hd s \<noteq> CHR ''/'' \<Longrightarrow> rx_match first_query_rx (s, k) = []"
  by (cases s) (auto simp: first_query_rx_def step_char_def)

lemma first_url_absolute:
  assumes "regular_host h" "list_all (\<lambda>c. \<not> is_line_terminator c) h"
  shows "first (Seq first_host_rx first_query_rx) (h @ CHR ''/'' # q, k)
    (dropWhile (\<lambda>x. \<not> is_line_terminator x) q,
     k(3 \<mapsto> h, 4 \<mapsto> CHR ''/'' # takeWhile (\<lambda>x. \<not> is_line_terminator x) q))"
proof -
  from assms(1) obtain w a c d b where h: "h = w # a @ c # d # b" "w \<in> set word_chars" "set a \<subseteq> set word_chars"
    "c \<notin> set word_chars" "c \<noteq> CHR ''/''" "\<not> is_line_terminator c" "d \<noteq> CHR ''/''" "CHR ''/'' \<notin> set b"
    by (rule regular_hostE)
  have g: "\<forall>x \<in> set (d # b). \<not> is_line_terminator x" using assms(2) h(1) by (simp add: list_all_iff)
  have no: "rx_match first_query_rx (u @ CHR ''/'' # q, k') = []" if "u \<noteq> []" "suffix u (d # b)" for u k'
  proof (rule first_query_fails)
    from that(2) have "set u \<subseteq> set (d # b)" by (rule set_mono_suffix)
    with that(1) h(7,8) show "u @ CHR ''/'' # q = [] \<or> hd (u @ CHR ''/'' # q) \<noteq> CHR ''/''"
      by (cases u) auto
  qed
  have "first (Seq first_host_rx first_query_rx) (w # a @ c # (d # b) @ CHR ''/'' # q, k)
    (dropWhile (\<lambda>x. \<not> is_line_terminator x) q,
     k(3 \<mapsto> w # a @ c # d # b, 4 \<mapsto> CHR ''/'' # takeWhile (\<lambda>x. \<not> is_line_terminator x) q))"
    by (rule first_lazy_host [OF h(2-4,6) g no first_first_query])
  then show ?thesis using h(1) by simp
qed

lemma host_query_no_slash:
  assumes "CHR ''/'' \<notin> set s"
  shows "rx_match (Seq first_host_rx first_query_rx) (s, k) = []"
proof (rule ccontr)
  assume "rx_match (Seq first_host_rx first_query_rx) (s, k) \<noteq> []"
  then obtain st where "st \<in> set (rx_match (Seq first_host_rx first_query_rx) (s, k))"
    by (metis list.set_intros(1) neq_Nil_conv)
  then obtain st1 where m: "st1 \<in> set (rx_match first_host_rx (s, k))" "st \<in> set (rx_match first_query_rx st1)"
    by (rule rx_match_SeqE)
  from rx_match_suffix [OF m(1)] have "set (fst st1) \<subseteq> set s" by (simp add: set_mono_suffix)
  with assms have "fst st1 = [] \<or> hd (fst st1) \<noteq> CHR ''/''" by (cases "fst st1") auto
  with first_query_fails [of "fst st1" "snd st1"] m(2) show False by simp
qed

lemma host_query_colon: "rx_match (Seq first_host_rx first_query_rx) (CHR '':'' # s, k) = []"
  using word_chars_facts by (simp add: first_host_rx_def Plus_def step_char_def first_query_rx_def)

lemma slashes_colon: "rx_match slashes_rx (''://'' @ h, k) = [(h, k(2 \<mapsto> ''://'')), (''://'' @ h, k)]"
  by (simp add: slashes_rx_def step_char_def rx_match_lit is_prefix_def)

lemma slashes_letter: "c \<noteq> CHR ''/'' \<Longrightarrow> c \<noteq> CHR '':'' \<Longrightarrow> rx_match slashes_rx (c # s, k) = [(c # s, k)]"
  by (simp add: slashes_rx_def step_char_def rx_match_lit is_prefix_def)

definition tail_rx :: rx where
  "tail_rx = Seq slashes_rx (Seq first_host_rx first_query_rx)"

lemma tail_colon: "CHR ''/'' \<notin> set h \<Longrightarrow> rx_match tail_rx (''://'' @ h, k) = []"
  unfolding tail_rx_def rx_match.simps(6) [of slashes_rx] slashes_colon
  using host_query_no_slash host_query_colon by simp

lemma scheme_as_host:
  assumes "w \<in> set word_chars" "set a \<subseteq> set word_chars" "w \<noteq> CHR ''/''" "w \<noteq> CHR '':''"
    and "list_all (\<lambda>c. \<not> is_line_terminator c) h"
  shows "first tail_rx (w # a @ ''://'' @ h, k) ([], k(3 \<mapsto> w # a @ '':'', 4 \<mapsto> ''//'' @ h))"
proof -
  have "first slashes_rx (w # a @ ''://'' @ h, k) (w # a @ ''://'' @ h, k)"
    unfolding first_def slashes_letter [OF assms(3,4)] by simp
  moreover
  have t: "takeWhile (\<lambda>x. \<not> is_line_terminator x) (CHR ''/'' # h) = CHR ''/'' # h"
      "dropWhile (\<lambda>x. \<not> is_line_terminator x) (CHR ''/'' # h) = []"
    using assms(5) by (auto simp: list_all_iff is_line_terminator_def)
  have c: "CHR '':'' \<notin> set word_chars" "\<not> is_line_terminator CHR '':''"
    using word_chars_facts by (simp_all add: is_line_terminator_def)
  have "first (Seq first_host_rx first_query_rx) (w # a @ CHR '':'' # [] @ CHR ''/'' # CHR ''/'' # h, k)
      ([], k(3 \<mapsto> w # a @ [CHR '':''], 4 \<mapsto> ''//'' @ h))"
    by (rule first_lazy_host [OF assms(1,2) c])
       (use first_first_query [of "CHR ''/'' # h"] t in auto)
  ultimately show ?thesis
    unfolding tail_rx_def by - (rule first_Seq, assumption, simp)
qed

lemma proto_http: "rx_match proto_rx (''http://'' @ h, k) =
    [(''://'' @ h, k(1 \<mapsto> ''http'')), (''http://'' @ h, k)]"
  by (simp add: proto_rx_def rx_match_lit is_prefix_def step_char_def)

lemma proto_https: "rx_match proto_rx (''https://'' @ h, k) =
    [(''://'' @ h, k(1 \<mapsto> ''https'')), (''s://'' @ h, k(1 \<mapsto> ''http'')), (''https://'' @ h, k)]"
  by (simp add: proto_rx_def rx_match_lit is_prefix_def step_char_def)

lemma first_url_no_path:
  assumes "CHR ''/'' \<notin> set h" "list_all (\<lambda>c. \<not> is_line_terminator c) h"
  shows "first first_url_rx (''http://'' @ h, no_caps) ([], no_caps(3 \<mapsto> ''http:'', 4 \<mapsto> ''//'' @ h))"
    and "first first_url_rx (''https://'' @ h, no_caps)
      ([], no_caps(1 \<mapsto> ''http'', 3 \<mapsto> ''s:'', 4 \<mapsto> ''//'' @ h))"
proof -
  have w: "CHR ''h'' \<in> set word_chars" "set ''ttp'' \<subseteq> set word_chars" "CHR ''s'' \<in> set word_chars"
    by (simp_all add: word_chars_def)
  have *: "rx_match first_url_rx st = concat (map (rx_match tail_rx) (rx_match proto_rx st))" for st
    by (simp only: first_url_rx_def tail_rx_def rx_match.simps(6) [of proto_rx])
  from scheme_as_host [OF w(1,2) _ _ assms(2), of no_caps]
  show "first first_url_rx (''http://'' @ h, no_caps) ([], no_caps(3 \<mapsto> ''http:'', 4 \<mapsto> ''//'' @ h))"
    unfolding first_def * proto_http using tail_colon [OF assms(1)] by simp
  from scheme_as_host [OF w(3) _ _ _ assms(2), of "[]" "no_caps(1 \<mapsto> ''http'')"]
  show "first first_url_rx (''https://'' @ h, no_caps)
      ([], no_caps(1 \<mapsto> ''http'', 3 \<mapsto> ''s:'', 4 \<mapsto> ''//'' @ h))"
    unfolding first_def * proto_https using tail_colon [OF assms(1)] by simp
qed

lemma UrlToLink_first_absolute:
  assumes "regular_host (host l)" "list_all (\<lambda>c. \<not> is_line_terminator c) (host l)" "regular_query (query l)"
  shows "UrlToLink_first (LinkToURL l) = Inr l"
proof -
  from assms(3) obtain q where q: "query l = CHR ''/'' # q" "\<forall>c \<in> set q. \<not> is_line_terminator c"
    by (cases "query l") (auto simp: regular_query_def list_all_iff)
  note fs = first_proto_slashes [OF assms(1), of "CHR ''/'' # q"]
  note hq = first_url_absolute [OF assms(1,2), of q, unfolded takeWhile_all [OF q(2)] dropWhile_all [OF q(2)]]
  have "first first_url_rx (LinkToURL l, no_caps) ([], no_caps(
      1 \<mapsto> (if protocol l = HTTP then ''http'' else ''https''), 2 \<mapsto> ''://'', 3 \<mapsto> host l, 4 \<mapsto> query l))"
    unfolding first_url_rx_def LinkToURL_def
    using first_Seq [OF fs(1) first_Seq [OF fs(3) hq]] first_Seq [OF fs(2) first_Seq [OF fs(3) hq]]
    by (simp add: q(1))
  note sm = rx_search_first [OF this]
  have "host l \<noteq> []" using assms(1) by (auto simp: regular_host_def)
  then show ?thesis
    using q(1) by (cases "protocol l") (auto simp: UrlToLink_first_def Let_def sm sub_match_def intro!: Link.equality)
qed

section \<open>Properties\<close>

text \<open>C31. Link extraction is exact: on a page whose links have the targets \<open>map snd ls\<close>, the result
  is the absolute URL of every target that does not start with \<open>#\<close>, resolved against the page, each
  URL once, in order of first appearance; and one empty target anywhere makes \<open>at(0)\<close> throw
  \<open>std::out_of_range\<close>, so that no link of the page is returned.\<close>

theorem extractLink_exact:
  assumes "list_all link_ok ls" "find_str_index tail anchor = None"
  shows "extractLink link (page_with_links ls tail) =
    (if [] \<in> set (map snd ls) then Inl (Out_of_range ''basic_string::at'')
     else Inr (firsts (map (resolve link) (filter (\<lambda>h. hd h \<noteq> CHR ''#'') (map snd ls)))))"
  using assms by (rule extractLink_eq)

lemma extractLink_exact_witness:
  "extractLink \<lparr>protocol = HTTP, host = ''h.io'', query = ''/''\<rparr>
     (page_with_links [(''<p>'', ''/a''), ('' '', ''#top''), ('' '', ''/a'')] ''</p>'') = Inr [''http://h.io/a''] \<and>
   extractLink \<lparr>protocol = HTTP, host = ''h.io'', query = ''/''\<rparr>
     (page_with_links [('''', ''/a''), ('''', '''')] '''') = Inl (Out_of_range ''basic_string::at'')"
proof -
  have "list_all link_ok [(''<p>'', ''/a''), ('' '', ''#top''), ('' '', ''/a'')]" "list_all link_ok [('''', ''/a''), ('''', '''')]"
    "find_str_index ''</p>'' anchor = None" "find_str_index [] anchor = None"
    "resolve \<lparr>protocol = HTTP, host = ''h.io'', query = ''/''\<rparr> ''/a'' = ''http://h.io/a''"
    by code_simp+
  then show ?thesis
    using extractLink_exact [of "[(''<p>'', ''/a''), ('' '', ''#top''), ('' '', ''/a'')]" "''</p>''"]
      extractLink_exact [of "[('''', ''/a''), ('''', '''')]" "[]"] by simp
qed

text \<open>The address the parser is created with, if its host has a separator and it has a path, is
  taken apart into the link it denotes.\<close>

theorem UrlToLink_first_LinkToURL:
  assumes "regular_host (host l)" "list_all (\<lambda>c. \<not> is_line_terminator c) (host l)" "regular_query (query l)"
  shows "UrlToLink_first (LinkToURL l) = Inr l"
  using assms by (rule UrlToLink_first_absolute)

lemma UrlToLink_first_LinkToURL_witness:
  "UrlToLink_first (LinkToURL \<lparr>protocol = HTTPS, host = ''wiki.openssl.org'', query = ''/index.php''\<rparr>)
   = Inr \<lparr>protocol = HTTPS, host = ''wiki.openssl.org'', query = ''/index.php''\<rparr>"
  by (rule UrlToLink_first_LinkToURL) (simp_all, code_simp+)

text \<open>A start address without a path, \<open>scheme://host\<close>, is not understood: with \<open>http\<close> the parser
  throws a character pointer, and with \<open>https\<close> it silently goes to the host \<open>s:\<close> over plain HTTP.\<close>

theorem UrlToLink_first_no_path:
  assumes "CHR ''/'' \<notin> set h" "list_all (\<lambda>c. \<not> is_line_terminator c) h"
  shows "UrlToLink_first (''http://'' @ h) = Inl (Cstr ''Bad first URL: not find protocol.'') \<and>
    UrlToLink_first (''https://'' @ h) = Inr \<lparr>protocol = HTTP, host = ''s:'', query = ''//'' @ h\<rparr>"
  using first_url_no_path [OF assms, THEN rx_search_first]
  by (simp add: UrlToLink_first_def sub_match_def no_caps_def Let_def)

lemma UrlToLink_first_no_path_witness:
  "UrlToLink_first ''http://example.com'' = Inl (Cstr ''Bad first URL: not find protocol.'') \<and>
   UrlToLink_first ''https://example.com'' = Inr \<lparr>protocol = HTTP, host = ''s:'', query = ''//example.com''\<rparr>"
  using UrlToLink_first_no_path [of "''example.com''"] by (simp add: is_line_terminator_def)

end
