(* ===== verification/Pqxx_Base.thy ===== *)
theory Pqxx_Base
  imports Cpp_Stream
begin

text \<open>
  The foundations of libpqxx the program stands on: results of libpq and their classification
  (\<open>src/result.cxx\<close>), names of objects and the one-guest-at-a-time discipline (\<open>src/util.cxx\<close>),
  encodings (\<open>src/encodings.cxx\<close>) and the conversions of result fields (\<open>src/strconv.cxx\<close>).

  libpq itself is not part of the repository: it is the record \<open>libpq\<close> of functions over a state
  \<open>'s\<close> of the server and the connections, an argument of every definition that calls it.
\<close>

section \<open>libpq\<close>

datatype ExecStatusType =
    PGRES_EMPTY_QUERY | PGRES_COMMAND_OK | PGRES_TUPLES_OK | PGRES_COPY_OUT | PGRES_COPY_IN
  | PGRES_BAD_RESPONSE | PGRES_NONFATAL_ERROR | PGRES_FATAL_ERROR | PGRES_COPY_BOTH
  | PGRES_SINGLE_TUPLE | PGRES_PIPELINE_SYNC | PGRES_PIPELINE_ABORTED | PGRES_unknown

record pgresult =
  res_status :: ExecStatusType
  res_message :: string
  res_sqlstate :: "string option"
  res_columns :: nat
  res_rows :: "string option list list"

record 's libpq =
  PQconnectdb :: "string \<Rightarrow> 's \<Rightarrow> nat option \<times> 's"
  PQstatus_ok :: "nat \<Rightarrow> 's \<Rightarrow> bool"
  PQerrorMessage :: "nat \<Rightarrow> 's \<Rightarrow> string"
  PQprotocolVersion :: "nat \<Rightarrow> 's \<Rightarrow> int"
  PQserverVersion :: "nat \<Rightarrow> 's \<Rightarrow> int"
  PQclientEncoding :: "nat \<Rightarrow> 's \<Rightarrow> int"
  pg_encoding_to_char :: "int \<Rightarrow> string"
  PQexec :: "nat \<Rightarrow> string \<Rightarrow> 's \<Rightarrow> pgresult option \<times> 's"
  PQexecParams :: "nat \<Rightarrow> string \<Rightarrow> string list \<Rightarrow> 's \<Rightarrow> pgresult option \<times> 's"
  PQconsumeInput :: "nat \<Rightarrow> 's \<Rightarrow> bool \<times> 's"
  PQnotifies :: "nat \<Rightarrow> 's \<Rightarrow> 's"
  PQescapeStringConn :: "nat \<Rightarrow> string \<Rightarrow> 's \<Rightarrow> string option"
  PQfinish :: "nat \<Rightarrow> 's \<Rightarrow> 's"

text \<open>
  \<open>PQnotifies\<close> stands for the loop that takes all pending notifications; \<open>PQescapeStringConn\<close> is
  \<open>None\<close> when libpq reports an error.
\<close>

section \<open>Result status\<close>

text \<open>\<open>result::status_error\<close>: the error message, empty when there is none.\<close>

definition status_error :: "pgresult \<Rightarrow> string res" where
  "status_error r =
     (case res_status r of
        PGRES_EMPTY_QUERY \<Rightarrow> Inr []
      | PGRES_COMMAND_OK \<Rightarrow> Inr []
      | PGRES_TUPLES_OK \<Rightarrow> Inr []
      | PGRES_COPY_OUT \<Rightarrow> Inr []
      | PGRES_COPY_IN \<Rightarrow> Inr []
      | PGRES_COPY_BOTH \<Rightarrow> Inr []
      | PGRES_PIPELINE_SYNC \<Rightarrow> Inl (Pqxx_sql_error ''feature_not_supported'' ''Not supported yet: libpq pipelines.'')
      | PGRES_PIPELINE_ABORTED \<Rightarrow> Inl (Pqxx_sql_error ''feature_not_supported'' ''Not supported yet: libpq pipelines.'')
      | PGRES_BAD_RESPONSE \<Rightarrow> Inr (res_message r)
      | PGRES_NONFATAL_ERROR \<Rightarrow> Inr (res_message r)
      | PGRES_FATAL_ERROR \<Rightarrow> Inr (res_message r)
      | PGRES_SINGLE_TUPLE \<Rightarrow> Inl (Pqxx_sql_error ''feature_not_supported'' ''Not supported: single-row mode.'')
      | PGRES_unknown \<Rightarrow> Inl (Pqxx_internal_error ''pqxx::result: Unrecognized result status code''))"

text \<open>
  \<open>result::throw_sql_error\<close>: the exception class for a SQLSTATE.  \<open>protocol_violation\<close> and
  \<open>too_many_connections\<close> are subclasses of \<open>broken_connection\<close>;
  \<open>statement_completion_unknown\<close> has a handler of its own in \<open>do_commit\<close>.
\<close>

definition throw_sql_error :: "string option \<Rightarrow> string \<Rightarrow> exn" where
  "throw_sql_error code err =
     (case code of
        None \<Rightarrow> Pqxx_broken_connection err
      | Some [] \<Rightarrow> Pqxx_broken_connection err
      | Some (c0 # cs) \<Rightarrow>
          let s = c0 # cs; c1 = (case cs of [] \<Rightarrow> CHR 0x00 | c # _ \<Rightarrow> c);
              sql = (\<lambda>n. Pqxx_sql_error n err) in
          if c0 = CHR ''0'' \<and> c1 = CHR ''A'' then sql ''feature_not_supported''
          else if c0 = CHR ''0'' \<and> c1 = CHR ''8'' then Pqxx_broken_connection err
          else if c0 = CHR ''0'' \<and> (c1 = CHR ''L'' \<or> c1 = CHR ''P'') then sql ''insufficient_privilege''
          else if c0 = CHR ''2'' \<and> c1 = CHR ''2'' then sql ''data_exception''
          else if c0 = CHR ''2'' \<and> c1 = CHR ''3'' then
            (if s = ''23001'' then sql ''restrict_violation''
             else if s = ''23502'' then sql ''not_null_violation''
             else if s = ''23503'' then sql ''foreign_key_violation''
             else if s = ''23505'' then sql ''unique_violation''
             else if s = ''23514'' then sql ''check_violation''
             else sql ''integrity_constraint_violation'')
          else if c0 = CHR ''2'' \<and> c1 = CHR ''4'' then sql ''invalid_cursor_state''
          else if c0 = CHR ''2'' \<and> c1 = CHR ''6'' then sql ''invalid_sql_statement_name''
          else if c0 = CHR ''3'' \<and> c1 = CHR ''4'' then sql ''invalid_cursor_name''
          else if s = ''40000'' then sql ''transaction_rollback''
          else if s = ''40001'' then sql ''serialization_failure''
          else if s = ''40003'' then Pqxx_completion_unknown err
          else if s = ''40P01'' then sql ''deadlock_detected''
          else if s = ''42501'' then sql ''insufficient_privilege''
          else if s = ''42601'' then sql ''syntax_error''
          else if s = ''42703'' then sql ''undefined_column''
          else if s = ''42883'' then sql ''undefined_function''
          else if s = ''42P01'' then sql ''undefined_table''
          else if s = ''53100'' then sql ''disk_full''
          else if s = ''53200'' then sql ''out_of_memory''
          else if s = ''53300'' then Pqxx_broken_connection err
          else if c0 = CHR ''5'' \<and> c1 = CHR ''3'' then sql ''insufficient_resources''
          else if s = ''P0001'' then sql ''plpgsql_raise''
          else if s = ''P0002'' then sql ''plpgsql_no_data_found''
          else if s = ''P0003'' then sql ''plpgsql_too_many_rows''
          else if c0 = CHR ''P'' then sql ''plpgsql_error''
          else sql ''sql_error'')"

definition check_status :: "string \<Rightarrow> pgresult \<Rightarrow> pgresult res" where
  "check_status desc r =
     bindR (status_error r) (\<lambda>err.
     if err \<noteq> [] then
       Inl (throw_sql_error (res_sqlstate r)
         (if desc \<noteq> [] then ''Failure during '' @ [CHR 0x27] @ desc @ [CHR 0x27] @ '': '' @ err else err))
     else Inr r)"

text \<open>An error status with an empty message is let through.\<close>

lemma check_status_ok: "check_status desc r = Inr r' \<Longrightarrow> r' = r"
  by (auto simp: check_status_def bindR_eq_Inr split: if_splits)

section \<open>Objects and their guests\<close>

definition describe_object :: "string \<Rightarrow> string \<Rightarrow> string" where
  "describe_object class_name obj_name =
     (if obj_name = [] then class_name else class_name @ '' '' @ [CHR 0x27] @ obj_name @ [CHR 0x27])"

text \<open>
  A guest is its address with its class and name.  The message about a clash describes the new
  guest twice, as in the source.
\<close>

type_synonym guest = "nat \<times> string \<times> string"

definition guest_text :: "guest \<Rightarrow> string" where
  "guest_text g = describe_object (fst (snd g)) (snd (snd g))"

definition check_unique_register :: "guest option \<Rightarrow> guest option \<Rightarrow> unit res" where
  "check_unique_register old_guest new_guest =
     (case new_guest of
        None \<Rightarrow> Inl (Pqxx_internal_error ''Null pointer registered.'')
      | Some new \<Rightarrow>
          (case old_guest of
             None \<Rightarrow> Inr ()
           | Some old \<Rightarrow> Inl (Pqxx_usage_error
               (if fst old = fst new then ''Started twice: '' @ guest_text old @ ''.''
                else ''Started new '' @ guest_text new @ '' while '' @ guest_text new @ '' was still active.''))))"

definition check_unique_unregister :: "guest option \<Rightarrow> guest option \<Rightarrow> unit res" where
  "check_unique_unregister old_guest new_guest =
     (if map_option fst new_guest \<noteq> map_option fst old_guest then
        (case new_guest of
           None \<Rightarrow> Inl (Pqxx_usage_error (''Expected to close '' @
             (case old_guest of None \<Rightarrow> [] | Some old \<Rightarrow> guest_text old) @ '', but got null pointer instead.''))
         | Some new \<Rightarrow>
             (case old_guest of
                None \<Rightarrow> Inl (Pqxx_usage_error (''Closed while not open: '' @ guest_text new))
              | Some old \<Rightarrow> Inl (Pqxx_usage_error
                  (''Closed '' @ guest_text new @ ''; expected to close '' @ guest_text old))))
      else Inr ())"

section \<open>Encodings\<close>

datatype encoding_group =
  MONOBYTE | BIG5 | EUC_CN | EUC_JP | EUC_KR | EUC_TW | GB18030 | GBK | JOHAB | MULE_INTERNAL | SJIS | UHC | UTF8

definition enc_group_names :: "(string \<times> encoding_group) list" where
  "enc_group_names =
    [(''BIG5'', BIG5), (''EUC_CN'', EUC_CN), (''EUC_JIS_2004'', EUC_JP), (''EUC_JP'', EUC_JP),
     (''EUC_KR'', EUC_KR), (''EUC_TW'', EUC_TW), (''GB18030'', GB18030), (''GBK'', GBK),
     (''ISO_8859_5'', MONOBYTE), (''ISO_8859_6'', MONOBYTE), (''ISO_8859_7'', MONOBYTE),
     (''ISO_8859_8'', MONOBYTE), (''JOHAB'', JOHAB), (''KOI8R'', MONOBYTE), (''KOI8U'', MONOBYTE),
     (''LATIN1'', MONOBYTE), (''LATIN2'', MONOBYTE), (''LATIN3'', MONOBYTE), (''LATIN4'', MONOBYTE),
     (''LATIN5'', MONOBYTE), (''LATIN6'', MONOBYTE), (''LATIN7'', MONOBYTE), (''LATIN8'', MONOBYTE),
     (''LATIN9'', MONOBYTE), (''LATIN10'', MONOBYTE), (''MULE_INTERNAL'', MULE_INTERNAL),
     (''SHIFT_JIS_2004'', SJIS), (''SJIS'', SJIS), (''SQL_ASCII'', MONOBYTE), (''UHC'', UHC),
     (''UTF8'', UTF8), (''WIN866'', MONOBYTE), (''WIN874'', MONOBYTE), (''WIN1250'', MONOBYTE),
     (''WIN1251'', MONOBYTE), (''WIN1252'', MONOBYTE), (''WIN1253'', MONOBYTE), (''WIN1254'', MONOBYTE),
     (''WIN1255'', MONOBYTE), (''WIN1256'', MONOBYTE), (''WIN1257'', MONOBYTE), (''WIN1258'', MONOBYTE)]"

definition enc_group :: "string \<Rightarrow> encoding_group res" where
  "enc_group encoding_name =
     (case map_of enc_group_names encoding_name of
        Some g \<Rightarrow> Inr g
      | None \<Rightarrow> Inl (Invalid_argument
          (''Unrecognized encoding: '' @ [CHR 0x27] @ encoding_name @ [CHR 0x27] @ ''.'')))"

section \<open>Fields\<close>

text \<open>\<open>string_traits<bool>::from_string\<close>.\<close>

definition bool_from_string :: "string \<Rightarrow> bool res" where
  "bool_from_string text =
     (let bad = Inl (Pqxx_conversion_error
            (''Failed conversion to bool: '' @ [CHR 0x27] @ text @ [CHR 0x27] @ ''.'')) in
      case text of
        [] \<Rightarrow> Inr False
      | [c] \<Rightarrow> (if c \<in> set ''fF0'' then Inr False else if c \<in> set ''tT1'' then Inr True else bad)
      | _ \<Rightarrow> (if text = ''true'' \<or> text = ''TRUE'' then Inr True
              else if text = ''false'' \<or> text = ''FALSE'' then Inr False else bad))"

text \<open>
  \<open>from_string_arithmetic<int>\<close> over \<open>std::from_chars\<close>: blanks, an optional minus, digits, and
  nothing after them.
\<close>

definition int_from_string :: "string \<Rightarrow> int res" where
  "int_from_string text =
     (let here = dropWhile (\<lambda>c. c = CHR '' '' \<or> c = CHR 0x09) text;
          neg = (here \<noteq> [] \<and> hd here = CHR ''-'');
          r = (if neg then tl here else here);
          ds = takeWhile is_digit_c r;
          n = int (foldl (\<lambda>a c. a * 10 + digit_val c) 0 ds);
          v = (if neg then - n else n);
          base = ''Could not convert '' @ [CHR 0x27] @ text @ [CHR 0x27] @ '' to int''
      in if ds = [] then Inl (Pqxx_conversion_error (base @ '': Invalid argument.''))
         else if v < INT_MIN \<or> v > INT_MAX then Inl (Pqxx_conversion_error (base @ '': Value out of range.''))
         else if dropWhile is_digit_c r \<noteq> [] then Inl (Pqxx_conversion_error (base @ '': Could not parse full string.''))
         else Inr v)"

text \<open>\<open>field::as<T>()\<close> for a type without a null value.\<close>

definition field_as :: "string \<Rightarrow> (string \<Rightarrow> 'a res) \<Rightarrow> string option \<Rightarrow> 'a res" where
  "field_as type_name from_string f =
     (case f of
        None \<Rightarrow> Inl (Pqxx_conversion_error (''Attempt to convert null to '' @ type_name @ ''.''))
      | Some text \<Rightarrow> from_string text)"

lemma int_from_nat_to_string:
  assumes "int n \<le> INT_MAX"
  shows "int_from_string (nat_to_string n) = Inr (int n)"
proof -
  let ?s = "nat_to_string n"
  have d: "\<forall>c \<in> set ?s. is_digit_c c" by (rule nat_to_string_digits)
  then have hd: "is_digit_c (hd ?s)" by simp
  have "hd ?s \<noteq> CHR '' ''" "hd ?s \<noteq> CHR 0x09" "hd ?s \<noteq> CHR ''-''"
    using hd by (auto simp: is_digit_c_def less_eq_char_def)
  then have "dropWhile (\<lambda>c. c = CHR '' '' \<or> c = CHR 0x09) ?s = ?s" "hd ?s \<noteq> CHR ''-''"
    by (auto simp: dropWhile_none)
  moreover have "takeWhile is_digit_c ?s = ?s" using d by (rule takeWhile_all)
  moreover have "dropWhile is_digit_c ?s = []" using d by (rule dropWhile_all)
  ultimately show ?thesis
    using assms by (simp add: int_from_string_def Let_def foldl_digits_nat_to_string INT_MIN_def takeWhile_all
        del: dropWhile_eq_Nil_conv)
qed

end
