(* ===== verification/Pqxx_Transaction.thy ===== *)
theory Pqxx_Transaction
  imports Pqxx_Base
begin

text \<open>
  \<open>pqxx::connection\<close> (\<open>src/connection.cxx\<close>) and \<open>pqxx::work\<close>, the read-write transaction at
  isolation level read committed (\<open>src/transaction_base.cxx\<close>, \<open>src/transaction.cxx\<close>).  A scope of the
  program holds one connection and one transaction on it: the record \<open>scope\<close> with the state of
  libpq.  Every operation is an action on the scope.
\<close>

section \<open>State\<close>

datatype tstatus = Active | Aborted | Committed | In_doubt

record connection =
  m_conn :: nat
  m_trans :: "guest option"
  notices :: "string list"

record transaction =
  m_name :: string
  m_status :: tstatus
  m_registered :: bool
  m_pending_error :: string
  m_focus :: "guest option"

record 's scope =
  srv :: 's
  cn :: connection
  tx :: transaction

text \<open>The transaction's own entry in \<open>m_trans\<close>; its address is 1.\<close>

definition trans_guest :: "transaction \<Rightarrow> guest" where
  "trans_guest t = (1, ''transaction'', m_name t)"

section \<open>The connection\<close>

text \<open>
  \<open>process_notice\<close> appends a missing newline and hands the message to the error handlers.  The
  program registers none, so a notice goes nowhere; the model keeps them in \<open>notices\<close>.
\<close>

definition process_notice :: "string \<Rightarrow> 's scope \<Rightarrow> 's scope" where
  "process_notice msg w =
     (if msg = [] then w
      else w\<lparr>cn := (cn w)\<lparr>notices := notices (cn w) @ [if last msg = newline then msg else msg @ [newline]]\<rparr>\<rparr>)"

definition is_open :: "'s libpq \<Rightarrow> 's scope \<Rightarrow> bool" where
  "is_open L w = PQstatus_ok L (m_conn (cn w)) (srv w)"

definition encoding_id :: "'s libpq \<Rightarrow> ('s scope, int) act" where
  "encoding_id L = (\<lambda>w.
     let enc = PQclientEncoding L (m_conn (cn w)) (srv w) in
     if enc = -1 then
       (if is_open L w then throwA (Pqxx_failure ''Could not obtain client encoding.'') w
        else throwA (Pqxx_broken_connection ''Lost connection to the database server.'') w)
     else retA enc w)"

definition make_result :: "'s libpq \<Rightarrow> pgresult option \<Rightarrow> string \<Rightarrow> ('s scope, pgresult) act" where
  "make_result L pgr desc =
     (case pgr of
        None \<Rightarrow> (\<lambda>w. if is_open L w then throwA (Pqxx_failure (PQerrorMessage L (m_conn (cn w)) (srv w))) w
                       else throwA (Pqxx_broken_connection ''Lost connection to the database server.'') w)
      | Some r \<Rightarrow>
          bindA (encoding_id L) (\<lambda>enc.
          bindA (liftR (enc_group (pg_encoding_to_char L enc))) (\<lambda>_.
          liftR (check_status desc r))))"

text \<open>\<open>get_notifs\<close>, with no receiver registered.\<close>

definition get_notifs :: "'s libpq \<Rightarrow> ('s scope, unit) act" where
  "get_notifs L = (\<lambda>w.
     case PQconsumeInput L (m_conn (cn w)) (srv w) of
       (False, s) \<Rightarrow> throwA (Pqxx_broken_connection ''Connection lost.'') (w\<lparr>srv := s\<rparr>)
     | (True, s) \<Rightarrow>
         if m_trans (cn w) \<noteq> None then retA () (w\<lparr>srv := s\<rparr>)
         else retA () (w\<lparr>srv := PQnotifies L (m_conn (cn w)) s\<rparr>))"

definition conn_exec :: "'s libpq \<Rightarrow> string \<Rightarrow> string \<Rightarrow> ('s scope, pgresult) act" where
  "conn_exec L query desc = (\<lambda>w.
     case PQexec L (m_conn (cn w)) query (srv w) of
       (pgr, s) \<Rightarrow>
         bindA (make_result L pgr desc) (\<lambda>res.
         bindA (get_notifs L) (\<lambda>_. retA res)) (w\<lparr>srv := s\<rparr>))"

definition conn_exec_params :: "'s libpq \<Rightarrow> string \<Rightarrow> string list \<Rightarrow> ('s scope, pgresult) act" where
  "conn_exec_params L query args = (\<lambda>w.
     case PQexecParams L (m_conn (cn w)) query args (srv w) of
       (pgr, s) \<Rightarrow>
         bindA (make_result L pgr []) (\<lambda>r.
         bindA (get_notifs L) (\<lambda>_. retA r)) (w\<lparr>srv := s\<rparr>))"

text \<open>\<open>connection::esc\<close>.\<close>

definition conn_esc :: "'s libpq \<Rightarrow> string \<Rightarrow> ('s scope, string) act" where
  "conn_esc L txt = (\<lambda>w.
     case PQescapeStringConn L (m_conn (cn w)) txt (srv w) of
       None \<Rightarrow> throwA (Pqxx_argument_error (PQerrorMessage L (m_conn (cn w)) (srv w))) w
     | Some s \<Rightarrow> retA s w)"

definition conn_register_transaction :: "('s scope, unit) act" where
  "conn_register_transaction = (\<lambda>w.
     bindA (liftR (check_unique_register (m_trans (cn w)) (Some (trans_guest (tx w))))) (\<lambda>_.
       \<lambda>w. retA () (w\<lparr>cn := (cn w)\<lparr>m_trans := Some (trans_guest (tx w))\<rparr>\<rparr>)) w)"

text \<open>\<open>what()\<close>, for the notices made of caught exceptions; character pointers, which have no \<open>what()\<close>, are never
  among these.\<close>

fun what :: "exn \<Rightarrow> string" where
  "what (Out_of_range s) = s"
| "what (Invalid_argument s) = s"
| "what (Length_error s) = s"
| "what (System_error s) = s"
| "what (Logic_error s) = s"
| "what (Runtime_error s) = s"
| "what (Overflow_error s) = s"
| "what (Cstr s) = s"
| "what Dangling_cstr = []"
| "what Bad_alloc = ''bad allocation''"
| "what (Pqxx_failure s) = s"
| "what (Pqxx_broken_connection s) = s"
| "what (Pqxx_usage_error s) = s"
| "what (Pqxx_internal_error s) = s"
| "what (Pqxx_argument_error s) = s"
| "what (Pqxx_conversion_error s) = s"
| "what (Pqxx_conversion_overrun s) = s"
| "what (Pqxx_unexpected_rows s) = s"
| "what (Pqxx_unexpected_null s) = s"
| "what (Pqxx_range_error s) = s"
| "what (Pqxx_in_doubt_error s) = s"
| "what (Pqxx_completion_unknown s) = s"
| "what (Pqxx_sql_error _ s) = s"

text \<open>A mismatch only gives a notice; the slot is cleared in any case.\<close>

definition conn_unregister_transaction :: "'s scope \<Rightarrow> 's scope" where
  "conn_unregister_transaction w =
     (let w = (case check_unique_unregister (m_trans (cn w)) (Some (trans_guest (tx w))) of
                 Inl e \<Rightarrow> process_notice (what e) w
               | Inr _ \<Rightarrow> w)
      in w\<lparr>cn := (cn w)\<lparr>m_trans := None\<rparr>\<rparr>)"

section \<open>The transaction\<close>

definition tx_description :: "transaction \<Rightarrow> string" where
  "tx_description t = describe_object ''transaction'' (m_name t)"

definition check_pending_error :: "('s scope, unit) act" where
  "check_pending_error = (\<lambda>w.
     if m_pending_error (tx w) \<noteq> []
     then throwA (Pqxx_failure (m_pending_error (tx w))) (w\<lparr>tx := (tx w)\<lparr>m_pending_error := []\<rparr>\<rparr>)
     else retA () w)"

definition direct_exec :: "'s libpq \<Rightarrow> string \<Rightarrow> ('s scope, pgresult) act" where
  "direct_exec L cmd = bindA check_pending_error (\<lambda>_. conn_exec L cmd [])"

text \<open>\<open>register_focus\<close> and \<open>unregister_focus\<close>; the focus of a command has address 2.\<close>

definition command_guest :: "string \<Rightarrow> guest" where
  "command_guest oname = (2, ''command'', oname)"

definition register_focus :: "guest \<Rightarrow> ('s scope, unit) act" where
  "register_focus new_focus = (\<lambda>w.
     bindA (liftR (check_unique_register (m_focus (tx w)) (Some new_focus))) (\<lambda>_.
       \<lambda>w. retA () (w\<lparr>tx := (tx w)\<lparr>m_focus := Some new_focus\<rparr>\<rparr>)) w)"

definition unregister_focus :: "guest \<Rightarrow> 's scope \<Rightarrow> 's scope" where
  "unregister_focus f w =
     (case check_unique_unregister (m_focus (tx w)) (Some f) of
        Inl e \<Rightarrow> process_notice (what e @ [newline]) w
      | Inr _ \<Rightarrow> w\<lparr>tx := (tx w)\<lparr>m_focus := None\<rparr>\<rparr>)"

text \<open>A \<open>command\<close> object holds the focus while \<open>body\<close> runs.\<close>

definition with_command :: "string \<Rightarrow> ('s scope, 'a) act \<Rightarrow> ('s scope, 'a) act" where
  "with_command oname body =
     bindA (register_focus (command_guest oname)) (\<lambda>_.
     finallyA body (unregister_focus (command_guest oname)))"

definition tx_exec :: "'s libpq \<Rightarrow> string \<Rightarrow> ('s scope, pgresult) act" where
  "tx_exec L query =
     bindA check_pending_error (\<lambda>_.
     with_command [] (\<lambda>w.
       if m_status (tx w) = Active then direct_exec L query w
       else throwA (Pqxx_usage_error ''Could not execute command : transaction is already closed.'') w))"

text \<open>\<open>exec_params\<close> neither checks the pending error nor the status of the transaction.\<close>

definition tx_exec_params :: "'s libpq \<Rightarrow> string \<Rightarrow> string list \<Rightarrow> ('s scope, pgresult) act" where
  "tx_exec_params L query args = with_command query (conn_exec_params L query args)"

text \<open>\<open>basic_transaction::do_commit\<close>.\<close>

definition doubt_message :: "string \<Rightarrow> string \<Rightarrow> string" where
  "doubt_message what_happened nm =
     ''WARNING: '' @ what_happened @ [CHR 0x27] @ nm @ [CHR 0x27]"

definition do_commit :: "'s libpq \<Rightarrow> ('s scope, unit) act" where
  "do_commit L =
     catchA (bindA (direct_exec L ''COMMIT'') (\<lambda>_. retA ())) (\<lambda>e w.
       case e of
         Pqxx_completion_unknown m \<Rightarrow>
           let w = process_notice (m @ [newline]) w;
               msg = doubt_message ''Commit of transaction '' (m_name (tx w)) @
                 '' is unknown. There is no way to tell whether the transaction succeeded or was aborted except to check manually.''
           in throwA (Pqxx_in_doubt_error msg) (process_notice (msg @ [newline]) w)
       | _ \<Rightarrow>
           if \<not> is_std_exception e then throwA e w
           else if \<not> is_open L w then
             (let w = process_notice (what e @ [newline]) w;
                  msg = doubt_message ''Connection lost while committing transaction '' (m_name (tx w)) @
                    ''. There is no way to tell whether the transaction succeeded or was aborted except to check manually.''
              in throwA (Pqxx_in_doubt_error msg) (process_notice (msg @ [newline]) w))
           else throwA e w)"

definition set_status :: "tstatus \<Rightarrow> 's scope \<Rightarrow> 's scope" where
  "set_status st w = w\<lparr>tx := (tx w)\<lparr>m_status := st\<rparr>\<rparr>"

definition do_abort :: "'s libpq \<Rightarrow> ('s scope, unit) act" where
  "do_abort L = bindA (direct_exec L ''ROLLBACK'') (\<lambda>_. retA ())"

text \<open>
  \<open>abort\<close> and \<open>close\<close> call each other: \<open>close\<close> aborts an active transaction, and \<open>abort\<close> closes after
  it set the status, when \<open>close\<close> has nothing left to abort.  \<open>close_inactive\<close> is that second
  visit.
\<close>

definition close_inactive :: "'s scope \<Rightarrow> 's scope" where
  "close_inactive w =
     (let w = (case check_pending_error w of (Inl e, w) \<Rightarrow> process_notice (what e) w | (Inr _, w) \<Rightarrow> w)
      in if m_registered (tx w)
         then conn_unregister_transaction (w\<lparr>tx := (tx w)\<lparr>m_registered := False\<rparr>\<rparr>)
         else w)"

definition tx_abort :: "'s libpq \<Rightarrow> ('s scope, unit) act" where
  "tx_abort L = (\<lambda>w.
     case m_status (tx w) of
       Active \<Rightarrow>
         bindA (catchA (do_abort L) (\<lambda>e w. retA () (process_notice (what e @ [newline]) w))) (\<lambda>_.
           \<lambda>w. retA () (close_inactive (set_status Aborted w))) w
     | Aborted \<Rightarrow> retA () w
     | Committed \<Rightarrow> throwA (Pqxx_usage_error
         (''Attempt to abort previously committed '' @ tx_description (tx w))) w
     | In_doubt \<Rightarrow> retA () (process_notice (''Warning: '' @ tx_description (tx w) @
         '' aborted after going into indeterminate state; it may have been executed anyway.'' @ [newline]) w))"

definition tx_close :: "'s libpq \<Rightarrow> 's scope \<Rightarrow> 's scope" where
  "tx_close L w =
     (let w = close_inactive w in
      if m_status (tx w) \<noteq> Active then w
      else let w = (case m_focus (tx w) of None \<Rightarrow> w
                    | Some f \<Rightarrow> process_notice (''Closing '' @ tx_description (tx w) @ ''  with '' @
                        guest_text f @ '' still open.'' @ [newline]) w)
           in (case tx_abort L w of (Inl e, w) \<Rightarrow> process_notice (what e) w | (Inr _, w) \<Rightarrow> w))"

definition tx_commit :: "'s libpq \<Rightarrow> ('s scope, unit) act" where
  "tx_commit L =
     bindA check_pending_error (\<lambda>_ w.
     case m_status (tx w) of
       Aborted \<Rightarrow> throwA (Pqxx_usage_error
         (''Attempt to commit previously aborted '' @ tx_description (tx w))) w
     | Committed \<Rightarrow> retA () (process_notice (tx_description (tx w) @ '' committed more than once.'' @ [newline]) w)
     | In_doubt \<Rightarrow> throwA (Pqxx_in_doubt_error
         (tx_description (tx w) @ '' committed again while in an indeterminate state.'')) w
     | Active \<Rightarrow>
         (case m_focus (tx w) of
            Some f \<Rightarrow> throwA (Pqxx_failure
              (''Attempt to commit '' @ tx_description (tx w) @ '' with '' @ guest_text f @ '' still open.'')) w
          | None \<Rightarrow>
              if \<not> is_open L w then throwA (Pqxx_broken_connection
                ''Broken connection to backend; cannot complete transaction.'') w
              else
                bindA (catchA (do_commit L) (\<lambda>e w. case e of
                    Pqxx_in_doubt_error _ \<Rightarrow> throwA e (set_status In_doubt w)
                  | _ \<Rightarrow> throwA e (if is_std_exception e then set_status Aborted w else w))) (\<lambda>_.
                  \<lambda>w. retA () (tx_close L (set_status Committed w))) w))"

section \<open>Scopes\<close>

text \<open>
  \<open>set_up_state\<close> and \<open>complete_init\<close>: a failure finishes the libpq connection and rethrows.
\<close>

definition set_up_state :: "'s libpq \<Rightarrow> nat \<Rightarrow> 's \<Rightarrow> unit res" where
  "set_up_state L c s =
     (if PQprotocolVersion L c s < 3 then
        (if PQprotocolVersion L c s = 0 then Inl (Pqxx_broken_connection ''No connection.'')
         else Inl (Pqxx_sql_error ''feature_not_supported''
           ''Unsupported frontend/backend protocol version; 3.0 is the minimum.''))
      else if PQserverVersion L c s \<le> 90000 then
        Inl (Pqxx_sql_error ''feature_not_supported'' ''Unsupported server version; 9.0 is the minimum.'')
      else Inr ())"

definition conn_init :: "'s libpq \<Rightarrow> string \<Rightarrow> ('s, connection) act" where
  "conn_init L options = (\<lambda>s.
     case PQconnectdb L options s of
       (None, s) \<Rightarrow> throwA Bad_alloc s
     | (Some c, s) \<Rightarrow>
         if \<not> PQstatus_ok L c s then throwA (Pqxx_broken_connection (PQerrorMessage L c s)) (PQfinish L c s)
         else (case set_up_state L c s of
                 Inl e \<Rightarrow> throwA e (PQfinish L c s)
               | Inr _ \<Rightarrow> retA \<lparr>m_conn = c, m_trans = None, notices = []\<rparr> s))"

definition new_transaction :: transaction where
  "new_transaction = \<lparr>m_name = [], m_status = Active, m_registered = False, m_pending_error = [], m_focus = None\<rparr>"

text \<open>\<open>transaction_base::register_transaction\<close> and the constructor's \<open>BEGIN\<close>.\<close>

definition tx_begin :: "'s libpq \<Rightarrow> ('s scope, unit) act" where
  "tx_begin L =
     bindA conn_register_transaction (\<lambda>_ w.
       bindA (direct_exec L ''BEGIN'') (\<lambda>_. retA ()) (w\<lparr>tx := (tx w)\<lparr>m_registered := True\<rparr>\<rparr>))"

text \<open>
  \<open>transaction_base\<close>'s destructor: a pending error becomes a notice, and a transaction still
  registered (its constructor threw) is taken off the connection.
\<close>

definition tx_base_destroy :: "'s scope \<Rightarrow> 's scope" where
  "tx_base_destroy w =
     (let w = (if m_pending_error (tx w) \<noteq> []
               then process_notice (''UNPROCESSED ERROR: '' @ m_pending_error (tx w) @ [newline]) w else w)
      in if m_registered (tx w)
         then conn_unregister_transaction (process_notice (tx_description (tx w) @
                '' was never closed properly!'' @ [newline]) w)
         else w)"

text \<open>
  A scope \<open>{ connection conn(cs); work transact{conn}; body }\<close>.  On every way out the destructors run:
  the transaction is closed, which aborts it when it is still active, and the connection is
  finished.  When the constructor of the transaction throws, only its base is destroyed.
\<close>

definition conn_close :: "'s libpq \<Rightarrow> 's scope \<Rightarrow> 's" where
  "conn_close L w = PQfinish L (m_conn (cn w)) (srv w)"

definition with_work :: "'s libpq \<Rightarrow> string \<Rightarrow> ('s scope, 'a) act \<Rightarrow> ('s, 'a) act" where
  "with_work L cs body = (\<lambda>s.
     case conn_init L cs s of
       (Inl e, s) \<Rightarrow> (Inl e, s)
     | (Inr conn, s) \<Rightarrow>
         (case tx_begin L \<lparr>srv = s, cn = conn, tx = new_transaction\<rparr> of
            (Inl e, w) \<Rightarrow> (Inl e, conn_close L (tx_base_destroy w))
          | (Inr _, w) \<Rightarrow>
              (case body w of (r, w) \<Rightarrow> (r, conn_close L (tx_base_destroy (tx_close L w))))))"

text \<open>\<open>exec_n(1, query)\<close>, \<open>query_value\<close> and the rows of \<open>query<string, int>\<close>.\<close>

definition tx_exec1 :: "'s libpq \<Rightarrow> string \<Rightarrow> ('s scope, pgresult) act" where
  "tx_exec1 L query =
     bindA (tx_exec L query) (\<lambda>r.
     if length (res_rows r) \<noteq> 1 then throwA (Pqxx_unexpected_rows
       (''Expected 1 row(s) of data from query , got '' @ nat_to_string (length (res_rows r)) @ ''.''))
     else retA r)"

definition query_value :: "'s libpq \<Rightarrow> string \<Rightarrow> (string \<Rightarrow> 'a res) \<Rightarrow> string \<Rightarrow> ('s scope, 'a) act" where
  "query_value L type_name from_string query =
     bindA (tx_exec1 L query) (\<lambda>r.
     if res_columns r \<noteq> 1 then throwA (Pqxx_usage_error
       (''Queried single value from result with '' @ nat_to_string (res_columns r) @ '' columns.''))
     else liftR (field_as type_name from_string (hd (hd (res_rows r)))))"

definition row_string_int :: "nat \<Rightarrow> string option list \<Rightarrow> (string \<times> int) res" where
  "row_string_int columns row =
     (if columns \<noteq> 2 then Inl (Pqxx_usage_error
        (''Tried to extract 2 field(s) from a row of '' @ nat_to_string columns @ ''.''))
      else bindR (field_as ''std::string'' Inr (row ! 0)) (\<lambda>a.
           bindR (field_as ''int'' int_from_string (row ! 1)) (\<lambda>b. Inr (a, b))))"

end
