(* ===== verification/Pg_Server.thy ===== *)
theory Pg_Server
  imports Pqxx_Transaction "HOL-Library.Multiset"
begin

text \<open>
  What the program relies on of PostgreSQL and libpq.  The statements the program sends are the
  datatype \<open>stmt\<close>; \<open>run_stmt\<close> is their documented effect on the three tables, with sessions,
  transactions and a schedule of failures (a statement that fails is cancelled before it runs);
  \<open>serves L sem cs\<close> says that the libpq functions \<open>L\<close> behave that way on a server state seen through \<open>sem\<close>.
  It speaks of a server that accepts connections and works in UTF-8 with standard strings, and only of statements
  sent while no other session is in a transaction, with texts that are valid UTF-8 and, where they are stored or
  compared, short enough for an index entry (\<open>covered\<close>, \<open>plain_text\<close>, \<open>param_text\<close>).  Nothing is said of the
  text of an error or of the order of rows.  \<open>ref_libpq\<close> is a concrete server that keeps the contract.
\<close>

section \<open>The tables\<close>

record tables =
  has_keywords :: bool
  has_urls :: bool
  has_pairs :: bool
  kw_rows :: "(nat \<times> string) list"
  url_rows :: "(nat \<times> string) list"
  pair_rows :: "((nat \<times> nat) \<times> int) list"

definition id_of :: "(nat \<times> string) list \<Rightarrow> string \<Rightarrow> nat option" where
  "id_of t x = map_option fst (find (\<lambda>r. snd r = x) t)"

text \<open>A session: autocommit, inside a transaction with its own view, or in a failed transaction.\<close>

datatype session = Idle | InTx tables | FailedTx

record pgs =
  committed :: tables
  kw_seq :: nat
  url_seq :: nat
  sessions :: "nat \<Rightarrow> session option"
  faults :: "bool list"

section \<open>Statements\<close>

datatype stmt =
    Begin | Commit | Rollback
  | CreateKeywords | CreateUrls | CreatePairs
  | ExistsUrl string | ExistsKeyword string
  | InsertUrl string | InsertKeyword string | InsertPair string string int
  | SelectByKeyword string

definition ok_result :: pgresult where
  "ok_result = \<lparr>res_status = PGRES_COMMAND_OK, res_message = [], res_sqlstate = None, res_columns = 0, res_rows = []\<rparr>"

definition rows_result :: "nat \<Rightarrow> string option list list \<Rightarrow> pgresult" where
  "rows_result n rows = \<lparr>res_status = PGRES_TUPLES_OK, res_message = [], res_sqlstate = None, res_columns = n, res_rows = rows\<rparr>"

definition error_result :: "string \<Rightarrow> pgresult" where
  "error_result code = \<lparr>res_status = PGRES_FATAL_ERROR, res_message = ''ERROR'', res_sqlstate = Some code, res_columns = 0, res_rows = []\<rparr>"

definition bool_row :: "bool \<Rightarrow> pgresult" where
  "bool_row b = rows_result 1 [[Some (if b then ''t'' else ''f'')]]"

definition view_of :: "nat \<Rightarrow> pgs \<Rightarrow> tables" where
  "view_of c p = (case sessions p c of Some (InTx t) \<Rightarrow> t | _ \<Rightarrow> committed p)"

definition store :: "nat \<Rightarrow> tables \<Rightarrow> pgs \<Rightarrow> pgs" where
  "store c t p = (case sessions p c of
      Some (InTx _) \<Rightarrow> p\<lparr>sessions := (sessions p)(c \<mapsto> InTx t)\<rparr>
    | _ \<Rightarrow> p\<lparr>committed := t\<rparr>)"

text \<open>An error leaves the tables alone and fails the transaction of the session, if it has one.\<close>

definition fail_session :: "nat \<Rightarrow> pgs \<Rightarrow> pgs" where
  "fail_session c p = (case sessions p c of
      Some (InTx _) \<Rightarrow> p\<lparr>sessions := (sessions p)(c \<mapsto> FailedTx)\<rparr>
    | _ \<Rightarrow> p)"

definition quantity_rows :: "tables \<Rightarrow> string \<Rightarrow> string option list list" where
  "quantity_rows t k =
     (case id_of (kw_rows t) k of
        None \<Rightarrow> []
      | Some kid \<Rightarrow>
          [[Some u, Some (int_to_string q)]. ((kid', uid), q) \<leftarrow> pair_rows t, kid' = kid, (uid', u) \<leftarrow> url_rows t, uid' = uid])"

text \<open>A data statement on the tables: the new tables and the result, or the SQLSTATE of an error.\<close>

definition data_stmt :: "stmt \<Rightarrow> nat \<Rightarrow> nat \<Rightarrow> tables \<Rightarrow> string + (tables \<times> pgresult)" where
  "data_stmt st ks us t =
     (case st of
        CreateKeywords \<Rightarrow> Inr (t\<lparr>has_keywords := True\<rparr>, ok_result)
      | CreateUrls \<Rightarrow> Inr (t\<lparr>has_urls := True\<rparr>, ok_result)
      | CreatePairs \<Rightarrow> if has_pairs t \<or> (has_keywords t \<and> has_urls t) then Inr (t\<lparr>has_pairs := True\<rparr>, ok_result)
                       else Inl ''42P01''
      | ExistsUrl u \<Rightarrow> if has_urls t then Inr (t, bool_row (id_of (url_rows t) u \<noteq> None)) else Inl ''42P01''
      | ExistsKeyword k \<Rightarrow> if has_keywords t then Inr (t, bool_row (id_of (kw_rows t) k \<noteq> None)) else Inl ''42P01''
      | InsertUrl u \<Rightarrow>
          if \<not> has_urls t then Inl ''42P01''
          else if int us > INT_MAX then Inl ''2200H''
          else if id_of (url_rows t) u \<noteq> None then Inl ''23505''
          else Inr (t\<lparr>url_rows := url_rows t @ [(us, u)]\<rparr>, ok_result)
      | InsertKeyword k \<Rightarrow>
          if \<not> has_keywords t then Inl ''42P01''
          else if int ks > INT_MAX then Inl ''2200H''
          else if id_of (kw_rows t) k \<noteq> None then Inl ''23505''
          else Inr (t\<lparr>kw_rows := kw_rows t @ [(ks, k)]\<rparr>, ok_result)
      | InsertPair k u q \<Rightarrow>
          if \<not> has_pairs t then Inl ''42P01''
          else if q > INT_MAX then Inl ''22003''
          else (case (id_of (kw_rows t) k, id_of (url_rows t) u) of
             (Some kid, Some uid) \<Rightarrow>
               if map_of (pair_rows t) (kid, uid) \<noteq> None then Inl ''23505''
               else Inr (t\<lparr>pair_rows := pair_rows t @ [((kid, uid), q)]\<rparr>, ok_result)
           | _ \<Rightarrow> Inl ''23502'')
      | SelectByKeyword k \<Rightarrow> if has_pairs t then Inr (t, rows_result 2 (quantity_rows t k)) else Inl ''42P01''
      | _ \<Rightarrow> Inr (t, ok_result))"

text \<open>
  Sequences advance with every attempted insertion and are not rolled back; a column of type \<open>SERIAL\<close> takes them up
  to the largest \<open>INTEGER\<close>.  A \<open>COMMIT\<close> that fails ends the transaction, any other failure leaves it to be rolled back.
\<close>

definition run_stmt :: "nat \<Rightarrow> stmt \<Rightarrow> pgs \<Rightarrow> pgresult \<times> pgs" where
  "run_stmt c st p =
     (let fault = (faults p \<noteq> [] \<and> hd (faults p)); p = p\<lparr>faults := tl (faults p)\<rparr> in
      if st = Rollback then (ok_result, p\<lparr>sessions := (sessions p)(c \<mapsto> Idle)\<rparr>)
      else if fault then
        (error_result ''57014'', if st = Commit then p\<lparr>sessions := (sessions p)(c \<mapsto> Idle)\<rparr> else fail_session c p)
      else if st = Commit then
        (case sessions p c of
           Some (InTx t) \<Rightarrow> (ok_result, p\<lparr>committed := t, sessions := (sessions p)(c \<mapsto> Idle)\<rparr>)
         | _ \<Rightarrow> (ok_result, p\<lparr>sessions := (sessions p)(c \<mapsto> Idle)\<rparr>))
      else if sessions p c = Some FailedTx then (error_result ''25P02'', p)
      else if st = Begin then
        (case sessions p c of
           Some (InTx t) \<Rightarrow> (ok_result, p)
         | _ \<Rightarrow> (ok_result, p\<lparr>sessions := (sessions p)(c \<mapsto> InTx (committed p))\<rparr>))
      else
        (let p' = (case st of InsertUrl _ \<Rightarrow> p\<lparr>url_seq := Suc (url_seq p)\<rparr>
                   | InsertKeyword _ \<Rightarrow> p\<lparr>kw_seq := Suc (kw_seq p)\<rparr> | _ \<Rightarrow> p)
         in case data_stmt st (kw_seq p) (url_seq p) (view_of c p) of
              Inl code \<Rightarrow> (error_result code, fail_session c p')
            | Inr (t, r) \<Rightarrow> (r, store c t p')))"

section \<open>The text of the statements\<close>

definition quote :: string where
  "quote = [CHR 0x27]"

text \<open>What \<open>PQescapeStringConn\<close> does: quotes are doubled.\<close>

definition escape :: "string \<Rightarrow> string" where
  "escape s = concat (map (\<lambda>c. if c = CHR 0x27 then [CHR 0x27, CHR 0x27] else [c]) s)"

text \<open>Valid UTF-8: the check of \<open>pg_utf8_islegal\<close> on every character (shortest form, no surrogates, up to U+10FFFF).\<close>

definition cont_byte :: "char \<Rightarrow> bool" where
  "cont_byte c \<longleftrightarrow> 0x80 \<le> (of_char c :: nat) \<and> (of_char c :: nat) \<le> 0xBF"

definition second_ok :: "nat \<Rightarrow> nat \<Rightarrow> bool" where
  "second_ok b c \<longleftrightarrow> (if b = 0xE0 then 0xA0 else if b = 0xF0 then 0x90 else 0x80) \<le> c \<and>
     c \<le> (if b = 0xED then 0x9F else if b = 0xF4 then 0x8F else 0xBF)"

fun utf8_ok :: "string \<Rightarrow> bool" where
  "utf8_ok [] = True"
| "utf8_ok (a # s) =
     (let b = of_char a :: nat in
      if b < 0x80 then utf8_ok s
      else if 0xC2 \<le> b \<and> b \<le> 0xDF then (case s of c # s' \<Rightarrow> cont_byte c \<and> utf8_ok s' | _ \<Rightarrow> False)
      else if 0xE0 \<le> b \<and> b \<le> 0xEF then
        (case s of c # d # s' \<Rightarrow> second_ok b (of_char c) \<and> cont_byte d \<and> utf8_ok s' | _ \<Rightarrow> False)
      else if 0xF0 \<le> b \<and> b \<le> 0xF4 then
        (case s of c # d # e # s' \<Rightarrow> second_ok b (of_char c) \<and> cont_byte d \<and> cont_byte e \<and> utf8_ok s' | _ \<Rightarrow> False)
      else False)"

lemma utf8_ok_ascii: "list_all (\<lambda>c. (of_char c :: nat) < 0x80) s \<Longrightarrow> utf8_ok s"
  by (induction s) (simp_all add: Let_def)

text \<open>
  A text a statement can carry, and one that fits into an entry of a unique index (the limit is about 2700 bytes).
  A literal is safe when nothing in it has to be escaped.
\<close>

definition text_ok :: "string \<Rightarrow> bool" where
  "text_ok s \<longleftrightarrow> CHR 0x00 \<notin> set s \<and> utf8_ok s \<and> length s \<le> 2 ^ 20"

definition storable :: "string \<Rightarrow> bool" where
  "storable s \<longleftrightarrow> text_ok s \<and> length s \<le> 2000"

definition safe_literal :: "string \<Rightarrow> bool" where
  "safe_literal s \<longleftrightarrow> CHR 0x27 \<notin> set s \<and> storable s"

lemma safe_literal_storable: "safe_literal s \<Longrightarrow> storable s"
  by (simp add: safe_literal_def)

lemma safe_literal_ascii:
  "list_all (\<lambda>c. (of_char c :: nat) < 0x80 \<and> c \<noteq> CHR 0x27 \<and> c \<noteq> CHR 0x00) s \<Longrightarrow> length s \<le> 2000 \<Longrightarrow> safe_literal s"
  using utf8_ok_ascii [of s] by (auto simp: safe_literal_def storable_def text_ok_def list_all_iff)

definition create_keywords_sql :: string where
  "create_keywords_sql = ''CREATE TABLE IF NOT EXISTS keywords( '' @ ''id SERIAL PRIMARY KEY, '' @
     ''keyword TEXT NOT NULL UNIQUE)''"

definition create_urls_sql :: string where
  "create_urls_sql = ''CREATE TABLE IF NOT EXISTS urls( '' @ ''id SERIAL PRIMARY KEY, '' @
     ''url TEXT NOT NULL UNIQUE)''"

definition create_pairs_sql :: string where
  "create_pairs_sql = ''CREATE TABLE IF NOT EXISTS keyword_urs_qty( '' @
     ''id_keyword INTEGER REFERENCES keywords(id), '' @ ''id_url INTEGER REFERENCES urls(id), '' @
     ''quantity INTEGER NOT NULL, '' @ ''CONSTRAINT k_u PRIMARY KEY(id_keyword, id_url))''"

definition exists_url_sql :: "string \<Rightarrow> string" where
  "exists_url_sql u = ''SELECT EXISTS(SELECT id FROM urls WHERE url = '' @ quote @ u @ quote @ '');''"

definition exists_keyword_sql :: "string \<Rightarrow> string" where
  "exists_keyword_sql k = ''SELECT EXISTS(SELECT id FROM keywords WHERE keyword = '' @ quote @ k @ quote @ '');''"

definition insert_url_sql :: string where
  "insert_url_sql = ''INSERT INTO urls (url) VALUES ( $1 )''"

definition insert_keyword_sql :: string where
  "insert_keyword_sql = ''INSERT INTO keywords (keyword) VALUES ( $1 )''"

definition insert_pair_sql :: string where
  "insert_pair_sql = ''INSERT INTO keyword_urs_qty (id_keyword, id_url, quantity) VALUES ('' @
     ''(SELECT id FROM keywords WHERE keyword = $1),'' @ ''(SELECT id FROM urls WHERE url = $2), $3)''"

definition select_sql :: "string \<Rightarrow> string" where
  "select_sql key_esc = ''SELECT u.url, kuq.quantity '' @ ''FROM urls u '' @
     ''JOIN keyword_urs_qty kuq ON u.id = kuq.id_url '' @ ''JOIN keywords k ON kuq.id_keyword = k.id '' @
     ''WHERE k.keyword = '' @ quote @ key_esc @ quote @ '' ''"

text \<open>The texts that mean a statement, sent alone (\<open>PQexec\<close>) or with parameters (\<open>PQexecParams\<close>).\<close>

inductive plain_text :: "stmt \<Rightarrow> string \<Rightarrow> bool" where
  "plain_text Begin ''BEGIN''"
| "plain_text Commit ''COMMIT''"
| "plain_text Rollback ''ROLLBACK''"
| "plain_text CreateKeywords create_keywords_sql"
| "plain_text CreateUrls create_urls_sql"
| "plain_text CreatePairs create_pairs_sql"
| "safe_literal u \<Longrightarrow> plain_text (ExistsUrl u) (exists_url_sql u)"
| "safe_literal k \<Longrightarrow> plain_text (ExistsKeyword k) (exists_keyword_sql k)"
| "text_ok k \<Longrightarrow> plain_text (SelectByKeyword k) (select_sql (escape k))"

inductive param_text :: "stmt \<Rightarrow> string \<Rightarrow> string list \<Rightarrow> bool" where
  "storable u \<Longrightarrow> param_text (InsertUrl u) insert_url_sql [u]"
| "storable k \<Longrightarrow> param_text (InsertKeyword k) insert_keyword_sql [k]"
| "storable k \<Longrightarrow> storable u \<Longrightarrow>
     param_text (InsertPair k u (int n)) insert_pair_sql [k, u, nat_to_string n]"

section \<open>The contract\<close>

text \<open>
  Results agree up to the order of rows, which SQL leaves open, and the text of a message, which is empty if and only
  if there was no error.
\<close>

definition same_result :: "pgresult \<Rightarrow> pgresult \<Rightarrow> bool" where
  "same_result r r' \<longleftrightarrow> res_status r = res_status r' \<and> res_sqlstate r = res_sqlstate r' \<and>
     (res_message r = [] \<longleftrightarrow> res_message r' = []) \<and> res_columns r = res_columns r' \<and> mset (res_rows r) = mset (res_rows r')"

text \<open>
  The statements the contract is about: those of an open session, while every other session is outside a
  transaction, and insertions only into tables that are there (a table's sequence is born with it).
\<close>

definition alone :: "nat \<Rightarrow> pgs \<Rightarrow> bool" where
  "alone c p \<longleftrightarrow> (\<forall>c'. c' \<noteq> c \<longrightarrow> sessions p c' = None \<or> sessions p c' = Some Idle)"

definition covered :: "nat \<Rightarrow> stmt \<Rightarrow> pgs \<Rightarrow> bool" where
  "covered c st p \<longleftrightarrow> sessions p c \<noteq> None \<and> alone c p \<and>
     (case st of InsertUrl _ \<Rightarrow> has_urls (committed p) | InsertKeyword _ \<Rightarrow> has_keywords (committed p) | _ \<Rightarrow> True)"

definition serves :: "'s libpq \<Rightarrow> ('s \<Rightarrow> pgs) \<Rightarrow> string \<Rightarrow> bool" where
  "serves L sem cs \<longleftrightarrow>
     (\<forall>s. \<exists>c s'. PQconnectdb L cs s = (Some c, s') \<and> sessions (sem s) c = None \<and>
        sem s' = (sem s)\<lparr>sessions := (sessions (sem s))(c \<mapsto> Idle)\<rparr>) \<and>
     (\<forall>c s. sessions (sem s) c \<noteq> None \<longrightarrow>
        PQstatus_ok L c s \<and> PQprotocolVersion L c s \<ge> 3 \<and> PQserverVersion L c s > 90000 \<and>
        PQclientEncoding L c s \<noteq> -1 \<and>
        pg_encoding_to_char L (PQclientEncoding L c s) = ''UTF8'' \<and>
        (\<exists>s'. PQconsumeInput L c s = (True, s') \<and> sem s' = sem s) \<and>
        sem (PQnotifies L c s) = sem s \<and>
        (\<forall>t. text_ok t \<longrightarrow> PQescapeStringConn L c t s = Some (escape t)) \<and>
        sem (PQfinish L c s) = (sem s)\<lparr>sessions := (sessions (sem s))(c := None)\<rparr> \<and>
        (\<forall>st t. plain_text st t \<and> covered c st (sem s) \<longrightarrow> (\<exists>r s'. PQexec L c t s = (Some r, s') \<and>
           same_result r (fst (run_stmt c st (sem s))) \<and> sem s' = snd (run_stmt c st (sem s)))) \<and>
        (\<forall>st t args. param_text st t args \<and> covered c st (sem s) \<longrightarrow> (\<exists>r s'. PQexecParams L c t args s = (Some r, s') \<and>
           same_result r (fst (run_stmt c st (sem s))) \<and> sem s' = snd (run_stmt c st (sem s)))))"

section \<open>A concrete server\<close>

text \<open>A literal between a fixed beginning and a fixed end.\<close>

definition between :: "string \<Rightarrow> string \<Rightarrow> string \<Rightarrow> string option" where
  "between pre suf t =
     (if is_prefix pre t \<and> length pre + length suf \<le> length t \<and> drop (length t - length suf) t = suf
      then Some (take (length t - length pre - length suf) (drop (length pre) t)) else None)"

lemma between_app [simp]: "between pre suf (pre @ x @ suf) = Some x"
  by (simp add: between_def)

fun unescape :: "string \<Rightarrow> string" where
  "unescape [] = []"
| "unescape [c] = [c]"
| "unescape (c # d # s) = (if c = CHR 0x27 \<and> d = CHR 0x27 then c # unescape s else c # unescape (d # s))"

lemma unescape_Cons: "c \<noteq> CHR 0x27 \<Longrightarrow> unescape (c # s) = c # unescape s"
  by (cases s) auto

lemma unescape_escape: "unescape (escape s) = s"
  by (induction s) (auto simp: escape_def unescape_Cons)

definition exists_url_pre :: string where
  "exists_url_pre = ''SELECT EXISTS(SELECT id FROM urls WHERE url = '' @ quote"

definition exists_keyword_pre :: string where
  "exists_keyword_pre = ''SELECT EXISTS(SELECT id FROM keywords WHERE keyword = '' @ quote"

definition select_pre :: string where
  "select_pre = ''SELECT u.url, kuq.quantity '' @ ''FROM urls u '' @
     ''JOIN keyword_urs_qty kuq ON u.id = kuq.id_url '' @ ''JOIN keywords k ON kuq.id_keyword = k.id '' @
     ''WHERE k.keyword = '' @ quote"

definition parse_plain :: "string \<Rightarrow> stmt option" where
  "parse_plain t =
     (if t = ''BEGIN'' then Some Begin else if t = ''COMMIT'' then Some Commit
      else if t = ''ROLLBACK'' then Some Rollback
      else if t = create_keywords_sql then Some CreateKeywords
      else if t = create_urls_sql then Some CreateUrls
      else if t = create_pairs_sql then Some CreatePairs
      else case between exists_url_pre (quote @ '');'') t of Some u \<Rightarrow> Some (ExistsUrl u)
      | None \<Rightarrow> (case between exists_keyword_pre (quote @ '');'') t of Some k \<Rightarrow> Some (ExistsKeyword k)
      | None \<Rightarrow> map_option (SelectByKeyword o unescape) (between select_pre (quote @ '' '') t)))"

definition parse_params :: "string \<Rightarrow> string list \<Rightarrow> stmt option" where
  "parse_params t args =
     (case args of
        [x] \<Rightarrow> (if t = insert_url_sql then Some (InsertUrl x)
                else if t = insert_keyword_sql then Some (InsertKeyword x) else None)
      | [k, u, n] \<Rightarrow> (if t = insert_pair_sql then
            Some (InsertPair k u (int (foldl (\<lambda>a c. a * 10 + digit_val c) 0 n))) else None)
      | _ \<Rightarrow> None)"

text \<open>The state of the concrete server: connections are numbered, and those from \<open>n\<close> on are not yet open.\<close>

definition ref_state :: "pgs \<times> nat \<Rightarrow> pgs" where
  "ref_state s = (fst s)\<lparr>sessions := (\<lambda>c. if c < snd s then sessions (fst s) c else None)\<rparr>"

definition run_parsed :: "nat \<Rightarrow> stmt option \<Rightarrow> pgs \<times> nat \<Rightarrow> pgresult option \<times> (pgs \<times> nat)" where
  "run_parsed c st s =
     (case st of
        None \<Rightarrow> (Some (error_result ''42601''), s)
      | Some st \<Rightarrow> (case run_stmt c st (ref_state s) of (r, p) \<Rightarrow> (Some r, (p, snd s))))"

definition ref_libpq :: "(pgs \<times> nat) libpq" where
  "ref_libpq = \<lparr>
     PQconnectdb = (\<lambda>_ s. (Some (snd s), ((fst s)\<lparr>sessions := (sessions (fst s))(snd s \<mapsto> Idle)\<rparr>, Suc (snd s)))),
     PQstatus_ok = (\<lambda>_ _. True),
     PQerrorMessage = (\<lambda>_ _. []),
     PQprotocolVersion = (\<lambda>_ _. 3),
     PQserverVersion = (\<lambda>_ _. 150000),
     PQclientEncoding = (\<lambda>_ _. 6),
     pg_encoding_to_char = (\<lambda>_. ''UTF8''),
     PQexec = (\<lambda>c t. run_parsed c (parse_plain t)),
     PQexecParams = (\<lambda>c t args. run_parsed c (parse_params t args)),
     PQconsumeInput = (\<lambda>_ s. (True, s)),
     PQnotifies = (\<lambda>_ s. s),
     PQescapeStringConn = (\<lambda>_ t _. Some (escape t)),
     PQfinish = (\<lambda>c s. ((fst s)\<lparr>sessions := (sessions (fst s))(c := None)\<rparr>, snd s))\<rparr>"

lemma run_stmt_sessions: "c' \<noteq> c \<Longrightarrow> sessions (snd (run_stmt c st p)) c' = sessions p c'"
  by (auto simp: run_stmt_def store_def fail_session_def Let_def split: option.splits session.splits sum.splits stmt.splits)

lemma run_stmt_open: "sessions p c \<noteq> None \<Longrightarrow> sessions (snd (run_stmt c st p)) c \<noteq> None"
  by (auto simp: run_stmt_def store_def fail_session_def Let_def split: option.splits session.splits sum.splits stmt.splits)

lemma between_other: "\<not> is_prefix pre t \<Longrightarrow> between pre suf t = None"
  by (simp add: between_def)

lemma parse_plain_text:
  assumes "plain_text st t"
  shows "parse_plain t = Some st"
  using assms
proof cases
  case (7 u)
  have "exists_url_sql u = exists_url_pre @ u @ (quote @ '');'')"
    by (simp add: exists_url_sql_def exists_url_pre_def)
  then have "between exists_url_pre (quote @ '');'') t = Some u" using 7 by (simp only: between_app)
  with 7 show ?thesis
    by (simp add: parse_plain_def exists_url_sql_def create_keywords_sql_def create_urls_sql_def create_pairs_sql_def)
next
  case (8 k)
  have "exists_keyword_sql k = exists_keyword_pre @ k @ (quote @ '');'')"
    by (simp add: exists_keyword_sql_def exists_keyword_pre_def)
  then have "between exists_keyword_pre (quote @ '');'') t = Some k" using 8 by (simp only: between_app)
  moreover have "between exists_url_pre (quote @ '');'') t = None"
    using 8 by (intro between_other) (simp add: exists_url_pre_def exists_keyword_sql_def is_prefix_def)
  ultimately show ?thesis
    using 8 by (simp add: parse_plain_def exists_keyword_sql_def create_keywords_sql_def create_urls_sql_def create_pairs_sql_def)
next
  case (9 k)
  have "select_sql (escape k) = select_pre @ escape k @ (quote @ '' '')"
    by (simp add: select_sql_def select_pre_def)
  then have "between select_pre (quote @ '' '') t = Some (escape k)" using 9 by (simp only: between_app)
  moreover have "between exists_url_pre (quote @ '');'') t = None" "between exists_keyword_pre (quote @ '');'') t = None"
    using 9 by (intro between_other; simp add: exists_url_pre_def exists_keyword_pre_def select_sql_def is_prefix_def)+
  ultimately show ?thesis
    using 9 by (simp add: parse_plain_def select_sql_def create_keywords_sql_def create_urls_sql_def
        create_pairs_sql_def unescape_escape)
qed (simp_all add: parse_plain_def create_keywords_sql_def create_urls_sql_def create_pairs_sql_def)

lemma foldl_nat_to_string: "foldl (\<lambda>a c. a * 10 + digit_val c) 0 (nat_to_string n) = n"
  by (rule foldl_digits_nat_to_string)

lemma parse_params_text:
  assumes "param_text st t args"
  shows "parse_params t args = Some st"
  using assms
  by cases (simp_all add: parse_params_def insert_url_sql_def insert_keyword_sql_def insert_pair_sql_def
      foldl_nat_to_string)

lemma same_result_refl [simp]: "same_result r r"
  by (simp add: same_result_def)

lemma ref_state_run:
  assumes "sessions (ref_state s) c \<noteq> None"
  shows "ref_state (snd (run_stmt c st (ref_state s)), snd s) = snd (run_stmt c st (ref_state s))"
proof -
  from assms have c: "c < snd s" by (auto simp: ref_state_def split: if_splits)
  have "sessions (snd (run_stmt c st (ref_state s))) c' = None" if "\<not> c' < snd s" for c'
    using run_stmt_sessions [of c' c st "ref_state s"] that c by (auto simp: ref_state_def)
  then have "(\<lambda>c'. if c' < snd s then sessions (snd (run_stmt c st (ref_state s))) c' else None) =
      sessions (snd (run_stmt c st (ref_state s)))"
    by (intro ext) simp
  then show ?thesis
    unfolding ref_state_def [of "(snd (run_stmt c st (ref_state s)), snd s)"] fst_conv snd_conv by simp
qed

lemma serves_ref: "serves ref_libpq ref_state cs"
  unfolding serves_def
proof (intro conjI allI impI)
  fix s
  show "\<exists>c s'. PQconnectdb ref_libpq cs s = (Some c, s') \<and> sessions (ref_state s) c = None \<and>
      ref_state s' = (ref_state s)\<lparr>sessions := (sessions (ref_state s))(c \<mapsto> Idle)\<rparr>"
    by (auto simp: ref_libpq_def ref_state_def fun_eq_iff)
next
  fix c s assume "sessions (ref_state s) c \<noteq> None"
  then show "ref_state (PQfinish ref_libpq c s) = (ref_state s)\<lparr>sessions := (sessions (ref_state s))(c := None)\<rparr>"
    by (auto simp: ref_libpq_def ref_state_def fun_eq_iff)
next
  fix c s st t assume "sessions (ref_state s) c \<noteq> None" "plain_text st t \<and> covered c st (ref_state s)"
  with parse_plain_text [of st t] ref_state_run [of s c st]
  show "\<exists>r s'. PQexec ref_libpq c t s = (Some r, s') \<and>
      same_result r (fst (run_stmt c st (ref_state s))) \<and> ref_state s' = snd (run_stmt c st (ref_state s))"
    by (simp add: ref_libpq_def run_parsed_def split_beta)
next
  fix c s st t args assume "sessions (ref_state s) c \<noteq> None" "param_text st t args \<and> covered c st (ref_state s)"
  with parse_params_text [of st t args] ref_state_run [of s c st]
  show "\<exists>r s'. PQexecParams ref_libpq c t args s = (Some r, s') \<and>
      same_result r (fst (run_stmt c st (ref_state s))) \<and> ref_state s' = snd (run_stmt c st (ref_state s))"
    by (simp add: ref_libpq_def run_parsed_def split_beta)
qed (simp_all add: ref_libpq_def)
end
