(* ===== verification/DB_Client.thy ===== *)
theory DB_Client
  imports Pg_Server Cpp_Map
begin

text \<open>
  \<open>Include/DB_Client.h\<close>: the index in the database.  Every method opens a connection and a
  transaction of its own (\<open>with_work\<close>); \<open>addLink\<close> calls \<open>findKeyword\<close>, which opens a second connection
  while the first is open.  The abstract view of the three tables is \<open>quantity\<close>: how often a
  keyword occurs on a page.
\<close>

section \<open>The code\<close>

record DB_Client =
  connectionString :: string
  DBHost :: string
  DBPort :: string
  DBName :: string
  DBUser :: string
  DBPassword :: string

definition createConnectionString :: "DB_Client \<Rightarrow> string" where
  "createConnectionString db =
     ''host = '' @ DBHost db @ '' port= '' @ DBPort db @ '' dbname = '' @ DBName db @
     '' user = '' @ DBUser db @ '' password = '' @ DBPassword db"

definition DB_default :: DB_Client where
  "DB_default = \<lparr>connectionString = [], DBHost = [], DBPort = [], DBName = [], DBUser = [], DBPassword = []\<rparr>"

definition findKeyword :: "'s libpq \<Rightarrow> DB_Client \<Rightarrow> string \<Rightarrow> ('s, bool) act" where
  "findKeyword L db keyword =
     with_work L (connectionString db)
       (query_value L ''bool'' bool_from_string (exists_keyword_sql keyword))"

definition DB_Client :: "'s libpq \<Rightarrow> string \<Rightarrow> string \<Rightarrow> string \<Rightarrow> string \<Rightarrow> string \<Rightarrow> ('s, DB_Client) act" where
  "DB_Client L hst port name user password =
     (let db = \<lparr>connectionString = [], DBHost = hst, DBPort = port, DBName = name, DBUser = user, DBPassword = password\<rparr>;
          db = db\<lparr>connectionString := createConnectionString db\<rparr> in
      with_work L (connectionString db)
        (bindA (tx_exec L create_keywords_sql) (\<lambda>_.
         bindA (tx_exec L create_urls_sql) (\<lambda>_.
         bindA (tx_exec L create_pairs_sql) (\<lambda>_.
         bindA (tx_commit L) (\<lambda>_. retA db))))))"

definition findUrl :: "'s libpq \<Rightarrow> DB_Client \<Rightarrow> string \<Rightarrow> ('s, bool) act" where
  "findUrl L db u =
     with_work L (connectionString db)
       (query_value L ''bool'' bool_from_string (exists_url_sql u))"

text \<open>A call that opens connections of its own, made inside a scope.\<close>

definition in_scope :: "('s, 'a) act \<Rightarrow> ('s scope, 'a) act" where
  "in_scope m w = (case m (srv w) of (r, s) \<Rightarrow> (r, w\<lparr>srv := s\<rparr>))"

definition addWord :: "'s libpq \<Rightarrow> DB_Client \<Rightarrow> string \<Rightarrow> string \<times> 32 word \<Rightarrow> ('s scope, unit) act" where
  "addWord L db link kv =
     (case kv of (key, val) \<Rightarrow>
        bindA (in_scope (findKeyword L db key)) (\<lambda>found.
        bindA (if \<not> found then
                 bindA (tx_exec_params L insert_keyword_sql [key]) (\<lambda>_. tx_commit L)
               else retA ()) (\<lambda>_.
        bindA (tx_exec_params L insert_pair_sql [key, link, nat_to_string (unat val)]) (\<lambda>_. retA ()))))"

definition addLink :: "'s libpq \<Rightarrow> DB_Client \<Rightarrow> (string, 32 word) cmap \<Rightarrow> string \<Rightarrow> ('s, unit) act" where
  "addLink L db words link =
     bindA (findUrl L db link) (\<lambda>found.
     if found then retA ()
     else with_work L (connectionString db)
       (bindA (tx_exec_params L insert_url_sql [link]) (\<lambda>_.
        bindA (tx_commit L) (\<lambda>_.
        bindA (forA words (addWord L db link)) (\<lambda>_. tx_commit L)))))"

primrec put_rows :: "nat \<Rightarrow> string option list list \<Rightarrow> (string, int) cmap \<Rightarrow> (string, int) cmap res" where
  "put_rows n [] m = Inr m"
| "put_rows n (row # rows) m = bindR (row_string_int n row) (\<lambda>(u, q). put_rows n rows (map_put u q m))"

definition getUrl :: "'s libpq \<Rightarrow> DB_Client \<Rightarrow> string \<Rightarrow> ('s, (string, int) cmap) act" where
  "getUrl L db keyword =
     with_work L (connectionString db)
       (bindA (conn_esc L keyword) (\<lambda>key_esc.
        bindA (tx_exec L (select_sql key_esc)) (\<lambda>r.
        liftR (put_rows (res_columns r) (res_rows r) []))))"

section \<open>The tables as an index\<close>

text \<open>The abstract view: how often keyword \<open>k\<close> was counted on page \<open>u\<close>.\<close>

definition quantity :: "tables \<Rightarrow> string \<Rightarrow> string \<Rightarrow> int option" where
  "quantity t k u =
     (case (id_of (kw_rows t) k, id_of (url_rows t) u) of
        (Some kid, Some uid) \<Rightarrow> map_of (pair_rows t) (kid, uid)
      | _ \<Rightarrow> None)"

definition rows_ok :: "nat \<Rightarrow> (nat \<times> string) list \<Rightarrow> bool" where
  "rows_ok n t \<longleftrightarrow> distinct (map fst t) \<and> distinct (map snd t) \<and> (\<forall>i \<in> fst ` set t. i < n)"

text \<open>No session is in a transaction.\<close>

definition no_tx :: "(nat \<Rightarrow> session option) \<Rightarrow> bool" where
  "no_tx ss \<longleftrightarrow> (\<forall>c. ss c = None \<or> ss c = Some Idle)"

lemma no_tx_upd: "no_tx ss \<Longrightarrow> x = None \<or> x = Some Idle \<Longrightarrow> no_tx (ss(c := x))"
  by (simp add: no_tx_def)

lemma alone_upd: "no_tx ss \<Longrightarrow> sessions p = ss(c := x) \<Longrightarrow> alone c p"
  by (simp add: no_tx_def alone_def)

lemma alone_no_tx: "no_tx (sessions p) \<Longrightarrow> alone c p"
  by (simp add: no_tx_def alone_def)

text \<open>
  The state between two calls: the three tables are there and consistent, ids are below their sequences, counts fit
  their column, and no session is in a transaction.
\<close>

definition server_ok :: "pgs \<Rightarrow> bool" where
  "server_ok p \<longleftrightarrow> (let t = committed p in no_tx (sessions p) \<and>
     has_keywords t \<and> has_urls t \<and> has_pairs t \<and>
     rows_ok (kw_seq p) (kw_rows t) \<and> rows_ok (url_seq p) (url_rows t) \<and>
     distinct (map fst (pair_rows t)) \<and> (\<forall>q \<in> snd ` set (pair_rows t). 0 \<le> q \<and> q \<le> INT_MAX) \<and>
     fst ` set (pair_rows t) \<subseteq> (fst ` set (kw_rows t)) \<times> (fst ` set (url_rows t)))"

lemma id_of_None: "id_of t x = None \<longleftrightarrow> x \<notin> snd ` set t"
  by (induction t) (auto simp: id_of_def)

lemma id_of_Some: "id_of t x = Some i \<Longrightarrow> (i, x) \<in> set t"
  by (induction t) (auto simp: id_of_def split: if_splits)

lemma snd_key: "distinct (map snd t) \<Longrightarrow> (i, x) \<in> set t \<Longrightarrow> (j, x) \<in> set t \<Longrightarrow> i = j"
  by (induction t) force+

lemma id_of_iff: "rows_ok n t \<Longrightarrow> id_of t x = Some i \<longleftrightarrow> (i, x) \<in> set t"
proof
  assume ok: "rows_ok n t" and m: "(i, x) \<in> set t"
  then obtain j where j: "id_of t x = Some j" using id_of_None [of t x] by force
  with snd_key [of t j x i] id_of_Some [OF j] m ok show "id_of t x = Some i"
    by (simp add: rows_ok_def)
qed (rule id_of_Some)

lemma id_of_inj: "rows_ok n t \<Longrightarrow> id_of t x = Some i \<Longrightarrow> id_of t y = Some i \<Longrightarrow> x = y"
  by (auto simp: rows_ok_def dest!: id_of_Some dest: eq_key_imp_eq_value)

lemma id_of_less: "rows_ok n t \<Longrightarrow> id_of t x = Some i \<Longrightarrow> i < n"
  by (auto simp: rows_ok_def dest!: id_of_Some)

lemma id_of_snoc: "id_of (t @ [(n, x)]) y =
    (case id_of t y of Some i \<Rightarrow> Some i | None \<Rightarrow> if x = y then Some n else None)"
  by (induction t) (auto simp: id_of_def)

lemma rows_ok_snoc: "rows_ok n t \<Longrightarrow> id_of t x = None \<Longrightarrow> rows_ok (Suc n) (t @ [(n, x)])"
  by (auto simp: rows_ok_def id_of_None image_iff less_Suc_eq)

lemma rows_ok_Suc: "rows_ok n t \<Longrightarrow> rows_ok (Suc n) t"
  by (auto simp: rows_ok_def less_Suc_eq)

lemma map_of_fresh: "fst ` set m \<subseteq> A \<times> B \<Longrightarrow> a \<notin> A \<or> b \<notin> B \<Longrightarrow> map_of m (a, b) = None"
  by (auto simp: map_of_eq_None_iff)

definition add_keyword :: "string \<Rightarrow> pgs \<Rightarrow> pgs" where
  "add_keyword k p = p\<lparr>committed := (committed p)\<lparr>kw_rows := kw_rows (committed p) @ [(kw_seq p, k)]\<rparr>, kw_seq := Suc (kw_seq p)\<rparr>"

definition add_url :: "string \<Rightarrow> pgs \<Rightarrow> pgs" where
  "add_url u p = p\<lparr>committed := (committed p)\<lparr>url_rows := url_rows (committed p) @ [(url_seq p, u)]\<rparr>, url_seq := Suc (url_seq p)\<rparr>"

definition add_pair :: "nat \<Rightarrow> nat \<Rightarrow> int \<Rightarrow> pgs \<Rightarrow> pgs" where
  "add_pair kid uid q p = p\<lparr>committed := (committed p)\<lparr>pair_rows := pair_rows (committed p) @ [((kid, uid), q)]\<rparr>\<rparr>"

lemma add_keyword_ok:
  assumes "server_ok p" "id_of (kw_rows (committed p)) k = None"
  shows "server_ok (add_keyword k p)" "quantity (committed (add_keyword k p)) = quantity (committed p)"
proof -
  have seq: "kw_seq p \<notin> fst ` set (kw_rows (committed p))"
    using assms(1) by (auto simp: server_ok_def rows_ok_def Let_def)
  have fk: "fst ` set (pair_rows (committed p)) \<subseteq> (fst ` set (kw_rows (committed p))) \<times> (fst ` set (url_rows (committed p)))"
    using assms(1) by (simp add: server_ok_def Let_def)
  show "server_ok (add_keyword k p)"
    using assms rows_ok_snoc [of "kw_seq p" "kw_rows (committed p)" k] fk
    by (auto simp: server_ok_def add_keyword_def Let_def)
  show "quantity (committed (add_keyword k p)) = quantity (committed p)"
    using map_of_fresh [OF fk, of "kw_seq p"] seq assms(2)
    by (auto simp: fun_eq_iff quantity_def add_keyword_def id_of_snoc split: option.splits)
qed

lemma add_url_ok:
  assumes "server_ok p" "id_of (url_rows (committed p)) u = None"
  shows "server_ok (add_url u p)" "quantity (committed (add_url u p)) = quantity (committed p)"
proof -
  have seq: "url_seq p \<notin> fst ` set (url_rows (committed p))"
    using assms(1) by (auto simp: server_ok_def rows_ok_def Let_def)
  have fk: "fst ` set (pair_rows (committed p)) \<subseteq> (fst ` set (kw_rows (committed p))) \<times> (fst ` set (url_rows (committed p)))"
    using assms(1) by (simp add: server_ok_def Let_def)
  show "server_ok (add_url u p)"
    using assms rows_ok_snoc [of "url_seq p" "url_rows (committed p)" u] fk
    by (auto simp: server_ok_def add_url_def Let_def)
  show "quantity (committed (add_url u p)) = quantity (committed p)"
    using map_of_fresh [OF fk, of _ "url_seq p"] seq assms(2)
    by (auto simp: fun_eq_iff quantity_def add_url_def id_of_snoc split: option.splits)
qed

lemma add_pair_ok:
  assumes "server_ok p" "id_of (kw_rows (committed p)) k = Some kid" "id_of (url_rows (committed p)) u = Some uid"
    and "map_of (pair_rows (committed p)) (kid, uid) = None" and range: "0 \<le> q" "q \<le> INT_MAX"
  shows "server_ok (add_pair kid uid q p)"
    and "quantity (committed (add_pair kid uid q p)) k' u' =
      (if k' = k \<and> u' = u then Some q else quantity (committed p) k' u')"
proof -
  have rk: "rows_ok (kw_seq p) (kw_rows (committed p))" and ru: "rows_ok (url_seq p) (url_rows (committed p))"
    using assms(1) by (simp_all add: server_ok_def Let_def)
  have "kid \<in> fst ` set (kw_rows (committed p))" "uid \<in> fst ` set (url_rows (committed p))"
    using id_of_Some [OF assms(2)] id_of_Some [OF assms(3)] by force+
  moreover have "(kid, uid) \<notin> fst ` set (pair_rows (committed p))"
    using assms(4) by (simp add: map_of_eq_None_iff)
  ultimately show "server_ok (add_pair kid uid q p)"
    using assms(1) range by (auto simp: server_ok_def add_pair_def Let_def)
  let ?m = "map_of (pair_rows (committed p) @ [((kid, uid), q)])"
  have m: "?m x = (if x = (kid, uid) then Some q else map_of (pair_rows (committed p)) x)" for x
    using assms(4) by (auto simp: map_add_def split: option.split)
  have q: "quantity (committed (add_pair kid uid q p)) k' u' =
      (case (id_of (kw_rows (committed p)) k', id_of (url_rows (committed p)) u') of
         (Some a, Some b) \<Rightarrow> ?m (a, b) | _ \<Rightarrow> None)"
    by (simp add: quantity_def add_pair_def split: option.split)
  show "quantity (committed (add_pair kid uid q p)) k' u' =
      (if k' = k \<and> u' = u then Some q else quantity (committed p) k' u')"
  proof (cases "id_of (kw_rows (committed p)) k' = Some kid \<and> id_of (url_rows (committed p)) u' = Some uid")
    case True
    with id_of_inj [OF rk, of k' kid k] id_of_inj [OF ru, of u' uid u] assms(2,3) show ?thesis
      unfolding q m by simp
  next
    case False
    with assms(2,3) have "\<not> (k' = k \<and> u' = u)" by auto
    with False show ?thesis
      unfolding q m by (auto simp: quantity_def split: option.splits)
  qed
qed

text \<open>The rows of the search query.\<close>

definition row_of :: "string \<times> int \<Rightarrow> string option list" where
  "row_of uq = [Some (fst uq), Some (int_to_string (snd uq))]"

definition of_row :: "string option list \<Rightarrow> string \<times> int" where
  "of_row row = (the (row ! 0), (case int_from_string (the (row ! 1)) of Inl _ \<Rightarrow> 0 | Inr q \<Rightarrow> q))"

definition pages_of :: "tables \<Rightarrow> string \<Rightarrow> (string \<times> int) list" where
  "pages_of t k =
     (case id_of (kw_rows t) k of
        None \<Rightarrow> []
      | Some kid \<Rightarrow> [(u, q). ((kid', uid), q) \<leftarrow> pair_rows t, kid' = kid, (uid', u) \<leftarrow> url_rows t, uid' = uid])"

lemma quantity_rows_pages: "quantity_rows t k = map row_of (pages_of t k)"
  by (auto simp: quantity_rows_def pages_of_def row_of_def map_concat o_def split_beta
      intro!: arg_cong [of _ _ concat] split: option.split)

lemma pages_of_quantity:
  assumes "server_ok p"
  shows "(u, q) \<in> set (pages_of (committed p) k) \<longleftrightarrow> quantity (committed p) k u = Some q"
proof -
  have ru: "rows_ok (url_seq p) (url_rows (committed p))" and d: "distinct (map fst (pair_rows (committed p)))"
    using assms by (simp_all add: server_ok_def Let_def)
  show ?thesis
  proof (cases "id_of (kw_rows (committed p)) k")
    case (Some kid)
    have "(u, q) \<in> set (pages_of (committed p) k) \<longleftrightarrow>
        (\<exists>uid. ((kid, uid), q) \<in> set (pair_rows (committed p)) \<and> (uid, u) \<in> set (url_rows (committed p)))"
      using Some by (force simp: pages_of_def)
    also have "\<dots> \<longleftrightarrow> (\<exists>uid. map_of (pair_rows (committed p)) (kid, uid) = Some q \<and> id_of (url_rows (committed p)) u = Some uid)"
      using d id_of_iff [OF ru] by (simp add: map_of_eq_Some_iff)
    also have "\<dots> \<longleftrightarrow> quantity (committed p) k u = Some q"
      using Some by (auto simp: quantity_def split: option.splits)
    finally show ?thesis .
  qed (simp add: pages_of_def quantity_def)
qed

lemma of_row_of: "0 \<le> q \<Longrightarrow> q \<le> INT_MAX \<Longrightarrow> of_row (row_of (u, q)) = (u, q)"
  using int_from_nat_to_string [of "nat q"] by (simp add: of_row_def row_of_def int_to_string_def)

lemma row_string_int_row_of: "0 \<le> q \<Longrightarrow> q \<le> INT_MAX \<Longrightarrow> row_string_int 2 (row_of (u, q)) = Inr (u, q)"
  using int_from_nat_to_string [of "nat q"]
  by (simp add: row_string_int_def row_of_def int_to_string_def field_as_def)

lemma put_rows_row_of:
  assumes "\<forall>(u, q) \<in> set ps. 0 \<le> q \<and> q \<le> INT_MAX"
  shows "put_rows 2 (map row_of ps) m = Inr (fold (\<lambda>(u, q). map_put u q) ps m)"
  using assms by (induction ps arbitrary: m) (auto simp: row_string_int_row_of)

lemma map_get_fold_put:
  assumes "\<forall>(u, q) \<in> set ps. f u = Some q"
  shows "map_get (fold (\<lambda>(u, q). map_put u q) ps m) u = (if u \<in> fst ` set ps then f u else map_get m u)"
  using assms by (induction ps arbitrary: m) auto

lemma map_ok_fold_put: "map_ok m \<Longrightarrow> map_ok (fold (\<lambda>(u, q). map_put u q) ps m)"
  by (induction ps arbitrary: m) auto

lemma put_rows_pages:
  assumes "server_ok p" "mset rows = mset (quantity_rows (committed p) k)"
  shows "\<exists>m. put_rows 2 rows [] = Inr m \<and> map_ok m \<and> (\<forall>u. map_get m u = quantity (committed p) k u)"
proof -
  let ?ps = "pages_of (committed p) k" and ?ps' = "map of_row rows"
  have range: "0 \<le> q \<and> q \<le> INT_MAX" if "(u, q) \<in> set ?ps" for u q
  proof -
    from that have "quantity (committed p) k u = Some q" using pages_of_quantity [OF assms(1)] by blast
    then obtain x where "(x, q) \<in> set (pair_rows (committed p))"
      by (auto simp: quantity_def dest: map_of_SomeD split: option.splits)
    with assms(1) show ?thesis by (force simp: server_ok_def Let_def)
  qed
  have set_rows: "set rows = row_of ` set ?ps"
    using arg_cong [OF assms(2), of set_mset] by (simp add: quantity_rows_pages)
  have "map row_of ?ps' = rows"
    unfolding map_map by (rule map_idI) (use range of_row_of set_rows in auto)
  moreover have s: "set ?ps' = set ?ps"
  proof -
    have "set ?ps' = (\<lambda>x. of_row (row_of x)) ` set ?ps" by (simp add: set_rows image_image)
    also have "\<dots> = (\<lambda>x. x) ` set ?ps" by (rule image_cong) (use range of_row_of in auto)
    finally show ?thesis by simp
  qed
  ultimately have "put_rows 2 rows [] = Inr (fold (\<lambda>(u, q). map_put u q) ?ps' [])"
    using put_rows_row_of [of ?ps' "[]"] range by fastforce
  moreover have "map_get (fold (\<lambda>(u, q). map_put u q) ?ps' []) u = quantity (committed p) k u" for u
  proof -
    have f: "\<forall>(u, q) \<in> set ?ps'. quantity (committed p) k u = Some q"
      unfolding s using pages_of_quantity [OF assms(1)] by auto
    have "quantity (committed p) k u = None" if "u \<notin> fst ` set ?ps'"
      using that pages_of_quantity [OF assms(1), of u _ k] unfolding s by (metis fst_conv image_eqI not_None_eq)
    then show ?thesis unfolding map_get_fold_put [OF f] by simp
  qed
  ultimately show ?thesis using map_ok_fold_put [of "[]" ?ps'] by auto
qed

section \<open>The scope while it is used\<close>

definition active_scope :: "'s \<Rightarrow> nat \<Rightarrow> string list \<Rightarrow> 's scope" where
  "active_scope s c ns =
     \<lparr>srv = s, cn = \<lparr>m_conn = c, m_trans = Some (1, ''transaction'', []), notices = ns\<rparr>,
      tx = \<lparr>m_name = [], m_status = Active, m_registered = True, m_pending_error = [], m_focus = None\<rparr>\<rparr>"

definition committed_scope :: "'s \<Rightarrow> nat \<Rightarrow> string list \<Rightarrow> 's scope" where
  "committed_scope s c ns =
     \<lparr>srv = s, cn = \<lparr>m_conn = c, m_trans = None, notices = ns\<rparr>,
      tx = \<lparr>m_name = [], m_status = Committed, m_registered = False, m_pending_error = [], m_focus = None\<rparr>\<rparr>"

definition aborted_scope :: "'s \<Rightarrow> nat \<Rightarrow> string list \<Rightarrow> 's scope" where
  "aborted_scope s c ns = (active_scope s c ns)\<lparr>tx := (tx (active_scope s c ns))\<lparr>m_status := Aborted\<rparr>\<rparr>"

lemmas scope_defs = active_scope_def committed_scope_def aborted_scope_def

lemmas tx_defs = tx_exec_def tx_exec_params_def tx_commit_def do_commit_def direct_exec_def check_pending_error_def
  with_command_def register_focus_def unregister_focus_def command_guest_def set_status_def is_open_def
  tx_close_def close_inactive_def tx_abort_def do_abort_def conn_unregister_transaction_def
  conn_register_transaction_def trans_guest_def tx_begin_def tx_base_destroy_def conn_close_def
  check_unique_register_def check_unique_unregister_def

lemma bindA_apply: "bindA m f w = (case m w of (Inl e, w') \<Rightarrow> (Inl e, w') | (Inr x, w') \<Rightarrow> f x w')"
  by (simp add: bindA_def)

lemma catchA_apply: "catchA m h w = (case m w of (Inl e, w') \<Rightarrow> h e w' | (Inr x, w') \<Rightarrow> (Inr x, w'))"
  by (simp add: catchA_def)

lemma finallyA_apply': "finallyA m d w = (case m w of (r, w') \<Rightarrow> (r, d w'))"
  by (simp add: finallyA_def)

lemmas act_apply = bindA_apply catchA_apply finallyA_apply' retA_apply throwA_apply liftR_apply

section \<open>Against a server that keeps its contract\<close>

definition is_error :: "pgresult \<Rightarrow> bool" where
  "is_error r \<longleftrightarrow> res_status r = PGRES_FATAL_ERROR"

lemma data_stmt_result: "data_stmt st ks us t = Inr (t', r) \<Longrightarrow> r = ok_result \<or> (\<exists>n rs. r = rows_result n rs)"
  by (cases st) (auto simp: data_stmt_def bool_row_def split: if_splits option.splits)

lemma run_stmt_result:
  "fst (run_stmt c st p) = ok_result \<or> (\<exists>n rs. fst (run_stmt c st p) = rows_result n rs) \<or>
   (\<exists>code. fst (run_stmt c st p) = error_result code)"
proof (cases "data_stmt st (kw_seq p) (url_seq p) (view_of c p)")
  case (Inl code)
  then show ?thesis
    by (auto simp: run_stmt_def Let_def view_of_def split: option.splits session.splits)
next
  case (Inr tr)
  obtain t r where "tr = (t, r)" by (cases tr)
  with Inr data_stmt_result [of st "kw_seq p" "url_seq p" "view_of c p" t r] show ?thesis
    by (auto simp: run_stmt_def Let_def view_of_def split: option.splits session.splits)
qed

section \<open>Failure schedules\<close>

text \<open>The next statement does not meet a failure of the server; it uses up one entry of the schedule.\<close>

definition no_fault :: "pgs \<Rightarrow> bool" where
  "no_fault p \<longleftrightarrow> faults p = [] \<or> \<not> hd (faults p)"

definition skip_fault :: "pgs \<Rightarrow> pgs" where
  "skip_fault p = p\<lparr>faults := tl (faults p)\<rparr>"

text \<open>The next \<open>n\<close> statements meet no failure.\<close>

definition quiet :: "nat \<Rightarrow> pgs \<Rightarrow> bool" where
  "quiet n p \<longleftrightarrow> True \<notin> set (take n (faults p))"

definition skip :: "nat \<Rightarrow> pgs \<Rightarrow> pgs" where
  "skip n p = p\<lparr>faults := drop n (faults p)\<rparr>"

text \<open>No statement fails any more.\<close>

definition calm :: "pgs \<Rightarrow> bool" where
  "calm p \<longleftrightarrow> True \<notin> set (faults p)"

text \<open>What a keyword's step keeps and adds.\<close>

definition word_step :: "pgs \<Rightarrow> pgs \<Rightarrow> string \<Rightarrow> string \<Rightarrow> int \<Rightarrow> bool" where
  "word_step p p' key link q \<longleftrightarrow> server_ok p' \<and> calm p' \<and> sessions p' = sessions p \<and>
     url_rows (committed p') = url_rows (committed p) \<and> kw_seq p' \<le> Suc (kw_seq p) \<and>
     (\<forall>k u. quantity (committed p') k u = (if k = key \<and> u = link then Some q else quantity (committed p) k u))"

text \<open>Words the statements can carry, and counts the column can hold.\<close>

definition words_ok :: "(string, 32 word) cmap \<Rightarrow> bool" where
  "words_ok words \<longleftrightarrow> distinct (map fst words) \<and> list_all (\<lambda>(k, n). safe_literal k \<and> int (unat n) \<le> INT_MAX) words"

text \<open>The sequences can still number a url and \<open>n\<close> keywords.\<close>

definition seq_room :: "nat \<Rightarrow> pgs \<Rightarrow> bool" where
  "seq_room n p \<longleftrightarrow> int (url_seq p) \<le> INT_MAX \<and> int (kw_seq p + n) \<le> INT_MAX + 1"

text \<open>The effect of the constructor on the tables.\<close>

definition with_tables :: "tables \<Rightarrow> tables" where
  "with_tables t = t\<lparr>has_keywords := True, has_urls := True, has_pairs := True\<rparr>"

text \<open>The notice a second commit gives.\<close>

definition twice_notice :: string where
  "twice_notice = ''transaction committed more than once.'' @ [newline]"

lemma calm_facts:
  assumes "calm p"
  shows "no_fault p" "quiet n p" "calm (skip_fault p)" "calm (skip n p)"
  using assms by (cases "faults p"; auto simp: calm_def no_fault_def quiet_def skip_fault_def skip_def
      dest: in_set_takeD in_set_dropD)+

locale pg_server =
  fixes L :: "'s libpq" and sem :: "'s \<Rightarrow> pgs" and cs :: string
  assumes serves: "serves L sem cs"
begin

lemma open_facts:
  assumes "sessions (sem s) c \<noteq> None"
  shows "PQstatus_ok L c s" "PQprotocolVersion L c s \<ge> 3" "PQserverVersion L c s > 90000"
    "PQclientEncoding L c s \<noteq> -1" "pg_encoding_to_char L (PQclientEncoding L c s) = ''UTF8''"
    "\<exists>s'. PQconsumeInput L c s = (True, s') \<and> sem s' = sem s"
    "sem (PQnotifies L c s) = sem s"
    "text_ok t \<Longrightarrow> PQescapeStringConn L c t s = Some (escape t)"
    "sem (PQfinish L c s) = (sem s)\<lparr>sessions := (sessions (sem s))(c := None)\<rparr>"
    "plain_text st t \<Longrightarrow> covered c st (sem s) \<Longrightarrow> \<exists>r s'. PQexec L c t s = (Some r, s') \<and>
       same_result r (fst (run_stmt c st (sem s))) \<and> sem s' = snd (run_stmt c st (sem s))"
    "param_text st t args \<Longrightarrow> covered c st (sem s) \<Longrightarrow> \<exists>r s'. PQexecParams L c t args s = (Some r, s') \<and>
       same_result r (fst (run_stmt c st (sem s))) \<and> sem s' = snd (run_stmt c st (sem s))"
  using serves assms unfolding serves_def by blast+

lemma make_result_serves:
  assumes "sessions (sem (srv w)) (m_conn (cn w)) \<noteq> None" "same_result r (fst (run_stmt c st p))"
  shows "make_result L (Some r) [] w =
    (if is_error r then Inl (throw_sql_error (res_sqlstate r) (res_message r)) else Inr r, w)"
proof -
  have "enc_group ''UTF8'' = Inr UTF8" by (simp add: enc_group_def enc_group_names_def)
  moreover have "check_status [] r =
      (if is_error r then Inl (throw_sql_error (res_sqlstate r) (res_message r)) else Inr r)"
    using assms(2) run_stmt_result [of c st p]
    by (elim disjE exE) (simp_all add: check_status_def status_error_def is_error_def same_result_def
        ok_result_def rows_result_def error_result_def)
  ultimately show ?thesis
    using open_facts(4,5) [OF assms(1)]
    by (simp add: make_result_def encoding_id_def act_apply Let_def)
qed

lemma get_notifs_serves:
  assumes "sessions (sem (srv w)) (m_conn (cn w)) \<noteq> None"
  shows "\<exists>s'. get_notifs L w = (Inr (), w\<lparr>srv := s'\<rparr>) \<and> sem s' = sem (srv w)"
proof -
  from open_facts(6) [OF assms] obtain s' where
    "PQconsumeInput L (m_conn (cn w)) (srv w) = (True, s')" "sem s' = sem (srv w)" by blast
  moreover have "sem (PQnotifies L (m_conn (cn w)) s') = sem s'"
    using open_facts(7) [of s' "m_conn (cn w)"] assms \<open>sem s' = _\<close> by simp
  ultimately show ?thesis by (auto simp: get_notifs_def act_apply)
qed

text \<open>What \<open>connection::exec\<close> and \<open>exec_params\<close> return for a statement with result \<open>r\<close>.\<close>

definition outcome :: "pgresult \<Rightarrow> pgresult res \<Rightarrow> bool" where
  "outcome r x \<longleftrightarrow> (if is_error r then \<exists>m. x = Inl (throw_sql_error (res_sqlstate r) m)
     else \<exists>r'. x = Inr r' \<and> same_result r' r)"

lemma conn_exec_serves:
  assumes "covered (m_conn (cn w)) st (sem (srv w))" "plain_text st t"
  shows "\<exists>x s'. conn_exec L t [] w = (x, w\<lparr>srv := s'\<rparr>) \<and>
    outcome (fst (run_stmt (m_conn (cn w)) st (sem (srv w)))) x \<and>
    sem s' = snd (run_stmt (m_conn (cn w)) st (sem (srv w)))"
proof -
  let ?c = "m_conn (cn w)" and ?p = "sem (srv w)"
  have op: "sessions (sem (srv w)) ?c \<noteq> None" using assms(1) by (simp add: covered_def)
  from open_facts(10) [OF op assms(2,1)] obtain r s1 where e: "PQexec L ?c t (srv w) = (Some r, s1)"
    "same_result r (fst (run_stmt ?c st ?p))" "sem s1 = snd (run_stmt ?c st ?p)" by blast
  let ?w1 = "w\<lparr>srv := s1\<rparr>"
  have o1: "sessions (sem (srv ?w1)) (m_conn (cn ?w1)) \<noteq> None"
    using run_stmt_open [OF op] e(3) by simp
  note m = make_result_serves [OF o1 e(2)]
  from get_notifs_serves [OF o1] obtain s2 where g: "get_notifs L ?w1 = (Inr (), ?w1\<lparr>srv := s2\<rparr>)" "sem s2 = sem s1"
    by auto
  have s: "res_status r = res_status (fst (run_stmt ?c st ?p))" "res_sqlstate r = res_sqlstate (fst (run_stmt ?c st ?p))"
    using e(2) by (auto simp: same_result_def)
  show ?thesis
    using e m g s by (auto simp: conn_exec_def act_apply outcome_def is_error_def)
qed

lemma conn_exec_params_serves:
  assumes "covered (m_conn (cn w)) st (sem (srv w))" "param_text st t args"
  shows "\<exists>x s'. conn_exec_params L t args w = (x, w\<lparr>srv := s'\<rparr>) \<and>
    outcome (fst (run_stmt (m_conn (cn w)) st (sem (srv w)))) x \<and>
    sem s' = snd (run_stmt (m_conn (cn w)) st (sem (srv w)))"
proof -
  let ?c = "m_conn (cn w)" and ?p = "sem (srv w)"
  have op: "sessions (sem (srv w)) ?c \<noteq> None" using assms(1) by (simp add: covered_def)
  from open_facts(11) [OF op assms(2,1)] obtain r s1 where e: "PQexecParams L ?c t args (srv w) = (Some r, s1)"
    "same_result r (fst (run_stmt ?c st ?p))" "sem s1 = snd (run_stmt ?c st ?p)" by blast
  let ?w1 = "w\<lparr>srv := s1\<rparr>"
  have o1: "sessions (sem (srv ?w1)) (m_conn (cn ?w1)) \<noteq> None"
    using run_stmt_open [OF op] e(3) by simp
  note m = make_result_serves [OF o1 e(2)]
  from get_notifs_serves [OF o1] obtain s2 where g: "get_notifs L ?w1 = (Inr (), ?w1\<lparr>srv := s2\<rparr>)" "sem s2 = sem s1"
    by auto
  have s: "res_status r = res_status (fst (run_stmt ?c st ?p))" "res_sqlstate r = res_sqlstate (fst (run_stmt ?c st ?p))"
    using e(2) by (auto simp: same_result_def)
  show ?thesis
    using e m g s by (auto simp: conn_exec_params_def act_apply outcome_def is_error_def)
qed

lemma tx_exec_active:
  assumes "covered c st (sem s)" "plain_text st t"
  shows "\<exists>x s'. tx_exec L t (active_scope s c ns) = (x, active_scope s' c ns) \<and>
    outcome (fst (run_stmt c st (sem s))) x \<and> sem s' = snd (run_stmt c st (sem s))"
proof -
  let ?w = "active_scope s c ns"
  let ?w' = "?w\<lparr>tx := (tx ?w)\<lparr>m_focus := Some (command_guest [])\<rparr>\<rparr>"
  from conn_exec_serves [of ?w' st t] assms obtain x s' where
    "conn_exec L t [] ?w' = (x, ?w'\<lparr>srv := s'\<rparr>)" "outcome (fst (run_stmt c st (sem s))) x"
    "sem s' = snd (run_stmt c st (sem s))" by (auto simp: scope_defs)
  then show ?thesis by (cases x) (auto simp: tx_defs act_apply scope_defs)
qed

lemma tx_params_serves:
  assumes "covered (m_conn (cn w)) st (sem (srv w))" "param_text st t args" "m_focus (tx w) = None"
  shows "\<exists>x s'. tx_exec_params L t args w = (x, w\<lparr>srv := s'\<rparr>) \<and>
    outcome (fst (run_stmt (m_conn (cn w)) st (sem (srv w)))) x \<and>
    sem s' = snd (run_stmt (m_conn (cn w)) st (sem (srv w)))"
proof -
  let ?w' = "w\<lparr>tx := (tx w)\<lparr>m_focus := Some (command_guest t)\<rparr>\<rparr>"
  from conn_exec_params_serves [of ?w' st t args] assms obtain x s' where
    "conn_exec_params L t args ?w' = (x, ?w'\<lparr>srv := s'\<rparr>)" "outcome (fst (run_stmt (m_conn (cn w)) st (sem (srv w)))) x"
    "sem s' = snd (run_stmt (m_conn (cn w)) st (sem (srv w)))" by auto
  moreover have "tx w = (tx w)\<lparr>m_focus := None\<rparr>" using assms(3) by (cases "tx w") simp
  ultimately show ?thesis using assms(3)
    by (cases x; cases w) (auto simp: tx_defs act_apply)
qed

lemma commit_error: "is_error (fst (run_stmt c Commit p)) \<Longrightarrow> fst (run_stmt c Commit p) = error_result ''57014''"
  by (auto simp: run_stmt_def Let_def is_error_def ok_result_def split: option.splits session.splits if_splits)

lemma direct_exec_active:
  assumes "covered c st (sem s)" "plain_text st t"
  shows "\<exists>x s'. direct_exec L t (active_scope s c ns) = (x, active_scope s' c ns) \<and>
    outcome (fst (run_stmt c st (sem s))) x \<and> sem s' = snd (run_stmt c st (sem s))"
  using conn_exec_serves [of "active_scope s c ns" st t] assms
  by (auto simp: direct_exec_def check_pending_error_def act_apply scope_defs)

lemma tx_commit_active:
  assumes "sessions (sem s) c \<noteq> None" "alone c (sem s)"
  shows "\<exists>s'. sem s' = snd (run_stmt c Commit (sem s)) \<and>
    (if is_error (fst (run_stmt c Commit (sem s)))
     then \<exists>m. tx_commit L (active_scope s c ns) = (Inl (Pqxx_sql_error ''sql_error'' m), aborted_scope s' c ns)
     else tx_commit L (active_scope s c ns) = (Inr (), committed_scope s' c ns))"
proof -
  have cov: "covered c Commit (sem s)" using assms by (simp add: covered_def)
  from direct_exec_active [OF cov, of "''COMMIT''" ns] obtain x s' where
    d: "direct_exec L ''COMMIT'' (active_scope s c ns) = (x, active_scope s' c ns)"
      "outcome (fst (run_stmt c Commit (sem s))) x" and s': "sem s' = snd (run_stmt c Commit (sem s))"
    by (auto intro: plain_text.intros)
  have o: "PQstatus_ok L c s" "PQstatus_ok L c s'"
    using open_facts(1) [OF assms(1)] open_facts(1) [of s' c] run_stmt_open [OF assms(1)] s' by simp_all
  show ?thesis
  proof (cases "is_error (fst (run_stmt c Commit (sem s)))")
    case True
    with d(2) commit_error [OF True] obtain m where "x = Inl (Pqxx_sql_error ''sql_error'' m)"
      by (auto simp: outcome_def error_result_def throw_sql_error_def Let_def)
    with d(1) o True s' show ?thesis
      by (intro exI [of _ s']) (simp add: tx_commit_def do_commit_def check_pending_error_def act_apply is_open_def
          scope_defs set_status_def)
  next
    case False
    with d(2) obtain r where "x = Inr r" by (auto simp: outcome_def)
    with d(1) o False s' show ?thesis
      by (intro exI [of _ s']) (simp add: tx_commit_def do_commit_def check_pending_error_def act_apply is_open_def
          scope_defs set_status_def tx_close_def close_inactive_def conn_unregister_transaction_def
          check_unique_unregister_def trans_guest_def Let_def)
  qed
qed

lemma tx_commit_committed:
  "tx_commit L (committed_scope s c ns) = (Inr (), committed_scope s c (ns @ [twice_notice]))"
  by (simp add: tx_commit_def check_pending_error_def act_apply scope_defs process_notice_def tx_description_def
      describe_object_def twice_notice_def)

text \<open>Leaving a scope.\<close>

definition finish :: "'s scope \<Rightarrow> 's" where
  "finish w = conn_close L (tx_base_destroy (tx_close L w))"

lemma finish_committed:
  assumes "sessions (sem s) c \<noteq> None"
  shows "sem (finish (committed_scope s c ns)) = (sem s)\<lparr>sessions := (sessions (sem s))(c := None)\<rparr>"
  using open_facts(9) [OF assms]
  by (simp add: finish_def tx_defs act_apply scope_defs Let_def)

lemma finish_aborted:
  assumes "sessions (sem s) c \<noteq> None"
  shows "sem (finish (aborted_scope s c ns)) = (sem s)\<lparr>sessions := (sessions (sem s))(c := None)\<rparr>"
  using open_facts(9) [OF assms]
  by (simp add: finish_def tx_defs act_apply scope_defs Let_def)

lemma run_rollback: "run_stmt c Rollback p =
    (ok_result, p\<lparr>faults := tl (faults p), sessions := (sessions p)(c \<mapsto> Idle)\<rparr>)"
  by (simp add: run_stmt_def Let_def)

lemma finish_active:
  assumes "sessions (sem s) c \<noteq> None" "alone c (sem s)"
  shows "sem (finish (active_scope s c ns)) =
    (sem s)\<lparr>faults := tl (faults (sem s)), sessions := (sessions (sem s))(c := None)\<rparr>"
proof -
  let ?w = "(active_scope s c ns)\<lparr>cn := (cn (active_scope s c ns))\<lparr>m_trans := None\<rparr>,
    tx := (tx (active_scope s c ns))\<lparr>m_registered := False\<rparr>\<rparr>"
  have w: "covered (m_conn (cn ?w)) Rollback (sem (srv ?w))" using assms by (simp add: scope_defs covered_def)
  from conn_exec_serves [OF w, of "''ROLLBACK''"] obtain x s' where
    c: "conn_exec L ''ROLLBACK'' [] ?w = (x, ?w\<lparr>srv := s'\<rparr>)" and o: "outcome ok_result x"
    and s': "sem s' = (sem s)\<lparr>faults := tl (faults (sem s)), sessions := (sessions (sem s))(c \<mapsto> Idle)\<rparr>"
    by (auto simp: run_rollback scope_defs intro: plain_text.intros)
  from o obtain r where x: "x = Inr r" by (auto simp: outcome_def is_error_def ok_result_def)
  have "sessions (sem s') c \<noteq> None" using s' by simp
  from open_facts(9) [OF this] s' have f: "sem (PQfinish L c s') =
      (sem s)\<lparr>faults := tl (faults (sem s)), sessions := (sessions (sem s))(c := None)\<rparr>" by simp
  have "close_inactive (active_scope s c ns) = ?w"
    by (simp add: close_inactive_def check_pending_error_def act_apply scope_defs conn_unregister_transaction_def
        check_unique_unregister_def trans_guest_def Let_def)
  moreover have "finish (active_scope s c ns) = PQfinish L c s'" if "close_inactive (active_scope s c ns) = ?w"
    using c x unfolding finish_def tx_close_def that
    by (simp add: tx_abort_def do_abort_def direct_exec_def check_pending_error_def act_apply scope_defs
        close_inactive_def set_status_def tx_base_destroy_def conn_close_def Let_def)
  ultimately show ?thesis using f by simp
qed

text \<open>Entering a scope.\<close>

lemma with_work_begin:
  assumes "no_fault (sem s)" "no_tx (sessions (sem s))"
  shows "\<exists>c s1. sessions (sem s) c = None \<and>
    sem s1 = (skip_fault (sem s))\<lparr>sessions := (sessions (sem s))(c \<mapsto> InTx (committed (sem s)))\<rparr> \<and>
    with_work L cs body s = (case body (active_scope s1 c []) of (r, w) \<Rightarrow> (r, finish w))"
proof -
  from serves obtain c s0 where c: "PQconnectdb L cs s = (Some c, s0)" "sessions (sem s) c = None"
    "sem s0 = (sem s)\<lparr>sessions := (sessions (sem s))(c \<mapsto> Idle)\<rparr>" unfolding serves_def by metis
  then have o: "sessions (sem s0) c \<noteq> None" by simp
  have cov: "covered c Begin (sem s0)" using o alone_upd [OF assms(2), of "sem s0"] c(3) by (simp add: covered_def)
  have init: "conn_init L cs s = (Inr \<lparr>m_conn = c, m_trans = None, notices = []\<rparr>, s0)"
    using open_facts(1-3) [OF o] c(1) by (simp add: conn_init_def set_up_state_def act_apply)
  from direct_exec_active [OF cov, of "''BEGIN''" "[]"] obtain x s1 where
    d: "direct_exec L ''BEGIN'' (active_scope s0 c []) = (x, active_scope s1 c [])"
       "outcome (fst (run_stmt c Begin (sem s0))) x" and s1: "sem s1 = snd (run_stmt c Begin (sem s0))"
    by (auto intro: plain_text.intros)
  have r: "run_stmt c Begin (sem s0) =
      (ok_result, (skip_fault (sem s))\<lparr>sessions := (sessions (sem s))(c \<mapsto> InTx (committed (sem s)))\<rparr>)"
    using assms(1) c(3) by (auto simp: run_stmt_def Let_def no_fault_def skip_fault_def)
  with d(2) obtain y where x: "x = Inr y" by (auto simp: outcome_def is_error_def ok_result_def)
  have "tx_begin L \<lparr>srv = s0, cn = \<lparr>m_conn = c, m_trans = None, notices = []\<rparr>, tx = new_transaction\<rparr> =
      (Inr (), active_scope s1 c [])"
    using d(1) x by (simp add: tx_begin_def conn_register_transaction_def check_unique_register_def act_apply
        trans_guest_def new_transaction_def scope_defs)
  with init c(2) s1 r show ?thesis
    by (intro exI [of _ c] exI [of _ s1]) (simp add: with_work_def finish_def)
qed

lemma with_work_fault:
  assumes "\<not> no_fault (sem s)" "no_tx (sessions (sem s))"
  shows "\<exists>m s'. with_work L cs body s = (Inl (Pqxx_sql_error ''sql_error'' m), s') \<and> sem s' = skip_fault (sem s)"
proof -
  from serves obtain c s0 where c: "PQconnectdb L cs s = (Some c, s0)" "sessions (sem s) c = None"
    "sem s0 = (sem s)\<lparr>sessions := (sessions (sem s))(c \<mapsto> Idle)\<rparr>" unfolding serves_def by metis
  then have o: "sessions (sem s0) c \<noteq> None" by simp
  have cov: "covered c Begin (sem s0)" using o alone_upd [OF assms(2), of "sem s0"] c(3) by (simp add: covered_def)
  have init: "conn_init L cs s = (Inr \<lparr>m_conn = c, m_trans = None, notices = []\<rparr>, s0)"
    using open_facts(1-3) [OF o] c(1) by (simp add: conn_init_def set_up_state_def act_apply)
  from direct_exec_active [OF cov, of "''BEGIN''" "[]"] obtain x s1 where
    d: "direct_exec L ''BEGIN'' (active_scope s0 c []) = (x, active_scope s1 c [])"
       "outcome (fst (run_stmt c Begin (sem s0))) x" and s1: "sem s1 = snd (run_stmt c Begin (sem s0))"
    by (auto intro: plain_text.intros)
  have r: "run_stmt c Begin (sem s0) = (error_result ''57014'', skip_fault (sem s0))"
    using assms(1) c(3) by (auto simp: run_stmt_def Let_def no_fault_def skip_fault_def fail_session_def)
  with d(2) obtain m where x: "x = Inl (Pqxx_sql_error ''sql_error'' m)"
    by (auto simp: outcome_def is_error_def error_result_def throw_sql_error_def Let_def)
  have b: "tx_begin L \<lparr>srv = s0, cn = \<lparr>m_conn = c, m_trans = None, notices = []\<rparr>, tx = new_transaction\<rparr> =
      (Inl (Pqxx_sql_error ''sql_error'' m), active_scope s1 c [])"
    using d(1) x by (simp add: tx_begin_def conn_register_transaction_def check_unique_register_def act_apply
        trans_guest_def new_transaction_def scope_defs)
  have "conn_close L (tx_base_destroy (active_scope s1 c [])) = PQfinish L c s1"
    by (simp add: tx_base_destroy_def conn_unregister_transaction_def check_unique_unregister_def
        trans_guest_def process_notice_def tx_description_def describe_object_def conn_close_def scope_defs Let_def)
  moreover have "sem (PQfinish L c s1) = skip_fault (sem s)"
    using open_facts(9) [of s1 c] s1 r c(2,3) by (auto simp: skip_fault_def fun_upd_idem)
  ultimately show ?thesis
    using init b by (intro exI [of _ m] exI [of _ "PQfinish L c s1"]) (simp add: with_work_def)
qed

text \<open>A scope that asks one boolean question leaves nothing behind.\<close>

lemma query_bool:
  assumes "quiet 2 (sem s)" "plain_text st t"
    and "\<And>ks us. data_stmt st ks us (committed (sem s)) = Inr (committed (sem s), bool_row b)"
    and "st \<notin> {Begin, Commit, Rollback}" "\<forall>u. st \<noteq> InsertUrl u" "\<forall>k. st \<noteq> InsertKeyword k"
    and "no_tx (sessions (sem s))"
  shows "\<exists>s'. with_work L cs (query_value L ''bool'' bool_from_string t) s = (Inr b, s') \<and>
    sem s' = skip 3 (sem s)"
proof -
  let ?p = "sem s"
  have f: "no_fault ?p" "faults ?p = [] \<or> tl (faults ?p) = [] \<or> \<not> hd (tl (faults ?p))"
    using assms(1) by (cases "faults ?p"; cases "tl (faults ?p)"; auto simp: quiet_def no_fault_def numeral_2_eq_2)+
  from with_work_begin [OF f(1) assms(7), of "query_value L ''bool'' bool_from_string t"] obtain c s1 where
    c: "sessions ?p c = None" and s1: "sem s1 = (skip_fault ?p)\<lparr>sessions := (sessions ?p)(c \<mapsto> InTx (committed ?p))\<rparr>"
    and w: "with_work L cs (query_value L ''bool'' bool_from_string t) s =
      (case query_value L ''bool'' bool_from_string t (active_scope s1 c []) of (r, w) \<Rightarrow> (r, finish w))" by blast
  have o: "covered c st (sem s1)"
    using s1 alone_upd [OF assms(7), of "sem s1"] assms(5,6) by (simp add: covered_def split: stmt.split)
  have r: "run_stmt c st (sem s1) = (bool_row b, skip_fault (sem s1))"
    using f assms(3-6) s1
    by (cases st) (auto simp: run_stmt_def Let_def skip_fault_def view_of_def store_def)
  from tx_exec_active [OF o assms(2), of "[]"] obtain x s2 where
    e: "tx_exec L t (active_scope s1 c []) = (x, active_scope s2 c [])" and
    oc: "outcome (bool_row b) x" and s2: "sem s2 = skip_fault (sem s1)"
    unfolding r by auto
  from oc obtain y where x: "x = Inr y" and y: "same_result y (bool_row b)"
    by (auto simp: outcome_def is_error_def bool_row_def rows_result_def)
  from y have rows: "res_rows y = [[Some (if b then ''t'' else ''f'')]]" "res_columns y = 1"
    by (auto simp: same_result_def bool_row_def rows_result_def)
  have q: "query_value L ''bool'' bool_from_string t (active_scope s1 c []) = (Inr b, active_scope s2 c [])"
    using e x rows by (simp add: query_value_def tx_exec1_def act_apply field_as_def bool_from_string_def)
  have o2: "sessions (sem s2) c \<noteq> None" "alone c (sem s2)"
    using s1 s2 alone_upd [OF assms(7), of "sem s2"] by (simp_all add: skip_fault_def)
  have "sem (finish (active_scope s2 c [])) = skip 3 ?p"
    using finish_active [OF o2] s1 s2 c
    by (simp add: skip_fault_def skip_def fun_upd_idem drop_Suc numeral_3_eq_3)
  with w q show ?thesis by simp
qed

lemma findUrl_serves:
  assumes "connectionString db = cs" "quiet 2 (sem s)" "safe_literal u" "has_urls (committed (sem s))"
    and "no_tx (sessions (sem s))"
  shows "\<exists>s'. findUrl L db u s = (Inr (id_of (url_rows (committed (sem s))) u \<noteq> None), s') \<and> sem s' = skip 3 (sem s)"
  unfolding findUrl_def assms(1)
  by (rule query_bool [OF assms(2) plain_text.intros(7) [OF assms(3)]]) (simp_all add: data_stmt_def assms(4,5))

lemma findKeyword_serves:
  assumes "connectionString db = cs" "quiet 2 (sem s)" "safe_literal k" "has_keywords (committed (sem s))"
    and "no_tx (sessions (sem s))"
  shows "\<exists>s'. findKeyword L db k s = (Inr (id_of (kw_rows (committed (sem s))) k \<noteq> None), s') \<and> sem s' = skip 3 (sem s)"
  unfolding findKeyword_def assms(1)
  by (rule query_bool [OF assms(2) plain_text.intros(8) [OF assms(3)]]) (simp_all add: data_stmt_def assms(4,5))

text \<open>Statements in autocommit mode.\<close>

lemma run_insert_keyword:
  assumes "no_fault p" "sessions p c = Some Idle" "has_keywords (committed p)" "id_of (kw_rows (committed p)) k = None"
    and "int (kw_seq p) \<le> INT_MAX"
  shows "run_stmt c (InsertKeyword k) p = (ok_result, skip_fault (add_keyword k p))"
  using assms by (auto simp: run_stmt_def Let_def no_fault_def skip_fault_def view_of_def store_def data_stmt_def add_keyword_def)

lemma run_insert_pair:
  assumes "no_fault p" "sessions p c = Some Idle" "has_pairs (committed p)" "q \<le> INT_MAX"
    and "id_of (kw_rows (committed p)) k = Some kid" "id_of (url_rows (committed p)) u = Some uid"
    and "map_of (pair_rows (committed p)) (kid, uid) = None"
  shows "run_stmt c (InsertPair k u q) p = (ok_result, skip_fault (add_pair kid uid q p))"
  using assms by (auto simp: run_stmt_def Let_def no_fault_def skip_fault_def view_of_def store_def data_stmt_def add_pair_def)

lemma exec_params_ok:
  assumes "param_text st t args" "run_stmt c st (sem s) = (ok_result, p')" "covered c st (sem s)"
  shows "\<exists>s' r. tx_exec_params L t args (committed_scope s c ns) = (Inr r, committed_scope s' c ns) \<and> sem s' = p'"
    and "\<exists>s' r. tx_exec_params L t args (active_scope s c ns) = (Inr r, active_scope s' c ns) \<and> sem s' = p'"
proof -
  have ok: "\<not> is_error ok_result" by (simp add: is_error_def ok_result_def)
  show "\<exists>s' r. tx_exec_params L t args (committed_scope s c ns) = (Inr r, committed_scope s' c ns) \<and> sem s' = p'"
    using tx_params_serves [of "committed_scope s c ns" st t args] assms ok
    by (auto simp: scope_defs outcome_def)
  show "\<exists>s' r. tx_exec_params L t args (active_scope s c ns) = (Inr r, active_scope s' c ns) \<and> sem s' = p'"
    using tx_params_serves [of "active_scope s c ns" st t args] assms ok
    by (auto simp: scope_defs outcome_def)
qed

lemma addWord_serves:
  assumes db: "connectionString db = cs" and p: "server_ok (sem s)" "calm (sem s)" "sessions (sem s) c = Some Idle"
    and key: "safe_literal key" "storable link" and room: "int (kw_seq (sem s)) \<le> INT_MAX" and link: "id_of (url_rows (committed (sem s))) link = Some uid"
    and fresh: "quantity (committed (sem s)) key link = None" and val: "int (unat val) \<le> INT_MAX"
  shows "\<exists>s' ns'. addWord L db link (key, val) (committed_scope s c ns) = (Inr (), committed_scope s' c ns') \<and>
    word_step (sem s) (sem s') key link (int (unat val))"
proof -
  let ?p = "sem s" and ?q = "int (unat val)"
  have has: "has_keywords (committed ?p)" "has_urls (committed ?p)" "has_pairs (committed ?p)"
    using p(1) by (simp_all add: server_ok_def Let_def)
  have nt: "no_tx (sessions ?p)" using p(1) by (simp add: server_ok_def Let_def)
  note st = safe_literal_storable [OF key(1)]
  from findKeyword_serves [OF db calm_facts(2) [OF p(2)] key(1) has(1) nt] obtain s1 where
    fk: "findKeyword L db key s = (Inr (id_of (kw_rows (committed ?p)) key \<noteq> None), s1)" and s1: "sem s1 = skip 3 ?p"
    by blast
  have in_sc: "in_scope (findKeyword L db key) (committed_scope s c ns) =
      (Inr (id_of (kw_rows (committed ?p)) key \<noteq> None), committed_scope s1 c ns)"
    using fk by (simp add: in_scope_def scope_defs)
  have p1: "server_ok (sem s1)" "calm (sem s1)" "sessions (sem s1) = sessions ?p" "committed (sem s1) = committed ?p"
    using p calm_facts(4) [OF p(2), of 3] by (simp_all add: s1 skip_def server_ok_def Let_def)
  obtain s2 ns2 kid where ins: "(if \<not> id_of (kw_rows (committed ?p)) key \<noteq> None
       then bindA (tx_exec_params L insert_keyword_sql [key]) (\<lambda>_. tx_commit L) else retA ()) (committed_scope s1 c ns) =
       (Inr (), committed_scope s2 c ns2)"
    and p2: "server_ok (sem s2)" "calm (sem s2)" "sessions (sem s2) = sessions ?p"
      "id_of (kw_rows (committed (sem s2))) key = Some kid" "url_rows (committed (sem s2)) = url_rows (committed ?p)"
      "quantity (committed (sem s2)) = quantity (committed ?p)" "has_pairs (committed (sem s2))" "kw_seq (sem s2) \<le> Suc (kw_seq ?p)"
  proof (cases "id_of (kw_rows (committed ?p)) key")
    case None
    have r: "run_stmt c (InsertKeyword key) (sem s1) = (ok_result, skip_fault (add_keyword key (sem s1)))"
      using run_insert_keyword [OF calm_facts(1) [OF p1(2)]] p1 p(3) has None room by (simp add: s1 skip_def)
    have cov: "covered c (InsertKeyword key) (sem s1)"
      using alone_no_tx [of "sem s1" c] nt p1 p(3) has by (simp add: covered_def)
    from exec_params_ok(1) [OF param_text.intros(2) [OF st] r cov, of ns] obtain s2 rr where
      e: "tx_exec_params L insert_keyword_sql [key] (committed_scope s1 c ns) = (Inr rr, committed_scope s2 c ns)"
      and s2: "sem s2 = skip_fault (add_keyword key (sem s1))" by auto
    from None p1 have n1: "id_of (kw_rows (committed (sem s1))) key = None" by simp
    note ak = add_keyword_ok [OF p1(1) n1]
    have "calm (add_keyword key (sem s1))" using p1(2) by (simp add: calm_def add_keyword_def)
    then have "calm (sem s2)" unfolding s2 by (rule calm_facts(3))
    show thesis
    proof (rule that)
      show "(if \<not> id_of (kw_rows (committed ?p)) key \<noteq> None
         then bindA (tx_exec_params L insert_keyword_sql [key]) (\<lambda>_. tx_commit L) else retA ()) (committed_scope s1 c ns) =
         (Inr (), committed_scope s2 c (ns @ [twice_notice]))"
        using e None by (simp add: act_apply tx_commit_committed)
      show "id_of (kw_rows (committed (sem s2))) key = Some (kw_seq (sem s1))"
        using n1 by (simp add: s2 skip_fault_def add_keyword_def id_of_snoc)
      show "quantity (committed (sem s2)) = quantity (committed ?p)"
        using ak(2) p1(4) by (simp add: s2 skip_fault_def)
      show "server_ok (sem s2)" using ak(1) by (simp add: s2 skip_fault_def server_ok_def Let_def)
      show "calm (sem s2)" by fact
    qed (use p1 has in \<open>simp_all add: s2 skip_fault_def add_keyword_def s1 skip_def\<close>)
  next
    case (Some kid)
    with p1 has show thesis
      by (intro that [of s1 ns kid]) (simp_all add: act_apply s1 skip_def)
  qed
  have nop: "map_of (pair_rows (committed (sem s2))) (kid, uid) = None"
    using fresh p2(4-6) link by (simp add: quantity_def fun_eq_iff) (metis option.simps(5) quantity_def)
  have r: "run_stmt c (InsertPair key link ?q) (sem s2) = (ok_result, skip_fault (add_pair kid uid ?q (sem s2)))"
    using run_insert_pair [OF calm_facts(1) [OF p2(2)]] p2 p(3) val link nop by simp
  have cov: "covered c (InsertPair key link ?q) (sem s2)"
    using alone_no_tx [of "sem s2" c] nt p2(3) p(3) by (simp add: covered_def)
  from exec_params_ok(1) [OF param_text.intros(3) [OF st key(2)] r cov, of ns2] obtain s3 rr where
    e: "tx_exec_params L insert_pair_sql [key, link, nat_to_string (unat val)] (committed_scope s2 c ns2) =
      (Inr rr, committed_scope s3 c ns2)"
    and s3: "sem s3 = skip_fault (add_pair kid uid ?q (sem s2))" by auto
  from p2(5) link have l2: "id_of (url_rows (committed (sem s2))) link = Some uid" by simp
  note ap = add_pair_ok [OF p2(1) p2(4) l2 nop of_nat_0_le_iff val]
  have "addWord L db link (key, val) (committed_scope s c ns) = (Inr (), committed_scope s3 c ns2)"
    using in_sc ins e by (simp add: addWord_def act_apply del: not_None_eq)
  moreover have "calm (add_pair kid uid ?q (sem s2))" using p2(2) by (simp add: calm_def add_pair_def)
  then have "calm (sem s3)" unfolding s3 by (rule calm_facts(3))
  moreover have "server_ok (sem s3)" using ap(1) by (simp add: s3 skip_fault_def server_ok_def Let_def)
  moreover have "sessions (sem s3) = sessions ?p" "url_rows (committed (sem s3)) = url_rows (committed ?p)"
    "kw_seq (sem s3) \<le> Suc (kw_seq ?p)"
    using p2 by (simp_all add: s3 skip_fault_def add_pair_def)
  moreover have "quantity (committed (sem s3)) k u = (if k = key \<and> u = link then Some ?q else quantity (committed ?p) k u)" for k u
    using ap(2) [of k u] p2(6) by (simp add: s3 skip_fault_def)
  ultimately show ?thesis unfolding word_step_def by blast
qed

lemma words_loop_serves:
  assumes "connectionString db = cs" "storable link"
  shows "\<lbrakk>server_ok (sem s); calm (sem s); sessions (sem s) c = Some Idle; words_ok words;
      int (kw_seq (sem s) + length words) \<le> INT_MAX + 1;
      id_of (url_rows (committed (sem s))) link = Some uid;
      \<forall>k \<in> fst ` set words. quantity (committed (sem s)) k link = None\<rbrakk> \<Longrightarrow>
    \<exists>s' ns'. forA words (addWord L db link) (committed_scope s c ns) = (Inr (), committed_scope s' c ns') \<and>
      server_ok (sem s') \<and> calm (sem s') \<and> sessions (sem s') = sessions (sem s) \<and>
      url_rows (committed (sem s')) = url_rows (committed (sem s)) \<and>
      (\<forall>k u. quantity (committed (sem s')) k u =
        (if u = link \<and> k \<in> fst ` set words then map_option (\<lambda>n. int (unat n)) (map_of words k)
         else quantity (committed (sem s)) k u))"
proof (induction words arbitrary: s ns)
  case Nil
  then show ?case by (intro exI [of _ s] exI [of _ ns]) (simp add: act_apply)
next
  case (Cons kv words)
  obtain key val where kv: "kv = (key, val)" by (cases kv)
  from Cons.prems kv have k: "safe_literal key" "int (unat val) \<le> INT_MAX" "words_ok words" "key \<notin> fst ` set words"
    "quantity (committed (sem s)) key link = None" "int (kw_seq (sem s)) \<le> INT_MAX"
    by (auto simp: words_ok_def)
  from addWord_serves [OF assms(1) Cons.prems(1-3) k(1) assms(2) k(6) Cons.prems(6) k(5,2), of ns] obtain s1 ns1 where
    a: "addWord L db link (key, val) (committed_scope s c ns) = (Inr (), committed_scope s1 c ns1)"
    and w: "word_step (sem s) (sem s1) key link (int (unat val))" by blast
  have "\<forall>k \<in> fst ` set words. quantity (committed (sem s1)) k link = None"
    using w Cons.prems(7) k(4) kv by (auto simp: word_step_def)
  moreover have "int (kw_seq (sem s1) + length words) \<le> INT_MAX + 1"
    using w Cons.prems(5) by (simp add: word_step_def)
  ultimately obtain s2 ns2 where
    l: "forA words (addWord L db link) (committed_scope s1 c ns1) = (Inr (), committed_scope s2 c ns2)"
    and r: "server_ok (sem s2)" "calm (sem s2)" "sessions (sem s2) = sessions (sem s1)"
      "url_rows (committed (sem s2)) = url_rows (committed (sem s1))"
      "\<forall>k u. quantity (committed (sem s2)) k u =
        (if u = link \<and> k \<in> fst ` set words then map_option (\<lambda>n. int (unat n)) (map_of words k)
         else quantity (committed (sem s1)) k u)"
    using Cons.IH [of s1 ns1] w k(3) Cons.prems(3,6) by (auto simp: word_step_def)
  have "forA (kv # words) (addWord L db link) (committed_scope s c ns) = (Inr (), committed_scope s2 c ns2)"
    using a l kv by (simp add: act_apply)
  moreover have "quantity (committed (sem s2)) k u =
      (if u = link \<and> k \<in> fst ` set (kv # words) then map_option (\<lambda>n. int (unat n)) (map_of (kv # words) k)
       else quantity (committed (sem s)) k u)" for k u
    using r(5) w k(4) kv unfolding word_step_def by (cases "k = key") simp_all
  moreover have "sessions (sem s2) = sessions (sem s)" "url_rows (committed (sem s2)) = url_rows (committed (sem s))"
    using r(3,4) w by (simp_all add: word_step_def)
  ultimately show ?case using r(1,2) by blast
qed

lemma run_insert_url:
  assumes "no_fault p" "sessions p c = Some (InTx (committed p))" "has_urls (committed p)" "id_of (url_rows (committed p)) u = None"
    and "int (url_seq p) \<le> INT_MAX"
  shows "run_stmt c (InsertUrl u) p =
    (ok_result, (skip_fault p)\<lparr>url_seq := Suc (url_seq p),
       sessions := (sessions p)(c \<mapsto> InTx (committed (add_url u p)))\<rparr>)"
  using assms by (auto simp: run_stmt_def Let_def no_fault_def skip_fault_def view_of_def store_def data_stmt_def add_url_def)

lemma run_commit:
  assumes "no_fault p" "sessions p c = Some (InTx t)"
  shows "run_stmt c Commit p = (ok_result, (skip_fault p)\<lparr>committed := t, sessions := (sessions p)(c \<mapsto> Idle)\<rparr>)"
  using assms by (auto simp: run_stmt_def Let_def no_fault_def skip_fault_def)

lemma server_ok_no_pairs:
  assumes "server_ok p" "id_of (url_rows (committed p)) u = None"
  shows "quantity (committed p) k u = None"
  using assms(2) by (simp add: quantity_def split: option.split)

lemma skip_fault_skip: "skip_fault (skip n p) = skip (Suc n) p"
  by (simp add: skip_fault_def skip_def drop_Suc tl_drop)

lemma quiet_no_fault:
  assumes "quiet n p" "i < n"
  shows "no_fault (skip i p)"
proof (cases "i < length (faults p)")
  case True
  with assms(2) have "faults p ! i \<in> set (take n (faults p))"
    by (auto simp: in_set_conv_nth intro!: exI [of _ i])
  with assms(1) have "faults p ! i \<noteq> True" unfolding quiet_def by metis
  with True show ?thesis by (simp add: no_fault_def skip_def hd_drop_conv_nth)
qed (simp add: no_fault_def skip_def)

definition add_body :: "(string, 32 word) cmap \<Rightarrow> string \<Rightarrow> DB_Client \<Rightarrow> ('s scope, unit) act" where
  "add_body words link db =
     bindA (tx_exec_params L insert_url_sql [link]) (\<lambda>_.
     bindA (tx_commit L) (\<lambda>_.
     bindA (forA words (addWord L db link)) (\<lambda>_. tx_commit L)))"

text \<open>The url and its commit: the first three statements of \<open>addLink\<close>'s own scope.\<close>

lemma insert_url_commit:
  assumes p: "server_ok (sem s)" "quiet 6 (sem s)" and u: "safe_literal link"
    and new: "id_of (url_rows (committed (sem s))) link = None" and db: "connectionString db = cs"
    and room: "int (url_seq (sem s)) \<le> INT_MAX"
  shows "\<exists>c s3. sessions (sem s) c = None \<and>
    sem s3 = skip 6 ((add_url link (sem s))\<lparr>sessions := (sessions (sem s))(c \<mapsto> Idle)\<rparr>) \<and>
    addLink L db words link s =
      (case bindA (forA words (addWord L db link)) (\<lambda>_. tx_commit L) (committed_scope s3 c []) of (r, w) \<Rightarrow> (r, finish w))"
proof -
  have has: "has_urls (committed (sem s))" and nt: "no_tx (sessions (sem s))"
    using p(1) by (simp_all add: server_ok_def Let_def)
  have nf: "no_fault (skip i (sem s))" if "i < 6" for i
    using p(2) that by (rule quiet_no_fault)
  have q2: "quiet 2 (sem s)"
    using p(2) set_take_subset_set_take [of 2 6 "faults (sem s)"] by (auto simp: quiet_def)
  from findUrl_serves [OF db q2 u has nt] new obtain s0 where
    f: "findUrl L db link s = (Inr False, s0)" and s0: "sem s0 = skip 3 (sem s)" by auto
  have "no_fault (sem s0)" "no_tx (sessions (sem s0))" using nf [of 3] nt by (simp_all add: s0 skip_def)
  from with_work_begin [OF this, of "add_body words link db"] obtain c s1 where c: "sessions (sem s0) c = None"
    and s1: "sem s1 = (skip_fault (sem s0))\<lparr>sessions := (sessions (sem s0))(c \<mapsto> InTx (committed (sem s0)))\<rparr>"
    and w: "with_work L cs (add_body words link db) s0 =
      (case add_body words link db (active_scope s1 c []) of (r, w) \<Rightarrow> (r, finish w))" by blast
  have r: "run_stmt c (InsertUrl link) (sem s1) =
    (ok_result, (skip_fault (sem s1))\<lparr>url_seq := Suc (url_seq (sem s1)),
       sessions := (sessions (sem s1))(c \<mapsto> InTx (committed (add_url link (sem s1))))\<rparr>)"
    using nf [of 4] has new room
    by (intro run_insert_url) (simp_all add: s1 s0 skip_fault_skip no_fault_def, simp_all add: skip_def)
  have "covered c (InsertUrl link) (sem s1)"
    using s1 alone_upd [OF nt, of "sem s1"] has by (simp add: covered_def s0 skip_def skip_fault_def)
  from exec_params_ok(2) [OF param_text.intros(1) [OF safe_literal_storable [OF u]] r this, of "[]"] obtain s2 rr where
    e: "tx_exec_params L insert_url_sql [link] (active_scope s1 c []) = (Inr rr, active_scope s2 c [])"
    and s2: "sem s2 = (skip_fault (sem s1))\<lparr>url_seq := Suc (url_seq (sem s1)),
       sessions := (sessions (sem s1))(c \<mapsto> InTx (committed (add_url link (sem s1))))\<rparr>" by auto
  have "no_fault (sem s2)"
    using nf [of 5] by (simp add: s2 s1 s0 skip_def skip_fault_def no_fault_def drop_Suc numeral_eq_Suc)
  note rc = run_commit [OF this, of c "committed (add_url link (sem s1))"]
  have "sessions (sem s2) c \<noteq> None" "alone c (sem s2)"
    using s2 s1 s0 alone_upd [OF nt, of "sem s2"] by (simp_all add: skip_def)
  from tx_commit_active [OF this, of "[]"] rc s2 obtain s3 where
    co: "tx_commit L (active_scope s2 c []) = (Inr (), committed_scope s3 c [])"
    and s3: "sem s3 = (skip_fault (sem s2))\<lparr>committed := committed (add_url link (sem s1)), sessions := (sessions (sem s2))(c \<mapsto> Idle)\<rparr>"
    by (auto simp: is_error_def ok_result_def)
  have "sessions (sem s) c = None" using c by (simp add: s0 skip_def)
  moreover have "sem s3 = skip 6 ((add_url link (sem s))\<lparr>sessions := (sessions (sem s))(c \<mapsto> Idle)\<rparr>)"
    by (simp add: s3 s2 s1 s0 skip_def skip_fault_def add_url_def drop_Suc numeral_eq_Suc)
  moreover have "addLink L db words link s =
       (case bindA (forA words (addWord L db link)) (\<lambda>_. tx_commit L) (committed_scope s3 c []) of (r, w) \<Rightarrow> (r, finish w))"
    using f w e co db by (simp add: addLink_def add_body_def act_apply)
  ultimately show ?thesis by blast
qed

lemma addLink_new:
  assumes p: "server_ok (sem s)" "calm (sem s)" and link: "safe_literal link"
    and new: "id_of (url_rows (committed (sem s))) link = None" and db: "connectionString db = cs" and words: "words_ok words"
    and room: "seq_room (length words) (sem s)"
  shows "\<exists>s'. addLink L db words link s = (Inr (), s') \<and> server_ok (sem s') \<and> calm (sem s') \<and>
    sessions (sem s') = sessions (sem s) \<and>
    url_rows (committed (sem s')) = url_rows (committed (sem s)) @ [(url_seq (sem s), link)] \<and>
    (\<forall>k u. quantity (committed (sem s')) k u =
      (if u = link then map_option (\<lambda>n. int (unat n)) (map_of words k) else quantity (committed (sem s)) k u))"
proof -
  have ru: "int (url_seq (sem s)) \<le> INT_MAX" using room by (simp add: seq_room_def)
  from insert_url_commit [OF p(1) calm_facts(2) [OF p(2)] link new db ru, of words] obtain c s3 where
    c: "sessions (sem s) c = None"
    and s3: "sem s3 = skip 6 ((add_url link (sem s))\<lparr>sessions := (sessions (sem s))(c \<mapsto> Idle)\<rparr>)"
    and a: "addLink L db words link s =
      (case bindA (forA words (addWord L db link)) (\<lambda>_. tx_commit L) (committed_scope s3 c []) of (r, w) \<Rightarrow> (r, finish w))"
    by blast
  note au = add_url_ok [OF p(1) new]
  have ok3: "server_ok (sem s3)" using au(1) no_tx_upd [of "sessions (sem s)"]
    by (simp add: s3 skip_def server_ok_def Let_def add_url_def)
  have kr: "int (kw_seq (sem s3) + length words) \<le> INT_MAX + 1"
    using room by (simp add: s3 skip_def add_url_def seq_room_def)
  have q3: "quantity (committed (sem s3)) = quantity (committed (sem s))" using au(2) by (simp add: s3 skip_def)
  have u3: "url_rows (committed (sem s3)) = url_rows (committed (sem s)) @ [(url_seq (sem s), link)]"
    by (simp add: s3 skip_def add_url_def)
  then have id3: "id_of (url_rows (committed (sem s3))) link = Some (url_seq (sem s))"
    using new by (simp add: id_of_snoc)
  have calm3: "calm (sem s3)" using p(2) by (auto simp: s3 skip_def add_url_def calm_def dest: in_set_dropD)
  have none: "quantity (committed (sem s)) k link = None" for k
    using new by (simp add: quantity_def split: option.split)
  from words_loop_serves [OF db safe_literal_storable [OF link] ok3 calm3 _ words kr id3, of c "[]"] q3 none s3 obtain s4 ns4 where
    l: "forA words (addWord L db link) (committed_scope s3 c []) = (Inr (), committed_scope s4 c ns4)"
    and r: "server_ok (sem s4)" "calm (sem s4)" "sessions (sem s4) = sessions (sem s3)"
      "url_rows (committed (sem s4)) = url_rows (committed (sem s3))"
      "\<forall>k u. quantity (committed (sem s4)) k u =
        (if u = link \<and> k \<in> fst ` set words then map_option (\<lambda>n. int (unat n)) (map_of words k)
         else quantity (committed (sem s3)) k u)"
    by (auto simp: skip_def)
  let ?ns = "ns4 @ [twice_notice]"
  let ?s' = "finish (committed_scope s4 c ?ns)"
  have e: "addLink L db words link s = (Inr (), ?s')"
    using a l by (simp add: act_apply tx_commit_committed)
  have "sessions (sem s4) c \<noteq> None" using r(3) s3 by (simp add: skip_def)
  note f = finish_committed [OF this, of ?ns]
  have "server_ok (sem ?s')" "calm (sem ?s')"
    using r(1,2) no_tx_upd [of "sessions (sem s4)"] by (simp_all add: f server_ok_def calm_def Let_def)
  moreover have "sessions (sem ?s') = sessions (sem s)"
    using r(3) s3 c by (simp add: f skip_def add_url_def fun_upd_idem)
  moreover have "quantity (committed (sem ?s')) k u =
      (if u = link then map_option (\<lambda>n. int (unat n)) (map_of words k) else quantity (committed (sem s)) k u)" for k u
    using r(5) q3 none map_of_eq_None_iff [of words k] by (cases "k \<in> fst ` set words") (simp_all add: f)
  ultimately show ?thesis using e r(4) u3 by (intro exI [of _ ?s']) (simp add: f)
qed

lemma addLink_old:
  assumes p: "server_ok (sem s)" "quiet 2 (sem s)" and link: "safe_literal link"
    and old: "id_of (url_rows (committed (sem s))) link \<noteq> None" and db: "connectionString db = cs"
  shows "\<exists>s'. addLink L db words link s = (Inr (), s') \<and> sem s' = skip 3 (sem s)"
proof -
  have has: "has_urls (committed (sem s))" "no_tx (sessions (sem s))" using p(1) by (simp_all add: server_ok_def Let_def)
  from findUrl_serves [OF db p(2) link has] old show ?thesis
    by (auto simp: addLink_def act_apply)
qed

text \<open>A failure after the commit of the url: here of the first statement of \<open>findKeyword\<close>.\<close>

lemma addLink_fault:
  assumes p: "server_ok (sem s)" "quiet 6 (sem s)" "\<not> no_fault (skip 6 (sem s))" and link: "safe_literal link"
    and new: "id_of (url_rows (committed (sem s))) link = None" and db: "connectionString db = cs" and words: "words \<noteq> []"
    and room: "int (url_seq (sem s)) \<le> INT_MAX"
  shows "\<exists>m s'. addLink L db words link s = (Inl (Pqxx_sql_error ''sql_error'' m), s') \<and>
    sem s' = skip 7 (add_url link (sem s))"
proof -
  from insert_url_commit [OF p(1,2) link new db room, of words] obtain c s3 where
    c: "sessions (sem s) c = None"
    and s3: "sem s3 = skip 6 ((add_url link (sem s))\<lparr>sessions := (sessions (sem s))(c \<mapsto> Idle)\<rparr>)"
    and a: "addLink L db words link s =
      (case bindA (forA words (addWord L db link)) (\<lambda>_. tx_commit L) (committed_scope s3 c []) of (r, w) \<Rightarrow> (r, finish w))"
    by blast
  obtain key val rest where w: "words = (key, val) # rest" using words by (cases words) auto
  have "\<not> no_fault (sem s3)" "no_tx (sessions (sem s3))" using p(1,3) no_tx_upd [of "sessions (sem s)"]
    by (simp_all add: s3 skip_def no_fault_def add_url_def server_ok_def Let_def)
  from with_work_fault [OF this, of "query_value L ''bool'' bool_from_string (exists_keyword_sql key)"] obtain m s4 where
    k: "findKeyword L db key s3 = (Inl (Pqxx_sql_error ''sql_error'' m), s4)" and s4: "sem s4 = skip_fault (sem s3)"
    using db by (auto simp: findKeyword_def)
  let ?s' = "finish (committed_scope s4 c [])"
  have sc: "(committed_scope s3 c [])\<lparr>srv := s4\<rparr> = committed_scope s4 c []" by (simp add: scope_defs)
  have "in_scope (findKeyword L db key) (committed_scope s3 c []) = (Inl (Pqxx_sql_error ''sql_error'' m), committed_scope s4 c [])"
    using k sc by (simp add: in_scope_def) (simp add: scope_defs)
  then have e: "addLink L db words link s = (Inl (Pqxx_sql_error ''sql_error'' m), ?s')"
    using a w by (simp add: addWord_def act_apply)
  have "sessions (sem s4) c \<noteq> None" by (simp add: s4 skip_fault_def s3 skip_def)
  from finish_committed [OF this, of "[]"] have "sem ?s' = skip 7 (add_url link (sem s))"
    using c by (simp add: s4 s3 skip_fault_def skip_def add_url_def fun_upd_idem drop_Suc tl_drop numeral_eq_Suc)
  with e show ?thesis by blast
qed

lemma getUrl_serves:
  assumes p: "server_ok (sem s)" "quiet 2 (sem s)" and k: "text_ok k" and db: "connectionString db = cs"
  shows "\<exists>m s'. getUrl L db k s = (Inr m, s') \<and> sem s' = skip 3 (sem s) \<and> map_ok m \<and>
    (\<forall>u. map_get m u = quantity (committed (sem s)) k u)"
proof -
  let ?p = "sem s"
  let ?body = "bindA (conn_esc L k) (\<lambda>key_esc. bindA (tx_exec L (select_sql key_esc)) (\<lambda>r.
        liftR (put_rows (res_columns r) (res_rows r) [])))"
  have has: "has_pairs (committed ?p)" and nt: "no_tx (sessions ?p)" using p(1) by (simp_all add: server_ok_def Let_def)
  have nf: "no_fault (skip 0 ?p)" "no_fault (skip 1 ?p)"
    using quiet_no_fault [OF p(2)] by simp_all
  then have "no_fault ?p" by (simp add: skip_def no_fault_def)
  from with_work_begin [OF this nt, of ?body] obtain c s1 where c: "sessions ?p c = None"
    and s1: "sem s1 = (skip_fault ?p)\<lparr>sessions := (sessions ?p)(c \<mapsto> InTx (committed ?p))\<rparr>"
    and w: "with_work L cs ?body s = (case ?body (active_scope s1 c []) of (r, w) \<Rightarrow> (r, finish w))" by blast
  have o: "covered c (SelectByKeyword k) (sem s1)" "sessions (sem s1) c \<noteq> None"
    using s1 alone_upd [OF nt, of "sem s1"] by (simp_all add: covered_def)
  have r: "run_stmt c (SelectByKeyword k) (sem s1) = (rows_result 2 (quantity_rows (committed ?p) k), skip_fault (sem s1))"
    using nf(2) has by (auto simp: run_stmt_def Let_def s1 skip_fault_def skip_def no_fault_def view_of_def store_def data_stmt_def drop_Suc)
  from tx_exec_active [OF o(1) plain_text.intros(9) [OF k], of "[]"] obtain x s2 where
    e: "tx_exec L (select_sql (escape k)) (active_scope s1 c []) = (x, active_scope s2 c [])" and
    oc: "outcome (rows_result 2 (quantity_rows (committed ?p) k)) x" and s2: "sem s2 = skip_fault (sem s1)"
    unfolding r by auto
  from oc obtain y where x: "x = Inr y" and y: "same_result y (rows_result 2 (quantity_rows (committed ?p) k))"
    by (auto simp: outcome_def is_error_def rows_result_def)
  from y have "mset (res_rows y) = mset (quantity_rows (committed ?p) k)" and y2: "res_columns y = 2"
    by (simp_all add: same_result_def rows_result_def)
  from put_rows_pages [OF p(1) this(1)] obtain m where m: "put_rows 2 (res_rows y) [] = Inr m" "map_ok m"
    "\<forall>u. map_get m u = quantity (committed ?p) k u" by blast
  have "conn_esc L k (active_scope s1 c []) = (Inr (escape k), active_scope s1 c [])"
    using open_facts(8) [OF o(2) k] by (simp add: conn_esc_def act_apply scope_defs)
  then have b: "?body (active_scope s1 c []) = (Inr m, active_scope s2 c [])"
    using e x y2 m(1) by (simp add: act_apply)
  have o2: "sessions (sem s2) c \<noteq> None" "alone c (sem s2)"
    using s1 s2 alone_upd [OF nt, of "sem s2"] by (simp_all add: skip_fault_def)
  have "sem (finish (active_scope s2 c [])) = skip 3 ?p"
    using finish_active [OF o2] s1 s2 c
    by (simp add: skip_fault_def skip_def fun_upd_idem drop_Suc numeral_3_eq_3)
  with w b m db show ?thesis by (simp add: getUrl_def)
qed

lemma run_create:
  assumes "no_fault p" "sessions p c = Some (InTx t)" "data_stmt st (kw_seq p) (url_seq p) t = Inr (t', ok_result)"
    and "st \<in> {CreateKeywords, CreateUrls, CreatePairs}"
  shows "run_stmt c st p = (ok_result, (skip_fault p)\<lparr>sessions := (sessions p)(c \<mapsto> InTx t')\<rparr>)"
  using assms by (auto simp: run_stmt_def Let_def no_fault_def skip_fault_def view_of_def store_def)

lemma tx_exec_create:
  assumes "no_fault (sem s)" "sessions (sem s) c = Some (InTx t)" "data_stmt st (kw_seq (sem s)) (url_seq (sem s)) t = Inr (t', ok_result)"
    and "st \<in> {CreateKeywords, CreateUrls, CreatePairs}" "plain_text st q" "alone c (sem s)"
  shows "\<exists>r s'. tx_exec L q (active_scope s c ns) = (Inr r, active_scope s' c ns) \<and>
    sem s' = (skip_fault (sem s))\<lparr>sessions := (sessions (sem s))(c \<mapsto> InTx t')\<rparr>"
proof -
  have "covered c st (sem s)" using assms(2,4,6) by (auto simp: covered_def)
  from tx_exec_active [OF this assms(5), of ns] show ?thesis
    unfolding run_create [OF assms(1-4)] by (auto simp: outcome_def is_error_def ok_result_def)
qed

lemma DB_Client_serves:
  assumes calm: "calm (sem s)" and nt: "no_tx (sessions (sem s))"
    and cs: "cs = createConnectionString \<lparr>connectionString = [], DBHost = h, DBPort = po, DBName = n, DBUser = u, DBPassword = pw\<rparr>"
  shows "\<exists>s'. DB_Client L h po n u pw s =
      (Inr \<lparr>connectionString = cs, DBHost = h, DBPort = po, DBName = n, DBUser = u, DBPassword = pw\<rparr>, s') \<and>
    committed (sem s') = with_tables (committed (sem s)) \<and> sessions (sem s') = sessions (sem s) \<and>
    kw_seq (sem s') = kw_seq (sem s) \<and> url_seq (sem s') = url_seq (sem s) \<and> calm (sem s')"
proof -
  let ?p = "sem s" and ?t = "committed (sem s)"
  let ?db = "\<lparr>connectionString = cs, DBHost = h, DBPort = po, DBName = n, DBUser = u, DBPassword = pw\<rparr>"
  let ?body = "bindA (tx_exec L create_keywords_sql) (\<lambda>_. bindA (tx_exec L create_urls_sql) (\<lambda>_.
    bindA (tx_exec L create_pairs_sql) (\<lambda>_. bindA (tx_commit L) (\<lambda>_. retA ?db))))"
  from with_work_begin [OF calm_facts(1) [OF calm] nt, of ?body] obtain c s1 where c: "sessions ?p c = None"
    and s1: "sem s1 = (skip_fault ?p)\<lparr>sessions := (sessions ?p)(c \<mapsto> InTx ?t)\<rparr>"
    and w: "with_work L cs ?body s = (case ?body (active_scope s1 c []) of (r, w) \<Rightarrow> (r, finish w))" by blast
  have keep: "calm q \<Longrightarrow> calm ((skip_fault q)\<lparr>sessions := f\<rparr>)" for q f
    using calm_facts(3) [of q] by (simp add: calm_def)
  have al: "sessions q = (sessions (sem s1))(c \<mapsto> x) \<Longrightarrow> alone c q" for q x
    using alone_upd [OF nt, of q c "Some x"] s1 by simp
  have al1: "alone c (sem s1)" using alone_upd [OF nt, of "sem s1"] s1 by simp
  have c1: "calm (sem s1)" unfolding s1 by (rule keep [OF calm])
  let ?t1 = "?t\<lparr>has_keywords := True\<rparr>" let ?t2 = "?t1\<lparr>has_urls := True\<rparr>" let ?t3 = "?t2\<lparr>has_pairs := True\<rparr>"
  from tx_exec_create [OF calm_facts(1) [OF c1], of c ?t CreateKeywords ?t1 create_keywords_sql "[]"] s1 al1 obtain r2 s2 where
    e2: "tx_exec L create_keywords_sql (active_scope s1 c []) = (Inr r2, active_scope s2 c [])"
    and s2: "sem s2 = (skip_fault (sem s1))\<lparr>sessions := (sessions (sem s1))(c \<mapsto> InTx ?t1)\<rparr>"
    by (auto simp: data_stmt_def intro: plain_text.intros)
  have c2: "calm (sem s2)" unfolding s2 by (rule keep [OF c1])
  from tx_exec_create [OF calm_facts(1) [OF c2], of c ?t1 CreateUrls ?t2 create_urls_sql "[]"] s2 al [of "sem s2"] obtain r3 s3 where
    e3: "tx_exec L create_urls_sql (active_scope s2 c []) = (Inr r3, active_scope s3 c [])"
    and s3: "sem s3 = (skip_fault (sem s2))\<lparr>sessions := (sessions (sem s2))(c \<mapsto> InTx ?t2)\<rparr>"
    by (auto simp: data_stmt_def intro: plain_text.intros)
  have c3: "calm (sem s3)" unfolding s3 by (rule keep [OF c2])
  from tx_exec_create [OF calm_facts(1) [OF c3], of c ?t2 CreatePairs ?t3 create_pairs_sql "[]"] s3 s2 al [of "sem s3"] obtain r4 s4 where
    e4: "tx_exec L create_pairs_sql (active_scope s3 c []) = (Inr r4, active_scope s4 c [])"
    and s4: "sem s4 = (skip_fault (sem s3))\<lparr>sessions := (sessions (sem s3))(c \<mapsto> InTx ?t3)\<rparr>"
    by (auto simp: data_stmt_def intro: plain_text.intros)
  have c4: "calm (sem s4)" unfolding s4 by (rule keep [OF c3])
  have o4: "sessions (sem s4) c \<noteq> None" "sessions (sem s4) c = Some (InTx ?t3)" "alone c (sem s4)"
    using s4 s3 s2 al [of "sem s4"] by simp_all
  from tx_commit_active [OF o4(1,3), of "[]"] run_commit [OF calm_facts(1) [OF c4] o4(2)] obtain s5 where
    e5: "tx_commit L (active_scope s4 c []) = (Inr (), committed_scope s5 c [])"
    and s5: "sem s5 = (skip_fault (sem s4))\<lparr>committed := ?t3, sessions := (sessions (sem s4))(c \<mapsto> Idle)\<rparr>"
    by (auto simp: is_error_def ok_result_def)
  have c5: "calm (sem s5)" using calm_facts(3) [OF c4] by (simp add: s5 calm_def)
  have "sessions (sem s5) c \<noteq> None" using s5 by simp
  note f = finish_committed [OF this, of "[]"]
  have "with_work L cs ?body s = (Inr ?db, finish (committed_scope s5 c []))"
    unfolding w using e2 e3 e4 e5 by (simp add: act_apply)
  then have "DB_Client L h po n u pw s = (Inr ?db, finish (committed_scope s5 c []))"
    by (simp add: DB_Client_def Let_def cs)
  then show ?thesis
    using c c5 by (intro exI [of _ "finish (committed_scope s5 c [])"])
      (simp add: f s5 s4 s3 s2 s1 skip_fault_def with_tables_def fun_upd_idem calm_def)
qed

end

text \<open>The concrete server keeps the contract.\<close>

interpretation ref: pg_server ref_libpq ref_state cs
  by unfold_locales (rule serves_ref)

section \<open>Properties\<close>

text \<open>A database with the three tables and one page.\<close>

definition sample_tables :: tables where
  "sample_tables = \<lparr>has_keywords = True, has_urls = True, has_pairs = True, kw_rows = [(0, ''hello'')],
     url_rows = [(0, ''http://a.org/'')], pair_rows = [((0, 0), 7)]\<rparr>"

definition sample_state :: "bool list \<Rightarrow> pgs \<times> nat" where
  "sample_state fs = (\<lparr>committed = sample_tables, kw_seq = 1, url_seq = 1, sessions = (\<lambda>_. None), faults = fs\<rparr>, 0)"

definition sample_db :: DB_Client where
  "sample_db = \<lparr>connectionString = ''host = h'', DBHost = ''h'', DBPort = [], DBName = [], DBUser = [], DBPassword = []\<rparr>"

lemma sample_facts:
  "server_ok (ref_state (sample_state fs))" "faults (ref_state (sample_state fs)) = fs"
  "committed (ref_state (sample_state fs)) = sample_tables" "url_seq (ref_state (sample_state fs)) = 1"
  by (simp_all add: ref_state_def sample_state_def sample_tables_def server_ok_def no_tx_def rows_ok_def INT_MAX_def)

lemma sample_no_tx: "no_tx (sessions (ref_state (sample_state fs)))"
  by (simp add: ref_state_def sample_state_def no_tx_def)

lemma sample_room: "n \<le> 1000 \<Longrightarrow> seq_room n (ref_state (sample_state fs))"
  by (simp add: ref_state_def sample_state_def seq_room_def INT_MAX_def)

lemma sample_literals: "safe_literal ''http://a.org/''" "safe_literal ''http://b.org/''" "safe_literal ''hello''" "safe_literal ''world''"
  by (rule safe_literal_ascii; simp)+

lemma sample_calm: "calm (ref_state (sample_state []))"
  by (simp add: calm_def sample_facts)

lemma sample_words: "words_ok [(''hello'', 3), (''world'', 1)]"
  by (simp add: words_ok_def sample_literals INT_MAX_def)

text \<open>C10. Indexing then searching.  On a database server that keeps its contract and does not fail, with the tables
  consistent, no transaction open and numbers left in the sequences, let \<open>link\<close> be an address that is not in the
  table, and \<open>words\<close> a map from words to counts of at most \<open>INT_MAX\<close>, where the address and the words are valid UTF-8
  of at most 2000 bytes without a quote.  After \<open>addLink\<close> of them, \<open>getUrl\<close> for any valid text returns exactly the
  pages known before with their counts, and the new page with the count given for that word.\<close>

theorem addLink_getUrl:
  assumes "serves L sem (connectionString db)" "server_ok (sem s)" "calm (sem s)" "safe_literal link"
    and "id_of (url_rows (committed (sem s))) link = None" "words_ok words" "seq_room (length words) (sem s)" "text_ok k"
  shows "\<exists>s' m s''. addLink L db words link s = (Inr (), s') \<and> getUrl L db k s' = (Inr m, s'') \<and> map_ok m \<and>
    (\<forall>u. map_get m u = (if u = link then map_option (\<lambda>n. int (unat n)) (map_of words k)
                        else quantity (committed (sem s)) k u))"
proof -
  have pg: "pg_server L sem (connectionString db)" by (rule pg_server.intro) (rule assms(1))
  from pg_server.addLink_new [OF pg assms(2-5) refl assms(6,7)] obtain s' where
    a: "addLink L db words link s = (Inr (), s')" "server_ok (sem s')" "calm (sem s')"
    "\<forall>k u. quantity (committed (sem s')) k u =
      (if u = link then map_option (\<lambda>n. int (unat n)) (map_of words k) else quantity (committed (sem s)) k u)" by blast
  from pg_server.getUrl_serves [OF pg a(2) calm_facts(2) [OF a(3)] assms(8) refl] obtain m s'' where
    "getUrl L db k s' = (Inr m, s'')" "map_ok m" "\<forall>u. map_get m u = quantity (committed (sem s')) k u" by blast
  with a show ?thesis by auto
qed

lemma addLink_getUrl_witness:
  "\<exists>s' m s''. addLink ref_libpq sample_db [(''hello'', 3), (''world'', 1)] ''http://b.org/'' (sample_state []) = (Inr (), s') \<and>
     getUrl ref_libpq sample_db ''hello'' s' = (Inr m, s'') \<and>
     map_get m ''http://a.org/'' = Some 7 \<and> map_get m ''http://b.org/'' = Some 3"
proof -
  have n: "id_of (url_rows (committed (ref_state (sample_state [])))) ''http://b.org/'' = None"
    and q: "quantity (committed (ref_state (sample_state []))) ''hello'' ''http://a.org/'' = Some 7"
    by (simp_all add: sample_facts sample_tables_def id_of_def quantity_def)
  have t: "text_ok ''hello''" using sample_literals(3) by (simp add: safe_literal_def storable_def)
  have r: "seq_room (length [(''hello'', 3 :: 32 word), (''world'', 1)]) (ref_state (sample_state []))"
    by (rule sample_room) simp
  from addLink_getUrl [OF serves_ref sample_facts(1) sample_calm sample_literals(2) n sample_words r t, of sample_db]
  show ?thesis using q by auto
qed

text \<open>C1. \<open>addLink\<close> refines its specification on the abstract index.  On a database server that keeps its contract
  and does not fail, with the tables consistent, no transaction open and numbers left in the sequences, let the
  address be new to the table, let it and the words be valid UTF-8 of at most 2000 bytes without a quote (the
  statements paste them into their text), and the counts at most \<open>INT_MAX\<close>.  Then \<open>addLink\<close> returns, keeps the
  invariant of the tables, adds the address as one new url, sets the counts of exactly the given words for it,
  changes no other count, and leaves no session behind.\<close>

theorem addLink_refines:
  assumes "serves L sem (connectionString db)" "server_ok (sem s)" "calm (sem s)" "safe_literal link"
    and "id_of (url_rows (committed (sem s))) link = None" "words_ok words" "seq_room (length words) (sem s)"
  shows "\<exists>s'. addLink L db words link s = (Inr (), s') \<and> server_ok (sem s') \<and> sessions (sem s') = sessions (sem s) \<and>
    map snd (url_rows (committed (sem s'))) = map snd (url_rows (committed (sem s))) @ [link] \<and>
    (\<forall>k u. quantity (committed (sem s')) k u =
      (if u = link then map_option (\<lambda>n. int (unat n)) (map_of words k) else quantity (committed (sem s)) k u))"
proof -
  have pg: "pg_server L sem (connectionString db)" by (rule pg_server.intro) (rule assms(1))
  from pg_server.addLink_new [OF pg assms(2-5) refl assms(6,7)] show ?thesis by auto
qed

lemma addLink_refines_witness:
  "\<exists>s'. addLink ref_libpq sample_db [(''hello'', 3), (''world'', 1)] ''http://b.org/'' (sample_state []) = (Inr (), s') \<and>
     quantity (committed (ref_state s')) ''world'' ''http://b.org/'' = Some 1 \<and>
     quantity (committed (ref_state s')) ''hello'' ''http://a.org/'' = Some 7"
proof -
  have n: "id_of (url_rows (committed (ref_state (sample_state [])))) ''http://b.org/'' = None"
    and q: "quantity (committed (ref_state (sample_state []))) ''hello'' ''http://a.org/'' = Some 7"
    by (simp_all add: sample_facts sample_tables_def id_of_def quantity_def)
  have r: "seq_room (length [(''hello'', 3 :: 32 word), (''world'', 1)]) (ref_state (sample_state []))"
    by (rule sample_room) simp
  from addLink_refines [OF serves_ref sample_facts(1) sample_calm sample_literals(2) n sample_words r, of sample_db] q show ?thesis by auto
qed

text \<open>C37. Indexing is not atomic: the url is committed before its words.  Take a new address without a quote (valid
  UTF-8, at most 2000 bytes) and at least one word, on a server that keeps its contract, with consistent tables, no
  transaction open and a number left for the url.  If the first statement after that commit fails, \<open>addLink\<close>
  throws, the page stays in the table without any word, and a later \<open>addLink\<close> of the same page, on the server
  working again, succeeds without doing anything: the page is never indexed.\<close>

theorem addLink_not_atomic:
  assumes "serves L sem (connectionString db)" "server_ok (sem s)" "safe_literal link" "words \<noteq> []"
    and "id_of (url_rows (committed (sem s))) link = None" "faults (sem s) = replicate 6 False @ [True]"
    and "int (url_seq (sem s)) \<le> INT_MAX"
  shows "\<exists>e s' s''. addLink L db words link s = (Inl e, s') \<and> addLink L db words link s' = (Inr (), s'') \<and>
    map snd (url_rows (committed (sem s''))) = map snd (url_rows (committed (sem s))) @ [link] \<and>
    (\<forall>k. quantity (committed (sem s'')) k link = None)"
proof -
  have pg: "pg_server L sem (connectionString db)" by (rule pg_server.intro) (rule assms(1))
  have q: "quiet 6 (sem s)" "\<not> no_fault (skip 6 (sem s))"
    using assms(6) by (simp_all add: quiet_def no_fault_def skip_def)
  from pg_server.addLink_fault [OF pg assms(2) q assms(3,5) refl assms(4,7)] obtain m s' where
    f: "addLink L db words link s = (Inl (Pqxx_sql_error ''sql_error'' m), s')" "sem s' = skip 7 (add_url link (sem s))"
    by blast
  note ok = add_url_ok [OF assms(2,5)]
  have s': "server_ok (sem s')" "quiet 2 (sem s')" "id_of (url_rows (committed (sem s'))) link \<noteq> None"
    using ok(1) assms(5,6) by (simp_all add: f(2) skip_def server_ok_def Let_def quiet_def add_url_def id_of_snoc)
  from pg_server.addLink_old [OF pg s'(1,2) assms(3) s'(3) refl] obtain s'' where
    o: "addLink L db words link s' = (Inr (), s'')" "sem s'' = skip 3 (sem s')" by blast
  have "quantity (committed (sem s'')) = quantity (committed (sem s))"
    using ok(2) by (simp add: o(2) f(2) skip_def)
  moreover have "quantity (committed (sem s)) k link = None" for k
    using assms(5) by (simp add: quantity_def split: option.split)
  moreover have "url_rows (committed (sem s'')) = url_rows (committed (sem s)) @ [(url_seq (sem s), link)]"
    by (simp add: o(2) f(2) skip_def add_url_def)
  ultimately show ?thesis using f(1) o(1) by auto
qed

lemma addLink_not_atomic_witness:
  "\<exists>e s' s''. addLink ref_libpq sample_db [(''world'', 1)] ''http://b.org/'' (sample_state (replicate 6 False @ [True])) = (Inl e, s') \<and>
     addLink ref_libpq sample_db [(''world'', 1)] ''http://b.org/'' s' = (Inr (), s'') \<and>
     (\<forall>k. quantity (committed (ref_state s'')) k ''http://b.org/'' = None)"
proof -
  let ?s = "sample_state (replicate 6 False @ [True])"
  have n: "id_of (url_rows (committed (ref_state ?s))) ''http://b.org/'' = None"
    and w: "[(''world'', 1 :: 32 word)] \<noteq> []" and u: "int (url_seq (ref_state ?s)) \<le> INT_MAX"
    by (simp_all add: sample_facts sample_tables_def id_of_def INT_MAX_def)
  from addLink_not_atomic [OF serves_ref sample_facts(1) sample_literals(2) w n sample_facts(2) u, of sample_db] show ?thesis by auto
qed

text \<open>A page already in the database is left alone by a server that does not fail: \<open>addLink\<close> changes nothing and leaves no session,
  whatever words it is given.\<close>

theorem addLink_known:
  assumes "serves L sem (connectionString db)" "server_ok (sem s)" "calm (sem s)" "safe_literal link"
    and "id_of (url_rows (committed (sem s))) link \<noteq> None"
  shows "\<exists>s'. addLink L db words link s = (Inr (), s') \<and> committed (sem s') = committed (sem s) \<and>
    sessions (sem s') = sessions (sem s)"
proof -
  have pg: "pg_server L sem (connectionString db)" by (rule pg_server.intro) (rule assms(1))
  from pg_server.addLink_old [OF pg assms(2) calm_facts(2) [OF assms(3)] assms(4,5) refl, of words] show ?thesis
    by (auto simp: skip_def)
qed

lemma addLink_known_witness:
  "\<exists>s'. addLink ref_libpq sample_db [(''world'', 1)] ''http://a.org/'' (sample_state []) = (Inr (), s') \<and>
     committed (ref_state s') = sample_tables"
proof -
  have n: "id_of (url_rows (committed (ref_state (sample_state [])))) ''http://a.org/'' \<noteq> None"
    by (simp_all add: sample_facts sample_tables_def id_of_def)
  from addLink_known [OF serves_ref sample_facts(1) sample_calm sample_literals(1) n, of sample_db "[(''world'', 1)]"] show ?thesis
    by (auto simp: sample_facts)
qed

text \<open>The constructor creates the three tables and keeps every row that is already there: run on a
  database whose tables hold consistent rows, or on an empty one, it establishes the invariant the
  other operations need and changes no count.\<close>

theorem DB_Client_creates:
  assumes "serves L sem (createConnectionString \<lparr>connectionString = [], DBHost = h, DBPort = po, DBName = n, DBUser = u, DBPassword = pw\<rparr>)"
    and "calm (sem s)" "server_ok ((sem s)\<lparr>committed := with_tables (committed (sem s))\<rparr>)"
  shows "\<exists>db s'. DB_Client L h po n u pw s = (Inr db, s') \<and> server_ok (sem s') \<and> sessions (sem s') = sessions (sem s) \<and>
    connectionString db = ''host = '' @ h @ '' port= '' @ po @ '' dbname = '' @ n @ '' user = '' @ u @ '' password = '' @ pw \<and>
    quantity (committed (sem s')) = quantity (committed (sem s))"
proof -
  have pg: "pg_server L sem (createConnectionString \<lparr>connectionString = [], DBHost = h, DBPort = po, DBName = n, DBUser = u, DBPassword = pw\<rparr>)"
    by (rule pg_server.intro) (rule assms(1))
  have "quantity (with_tables t) = quantity t" for t by (simp add: fun_eq_iff quantity_def with_tables_def split: option.split)
  moreover have "no_tx (sessions (sem s))" using assms(3) by (simp add: server_ok_def Let_def)
  ultimately show ?thesis
    using pg_server.DB_Client_serves [OF pg assms(2) _ refl] assms(3)
    by (fastforce simp: server_ok_def Let_def createConnectionString_def)
qed

lemma DB_Client_creates_witness:
  "\<exists>db s'. DB_Client ref_libpq ''localhost'' ''5432'' ''postgres'' ''u'' ''p''
       (\<lparr>committed = \<lparr>has_keywords = False, has_urls = False, has_pairs = False, kw_rows = [], url_rows = [], pair_rows = []\<rparr>,
         kw_seq = 1, url_seq = 1, sessions = (\<lambda>_. None), faults = []\<rparr>, 0) = (Inr db, s') \<and> server_ok (ref_state s')"
proof -
  let ?s = "(\<lparr>committed = \<lparr>has_keywords = False, has_urls = False, has_pairs = False, kw_rows = [], url_rows = [], pair_rows = []\<rparr>,
         kw_seq = 1, url_seq = 1, sessions = (\<lambda>_. None), faults = []\<rparr>, 0)"
  have "calm (ref_state ?s)" "server_ok ((ref_state ?s)\<lparr>committed := with_tables (committed (ref_state ?s))\<rparr>)"
    by (simp_all add: ref_state_def calm_def server_ok_def no_tx_def with_tables_def rows_ok_def)
  from DB_Client_creates [OF serves_ref this] show ?thesis by blast
qed

text \<open>The url is pasted into the SQL text unescaped: a url that contains a quote closes the literal,
  the text sent is the complete query for what precedes the quote, and the rest of the url follows
  it as further SQL.  The search query escapes its keyword and cannot be closed this way.\<close>

theorem findUrl_injection:
  "exists_url_sql (u @ quote @ '');'' @ v) = exists_url_sql u @ v @ quote @ '');'' \<and>
   (\<forall>k k'. select_sql (escape k) = select_sql (escape k') \<longrightarrow> k = k')"
proof (intro conjI allI impI)
  show "exists_url_sql (u @ quote @ '');'' @ v) = exists_url_sql u @ v @ quote @ '');''"
    by (simp add: exists_url_sql_def)
  fix k k' assume "select_sql (escape k) = select_sql (escape k')"
  then have "unescape (escape k) = unescape (escape k')" by (simp add: select_sql_def)
  then show "k = k'" by (simp only: unescape_escape)
qed

text \<open>The two ways to run a statement differ on a closed transaction: after a commit \<open>exec\<close> refuses
  with \<open>usage_error\<close> and the server sees nothing, while \<open>exec_params\<close> still sends its statement, so
  everything \<open>addLink\<close> does after its first commit runs outside any transaction; a second \<open>commit\<close>
  reports success.\<close>

theorem exec_after_commit:
  "tx_exec L q (committed_scope s c ns) =
     (Inl (Pqxx_usage_error ''Could not execute command : transaction is already closed.''), committed_scope s c ns) \<and>
   srv (snd (tx_exec_params L q args (committed_scope s c ns))) =
     srv (snd (conn_exec_params L q args ((committed_scope s c ns)\<lparr>tx := (tx (committed_scope s c ns))\<lparr>m_focus := Some (command_guest q)\<rparr>\<rparr>))) \<and>
   tx_commit L (committed_scope s c ns) = (Inr (), committed_scope s c (ns @ [twice_notice]))"
proof (intro conjI)
  show "tx_exec L q (committed_scope s c ns) =
     (Inl (Pqxx_usage_error ''Could not execute command : transaction is already closed.''), committed_scope s c ns)"
    by (simp add: tx_defs act_apply scope_defs)
  show "tx_commit L (committed_scope s c ns) = (Inr (), committed_scope s c (ns @ [twice_notice]))"
    by (simp add: tx_commit_def check_pending_error_def act_apply scope_defs process_notice_def tx_description_def
      describe_object_def twice_notice_def)
  have u: "srv (unregister_focus f w) = srv w" for f and w :: "'a scope"
    by (simp add: unregister_focus_def process_notice_def split: sum.split)
  show "srv (snd (tx_exec_params L q args (committed_scope s c ns))) =
     srv (snd (conn_exec_params L q args ((committed_scope s c ns)\<lparr>tx := (tx (committed_scope s c ns))\<lparr>m_focus := Some (command_guest q)\<rparr>\<rparr>)))"
    by (simp add: tx_exec_params_def with_command_def register_focus_def check_unique_register_def act_apply u
        scope_defs split: prod.split)
qed

end
