(* ===== verification/HTTP_Client.thy ===== *)
theory HTTP_Client
  imports Utils
begin

text \<open>
  \<open>Include/HTTP_HTTPs_Client.h\<close>: downloading a page.  Boost.Beast, Boost.Asio and OpenSSL are the
  record \<open>net\<close> of operations over a network state \<open>'n\<close>, each of which may throw.  The local variables
  that survive the \<open>try\<close> block are part of the state of the block, so what was assigned before an
  exception is still there after it.
\<close>

section \<open>The network\<close>

record request =
  r_tls :: bool
  r_host :: string
  r_target :: string

record response =
  result_int :: nat
  headers :: "(string \<times> string) list"
  body :: "string list"

datatype ec = Ec_ok | Ec_eof | Ec_not_connected | Ec_other string

record 'n net =
  ssl_open :: "('n, unit) act"
  set_tlsext_host_name :: "string \<Rightarrow> ('n, bool) act"
  resolve_connect :: "string \<Rightarrow> string \<Rightarrow> ('n, unit) act"
  handshake :: "('n, unit) act"
  http_write :: "request \<Rightarrow> ('n, unit) act"
  http_read :: "('n, response) act"
  ssl_shutdown :: "('n, ec) act"
  tcp_shutdown :: "('n, ec) act"

text \<open>A response body is a sequence of buffers.\<close>

definition isText :: "string list \<Rightarrow> bool" where
  "isText b = list_all (\<lambda>buf. list_all (\<lambda>c. c \<noteq> CHR 0x00) buf) b"

definition buffers_to_string :: "string list \<Rightarrow> string" where
  "buffers_to_string = concat"

section \<open>One request\<close>

text \<open>The locals: \<open>result\<close>, and \<open>Redirect_URL\<close> with the \<open>redirectLink\<close> made of it.\<close>

record locals =
  result :: string
  redirect :: "(string \<times> Link) option"

definition on_net :: "('n, 'a) act \<Rightarrow> ('n \<times> locals, 'a) act" where
  "on_net m w = (case m (fst w) of (r, n) \<Rightarrow> (r, (n, snd w)))"

definition read_body :: "response \<Rightarrow> ('n \<times> locals, unit) act" where
  "read_body res = (\<lambda>(n, l).
     retA () (n, if isText (body res) then l\<lparr>result := buffers_to_string (body res)\<rparr> else l))"

definition open_https :: "'n net \<Rightarrow> Link \<Rightarrow> ('n, response) act" where
  "open_https N page =
     bindA (ssl_open N) (\<lambda>_.
     bindA (set_tlsext_host_name N (host page)) (\<lambda>ok.
     if \<not> ok then throwA (System_error ''SSL_set_tlsext_host_name'')
     else bindA (resolve_connect N (host page) ''https'') (\<lambda>_.
     bindA (handshake N) (\<lambda>_.
     bindA (http_write N \<lparr>r_tls = True, r_host = host page, r_target = query page\<rparr>) (\<lambda>_. http_read N)))))"

definition open_http :: "'n net \<Rightarrow> Link \<Rightarrow> ('n, response) act" where
  "open_http N page =
     bindA (resolve_connect N (host page) ''http'') (\<lambda>_.
     bindA (http_write N \<lparr>r_tls = False, r_host = host page, r_target = query page\<rparr>) (\<lambda>_. http_read N))"

text \<open>An error of the TLS shutdown is printed; one of the TCP shutdown throws.\<close>

definition close_stream :: "'n net \<Rightarrow> bool \<Rightarrow> ('n, unit) act" where
  "close_stream N tls =
     (if tls then bindA (ssl_shutdown N) (\<lambda>_. retA ())
      else bindA (tcp_shutdown N) (\<lambda>e.
        if e \<noteq> Ec_ok \<and> e \<noteq> Ec_not_connected then throwA (System_error ''shutdown'') else retA ()))"

text \<open>The response is examined by \<open>look\<close> before its body is taken: the redirect test, or nothing.\<close>

definition reply :: "'n net \<Rightarrow> Link \<Rightarrow> ('n, response) act" where
  "reply N page = (if protocol page = HTTPS then open_https N page else open_http N page)"

definition fetch :: "'n net \<Rightarrow> (response \<Rightarrow> ('n \<times> locals, unit) act) \<Rightarrow> Link \<Rightarrow> ('n \<times> locals, unit) act" where
  "fetch N look page =
     bindA (on_net (reply N page)) (\<lambda>res.
     bindA (look res) (\<lambda>_.
     bindA (read_body res) (\<lambda>_.
     on_net (close_stream N (protocol page = HTTPS)))))"

definition catch_std :: "('w, unit) act \<Rightarrow> ('w, unit) act" where
  "catch_std m = catchA m (\<lambda>e. if is_std_exception e then retA () else throwA e)"

definition no_locals :: locals where
  "no_locals = \<lparr>result = [], redirect = None\<rparr>"

definition getContent_Redirect :: "'n net \<Rightarrow> Link \<Rightarrow> ('n, string) act" where
  "getContent_Redirect N page = (\<lambda>n.
     case catch_std (fetch N (\<lambda>_. retA ()) page) (n, no_locals) of
       (Inl e, (n, _)) \<Rightarrow> (Inl e, n)
     | (Inr _, (n, l)) \<Rightarrow> (Inr (result l), n))"

text \<open>The first header named exactly \<open>location\<close>.\<close>

definition look_redirect :: "Link \<Rightarrow> response \<Rightarrow> ('n \<times> locals, unit) act" where
  "look_redirect page res = (\<lambda>(n, l).
     if result_int res = 301 \<or> result_int res = 307 then
       (case find (\<lambda>h. fst h = ''location'') (headers res) of
          None \<Rightarrow> retA () (n, l)
        | Some h \<Rightarrow>
            (case UrlToLink (snd h) page of
               Inl e \<Rightarrow> throwA e (n, l)
             | Inr lnk \<Rightarrow> retA () (n, l\<lparr>redirect := Some (snd h, lnk)\<rparr>)))
     else retA () (n, l))"

definition getContent :: "'n net \<Rightarrow> Link \<Rightarrow> ('n, string) act" where
  "getContent N page = (\<lambda>n.
     case catch_std (fetch N (look_redirect page) page) (n, no_locals) of
       (Inl e, (n, _)) \<Rightarrow> (Inl e, n)
     | (Inr _, (n, l)) \<Rightarrow>
         (case redirect l of
            Some (_, lnk) \<Rightarrow> if host lnk \<noteq> [] then getContent_Redirect N lnk n else (Inr (result l), n)
          | None \<Rightarrow> (Inr (result l), n)))"

section \<open>What a download returns\<close>

text \<open>\<open>throws_std m\<close>: every exception of \<open>m\<close> is a \<open>std::exception\<close>.\<close>

definition throws_std :: "('w, 'a) act \<Rightarrow> bool" where
  "throws_std m \<longleftrightarrow> (\<forall>w e w'. m w = (Inl e, w') \<longrightarrow> is_std_exception e)"

text \<open>A network whose operations only throw \<open>std::exception\<close>s, as Boost's do.\<close>

definition net_std :: "'n net \<Rightarrow> bool" where
  "net_std N \<longleftrightarrow>
     throws_std (ssl_open N) \<and> (\<forall>h. throws_std (set_tlsext_host_name N h)) \<and>
     (\<forall>h s. throws_std (resolve_connect N h s)) \<and> throws_std (handshake N) \<and>
     (\<forall>r. throws_std (http_write N r)) \<and> throws_std (http_read N) \<and>
     throws_std (ssl_shutdown N) \<and> throws_std (tcp_shutdown N)"

named_theorems std_intros "which computations only throw std exceptions"

lemma throws_std_bindA [std_intros]: "throws_std m \<Longrightarrow> (\<And>x. throws_std (f x)) \<Longrightarrow> throws_std (bindA m f)"
  unfolding throws_std_def bindA_def
  by (fastforce split: prod.splits sum.splits)

lemma throws_std_retA [std_intros]: "throws_std (retA x)"
  by (simp add: throws_std_def retA_def)

lemma throws_std_throwA [std_intros]: "is_std_exception e \<Longrightarrow> throws_std (throwA e)"
  by (simp add: throws_std_def throwA_def)

lemma throws_std_on_net [std_intros]: "throws_std m \<Longrightarrow> throws_std (on_net m)"
  by (fastforce simp: throws_std_def on_net_def split: prod.splits)

lemma throws_std_if [std_intros]: "throws_std m \<Longrightarrow> throws_std m' \<Longrightarrow> throws_std (if b then m else m')"
  by simp

lemma throws_std_net:
  assumes "net_std N"
  shows "throws_std (ssl_open N)" "throws_std (set_tlsext_host_name N h)" "throws_std (resolve_connect N h s)"
    "throws_std (handshake N)" "throws_std (http_write N r)" "throws_std (http_read N)"
    "throws_std (ssl_shutdown N)" "throws_std (tcp_shutdown N)"
  using assms by (simp_all add: net_std_def)

lemma throws_std_read_body [std_intros]: "throws_std (read_body res)"
  by (simp add: throws_std_def read_body_def retA_def split_beta)

lemma throws_std_look [std_intros]: "throws_std (look_redirect page res)"
  by (simp add: throws_std_def look_redirect_def retA_def split_beta UrlToLink_eq Let_def split: option.split)

lemma throws_std_fetch:
  assumes "net_std N" "\<And>res. throws_std (look res)"
  shows "throws_std (fetch N look page)"
  unfolding fetch_def reply_def open_https_def open_http_def close_stream_def
  by (intro std_intros throws_std_net [OF assms(1)] assms(2); simp)

lemma catch_std_Inr: "throws_std m \<Longrightarrow> \<exists>w'. catch_std m w = (Inr (), w')"
  unfolding catch_std_def catchA_def throws_std_def retA_def
  by (cases "m w"; cases "fst (m w)") auto

text \<open>The text of a body is taken whole or not at all.\<close>

definition clean :: "'n \<times> locals \<Rightarrow> bool" where
  "clean w \<longleftrightarrow> CHR 0x00 \<notin> set (result (snd w))"

definition keeps_clean :: "('n \<times> locals, 'a) act \<Rightarrow> bool" where
  "keeps_clean m \<longleftrightarrow> (\<forall>w. clean w \<longrightarrow> clean (snd (m w)))"

lemma keeps_clean_bindA:
  assumes "keeps_clean m" "\<And>x. keeps_clean (f x)"
  shows "keeps_clean (bindA m f)"
  unfolding keeps_clean_def
proof (intro allI impI)
  fix w :: "'a \<times> locals" assume "clean w"
  with assms(1) have "clean (snd (m w))" unfolding keeps_clean_def by blast
  moreover have "\<forall>x w. clean w \<longrightarrow> clean (snd (f x w))" using assms(2) unfolding keeps_clean_def by blast
  ultimately show "clean (snd (bindA m f w))"
    by (cases rule: bindA_cases [of m w f]) (simp_all del: split_paired_All)
qed

lemma keeps_clean_on_net: "keeps_clean (on_net m)"
  by (simp add: keeps_clean_def on_net_def clean_def split: prod.split)

lemma keeps_clean_read_body: "keeps_clean (read_body res)"
  by (auto simp: keeps_clean_def read_body_def clean_def retA_def isText_def buffers_to_string_def list_all_iff split_beta)

lemma keeps_clean_look: "keeps_clean (look_redirect page res)"
  by (auto simp: keeps_clean_def look_redirect_def clean_def retA_def throwA_def split_beta split: option.split sum.split)

lemma keeps_clean_retA: "keeps_clean (retA x)"
  by (simp add: keeps_clean_def retA_def)

lemma keeps_clean_fetch: "(\<And>res. keeps_clean (look res)) \<Longrightarrow> keeps_clean (fetch N look page)"
  unfolding fetch_def
  by (intro keeps_clean_bindA keeps_clean_on_net keeps_clean_read_body)

lemma keeps_clean_catch: "keeps_clean m \<Longrightarrow> keeps_clean (catch_std m)"
  unfolding keeps_clean_def
proof (intro allI impI)
  fix w :: "'a \<times> locals"
  assume m: "\<forall>w. clean w \<longrightarrow> clean (snd (m w))" "clean w"
  obtain r w' where "m w = (r, w')" by (cases "m w")
  with m have "clean w'" by (metis snd_conv)
  with \<open>m w = (r, w')\<close> show "clean (snd (catch_std m w))"
    by (cases r) (auto simp: catch_std_def catchA_def retA_def throwA_def)
qed

lemma getContent_Redirect_clean:
  assumes "getContent_Redirect N page n = (Inr s, n')"
  shows "CHR 0x00 \<notin> set s"
proof -
  have "keeps_clean (catch_std (fetch N (\<lambda>_. retA ()) page))"
    by (intro keeps_clean_catch keeps_clean_fetch keeps_clean_retA)
  moreover have "clean (n, no_locals)" by (simp add: clean_def no_locals_def)
  ultimately have "clean (snd (catch_std (fetch N (\<lambda>_. retA ()) page) (n, no_locals)))"
    unfolding keeps_clean_def by blast
  with assms show ?thesis
    by (auto simp: getContent_Redirect_def clean_def split: prod.splits sum.splits)
qed

lemma getContent_clean:
  assumes "getContent N page n = (Inr s, n')"
  shows "CHR 0x00 \<notin> set s"
proof -
  have "keeps_clean (catch_std (fetch N (look_redirect page) page))"
    by (intro keeps_clean_catch keeps_clean_fetch keeps_clean_look)
  moreover have "clean (n, no_locals)" by (simp add: clean_def no_locals_def)
  ultimately have "clean (snd (catch_std (fetch N (look_redirect page) page) (n, no_locals)))"
    unfolding keeps_clean_def by blast
  with assms show ?thesis
    by (auto simp: getContent_def clean_def split: prod.splits sum.splits option.splits if_splits
        dest: getContent_Redirect_clean)
qed

lemma getContent_Redirect_Inr: "net_std N \<Longrightarrow> \<exists>s n'. getContent_Redirect N page n = (Inr s, n')"
  using catch_std_Inr [OF throws_std_fetch [of N "\<lambda>_. retA ()" page], of "(n, no_locals)"] throws_std_retA
  by (fastforce simp: getContent_Redirect_def)

lemma getContent_Inr: "net_std N \<Longrightarrow> \<exists>s n'. getContent N page n = (Inr s, n')"
  using catch_std_Inr [OF throws_std_fetch [of N "look_redirect page" page], of "(n, no_locals)"]
    getContent_Redirect_Inr [of N] throws_std_look
  by (fastforce simp: getContent_def split: option.split)

section \<open>What was read decides, not how the connection ends\<close>

text \<open>
  Once a response has arrived, the text of its body is in \<open>result\<close> and the redirect is noted; an
  error while closing is caught and changes neither.
\<close>

definition text_of :: "response \<Rightarrow> string" where
  "text_of res = (if isText (body res) then concat (body res) else [])"

definition is_redirect :: "response \<Rightarrow> bool" where
  "is_redirect res \<longleftrightarrow> result_int res = 301 \<or> result_int res = 307"

definition location :: "response \<Rightarrow> string option" where
  "location res = map_option snd (find (\<lambda>h. fst h = ''location'') (headers res))"

lemma catch_close:
  assumes "net_std N"
  shows "catch_std (on_net (close_stream N tls)) (n, l) = (Inr (), (snd (close_stream N tls n), l))"
proof -
  have "throws_std (on_net (close_stream N tls))"
    unfolding close_stream_def by (intro std_intros throws_std_net [OF assms]; simp)
  from catch_std_Inr [OF this, of "(n, l)"] obtain w' where w: "catch_std (on_net (close_stream N tls)) (n, l) = (Inr (), w')"
    by blast
  then have "w' = (snd (close_stream N tls n), l)"
    by (auto simp: catch_std_def catchA_def on_net_def retA_def throwA_def split: prod.splits sum.splits if_splits)
  with w show ?thesis by simp
qed

lemma catch_std_bindA: "m w = (Inr x, w') \<Longrightarrow> catch_std (bindA m f) w = catch_std (f x) w'"
  by (simp add: catch_std_def catchA_def bindA_def)

lemma catch_fetch:
  assumes "net_std N" "reply N page n = (Inr res, n1)" "look res (n1, no_locals) = (Inr (), (n1, l))"
    and "result l = []"
  shows "catch_std (fetch N look page) (n, no_locals) =
    (Inr (), (snd (close_stream N (protocol page = HTTPS) n1), l\<lparr>result := text_of res\<rparr>))"
proof -
  have r: "on_net (reply N page) (n, no_locals) = (Inr res, (n1, no_locals))"
    by (simp add: on_net_def assms(2))
  have b: "read_body res (n1, l) = (Inr (), (n1, l\<lparr>result := text_of res\<rparr>))"
    using assms(4) by (simp add: read_body_def text_of_def buffers_to_string_def retA_def)
  show ?thesis
    unfolding fetch_def
    by (simp only: catch_std_bindA [of "on_net _", OF r] catch_std_bindA [of "look res", OF assms(3)]
        catch_std_bindA [of "read_body res", OF b]) (rule catch_close [OF assms(1)])
qed

lemma getContent_Redirect_reply:
  assumes "net_std N" "reply N page n = (Inr res, n1)"
  shows "\<exists>n'. getContent_Redirect N page n = (Inr (text_of res), n')"
  using catch_fetch [OF assms, of "\<lambda>_. retA ()" no_locals]
  by (simp add: getContent_Redirect_def retA_def no_locals_def)

lemma catch_fetch_stop:
  assumes "net_std N" "reply N page n = (Inl e, n1)"
  shows "catch_std (fetch N look page) (n, no_locals) = (Inr (), (n1, no_locals))"
proof -
  have "throws_std (reply N page)"
    unfolding reply_def open_https_def open_http_def by (intro std_intros throws_std_net [OF assms(1)]; simp)
  with assms(2) have "is_std_exception e" by (auto simp: throws_std_def)
  then show ?thesis by (simp add: catch_std_def catchA_def fetch_def bindA_def on_net_def assms(2) retA_def)
qed

lemma look_redirect_note:
  assumes "is_redirect res" "location res = Some loc" "UrlToLink loc page = Inr lnk"
  shows "look_redirect page res (n, l) = (Inr (), (n, l\<lparr>redirect := Some (loc, lnk)\<rparr>))"
  using assms by (auto simp: look_redirect_def is_redirect_def location_def retA_def)

lemma look_redirect_none:
  assumes "\<not> is_redirect res \<or> location res = None"
  shows "look_redirect page res w = (Inr (), w)"
  using assms by (cases w) (auto simp: look_redirect_def is_redirect_def location_def retA_def)

text \<open>
  A page that cannot be had is an empty page: whatever the network does, \<open>getContent\<close> returns, it
  throws nothing, and the text it returns contains no NUL byte.
\<close>

theorem getContent_total:
  assumes "net_std N"
  shows "\<exists>s n'. getContent N page n = (Inr s, n') \<and> CHR 0x00 \<notin> set s"
  using getContent_Inr [OF assms, of page n] getContent_clean [of N page n] by metis

text \<open>
  Without a redirect the caller gets the body of the response, whole if it has no NUL byte and
  empty if it has one, however the connection is closed; and if no response arrives, nothing.
\<close>

theorem getContent_plain:
  assumes "net_std N"
  shows "(reply N page n = (Inr res, n1) \<and> (\<not> is_redirect res \<or> location res = None) \<longrightarrow>
           fst (getContent N page n) = Inr (text_of res)) \<and>
         (reply N page n = (Inl e, n1) \<longrightarrow> getContent N page n = (Inr [], n1))"
proof (intro conjI impI, elim conjE)
  assume r: "reply N page n = (Inr res, n1)" and "\<not> is_redirect res \<or> location res = None"
  then have "look_redirect page res (n1, no_locals) = (Inr (), (n1, no_locals))"
    by (intro look_redirect_none)
  from catch_fetch [of N page n res n1 "look_redirect page", OF assms r this]
  show "fst (getContent N page n) = Inr (text_of res)"
    by (simp add: getContent_def no_locals_def)
next
  assume "reply N page n = (Inl e, n1)"
  then show "getContent N page n = (Inr [], n1)"
    using catch_fetch_stop [OF assms] by (simp add: getContent_def no_locals_def)
qed

text \<open>
  C35. A 301 or 307 response with a header named \<open>location\<close> is followed, once: the caller gets the
  body of the page the header names, resolved against the page that was asked for, and whatever
  that second response is, a redirect too, its body is the result.
\<close>

theorem getContent_follows:
  assumes "net_std N" "reply N page n = (Inr res, n1)" "is_redirect res" "location res = Some loc"
    and "UrlToLink loc page = Inr lnk" "host lnk \<noteq> []"
    and "n2 = snd (close_stream N (protocol page = HTTPS) n1)"
  shows "(reply N lnk n2 = (Inr res', n3) \<longrightarrow> fst (getContent N page n) = Inr (text_of res')) \<and>
         (reply N lnk n2 = (Inl e, n3) \<longrightarrow> getContent N page n = (Inr [], n3))"
proof -
  have g: "getContent N page n = getContent_Redirect N lnk n2"
    using catch_fetch [of N page n res n1 "look_redirect page", OF assms(1,2) look_redirect_note [OF assms(3-5)]] assms(6,7)
    by (simp add: getContent_def no_locals_def)
  show ?thesis
  proof (intro conjI impI)
    assume "reply N lnk n2 = (Inr res', n3)"
    from getContent_Redirect_reply [OF assms(1) this] g show "fst (getContent N page n) = Inr (text_of res')" by auto
  next
    assume "reply N lnk n2 = (Inl e, n3)"
    from catch_fetch_stop [OF assms(1) this] g show "getContent N page n = (Inr [], n3)"
      by (simp add: getContent_Redirect_def no_locals_def)
  qed
qed

section \<open>How many pages one download reads\<close>

text \<open>\<open>adds c k m\<close>: the computation increases the measure \<open>c\<close> of the outside by at most \<open>k\<close>.\<close>

definition adds :: "('w \<Rightarrow> nat) \<Rightarrow> nat \<Rightarrow> ('w, 'a) act \<Rightarrow> bool" where
  "adds c k m \<longleftrightarrow> (\<forall>w. c (snd (m w)) \<le> c w + k)"

lemma addsD: "adds c k m \<Longrightarrow> m w = (r, w') \<Longrightarrow> c w' \<le> c w + k"
  by (metis adds_def snd_conv)

lemma adds_bindA:
  assumes "adds c j m" "\<And>x. adds c k (f x)"
  shows "adds c (j + k) (bindA m f)"
  unfolding adds_def
proof
  fix w
  show "c (snd (bindA m f w)) \<le> c w + (j + k)"
  proof (cases rule: bindA_cases [of m w f])
    case (err e w')
    with addsD [OF assms(1), of w] show ?thesis by force
  next
    case (ok x w')
    with addsD [OF assms(1), of w] have "c w' \<le> c w + j" by blast
    moreover have "c (snd (f x w')) \<le> c w' + k" using assms(2) [of x] by (simp add: adds_def)
    ultimately show ?thesis using ok by simp
  qed
qed

lemmas adds_seq = adds_bindA [where j = 0, simplified]

lemma adds_retA: "adds c 0 (retA x)"
  by (simp add: adds_def retA_def)

lemma adds_throwA: "adds c k (throwA e)"
  by (simp add: adds_def throwA_def)

lemma adds_if: "adds c k m \<Longrightarrow> adds c k m' \<Longrightarrow> adds c k (if b then m else m')"
  by simp

text \<open>Every operation of the network leaves the measure alone, except reading a response, which adds one.\<close>

definition reads_measured :: "('n \<Rightarrow> nat) \<Rightarrow> 'n net \<Rightarrow> bool" where
  "reads_measured c N \<longleftrightarrow>
     adds c 0 (ssl_open N) \<and> (\<forall>h. adds c 0 (set_tlsext_host_name N h)) \<and>
     (\<forall>h s. adds c 0 (resolve_connect N h s)) \<and> adds c 0 (handshake N) \<and>
     (\<forall>r. adds c 0 (http_write N r)) \<and> adds c 1 (http_read N) \<and>
     adds c 0 (ssl_shutdown N) \<and> adds c 0 (tcp_shutdown N)"

lemma adds_reply:
  assumes "reads_measured c N"
  shows "adds c 1 (reply N page)"
  unfolding reply_def open_https_def open_http_def
  by (intro adds_if adds_seq adds_throwA) (use assms in \<open>simp_all add: reads_measured_def\<close>)

lemma adds_close:
  assumes "reads_measured c N"
  shows "adds c 0 (close_stream N tls)"
  unfolding close_stream_def
  by (intro adds_if adds_seq adds_throwA adds_retA) (use assms in \<open>simp_all add: reads_measured_def\<close>)

lemma adds_on_net: "adds c k m \<Longrightarrow> adds (\<lambda>w. c (fst w)) k (on_net m)"
  by (auto simp: adds_def on_net_def split: prod.split) (metis snd_conv)

lemma adds_local: "(\<And>w. fst (snd (m w)) = fst w) \<Longrightarrow> adds (\<lambda>w. c (fst w)) 0 m"
  by (simp add: adds_def)

lemma adds_fetch:
  assumes "reads_measured c N" "\<And>res w. fst (snd (look res w)) = fst w"
  shows "adds (\<lambda>w. c (fst w)) 1 (fetch N look page)"
proof -
  have "adds (\<lambda>w. c (fst w)) 0 (bindA (look res) (\<lambda>_. bindA (read_body res) (\<lambda>_.
      on_net (close_stream N (protocol page = HTTPS)))))" for res
    by (intro adds_seq adds_local adds_on_net adds_close assms)
      (simp_all add: read_body_def retA_def split_beta assms(2))
  from adds_bindA [OF adds_on_net [OF adds_reply [OF assms(1)]], OF this]
  show ?thesis by (simp add: fetch_def)
qed

lemma adds_catch_std:
  assumes "adds c k m"
  shows "adds c k (catch_std m)"
  unfolding adds_def
proof
  fix w
  obtain r w' where m: "m w = (r, w')" by (cases "m w")
  with addsD [OF assms] have "c w' \<le> c w + k" .
  with m show "c (snd (catch_std m w)) \<le> c w + k"
    by (cases r) (simp_all add: catch_std_def catchA_def retA_def throwA_def)
qed

lemma fst_look_redirect: "fst (snd (look_redirect page res w)) = fst w"
  by (auto simp: look_redirect_def retA_def throwA_def split_beta split: option.split sum.split)

lemma getContent_Redirect_reads:
  assumes "reads_measured c N"
  shows "c (snd (getContent_Redirect N page n)) \<le> c n + 1"
proof -
  obtain r n1 l where w: "catch_std (fetch N (\<lambda>_. retA ()) page) (n, no_locals) = (r, (n1, l))"
    by (metis prod_cases3)
  have "adds (\<lambda>w. c (fst w)) 1 (fetch N (\<lambda>_. retA ()) page)"
    by (intro adds_fetch assms) (simp add: retA_def)
  from addsD [OF adds_catch_std [OF this] w] show ?thesis
    by (simp add: getContent_Redirect_def w split: sum.split)
qed

text \<open>
  A download reads at most two responses: a redirect that leads to another redirect, or back to
  itself, is not followed further, so a loop of redirects cannot hold a worker.
\<close>

theorem getContent_reads_two:
  assumes "reads_measured c N"
  shows "c (snd (getContent N page n)) \<le> c n + 2"
proof -
  obtain r n1 l where w: "catch_std (fetch N (look_redirect page) page) (n, no_locals) = (r, (n1, l))"
    by (metis prod_cases3)
  from addsD [OF adds_catch_std [OF adds_fetch [OF assms fst_look_redirect]] w] have "c n1 \<le> c n + 1" by simp
  then have "c (snd (getContent_Redirect N lnk n1)) \<le> c n + 2" for lnk
    using getContent_Redirect_reads [OF assms, of lnk n1] by linarith
  with \<open>c n1 \<le> c n + 1\<close> show ?thesis
    by (simp add: getContent_def w split: sum.split option.split)
qed

section \<open>A network to try it on\<close>

text \<open>The replies are scripted: each read takes the next one, and after the last the peer is gone.\<close>

definition scripted :: "response list net" where
  "scripted = \<lparr>ssl_open = retA (), set_tlsext_host_name = (\<lambda>_. retA True),
     resolve_connect = (\<lambda>_ _. retA ()), handshake = retA (), http_write = (\<lambda>_. retA ()),
     http_read = (\<lambda>n. case n of [] \<Rightarrow> (Inl (System_error ''end of stream''), []) | r # rs \<Rightarrow> (Inr r, rs)),
     ssl_shutdown = retA Ec_eof, tcp_shutdown = retA (Ec_other ''reset'')\<rparr>"

lemma scripted_std: "net_std scripted"
  by (auto simp: net_std_def throws_std_def scripted_def retA_def split: list.splits)

definition wiki :: Link where
  "wiki = \<lparr>protocol = HTTPS, host = ''wiki.org'', query = ''/index''\<rparr>"

definition moved :: "string \<Rightarrow> response" where
  "moved h = \<lparr>result_int = 301, headers = [(''server'', ''nginx''), (h, ''/main'')], body = [''moved'']\<rparr>"

definition page_ok :: response where
  "page_ok = \<lparr>result_int = 200, headers = [], body = [''<html>'', ''</html>'']\<rparr>"

lemma getContent_total_witness:
  "\<exists>s n'. getContent scripted wiki [moved ''location''] = (Inr s, n') \<and> CHR 0x00 \<notin> set s"
  by (rule getContent_total [OF scripted_std])

lemma reply_scripted: "reply scripted page (r # rs) = (Inr r, rs)" "reply scripted page [] = (Inl (System_error ''end of stream''), [])"
  by (simp_all add: reply_def open_https_def open_http_def bindA_def scripted_def retA_def)

lemma getContent_plain_witness:
  "fst (getContent scripted wiki [moved ''Location'', page_ok]) = Inr ''moved'' \<and>
   getContent scripted wiki [] = (Inr [], [])"
  using getContent_plain [OF scripted_std, of wiki "[moved ''Location'', page_ok]" "moved ''Location''" "[page_ok]"]
    getContent_plain [OF scripted_std, of wiki "[]" page_ok "[]" "System_error ''end of stream''"]
  by (simp add: reply_scripted moved_def location_def text_of_def isText_def)

lemma getContent_follows_witness:
  "fst (getContent scripted wiki [moved ''location'', page_ok]) = Inr ''<html></html>'' \<and>
   fst (getContent scripted wiki [moved ''location'', moved ''location'', page_ok]) = Inr ''moved''"
proof -
  have l: "UrlToLink ''/main'' wiki = Inr \<lparr>protocol = HTTPS, host = ''wiki.org'', query = ''/main''\<rparr>"
    by code_simp
  have n: "snd (close_stream scripted (protocol wiki = HTTPS) n) = n" for n
    by (simp add: close_stream_def scripted_def wiki_def bindA_def retA_def)
  note f = getContent_follows [OF scripted_std reply_scripted(1), of "moved ''location''", OF _ _ l _ n [symmetric]]
  from f [of "[page_ok]" page_ok "[]"] f [of "[moved ''location'', page_ok]" "moved ''location''" "[page_ok]"]
  show ?thesis
    by (simp add: is_redirect_def reply_scripted moved_def location_def text_of_def isText_def page_ok_def)
qed

text \<open>The measure is the number of responses taken from the script.\<close>

lemma getContent_reads_two_witness:
  "5 - length (snd (getContent scripted wiki (replicate 5 (moved ''location'')))) \<le> 2"
proof -
  have "reads_measured (\<lambda>n. 5 - length n) scripted"
    by (auto simp: reads_measured_def adds_def scripted_def retA_def split: list.split)
  from getContent_reads_two [OF this, of wiki "replicate 5 (moved ''location'')"] show ?thesis by simp
qed

end
