(* ===== verification/HTTP_Server.thy ===== *)
theory HTTP_Server
  imports DB_Client Utils
begin

text \<open>
  \<open>Include/HTTP_Server.h\<close>: one HTTP request on one connection.  The first part is what a request is
  answered with (\<open>processRequest\<close> and the functions it calls, the database behind \<open>db_\<close> being
  \<open>getUrl\<close> of \<open>DB_Client\<close>).  The second part is the life of the connection: the asynchronous read, the
  asynchronous write and the deadline timer are handlers that the single thread of \<open>ioc.run()\<close>
  calls one after the other, in any order the network allows.
\<close>

section \<open>Requests and responses\<close>

datatype verb = Verb_get | Verb_post | Verb_other string

datatype status = Status_ok | Status_bad_request | Status_not_found

record http_request =
  q_method :: verb
  q_target :: string
  q_version :: nat
  q_body :: "string list"

record http_response =
  s_version :: nat
  s_keep_alive :: bool
  s_status :: status
  s_server :: "string option"
  s_content_type :: "string option"
  s_body :: string
  s_content_length :: "nat option"

definition method_string :: "verb \<Rightarrow> string" where
  "method_string v = (case v of Verb_get \<Rightarrow> ''GET'' | Verb_post \<Rightarrow> ''POST'' | Verb_other m \<Rightarrow> m)"

definition response_init :: http_response where
  "response_init = \<lparr>s_version = 11, s_keep_alive = True, s_status = Status_ok, s_server = None,
     s_content_type = None, s_body = [], s_content_length = None\<rparr>"

definition out :: "string \<Rightarrow> http_response \<Rightarrow> http_response" where
  "out txt r = r\<lparr>s_body := s_body r @ txt\<rparr>"

section \<open>The pages\<close>

definition lns :: "string list \<Rightarrow> string" where
  "lns ls = concat (map (\<lambda>l. l @ [newline]) ls)"

definition page_start :: string where
  \<open>page_start = lns [''<html>'',
     ''<head><meta charset="UTF-8"><title>WEB Search</title></head>'', ''<body>'', ''<h1>Search</h1>'']\<close>

definition form_page :: string where
  \<open>form_page = page_start @ lns [''<p>Welcome!<p>'', ''<form action="/" method="post">'',
     ''    <label for="search">Search:</label><br>'', ''    <input type="text" id="search" name="search"><br>'',
     ''    <input type="submit" value="Search">'', ''</form>'', ''</body>'', ''</html>'']\<close>

definition not_found_text :: string where
  "not_found_text = ''File not found'' @ [CHR 0x0D, newline]"

definition set_html :: "http_response \<Rightarrow> http_response" where
  "set_html r = r\<lparr>s_content_type := Some ''text/html''\<rparr>"

definition file_not_found :: "http_response \<Rightarrow> http_response" where
  "file_not_found r = out not_found_text (r\<lparr>s_status := Status_not_found, s_content_type := Some ''text/plain''\<rparr>)"

definition print_not_found :: "http_response \<Rightarrow> http_response" where
  "print_not_found r = out (page_start @ lns [''<p>Response:<p>'', ''<ul>''] @
     ''<p><b> No matches found </b></p>'' @ lns [''</ul>'', ''</body>'', ''</html>'']) (set_html r)"

definition print_bad_request :: "http_response \<Rightarrow> http_response" where
  "print_bad_request r = out (page_start @ lns [''<p>Response:<p>'', ''<ul>''] @
     ''<p><b> Bad request </b></p>'' @ ''<p> The request must consist of English words longer than 3 characters </p>'' @
     lns [''</ul>'', ''</body>'', ''</html>'']) (set_html r)"

definition result_item :: "string \<Rightarrow> string" where
  \<open>result_item u = ''<li><a href="'' @ u @ ''">'' @ u @ lns [''</a></li>'']\<close>

definition print_result_list :: "string list \<Rightarrow> http_response \<Rightarrow> http_response" where
  "print_result_list searchResult r =
     out (lns [''</ul>'', ''</body>'', ''</html>''])
       (fold (\<lambda>u. out (result_item u)) searchResult
          (out (page_start @ lns [''<p>Response:<p>'', ''<ul>'']) (set_html r)))"

text \<open>One row of the result table, and the loop that stops after \<open>result_size\<close> rows.\<close>

definition result_row :: "int \<times> string \<Rightarrow> string" where
  \<open>result_row kv = lns [''<tr>''] @ ''<td><a href = "'' @ snd kv @ ''">'' @ snd kv @ lns [''</a></td>''] @
     ''<td>'' @ int_to_string (fst kv) @ lns [''</td>'', ''</tr>'']\<close>

fun print_rows :: "int \<Rightarrow> (int \<times> string) list \<Rightarrow> http_response \<Rightarrow> http_response" where
  "print_rows result_size [] r = r"
| "print_rows result_size (kv # kvs) r =
     (let r = out (result_row kv) r; result_size = result_size - 1 in
      if result_size = 0 then r else print_rows result_size kvs r)"

definition print_result :: "(int \<times> string) list \<Rightarrow> http_response \<Rightarrow> http_response" where
  "print_result searchResult r =
     out (lns [''</table>'', ''</body>'', ''</html>''])
       (print_rows 10 searchResult
          (out (page_start @ lns [''<p>Response:<p>'', ''<table>'']) (set_html r)))"

section \<open>The query\<close>

text \<open>
  \<open>getKeyword\<close>: the \<open>do ... while\<close> loop over the parts between plus signs.  Differences of positions are
  taken modulo the width of \<open>size_t\<close>; \<open>pos_end != npos\<close> is written \<open>pos_end < npos\<close>, the same for a
  \<open>size_t\<close>, which makes the progress of the loop evident.
\<close>

definition keyword_ok :: "string \<Rightarrow> bool" where
  "keyword_ok sub_str \<longleftrightarrow> find_first_not_of sub_str letters = npos \<and> length sub_str > 3"

function getKeyword_loop :: "string \<Rightarrow> size_t \<Rightarrow> string list \<Rightarrow> string list res" where
  "getKeyword_loop val pos_begin found =
     (let pos_end = find_char_from val (CHR ''+'') pos_begin in
      bindR (substr val pos_begin (sz_sub pos_end pos_begin)) (\<lambda>sub_str.
      let found = (if keyword_ok sub_str then add_unique sub_str found else found) in
      if pos_end < npos then getKeyword_loop val (sz_add pos_end 1) found else Inr found))"
  by pat_completeness auto
termination
  by (relation "measure (\<lambda>(val, pos_begin, found). npos - pos_begin)")
    (auto simp: find_char_from_def split: if_splits option.splits)

declare getKeyword_loop.simps [simp del]

definition getKeyword :: "string \<Rightarrow> string list res" where
  "getKeyword str = getKeyword_loop (toLower str) 0 []"

text \<open>
  \<open>db_result[key] += value\<close> for every page of every keyword.  The sum is an \<open>int\<close>: one that does not fit
  is undefined behaviour, the outcome \<open>None\<close>.
\<close>

fun add_hits :: "(string, int) cmap \<Rightarrow> (string, int) cmap \<Rightarrow> (string, int) cmap option" where
  "add_hits [] db_result = Some db_result"
| "add_hits ((k, v) # hits) db_result =
     (let n = (case map_get db_result k of None \<Rightarrow> 0 | Some x \<Rightarrow> x) + v in
      if INT_MIN \<le> n \<and> n \<le> INT_MAX then add_hits hits (map_put k n db_result) else None)"

primrec collect :: "'s libpq \<Rightarrow> DB_Client \<Rightarrow> string list \<Rightarrow> (string, int) cmap \<Rightarrow> ('s, (string, int) cmap option) act" where
  "collect L db [] db_result = retA (Some db_result)"
| "collect L db (s # ss) db_result =
     bindA (getUrl L db s) (\<lambda>hits.
       case add_hits hits db_result of
         None \<Rightarrow> retA None
       | Some db_result \<Rightarrow> collect L db ss db_result)"

definition sort_result :: "(string, int) cmap \<Rightarrow> (int \<times> string) list" where
  "sort_result db_result = fold (\<lambda>(k, v). mm_insert (v, k)) db_result []"

section \<open>Answering a request\<close>

definition createResponseGet :: "http_request \<Rightarrow> http_response \<Rightarrow> http_response" where
  "createResponseGet q r = (if q_target q = ''/'' then out form_page (set_html r) else file_not_found r)"

text \<open>
  The percent-decoded value is computed before the key is looked at and not used afterwards.  Where the decoding reads
  the variable it did not set (\<open>urlDecode\<close>), the behaviour is undefined: the outcome \<open>None\<close>.
\<close>

definition createResponsePost ::
    "'s libpq \<Rightarrow> DB_Client \<Rightarrow> http_request \<Rightarrow> http_response \<Rightarrow> ('s, http_response option) act" where
  "createResponsePost L db q r =
     (if q_target q = ''/'' then
        (let s = concat (q_body q); pos = find_char s (CHR ''='') in
         if pos = npos then retA (Some (file_not_found r))
         else
           bindA (liftR (substr s 0 pos)) (\<lambda>key.
           bindA (liftR (substr s (sz_add pos 1) npos)) (\<lambda>val.
           case convert_to_utf8 val of
             None \<Rightarrow> retA None
           | Some utf8value \<Rightarrow>
               if key \<noteq> ''search'' then retA (Some (file_not_found r))
               else
                 bindA (liftR (getKeyword val)) (\<lambda>kws.
                 if length kws > 0 then
                   bindA (collect L db kws []) (\<lambda>db_result. retA (
                     case db_result of
                       None \<Rightarrow> None
                     | Some db_result \<Rightarrow>
                         Some (if length db_result > 0 then print_result (sort_result db_result) r
                               else print_not_found r)))
                 else retA (Some (print_bad_request r))))))
      else retA (Some (file_not_found r)))"

definition processRequest :: "'s libpq \<Rightarrow> DB_Client \<Rightarrow> http_request \<Rightarrow> ('s, http_response option) act" where
  "processRequest L db q =
     (let r = response_init\<lparr>s_version := q_version q, s_keep_alive := False\<rparr> in
      case q_method q of
        Verb_get \<Rightarrow> retA (Some (createResponseGet q (r\<lparr>s_status := Status_ok, s_server := Some ''Beast''\<rparr>)))
      | Verb_post \<Rightarrow> createResponsePost L db q (r\<lparr>s_status := Status_ok, s_server := Some ''Beast''\<rparr>)
      | Verb_other m \<Rightarrow>
          retA (Some (out (''Invalid request-method '' @ [CHR 0x27] @ method_string (Verb_other m) @ [CHR 0x27])
            (r\<lparr>s_status := Status_bad_request, s_content_type := Some ''text/plain''\<rparr>))))"

text \<open>What \<open>writeResponse\<close> puts on the wire.\<close>

definition with_content_length :: "http_response \<Rightarrow> http_response" where
  "with_content_length r = r\<lparr>s_content_length := Some (length (s_body r))\<rparr>"

section \<open>The keywords of a query\<close>

text \<open>The specification of \<open>getKeyword\<close>: split at the plus signs, keep the words, drop repetitions.\<close>

fun split_at :: "char \<Rightarrow> string \<Rightarrow> string list" where
  "split_at c [] = [[]]"
| "split_at c (x # s) =
     (if x = c then [] # split_at c s
      else (case split_at c s of [] \<Rightarrow> [[x]] | w # ws \<Rightarrow> (x # w) # ws))"

definition is_word :: "string \<Rightarrow> bool" where
  "is_word w \<longleftrightarrow> set w \<subseteq> set letters \<and> length w > 3"

definition query_words :: "string \<Rightarrow> string list" where
  "query_words s = firsts (filter is_word (split_at CHR ''+'' s))"

lemma split_at_none: "c \<notin> set s \<Longrightarrow> split_at c s = [s]"
  by (induction s) auto

lemma split_at_append: "c \<notin> set a \<Longrightarrow> split_at c (a @ c # s) = a # split_at c s"
  by (induction a) auto

lemma keyword_ok_is_word: "fits w \<Longrightarrow> keyword_ok w = is_word w"
  by (simp add: keyword_ok_def is_word_def find_first_not_of_npos)

lemma getKeyword_loop_eq:
  assumes "fits (a @ s)"
  shows "getKeyword_loop (a @ s) (length a) found =
    Inr (fold add_unique (filter is_word (split_at CHR ''+'' s)) found)"
  using assms
proof (induction "length s" arbitrary: a s found rule: less_induct)
  case less
  show ?case
  proof (cases "CHR ''+'' \<in> set s")
    case False
    then have "find_index (\<lambda>x. x = CHR ''+'') s = None" by (auto simp: find_index_None)
    then have f: "find_char_from (a @ s) CHR ''+'' (length a) = npos" by (simp add: find_char_from_def)
    have "length s \<le> npos - length a" using less.prems by (simp add: fits_def)
    then have t: "substr (a @ s) (length a) (sz_sub npos (length a)) = Inr s"
      using less.prems by (simp add: substr_def fits_def)
    have "fits s" using less.prems fits_append by blast
    then show ?thesis
      using False by (simp add: getKeyword_loop.simps [of "a @ s"] f t split_at_none keyword_ok_is_word)
  next
    case True
    then obtain b r where s: "s = b @ CHR ''+'' # r" "CHR ''+'' \<notin> set b"
      by (metis split_list_first)
    have "find_index (\<lambda>x. x = CHR ''+'') s = Some (length b)"
      unfolding s(1) by (rule find_index_append) (use s(2) in auto)
    then have f: "find_char_from (a @ s) CHR ''+'' (length a) = length a + length b" by (simp add: find_char_from_def)
    have l: "length a + length b < npos" using less.prems s by (simp add: fits_def)
    then have t: "substr (a @ s) (length a) (sz_sub (length a + length b) (length a)) = Inr b"
      by (simp add: substr_def s)
    have w: "keyword_ok b = is_word b"
      using less.prems s by (intro keyword_ok_is_word) (simp add: fits_def)
    have "getKeyword_loop (a @ s) (Suc (length a + length b)) acc =
        Inr (fold add_unique (filter is_word (split_at CHR ''+'' r)) acc)" for acc
      using less.hyps [of r "a @ b @ [CHR ''+'']" acc] less.prems s by simp
    then show ?thesis
      using l s(2) by (subst getKeyword_loop.simps, unfold Let_def f, unfold t) (simp add: w split_at_append s(1))
  qed
qed

lemma getKeyword_words: "fits s \<Longrightarrow> getKeyword s = Inr (query_words (toLower s))"
  using getKeyword_loop_eq [of "[]" "toLower s" "[]"]
  by (simp add: getKeyword_def query_words_def fold_add_unique toLower_def fits_def)

section \<open>Ranking\<close>

definition count_of :: "int option \<Rightarrow> int" where
  "count_of q = (case q of None \<Rightarrow> 0 | Some n \<Rightarrow> n)"

text \<open>The abstract answer to a query: the pages with one of the words, and the sum of the counts.\<close>

definition total :: "tables \<Rightarrow> string list \<Rightarrow> string \<Rightarrow> int" where
  "total t ks u = sum_list (map (\<lambda>k. count_of (quantity t k u)) ks)"

definition found_on :: "tables \<Rightarrow> string list \<Rightarrow> string \<Rightarrow> bool" where
  "found_on t ks u \<longleftrightarrow> (\<exists>k \<in> set ks. quantity t k u \<noteq> None)"

text \<open>The order of the result list: by count downwards, then by url.\<close>

definition ranked :: "(int \<times> string) list \<Rightarrow> bool" where
  "ranked rows \<longleftrightarrow> sorted_wrt (\<lambda>a b. fst b < fst a \<or> fst b = fst a \<and> snd a < snd b) rows"

definition is_answer :: "tables \<Rightarrow> string list \<Rightarrow> (int \<times> string) list \<Rightarrow> bool" where
  "is_answer t ks rows \<longleftrightarrow> ranked rows \<and>
     (\<forall>n u. (n, u) \<in> set rows \<longleftrightarrow> found_on t ks u \<and> n = total t ks u)"

lemma ranked_mm_insert:
  assumes "ranked rows" "\<forall>x \<in> set rows. snd x < snd e"
  shows "ranked (mm_insert e rows)"
  using assms unfolding ranked_def
  by (induction e rows rule: mm_insert.induct) auto

lemma ranked_fold:
  assumes "ranked rows" "sorted_wrt (<) (map fst m)" "\<forall>x \<in> set rows. \<forall>k \<in> fst ` set m. snd x < k"
  shows "ranked (fold (\<lambda>(k, v). mm_insert (v, k)) m rows)"
  using assms
proof (induction m arbitrary: rows)
  case (Cons kv m)
  obtain k v where "kv = (k, v)" by fastforce
  with Cons.prems show ?case
    by (auto intro!: Cons.IH ranked_mm_insert) force+
qed simp

lemma set_sort_fold: "set (fold (\<lambda>(k, v). mm_insert (v, k)) m rows) = (\<lambda>(k, v). (v, k)) ` set m \<union> set rows"
  by (induction m arbitrary: rows) (auto simp: image_iff)

lemma sort_result_ranked: "map_ok m \<Longrightarrow> ranked (sort_result m)"
  unfolding sort_result_def by (rule ranked_fold) (auto simp: ranked_def map_ok_def)

lemma sort_result_set: "map_ok m \<Longrightarrow> (n, u) \<in> set (sort_result m) \<longleftrightarrow> map_get m u = Some n"
  by (force simp: sort_result_def set_sort_fold simp flip: map_get_set)

lemma sort_result_Nil: "sort_result m = [] \<longleftrightarrow> m = []"
proof -
  have "set (sort_result m) = {} \<longleftrightarrow> set m = {}"
    unfolding sort_result_def set_sort_fold by simp
  then show ?thesis by simp
qed

lemma add_hits_spec:
  assumes "map_ok hits" "map_ok m"
    and "\<forall>u v. map_get hits u = Some v \<longrightarrow> 0 \<le> count_of (map_get m u) + v \<and> count_of (map_get m u) + v \<le> INT_MAX"
  shows "\<exists>m'. add_hits hits m = Some m' \<and> map_ok m' \<and> (\<forall>u. map_get m' u =
    (case map_get hits u of None \<Rightarrow> map_get m u | Some v \<Rightarrow> Some (count_of (map_get m u) + v)))"
  using assms
proof (induction hits arbitrary: m)
  case (Cons kv hits)
  obtain k v where kv: "kv = (k, v)" by fastforce
  let ?n = "count_of (map_get m k) + v"
  have hd: "\<forall>x \<in> fst ` set hits. k < x" "map_ok hits"
    using Cons.prems(1) by (auto simp: kv map_ok_def)
  then have k: "map_get hits k = None" by (auto simp: map_get_map_of map_of_eq_None_iff)
  have n: "0 \<le> ?n" "?n \<le> INT_MAX" using Cons.prems(3) by (auto simp: kv)
  have "\<forall>u v. map_get hits u = Some v \<longrightarrow>
      0 \<le> count_of (map_get (map_put k ?n m) u) + v \<and> count_of (map_get (map_put k ?n m) u) + v \<le> INT_MAX"
    using Cons.prems(3) k by (auto simp: kv split: if_splits)
  from Cons.IH [OF hd(2) map_ok_put [OF Cons.prems(2)] this] obtain m' where
    "add_hits hits (map_put k ?n m) = Some m'" "map_ok m'"
    "\<forall>u. map_get m' u = (case map_get hits u of None \<Rightarrow> map_get (map_put k ?n m) u
       | Some v \<Rightarrow> Some (count_of (map_get (map_put k ?n m) u) + v))" by blast
  with n k show ?case
    by (auto simp: kv count_of_def INT_MIN_def Let_def split: option.split)
qed simp

context pg_server
begin

lemma count_of_quantity:
  assumes "server_ok p"
  shows "0 \<le> count_of (quantity (committed p) k u)"
proof (cases "quantity (committed p) k u")
  case (Some q)
  then obtain x where "(x, q) \<in> set (pair_rows (committed p))"
    by (auto simp: quantity_def dest: map_of_SomeD split: option.splits)
  with assms have "0 \<le> q" by (force simp: server_ok_def Let_def)
  with Some show ?thesis by (simp add: count_of_def)
qed (simp add: count_of_def)

lemma total_nonneg: "server_ok p \<Longrightarrow> 0 \<le> total (committed p) ks u"
  by (auto simp: total_def intro!: sum_list_nonneg count_of_quantity)

lemma collect_serves:
  assumes "server_ok (sem s)" "calm (sem s)" "\<forall>k \<in> set ks. text_ok k" "connectionString db = cs" "map_ok m"
    and "\<forall>u. 0 \<le> count_of (map_get m u) \<and> count_of (map_get m u) + total (committed (sem s)) ks u \<le> INT_MAX"
  shows "\<exists>m' s'. collect L db ks m s = (Inr (Some m'), s') \<and> sem s' = skip (3 * length ks) (sem s) \<and> map_ok m' \<and>
    (\<forall>u. map_get m' u = (if map_get m u = None \<and> \<not> found_on (committed (sem s)) ks u then None
                          else Some (count_of (map_get m u) + total (committed (sem s)) ks u)))"
  using assms
proof (induction ks arbitrary: s m)
  case Nil
  then show ?case by (auto simp: retA_def skip_def found_on_def total_def count_of_def split: option.split)
next
  case (Cons k ks)
  let ?q = "\<lambda>u. quantity (committed (sem s)) k u"
  from getUrl_serves [OF Cons.prems(1) calm_facts(2) [OF Cons.prems(2)], of k db] Cons.prems(3,4) obtain hits s1 where
    h: "getUrl L db k s = (Inr hits, s1)" "sem s1 = skip 3 (sem s)" "map_ok hits" "\<forall>u. map_get hits u = ?q u" by auto
  have c1: "committed (sem s1) = committed (sem s)" by (simp add: h(2) skip_def)
  have t: "total (committed (sem s)) (k # ks) u = count_of (?q u) + total (committed (sem s)) ks u" for u
    by (simp add: total_def)
  have tn: "0 \<le> total (committed (sem s)) ks u" "0 \<le> count_of (?q u)" for u
    using total_nonneg count_of_quantity Cons.prems(1) by auto
  have "\<forall>u v. map_get hits u = Some v \<longrightarrow> 0 \<le> count_of (map_get m u) + v \<and> count_of (map_get m u) + v \<le> INT_MAX"
  proof (intro allI impI)
    fix u v assume "map_get hits u = Some v"
    then have "count_of (?q u) = v" using h(4) by (simp add: count_of_def)
    with Cons.prems(6) tn [of u] t [of u]
    show "0 \<le> count_of (map_get m u) + v \<and> count_of (map_get m u) + v \<le> INT_MAX" by (smt (verit))
  qed
  from add_hits_spec [OF h(3) Cons.prems(5) this] obtain m1 where m1: "add_hits hits m = Some m1" "map_ok m1"
    and g1: "\<forall>u. map_get m1 u = (case ?q u of None \<Rightarrow> map_get m u | Some v \<Rightarrow> Some (count_of (map_get m u) + v))"
    using h(4) by auto
  have s1: "server_ok (sem s1)" "calm (sem s1)"
    using Cons.prems(1,2) calm_facts(4) by (auto simp: h(2) server_ok_def skip_def)
  have cm: "count_of (map_get m1 u) = count_of (map_get m u) + count_of (?q u)" for u
    using g1 by (simp add: count_of_def split: option.split)
  have b: "\<forall>u. 0 \<le> count_of (map_get m1 u) \<and> count_of (map_get m1 u) + total (committed (sem s1)) ks u \<le> INT_MAX"
    using Cons.prems(6) tn unfolding cm c1 t by (simp add: add.assoc)
  from Cons.IH [OF s1 _ Cons.prems(4) m1(2) b] Cons.prems(3) obtain m' s' where
    "collect L db ks m1 s1 = (Inr (Some m'), s')" "sem s' = skip (3 * length ks) (sem s1)" "map_ok m'"
    and g': "\<forall>u. map_get m' u = (if map_get m1 u = None \<and> \<not> found_on (committed (sem s)) ks u then None
        else Some (count_of (map_get m1 u) + total (committed (sem s)) ks u))" unfolding c1 by auto
  moreover have "map_get m' u = (if map_get m u = None \<and> \<not> found_on (committed (sem s)) (k # ks) u then None
      else Some (count_of (map_get m u) + total (committed (sem s)) (k # ks) u))" for u
    using g' g1 cm [of u] t [of u] by (auto simp: found_on_def split: option.splits)
  ultimately show ?case
    using h(1,2) m1(1) by (auto simp: bindA_Inr skip_def add.commute)
qed

end

section \<open>What a request is answered\<close>

definition table_page :: "(int \<times> string) list \<Rightarrow> string" where
  "table_page rows = page_start @ lns [''<p>Response:<p>'', ''<table>''] @ concat (map result_row (take 10 rows)) @
     lns [''</table>'', ''</body>'', ''</html>'']"

lemma s_body_out [simp]: "s_body (out t r) = s_body r @ t"
  by (simp add: out_def)

lemma s_out [simp]:
  "s_status (out t r) = s_status r" "s_content_type (out t r) = s_content_type r" "s_keep_alive (out t r) = s_keep_alive r"
  "s_version (out t r) = s_version r" "s_server (out t r) = s_server r" "s_content_length (out t r) = s_content_length r"
  by (simp_all add: out_def)

lemma out_out: "out t (out t' r) = out (t' @ t) r"
  by (simp add: out_def)

lemma print_rows_take: "print_rows (int (Suc n)) kvs r = out (concat (map result_row (take (Suc n) kvs))) r"
proof (induction kvs arbitrary: n r)
  case Nil
  then show ?case by (simp add: out_def)
next
  case (Cons kv kvs)
  show ?case
  proof (cases n)
    case (Suc m)
    with Cons.IH [of m] show ?thesis by (simp add: Let_def out_out)
  qed (simp add: Let_def)
qed

lemma print_result_page: "print_result rows r = out (table_page rows) (set_html r)"
  using print_rows_take [of 9] by (simp add: print_result_def out_out table_page_def)

definition post_response :: "http_request \<Rightarrow> http_response" where
  "post_response q = response_init\<lparr>s_version := q_version q, s_keep_alive := False, s_server := Some ''Beast''\<rparr>"

lemma find_char_split:
  assumes "s = a @ c # b" "c \<notin> set a" "fits s"
  shows "find_char s c = length a" "substr s 0 (length a) = Inr a" "substr s (sz_add (length a) 1) npos = Inr b"
    "find_char s c \<noteq> npos"
proof -
  have "find_index (\<lambda>x. x = c) s = Some (length a)"
    unfolding assms(1) by (rule find_index_append) (use assms(2) in auto)
  then show f: "find_char s c = length a" by (simp add: find_char_from_def)
  show "substr s 0 (length a) = Inr a" by (simp add: substr_def assms(1))
  have "length a < npos" using assms(1,3) by (simp add: fits_def)
  then show "substr s (sz_add (length a) 1) npos = Inr b" "find_char s c \<noteq> npos"
    using assms(1,3) f by (simp_all add: substr_def fits_def)
qed

text \<open>
  A request of the search form: its value is percent-encoded as browsers do, at least so that \<open>convert_to_utf8\<close> is
  defined on it, and the body is within the megabyte that the parser of Boost.Beast accepts.
\<close>

definition search_request :: "http_request \<Rightarrow> string \<Rightarrow> bool" where
  "search_request q v \<longleftrightarrow> q_method q = Verb_post \<and> q_target q = ''/'' \<and> concat (q_body q) = ''search='' @ v \<and>
     length (''search='' @ v) \<le> 2 ^ 20 \<and> convert_to_utf8 v \<noteq> None"

lemma search_request_fits: "search_request q v \<Longrightarrow> fits (''search='' @ v)"
  by (simp add: search_request_def fits_def npos_def)

lemma createResponsePost_parsed:
  assumes "q_target q = ''/''" "concat (q_body q) = s" "s = key @ CHR ''='' # v" "CHR ''='' \<notin> set key" "fits s"
  shows "createResponsePost L db q r =
    (if convert_to_utf8 v = None then retA None
     else if key \<noteq> ''search'' then retA (Some (file_not_found r))
     else if query_words (toLower v) \<noteq> [] then
       bindA (collect L db (query_words (toLower v)) []) (\<lambda>db_result. retA (
         case db_result of
           None \<Rightarrow> None
         | Some db_result \<Rightarrow>
             Some (if length db_result > 0 then print_result (sort_result db_result) r else print_not_found r)))
     else retA (Some (print_bad_request r)))"
proof -
  note c = find_char_split [OF assms(3-5)]
  have "fits v" using assms(3,5) by (simp add: fits_def)
  from getKeyword_words [OF this] show ?thesis
    unfolding createResponsePost_def assms(1,2) Let_def using c(4)
    by (simp add: bindA_liftR c(1-3) [simplified] split: option.split)
qed

lemma createResponsePost_search:
  assumes "search_request q v"
  shows "createResponsePost L db q r =
    (if query_words (toLower v) \<noteq> [] then
       bindA (collect L db (query_words (toLower v)) []) (\<lambda>db_result. retA (
         case db_result of
           None \<Rightarrow> None
         | Some db_result \<Rightarrow>
             Some (if length db_result > 0 then print_result (sort_result db_result) r else print_not_found r)))
     else retA (Some (print_bad_request r)))"
proof -
  have q: "q_target q = ''/''" "concat (q_body q) = ''search='' @ v" "fits (''search='' @ v)"
    "convert_to_utf8 v \<noteq> None"
    using assms search_request_fits [OF assms] by (simp_all add: search_request_def)
  have "''search='' @ v = ''search'' @ CHR ''='' # v" "CHR ''='' \<notin> set ''search''" by simp_all
  from createResponsePost_parsed [OF q(1,2) this q(3), of L db r] q(4) show ?thesis by simp
qed

text \<open>The keywords of a query are texts a statement can carry.\<close>

lemma letters_text: "set w \<subseteq> set letters \<Longrightarrow> length w \<le> 2 ^ 20 \<Longrightarrow> text_ok w"
proof -
  assume w: "set w \<subseteq> set letters" "length w \<le> 2 ^ 20"
  have "\<forall>c \<in> set letters. (of_char c :: nat) < 0x80 \<and> c \<noteq> CHR 0x00" by code_simp
  with w(1) have "list_all (\<lambda>c. (of_char c :: nat) < 0x80) w" "CHR 0x00 \<notin> set w" by (auto simp: list_all_iff)
  with w(2) utf8_ok_ascii show "text_ok w" by (simp add: text_ok_def)
qed

lemma split_at_length: "w \<in> set (split_at c s) \<Longrightarrow> length w \<le> length s"
  by (induction c s arbitrary: w rule: split_at.induct) (fastforce split: if_splits list.splits)+

lemma query_words_text: "w \<in> set (query_words s) \<Longrightarrow> length s \<le> 2 ^ 20 \<Longrightarrow> text_ok w"
  using split_at_length [of w "CHR ''+''" s] by (auto simp: query_words_def is_word_def intro!: letters_text)

context pg_server
begin

lemma search_serves:
  assumes "connectionString db = cs" "server_ok (sem s)" "calm (sem s)" "search_request q v"
    and "query_words (toLower v) = ks" "ks \<noteq> []" "\<forall>u. total (committed (sem s)) ks u \<le> INT_MAX"
  shows "\<exists>rows s'. is_answer (committed (sem s)) ks rows \<and> sem s' = skip (3 * length ks) (sem s) \<and>
    processRequest L db q s = (Inr (Some (
      if rows \<noteq> [] then out (table_page rows) (set_html (post_response q)) else print_not_found (post_response q))), s')"
proof -
  have nul: "\<forall>k \<in> set ks. text_ok k"
    using query_words_text [of _ "toLower v"] assms(4,5) by (auto simp: search_request_def toLower_def)
  have b: "\<forall>u. 0 \<le> count_of (map_get [] u) \<and> count_of (map_get [] u) + total (committed (sem s)) ks u \<le> INT_MAX"
    using assms(7) by (simp add: count_of_def)
  from collect_serves [OF assms(2,3) nul assms(1) map_ok_Nil b] obtain m s' where
    m: "collect L db ks [] s = (Inr (Some m), s')" "sem s' = skip (3 * length ks) (sem s)" "map_ok m"
    and g: "\<forall>u. map_get m u = (if \<not> found_on (committed (sem s)) ks u then None
        else Some (total (committed (sem s)) ks u))" by (auto simp: count_of_def)
  have "is_answer (committed (sem s)) ks (sort_result m)"
    using sort_result_ranked [OF m(3)] sort_result_set [OF m(3)] g by (auto simp: is_answer_def)
  moreover have "processRequest L db q s = (Inr (Some (
      if sort_result m \<noteq> [] then out (table_page (sort_result m)) (set_html (post_response q))
      else print_not_found (post_response q))), s')"
    using assms(4) m(1) assms(5,6)
    by (simp add: processRequest_def createResponsePost_search [OF assms(4)] post_response_def search_request_def
        print_result_page sort_result_Nil bindA_Inr retA_apply response_init_def Let_def)
  ultimately show ?thesis using m(2) by blast
qed

end

text \<open>
  C3. Searching end to end.  On a database server that keeps its contract and does not fail, with the tables
  consistent and no other transaction open, take a request of the search form (of at most a megabyte, its value
  decodable) with at least one keyword, where no page's counts of the keywords sum to more than \<open>INT_MAX\<close>.  It is
  answered with the table of the ten best pages: the pages on which at least one of the keywords was counted (any of
  them, although the comment in the code asks for all), each with the sum of its counts, ordered by that sum and then
  by url; with no such page the answer is the page that says so.  The database is not changed.
\<close>

theorem search_ranked:
  assumes "serves L sem (connectionString db)" "server_ok (sem s)" "calm (sem s)" "search_request q v"
    and "query_words (toLower v) = ks" "ks \<noteq> []" "\<forall>u. total (committed (sem s)) ks u \<le> INT_MAX"
  shows "\<exists>rows s'. is_answer (committed (sem s)) ks rows \<and> sem s' = skip (3 * length ks) (sem s) \<and>
    processRequest L db q s = (Inr (Some (
      if rows \<noteq> [] then out (table_page rows) (set_html (post_response q)) else print_not_found (post_response q))), s')"
  by (rule pg_server.search_serves [OF pg_server.intro [OF assms(1)] refl assms(2-7)])

definition sample_query :: "string \<Rightarrow> http_request" where
  "sample_query v = \<lparr>q_method = Verb_post, q_target = ''/'', q_version = 11, q_body = [''search='', v]\<rparr>"

lemma search_request_sample: "length v < 1000 \<Longrightarrow> CHR ''%'' \<notin> set v \<Longrightarrow> search_request (sample_query v) v"
  by (simp add: search_request_def sample_query_def convert_to_utf8_def urlDecode_def urlDecode_loop_no_percent)

lemma ranked_single:
  assumes "ranked rows" "set rows = {x}"
  shows "rows = [x]"
proof -
  have "distinct rows"
    using assms(1) unfolding ranked_def by (induction rows) auto
  with assms(2) have "length rows = 1" by (metis distinct_card card.empty card.insert empty_iff finite.emptyI One_nat_def)
  with assms(2) show ?thesis by (cases rows) auto
qed

lemma is_answer_single:
  assumes "is_answer t ks rows" "\<And>u. found_on t ks u \<longleftrightarrow> u = x"
  shows "rows = [(total t ks x, x)]"
  using assms by (intro ranked_single) (auto simp: is_answer_def)

text \<open>The page has only the first of the two words: it is an answer all the same.\<close>

lemma search_ranked_witness:
  "\<exists>s'. processRequest ref_libpq sample_db (sample_query ''Hello+world'') (sample_state []) =
     (Inr (Some (out (table_page [(7, ''http://a.org/'')]) (set_html (post_response (sample_query ''Hello+world''))))), s')"
proof -
  let ?t = "committed (ref_state (sample_state []))"
  let ?ks = "[''hello'', ''world'']"
  have w: "query_words (toLower ''Hello+world'') = ?ks" by code_simp
  have q: "quantity ?t ''hello'' u = (if u = ''http://a.org/'' then Some 7 else None)" "quantity ?t ''world'' u = None" for u
    by (simp_all add: sample_facts sample_tables_def id_of_def quantity_def)
  have t: "total ?t ?ks u = (if u = ''http://a.org/'' then 7 else 0)" for u
    by (simp add: total_def q count_of_def)
  then have t_max: "\<forall>u. total ?t ?ks u \<le> INT_MAX" by (simp add: INT_MAX_def)
  have sr: "search_request (sample_query ''Hello+world'') ''Hello+world''" by (rule search_request_sample) simp_all
  have "?ks \<noteq> []" by simp
  from search_ranked [OF serves_ref sample_facts(1) sample_calm sr w this t_max, of sample_db]
  obtain rows s' where a: "is_answer ?t ?ks rows" and p: "processRequest ref_libpq sample_db (sample_query ''Hello+world'') (sample_state []) =
     (Inr (Some (if rows \<noteq> [] then out (table_page rows) (set_html (post_response (sample_query ''Hello+world'')))
       else print_not_found (post_response (sample_query ''Hello+world'')))), s')"
    by (elim exE conjE) (rule that)
  have "found_on ?t ?ks u \<longleftrightarrow> u = ''http://a.org/''" for u by (simp add: found_on_def q)
  from is_answer_single [OF a this] have "rows = [(7, ''http://a.org/'')]" unfolding t by (simp only: refl if_True)
  with p have "processRequest ref_libpq sample_db (sample_query ''Hello+world'') (sample_state []) =
     (Inr (Some (out (table_page [(7, ''http://a.org/'')]) (set_html (post_response (sample_query ''Hello+world''))))), s')"
    by (simp only: list.distinct if_True not_False_eq_True)
  then show ?thesis by (rule exI)
qed

text \<open>The value of the parameter: what follows the first equals sign of the body.\<close>

definition param_value :: "http_request \<Rightarrow> string" where
  "param_value q = drop 1 (dropWhile (\<lambda>c. c \<noteq> CHR ''='') (concat (q_body q)))"

text \<open>Answering the request is defined: a value that is posted to \<open>/\<close> can be decoded.\<close>

definition decodes :: "http_request \<Rightarrow> bool" where
  "decodes q \<longleftrightarrow> (q_method q = Verb_post \<and> q_target q = ''/'' \<and> CHR ''='' \<in> set (concat (q_body q)) \<longrightarrow>
     convert_to_utf8 (param_value q) \<noteq> None)"

text \<open>The requests that are answered without the database, and with what.\<close>

definition static_answer :: "http_request \<Rightarrow> http_response option" where
  "static_answer q =
     (let s = concat (q_body q); base = response_init\<lparr>s_version := q_version q, s_keep_alive := False\<rparr> in
      case q_method q of
        Verb_get \<Rightarrow> Some (if q_target q = ''/'' then out form_page (set_html (post_response q))
                          else file_not_found (post_response q))
      | Verb_post \<Rightarrow>
          if q_target q \<noteq> ''/'' \<or> CHR ''='' \<notin> set s \<or> takeWhile (\<lambda>c. c \<noteq> CHR ''='') s \<noteq> ''search''
          then Some (file_not_found (post_response q))
          else if query_words (toLower (param_value q)) = []
          then Some (print_bad_request (post_response q)) else None
      | Verb_other m \<Rightarrow>
          Some (base\<lparr>s_status := Status_bad_request, s_content_type := Some ''text/plain'',
            s_body := ''Invalid request-method '' @ [CHR 0x27] @ m @ [CHR 0x27]\<rparr>))"

lemma createResponsePost_static:
  assumes "fits (concat (q_body q))" "q_method q = Verb_post" "static_answer q = Some r"
  shows "createResponsePost L db q (post_response q) = retA (if decodes q then Some r else None)"
proof (cases "q_target q = ''/'' \<and> CHR ''='' \<in> set (concat (q_body q))")
  case False
  then show ?thesis
  proof (cases "q_target q = ''/''")
    case True
    with False have "find_index (\<lambda>x. x = CHR ''='') (concat (q_body q)) = None" by (auto simp: find_index_None)
    with True False assms(2,3) show ?thesis
      by (simp add: createResponsePost_def find_char_from_def static_answer_def decodes_def Let_def)
  next
    case False
    with assms(2,3) show ?thesis by (simp add: createResponsePost_def static_answer_def decodes_def Let_def)
  qed
next
  case True
  then obtain key v where s: "concat (q_body q) = key @ CHR ''='' # v" "CHR ''='' \<notin> set key"
    by (metis split_list_first)
  have "takeWhile (\<lambda>c. c \<noteq> CHR ''='') (concat (q_body q)) = key"
    "param_value q = v"
    unfolding s(1) param_value_def by (subst takeWhile_stop dropWhile_stop; use s(2) in auto)+
  with assms(2,3) True createResponsePost_parsed [OF _ refl s assms(1), of L db "post_response q"] show ?thesis
    by (auto simp: static_answer_def decodes_def s(1) Let_def split: if_splits)
qed

text \<open>
  C30. Routing.  Every request that is not a search with at least one keyword is answered from the request
  alone: the form for \<open>GET /\<close>, 404 for any other path, for a body without an equals sign and for a
  parameter that is not called \<open>search\<close>, 400 for other methods, and the page that asks for longer words
  (with status 200) when no keyword is left.  The database is not called.  The exception is a \<open>POST /\<close> whose
  parameter, whatever its name, has a value that \<open>urlDecode\<close> cannot decode (one that ends in a percent sign): there
  the program reads an uninitialised variable, which is undefined behaviour.
\<close>

theorem routing:
  assumes "fits (concat (q_body q))" "static_answer q = Some r"
  shows "processRequest L db q s = (Inr (if decodes q then Some r else None), s)"
proof (cases "q_method q")
  case Verb_get
  with assms(2) show ?thesis
    by (auto simp: processRequest_def static_answer_def createResponseGet_def post_response_def retA_def Let_def response_init_def decodes_def)
next
  case Verb_post
  have "(response_init\<lparr>s_version := q_version q, s_keep_alive := False\<rparr>)\<lparr>s_status := Status_ok, s_server := Some ''Beast''\<rparr>
      = post_response q" by (simp add: post_response_def response_init_def)
  with createResponsePost_static [OF assms(1) Verb_post assms(2), of L db] Verb_post show ?thesis
    by (simp add: processRequest_def retA_def Let_def)
next
  case (Verb_other m)
  with assms(2) show ?thesis
    by (auto simp: processRequest_def static_answer_def retA_def Let_def method_string_def out_def response_init_def decodes_def)
qed

lemma routing_witness:
  "processRequest ref_libpq sample_db (sample_query ''the+cat'') (sample_state []) =
     (Inr (Some (print_bad_request (post_response (sample_query ''the+cat'')))), sample_state []) \<and>
   processRequest ref_libpq sample_db ((sample_query ''the+cat'')\<lparr>q_body := [''foo=%'']\<rparr>) (sample_state []) =
     (Inr None, sample_state [])"
proof
  have "query_words (toLower ''the+cat'') = []" by code_simp
  with routing [of "sample_query ''the+cat''" "print_bad_request (post_response (sample_query ''the+cat''))"]
  show "processRequest ref_libpq sample_db (sample_query ''the+cat'') (sample_state []) =
     (Inr (Some (print_bad_request (post_response (sample_query ''the+cat'')))), sample_state [])"
    by (simp add: static_answer_def param_value_def decodes_def sample_query_def fits_def npos_def
        convert_to_utf8_def urlDecode_def urlDecode_loop_no_percent Let_def)
  let ?q = "(sample_query ''the+cat'')\<lparr>q_body := [''foo=%'']\<rparr>"
  have "\<not> decodes ?q"
    using urlDecode_trailing_percent [of "[]"]
    by (simp add: decodes_def param_value_def sample_query_def convert_to_utf8_def)
  with routing [of ?q "file_not_found (post_response ?q)"]
  show "processRequest ref_libpq sample_db ?q (sample_state []) = (Inr None, sample_state [])"
    by (simp add: static_answer_def sample_query_def fits_def npos_def Let_def)
qed

lemma processRequest_throws:
  assumes "search_request q v" "query_words (toLower v) = k # ks" "getUrl L db k s = (Inl e, s')"
  shows "processRequest L db q s = (Inl e, s')"
  using assms
  by (simp add: processRequest_def createResponsePost_search [OF assms(1)] bindA_Inl Let_def search_request_def)

text \<open>
  A failure of the database is not turned into an answer: the exception of the first keyword's query
  leaves \<open>processRequest\<close>, no response is made.
\<close>

theorem search_failure_escapes:
  assumes "search_request q v" "query_words (toLower v) = k # ks" "getUrl L db k s = (Inl e, s')"
  shows "processRequest L db q s = (Inl e, s')"
  by (rule processRequest_throws [OF assms])

lemma search_failure_escapes_witness:
  "\<exists>e. processRequest (ref_libpq\<lparr>PQconnectdb := \<lambda>cs s. (None, s)\<rparr>) sample_db (sample_query ''hello'') (sample_state []) =
     (Inl e, sample_state [])"
proof -
  have w: "query_words (toLower ''hello'') = [''hello'']" by code_simp
  have sr: "search_request (sample_query ''hello'') ''hello''" by (rule search_request_sample) simp_all
  have "getUrl (ref_libpq\<lparr>PQconnectdb := \<lambda>cs s. (None, s)\<rparr>) sample_db ''hello'' (sample_state []) = (Inl Bad_alloc, sample_state [])"
    by (simp add: getUrl_def with_work_def conn_init_def act_apply)
  from search_failure_escapes [OF sr w this] show ?thesis by blast
qed

end
