(* ===== verification/Web_Server.thy ===== *)
theory Web_Server
  imports HTTP_Server INI_File
begin

text \<open>
  The server as it runs: the connections of \<open>Include/HTTP_Server.h\<close> (\<open>start\<close>, \<open>readRequest\<close>,
  \<open>writeResponse\<close>, \<open>checkDeadline\<close>), the accept loop and \<open>main\<close> of \<open>Server/WebServer.cpp\<close>.
  \<open>io_context ioc{1}\<close> with one call of \<open>run\<close> executes the completion handlers one after the other,
  so a step of the server is the execution of one handler, on any connection.
\<close>

section \<open>A connection and its handlers\<close>

datatype socket = Open | Send_shut | Closed

text \<open>
  The wait of the deadline timer: armed; expired with its handler queued; cancelled with its handler
  queued; handler done.
\<close>

datatype wait = Armed | Expired | Cancelled | Waited

record connection_state =
  sock :: socket
  reading :: bool
  writing :: bool
  deadline :: wait
  req_of :: "http_request option"
  resp_of :: "http_response option"

text \<open>\<open>start\<close>: \<open>readRequest\<close> begins the read, \<open>checkDeadline\<close> the wait of 60 seconds.\<close>

definition start :: connection_state where
  "start = \<lparr>sock = Open, reading = True, writing = False, deadline = Armed, req_of = None, resp_of = None\<rparr>"

text \<open>\<open>writeResponse\<close> sets the content length and begins the write.\<close>

definition writeResponse :: "http_response \<Rightarrow> connection_state \<Rightarrow> connection_state" where
  "writeResponse r c = c\<lparr>writing := True, resp_of := Some (with_content_length r)\<rparr>"

text \<open>The handler of the read; \<open>None\<close> is an error code.  The outcome \<open>None\<close> is undefined behaviour.\<close>

definition on_read ::
    "'s libpq \<Rightarrow> DB_Client \<Rightarrow> http_request option \<Rightarrow> connection_state \<Rightarrow> ('s, connection_state option) act" where
  "on_read L db req c =
     (case req of
        None \<Rightarrow> retA (Some (c\<lparr>reading := False\<rparr>))
      | Some q \<Rightarrow>
          bindA (processRequest L db q) (\<lambda>r. retA (
            map_option (\<lambda>r. writeResponse r (c\<lparr>reading := False, req_of := Some q\<rparr>)) r)))"

text \<open>The handler of the write: shut the sending side down, cancel the timer unless it has expired.\<close>

definition on_write :: "connection_state \<Rightarrow> connection_state" where
  "on_write c = c\<lparr>writing := False, sock := (if sock c = Open then Send_shut else sock c),
     deadline := (if deadline c = Armed then Cancelled else deadline c)\<rparr>"

text \<open>The handler of the timer: only an expiry, not a cancellation, closes the socket.\<close>

definition on_wait :: "connection_state \<Rightarrow> connection_state" where
  "on_wait c = c\<lparr>deadline := Waited, sock := (if deadline c = Expired then Closed else sock c)\<rparr>"

text \<open>The handlers hold the only references to the object: without a pending one it is destroyed.\<close>

definition released :: "connection_state \<Rightarrow> bool" where
  "released c \<longleftrightarrow> \<not> reading c \<and> \<not> writing c \<and> deadline c = Waited"

section \<open>The server\<close>

text \<open>An exception that leaves a handler leaves \<open>ioc.run()\<close> and is caught in \<open>main\<close>, which returns.\<close>

datatype run_status = Running | Stopped exn | Undefined

record 's server =
  world :: 's
  conns :: "connection_state list"
  status :: run_status

datatype event = Accept | Accept_error | Read nat "http_request option" | Wrote nat | Expire nat | Wait_done nat

inductive server_step :: "'s libpq \<Rightarrow> DB_Client \<Rightarrow> 's server \<Rightarrow> event \<Rightarrow> 's server \<Rightarrow> bool" for L db where
  accept: "status s = Running \<Longrightarrow> server_step L db s Accept (s\<lparr>conns := conns s @ [start]\<rparr>)"
| accept_error: "status s = Running \<Longrightarrow> server_step L db s Accept_error s"
| read: "status s = Running \<Longrightarrow> i < length (conns s) \<Longrightarrow> reading (conns s ! i) \<Longrightarrow>
    on_read L db req (conns s ! i) (world s) = (Inr (Some c), w) \<Longrightarrow>
    server_step L db s (Read i req) (s\<lparr>world := w, conns := (conns s)[i := c]\<rparr>)"
| read_undefined: "status s = Running \<Longrightarrow> i < length (conns s) \<Longrightarrow> reading (conns s ! i) \<Longrightarrow>
    on_read L db req (conns s ! i) (world s) = (Inr None, w) \<Longrightarrow>
    server_step L db s (Read i req) (s\<lparr>world := w, status := Undefined\<rparr>)"
| read_throws: "status s = Running \<Longrightarrow> i < length (conns s) \<Longrightarrow> reading (conns s ! i) \<Longrightarrow>
    on_read L db req (conns s ! i) (world s) = (Inl e, w) \<Longrightarrow>
    server_step L db s (Read i req) (s\<lparr>world := w, status := Stopped e\<rparr>)"
| wrote: "status s = Running \<Longrightarrow> i < length (conns s) \<Longrightarrow> writing (conns s ! i) \<Longrightarrow>
    server_step L db s (Wrote i) (s\<lparr>conns := (conns s)[i := on_write (conns s ! i)]\<rparr>)"
| expire: "status s = Running \<Longrightarrow> i < length (conns s) \<Longrightarrow> deadline (conns s ! i) = Armed \<Longrightarrow>
    server_step L db s (Expire i) (s\<lparr>conns := (conns s)[i := (conns s ! i)\<lparr>deadline := Expired\<rparr>]\<rparr>)"
| wait_done: "status s = Running \<Longrightarrow> i < length (conns s) \<Longrightarrow> deadline (conns s ! i) \<in> {Expired, Cancelled} \<Longrightarrow>
    server_step L db s (Wait_done i) (s\<lparr>conns := (conns s)[i := on_wait (conns s ! i)]\<rparr>)"

inductive_cases server_step_cases: "server_step L db s e s'"

inductive server_run :: "'s libpq \<Rightarrow> DB_Client \<Rightarrow> 's server \<Rightarrow> event list \<Rightarrow> 's server \<Rightarrow> bool" for L db where
  run_nil: "server_run L db s [] s"
| run_snoc: "server_run L db s es s' \<Longrightarrow> server_step L db s' e s'' \<Longrightarrow> server_run L db s (es @ [e]) s''"

definition server_init :: "'s \<Rightarrow> 's server" where
  "server_init w = \<lparr>world = w, conns = [], status = Running\<rparr>"

section \<open>The invariant of a connection\<close>

text \<open>\<open>answers L db q r\<close>: in some state of the database, \<open>r\<close> is what \<open>q\<close> is answered with.\<close>

definition answers :: "'s libpq \<Rightarrow> DB_Client \<Rightarrow> http_request \<Rightarrow> http_response \<Rightarrow> bool" where
  "answers L db q r \<longleftrightarrow> (\<exists>w w' r'. processRequest L db q w = (Inr (Some r'), w') \<and> r = with_content_length r')"

definition conn_ok :: "'s libpq \<Rightarrow> DB_Client \<Rightarrow> connection_state \<Rightarrow> bool" where
  "conn_ok L db c \<longleftrightarrow>
     \<not> (reading c \<and> writing c) \<and>
     (reading c \<longrightarrow> req_of c = None \<and> resp_of c = None) \<and>
     (writing c \<longrightarrow> resp_of c \<noteq> None) \<and>
     (\<forall>r. resp_of c = Some r \<longrightarrow> (\<exists>q. req_of c = Some q \<and> answers L db q r)) \<and>
     (sock c = Send_shut \<or> deadline c = Cancelled \<longrightarrow> \<not> reading c \<and> \<not> writing c \<and> sock c \<noteq> Open \<and> resp_of c \<noteq> None) \<and>
     (deadline c = Waited \<longrightarrow> sock c \<noteq> Open) \<and>
     (deadline c = Armed \<longrightarrow> sock c = Open)"

lemma conn_ok_start: "conn_ok L db start"
  by (simp add: conn_ok_def start_def)

lemma conn_ok_read:
  assumes "conn_ok L db c" "reading c" "on_read L db req c w = (Inr (Some c'), w')"
  shows "conn_ok L db c'"
proof (cases req)
  case None
  with assms show ?thesis by (auto simp: on_read_def conn_ok_def retA_def)
next
  case (Some q)
  with assms(3) obtain r where r: "processRequest L db q w = (Inr (Some r), w')"
    and c': "c' = writeResponse r (c\<lparr>reading := False, req_of := Some q\<rparr>)"
    by (auto simp: on_read_def bindA_def retA_def split: prod.splits sum.splits)
  from r have "answers L db q (with_content_length r)" by (auto simp: answers_def)
  with assms(1,2) show ?thesis by (auto simp: c' writeResponse_def conn_ok_def)
qed

lemma conn_ok_write: "conn_ok L db c \<Longrightarrow> writing c \<Longrightarrow> conn_ok L db (on_write c)"
  by (cases "sock c"; cases "deadline c") (auto simp: conn_ok_def on_write_def)

lemma conn_ok_expire: "conn_ok L db c \<Longrightarrow> deadline c = Armed \<Longrightarrow> conn_ok L db (c\<lparr>deadline := Expired\<rparr>)"
  by (auto simp: conn_ok_def)

lemma conn_ok_wait: "conn_ok L db c \<Longrightarrow> deadline c \<in> {Expired, Cancelled} \<Longrightarrow> conn_ok L db (on_wait c)"
  by (auto simp: conn_ok_def on_wait_def)

lemma server_step_ok:
  assumes "server_step L db s e s'" "\<forall>c \<in> set (conns s). conn_ok L db c"
  shows "\<forall>c \<in> set (conns s'). conn_ok L db c"
proof -
  have upd: "\<forall>c \<in> set ((conns s)[i := c']). conn_ok L db c" if "conn_ok L db c'" for i c'
    using assms(2) that set_update_subset_insert [of "conns s" i c'] by auto
  have nth: "i < length (conns s) \<Longrightarrow> conn_ok L db (conns s ! i)" for i using assms(2) by simp
  from assms(1) show ?thesis
  proof cases
    case accept
    with assms(2) conn_ok_start show ?thesis by auto
  next
    case (read i req c w)
    from upd [OF conn_ok_read [OF nth [OF read(4)] read(5,6)]] show ?thesis by (simp add: read(2))
  next
    case (wrote i)
    from upd [OF conn_ok_write [OF nth [OF wrote(4)] wrote(5)]] show ?thesis by (simp add: wrote(2))
  next
    case (expire i)
    from upd [OF conn_ok_expire [OF nth [OF expire(4)] expire(5)]] show ?thesis by (simp add: expire(2))
  next
    case (wait_done i)
    from upd [OF conn_ok_wait [OF nth [OF wait_done(4)] wait_done(5)]] show ?thesis by (simp add: wait_done(2))
  qed (use assms(2) in auto)
qed

lemma server_run_ok:
  assumes "server_run L db (server_init w) es s"
  shows "\<forall>c \<in> set (conns s). conn_ok L db c"
  using assms
proof (induction "server_init w" es s rule: server_run.induct)
  case run_nil
  then show ?case by (simp add: server_init_def)
next
  case (run_snoc es s' e s'')
  then show ?case using server_step_ok by blast
qed

section \<open>The history of a connection\<close>

text \<open>How often the read of connection \<open>i\<close> completed, and whether its timer expired before its response was written.\<close>

definition reads :: "nat \<Rightarrow> event list \<Rightarrow> nat" where
  "reads i es = length (filter (\<lambda>e. case e of Read j q \<Rightarrow> j = i | _ \<Rightarrow> False) es)"

definition expired_first :: "nat \<Rightarrow> event list \<Rightarrow> bool" where
  "expired_first i es \<longleftrightarrow> Expire i \<in> set (takeWhile (\<lambda>e. e \<noteq> Wrote i) es)"

lemma reads_simps [simp]:
  "reads i [] = 0" "reads i (es @ [e]) = reads i es + (case e of Read j q \<Rightarrow> if j = i then 1 else 0 | _ \<Rightarrow> 0)"
  by (simp_all add: reads_def split: event.split)

lemma expired_first_simps [simp]:
  "\<not> expired_first i []"
  "expired_first i (es @ [e]) \<longleftrightarrow> expired_first i es \<or> e = Expire i \<and> Wrote i \<notin> set es"
proof -
  show "\<not> expired_first i []" by (simp add: expired_first_def)
  show "expired_first i (es @ [e]) \<longleftrightarrow> expired_first i es \<or> e = Expire i \<and> Wrote i \<notin> set es"
  proof (cases "Wrote i \<in> set es")
    case True
    then show ?thesis unfolding expired_first_def by (subst takeWhile_append1) auto
  next
    case False
    then have t: "takeWhile (\<lambda>e. e \<noteq> Wrote i) es = es" by (auto simp: takeWhile_eq_all_conv)
    have t': "takeWhile (\<lambda>e. e \<noteq> Wrote i) (es @ [e]) = es @ takeWhile (\<lambda>e. e \<noteq> Wrote i) [e]"
      using False by (intro takeWhile_append2) auto
    show ?thesis unfolding expired_first_def t' t using False by auto
  qed
qed

text \<open>
  What the events so far say of a connection; \<open>b\<close>: the server is running.  One read and one write are made or
  pending at most; the timer that has not expired when the response is written does not expire any more.
\<close>

definition conn_log :: "nat \<Rightarrow> event list \<Rightarrow> bool \<Rightarrow> connection_state \<Rightarrow> bool" where
  "conn_log i es b c \<longleftrightarrow>
     reads i es + of_bool (b \<and> reading c) \<le> 1 \<and>
     count_list es (Wrote i) + of_bool (b \<and> (reading c \<or> writing c)) \<le> 1 \<and>
     (\<forall>q. req_of c = Some q \<longrightarrow> Read i (Some q) \<in> set es) \<and>
     (deadline c = Armed \<longrightarrow> \<not> expired_first i es \<and> Wrote i \<notin> set es) \<and>
     (deadline c = Expired \<longrightarrow> expired_first i es) \<and>
     (deadline c = Cancelled \<longrightarrow> \<not> expired_first i es \<and> Wrote i \<in> set es) \<and>
     (deadline c = Waited \<longrightarrow> (sock c = Closed \<longleftrightarrow> expired_first i es)) \<and>
     (sock c = Closed \<longrightarrow> deadline c = Waited) \<and>
     (sock c = Send_shut \<longrightarrow> Wrote i \<in> set es)"

definition unseen :: "nat \<Rightarrow> event list \<Rightarrow> bool" where
  "unseen i es \<longleftrightarrow> reads i es = 0 \<and> Wrote i \<notin> set es \<and> \<not> expired_first i es"

definition server_log :: "event list \<Rightarrow> 's server \<Rightarrow> bool" where
  "server_log es s \<longleftrightarrow>
     (\<forall>i < length (conns s). conn_log i es (status s = Running) (conns s ! i)) \<and> (\<forall>i \<ge> length (conns s). unseen i es)"

text \<open>An event of another connection is not recorded.\<close>

fun event_of :: "event \<Rightarrow> nat option" where
  "event_of Accept = None"
| "event_of Accept_error = None"
| "event_of (Read i q) = Some i"
| "event_of (Wrote i) = Some i"
| "event_of (Expire i) = Some i"
| "event_of (Wait_done i) = Some i"

lemma conn_log_other: "event_of e \<noteq> Some i \<Longrightarrow> conn_log i es b c \<Longrightarrow> conn_log i (es @ [e]) b c"
  by (cases e) (auto simp: conn_log_def)

lemma conn_log_stop: "conn_log i es True c \<Longrightarrow> conn_log i es False c"
  by (auto simp: conn_log_def)

lemma unseen_other: "event_of e \<noteq> Some i \<Longrightarrow> unseen i es \<Longrightarrow> unseen i (es @ [e])"
  by (cases e) (auto simp: unseen_def)

lemma conn_log_start: "unseen i es \<Longrightarrow> conn_log i es b start"
  by (simp add: conn_log_def unseen_def start_def count_list_0_iff)

lemma conn_log_read:
  assumes "conn_log i es True c" "reading c" "on_read L db req c w = (Inr (Some c'), w')"
  shows "conn_log i (es @ [Read i req]) True c'"
proof (cases req)
  case None
  with assms have "c' = c\<lparr>reading := False\<rparr>" by (simp add: on_read_def retA_def)
  with None assms(1,2) show ?thesis by (auto simp: conn_log_def)
next
  case (Some q)
  with assms(3) obtain r where "c' = writeResponse r (c\<lparr>reading := False, req_of := Some q\<rparr>)"
    by (auto simp: on_read_def bindA_def retA_def split: prod.splits sum.splits)
  with Some assms(1,2) show ?thesis by (auto simp: conn_log_def writeResponse_def)
qed

lemma conn_log_read_fails:
  assumes "conn_log i es True c" "reading c"
  shows "conn_log i (es @ [Read i req]) False c"
  using assms by (auto simp: conn_log_def)

lemma conn_log_write:
  assumes "conn_log i es True c" "writing c" "\<not> reading c"
  shows "conn_log i (es @ [Wrote i]) True (on_write c)"
  using assms by (cases "sock c"; cases "deadline c") (auto simp: conn_log_def on_write_def)

lemma conn_log_expire:
  assumes "conn_log i es True c" "deadline c = Armed"
  shows "conn_log i (es @ [Expire i]) True (c\<lparr>deadline := Expired\<rparr>)"
  using assms by (auto simp: conn_log_def)

lemma conn_log_wait:
  assumes "conn_log i es True c" "deadline c \<in> {Expired, Cancelled}"
  shows "conn_log i (es @ [Wait_done i]) True (on_wait c)"
  using assms by (auto simp: conn_log_def on_wait_def)

lemma server_log_update:
  assumes "server_log es s" "status s = Running" "i < length (conns s)" "event_of e = Some i"
    and "conn_log i (es @ [e]) (status s' = Running) c" "conns s' = (conns s)[i := c]"
  shows "server_log (es @ [e]) s'"
proof -
  have "conn_log j (es @ [e]) (status s' = Running) ((conns s)[i := c] ! j)" if "j < length (conns s)" for j
  proof (cases "j = i")
    case False
    with assms(1,2) that have "conn_log j es True (conns s ! j)" by (auto simp: server_log_def)
    with False assms(4) conn_log_other conn_log_stop show ?thesis by (cases "status s' = Running") auto
  qed (use assms(3,5) in simp)
  moreover have "unseen j (es @ [e])" if "j \<ge> length (conns s)" for j
    using that assms(1,3,4) by (intro unseen_other) (auto simp: server_log_def)
  ultimately show ?thesis using assms(6) by (simp add: server_log_def)
qed

lemma server_step_log:
  assumes "server_step L db s e s'" "server_log es s" "\<forall>c \<in> set (conns s). conn_ok L db c"
  shows "server_log (es @ [e]) s'"
proof -
  have nth: "conn_log i es True (conns s ! i) \<and> conn_ok L db (conns s ! i)" if "i < length (conns s)" "status s = Running" for i
    using assms(2,3) that by (auto simp: server_log_def)
  note upd = server_log_update [OF assms(2)]
  from assms(1) show ?thesis
  proof cases
    case accept
    have "conn_log i (es @ [e]) True ((conns s @ [start]) ! i)" if "i \<le> length (conns s)" for i
    proof (cases "i = length (conns s)")
      case True
      with assms(2) have "unseen i es" by (simp add: server_log_def)
      with True accept(1) show ?thesis by (auto intro!: conn_log_start unseen_other)
    qed (use that nth [of i] accept in \<open>auto simp: nth_append intro!: conn_log_other\<close>)
    with accept assms(2) show ?thesis by (auto simp: server_log_def less_Suc_eq_le intro!: unseen_other)
  next
    case accept_error
    with assms(2) show ?thesis by (auto simp: server_log_def intro!: unseen_other conn_log_other)
  next
    case (read i req c w)
    with upd [of i e s' c] conn_log_read [of i es "conns s ! i" L db req "world s" c w] nth [of i] show ?thesis by auto
  next
    case (read_undefined i req w)
    with upd [of i e s' "conns s ! i"] conn_log_read_fails nth [of i] show ?thesis by auto
  next
    case (read_throws i req x w)
    with upd [of i e s' "conns s ! i"] conn_log_read_fails nth [of i] show ?thesis by auto
  next
    case (wrote i)
    with nth [of i] have "conn_log i (es @ [e]) True (on_write (conns s ! i))"
      by (auto simp: conn_ok_def intro!: conn_log_write)
    with upd [of i e s' "on_write (conns s ! i)"] wrote show ?thesis by auto
  next
    case (expire i)
    with upd [of i e s' "(conns s ! i)\<lparr>deadline := Expired\<rparr>"] conn_log_expire nth [of i] show ?thesis by auto
  next
    case (wait_done i)
    with upd [of i e s' "on_wait (conns s ! i)"] conn_log_wait nth [of i] show ?thesis by auto
  qed
qed

lemma server_run_log:
  assumes "server_run L db (server_init w) es s"
  shows "server_log es s"
  using assms
proof (induction "server_init w" es s rule: server_run.induct)
  case run_nil
  then show ?case by (simp add: server_log_def server_init_def unseen_def)
next
  case (run_snoc es s' e s'')
  show ?case by (rule server_step_log [OF run_snoc(3,2) server_run_ok [OF run_snoc(1)]])
qed

lemma conn_log_at_most_one: "conn_log i es b c \<Longrightarrow> reads i es \<le> 1 \<and> count_list es (Wrote i) \<le> 1"
  by (auto simp: conn_log_def)

section \<open>Properties of the running server\<close>

text \<open>
  C8. On every connection, whatever the order of the handlers: one read completes at most and one response is written
  at most; the response is the answer to the request that was read on this connection, in some state of the database;
  reading and writing never overlap, and the object is not destroyed before its socket was shut down or closed.
\<close>

theorem connection_safe:
  assumes "server_run L db (server_init w) es s" "i < length (conns s)" "c = conns s ! i"
  shows "reads i es \<le> 1 \<and> count_list es (Wrote i) \<le> 1 \<and>
    (\<forall>r. resp_of c = Some r \<longrightarrow> (\<exists>q. Read i (Some q) \<in> set es \<and> answers L db q r)) \<and>
    \<not> (reading c \<and> writing c) \<and> (reading c \<longrightarrow> resp_of c = None) \<and> (released c \<longrightarrow> sock c \<noteq> Open)"
proof -
  have l: "conn_log i es (status s = Running) c" using server_run_log [OF assms(1)] assms(2,3) by (simp add: server_log_def)
  have o: "conn_ok L db c" using server_run_ok [OF assms(1)] assms(2,3) by simp
  from l have "\<forall>q. req_of c = Some q \<longrightarrow> Read i (Some q) \<in> set es" by (simp add: conn_log_def)
  with o conn_log_at_most_one [OF l] show ?thesis by (fastforce simp: conn_ok_def released_def)
qed

definition get_request :: "http_request" where
  "get_request = \<lparr>q_method = Verb_get, q_target = ''/'', q_version = 11, q_body = []\<rparr>"

lemma sample_run:
  "\<exists>s. server_run ref_libpq sample_db (server_init (sample_state [])) [Accept, Read 0 (Some get_request), Wrote 0, Wait_done 0] s \<and>
    conns s = [on_wait (on_write (writeResponse (out form_page (set_html (post_response get_request)))
      (start\<lparr>reading := False, req_of := Some get_request\<rparr>)))] \<and> status s = Running"
proof -
  let ?L = "ref_libpq" and ?s0 = "server_init (sample_state [])"
  have p: "processRequest ?L sample_db get_request w = (Inr (Some (out form_page (set_html (post_response get_request)))), w)" for w
    by (simp add: processRequest_def createResponseGet_def retA_def post_response_def response_init_def
        Let_def get_request_def)
  let ?c1 = "writeResponse (out form_page (set_html (post_response get_request))) (start\<lparr>reading := False, req_of := Some get_request\<rparr>)"
  have o: "on_read ?L sample_db (Some get_request) start w = (Inr (Some ?c1), w)" for w
    by (simp add: on_read_def bindA_Inr [OF p] retA_def)
  let ?s1 = "?s0\<lparr>conns := [start]\<rparr>"
  let ?s2 = "?s1\<lparr>conns := [?c1]\<rparr>" let ?s3 = "?s1\<lparr>conns := [on_write ?c1]\<rparr>" let ?s4 = "?s1\<lparr>conns := [on_wait (on_write ?c1)]\<rparr>"
  have c: "writing ?c1" "deadline (on_write ?c1) = Cancelled"
    by (simp_all add: writeResponse_def on_write_def start_def)
  have 1: "server_step ?L sample_db ?s0 Accept ?s1"
    using server_step.accept [of ?s0 ?L sample_db] by (simp add: server_init_def)
  have 2: "server_step ?L sample_db ?s1 (Read 0 (Some get_request)) ?s2"
    using server_step.read [of ?s1 0 ?L sample_db "Some get_request"] o by (simp add: server_init_def start_def)
  have 3: "server_step ?L sample_db ?s2 (Wrote 0) ?s3"
    using server_step.wrote [of ?s2 0] c by (simp add: server_init_def)
  have 4: "server_step ?L sample_db ?s3 (Wait_done 0) ?s4"
    using server_step.wait_done [of ?s3 0] c by (simp add: server_init_def)
  from run_snoc [OF run_snoc [OF run_snoc [OF run_snoc [OF run_nil 1] 2] 3] 4] show ?thesis
    by (intro exI [of _ ?s4] conjI) (simp_all add: server_init_def)
qed

section \<open>Bounded work\<close>

definition weight :: "connection_state \<Rightarrow> nat" where
  "weight c = (if reading c then 2 else 0) + (if writing c then 1 else 0) +
     (case deadline c of Armed \<Rightarrow> 2 | Expired \<Rightarrow> 1 | Cancelled \<Rightarrow> 1 | Waited \<Rightarrow> 0)"

definition load :: "connection_state list \<Rightarrow> nat" where
  "load cs = sum_list (map weight cs)"

fun is_handler :: "event \<Rightarrow> bool" where
  "is_handler Accept = False"
| "is_handler Accept_error = False"
| "is_handler _ = True"

definition accepted :: "event list \<Rightarrow> nat" where
  "accepted es = length (filter (\<lambda>e. e = Accept) es)"

definition handled :: "event list \<Rightarrow> nat" where
  "handled es = length (filter is_handler es)"

lemma load_update: "i < length cs \<Longrightarrow> weight c < weight (cs ! i) \<Longrightarrow> load (cs[i := c]) < load cs"
  by (induction cs arbitrary: i) (auto simp: load_def less_Suc_eq_0_disj split: nat.splits)

lemma load_ge: "i < length cs \<Longrightarrow> weight (cs ! i) \<le> load cs"
  by (simp add: load_def member_le_sum_list)

lemma weight_read: "reading c \<Longrightarrow> \<not> writing c \<Longrightarrow> on_read L db req c w = (Inr (Some c'), w') \<Longrightarrow> weight c' < weight c"
  by (auto simp: on_read_def bindA_def retA_def writeResponse_def weight_def split: option.splits prod.splits sum.splits)

lemma weight_steps:
  "writing c \<Longrightarrow> weight (on_write c) < weight c"
  "deadline c = Armed \<Longrightarrow> weight (c\<lparr>deadline := Expired\<rparr>) < weight c"
  "deadline c \<in> {Expired, Cancelled} \<Longrightarrow> weight (on_wait c) < weight c"
  by (auto simp: weight_def on_write_def on_wait_def split: wait.split)

definition pending_work :: "'s server \<Rightarrow> nat" where
  "pending_work s = (if status s = Running then load (conns s) else 0)"

lemma handler_step_decreases:
  assumes "server_step L db s e s'" "is_handler e" "\<forall>c \<in> set (conns s). conn_ok L db c"
  shows "pending_work s' < pending_work s"
proof -
  have ok: "i < length (conns s) \<Longrightarrow> conn_ok L db (conns s ! i)" for i using assms(3) by simp
  have pos: "i < length (conns s) \<Longrightarrow> reading (conns s ! i) \<Longrightarrow> 0 < load (conns s)" for i
    using load_ge [of i "conns s"] by (simp add: weight_def)
  from assms(1) show ?thesis
  proof cases
    case (read i req c w)
    then have "weight c < weight (conns s ! i)" using ok [of i] by (intro weight_read) (auto simp: conn_ok_def)
    with read load_update show ?thesis by (simp add: pending_work_def)
  qed (use assms(2) pos in \<open>auto simp: pending_work_def load_update weight_steps\<close>)
qed

lemma accept_step: "server_step L db s Accept s' \<Longrightarrow> pending_work s' = pending_work s + 4"
  by (erule server_step_cases) (auto simp: pending_work_def load_def start_def weight_def)

lemma accept_error_step: "server_step L db s Accept_error s' \<Longrightarrow> s' = s"
  by (erule server_step_cases) auto

lemma run_work:
  assumes "server_run L db (server_init w) es s"
  shows "handled es + pending_work s \<le> 4 * accepted es"
  using assms
proof (induction "server_init w" es s rule: server_run.induct)
  case run_nil
  then show ?case by (simp add: handled_def pending_work_def server_init_def load_def)
next
  case (run_snoc es s' e s'')
  show ?case
  proof (cases e rule: is_handler.cases)
    case 1
    with run_snoc accept_step [of L db s' s''] show ?thesis by (simp add: handled_def accepted_def)
  next
    case 2
    with run_snoc accept_error_step [of L db s' s''] show ?thesis by (simp add: handled_def accepted_def)
  qed (use run_snoc handler_step_decreases [OF run_snoc(3)] server_run_ok [OF run_snoc(1)] in
      \<open>force simp: handled_def accepted_def\<close>)+
qed

text \<open>The run of one request, up to the release of the connection.\<close>

lemma connection_safe_witness:
  "\<exists>c r. released c \<and> sock c \<noteq> Open \<and> resp_of c = Some r \<and> answers ref_libpq sample_db get_request r"
proof -
  let ?es = "[Accept, Read 0 (Some get_request), Wrote 0, Wait_done 0]"
  obtain s where s: "server_run ref_libpq sample_db (server_init (sample_state [])) ?es s"
    and c: "conns s = [on_wait (on_write (writeResponse (out form_page (set_html (post_response get_request)))
      (start\<lparr>reading := False, req_of := Some get_request\<rparr>)))]"
    using sample_run by blast
  let ?c = "conns s ! 0"
  have "0 < length (conns s)" by (simp add: c)
  note p = connection_safe [OF s this refl]
  obtain r where r: "resp_of ?c = Some r" by (simp add: c on_wait_def on_write_def writeResponse_def)
  have "released ?c" by (simp add: c released_def on_wait_def on_write_def writeResponse_def start_def)
  with p r show ?thesis by (intro exI [of _ ?c] exI [of _ r]) auto
qed

text \<open>
  The work of the server is bounded by the connections it accepts: in any run, at most four handlers
  have been executed per accepted connection, so no connection can keep the single thread busy by
  itself.
\<close>

theorem handlers_bounded:
  assumes "server_run L db (server_init w) es s"
  shows "handled es \<le> 4 * accepted es"
  using run_work [OF assms] by simp

lemma handlers_bounded_witness:
  "handled [Accept, Read 0 (Some get_request), Wrote 0, Wait_done 0] \<le> 4 * accepted [Accept, Read 0 (Some get_request), Wrote 0, Wait_done 0]"
proof -
  obtain s where s: "server_run ref_libpq sample_db (server_init (sample_state [])) [Accept, Read 0 (Some get_request), Wrote 0, Wait_done 0] s"
    using sample_run by blast
  show ?thesis by (rule handlers_bounded [OF s])
qed

text \<open>
  C29. Every connection comes to its end.  In any run at most four handlers are executed per accepted connection; and
  when the server, still running, has no handler left to execute, every connection is released.  Its socket was closed
  if and only if its timer expired before its response was written.  Otherwise a request was read, the answer to it was
  written, and only the sending side was shut down: a timer that is still armed when the response is written is
  cancelled and closes nothing.
\<close>

theorem connection_ends:
  assumes "server_run L db (server_init w) es s" "status s = Running" "\<forall>e s'. is_handler e \<longrightarrow> \<not> server_step L db s e s'"
    and "i < length (conns s)" "c = conns s ! i"
  shows "handled es \<le> 4 * accepted es \<and> released c \<and> (sock c = Closed \<longleftrightarrow> expired_first i es) \<and>
    (\<not> expired_first i es \<longrightarrow> sock c = Send_shut \<and> Wrote i \<in> set es \<and>
       (\<exists>q r. Read i (Some q) \<in> set es \<and> resp_of c = Some r \<and> answers L db q r))"
proof -
  have l: "conn_log i es True c" using server_run_log [OF assms(1)] assms(2,4,5) by (simp add: server_log_def)
  have o: "conn_ok L db c" using server_run_ok [OF assms(1)] assms(4,5) by simp
  have no: "\<not> server_step L db s (Read i None) s'" "\<not> server_step L db s (Wrote i) s'" "\<not> server_step L db s (Expire i) s'"
    "\<not> server_step L db s (Wait_done i) s'" for s'
    using assms(3) by auto
  have "\<not> reading c"
    using server_step.read [of s i L db None "c\<lparr>reading := False\<rparr>" "world s"] no(1) assms(2,4,5) by (auto simp: on_read_def retA_def)
  moreover have "\<not> writing c" using server_step.wrote [of s i L db] no(2) assms(2,4,5) by auto
  moreover have "deadline c = Waited"
    using server_step.expire [of s i L db] server_step.wait_done [of s i L db] no(3,4) assms(2,4,5) by (cases "deadline c") auto
  ultimately have r: "released c" by (simp add: released_def)
  moreover have "sock c = Closed \<longleftrightarrow> expired_first i es" using l r by (simp add: conn_log_def released_def)
  moreover have "sock c \<noteq> Open" using o r by (simp add: conn_ok_def released_def)
  ultimately show ?thesis
    using run_work [OF assms(1)] l o by (cases "sock c") (fastforce simp: conn_log_def conn_ok_def)+
qed

lemma connection_ends_witness:
  "\<exists>c. released c \<and> sock c = Send_shut \<and> (\<exists>r. resp_of c = Some r \<and> answers ref_libpq sample_db get_request r)"
proof -
  let ?es = "[Accept, Read 0 (Some get_request), Wrote 0, Wait_done 0]"
  obtain s where s: "server_run ref_libpq sample_db (server_init (sample_state [])) ?es s"
    and c: "conns s = [on_wait (on_write (writeResponse (out form_page (set_html (post_response get_request)))
      (start\<lparr>reading := False, req_of := Some get_request\<rparr>)))]"
    and st: "status s = Running"
    using sample_run by blast
  have f: "\<not> reading (conns s ! 0)" "\<not> writing (conns s ! 0)" "deadline (conns s ! 0) = Waited" "length (conns s) = 1"
    by (simp_all add: c on_wait_def on_write_def writeResponse_def start_def)
  have "\<forall>e s'. is_handler e \<longrightarrow> \<not> server_step ref_libpq sample_db s e s'"
    using f by (auto elim!: server_step_cases)
  from connection_ends [OF s st this, of 0] f(4) show ?thesis by (auto simp: expired_first_def)
qed

text \<open>
  C39. One failed query ends the server.  A search request (with a keyword and a value that can be decoded) whose query
  throws can be read by a running server whatever else it is doing; the exception leaves the event loop, and in the state reached no
  handler of any connection runs any more.
\<close>

theorem failed_search_stops_server:
  assumes "status s = Running" "i < length (conns s)" "reading (conns s ! i)"
    and "search_request q v" "query_words (toLower v) = k # ks" "getUrl L db k (world s) = (Inl e, w)"
  shows "\<exists>s'. server_step L db s (Read i (Some q)) s' \<and> status s' = Stopped e \<and> conns s' = conns s \<and>
    (\<forall>ev s''. \<not> server_step L db s' ev s'')"
proof -
  from processRequest_throws [OF assms(4-6)] have "on_read L db (Some q) (conns s ! i) (world s) = (Inl e, w)"
    by (simp add: on_read_def bindA_Inl)
  from server_step.read_throws [OF assms(1-3) this] have "server_step L db s (Read i (Some q)) (s\<lparr>world := w, status := Stopped e\<rparr>)" .
  moreover have "\<not> server_step L db (s\<lparr>world := w, status := Stopped e\<rparr>) ev s''" for ev s''
    by (auto elim: server_step_cases)
  ultimately show ?thesis by fastforce
qed

lemma failed_search_stops_server_witness:
  "\<exists>s'. server_step (ref_libpq\<lparr>PQconnectdb := \<lambda>cs s. (None, s)\<rparr>) sample_db
     ((server_init (sample_state []))\<lparr>conns := [start, start]\<rparr>) (Read 1 (Some (sample_query ''hello''))) s' \<and> status s' = Stopped Bad_alloc"
proof -
  let ?s = "(server_init (sample_state []))\<lparr>conns := [start, start]\<rparr>"
  have w: "query_words (toLower ''hello'') = [''hello'']" by code_simp
  have sr: "search_request (sample_query ''hello'') ''hello''" by (rule search_request_sample) simp_all
  have g: "getUrl (ref_libpq\<lparr>PQconnectdb := \<lambda>cs s. (None, s)\<rparr>) sample_db ''hello'' (world ?s) = (Inl Bad_alloc, world ?s)"
    by (simp add: getUrl_def with_work_def conn_init_def act_apply)
  have "status ?s = Running" "1 < length (conns ?s)" "reading (conns ?s ! 1)"
    by (simp_all add: server_init_def start_def)
  from failed_search_stops_server [OF this sr w g] show ?thesis by blast
qed

section \<open>\<open>main\<close>\<close>

text \<open>
  The configuration is read, the database opened, the acceptor created (\<open>listen\<close>, which may throw), and the
  event loop runs.  \<open>main\<close> catches \<open>std::exception\<close> only.
\<close>

datatype exit = Terminated exn | Exit_failure exn | Serving DB_Client "16 word"

definition server_setup ::
    "'s libpq \<Rightarrow> (16 word \<Rightarrow> ('s, unit) act) \<Rightarrow> (string \<Rightarrow> string option) \<Rightarrow> ('s, DB_Client \<times> 16 word) act" where
  "server_setup L listen fs =
     bindA (liftR (INI_file fs ''../config.ini'')) (\<lambda>ini_file.
     bindA (liftR (get_value ini_file ''DataBase.bd_host'')) (\<lambda>hst.
     bindA (liftR (get_value ini_file ''DataBase.bd_name'')) (\<lambda>name.
     bindA (liftR (get_value ini_file ''DataBase.bd_port'')) (\<lambda>dbPort.
     bindA (liftR (get_value ini_file ''DataBase.bd_user'')) (\<lambda>user.
     bindA (liftR (get_value ini_file ''DataBase.bd_pass'')) (\<lambda>pass.
     bindA (DB_Client L hst dbPort name user pass) (\<lambda>db.
     bindA (liftR (bindR (get_value ini_file ''Server.server_port'') stoi)) (\<lambda>n.
     let port = word_of_int n in
     bindA (listen port) (\<lambda>_. retA (db, port))))))))))"

definition server_main ::
    "'s libpq \<Rightarrow> (16 word \<Rightarrow> ('s, unit) act) \<Rightarrow> (string \<Rightarrow> string option) \<Rightarrow> 's \<Rightarrow> exit \<times> 's" where
  "server_main L listen fs w =
     (case server_setup L listen fs w of
        (Inl e, w) \<Rightarrow> (if is_std_exception e then Exit_failure e else Terminated e, w)
      | (Inr (db, port), w) \<Rightarrow> (Serving db port, w))"

text \<open>
  Starting the server.  With a configuration file that is the rendering of a well-formed
  configuration holding the six items, and a database that keeps its contract and does not fail, \<open>main\<close> opens the database
  the configuration names, creates the tables, and listens on the configured port taken modulo
  65536: a configured port outside that range is not rejected.
\<close>

theorem server_main_serves:
  assumes "wf_ini cfg" "fits (render cfg)" "fs ''../config.ini'' = Some (render cfg)"
    and "config_gives cfg ''DataBase'' ''bd_host'' h" "config_gives cfg ''DataBase'' ''bd_name'' n"
    and "config_gives cfg ''DataBase'' ''bd_port'' po" "config_gives cfg ''DataBase'' ''bd_user'' u"
    and "config_gives cfg ''DataBase'' ''bd_pass'' pw" "config_gives cfg ''Server'' ''server_port'' sp"
    and "stoi sp = Inr p" "calm (sem s)" "no_tx (sessions (sem s))" "\<forall>port w. listen port w = (Inr (), w)"
    and "serves L sem (''host = '' @ h @ '' port= '' @ po @ '' dbname = '' @ n @ '' user = '' @ u @ '' password = '' @ pw)"
  shows "\<exists>db port s'. server_main L listen fs s = (Serving db port, s') \<and> uint port = p mod 65536 \<and>
    connectionString db = ''host = '' @ h @ '' port= '' @ po @ '' dbname = '' @ n @ '' user = '' @ u @ '' password = '' @ pw \<and>
    committed (sem s') = with_tables (committed (sem s))"
proof -
  let ?cs = "''host = '' @ h @ '' port= '' @ po @ '' dbname = '' @ n @ '' user = '' @ u @ '' password = '' @ pw"
  from config_gives_value [of cfg fs, OF assms(1-3)] obtain ini where ini: "INI_file fs ''../config.ini'' = Inr ini"
    and get: "\<And>sec key w. config_gives cfg sec key w \<Longrightarrow> CHR ''.'' \<notin> set sec \<Longrightarrow> fits (sec @ ''.'' @ key) \<Longrightarrow>
      get_value ini (sec @ ''.'' @ key) = Inr w" by blast
  have g: "get_value ini ''DataBase.bd_host'' = Inr h" "get_value ini ''DataBase.bd_name'' = Inr n"
    "get_value ini ''DataBase.bd_port'' = Inr po" "get_value ini ''DataBase.bd_user'' = Inr u"
    "get_value ini ''DataBase.bd_pass'' = Inr pw" "get_value ini ''Server.server_port'' = Inr sp"
    using assms(4-9) get [of "''DataBase''"] get [of "''Server''"] by (fastforce simp: fits_def npos_def)+
  have cs: "?cs = createConnectionString \<lparr>connectionString = [], DBHost = h, DBPort = po, DBName = n, DBUser = u, DBPassword = pw\<rparr>"
    by (simp add: createConnectionString_def)
  have pg: "pg_server L sem ?cs" by (rule pg_server.intro) (rule assms(14))
  from pg_server.DB_Client_serves [OF pg assms(11,12) cs] obtain s' where s': "DB_Client L h po n u pw s =
      (Inr \<lparr>connectionString = ?cs, DBHost = h, DBPort = po, DBName = n, DBUser = u, DBPassword = pw\<rparr>, s')"
    "committed (sem s') = with_tables (committed (sem s))" by blast
  define db where "db = \<lparr>connectionString = ?cs, DBHost = h, DBPort = po, DBName = n, DBUser = u, DBPassword = pw\<rparr>"
  have d: "DB_Client L h po n u pw s = (Inr db, s')" unfolding db_def by (rule s'(1))
  have "server_main L listen fs s = (Serving db (word_of_int p), s')"
    unfolding server_main_def server_setup_def ini
    by (simp add: bindA_liftR g bindA_Inr [of "DB_Client L h po n u pw" s, OF d] assms(10,13)
        bindA_Inr [of "listen _"] retA_apply Let_def)
  moreover have "connectionString db = ?cs" by (simp only: db_def DB_Client.simps)
  moreover have "uint (word_of_int p :: 16 word) = p mod 65536" by (simp add: uint_word_of_int)
  ultimately show ?thesis using s'(2) by blast
qed

definition sample_config :: "myINI" where
  "sample_config = [(''DataBase'', [(''bd_host'', ''h''), (''bd_name'', ''n''), (''bd_pass'', ''pw''), (''bd_port'', ''5432''), (''bd_user'', ''u'')]),
     (''Server'', [(''server_port'', ''65616'')])]"

text \<open>A configured port of 65616 is port 80.\<close>

lemma server_main_serves_witness:
  "\<exists>db port s'. server_main ref_libpq (\<lambda>_ w. (Inr (), w)) (\<lambda>_. Some (render sample_config)) (sample_state []) = (Serving db port, s') \<and>
     uint port = 80"
proof -
  have wf: "wf_ini sample_config" by code_simp
  have f: "fits (render sample_config)"
    by (simp add: fits_def npos_def render_def render_section_def render_item_def sample_config_def)
  have g: "config_gives sample_config ''DataBase'' ''bd_host'' ''h''" "config_gives sample_config ''DataBase'' ''bd_name'' ''n''"
    "config_gives sample_config ''DataBase'' ''bd_port'' ''5432''" "config_gives sample_config ''DataBase'' ''bd_user'' ''u''"
    "config_gives sample_config ''DataBase'' ''bd_pass'' ''pw''" "config_gives sample_config ''Server'' ''server_port'' ''65616''"
    by code_simp+
  have "nat_to_string 65616 = ''65616''" by (simp add: nat_to_string.simps digit_char_def char_of_def bit_iff_odd)
  with stoi_nat_to_string [of 65616] have p: "stoi ''65616'' = Inr 65616" by (simp add: INT_MAX_def)
  have l: "\<forall>port w. (\<lambda>_ w. (Inr (), w)) port w = (Inr (), w)" by simp
  from server_main_serves [of sample_config "\<lambda>_. Some (render sample_config)", OF wf f refl g p sample_calm sample_no_tx l serves_ref]
  show ?thesis by (elim exE conjE) (intro exI conjI, assumption, simp)
qed

end
