(* ===== verification/HTML_Parser.thy ===== *)
theory HTML_Parser
  imports HTML_Words HTML_Links HTTP_Client DB_Client
begin

text \<open>
  The class \<open>HTML_Parser\<close> of \<open>Include/HTML_parser.h\<close>: one page from address to index.  \<open>parse\<close> composes
  the download (\<open>getContent\<close>), the word count (\<open>extractWords\<close>), the database (\<open>addLink\<close>) and the links
  (\<open>extractLink\<close>).  The outside is a pair: the network and the database server.
\<close>

section \<open>The class\<close>

record HTML_Parser =
  p_url :: string
  p_link :: Link
  htmlContent :: string
  wordCount :: word_map
  p_db :: DB_Client
  subLinks :: "string list"

definition HTML_Parser :: "DB_Client \<Rightarrow> string \<Rightarrow> HTML_Parser res" where
  "HTML_Parser db page =
     bindR (UrlToLink_first page) (\<lambda>l.
     Inr \<lparr>p_url = page, p_link = l, htmlContent = [], wordCount = [], p_db = db, subLinks = []\<rparr>)"

definition GetURL :: "HTML_Parser \<Rightarrow> string" where
  "GetURL p =
     (if protocol (p_link p) = HTTP then ''http://'' @ host (p_link p) @ query (p_link p)
      else ''https://'' @ host (p_link p) @ query (p_link p))"

definition GetLink :: "HTML_Parser \<Rightarrow> Link" where
  "GetLink p = p_link p"

definition getSubLinks :: "HTML_Parser \<Rightarrow> string list" where
  "getSubLinks p = subLinks p"

text \<open>A computation of one part of the outside.\<close>

definition fstA :: "('n, 'a) act \<Rightarrow> ('n \<times> 's, 'a) act" where
  "fstA m w = (case m (fst w) of (r, n) \<Rightarrow> (r, (n, snd w)))"

definition sndA :: "('s, 'a) act \<Rightarrow> ('n \<times> 's, 'a) act" where
  "sndA m w = (case m (snd w) of (r, s) \<Rightarrow> (r, (fst w, s)))"

text \<open>The outcome \<open>None\<close> is the undefined behaviour of \<open>extractWords\<close>.\<close>

definition parse :: "'n net \<Rightarrow> 's libpq \<Rightarrow> HTML_Parser \<Rightarrow> ('n \<times> 's, (bool \<times> HTML_Parser) option) act" where
  "parse N L p =
     bindA (fstA (getContent N (p_link p))) (\<lambda>html.
     let p = p\<lparr>htmlContent := html\<rparr> in
     if length html = 0 then retA (Some (False, p))
     else
       bindA (liftR (extractWords html)) (\<lambda>words.
       case words of
         None \<Rightarrow> retA None
       | Some words \<Rightarrow>
           let p = p\<lparr>wordCount := words\<rparr> in
           if length words = 0 then retA (Some (False, p))
           else
             bindA (sndA (addLink L (p_db p) words (GetURL p))) (\<lambda>_.
             bindA (liftR (extractLink (p_link p) html)) (\<lambda>links.
             retA (Some (True, p\<lparr>subLinks := links\<rparr>))))))"

section \<open>The words of a page as database keys\<close>

lemma GetURL_LinkToURL: "GetURL p = LinkToURL (p_link p)"
  by (cases "protocol (p_link p)") (simp_all add: GetURL_def LinkToURL_def)

lemma scan_letters:
  "w \<in> set (scan_tag s) \<Longrightarrow> set w \<subseteq> set letters"
  "set v \<subseteq> set letters \<Longrightarrow> w \<in> set (scan_text v s) \<Longrightarrow> set w \<subseteq> set letters"
  by (induction s and v s rule: scan_tag_scan_text.induct) (auto simp: isAlpha_iff split: if_splits)

lemma scan_length: "length (scan_tag s) \<le> length s" "length (scan_text v s) \<le> length s"
  by (induction s and v s rule: scan_tag_scan_text.induct) auto

lemma tolower_letter: "c \<in> set letters \<Longrightarrow> tolower_c c \<in> set letters"
proof -
  have "\<forall>c \<in> set letters. tolower_c c \<in> set letters" by code_simp
  then show "c \<in> set letters \<Longrightarrow> tolower_c c \<in> set letters" by blast
qed

lemma letters_safe: "set w \<subseteq> set letters \<Longrightarrow> length w \<le> 2000 \<Longrightarrow> safe_literal w"
proof (rule safe_literal_ascii)
  assume w: "set w \<subseteq> set letters"
  have "\<forall>c \<in> set letters. (of_char c :: nat) < 0x80 \<and> c \<noteq> CHR 0x27 \<and> c \<noteq> CHR 0x00" by code_simp
  with w show "list_all (\<lambda>c. (of_char c :: nat) < 0x80 \<and> c \<noteq> CHR 0x27 \<and> c \<noteq> CHR 0x00) w" by (auto simp: list_all_iff)
qed

definition page_words :: "string \<Rightarrow> string list" where
  "page_words html = indexed_words (scan_tag (page_text html))"

text \<open>The words of a page fit into the index of the table of keywords.\<close>

definition short_words :: "string \<Rightarrow> bool" where
  "short_words html \<longleftrightarrow> list_all (\<lambda>w. length w \<le> 2000) (page_words html)"

lemma page_words_letters: "w \<in> set (page_words html) \<Longrightarrow> set w \<subseteq> set letters"
  using scan_letters(1) tolower_letter by (fastforce simp: page_words_def indexed_words_def toLower_def)

lemma extractWords_page:
  assumes "fits html" "int (length (page_text html)) \<le> INT_MAX" "short_words html"
  shows "\<exists>m. extractWords html = Inr (Some m) \<and> words_ok m \<and> (m = [] \<longleftrightarrow> page_words html = []) \<and>
    length m = card (set (page_words html)) \<and>
    (\<forall>k. map_option (\<lambda>n. int (unat n)) (map_of m k) =
      (if k \<in> set (page_words html) then Some (int (count_list (page_words html) k)) else None))"
proof -
  let ?ws = "page_words html" and ?m = "fold count_word (scan_tag (page_text html)) []"
  have get: "map_of ?m k = (if k \<in> set ?ws then Some (of_nat (count_list ?ws k)) else None)" for k
    using fold_count_get by (simp add: page_words_def flip: map_get_map_of)
  have "length ?ws \<le> length (page_text html)"
    using scan_length(1) [of "page_text html"] by (simp add: page_words_def indexed_words_def) (meson le_trans length_filter_le)
  then have c: "int (count_list ?ws k) \<le> INT_MAX" for k
    using assms(2) count_le_length [of ?ws k] by linarith
  then have u: "unat (of_nat (count_list ?ws k) :: 32 word) = count_list ?ws k" for k
  proof -
    have "count_list ?ws k < 2 ^ 32" using c [of k] by (simp add: INT_MAX_def)
    then show ?thesis by (simp add: unat_of_nat take_bit_nat_eq_self)
  qed
  have u': "uint (of_nat (count_list ?ws k) :: 32 word) = int (count_list ?ws k)" for k
    using arg_cong [OF u [of k], of int] by simp
  have d: "distinct (map fst ?m)"
    using map_ok_fold_count by (simp add: map_ok_def strict_sorted_iff)
  have "safe_literal k \<and> int (unat n) \<le> INT_MAX" if "(k, n) \<in> set ?m" for k n
  proof -
    from d that have "map_of ?m k = Some n" by simp
    with get [of k] have "k \<in> set ?ws" "n = of_nat (count_list ?ws k)" by (auto split: if_splits)
    moreover from this assms(3) have "length k \<le> 2000" by (simp add: short_words_def list_all_iff)
    ultimately show ?thesis using page_words_letters letters_safe c u by auto
  qed
  with d have "words_ok ?m" by (auto simp: words_ok_def list_all_iff)
  moreover have "length ?m = card (set ?ws)"
  proof -
    have "fst ` set ?m = set ?ws"
      using get by (metis (no_types, lifting) domIff dom_map_of_conv_image_fst option.distinct(1) set_eqI)
    then show ?thesis using d by (metis distinct_card length_map list.set_map)
  qed
  moreover have "?m = [] \<longleftrightarrow> ?ws = []"
  proof
    assume "?m = []"
    with get have "k \<notin> set ?ws" for k by (metis map_of.simps(1) option.distinct(1))
    then show "?ws = []" by (metis list.set_intros(1) neq_Nil_conv)
  next
    assume "?ws = []"
    then have "map_of ?m = Map.empty" using get by (simp add: fun_eq_iff)
    then show "?m = []" by simp
  qed
  ultimately show ?thesis
    using extractWords_scan [OF assms(1)] get u' by auto
qed

lemma page_words_Nil: "page_words [] = []"
  by code_simp

section \<open>One page\<close>

lemma fstA_apply: "m n = (r, n') \<Longrightarrow> fstA m (n, s) = (r, (n', s))"
  by (simp add: fstA_def)

lemma sndA_apply: "m s = (r, s') \<Longrightarrow> sndA m (n, s) = (r, (n, s'))"
  by (simp add: sndA_def)

lemma parse_page:
  assumes "getContent N (p_link p) n = (Inr html, n')" "html \<noteq> []"
    and "extractWords html = Inr (Some m)" "m \<noteq> []" "addLink L (p_db p) m (GetURL p) s = (Inr (), s')"
  shows "parse N L p (n, s) =
    (case extractLink (p_link p) html of
       Inl e \<Rightarrow> (Inl e, (n', s'))
     | Inr links \<Rightarrow> (Inr (Some (True, p\<lparr>htmlContent := html, wordCount := m, subLinks := links\<rparr>)), (n', s')))"
proof -
  have g: "GetURL (p\<lparr>htmlContent := html, wordCount := m\<rparr>) = GetURL p" by (simp add: GetURL_def)
  show ?thesis
    unfolding parse_def bindA_Inr [of "fstA _", OF fstA_apply [of "getContent N (p_link p)" n, OF assms(1)]] Let_def
    using assms(2-5)
    by (simp add: bindA_liftR bindA_Inr [of "sndA _", OF sndA_apply] g retA_def)
      (simp add: bindA_def liftR_def split: sum.split)
qed

context pg_server
begin

lemma parse_new:
  assumes "server_ok (sem s)" "calm (sem s)" "connectionString (p_db p) = cs"
    and "getContent N (p_link p) n = (Inr html, n')" "fits html" "int (length (page_text html)) \<le> INT_MAX"
    and "page_words html \<noteq> []" "short_words html" "seq_room (card (set (page_words html))) (sem s)"
    and "safe_literal (GetURL p)" "id_of (url_rows (committed (sem s))) (GetURL p) = None"
    and "extractLink (p_link p) html = Inr links"
  shows "\<exists>p' s'. parse N L p (n, s) = (Inr (Some (True, p')), (n', s')) \<and> getSubLinks p' = links \<and>
    server_ok (sem s') \<and> calm (sem s') \<and>
    (\<forall>k u. quantity (committed (sem s')) k u =
      (if u = GetURL p then (if k \<in> set (page_words html) then Some (int (count_list (page_words html) k)) else None)
       else quantity (committed (sem s)) k u))"
proof -
  from extractWords_page [OF assms(5,6,8)] assms(7,9) obtain m where m: "extractWords html = Inr (Some m)" "words_ok m" "m \<noteq> []"
    and room: "seq_room (length m) (sem s)"
    and get: "\<And>k. map_option (\<lambda>n. int (unat n)) (map_of m k) =
      (if k \<in> set (page_words html) then Some (int (count_list (page_words html) k)) else None)" by auto
  from addLink_new [OF assms(1,2,10,11,3) m(2) room] obtain s' where
    a: "addLink L (p_db p) m (GetURL p) s = (Inr (), s')" "server_ok (sem s')" "calm (sem s')"
    "\<forall>k u. quantity (committed (sem s')) k u =
      (if u = GetURL p then map_option (\<lambda>n. int (unat n)) (map_of m k) else quantity (committed (sem s)) k u)" by blast
  have "html \<noteq> []" using assms(7) page_words_Nil by auto
  from parse_page [OF assms(4) this m(1,3) a(1)] assms(12) a(2-4) get show ?thesis
    by (simp add: getSubLinks_def)
qed

end

section \<open>Properties\<close>

text \<open>
  C2. Indexing a page, end to end.  On a database server that keeps its contract and does not fail, with the tables
  consistent, no transaction open and numbers left in the sequences, let the download give a page whose
  text, title included, has at most \<open>INT_MAX\<close> characters, with at least one word and none longer than 2000, on which
  every link target is well formed;
  and let its address be new to the database, valid UTF-8 of at most 2000 bytes and without a quote (the address is
  pasted into the statement).  Then \<open>parse\<close> succeeds, returns the links of the page, and afterwards the database says
  for every keyword how often it is among the words read from that page, all other counts being what they were.
\<close>

theorem parse_indexes:
  assumes "serves L sem (connectionString (p_db p))" "server_ok (sem s)" "calm (sem s)"
    and "getContent N (p_link p) n = (Inr html, n')" "fits html" "int (length (page_text html)) \<le> INT_MAX"
    and "page_words html \<noteq> []" "short_words html" "seq_room (card (set (page_words html))) (sem s)"
    and "safe_literal (GetURL p)" "id_of (url_rows (committed (sem s))) (GetURL p) = None"
    and "extractLink (p_link p) html = Inr links"
  shows "\<exists>p' s'. parse N L p (n, s) = (Inr (Some (True, p')), (n', s')) \<and> getSubLinks p' = links \<and>
    server_ok (sem s') \<and> calm (sem s') \<and>
    (\<forall>k u. quantity (committed (sem s')) k u =
      (if u = GetURL p then (if k \<in> set (page_words html) then Some (int (count_list (page_words html) k)) else None)
       else quantity (committed (sem s)) k u))"
  by (rule pg_server.parse_new [OF pg_server.intro [OF assms(1)] assms(2,3) refl assms(4-12)])

text \<open>The page of the witnesses: \<open>start\<close> addressed over HTTPS, with one link.\<close>

definition sample_page :: response where
  \<open>sample_page = \<lparr>result_int = 200, headers = [], body = [''<body>Stork sees a stork <a href="/nest"> </a></body>'']\<rparr>\<close>

definition sample_parser :: HTML_Parser where
  "sample_parser = \<lparr>p_url = ''https://wiki.org/index'', p_link = wiki, htmlContent = [], wordCount = [], p_db = sample_db, subLinks = []\<rparr>"

lemma sample_download: "getContent scripted wiki [sample_page] = (Inr (concat (body sample_page)), [])"
  by code_simp

lemma sample_page_facts:
  "page_words (concat (body sample_page)) = [''stork'', ''sees'', ''stork'']"
  "extractLink wiki (concat (body sample_page)) = Inr [''https://wiki.org/nest'']"
  "fits (concat (body sample_page))" "int (length (page_text (concat (body sample_page)))) \<le> INT_MAX"
proof -
  show "page_words (concat (body sample_page)) = [''stork'', ''sees'', ''stork'']" by code_simp
  show "extractLink wiki (concat (body sample_page)) = Inr [''https://wiki.org/nest'']" by code_simp
  show "fits (concat (body sample_page))" by (simp add: fits_def npos_def sample_page_def)
  have "length (page_text (concat (body sample_page))) \<le> 100" by code_simp
  then show "int (length (page_text (concat (body sample_page)))) \<le> INT_MAX" by (simp add: INT_MAX_def)
qed

lemma sample_page_words:
  "short_words (concat (body sample_page))" "seq_room (card (set (page_words (concat (body sample_page))))) (ref_state (sample_state fs))"
  by (simp add: short_words_def sample_page_facts(1)) (rule sample_room, simp add: sample_page_facts(1) card_insert_if)

lemma wiki_literal: "safe_literal ''https://wiki.org/index''"
  by (rule safe_literal_ascii; simp)

lemma parse_indexes_witness:
  "\<exists>p' s'. parse scripted ref_libpq sample_parser ([sample_page], sample_state []) = (Inr (Some (True, p')), ([], s')) \<and>
     getSubLinks p' = [''https://wiki.org/nest''] \<and>
     quantity (committed (ref_state s')) ''stork'' ''https://wiki.org/index'' = Some 2 \<and>
     quantity (committed (ref_state s')) ''hello'' ''http://a.org/'' = Some 7"
proof -
  have p: "connectionString (p_db sample_parser) = connectionString sample_db" "p_link sample_parser = wiki"
    "GetURL sample_parser = ''https://wiki.org/index''"
    by (simp_all add: sample_parser_def GetURL_def wiki_def)
  have u: "safe_literal (GetURL sample_parser)" "id_of (url_rows (committed (ref_state (sample_state [])))) (GetURL sample_parser) = None"
    "quantity (committed (ref_state (sample_state []))) ''hello'' ''http://a.org/'' = Some 7"
    by (simp_all add: p wiki_literal sample_facts sample_tables_def id_of_def quantity_def)
  have w: "page_words (concat (body sample_page)) \<noteq> []" by (simp add: sample_page_facts(1))
  from parse_indexes [of ref_libpq ref_state sample_parser, OF serves_ref sample_facts(1) sample_calm,
      of scripted "[sample_page]" "concat (body sample_page)" "[]" "[''https://wiki.org/nest'']", unfolded p(2),
      OF sample_download sample_page_facts(3,4) w sample_page_words u(1,2) sample_page_facts(2)]
  obtain p' s' where r: "parse scripted ref_libpq sample_parser ([sample_page], sample_state []) = (Inr (Some (True, p')), ([], s'))"
    "getSubLinks p' = [''https://wiki.org/nest'']"
    and q: "\<forall>k u. quantity (committed (ref_state s')) k u = (if u = GetURL sample_parser then
       (if k \<in> set (page_words (concat (body sample_page))) then Some (int (count_list (page_words (concat (body sample_page))) k)) else None)
       else quantity (committed (ref_state (sample_state []))) k u)" by blast
  from q have "quantity (committed (ref_state s')) ''stork'' ''https://wiki.org/index'' = Some 2"
    "quantity (committed (ref_state s')) ''hello'' ''http://a.org/'' = Some 7"
    using u(3) by (simp_all add: p(3) sample_page_facts(1))
  with r show ?thesis by blast
qed

text \<open>
  A page that could not be downloaded, or on which the scan finds no word, is not put into the
  database and its links are not followed: \<open>parse\<close> returns \<open>false\<close> without a query.
\<close>

theorem parse_skips:
  assumes "getContent N (p_link p) n = (Inr html, n')" "fits html" "int (length (page_text html)) \<le> INT_MAX"
    and "page_words html = []"
  shows "\<exists>p'. parse N L p (n, s) = (Inr (Some (False, p')), (n', s)) \<and> getSubLinks p' = subLinks p"
proof -
  from assms(4) have "short_words html" by (simp add: short_words_def)
  from extractWords_page [OF assms(2,3) this] assms(4) have "extractWords html = Inr (Some [])" by auto
  then show ?thesis
    unfolding parse_def bindA_Inr [of "fstA _", OF fstA_apply [of "getContent N (p_link p)" n, OF assms(1)]] Let_def
    by (simp add: bindA_liftR retA_def getSubLinks_def)
qed

lemma parse_skips_witness:
  "\<exists>p'. parse scripted ref_libpq sample_parser ([], sample_state []) = (Inr (Some (False, p')), ([], sample_state []))"
proof -
  have d: "getContent scripted (p_link sample_parser) [] = (Inr [], [])" by code_simp
  have "length (page_text []) \<le> 100" by code_simp
  then have "int (length (page_text [])) \<le> INT_MAX" by (simp add: INT_MAX_def)
  from parse_skips [OF d _ this page_words_Nil, of ref_libpq "sample_state []"] show ?thesis
    by (auto simp: fits_def npos_def)
qed

text \<open>
  A page with an empty link target is indexed and lost: its words are committed before the links are
  read, then \<open>at(0)\<close> on the empty target throws out of \<open>parse\<close>, so none of its links is followed, and the
  page will not be read again because its url is in the table.
\<close>

theorem parse_throws_after_commit:
  assumes "serves L sem (connectionString (p_db p))" "server_ok (sem s)" "calm (sem s)"
    and "getContent N (p_link p) n = (Inr html, n')" "fits html" "int (length (page_text html)) \<le> INT_MAX"
    and "page_words html \<noteq> []" "short_words html" "seq_room (card (set (page_words html))) (sem s)"
    and "safe_literal (GetURL p)" "id_of (url_rows (committed (sem s))) (GetURL p) = None"
    and "extractLink (p_link p) html = Inl e"
  shows "\<exists>s'. parse N L p (n, s) = (Inl e, (n', s')) \<and> id_of (url_rows (committed (sem s'))) (GetURL p) \<noteq> None \<and>
    (\<forall>k \<in> set (page_words html). quantity (committed (sem s')) k (GetURL p) \<noteq> None)"
proof -
  from extractWords_page [OF assms(5,6,8)] assms(7,9) obtain m where m: "extractWords html = Inr (Some m)" "words_ok m" "m \<noteq> []"
    and room: "seq_room (length m) (sem s)"
    and get: "\<And>k. map_option (\<lambda>n. int (unat n)) (map_of m k) =
      (if k \<in> set (page_words html) then Some (int (count_list (page_words html) k)) else None)" by auto
  have pg: "pg_server L sem (connectionString (p_db p))" by (rule pg_server.intro) (rule assms(1))
  from pg_server.addLink_new [OF pg assms(2,3,10,11) refl m(2) room] obtain s' where
    a: "addLink L (p_db p) m (GetURL p) s = (Inr (), s')"
    "url_rows (committed (sem s')) = url_rows (committed (sem s)) @ [(url_seq (sem s), GetURL p)]"
    "\<forall>k u. quantity (committed (sem s')) k u =
      (if u = GetURL p then map_option (\<lambda>n. int (unat n)) (map_of m k) else quantity (committed (sem s)) k u)" by blast
  have "html \<noteq> []" using assms(7) page_words_Nil by auto
  from parse_page [OF assms(4) this m(1,3) a(1)] assms(12) a(2,3) get show ?thesis
    by (simp add: id_of_None)
qed

definition sample_page_empty :: response where
  \<open>sample_page_empty = \<lparr>result_int = 200, headers = [], body = [''<body>Stork <a href="">here</a></body>'']\<rparr>\<close>

lemma parse_throws_after_commit_witness:
  "\<exists>s'. parse scripted ref_libpq sample_parser ([sample_page_empty], sample_state []) =
       (Inl (Out_of_range ''basic_string::at''), ([], s')) \<and>
     id_of (url_rows (committed (ref_state s'))) ''https://wiki.org/index'' \<noteq> None"
proof -
  have p: "connectionString (p_db sample_parser) = connectionString sample_db" "p_link sample_parser = wiki"
    "GetURL sample_parser = ''https://wiki.org/index''"
    by (simp_all add: sample_parser_def GetURL_def wiki_def)
  have u: "safe_literal (GetURL sample_parser)" "id_of (url_rows (committed (ref_state (sample_state [])))) (GetURL sample_parser) = None"
    by (simp_all add: p wiki_literal sample_facts sample_tables_def id_of_def)
  have d: "getContent scripted wiki [sample_page_empty] = (Inr (concat (body sample_page_empty)), [])"
    and pw: "page_words (concat (body sample_page_empty)) = [''stork'', ''here'']"
    and e: "extractLink wiki (concat (body sample_page_empty)) = Inl (Out_of_range ''basic_string::at'')"
    by code_simp+
  have w: "page_words (concat (body sample_page_empty)) \<noteq> []" "short_words (concat (body sample_page_empty))"
    "seq_room (card (set (page_words (concat (body sample_page_empty))))) (ref_state (sample_state []))"
    by (simp_all add: short_words_def pw sample_room)
  have f: "fits (concat (body sample_page_empty))" by (simp add: fits_def npos_def sample_page_empty_def)
  have "length (page_text (concat (body sample_page_empty))) \<le> 100" by code_simp
  then have l: "int (length (page_text (concat (body sample_page_empty)))) \<le> INT_MAX" by (simp add: INT_MAX_def)
  from parse_throws_after_commit [of ref_libpq ref_state sample_parser, OF serves_ref sample_facts(1) sample_calm,
      of scripted "[sample_page_empty]", unfolded p(2), OF d f l w u e]
  show ?thesis unfolding p(3) by blast
qed

end
