(* ===== verification/Web_Crawler.thy ===== *)
theory Web_Crawler
  imports HTML_Parser Safe_Queue INI_File "HOL-Library.Multiset"
begin

text \<open>
  \<open>Crawler/WebCrawler.cpp\<close>: the pool of workers (\<open>doWork\<close>) and \<open>main\<close>.  The program is a set of threads
  over the shared queue and one mutex; a step of the model is one thread running up to its next
  operation on shared state: the test of the queue, taking the mutex, \<open>pop\<close>, processing the page
  (which only the owner of the mutex does), each link, giving the mutex back, the sleep.  \<open>pop\<close> on
  an empty queue waits with the mutex held; nothing ever notifies the condition variable, and the
  model lets a waiting thread continue as soon as the queue is not empty, which is the most any
  wake-up could do.
\<close>

section \<open>The threads\<close>

datatype worker =
    W_test
  | W_lock
  | W_pop
  | W_parse TqueueItem
  | W_links int "string list"
  | W_sleep
  | W_exit

datatype main_thread = M_start | M_join | M_done

datatype crash = Alive | Crashed exn | Crashed_undefined

record ('n, 's) crawler =
  queue :: "TqueueItem Safe_Queue"
  owner :: "nat option"
  workers :: "worker list"
  main :: main_thread
  outside :: "'n \<times> 's"
  crash :: crash

text \<open>
  Creating the parser of a page and parsing it; what \<open>W_links\<close> then goes through: the links if the page
  was parsed and the depth is positive, with the depth of the pages they lead to.
\<close>

definition visit :: "'n net \<Rightarrow> 's libpq \<Rightarrow> DB_Client \<Rightarrow> TqueueItem \<Rightarrow> ('n \<times> 's, worker option) act" where
  "visit N L db work =
     bindA (liftR (HTML_Parser db (url work))) (\<lambda>parser.
     bindA (parse N L parser) (\<lambda>r. retA (
       map_option (\<lambda>(ok, parser). W_links (dept work - 1) (if ok \<and> dept work > 0 then getSubLinks parser else [])) r)))"

definition set_worker :: "nat \<Rightarrow> worker \<Rightarrow> ('n, 's) crawler \<Rightarrow> ('n, 's) crawler" where
  "set_worker i w s = s\<lparr>workers := (workers s)[i := w]\<rparr>"

text \<open>A worker's next step; \<open>None\<close>: it has to wait, or is at its end.\<close>

definition worker_step ::
    "'n net \<Rightarrow> 's libpq \<Rightarrow> DB_Client \<Rightarrow> nat \<Rightarrow> ('n, 's) crawler \<Rightarrow> ('n, 's) crawler option" where
  "worker_step N L db i s =
     (case workers s ! i of
        W_test \<Rightarrow> Some (set_worker i (if sq_empty (queue s) then W_exit else W_lock) s)
      | W_lock \<Rightarrow> if owner s = None then Some (set_worker i W_pop (s\<lparr>owner := Some i\<rparr>)) else None
      | W_pop \<Rightarrow>
          (case pop (queue s) of
             None \<Rightarrow> None
           | Some (work, q) \<Rightarrow> Some (set_worker i (W_parse work) (s\<lparr>queue := q\<rparr>)))
      | W_parse work \<Rightarrow>
          Some (case visit N L db work (outside s) of
             (Inl e, out) \<Rightarrow> s\<lparr>outside := out, crash := Crashed e\<rparr>
           | (Inr None, out) \<Rightarrow> s\<lparr>outside := out, crash := Crashed_undefined\<rparr>
           | (Inr (Some w), out) \<Rightarrow> set_worker i w (s\<lparr>outside := out\<rparr>))
      | W_links d [] \<Rightarrow> Some (set_worker i W_sleep (s\<lparr>owner := None\<rparr>))
      | W_links d (u # us) \<Rightarrow>
          Some (case sndA (findUrl L db u) (outside s) of
             (Inl e, out) \<Rightarrow> s\<lparr>outside := out, crash := Crashed e\<rparr>
           | (Inr found, out) \<Rightarrow>
               set_worker i (W_links d us) (s\<lparr>outside := out,
                 queue := (if found then queue s else push \<lparr>url = u, dept = d\<rparr> (queue s))\<rparr>))
      | W_sleep \<Rightarrow> Some (set_worker i W_test s)
      | W_exit \<Rightarrow> None)"

text \<open>\<open>main\<close> after it has started the threads: push the start page, then join them.\<close>

definition main_step :: "TqueueItem \<Rightarrow> ('n, 's) crawler \<Rightarrow> ('n, 's) crawler option" where
  "main_step item0 s =
     (case main s of
        M_start \<Rightarrow> Some (s\<lparr>queue := push item0 (queue s), main := M_join\<rparr>)
      | M_join \<Rightarrow> if list_all (\<lambda>w. w = W_exit) (workers s) then Some (s\<lparr>main := M_done\<rparr>) else None
      | M_done \<Rightarrow> None)"

inductive crawl_step ::
    "'n net \<Rightarrow> 's libpq \<Rightarrow> DB_Client \<Rightarrow> TqueueItem \<Rightarrow> ('n, 's) crawler \<Rightarrow> ('n, 's) crawler \<Rightarrow> bool"
  for N L db item0 where
  by_worker: "crash s = Alive \<Longrightarrow> i < length (workers s) \<Longrightarrow> worker_step N L db i s = Some s' \<Longrightarrow>
    crawl_step N L db item0 s s'"
| by_main: "crash s = Alive \<Longrightarrow> main_step item0 s = Some s' \<Longrightarrow> crawl_step N L db item0 s s'"

definition crawler_init :: "nat \<Rightarrow> 'n \<times> 's \<Rightarrow> ('n, 's) crawler" where
  "crawler_init cntPool out = \<lparr>queue = sq_new, owner = None, workers = replicate cntPool W_test, main = M_start,
     outside = out, crash = Alive\<rparr>"

definition crawl_reaches :: "'n net \<Rightarrow> 's libpq \<Rightarrow> DB_Client \<Rightarrow> TqueueItem \<Rightarrow> ('n, 's) crawler \<Rightarrow> ('n, 's) crawler \<Rightarrow> bool" where
  "crawl_reaches N L db item0 = (crawl_step N L db item0)\<^sup>*\<^sup>*"

section \<open>Mutual exclusion and depths\<close>

fun critical :: "worker \<Rightarrow> bool" where
  "critical W_pop = True"
| "critical (W_parse _) = True"
| "critical (W_links _ _) = True"
| "critical _ = False"

definition exclusive :: "('n, 's) crawler \<Rightarrow> bool" where
  "exclusive s \<longleftrightarrow> (\<forall>i < length (workers s). critical (workers s ! i) \<longleftrightarrow> owner s = Some i)"

lemma exclusive_set:
  "exclusive s \<Longrightarrow> i < length (workers s) \<Longrightarrow> workers s' = (workers s)[i := w] \<Longrightarrow> owner s' = owner s \<Longrightarrow>
   critical w = critical (workers s ! i) \<Longrightarrow> exclusive s'"
  by (auto simp: exclusive_def nth_list_update)

lemma visit_links: "visit N L db work out = (Inr (Some w), out') \<Longrightarrow> \<exists>us. w = W_links (dept work - 1) us \<and> (dept work \<le> 0 \<longrightarrow> us = [])"
  by (auto simp: visit_def bindA_def liftR_def retA_def split: prod.splits sum.splits if_splits)

lemma worker_step_workers:
  assumes "worker_step N L db i s = Some s'" "crash s' = Alive"
  obtains w where "workers s' = (workers s)[i := w]"
  using assms by (auto simp: worker_step_def set_worker_def split: worker.splits list.splits option.splits prod.splits sum.splits if_splits)

lemma worker_step_exclusive:
  assumes "worker_step N L db i s = Some s'" "exclusive s" "i < length (workers s)"
  shows "exclusive s'"
proof (cases "workers s ! i")
  case W_lock
  with assms show ?thesis
    by (auto simp: worker_step_def exclusive_def set_worker_def nth_list_update split: if_splits)
next
  case (W_parse work)
  obtain r out where v: "visit N L db work (outside s) = (r, out)" by (cases "visit N L db work (outside s)") auto
  with W_parse assms show ?thesis
    by (auto simp: worker_step_def exclusive_def set_worker_def nth_list_update split: sum.splits option.splits if_splits
        dest!: visit_links)
next
  case (W_links d us)
  then have "owner s = Some i" using assms(2,3) by (auto simp: exclusive_def)
  then show ?thesis
  proof (cases us)
    case Nil
    with W_links assms \<open>owner s = Some i\<close> show ?thesis
      by (auto simp: worker_step_def exclusive_def set_worker_def nth_list_update)
  next
    case (Cons u us')
    with W_links assms show ?thesis
      by (auto simp: worker_step_def exclusive_def set_worker_def nth_list_update split: prod.splits sum.splits if_splits)
  qed
next
  case W_test
  with assms show ?thesis
    by (intro exclusive_set [OF assms(2,3), of s' "if sq_empty (queue s) then W_exit else W_lock"])
      (auto simp: worker_step_def set_worker_def)
next
  case W_sleep
  with assms show ?thesis
    by (intro exclusive_set [OF assms(2,3), of s' W_test]) (auto simp: worker_step_def set_worker_def)
next
  case W_pop
  with assms obtain work where "workers s' = (workers s)[i := W_parse work]" "owner s' = owner s"
    by (auto simp: worker_step_def set_worker_def split: option.splits)
  with W_pop show ?thesis by (intro exclusive_set [OF assms(2,3)]) auto
qed (use assms in \<open>simp add: worker_step_def\<close>)

lemma main_step_exclusive: "main_step item0 s = Some s' \<Longrightarrow> exclusive s \<Longrightarrow> exclusive s'"
  by (auto simp: main_step_def exclusive_def split: main_thread.splits if_splits)

lemma worker_step_owner:
  "worker_step N L db j s = Some s' \<Longrightarrow> j < length (workers s) \<Longrightarrow> \<forall>i. owner s = Some i \<longrightarrow> i < length (workers s) \<Longrightarrow>
   \<forall>i. owner s' = Some i \<longrightarrow> i < length (workers s')"
  by (auto simp: worker_step_def set_worker_def
      split: worker.splits list.splits option.splits prod.splits sum.splits if_splits)

lemma main_step_owner: "main_step item0 s = Some s' \<Longrightarrow> owner s' = owner s \<and> workers s' = workers s"
  by (auto simp: main_step_def split: main_thread.splits if_splits)

lemma crawl_invariant:
  assumes "crawl_reaches N L db item0 s s'" "I s"
    and "\<And>i s s'. I s \<Longrightarrow> i < length (workers s) \<Longrightarrow> worker_step N L db i s = Some s' \<Longrightarrow> I s'"
    and "\<And>s s'. I s \<Longrightarrow> main_step item0 s = Some s' \<Longrightarrow> I s'"
  shows "I s'"
  using assms(1,2) unfolding crawl_reaches_def
  by (induction rule: rtranclp_induct) (auto elim!: crawl_step.cases intro: assms(3,4))

text \<open>
  C11. Mutual exclusion: however the threads interleave, a worker is between taking the mutex and giving it
  back exactly when it is the recorded owner, and no two workers pop, download or write to the database
  at the same time.
\<close>

theorem crawl_exclusive:
  assumes "crawl_reaches N L db item0 (crawler_init n out) s" "i < length (workers s)" "j < length (workers s)"
  shows "(critical (workers s ! i) \<longleftrightarrow> owner s = Some i) \<and> (critical (workers s ! i) \<and> critical (workers s ! j) \<longrightarrow> i = j)"
proof -
  have init: "exclusive (crawler_init n out)" by (simp add: exclusive_def crawler_init_def)
  have "exclusive s"
    by (rule crawl_invariant [where I = exclusive, OF assms(1) init])
      (auto intro: worker_step_exclusive main_step_exclusive)
  with assms(2,3) show ?thesis by (auto simp: exclusive_def)
qed

section \<open>The crawl ends\<close>

text \<open>
  The pages still to be visited, each with its depth: those in the queue, those in the hands of a worker,
  and the start page as long as \<open>main\<close> has not pushed it.
\<close>

fun in_hand :: "worker \<Rightarrow> nat multiset" where
  "in_hand (W_parse work) = {#nat (dept work)#}"
| "in_hand (W_links d us) = replicate_mset (length us) (nat d)"
| "in_hand _ = {#}"

definition pending :: "TqueueItem \<Rightarrow> ('n, 's) crawler \<Rightarrow> nat multiset" where
  "pending item0 s = image_mset (\<lambda>x. nat (dept x)) (mset (works (queue s))) + \<Sum>\<^sub># (image_mset in_hand (mset (workers s))) +
     (if main s = M_start then {#nat (dept item0)#} else {#})"

fun stage :: "worker \<Rightarrow> nat" where
  "stage (W_links d us) = 6 + length us"
| "stage W_sleep = 5"
| "stage W_test = 4"
| "stage W_lock = 3"
| "stage W_pop = 2"
| "stage (W_parse _) = 1"
| "stage W_exit = 0"

definition stages :: "('n, 's) crawler \<Rightarrow> nat" where
  "stages s = sum_list (map stage (workers s)) +
     (case main s of M_start \<Rightarrow> 2 | M_join \<Rightarrow> 1 | M_done \<Rightarrow> 0) + (if crash s = Alive then 1 else 0)"

definition crawl_order :: "((nat multiset \<times> nat) \<times> (nat multiset \<times> nat)) set" where
  "crawl_order = mult less_than <*lex*> less_than"

lemma wf_crawl_order: "wf crawl_order"
  unfolding crawl_order_def by (intro wf_lex_prod wf_mult wf_less_than)

definition progress :: "TqueueItem \<Rightarrow> ('n, 's) crawler \<Rightarrow> nat multiset \<times> nat" where
  "progress item0 s = (pending item0 s, stages s)"

lemma sum_stage_update: "i < length ws \<Longrightarrow>
    sum_list (map stage (ws[i := w])) + stage (ws ! i) = sum_list (map stage ws) + stage w"
  by (induction ws arbitrary: i) (auto split: nat.splits)

lemma sum_in_hand_update: "i < length ws \<Longrightarrow>
    \<Sum>\<^sub># (image_mset in_hand (mset (ws[i := w]))) + in_hand (ws ! i) = \<Sum>\<^sub># (image_mset in_hand (mset ws)) + in_hand w"
proof -
  assume i: "i < length ws"
  then have "mset (ws[i := w]) + {#ws ! i#} = mset ws + {#w#}" by (simp add: mset_update)
  from arg_cong [OF this, of "\<lambda>m. \<Sum>\<^sub># (image_mset in_hand m)"] show ?thesis by (simp add: add.commute)
qed

text \<open>A step that keeps or lowers the pending depths of one worker and moves on.\<close>

lemma order_same:
  assumes "pending item0 s' = pending item0 s" "stages s' < stages s"
  shows "(progress item0 s', progress item0 s) \<in> crawl_order"
  using assms by (simp add: progress_def crawl_order_def)

lemma order_less:
  assumes "pending item0 s' + J = pending item0 s + K" "J \<subseteq># pending item0 s" "J \<noteq> {#}"
    and "\<forall>k \<in> set_mset K. \<exists>j \<in> set_mset J. k < j"
  shows "(progress item0 s', progress item0 s) \<in> crawl_order"
proof -
  from assms(2) obtain M where M: "pending item0 s = M + J" by (metis subset_mset.diff_add)
  with assms(1) have "pending item0 s' = M + K" by (simp add: ac_simps)
  moreover have "(M + K, M + J) \<in> mult less_than" using assms(3,4) by (intro one_step_implies_mult) auto
  ultimately show ?thesis using M by (simp add: progress_def crawl_order_def)
qed

abbreviation queued :: "('n, 's) crawler \<Rightarrow> nat multiset" where
  "queued s \<equiv> image_mset (\<lambda>x. nat (dept x)) (mset (works (queue s)))"

lemma pending_set:
  assumes "i < length (workers s)" "workers s' = (workers s)[i := w]" "main s' = main s"
  shows "pending item0 s' + (queued s + in_hand (workers s ! i)) = pending item0 s + (queued s' + in_hand w)"
  using sum_in_hand_update [OF assms(1), of w] by (simp add: pending_def assms(2,3) ac_simps)

lemma stages_set:
  assumes "i < length (workers s)" "workers s' = (workers s)[i := w]" "main s' = main s" "crash s' = crash s"
  shows "stages s' + stage (workers s ! i) = stages s + stage w"
  using sum_stage_update [OF assms(1), of w] by (simp add: stages_def assms(2-4))

lemma in_hand_pending: "i < length (workers s) \<Longrightarrow> in_hand (workers s ! i) \<subseteq># pending item0 s"
proof -
  assume i: "i < length (workers s)"
  then have "mset (workers s) = add_mset (workers s ! i) (mset (workers s) - {#workers s ! i#})" by simp
  then have "\<Sum>\<^sub># (image_mset in_hand (mset (workers s))) =
      in_hand (workers s ! i) + \<Sum>\<^sub># (image_mset in_hand (mset (workers s) - {#workers s ! i#}))"
    by (metis image_mset_add_mset sum_mset.insert)
  then show ?thesis by (simp add: pending_def subset_mset.add_increasing subset_mset.add_increasing2)
qed

lemma set_worker_progress:
  assumes "i < length (workers s)" "workers s' = (workers s)[i := w]" "main s' = main s" "crash s' = crash s"
    and "queued s' + in_hand w = queued s + in_hand (workers s ! i)" "stage w < stage (workers s ! i)"
  shows "(progress item0 s', progress item0 s) \<in> crawl_order"
  using pending_set [OF assms(1-3), of item0] stages_set [OF assms(1-4)] assms(5,6) by (intro order_same) auto

lemma crash_progress:
  assumes "crash s = Alive" "crash s' \<noteq> Alive" "workers s' = workers s" "main s' = main s" "queue s' = queue s"
  shows "(progress item0 s', progress item0 s) \<in> crawl_order"
  using assms by (intro order_same) (simp_all add: pending_def stages_def)

lemma worker_step_progress:
  assumes "worker_step N L db i s = Some s'" "i < length (workers s)" "crash s = Alive"
  shows "(progress item0 s', progress item0 s) \<in> crawl_order"
proof (cases "workers s ! i")
  case (W_parse work)
  obtain r out where v: "visit N L db work (outside s) = (r, out)" by (cases "visit N L db work (outside s)") auto
  consider (crash) "workers s' = workers s" "queue s' = queue s" "main s' = main s" "crash s' \<noteq> Alive"
    | (ok) us where "s' = set_worker i (W_links (dept work - 1) us) (s\<lparr>outside := out\<rparr>)" "dept work \<le> 0 \<longrightarrow> us = []"
    using assms W_parse v visit_links [of N L db work "outside s"]
    by (auto simp: worker_step_def split: sum.splits option.splits)
  then show ?thesis
  proof cases
    case crash
    with assms(3) show ?thesis by (intro crash_progress) auto
  next
    case ok
    let ?K = "replicate_mset (length us) (nat (dept work - 1))"
    have "pending item0 s' + in_hand (workers s ! i) = pending item0 s + ?K"
      using pending_set [OF assms(2), of s' "W_links (dept work - 1) us" item0] by (simp add: ok(1) set_worker_def)
    moreover have "\<forall>k \<in> set_mset ?K. \<exists>j \<in> set_mset {#nat (dept work)#}. k < j"
      using ok(2) by (auto split: if_splits)
    ultimately show ?thesis
      using in_hand_pending [OF assms(2), of item0] by (intro order_less [of _ _ "{#nat (dept work)#}" _ ?K]) (simp_all add: W_parse)
  qed
next
  case (W_links d us)
  show ?thesis
  proof (cases us)
    case Nil
    with W_links assms show ?thesis
      by (intro set_worker_progress [of i _ _ W_sleep]) (auto simp: worker_step_def set_worker_def)
  next
    case (Cons u us')
    obtain r out where v: "sndA (findUrl L db u) (outside s) = (r, out)" by (cases "sndA (findUrl L db u) (outside s)") auto
    show ?thesis
    proof (cases r)
      case (Inl e)
      with assms W_links Cons v show ?thesis by (intro crash_progress) (auto simp: worker_step_def)
    next
      case (Inr found)
      let ?s = "s\<lparr>outside := out, queue := (if found then queue s else push \<lparr>url = u, dept = d\<rparr> (queue s))\<rparr>"
      have s': "s' = set_worker i (W_links d us') ?s"
        using assms(1) W_links Cons v Inr by (simp add: worker_step_def)
      show ?thesis
      proof (cases found)
        case True
        have "pending item0 s' + in_hand (workers s ! i) = pending item0 s + replicate_mset (length us') (nat d)"
          using pending_set [OF assms(2), of s' "W_links d us'" item0] True by (simp add: s' set_worker_def)
        then have "pending item0 s' + {#nat d#} = pending item0 s + {#}" by (simp add: W_links Cons ac_simps)
        moreover have "{#nat d#} \<subseteq># pending item0 s"
          using in_hand_pending [OF assms(2), of item0] by (simp add: W_links Cons insert_subset_eq_iff)
        ultimately show ?thesis by (intro order_less [of _ _ "{#nat d#}" _ "{#}"]) auto
      next
        case False
        then show ?thesis
          using assms(2) by (intro set_worker_progress [of i _ _ "W_links d us'"])
            (simp_all add: s' set_worker_def W_links Cons push_def)
      qed
    qed
  qed
next
  case W_pop
  with assms obtain work q where q: "pop (queue s) = Some (work, q)" and s': "s' = set_worker i (W_parse work) (s\<lparr>queue := q\<rparr>)"
    by (auto simp: worker_step_def split: option.splits)
  from sq.take_Some [OF q] have "works (queue s) = work # works q" .
  then show ?thesis
    using assms(2) W_pop by (intro set_worker_progress [of i _ _ "W_parse work"]) (simp_all add: s' set_worker_def)
next
  case W_test
  with assms show ?thesis
    by (intro set_worker_progress [of i _ _ "if sq_empty (queue s) then W_exit else W_lock"])
      (auto simp: worker_step_def set_worker_def)
next
  case W_lock
  with assms show ?thesis
    by (intro set_worker_progress [of i _ _ W_pop]) (auto simp: worker_step_def set_worker_def split: if_splits)
next
  case W_sleep
  with assms show ?thesis
    by (intro set_worker_progress [of i _ _ W_test]) (auto simp: worker_step_def set_worker_def)
qed (use assms in \<open>simp add: worker_step_def\<close>)

lemma main_step_progress: "main_step item0 s = Some s' \<Longrightarrow> (progress item0 s', progress item0 s) \<in> crawl_order"
  by (intro order_same; cases "main s") (auto simp: main_step_def pending_def stages_def push_def split: if_splits)

text \<open>
  C5. Every crawl is finite.  Whatever the pages, the answers of the database and the order of the threads,
  no run of the program takes infinitely many steps: a page is replaced by finitely many pages of a
  smaller depth, and between two pages a worker has a bounded number of steps.
\<close>

theorem crawl_terminates: "wfP (\<lambda>s' s. crawl_step N L db item0 s s')"
proof -
  have "{(s', s). crawl_step N L db item0 s s'} \<subseteq> inv_image crawl_order (progress item0)"
    by (auto elim!: crawl_step.cases intro: worker_step_progress main_step_progress)
  from wf_subset [OF wf_inv_image [OF wf_crawl_order] this] show ?thesis by (simp add: wfp_def)
qed

section \<open>How a crawl ends\<close>

text \<open>
  Stuck with the mutex: a worker holds the mutex and waits in \<open>pop\<close> on the empty queue, and \<open>main\<close> has
  pushed the start page already.
\<close>

definition stuck_in_pop :: "('n, 's) crawler \<Rightarrow> bool" where
  "stuck_in_pop s \<longleftrightarrow> (\<exists>i < length (workers s). owner s = Some i \<and> workers s ! i = W_pop) \<and> sq_empty (queue s) \<and>
     main s = M_join \<and> exclusive s \<and> crash s = Alive"

definition finished :: "('n, 's) crawler \<Rightarrow> bool" where
  "finished s \<longleftrightarrow> main s = M_done"

lemma stuck_worker_step:
  assumes "stuck_in_pop s" "j < length (workers s)" "worker_step N L db j s = Some s'"
  shows "stuck_in_pop s'"
proof -
  from assms(1) obtain i where i: "i < length (workers s)" "owner s = Some i" "workers s ! i = W_pop"
    and e: "sq_empty (queue s)" "exclusive s" by (auto simp: stuck_in_pop_def)
  have "pop (queue s) = None" using e(1) sq.take_None sq.is_empty_iff by blast
  with assms(3) i(3) have "j \<noteq> i" by (auto simp: worker_step_def)
  with e(2) i(2) assms(2) have "\<not> critical (workers s ! j)" by (auto simp: exclusive_def)
  then obtain w where w: "s' = set_worker j w s" "\<not> critical w"
    using assms(3) i(2) by (cases "workers s ! j") (auto simp: worker_step_def split: if_splits)
  have "exclusive s'" by (rule worker_step_exclusive [OF assms(3) e(2) assms(2)])
  with assms(1) i w \<open>j \<noteq> i\<close> show ?thesis by (auto simp: stuck_in_pop_def set_worker_def)
qed

lemma stuck_main_step: "stuck_in_pop s \<Longrightarrow> main_step item0 s = Some s' \<Longrightarrow> False"
  by (auto simp: stuck_in_pop_def main_step_def list_all_length split: main_thread.splits if_splits)

text \<open>
  Deadlock.  Once a worker waits in \<open>pop\<close> for a page that will not come, it keeps the mutex for ever:
  from there no run of the program reaches the end of \<open>main\<close>, since the worker is never joined.
\<close>

theorem stuck_forever:
  assumes "crawl_reaches N L db item0 s s'" "stuck_in_pop s"
  shows "stuck_in_pop s' \<and> \<not> finished s' \<and> (\<exists>i < length (workers s'). worker_step N L db i s' = None \<and> workers s' ! i = W_pop)"
proof -
  have st: "stuck_in_pop s'"
    by (rule crawl_invariant [where I = stuck_in_pop, OF assms])
      (auto intro: stuck_worker_step dest: stuck_main_step)
  then obtain i where i: "i < length (workers s')" "workers s' ! i = W_pop" and e: "sq_empty (queue s')"
    by (auto simp: stuck_in_pop_def)
  have "pop (queue s') = None" using e sq.take_None sq.is_empty_iff by blast
  with i have "worker_step N L db i s' = None" by (simp add: worker_step_def)
  with st i show ?thesis by (auto simp: finished_def stuck_in_pop_def)
qed

text \<open>
  C12. How a run can end.  A state of a run with no further step is one of three: \<open>main\<close> has joined every
  worker; the process was terminated by an exception that a worker did not catch, or by undefined
  behaviour; or a worker is stuck in \<open>pop\<close> with the mutex.
\<close>

theorem crawl_outcomes:
  assumes "crawl_reaches N L db item0 (crawler_init n out) s" "\<forall>s'. \<not> crawl_step N L db item0 s s'"
  shows "finished s \<or> crash s \<noteq> Alive \<or> stuck_in_pop s"
proof (rule ccontr)
  assume no: "\<not> (finished s \<or> crash s \<noteq> Alive \<or> stuck_in_pop s)"
  have init: "exclusive (crawler_init n out)" by (simp add: exclusive_def crawler_init_def)
  have ex: "exclusive s"
    by (rule crawl_invariant [where I = exclusive, OF assms(1) init])
      (auto intro: worker_step_exclusive main_step_exclusive)
  have dom: "\<forall>i. owner s = Some i \<longrightarrow> i < length (workers s)"
    by (rule crawl_invariant [where I = "\<lambda>s. \<forall>i. owner s = Some i \<longrightarrow> i < length (workers s)", OF assms(1)])
      (auto simp: crawler_init_def dest: worker_step_owner main_step_owner)
  have w: "worker_step N L db i s = None" if "i < length (workers s)" for i
    using assms(2) no crawl_step.by_worker [of s i N L db _ item0] that by (cases "worker_step N L db i s") auto
  have m: "main_step item0 s = None"
    using assms(2) no crawl_step.by_main [of s item0 _ N L db] by (cases "main_step item0 s") auto
  then have join: "main s = M_join" and "\<not> list_all (\<lambda>w. w = W_exit) (workers s)"
    using no by (auto simp: main_step_def finished_def split: main_thread.splits if_splits)
  then obtain i where i: "i < length (workers s)" "workers s ! i \<noteq> W_exit" by (auto simp: list_all_length)
  have stuck: "stuck_in_pop s" if "j < length (workers s)" "owner s = Some j" for j
  proof -
    from ex that have "critical (workers s ! j)" by (auto simp: exclusive_def)
    with w [OF that(1)] have "workers s ! j = W_pop" "sq_empty (queue s)"
      by (cases "workers s ! j"; auto simp: worker_step_def pop_def sq_empty_def split: list.splits prod.splits)+
    with that ex join no show ?thesis by (auto simp: stuck_in_pop_def)
  qed
  from w [OF i(1)] i(2) have "owner s \<noteq> None"
    using ex i(1) by (cases "workers s ! i") (auto simp: worker_step_def exclusive_def split: list.splits if_splits)
  then show False using stuck dom no by auto
qed

text \<open>
  The first page can be lost.  The workers are started before the start page is pushed and leave their
  loop when they find the queue empty; if each of them tests it first, the program ends with the start
  page in the queue, no page visited and nothing written.
\<close>

theorem crawl_lost_start:
  "\<exists>s. crawl_reaches N L db item0 (crawler_init n out) s \<and> finished s \<and> works (queue s) = [item0] \<and> outside s = out"
proof -
  let ?s = "\<lambda>k. crawler_init n out\<lparr>workers := replicate k W_exit @ replicate (n - k) W_test\<rparr>"
  have step: "(crawl_step N L db item0)\<^sup>*\<^sup>* (crawler_init n out) (?s k)" if "k \<le> n" for k
    using that
  proof (induction k)
    case 0
    then show ?case by (simp add: crawler_init_def)
  next
    case (Suc k)
    let ?ws = "replicate k W_exit @ replicate (n - k) W_test"
    have n: "n - k = Suc (n - Suc k)" using Suc.prems by simp
    have "?ws[k := W_exit] = replicate (Suc k) W_exit @ replicate (n - Suc k) W_test"
      unfolding n by (simp add: list_update_append replicate_app_Cons_same)
    moreover have "?ws ! k = W_test" unfolding n by (simp add: nth_append)
    ultimately have "worker_step N L db k (?s k) = Some (?s (Suc k))"
      by (simp add: worker_step_def set_worker_def crawler_init_def sq_empty_def sq_new_def)
    then have "crawl_step N L db item0 (?s k) (?s (Suc k))"
      using Suc.prems by (intro by_worker [of _ k]) (simp_all add: crawler_init_def)
    with Suc show ?case by (simp add: rtranclp.rtrancl_into_rtrancl)
  qed
  let ?p = "?s n\<lparr>queue := push item0 sq_new, main := M_join\<rparr>"
  have "crawl_step N L db item0 (?s n) ?p"
    by (intro by_main) (simp_all add: main_step_def crawler_init_def)
  moreover have "crawl_step N L db item0 ?p (?p\<lparr>main := M_done\<rparr>)"
    by (intro by_main) (simp_all add: main_step_def crawler_init_def list_all_iff)
  ultimately have "crawl_reaches N L db item0 (crawler_init n out) (?p\<lparr>main := M_done\<rparr>)"
    using step [of n] by (simp add: crawl_reaches_def)
  then show ?thesis
    by (intro exI conjI) (assumption, simp_all add: finished_def push_def sq_new_def crawler_init_def)
qed

text \<open>Runs as sequences of moves of chosen threads.\<close>

datatype mover = By_main | By_worker nat

fun move :: "'n net \<Rightarrow> 's libpq \<Rightarrow> DB_Client \<Rightarrow> TqueueItem \<Rightarrow> mover \<Rightarrow> ('n, 's) crawler \<Rightarrow> ('n, 's) crawler option" where
  "move N L db item0 By_main s = (if crash s = Alive then main_step item0 s else None)"
| "move N L db item0 (By_worker i) s = (if crash s = Alive \<and> i < length (workers s) then worker_step N L db i s else None)"

fun moves :: "'n net \<Rightarrow> 's libpq \<Rightarrow> DB_Client \<Rightarrow> TqueueItem \<Rightarrow> mover list \<Rightarrow> ('n, 's) crawler \<Rightarrow> ('n, 's) crawler option" where
  "moves N L db item0 [] s = Some s"
| "moves N L db item0 (m # ms) s = Option.bind (move N L db item0 m s) (moves N L db item0 ms)"

lemma move_step: "move N L db item0 m s = Some s' \<Longrightarrow> crawl_step N L db item0 s s'"
  by (cases m) (auto split: if_splits intro: crawl_step.intros)

lemma moves_reaches: "moves N L db item0 ms s = Some s' \<Longrightarrow> crawl_reaches N L db item0 s s'"
  unfolding crawl_reaches_def
proof (induction ms arbitrary: s)
  case (Cons m ms)
  then obtain s1 where "move N L db item0 m s = Some s1" "moves N L db item0 ms s1 = Some s'"
    by (auto simp: bind_eq_Some_conv)
  with Cons.IH move_step show ?case by (metis converse_rtranclp_into_rtranclp)
qed simp

text \<open>
  C38. The deadlock is reached as soon as two workers see the one page in the queue: both pass the test, the
  first takes the mutex, visits the page and finds no link to follow, the second then takes the mutex
  and waits in \<open>pop\<close>.  With two or more workers this can happen on every start page that can be
  visited and leads nowhere, for instance every page when the configured depth is 0.
\<close>

theorem deadlock_reachable:
  assumes "2 \<le> n" "visit N L db item0 out = (Inr (Some (W_links d [])), out')"
  shows "\<exists>s. crawl_reaches N L db item0 (crawler_init n out) s \<and> stuck_in_pop s \<and> outside s = out'"
proof -
  obtain m where n: "n = Suc (Suc m)" using assms(1) by (metis add_2_eq_Suc le_Suc_ex)
  let ?s = "\<lparr>queue = \<lparr>works = []\<rparr>, owner = Some 1, workers = W_sleep # W_pop # replicate m W_test, main = M_join,
    outside = out', crash = Alive\<rparr>"
  have "moves N L db item0 [By_main, By_worker 0, By_worker 1, By_worker 0, By_worker 0, By_worker 0, By_worker 0, By_worker 1]
      (crawler_init n out) = Some ?s"
    using assms(2)
    by (simp add: n crawler_init_def main_step_def worker_step_def set_worker_def push_def pop_def sq_empty_def sq_new_def)
  from moves_reaches [OF this] have "crawl_reaches N L db item0 (crawler_init n out) ?s" .
  moreover have "stuck_in_pop ?s"
    by (auto simp: stuck_in_pop_def exclusive_def sq_empty_def nth_Cons split: nat.splits intro!: exI [of _ 1])
  ultimately show ?thesis by (intro exI [of _ ?s]) simp
qed

definition depths_ok :: "TqueueItem \<Rightarrow> ('n, 's) crawler \<Rightarrow> bool" where
  "depths_ok item0 s \<longleftrightarrow>
     (\<forall>x \<in> set (works (queue s)). dept x = dept item0 \<or> 0 \<le> dept x \<and> dept x < dept item0) \<and>
     (\<forall>w \<in> set (workers s). case w of
        W_parse x \<Rightarrow> dept x = dept item0 \<or> 0 \<le> dept x \<and> dept x < dept item0
      | W_links d us \<Rightarrow> us = [] \<or> 0 \<le> d \<and> d < dept item0
      | _ \<Rightarrow> True)"

lemma depths_set:
  assumes "depths_ok item0 s" "set (works (queue s')) \<subseteq> insert x (set (works (queue s)))"
    and "x \<in> set (works (queue s)) \<or> dept x = dept item0 \<or> 0 \<le> dept x \<and> dept x < dept item0"
    and "workers s' = (workers s)[i := w]"
    and "case w of W_parse x \<Rightarrow> dept x = dept item0 \<or> 0 \<le> dept x \<and> dept x < dept item0
      | W_links d us \<Rightarrow> us = [] \<or> 0 \<le> d \<and> d < dept item0 | _ \<Rightarrow> True"
  shows "depths_ok item0 s'"
proof -
  have "set (workers s') \<subseteq> insert w (set (workers s))" unfolding assms(4) by (rule set_update_subset_insert)
  with assms(1,2,3,5) show ?thesis unfolding depths_ok_def by blast
qed

lemma depths_init: "depths_ok item0 (crawler_init n out)"
  by (auto simp: depths_ok_def crawler_init_def sq_new_def)

lemma depths_main: "main_step item0 s = Some s' \<Longrightarrow> depths_ok item0 s \<Longrightarrow> depths_ok item0 s'"
  by (auto simp: main_step_def depths_ok_def push_def split: main_thread.splits if_splits)

lemma depths_worker:
  assumes "worker_step N L db i s = Some s'" "depths_ok item0 s" "i < length (workers s)"
  shows "depths_ok item0 s'"
proof (cases "workers s ! i")
  case (W_parse work)
  obtain r out where v: "visit N L db work (outside s) = (r, out)" by (cases "visit N L db work (outside s)") auto
  have d: "dept work = dept item0 \<or> 0 \<le> dept work \<and> dept work < dept item0"
    using assms(2,3) W_parse nth_mem [OF assms(3)] by (force simp: depths_ok_def)
  consider (crash) "workers s' = workers s" "queue s' = queue s"
    | (ok) us where "s' = set_worker i (W_links (dept work - 1) us) (s\<lparr>outside := out\<rparr>)" "dept work \<le> 0 \<longrightarrow> us = []"
    using assms(1) W_parse v visit_links [of N L db work "outside s"]
    by (auto simp: worker_step_def split: sum.splits option.splits)
  then show ?thesis
  proof cases
    case crash
    with assms(2) show ?thesis by (simp add: depths_ok_def)
  next
    case ok
    with d show ?thesis
      by (intro depths_set [OF assms(2), of s' item0 i "W_links (dept work - 1) us"]) (auto simp: set_worker_def)
  qed
next
  case (W_links d us)
  have d: "us = [] \<or> 0 \<le> d \<and> d < dept item0"
    using assms(2,3) W_links nth_mem [OF assms(3)] by (force simp: depths_ok_def)
  show ?thesis
  proof (cases us)
    case Nil
    with W_links assms(1) show ?thesis
      by (intro depths_set [OF assms(2), of s' item0 i W_sleep]) (auto simp: worker_step_def set_worker_def)
  next
    case (Cons u us')
    obtain r out where v: "sndA (findUrl L db u) (outside s) = (r, out)" by (cases "sndA (findUrl L db u) (outside s)") auto
    show ?thesis
    proof (cases r)
      case (Inl e)
      with assms(1) W_links Cons v have "workers s' = workers s" "queue s' = queue s"
        by (auto simp: worker_step_def)
      with assms(2) show ?thesis by (simp add: depths_ok_def)
    next
      case (Inr found)
      with assms(1) W_links Cons v d show ?thesis
        by (intro depths_set [OF assms(2), of s' "\<lparr>url = u, dept = d\<rparr>" i "W_links d us'"])
          (auto simp: worker_step_def set_worker_def push_def split: if_splits)
    qed
  qed
next
  case W_pop
  with assms obtain work q where q: "pop (queue s) = Some (work, q)" and s': "s' = set_worker i (W_parse work) (s\<lparr>queue := q\<rparr>)"
    by (auto simp: worker_step_def split: option.splits)
  have w: "works (queue s) = work # works q" by (rule sq.take_Some [OF q])
  with assms(2) have "dept work = dept item0 \<or> 0 \<le> dept work \<and> dept work < dept item0" by (simp add: depths_ok_def)
  then show ?thesis
    by (intro depths_set [OF assms(2), of s' item0 i "W_parse work"]) (auto simp: s' set_worker_def w)
next
  case W_test
  with assms show ?thesis
    by (intro depths_set [OF assms(2), of s' item0 i "if sq_empty (queue s) then W_exit else W_lock"])
      (auto simp: worker_step_def set_worker_def)
next
  case W_lock
  with assms show ?thesis
    by (intro depths_set [OF assms(2), of s' item0 i W_pop]) (auto simp: worker_step_def set_worker_def split: if_splits)
next
  case W_sleep
  with assms show ?thesis
    by (intro depths_set [OF assms(2), of s' item0 i W_test]) (auto simp: worker_step_def set_worker_def)
qed (use assms in \<open>simp add: worker_step_def\<close>)

text \<open>
  C28. The depths of the pages in the queue stay within the configured recursion depth and, if that is not
  negative, never become negative: links are followed from pages of positive depth only.
\<close>

theorem crawl_depths:
  assumes "crawl_reaches N L db item0 (crawler_init n out) s" "x \<in> set (works (queue s))"
  shows "dept x \<le> dept item0 \<and> (0 \<le> dept item0 \<longrightarrow> 0 \<le> dept x)"
proof -
  have "depths_ok item0 s"
    by (rule crawl_invariant [where I = "depths_ok item0", OF assms(1) depths_init])
      (auto intro: depths_worker depths_main)
  with assms(2) show ?thesis by (auto simp: depths_ok_def)
qed

text \<open>
  An exception in a worker ends the program: there is no handler in the thread.  A start page given
  without a path, as \<open>http://host\<close>, makes the parser throw, so the first worker that visits it terminates
  the process before anything is downloaded.
\<close>

theorem start_page_without_path_terminates:
  assumes "1 \<le> n" "url item0 = ''http://'' @ h" "CHR ''/'' \<notin> set h" "list_all (\<lambda>c. \<not> is_line_terminator c) h"
  shows "\<exists>s. crawl_reaches N L db item0 (crawler_init n out) s \<and>
    crash s = Crashed (Cstr ''Bad first URL: not find protocol.'') \<and> outside s = out \<and>
    (\<forall>s'. \<not> crawl_step N L db item0 s s')"
proof -
  obtain m where n: "n = Suc m" using assms(1) by (cases n) auto
  have u: "UrlToLink_first (''http://'' @ h) = Inl (Cstr ''Bad first URL: not find protocol.'')"
    using first_url_no_path(1) [OF assms(3,4), THEN rx_search_first]
    by (simp add: UrlToLink_first_def sub_match_def no_caps_def Let_def)
  have v: "visit N L db item0 out = (Inl (Cstr ''Bad first URL: not find protocol.''), out)"
    unfolding visit_def assms(2) HTML_Parser_def u by (simp add: bindA_def liftR_def)
  let ?s = "\<lparr>queue = \<lparr>works = []\<rparr>, owner = Some 0, workers = W_parse item0 # replicate m W_test, main = M_join,
    outside = out, crash = Crashed (Cstr ''Bad first URL: not find protocol.'')\<rparr>"
  have "moves N L db item0 [By_main, By_worker 0, By_worker 0, By_worker 0, By_worker 0] (crawler_init n out) = Some ?s"
    using v by (simp add: n crawler_init_def main_step_def worker_step_def set_worker_def push_def pop_def sq_empty_def sq_new_def)
  from moves_reaches [OF this] have "crawl_reaches N L db item0 (crawler_init n out) ?s" .
  moreover have "\<not> crawl_step N L db item0 ?s s'" for s'
    by (auto elim!: crawl_step.cases)
  ultimately show ?thesis by (intro exI [of _ ?s]) simp
qed

section \<open>Witnesses\<close>

definition item :: "int \<Rightarrow> TqueueItem" where
  "item d = \<lparr>url = ''https://wiki.org/index'', dept = d\<rparr>"

abbreviation out0 :: "response list \<times> (pgs \<times> nat)" where
  "out0 \<equiv> ([], sample_state [])"

text \<open>The page cannot be downloaded: no reply is scripted.\<close>

lemma visit_offline: "visit scripted ref_libpq sample_db (item d) out0 = (Inr (Some (W_links (d - 1) [])), out0)"
proof -
  have u: "UrlToLink_first ''https://wiki.org/index'' = Inr wiki" by code_simp
  have g: "getContent scripted wiki [] = (Inr [], [])" by code_simp
  have "parse scripted ref_libpq (sample_parser\<lparr>p_db := sample_db\<rparr>) out0 =
      (Inr (Some (False, sample_parser\<lparr>p_db := sample_db\<rparr>)), out0)"
    unfolding parse_def by (simp add: bindA_def fstA_def g sample_parser_def retA_def Let_def)
  then show ?thesis
    by (simp add: visit_def item_def HTML_Parser_def u bindA_liftR bindA_def liftR_def sample_parser_def retA_def)
qed

lemma crawl_exclusive_witness:
  "\<exists>s. crawl_reaches scripted ref_libpq sample_db (item 1) (crawler_init 1 out0) s \<and> critical (workers s ! 0) \<and> owner s = Some 0"
proof -
  let ?s = "\<lparr>queue = push (item 1) sq_new, owner = Some 0, workers = [W_pop], main = M_join, outside = out0, crash = Alive\<rparr>"
  have "moves scripted ref_libpq sample_db (item 1) [By_main, By_worker 0, By_worker 0] (crawler_init 1 out0) = Some ?s"
    by (simp add: crawler_init_def main_step_def worker_step_def set_worker_def push_def sq_empty_def sq_new_def)
  from moves_reaches [OF this] have r: "crawl_reaches scripted ref_libpq sample_db (item 1) (crawler_init 1 out0) ?s" .
  from crawl_exclusive [OF r, of 0 0] r show ?thesis by auto
qed

definition stuck_state :: "(response list, pgs \<times> nat) crawler" where
  "stuck_state = \<lparr>queue = sq_new, owner = Some 1, workers = [W_sleep, W_pop], main = M_join, outside = out0, crash = Alive\<rparr>"

lemma stuck_forever_witness:
  "\<not> finished stuck_state \<and> (\<exists>i < 2. worker_step scripted ref_libpq sample_db i stuck_state = None)"
proof -
  have "stuck_in_pop stuck_state"
    by (auto simp: stuck_in_pop_def exclusive_def stuck_state_def sq_empty_def sq_new_def less_Suc_eq intro!: exI [of _ 1])
  from stuck_forever [of scripted ref_libpq sample_db "item 0" stuck_state stuck_state, OF _ this]
  show ?thesis by (auto simp: crawl_reaches_def stuck_state_def numeral_2_eq_2)
qed

lemma crawl_outcomes_witness:
  "\<exists>s :: (response list, pgs \<times> nat) crawler. crawl_reaches scripted ref_libpq sample_db (item 0) (crawler_init 0 out0) s \<and>
     (finished s \<or> crash s \<noteq> Alive \<or> stuck_in_pop s)"
proof -
  let ?s = "\<lparr>queue = push (item 0) sq_new, owner = None, workers = [], main = M_done, outside = out0, crash = Alive\<rparr>"
  have "moves scripted ref_libpq sample_db (item 0) [By_main, By_main] (crawler_init 0 out0) = Some ?s"
    by (simp add: crawler_init_def main_step_def)
  from moves_reaches [OF this] have r: "crawl_reaches scripted ref_libpq sample_db (item 0) (crawler_init 0 out0) ?s" .
  moreover have "\<forall>s'. \<not> crawl_step scripted ref_libpq sample_db (item 0) ?s s'"
    by (auto elim!: crawl_step.cases simp: main_step_def)
  ultimately show ?thesis using crawl_outcomes by blast
qed

lemma deadlock_reachable_witness:
  "\<exists>s. crawl_reaches scripted ref_libpq sample_db (item 1) (crawler_init 8 out0) s \<and> stuck_in_pop s \<and> outside s = out0"
  by (rule deadlock_reachable [OF _ visit_offline]) simp

lemma crawl_depths_witness:
  "\<exists>s. crawl_reaches scripted ref_libpq sample_db (item 1) (crawler_init 0 out0) s \<and> works (queue s) = [item 1] \<and>
     dept (item 1) \<le> 1 \<and> 0 \<le> dept (item 1)"
proof -
  let ?s = "\<lparr>queue = push (item 1) sq_new, owner = None, workers = [], main = M_join, outside = out0, crash = Alive\<rparr>"
  have "moves scripted ref_libpq sample_db (item 1) [By_main] (crawler_init 0 out0) = Some ?s"
    by (simp add: crawler_init_def main_step_def)
  from moves_reaches [OF this] have r: "crawl_reaches scripted ref_libpq sample_db (item 1) (crawler_init 0 out0) ?s" .
  have w: "works (queue ?s) = [item 1]" by (simp add: push_def sq_new_def)
  with crawl_depths [OF r, of "item 1"] r show ?thesis by (intro exI [of _ ?s]) (simp add: item_def)
qed

lemma start_page_without_path_terminates_witness:
  "\<exists>s. crawl_reaches scripted ref_libpq sample_db \<lparr>url = ''http://example.com'', dept = 1\<rparr> (crawler_init 4 out0) s \<and>
     crash s = Crashed (Cstr ''Bad first URL: not find protocol.'')"
  using start_page_without_path_terminates [of 4 "\<lparr>url = ''http://example.com'', dept = 1\<rparr>" "''example.com''" scripted ref_libpq sample_db out0]
  by (auto simp: is_line_terminator_def)

section \<open>\<open>main\<close>\<close>

text \<open>
  The configuration is read and the database opened before the threads start; \<open>main\<close> catches
  \<open>std::exception\<close> only.  From \<open>Crawling\<close> on, the program is \<open>crawler_init\<close> with
  \<open>hardware_concurrency\<close> workers and the given start item.
\<close>

datatype crawl_exit = Crawl_terminated exn | Crawl_exit_failure exn | Crawling DB_Client TqueueItem

definition crawler_setup :: "'s libpq \<Rightarrow> (string \<Rightarrow> string option) \<Rightarrow> ('s, DB_Client \<times> TqueueItem) act" where
  "crawler_setup L fs =
     bindA (liftR (INI_file fs ''../config.ini'')) (\<lambda>ini_file.
     bindA (liftR (get_value ini_file ''Client.start_page'')) (\<lambda>start_page.
     bindA (liftR (bindR (get_value ini_file ''Client.recursion_depth'') stoi)) (\<lambda>recursion_depth.
     bindA (liftR (get_value ini_file ''DataBase.bd_host'')) (\<lambda>hst.
     bindA (liftR (get_value ini_file ''DataBase.bd_port'')) (\<lambda>port.
     bindA (liftR (get_value ini_file ''DataBase.bd_name'')) (\<lambda>name.
     bindA (liftR (get_value ini_file ''DataBase.bd_user'')) (\<lambda>user.
     bindA (liftR (get_value ini_file ''DataBase.bd_pass'')) (\<lambda>password.
     bindA (DB_Client L hst port name user password) (\<lambda>db.
     retA (db, \<lparr>url = start_page, dept = recursion_depth\<rparr>))))))))))"

definition crawler_main :: "'s libpq \<Rightarrow> (string \<Rightarrow> string option) \<Rightarrow> 's \<Rightarrow> crawl_exit \<times> 's" where
  "crawler_main L fs w =
     (case crawler_setup L fs w of
        (Inl e, w) \<Rightarrow> (if is_std_exception e then Crawl_exit_failure e else Crawl_terminated e, w)
      | (Inr (db, item0), w) \<Rightarrow> (Crawling db item0, w))"

text \<open>
  Starting the crawler.  With a configuration file that is the rendering of a well-formed configuration
  holding the items, and a database that keeps its contract and does not fail, \<open>main\<close> creates the tables in the database
  the configuration names and starts with the configured page and depth; and a depth that is not a
  number ends the program with a failure before the database is touched.
\<close>

theorem crawler_main_starts:
  assumes "wf_ini cfg" "fits (render cfg)" "fs ''../config.ini'' = Some (render cfg)"
    and "config_gives cfg ''DataBase'' ''bd_host'' h" "config_gives cfg ''DataBase'' ''bd_name'' n"
    and "config_gives cfg ''DataBase'' ''bd_port'' po" "config_gives cfg ''DataBase'' ''bd_user'' u"
    and "config_gives cfg ''DataBase'' ''bd_pass'' pw"
    and "config_gives cfg ''Client'' ''start_page'' sp" "config_gives cfg ''Client'' ''recursion_depth'' rd"
    and "calm (sem s)" "no_tx (sessions (sem s))"
    and "serves L sem (''host = '' @ h @ '' port= '' @ po @ '' dbname = '' @ n @ '' user = '' @ u @ '' password = '' @ pw)"
  shows "case stoi rd of
     Inl e \<Rightarrow> crawler_main L fs s = (Crawl_exit_failure e, s)
   | Inr d \<Rightarrow> \<exists>db s'. crawler_main L fs s = (Crawling db \<lparr>url = sp, dept = d\<rparr>, s') \<and>
      connectionString db = ''host = '' @ h @ '' port= '' @ po @ '' dbname = '' @ n @ '' user = '' @ u @ '' password = '' @ pw \<and>
      committed (sem s') = with_tables (committed (sem s))"
proof -
  let ?cs = "''host = '' @ h @ '' port= '' @ po @ '' dbname = '' @ n @ '' user = '' @ u @ '' password = '' @ pw"
  from config_gives_value [of cfg fs, OF assms(1-3)] obtain ini where ini: "INI_file fs ''../config.ini'' = Inr ini"
    and get: "\<And>sec key w. config_gives cfg sec key w \<Longrightarrow> CHR ''.'' \<notin> set sec \<Longrightarrow> fits (sec @ ''.'' @ key) \<Longrightarrow>
      get_value ini (sec @ ''.'' @ key) = Inr w" by blast
  have g: "get_value ini ''DataBase.bd_host'' = Inr h" "get_value ini ''DataBase.bd_name'' = Inr n"
    "get_value ini ''DataBase.bd_port'' = Inr po" "get_value ini ''DataBase.bd_user'' = Inr u"
    "get_value ini ''DataBase.bd_pass'' = Inr pw" "get_value ini ''Client.start_page'' = Inr sp"
    "get_value ini ''Client.recursion_depth'' = Inr rd"
    using assms(4-10) get [of "''DataBase''"] get [of "''Client''"] by (fastforce simp: fits_def npos_def)+
  have cs: "?cs = createConnectionString \<lparr>connectionString = [], DBHost = h, DBPort = po, DBName = n, DBUser = u, DBPassword = pw\<rparr>"
    by (simp add: createConnectionString_def)
  have pg: "pg_server L sem ?cs" by (rule pg_server.intro) (rule assms(13))
  from pg_server.DB_Client_serves [OF pg assms(11,12) cs] obtain s' where s': "DB_Client L h po n u pw s =
      (Inr \<lparr>connectionString = ?cs, DBHost = h, DBPort = po, DBName = n, DBUser = u, DBPassword = pw\<rparr>, s')"
    "committed (sem s') = with_tables (committed (sem s))" by blast
  define db where "db = \<lparr>connectionString = ?cs, DBHost = h, DBPort = po, DBName = n, DBUser = u, DBPassword = pw\<rparr>"
  have d: "DB_Client L h po n u pw s = (Inr db, s')" unfolding db_def by (rule s'(1))
  have "connectionString db = ?cs" by (simp only: db_def DB_Client.simps)
  moreover have "crawler_main L fs s = (Crawling db \<lparr>url = sp, dept = k\<rparr>, s')" if "stoi rd = Inr k" for k
    unfolding crawler_main_def crawler_setup_def ini
    by (simp add: bindA_liftR g that bindA_Inr [of "DB_Client L h po n u pw" s, OF d] retA_apply)
  moreover have "crawler_main L fs s = (Crawl_exit_failure e, s)" if "stoi rd = Inl e" for e
  proof -
    have "is_std_exception e" using that by (auto simp: stoi_def Let_def split: prod.splits if_splits)
    then show ?thesis
      unfolding crawler_main_def crawler_setup_def ini
      by (simp add: bindA_liftR g that bindA_Inl liftR_apply)
  qed
  ultimately show ?thesis using s'(2) by (cases "stoi rd") auto
qed

definition sample_crawl_config :: "string \<Rightarrow> myINI" where
  "sample_crawl_config rd = [(''Client'', [(''recursion_depth'', rd), (''start_page'', ''https://wiki.org/index'')]),
     (''DataBase'', [(''bd_host'', ''h''), (''bd_name'', ''n''), (''bd_pass'', ''pw''), (''bd_port'', ''5432''), (''bd_user'', ''u'')])]"

lemma crawler_main_starts_witness:
  "\<exists>e. crawler_main ref_libpq (\<lambda>_. Some (render (sample_crawl_config ''deep''))) (sample_state []) = (Crawl_exit_failure e, sample_state [])"
proof -
  let ?c = "sample_crawl_config ''deep''"
  have wf: "wf_ini ?c" by code_simp
  have f: "fits (render ?c)"
    by (simp add: fits_def npos_def render_def render_section_def render_item_def sample_crawl_config_def)
  have g: "config_gives ?c ''DataBase'' ''bd_host'' ''h''" "config_gives ?c ''DataBase'' ''bd_name'' ''n''"
    "config_gives ?c ''DataBase'' ''bd_port'' ''5432''" "config_gives ?c ''DataBase'' ''bd_user'' ''u''"
    "config_gives ?c ''DataBase'' ''bd_pass'' ''pw''" "config_gives ?c ''Client'' ''start_page'' ''https://wiki.org/index''"
    "config_gives ?c ''Client'' ''recursion_depth'' ''deep''"
    by code_simp+
  have "stoi ''deep'' = Inl (Invalid_argument ''stoi'')"
    by (simp add: stoi_def split_sign_def is_space_c_def is_digit_c_def less_eq_char_def)
  with crawler_main_starts [of ?c "\<lambda>_. Some (render ?c)", OF wf f refl g sample_calm sample_no_tx serves_ref]
  show ?thesis by simp
qed

end
