(* ===== verification/Pqxx_Encodings.thy ===== *)
theory Pqxx_Encodings
  imports Pqxx_Base
begin

text \<open>
  \<open>include/pqxx/internal/encodings.hxx\<close> and \<open>src/encodings.cxx\<close> of libpqxx 7.8.1: finding the glyphs of a
  text in one of PostgreSQL's client encodings, and finding ASCII characters in it.  A scanner
  returns the position after the glyph at \<open>start\<close>, throws on an invalid sequence, and in one place reads
  beyond the buffer: the outcome \<open>None\<close>.
\<close>

section \<open>Bytes and errors\<close>

definition get_byte :: "string \<Rightarrow> nat \<Rightarrow> nat" where
  "get_byte buffer offset = of_char (buffer ! offset)"

definition between_inc :: "nat \<Rightarrow> nat \<Rightarrow> nat \<Rightarrow> bool" where
  "between_inc v lo hi \<longleftrightarrow> lo \<le> v \<and> v \<le> hi"

definition lower_hex :: "nat \<Rightarrow> char" where
  "lower_hex d = (if d < 10 then char_of (48 + d) else char_of (87 + d))"

text \<open>\<open>std::setw(2)\<close> applies to the first \<open>0x\<close> only, so the bytes are printed without padding.\<close>

definition hex_byte :: "nat \<Rightarrow> string" where
  "hex_byte b = ''0x'' @ (if b < 16 then [] else [lower_hex (b div 16)]) @ [lower_hex (b mod 16)]"

fun hex_bytes :: "nat list \<Rightarrow> string" where
  "hex_bytes [] = []"
| "hex_bytes [b] = hex_byte b"
| "hex_bytes (b # bs) = hex_byte b @ '' '' @ hex_bytes bs"

type_synonym glyph_res = "nat option res"

definition throw_for_encoding_error :: "string \<Rightarrow> string \<Rightarrow> nat \<Rightarrow> nat \<Rightarrow> glyph_res" where
  "throw_for_encoding_error encoding_name buffer start cnt =
     Inl (Pqxx_argument_error (''Invalid byte sequence for encoding '' @ encoding_name @ '' at byte '' @
       nat_to_string start @ '': '' @ hex_bytes (map (\<lambda>i. get_byte buffer (start + i)) [0..<cnt])))"

definition glyph_end :: "nat \<Rightarrow> glyph_res" where
  "glyph_end n = Inr (Some n)"

section \<open>The scanners\<close>

definition scan_MONOBYTE :: "string \<Rightarrow> nat \<Rightarrow> nat \<Rightarrow> glyph_res" where
  "scan_MONOBYTE buffer buffer_len start = (if start \<ge> buffer_len then glyph_end npos else glyph_end (start + 1))"

definition scan_BIG5 :: "string \<Rightarrow> nat \<Rightarrow> nat \<Rightarrow> glyph_res" where
  "scan_BIG5 buffer buffer_len start =
     (if start \<ge> buffer_len then glyph_end npos
      else let byte1 = get_byte buffer start in
      if byte1 < 0x80 then glyph_end (start + 1)
      else if \<not> between_inc byte1 0x81 0xfe \<or> start + 2 > buffer_len then
        throw_for_encoding_error ''BIG5'' buffer start 1
      else let byte2 = get_byte buffer (start + 1) in
      if \<not> between_inc byte2 0x40 0x7e \<and> \<not> between_inc byte2 0xa1 0xfe then
        throw_for_encoding_error ''BIG5'' buffer start 2
      else glyph_end (start + 2))"

definition scan_EUC_CN :: "string \<Rightarrow> nat \<Rightarrow> nat \<Rightarrow> glyph_res" where
  "scan_EUC_CN buffer buffer_len start =
     (if start \<ge> buffer_len then glyph_end npos
      else let byte1 = get_byte buffer start in
      if byte1 < 0x80 then glyph_end (start + 1)
      else if \<not> between_inc byte1 0xa1 0xf7 \<or> start + 2 > buffer_len then
        throw_for_encoding_error ''EUC_CN'' buffer start 1
      else let byte2 = get_byte buffer (start + 1) in
      if \<not> between_inc byte2 0xa1 0xfe then throw_for_encoding_error ''EUC_CN'' buffer start 2
      else glyph_end (start + 2))"

definition scan_EUC_JP :: "string \<Rightarrow> nat \<Rightarrow> nat \<Rightarrow> glyph_res" where
  "scan_EUC_JP buffer buffer_len start =
     (if start \<ge> buffer_len then glyph_end npos
      else let byte1 = get_byte buffer start in
      if byte1 < 0x80 then glyph_end (start + 1)
      else if start + 2 > buffer_len then throw_for_encoding_error ''EUC_JP'' buffer start 1
      else let byte2 = get_byte buffer (start + 1) in
      if byte1 = 0x8e then
        (if \<not> between_inc byte2 0xa1 0xfe then throw_for_encoding_error ''EUC_JP'' buffer start 2
         else glyph_end (start + 2))
      else if between_inc byte1 0xa1 0xfe then
        (if \<not> between_inc byte2 0xa1 0xfe then throw_for_encoding_error ''EUC_JP'' buffer start 2
         else glyph_end (start + 2))
      else if byte1 = 0x8f \<and> start + 3 \<le> buffer_len then
        (let byte3 = get_byte buffer (start + 2) in
         if \<not> between_inc byte2 0xa1 0xfe \<or> \<not> between_inc byte3 0xa1 0xfe then
           throw_for_encoding_error ''EUC_JP'' buffer start 3
         else glyph_end (start + 3))
      else throw_for_encoding_error ''EUC_JP'' buffer start 1)"

definition scan_EUC_KR :: "string \<Rightarrow> nat \<Rightarrow> nat \<Rightarrow> glyph_res" where
  "scan_EUC_KR buffer buffer_len start =
     (if start \<ge> buffer_len then glyph_end npos
      else let byte1 = get_byte buffer start in
      if byte1 < 0x80 then glyph_end (start + 1)
      else if \<not> between_inc byte1 0xa1 0xfe \<or> start + 2 > buffer_len then
        throw_for_encoding_error ''EUC_KR'' buffer start 1
      else let byte2 = get_byte buffer (start + 1) in
      if \<not> between_inc byte2 0xa1 0xfe then throw_for_encoding_error ''EUC_KR'' buffer start 1
      else glyph_end (start + 2))"

text \<open>The errors of this scanner name \<open>EUC_KR\<close>.\<close>

definition scan_EUC_TW :: "string \<Rightarrow> nat \<Rightarrow> nat \<Rightarrow> glyph_res" where
  "scan_EUC_TW buffer buffer_len start =
     (if start \<ge> buffer_len then glyph_end npos
      else let byte1 = get_byte buffer start in
      if byte1 < 0x80 then glyph_end (start + 1)
      else if start + 2 > buffer_len then throw_for_encoding_error ''EUC_KR'' buffer start 1
      else let byte2 = get_byte buffer (start + 1) in
      if between_inc byte1 0xa1 0xfe then
        (if \<not> between_inc byte2 0xa1 0xfe then throw_for_encoding_error ''EUC_KR'' buffer start 2
         else glyph_end (start + 2))
      else if byte1 \<noteq> 0x8e \<or> start + 4 > buffer_len then throw_for_encoding_error ''EUC_KR'' buffer start 1
      else if between_inc byte2 0xa1 0xb0 \<and> between_inc (get_byte buffer (start + 2)) 0xa1 0xfe \<and>
        between_inc (get_byte buffer (start + 3)) 0xa1 0xfe then glyph_end (start + 4)
      else throw_for_encoding_error ''EUC_KR'' buffer start 4)"

definition scan_GB18030 :: "string \<Rightarrow> nat \<Rightarrow> nat \<Rightarrow> glyph_res" where
  "scan_GB18030 buffer buffer_len start =
     (if start \<ge> buffer_len then glyph_end npos
      else let byte1 = get_byte buffer start in
      if byte1 < 0x80 then glyph_end (start + 1)
      else if byte1 = 0x80 then throw_for_encoding_error ''GB18030'' buffer start (buffer_len - start)
      else if start + 2 > buffer_len then throw_for_encoding_error ''GB18030'' buffer start (buffer_len - start)
      else let byte2 = get_byte buffer (start + 1) in
      if between_inc byte2 0x40 0xfe then
        (if byte2 = 0x7f then throw_for_encoding_error ''GB18030'' buffer start 2 else glyph_end (start + 2))
      else if start + 4 > buffer_len then throw_for_encoding_error ''GB18030'' buffer start (buffer_len - start)
      else if between_inc byte2 0x30 0x39 \<and> between_inc (get_byte buffer (start + 2)) 0x81 0xfe \<and>
        between_inc (get_byte buffer (start + 3)) 0x30 0x39 then glyph_end (start + 4)
      else throw_for_encoding_error ''GB18030'' buffer start 4)"

definition scan_GBK :: "string \<Rightarrow> nat \<Rightarrow> nat \<Rightarrow> glyph_res" where
  "scan_GBK buffer buffer_len start =
     (if start \<ge> buffer_len then glyph_end npos
      else let byte1 = get_byte buffer start in
      if byte1 < 0x80 then glyph_end (start + 1)
      else if start + 2 > buffer_len then throw_for_encoding_error ''GBK'' buffer start 1
      else let byte2 = get_byte buffer (start + 1) in
      if between_inc byte1 0xa1 0xa9 \<and> between_inc byte2 0xa1 0xfe \<or>
         between_inc byte1 0xb0 0xf7 \<and> between_inc byte2 0xa1 0xfe \<or>
         between_inc byte1 0x81 0xa0 \<and> between_inc byte2 0x40 0xfe \<and> byte2 \<noteq> 0x7f \<or>
         between_inc byte1 0xaa 0xfe \<and> between_inc byte2 0x40 0xa0 \<and> byte2 \<noteq> 0x7f \<or>
         between_inc byte1 0xa8 0xa9 \<and> between_inc byte2 0x40 0xa0 \<and> byte2 \<noteq> 0x7f \<or>
         between_inc byte1 0xaa 0xaf \<and> between_inc byte2 0xa1 0xfe \<or>
         between_inc byte1 0xf8 0xfe \<and> between_inc byte2 0xa1 0xfe \<or>
         between_inc byte1 0xa1 0xa7 \<and> between_inc byte2 0x40 0xa0 \<and> byte2 \<noteq> 0x7f
      then glyph_end (start + 2)
      else throw_for_encoding_error ''GBK'' buffer start 2)"

text \<open>The second byte is read from the position of the first.\<close>

definition scan_JOHAB :: "string \<Rightarrow> nat \<Rightarrow> nat \<Rightarrow> glyph_res" where
  "scan_JOHAB buffer buffer_len start =
     (if start \<ge> buffer_len then glyph_end npos
      else let byte1 = get_byte buffer start in
      if byte1 < 0x80 then glyph_end (start + 1)
      else if start + 2 > buffer_len then throw_for_encoding_error ''JOHAB'' buffer start 1
      else let byte2 = get_byte buffer start in
      if between_inc byte1 0x84 0xd3 \<and> (between_inc byte2 0x41 0x7e \<or> between_inc byte2 0x81 0xfe) \<or>
         (between_inc byte1 0xd8 0xde \<or> between_inc byte1 0xe0 0xf9) \<and>
         (between_inc byte2 0x31 0x7e \<or> between_inc byte2 0x91 0xfe)
      then glyph_end (start + 2)
      else throw_for_encoding_error ''JOHAB'' buffer start 2)"

text \<open>
  The last condition of this scanner reads the byte at \<open>start + 4\<close>, after making sure only that the buffer
  extends to \<open>start + 3\<close>.
\<close>

definition scan_MULE_INTERNAL :: "string \<Rightarrow> nat \<Rightarrow> nat \<Rightarrow> glyph_res" where
  "scan_MULE_INTERNAL buffer buffer_len start =
     (if start \<ge> buffer_len then glyph_end npos
      else let byte1 = get_byte buffer start in
      if byte1 < 0x80 then glyph_end (start + 1)
      else if start + 2 > buffer_len then throw_for_encoding_error ''MULE_INTERNAL'' buffer start 1
      else let byte2 = get_byte buffer (start + 1) in
      if between_inc byte1 0x81 0x8d \<and> byte2 \<ge> 0xa0 then glyph_end (start + 2)
      else if start + 3 > buffer_len then throw_for_encoding_error ''MULE_INTERNAL'' buffer start 2
      else if (byte1 = 0x9a \<and> between_inc byte2 0xa0 0xdf \<or> byte1 = 0x9b \<and> between_inc byte2 0xe0 0xef \<or>
          between_inc byte1 0x90 0x99 \<and> byte2 \<ge> 0xa0) \<and> byte2 \<ge> 0xa0
      then glyph_end (start + 3)
      else if start + 4 > buffer_len then throw_for_encoding_error ''MULE_INTERNAL'' buffer start 3
      else if (byte1 = 0x9c \<and> between_inc byte2 0xf0 0xf4 \<or> byte1 = 0x9d \<and> between_inc byte2 0xf5 0xfe) \<and>
          get_byte buffer (start + 2) \<ge> 0xa0
      then (if start + 4 \<ge> length buffer then Inr None
            else if get_byte buffer (start + 4) \<ge> 0xa0 then glyph_end (start + 4)
            else throw_for_encoding_error ''MULE_INTERNAL'' buffer start 4)
      else throw_for_encoding_error ''MULE_INTERNAL'' buffer start 4)"

definition scan_SJIS :: "string \<Rightarrow> nat \<Rightarrow> nat \<Rightarrow> glyph_res" where
  "scan_SJIS buffer buffer_len start =
     (if start \<ge> buffer_len then glyph_end npos
      else let byte1 = get_byte buffer start in
      if byte1 < 0x80 \<or> between_inc byte1 0xa1 0xdf then glyph_end (start + 1)
      else if \<not> between_inc byte1 0x81 0x9f \<and> \<not> between_inc byte1 0xe0 0xfc then
        throw_for_encoding_error ''SJIS'' buffer start 1
      else if start + 2 > buffer_len then throw_for_encoding_error ''SJIS'' buffer start (buffer_len - start)
      else let byte2 = get_byte buffer (start + 1) in
      if byte2 = 0x7f then throw_for_encoding_error ''SJIS'' buffer start 2
      else if between_inc byte2 0x40 0x9e \<or> between_inc byte2 0x9f 0xfc then glyph_end (start + 2)
      else throw_for_encoding_error ''SJIS'' buffer start 2)"

definition scan_UHC :: "string \<Rightarrow> nat \<Rightarrow> nat \<Rightarrow> glyph_res" where
  "scan_UHC buffer buffer_len start =
     (if start \<ge> buffer_len then glyph_end npos
      else let byte1 = get_byte buffer start in
      if byte1 < 0x80 then glyph_end (start + 1)
      else if start + 2 > buffer_len then throw_for_encoding_error ''UHC'' buffer start (buffer_len - start)
      else let byte2 = get_byte buffer (start + 1) in
      if between_inc byte1 0x80 0xc6 then
        (if between_inc byte2 0x41 0x5a \<or> between_inc byte2 0x61 0x7a \<or> between_inc byte2 0x80 0xfe
         then glyph_end (start + 2)
         else throw_for_encoding_error ''UHC'' buffer start 2)
      else if between_inc byte1 0xa1 0xfe then
        (if \<not> between_inc byte2 0xa1 0xfe then throw_for_encoding_error ''UHC'' buffer start 2
         else glyph_end (start + 2))
      else throw_for_encoding_error ''UHC'' buffer start 1)"

definition scan_UTF8 :: "string \<Rightarrow> nat \<Rightarrow> nat \<Rightarrow> glyph_res" where
  "scan_UTF8 buffer buffer_len start =
     (if start \<ge> buffer_len then glyph_end npos
      else let byte1 = get_byte buffer start in
      if byte1 < 0x80 then glyph_end (start + 1)
      else if start + 2 > buffer_len then throw_for_encoding_error ''UTF8'' buffer start (buffer_len - start)
      else let byte2 = get_byte buffer (start + 1) in
      if between_inc byte1 0xc0 0xdf then
        (if \<not> between_inc byte2 0x80 0xbf then throw_for_encoding_error ''UTF8'' buffer start 2
         else glyph_end (start + 2))
      else if start + 3 > buffer_len then throw_for_encoding_error ''UTF8'' buffer start (buffer_len - start)
      else let byte3 = get_byte buffer (start + 2) in
      if between_inc byte1 0xe0 0xef then
        (if between_inc byte2 0x80 0xbf \<and> between_inc byte3 0x80 0xbf then glyph_end (start + 3)
         else throw_for_encoding_error ''UTF8'' buffer start 3)
      else if start + 4 > buffer_len then throw_for_encoding_error ''UTF8'' buffer start (buffer_len - start)
      else if between_inc byte1 0xf0 0xf7 then
        (if between_inc byte2 0x80 0xbf \<and> between_inc byte3 0x80 0xbf \<and>
            between_inc (get_byte buffer (start + 3)) 0x80 0xbf then glyph_end (start + 4)
         else throw_for_encoding_error ''UTF8'' buffer start 4)
      else throw_for_encoding_error ''UTF8'' buffer start 1)"

definition get_glyph_scanner :: "encoding_group \<Rightarrow> string \<Rightarrow> nat \<Rightarrow> nat \<Rightarrow> glyph_res" where
  "get_glyph_scanner enc = (case enc of
     MONOBYTE \<Rightarrow> scan_MONOBYTE | BIG5 \<Rightarrow> scan_BIG5 | EUC_CN \<Rightarrow> scan_EUC_CN | EUC_JP \<Rightarrow> scan_EUC_JP
   | EUC_KR \<Rightarrow> scan_EUC_KR | EUC_TW \<Rightarrow> scan_EUC_TW | GB18030 \<Rightarrow> scan_GB18030 | GBK \<Rightarrow> scan_GBK
   | JOHAB \<Rightarrow> scan_JOHAB | MULE_INTERNAL \<Rightarrow> scan_MULE_INTERNAL | SJIS \<Rightarrow> scan_SJIS | UHC \<Rightarrow> scan_UHC
   | UTF8 \<Rightarrow> scan_UTF8)"

lemmas scan_defs = scan_MONOBYTE_def scan_BIG5_def scan_EUC_CN_def scan_EUC_JP_def scan_EUC_KR_def scan_EUC_TW_def
  scan_GB18030_def scan_GBK_def scan_JOHAB_def scan_MULE_INTERNAL_def scan_SJIS_def scan_UHC_def scan_UTF8_def

lemma throw_not_Inr [simp]: "throw_for_encoding_error e b s c \<noteq> Inr x"
  by (simp add: throw_for_encoding_error_def)

section \<open>What every scanner guarantees\<close>

lemma glyph_progress:
  assumes "get_glyph_scanner enc buffer n start = Inr (Some next)" "start < n"
  shows "start < next \<and> next \<le> n \<and> next \<le> start + 4"
proof (cases enc)
  case MONOBYTE
  with assms show ?thesis by (auto simp: get_glyph_scanner_def scan_MONOBYTE_def glyph_end_def)
next
  case BIG5
  with assms show ?thesis by (auto simp: get_glyph_scanner_def scan_BIG5_def glyph_end_def Let_def split: if_splits)
next
  case EUC_CN
  with assms show ?thesis by (auto simp: get_glyph_scanner_def scan_EUC_CN_def glyph_end_def Let_def split: if_splits)
next
  case EUC_JP
  with assms show ?thesis by (auto simp: get_glyph_scanner_def scan_EUC_JP_def glyph_end_def Let_def split: if_splits)
next
  case EUC_KR
  with assms show ?thesis by (auto simp: get_glyph_scanner_def scan_EUC_KR_def glyph_end_def Let_def split: if_splits)
next
  case EUC_TW
  with assms show ?thesis by (auto simp: get_glyph_scanner_def scan_EUC_TW_def glyph_end_def Let_def split: if_splits)
next
  case GB18030
  with assms show ?thesis by (auto simp: get_glyph_scanner_def scan_GB18030_def glyph_end_def Let_def split: if_splits)
next
  case GBK
  with assms show ?thesis
    by (simp add: get_glyph_scanner_def scan_GBK_def glyph_end_def Let_def cong: if_cong split: if_split_asm)
next
  case JOHAB
  with assms show ?thesis
    by (simp add: get_glyph_scanner_def scan_JOHAB_def glyph_end_def Let_def cong: if_cong split: if_split_asm)
next
  case MULE_INTERNAL
  with assms show ?thesis
    by (simp add: get_glyph_scanner_def scan_MULE_INTERNAL_def glyph_end_def Let_def cong: if_cong split: if_split_asm)
next
  case SJIS
  with assms show ?thesis by (auto simp: get_glyph_scanner_def scan_SJIS_def glyph_end_def Let_def split: if_splits)
next
  case UHC
  with assms show ?thesis by (auto simp: get_glyph_scanner_def scan_UHC_def glyph_end_def Let_def split: if_splits)
next
  case UTF8
  with assms show ?thesis by (auto simp: get_glyph_scanner_def scan_UTF8_def glyph_end_def Let_def split: if_splits)
qed

lemma glyph_ascii:
  assumes "get_byte buffer start < 0x80" "start < n"
  shows "get_glyph_scanner enc buffer n start = Inr (Some (start + 1))"
  using assms by (cases enc) (simp_all add: get_glyph_scanner_def scan_defs glyph_end_def)

lemma scan_end: "n \<le> start \<Longrightarrow> get_glyph_scanner enc s n start = Inr (Some npos)"
  by (cases enc) (simp_all add: get_glyph_scanner_def scan_defs glyph_end_def)

lemma scan_forward: "get_glyph_scanner enc s n start = Inr (Some next) \<Longrightarrow> start < npos \<Longrightarrow> start < next"
  by (cases "start < n") (auto dest: glyph_progress simp: scan_end)

text \<open>What lies behind the end makes no difference to a glyph.\<close>

lemma scan_view:
  assumes "get_glyph_scanner enc s (length s) here = Inr (Some next)" "here < length s" "enc \<noteq> MULE_INTERNAL"
  shows "get_glyph_scanner enc (s @ b) (length s) here = Inr (Some next)"
proof -
  have b: "get_byte (s @ b) i = get_byte s i" if "i < length s" for i
    using that by (simp add: get_byte_def nth_append)
  from assms b [of here] b [of "here + 1"] b [of "here + 2"] b [of "here + 3"] show ?thesis
    by (cases enc; ((simp add: get_glyph_scanner_def scan_defs glyph_end_def Let_def split: if_split_asm; fail)
      | (auto simp: get_glyph_scanner_def scan_defs glyph_end_def between_inc_def Let_def split: if_splits; fail)))
qed

section \<open>Searching\<close>

text \<open>
  The loops below move from glyph to glyph.  \<open>next\<close> is a larger position inside the text, so they end.  The
  outcome \<open>None\<close> is a read beyond the text.
\<close>

function find_glyph_char :: "encoding_group \<Rightarrow> string \<Rightarrow> string \<Rightarrow> nat \<Rightarrow> glyph_res" where
  "find_glyph_char enc needle haystack here =
     (if here < length haystack then
        (case get_glyph_scanner enc haystack (length haystack) here of
           Inl e \<Rightarrow> Inl e
         | Inr None \<Rightarrow> Inr None
         | Inr (Some next) \<Rightarrow>
             if haystack ! here \<in> set needle \<and> next = here + 1 then Inr (Some here)
             else find_glyph_char enc needle haystack next)
      else Inr (Some (length haystack)))"
  by pat_completeness auto
termination
  by (relation "measure (\<lambda>(enc, needle, haystack, here). length haystack - here)") (auto dest: glyph_progress)

function find_ascii_char :: "encoding_group \<Rightarrow> string \<Rightarrow> string \<Rightarrow> nat \<Rightarrow> glyph_res" where
  "find_ascii_char enc needle haystack here =
     (if here < length haystack then
        (case get_glyph_scanner enc haystack (length haystack) here of
           Inl e \<Rightarrow> Inl e
         | Inr None \<Rightarrow> Inr None
         | Inr (Some next) \<Rightarrow>
             if haystack ! here \<in> set needle then Inr (Some here)
             else find_ascii_char enc needle haystack next)
      else Inr (Some (length haystack)))"
  by pat_completeness auto
termination
  by (relation "measure (\<lambda>(enc, needle, haystack, here). length haystack - here)") (auto dest: glyph_progress)

text \<open>
  Without a test of the end: a search that reaches the end \<open>sz\<close> of the text reads on in the memory \<open>data\<close> around
  it, from where the scanner, which returns \<open>npos\<close> then, sends it.
\<close>

function find_s_ascii_char :: "encoding_group \<Rightarrow> string \<Rightarrow> string \<Rightarrow> nat \<Rightarrow> nat \<Rightarrow> glyph_res" where
  "find_s_ascii_char enc needle data sz here =
     (if here \<ge> length data \<or> here \<ge> npos then Inr None
      else if data ! here \<notin> set needle then
        (case get_glyph_scanner enc data sz here of
           Inl e \<Rightarrow> Inl e
         | Inr None \<Rightarrow> Inr None
         | Inr (Some next) \<Rightarrow> find_s_ascii_char enc needle data sz next)
      else Inr (Some here))"
  by pat_completeness auto
termination
  by (relation "measure (\<lambda>(enc, needle, data, sz, here). npos - here)") (auto dest: scan_forward)

declare find_glyph_char.simps [simp del] find_ascii_char.simps [simp del] find_s_ascii_char.simps [simp del]

text \<open>\<open>for_glyphs\<close> calls back with the first position of each glyph and the position after it.\<close>

function for_glyphs ::
    "encoding_group \<Rightarrow> (nat \<Rightarrow> nat \<Rightarrow> 'a \<Rightarrow> 'a) \<Rightarrow> string \<Rightarrow> nat \<Rightarrow> 'a \<Rightarrow> unit option res \<times> 'a" where
  "for_glyphs enc callback buffer here acc =
     (if here < length buffer then
        (case get_glyph_scanner enc buffer (length buffer) here of
           Inl e \<Rightarrow> (Inl e, acc)
         | Inr None \<Rightarrow> (Inr None, acc)
         | Inr (Some next) \<Rightarrow> for_glyphs enc callback buffer next (callback here next acc))
      else (Inr (Some ()), acc))"
  by pat_completeness auto
termination
  by (relation "measure (\<lambda>(enc, callback, buffer, here, acc). length buffer - here)") (auto dest: glyph_progress)

declare for_glyphs.simps [simp del]

definition map_ascii_search_group :: "encoding_group \<Rightarrow> encoding_group" where
  "map_ascii_search_group enc =
     (if enc \<in> {MONOBYTE, EUC_CN, EUC_JP, EUC_KR, EUC_TW, MULE_INTERNAL, UTF8} then MONOBYTE else enc)"

text \<open>The numbers the enumeration members are printed as.\<close>

definition group_code :: "encoding_group \<Rightarrow> nat" where
  "group_code enc = (case enc of
     MONOBYTE \<Rightarrow> 0 | BIG5 \<Rightarrow> 1 | EUC_CN \<Rightarrow> 2 | EUC_JP \<Rightarrow> 3 | EUC_KR \<Rightarrow> 4 | EUC_TW \<Rightarrow> 5 | GB18030 \<Rightarrow> 6 | GBK \<Rightarrow> 7
   | JOHAB \<Rightarrow> 8 | MULE_INTERNAL \<Rightarrow> 9 | SJIS \<Rightarrow> 10 | UHC \<Rightarrow> 11 | UTF8 \<Rightarrow> 12)"

definition unexpected_group :: "encoding_group \<Rightarrow> encoding_group \<Rightarrow> exn" where
  "unexpected_group as_if enc = Pqxx_internal_error
     (''Unexpected encoding group: '' @ nat_to_string (group_code as_if) @ '' (mapped from '' @
      nat_to_string (group_code enc) @ '').'')"

type_synonym char_finder_func = "string \<Rightarrow> nat \<Rightarrow> glyph_res"

definition get_char_finder :: "string \<Rightarrow> encoding_group \<Rightarrow> char_finder_func res" where
  "get_char_finder needle enc =
     (let as_if = map_ascii_search_group enc in
      case as_if of
        MONOBYTE \<Rightarrow> Inr (find_ascii_char MONOBYTE needle)
      | BIG5 \<Rightarrow> Inr (find_ascii_char BIG5 needle)
      | GB18030 \<Rightarrow> Inr (find_ascii_char GB18030 needle)
      | GBK \<Rightarrow> Inr (find_ascii_char GBK needle)
      | JOHAB \<Rightarrow> Inr (find_ascii_char JOHAB needle)
      | SJIS \<Rightarrow> Inr (find_ascii_char SJIS needle)
      | UHC \<Rightarrow> Inr (find_ascii_char UHC needle)
      | _ \<Rightarrow> Inl (unexpected_group as_if enc))"

text \<open>The memory and the size of the view into it.\<close>

type_synonym s_char_finder_func = "string \<Rightarrow> nat \<Rightarrow> nat \<Rightarrow> glyph_res"

definition get_s_char_finder :: "string \<Rightarrow> encoding_group \<Rightarrow> s_char_finder_func res" where
  "get_s_char_finder needle enc =
     (let as_if = map_ascii_search_group enc in
      case as_if of
        MONOBYTE \<Rightarrow> Inr (find_s_ascii_char MONOBYTE needle)
      | BIG5 \<Rightarrow> Inr (find_s_ascii_char BIG5 needle)
      | GB18030 \<Rightarrow> Inr (find_s_ascii_char GB18030 needle)
      | GBK \<Rightarrow> Inr (find_s_ascii_char GBK needle)
      | JOHAB \<Rightarrow> Inr (find_s_ascii_char JOHAB needle)
      | SJIS \<Rightarrow> Inr (find_s_ascii_char SJIS needle)
      | UHC \<Rightarrow> Inr (find_s_ascii_char UHC needle)
      | _ \<Rightarrow> Inl (unexpected_group as_if enc))"

section \<open>The searches agree\<close>

text \<open>The needles are ASCII characters, as the static assertions of the source demand.\<close>

definition ascii :: "string \<Rightarrow> bool" where
  "ascii s \<longleftrightarrow> (\<forall>c \<in> set s. (of_char c :: nat) < 0x80)"

lemma ascii_needle_glyph:
  assumes "ascii needle" "haystack ! here \<in> set needle" "here < length haystack"
  shows "get_glyph_scanner enc haystack (length haystack) here = Inr (Some (here + 1))"
  using assms by (intro glyph_ascii) (auto simp: ascii_def get_byte_def)

text \<open>\<open>splits enc s here gs\<close>: from \<open>here\<close> on, \<open>s\<close> is the sequence \<open>gs\<close> of glyphs, each from its first position to the one after it.\<close>

inductive splits :: "encoding_group \<Rightarrow> string \<Rightarrow> nat \<Rightarrow> (nat \<times> nat) list \<Rightarrow> bool" for enc s where
  splits_end: "splits enc s (length s) []"
| splits_glyph: "here < length s \<Longrightarrow> get_glyph_scanner enc s (length s) here = Inr (Some next) \<Longrightarrow>
    splits enc s next gs \<Longrightarrow> splits enc s here ((here, next) # gs)"

inductive_cases splits_NilE: "splits enc s here []"
inductive_cases splits_ConsE: "splits enc s here (g # gs)"

lemma find_glyph_char_ascii:
  "ascii needle \<Longrightarrow> find_glyph_char enc needle h here = find_ascii_char enc needle h here"
proof (induction enc needle h here rule: find_ascii_char.induct)
  case (1 enc needle h here)
  show ?case
    by (subst find_glyph_char.simps, subst find_ascii_char.simps)
      (use 1 ascii_needle_glyph in \<open>auto split: sum.splits option.splits\<close>)
qed

lemma for_glyphs_splits:
  "splits enc s here gs \<Longrightarrow> for_glyphs enc cb s here acc = (Inr (Some ()), fold (\<lambda>(b, e). cb b e) gs acc)"
proof (induction arbitrary: acc rule: splits.induct)
  case splits_end
  show ?case by (subst for_glyphs.simps) simp
next
  case (splits_glyph here "next" gs)
  then show ?case by (subst for_glyphs.simps) simp
qed

definition hit :: "string \<Rightarrow> string \<Rightarrow> (nat \<times> nat) list \<Rightarrow> nat" where
  "hit needle s gs = (case find (\<lambda>g. s ! fst g \<in> set needle) gs of None \<Rightarrow> length s | Some g \<Rightarrow> fst g)"

lemma hit_simps [simp]:
  "hit needle s [] = length s"
  "hit needle s (g # gs) = (if s ! fst g \<in> set needle then fst g else hit needle s gs)"
  by (simp_all add: hit_def)

lemma find_ascii_char_splits:
  "splits enc s here gs \<Longrightarrow> find_ascii_char enc needle s here = Inr (Some (hit needle s gs))"
proof (induction rule: splits.induct)
  case splits_end
  show ?case by (subst find_ascii_char.simps) simp
next
  case (splits_glyph here "next" gs)
  then show ?case by (subst find_ascii_char.simps) simp
qed

text \<open>A needle in the text or right behind it.\<close>

definition has_sentinel :: "string \<Rightarrow> string \<Rightarrow> string \<Rightarrow> (nat \<times> nat) list \<Rightarrow> bool" where
  "has_sentinel needle s b gs \<longleftrightarrow> (\<exists>g \<in> set gs. s ! fst g \<in> set needle) \<or> b \<noteq> [] \<and> hd b \<in> set needle"

lemma has_sentinel_Cons: "has_sentinel needle s b (g # gs) \<Longrightarrow> s ! fst g \<notin> set needle \<Longrightarrow> has_sentinel needle s b gs"
  by (auto simp: has_sentinel_def)

lemma sentinel_end: "has_sentinel needle s b [] \<Longrightarrow> length (s @ b) \<le> npos \<Longrightarrow>
   find_s_ascii_char enc needle (s @ b) (length s) (length s) = Inr (Some (length s))"
  by (subst find_s_ascii_char.simps) (cases b; simp add: has_sentinel_def)

lemma find_s_ascii_char_splits:
  "splits enc s here gs \<Longrightarrow> has_sentinel needle s b gs \<Longrightarrow> length (s @ b) \<le> npos \<Longrightarrow> enc \<noteq> MULE_INTERNAL \<Longrightarrow>
   find_s_ascii_char enc needle (s @ b) (length s) here = Inr (Some (hit needle s gs))"
proof (induction rule: splits.induct)
  case splits_end
  then show ?case by (simp add: sentinel_end)
next
  case (splits_glyph here "next" gs)
  from scan_view [OF splits_glyph(2,1,7)] splits_glyph(1,4-7) has_sentinel_Cons [OF splits_glyph(5)]
  show ?case by (subst find_s_ascii_char.simps) (auto simp: nth_append)
qed

text \<open>In the groups searched byte by byte, every byte of a glyph after the first has its high bit set.\<close>

lemma plus_Suc: "(a :: nat) + 3 = Suc (Suc (Suc a))" "a + 4 = Suc (Suc (Suc (Suc a)))"
  by simp_all

lemma glyph_high:
  assumes "get_glyph_scanner enc s n here = Inr (Some next)" "enc \<in> {EUC_CN, EUC_JP, EUC_KR, EUC_TW, UTF8}"
    and "here < n" "here < i" "i < next"
  shows "0x80 \<le> get_byte s i"
proof -
  from assms(2) consider "enc = EUC_CN" | "enc = EUC_JP" | "enc = EUC_KR" | "enc = EUC_TW" | "enc = UTF8" by blast
  then show ?thesis
  proof cases
    case 1
    with assms show ?thesis
      by (auto simp: get_glyph_scanner_def scan_EUC_CN_def glyph_end_def between_inc_def Let_def less_Suc_eq plus_Suc split: if_splits)
  next
    case 2
    with assms show ?thesis
      by (auto simp: get_glyph_scanner_def scan_EUC_JP_def glyph_end_def between_inc_def Let_def less_Suc_eq plus_Suc split: if_splits)
  next
    case 3
    with assms show ?thesis
      by (auto simp: get_glyph_scanner_def scan_EUC_KR_def glyph_end_def between_inc_def Let_def less_Suc_eq plus_Suc split: if_splits)
  next
    case 4
    with assms show ?thesis
      by (auto simp: get_glyph_scanner_def scan_EUC_TW_def glyph_end_def between_inc_def Let_def less_Suc_eq plus_Suc split: if_splits)
  next
    case 5
    with assms show ?thesis
      by (auto simp: get_glyph_scanner_def scan_UTF8_def glyph_end_def between_inc_def Let_def less_Suc_eq plus_Suc split: if_splits)
  qed
qed

lemma mono_scan: "here < n \<Longrightarrow> get_glyph_scanner MONOBYTE s n here = Inr (Some (here + 1))"
  by (simp add: get_glyph_scanner_def scan_MONOBYTE_def glyph_end_def)

lemma find_mono_skip:
  assumes "here \<le> next" "next \<le> length s" "\<And>i. here \<le> i \<Longrightarrow> i < next \<Longrightarrow> s ! i \<notin> set needle"
  shows "find_ascii_char MONOBYTE needle s here = find_ascii_char MONOBYTE needle s next"
  using assms
proof (induction rule: inc_induct)
  case (step i)
  then have "find_ascii_char MONOBYTE needle s i = find_ascii_char MONOBYTE needle s (Suc i)"
    by (subst find_ascii_char.simps) (simp add: mono_scan)
  with step show ?case by simp
qed simp

lemma find_s_mono_skip:
  assumes "here \<le> next" "next \<le> sz" "sz \<le> length s" "length s \<le> npos" "\<And>i. here \<le> i \<Longrightarrow> i < next \<Longrightarrow> s ! i \<notin> set needle"
  shows "find_s_ascii_char MONOBYTE needle s sz here = find_s_ascii_char MONOBYTE needle s sz next"
  using assms
proof (induction rule: inc_induct)
  case (step i)
  then have "find_s_ascii_char MONOBYTE needle s sz i = find_s_ascii_char MONOBYTE needle s sz (Suc i)"
    by (subst find_s_ascii_char.simps) (simp add: mono_scan)
  with step show ?case by simp
qed simp

lemma ascii_not_high: "ascii needle \<Longrightarrow> 0x80 \<le> get_byte s i \<Longrightarrow> s ! i \<notin> set needle"
  by (auto simp: ascii_def get_byte_def)

text \<open>The bytes of a glyph whose first byte is no needle are no needles.\<close>

lemma glyph_no_needle:
  assumes "get_glyph_scanner enc s n here = Inr (Some next)" "enc \<in> {EUC_CN, EUC_JP, EUC_KR, EUC_TW, UTF8}"
    and "here < n" "ascii needle" "s ! here \<notin> set needle" "here \<le> i" "i < next"
  shows "s ! i \<notin> set needle"
proof (cases "i = here")
  case False
  with assms show ?thesis using glyph_high [OF assms(1-3)] ascii_not_high by simp
qed (use assms in simp)

abbreviation bytewise :: "encoding_group set" where
  "bytewise \<equiv> {EUC_CN, EUC_JP, EUC_KR, EUC_TW, UTF8}"

lemma bytewise_search:
  assumes "splits enc s here gs" "enc \<in> bytewise" "ascii needle"
  shows "find_ascii_char MONOBYTE needle s here = Inr (Some (hit needle s gs))"
  using assms(1)
proof (induction rule: splits.induct)
  case splits_end
  show ?case by (subst find_ascii_char.simps) simp
next
  case (splits_glyph here "next" gs)
  show ?case
  proof (cases "s ! here \<in> set needle")
    case True
    with splits_glyph show ?thesis by (subst find_ascii_char.simps) (simp add: mono_scan)
  next
    case False
    from glyph_progress [OF splits_glyph(2,1)] have "here \<le> next" "next \<le> length s" by simp_all
    with find_mono_skip glyph_no_needle [OF splits_glyph(2) assms(2) splits_glyph(1) assms(3) False]
    have "find_ascii_char MONOBYTE needle s here = find_ascii_char MONOBYTE needle s next" by blast
    with splits_glyph False show ?thesis by simp
  qed
qed

lemma bytewise_s_search:
  assumes "splits enc s here gs" "enc \<in> bytewise" "ascii needle" "has_sentinel needle s b gs" "length (s @ b) \<le> npos"
  shows "find_s_ascii_char MONOBYTE needle (s @ b) (length s) here = Inr (Some (hit needle s gs))"
  using assms(1,4)
proof (induction rule: splits.induct)
  case splits_end
  with assms(5) show ?case by (simp add: sentinel_end)
next
  case (splits_glyph here "next" gs)
  show ?case
  proof (cases "s ! here \<in> set needle")
    case True
    with splits_glyph(1) assms(5) show ?thesis by (subst find_s_ascii_char.simps) (simp add: nth_append)
  next
    case False
    from glyph_progress [OF splits_glyph(2,1)] have n: "here \<le> next" "next \<le> length s" by simp_all
    have "(s @ b) ! i \<notin> set needle" if "here \<le> i" "i < next" for i
      using glyph_no_needle [OF splits_glyph(2) assms(2) splits_glyph(1) assms(3) False that] that n by (simp add: nth_append)
    from find_s_mono_skip [OF n _ assms(5) this] have
      "find_s_ascii_char MONOBYTE needle (s @ b) (length s) here = find_s_ascii_char MONOBYTE needle (s @ b) (length s) next"
      by simp
    with splits_glyph False has_sentinel_Cons [OF splits_glyph(5)] show ?thesis by simp
  qed
qed

section \<open>Properties\<close>

text \<open>
  Every scanner of every encoding makes progress and stays inside the text: when it returns a position
  for a glyph that starts inside, the glyph has one to four bytes and ends at or before the end.  An ASCII
  byte at the start is a glyph of its own in every encoding.
\<close>

theorem glyph_bounds:
  assumes "start < n"
  shows "(\<forall>next. get_glyph_scanner enc buffer n start = Inr (Some next) \<longrightarrow>
      start < next \<and> next \<le> n \<and> next \<le> start + 4) \<and>
    (get_byte buffer start < 0x80 \<longrightarrow> get_glyph_scanner enc buffer n start = Inr (Some (start + 1)))"
  using glyph_progress glyph_ascii assms by blast

theorem glyph_bounds_witness:
  "get_glyph_scanner UTF8 ''ab'' 2 1 = Inr (Some 2)"
  using glyph_bounds [of 1 2 UTF8 "''ab''"] by (simp add: get_byte_def)

text \<open>
  C23. Searching a text for ASCII characters.  On a text that is a sequence of glyphs, the search function the
  library picks for the encoding (byte by byte where it thinks that safe) returns the first glyph that is one
  of the characters, or the end of the text; so does the older search that looks at glyph sizes; and the
  version without a test of the end returns the same position whenever one of the characters is there, or comes
  right behind the text in memory.  This holds for every encoding but MULE_INTERNAL.
\<close>

theorem char_finder_finds:
  assumes "splits enc s here gs" "ascii needle" "enc \<noteq> MULE_INTERNAL"
  shows "\<exists>f g. get_char_finder needle enc = Inr f \<and> f s here = Inr (Some (hit needle s gs)) \<and>
    get_s_char_finder needle enc = Inr g \<and>
    (\<forall>b. length (s @ b) \<le> npos \<and> ((\<exists>x \<in> set gs. s ! fst x \<in> set needle) \<or> b \<noteq> [] \<and> hd b \<in> set needle) \<longrightarrow>
      g (s @ b) (length s) here = Inr (Some (hit needle s gs))) \<and>
    find_glyph_char enc needle s here = Inr (Some (hit needle s gs))"
proof -
  note simps = get_char_finder_def get_s_char_finder_def map_ascii_search_group_def
  let ?sent = "\<lambda>b. length (s @ b) \<le> npos \<and> ((\<exists>x \<in> set gs. s ! fst x \<in> set needle) \<or> b \<noteq> [] \<and> hd b \<in> set needle)"
  let ?r = "Inr (Some (hit needle s gs)) :: glyph_res"
  have g: "find_glyph_char enc needle s here = ?r"
    using assms by (simp add: find_glyph_char_ascii find_ascii_char_splits)
  show ?thesis
  proof (cases "enc \<in> bytewise")
    case True
    then have "get_char_finder needle enc = Inr (find_ascii_char MONOBYTE needle)"
      "get_s_char_finder needle enc = Inr (find_s_ascii_char MONOBYTE needle)" by (auto simp: simps)
    moreover have "\<forall>b. ?sent b \<longrightarrow> find_s_ascii_char MONOBYTE needle (s @ b) (length s) here = ?r"
      using bytewise_s_search [OF assms(1) True assms(2)] by (simp add: has_sentinel_def)
    ultimately show ?thesis using g bytewise_search [OF assms(1) True assms(2)] by blast
  next
    case False
    then have "get_char_finder needle enc = Inr (find_ascii_char enc needle)"
      "get_s_char_finder needle enc = Inr (find_s_ascii_char enc needle)"
      using assms(3) by (cases enc; simp add: simps)+
    moreover have "\<forall>b. ?sent b \<longrightarrow> find_s_ascii_char enc needle (s @ b) (length s) here = ?r"
      using find_s_ascii_char_splits [OF assms(1) _ _ assms(3)] by (simp add: has_sentinel_def)
    ultimately show ?thesis using g find_ascii_char_splits [OF assms(1)] by blast
  qed
qed

text \<open>A Cyrillic letter in UTF-8 and a quote.\<close>

definition utf8_sample :: string where
  "utf8_sample = [CHR 0xD0, CHR 0x9E, CHR 0x22]"

lemma utf8_sample_splits: "splits UTF8 utf8_sample 0 [(0, 2), (2, 3)]"
proof -
  have "splits UTF8 utf8_sample 3 []"
    using splits_end [of UTF8 utf8_sample] by (simp add: utf8_sample_def eval_nat_numeral)
  moreover have "get_glyph_scanner UTF8 utf8_sample (length utf8_sample) 2 = Inr (Some 3)" by code_simp
  moreover have "get_glyph_scanner UTF8 utf8_sample (length utf8_sample) 0 = Inr (Some 2)" by code_simp
  ultimately show ?thesis by (simp add: splits_glyph utf8_sample_def)
qed

theorem char_finder_finds_witness:
  "\<exists>f g. get_char_finder [CHR 0x22] UTF8 = Inr f \<and> f utf8_sample 0 = Inr (Some 2) \<and>
    get_s_char_finder [CHR 0x22] UTF8 = Inr g \<and> g utf8_sample 3 0 = Inr (Some 2)"
proof -
  have "ascii [CHR 0x22]" by code_simp
  moreover have "hit [CHR 0x22] utf8_sample [(0, 2), (2, 3)] = 2" by code_simp
  moreover have "\<exists>x \<in> set [(0, 2), (2, 3::nat)]. utf8_sample ! fst x \<in> set [CHR 0x22]" by code_simp
  moreover have "length (utf8_sample @ []) \<le> npos" by (simp add: utf8_sample_def npos_def)
  moreover have "length utf8_sample = 3" by (simp add: utf8_sample_def)
  moreover from char_finder_finds [OF utf8_sample_splits, of "[CHR 0x22]"] calculation(1) obtain f g where
    "get_char_finder [CHR 0x22] UTF8 = Inr f" "f utf8_sample 0 = Inr (Some (hit [CHR 0x22] utf8_sample [(0, 2), (2, 3)]))"
    "get_s_char_finder [CHR 0x22] UTF8 = Inr g"
    "\<forall>b. length (utf8_sample @ b) \<le> npos \<and> ((\<exists>x \<in> set [(0, 2), (2, 3::nat)]. utf8_sample ! fst x \<in> set [CHR 0x22]) \<or>
      b \<noteq> [] \<and> hd b \<in> set [CHR 0x22]) \<longrightarrow>
      g (utf8_sample @ b) (length utf8_sample) 0 = Inr (Some (hit [CHR 0x22] utf8_sample [(0, 2), (2, 3)]))" by auto
  moreover from this(4) have "g (utf8_sample @ []) (length utf8_sample) 0 = Inr (Some (hit [CHR 0x22] utf8_sample [(0, 2), (2, 3)]))"
    using calculation(3,4) by blast
  ultimately show ?thesis by simp
qed

text \<open>
  MULE_INTERNAL is not safe to search byte by byte, although the library does: its scanner takes a quote as
  the third byte of a character, and then the search by bytes finds a quote where the text has none.  The
  scanner also reads one byte beyond a text that ends with a four-byte character.
\<close>

theorem mule_unsafe:
  "splits MULE_INTERNAL [CHR 0x9A, CHR 0xA0, CHR 0x22] 0 [(0, 3)] \<and>
   find_glyph_char MULE_INTERNAL [CHR 0x22] [CHR 0x9A, CHR 0xA0, CHR 0x22] 0 = Inr (Some 3) \<and>
   map_option (\<lambda>f. f [CHR 0x9A, CHR 0xA0, CHR 0x22] 0)
     (case get_char_finder [CHR 0x22] MULE_INTERNAL of Inl e \<Rightarrow> None | Inr f \<Rightarrow> Some f) = Some (Inr (Some 2)) \<and>
   get_glyph_scanner MULE_INTERNAL [CHR 0x9C, CHR 0xF0, CHR 0xA0, CHR 0xA0] 4 0 = Inr None"
proof (intro conjI)
  let ?s = "[CHR 0x9A, CHR 0xA0, CHR 0x22]"
  have "get_glyph_scanner MULE_INTERNAL ?s (length ?s) 0 = Inr (Some 3)" by code_simp
  moreover have "splits MULE_INTERNAL ?s 3 []"
    using splits_end [of MULE_INTERNAL ?s] by (simp add: eval_nat_numeral)
  ultimately show 1: "splits MULE_INTERNAL ?s 0 [(0, 3)]" by (simp add: splits_glyph)
  have "ascii [CHR 0x22]" by code_simp
  then show "find_glyph_char MULE_INTERNAL [CHR 0x22] ?s 0 = Inr (Some 3)"
    using find_ascii_char_splits [OF 1] by (simp add: find_glyph_char_ascii)
  have a: "find_ascii_char MONOBYTE [CHR 0x22] ?s 0 = Inr (Some 2)"
    by (simp add: find_ascii_char.simps mono_scan)
  then show "map_option (\<lambda>f. f ?s 0)
     (case get_char_finder [CHR 0x22] MULE_INTERNAL of Inl e \<Rightarrow> None | Inr f \<Rightarrow> Some f) = Some (Inr (Some 2))"
    by (simp add: get_char_finder_def map_ascii_search_group_def)
  show "get_glyph_scanner MULE_INTERNAL [CHR 0x9C, CHR 0xF0, CHR 0xA0, CHR 0xA0] 4 0 = Inr None" by code_simp
qed

text \<open>
  The JOHAB scanner never looks at the second byte: whatever follows a first byte between 84 and D3
  (hexadecimal), the two are taken for a character, so a quote there is skipped by every search.
\<close>

theorem johab_second_byte:
  assumes "0x84 \<le> get_byte s start" "get_byte s start \<le> 0xd3" "start + 2 \<le> n"
  shows "get_glyph_scanner JOHAB s n start = Inr (Some (start + 2))"
  using assms by (simp add: get_glyph_scanner_def scan_JOHAB_def between_inc_def glyph_end_def Let_def)

theorem johab_second_byte_witness:
  "get_glyph_scanner JOHAB [CHR 0x84, CHR 0x22] 2 0 = Inr (Some 2)"
  using johab_second_byte [of "[CHR 0x84, CHR 0x22]" 0 2] by (simp add: get_byte_def)

end
