(* ===== verification/Pqxx_Array.thy ===== *)
theory Pqxx_Array
  imports Pqxx_Encodings
begin

text \<open>
  SQL arrays in text form: \<open>include/pqxx/internal/array-composite.hxx\<close> (quoted and unquoted fields),
  \<open>src/array.cxx\<close> (\<open>array_parser\<close>) and \<open>include/pqxx/array.hxx\<close> (\<open>pqxx::array\<close>).  The template parameters
  are arguments: the encoding, the number of dimensions, the separator, and the element type as its conversion
  \<open>from_string\<close>, its null value if it has one, and its name.  The outcome \<open>None\<close> is a read outside of the
  buffer.
\<close>

section \<open>Fields\<close>

text \<open>Results that may be undefined behaviour.\<close>

type_synonym 'a ub_res = "'a option res"

definition bindU :: "'a ub_res \<Rightarrow> ('a \<Rightarrow> 'b ub_res) \<Rightarrow> 'b ub_res" where
  "bindU m f = (case m of Inl e \<Rightarrow> Inl e | Inr None \<Rightarrow> Inr None | Inr (Some x) \<Rightarrow> f x)"

lemma bindU_simps [simp]:
  "bindU (Inl e) f = Inl e" "bindU (Inr None) f = Inr None" "bindU (Inr (Some x)) f = f x"
  by (simp_all add: bindU_def)

lemma bindU_cong [fundef_cong]:
  "m = m' \<Longrightarrow> (\<And>x. m' = Inr (Some x) \<Longrightarrow> f x = f' x) \<Longrightarrow> bindU m f = bindU m' f'"
  by (auto simp: bindU_def split: sum.split option.split)

lemma bindU_Some: "bindU m f = Inr (Some y) \<longleftrightarrow> (\<exists>x. m = Inr (Some x) \<and> f x = Inr (Some y))"
  by (auto simp: bindU_def split: sum.splits option.splits)

definition okU :: "'a res \<Rightarrow> 'a ub_res" where
  "okU m = (case m of Inl e \<Rightarrow> Inl e | Inr x \<Rightarrow> Inr (Some x))"

lemma okU_simps [simp]: "okU (Inl e) = Inl e" "okU (Inr x) = Inr (Some x)"
  by (simp_all add: okU_def)

lemma okU_Some: "okU m = Inr (Some x) \<longleftrightarrow> m = Inr x"
  by (cases m) auto

definition slice :: "string \<Rightarrow> nat \<Rightarrow> nat \<Rightarrow> string" where
  "slice s a b = take (b - a) (drop a s)"

text \<open>
  The loop of \<open>scan_double_quoted_string\<close>; \<open>next\<close> is always the scan from \<open>pos\<close>.  The size is a \<open>size_t\<close>, so
  the second conjunct of the loop condition always holds in the code.
\<close>

function scan_dq_loop :: "encoding_group \<Rightarrow> string \<Rightarrow> nat \<Rightarrow> nat \<Rightarrow> bool \<Rightarrow> glyph_res" where
  "scan_dq_loop enc input sz pos at_quote =
     bindU (get_glyph_scanner enc input sz pos) (\<lambda>next.
       if pos < sz \<and> sz \<le> npos then
         (if at_quote then
            (if next - pos = 1 \<and> input ! pos = CHR 0x22 then scan_dq_loop enc input sz next False
             else Inr (Some pos))
          else if next - pos = 1 then
            (if input ! pos = CHR 0x5C then
               bindU (get_glyph_scanner enc input sz next) (\<lambda>next. scan_dq_loop enc input sz next False)
             else if input ! pos = CHR 0x22 then scan_dq_loop enc input sz next True
             else scan_dq_loop enc input sz next False)
          else scan_dq_loop enc input sz next False)
       else if \<not> at_quote then
         Inl (Pqxx_argument_error (''Missing closing double-quote: '' @ takeWhile (\<lambda>c. c \<noteq> CHR 0x00) input))
       else Inr (Some pos))"
  by pat_completeness auto

lemma scan_step: "get_glyph_scanner enc s n pos = Inr (Some next) \<Longrightarrow> pos < n \<Longrightarrow> pos < next \<and> next \<le> n"
  using glyph_progress by blast

lemma scan_twice:
  assumes "get_glyph_scanner enc s n pos = Inr (Some next)" "pos < n" "n \<le> npos"
    "get_glyph_scanner enc s n next = Inr (Some next')"
  shows "n - next' < n - pos"
proof (cases "next < n")
  case True
  have "pos < next" "next < next'" "next' \<le> n"
    using scan_step [OF assms(1,2)] scan_step [OF assms(4) True] by simp_all
  then show ?thesis by linarith
next
  case False
  with assms scan_end [of n "next" enc s] show ?thesis by simp
qed

termination scan_dq_loop
  by (relation "measure (\<lambda>(enc, input, sz, pos, q). sz - pos)") (auto dest: scan_step scan_twice)

declare scan_dq_loop.simps [simp del]

definition scan_double_quoted_string :: "encoding_group \<Rightarrow> string \<Rightarrow> nat \<Rightarrow> nat \<Rightarrow> glyph_res" where
  "scan_double_quoted_string enc input sz pos =
     bindU (get_glyph_scanner enc input sz pos) (\<lambda>next. scan_dq_loop enc input sz next False)"

text \<open>
  The loop of \<open>parse_double_quoted_string\<close>.  \<open>end - 1\<close> wraps around for an empty text.
\<close>

function parse_dq_loop :: "encoding_group \<Rightarrow> string \<Rightarrow> nat \<Rightarrow> nat \<Rightarrow> string \<Rightarrow> string ub_res" where
  "parse_dq_loop enc input en here output =
     bindU (get_glyph_scanner enc input en here) (\<lambda>next.
       if here < sz_sub en 1 then
         (if en \<le> here then Inr None
          else if next - here = 1 \<and> (input ! here = CHR 0x5C \<or> input ! here = CHR 0x22) then
            bindU (get_glyph_scanner enc input en next) (\<lambda>next'.
              if en \<le> next then Inr None
              else parse_dq_loop enc input en next' (output @ slice input next next'))
          else parse_dq_loop enc input en next (output @ slice input here next))
       else Inr (Some output))"
  by pat_completeness auto
termination
  by (relation "measure (\<lambda>(enc, input, en, here, output). en - here)") (fastforce dest: scan_step)+

declare parse_dq_loop.simps [simp del]

text \<open>The \<open>max_size()\<close> of a string of bytes.\<close>

definition max_size :: nat where
  "max_size = 2 ^ 63 - 2"

definition parse_double_quoted_string :: "encoding_group \<Rightarrow> string \<Rightarrow> nat \<Rightarrow> nat \<Rightarrow> string ub_res" where
  "parse_double_quoted_string enc input en pos =
     (if sz_sub (sz_sub en pos) 2 > max_size then Inl (Length_error ''basic_string::reserve'')
      else bindU (get_glyph_scanner enc input en pos) (\<lambda>here. parse_dq_loop enc input en here []))"

function scan_unquoted_string :: "encoding_group \<Rightarrow> string \<Rightarrow> string \<Rightarrow> nat \<Rightarrow> nat \<Rightarrow> glyph_res" where
  "scan_unquoted_string enc STOP input sz pos =
     bindU (get_glyph_scanner enc input sz pos) (\<lambda>next.
       if pos < sz \<and> (next - pos > 1 \<or> input ! pos \<notin> set STOP) then scan_unquoted_string enc STOP input sz next
       else Inr (Some pos))"
  by pat_completeness auto
termination
  by (relation "measure (\<lambda>(enc, STOP, input, sz, pos). sz - pos)") (auto dest: scan_step)

declare scan_unquoted_string.simps [simp del]

definition parse_unquoted_string :: "string \<Rightarrow> nat \<Rightarrow> nat \<Rightarrow> string" where
  "parse_unquoted_string input en pos = slice input pos en"

section \<open>\<open>array_parser\<close>\<close>

datatype juncture = Row_start | Row_end | Null_value | String_value | Done

text \<open>One step from position \<open>m_pos\<close>: what was found, and the position after it.\<close>

definition parse_array_step :: "encoding_group \<Rightarrow> string \<Rightarrow> nat \<Rightarrow> ((juncture \<times> string) \<times> nat) ub_res" where
  "parse_array_step enc m_input m_pos =
     (let sz = length m_input; scan = get_glyph_scanner enc m_input sz;
          string = (\<lambda>en. (String_value, parse_unquoted_string m_input en m_pos));
          quoted = (\<lambda>en. bindU (parse_double_quoted_string enc m_input en m_pos) (\<lambda>val.
            Inr (Some ((String_value, val), en)))) in
      if m_pos \<ge> sz then Inr (Some ((Done, []), m_pos))
      else bindU (scan m_pos) (\<lambda>next.
        bindU (if next - m_pos > 1 then
                 bindU (scan_unquoted_string enc '',}'' m_input sz m_pos) (\<lambda>en. Inr (Some (string en, en)))
               else if m_input ! m_pos = CHR 0x00 then Inl (Pqxx_failure ''Unexpected zero byte in array.'')
               else if m_input ! m_pos = CHR 0x7B then Inr (Some ((Row_start, []), next))
               else if m_input ! m_pos = CHR 0x7D then Inr (Some ((Row_end, []), next))
               else if m_input ! m_pos = CHR 0x22 then
                 bindU (scan_double_quoted_string enc m_input sz m_pos) quoted
               else
                 bindU (scan_unquoted_string enc '',}'' m_input sz m_pos) (\<lambda>en.
                   let val = parse_unquoted_string m_input en m_pos in
                   Inr (Some (if val = ''NULL'' then (Null_value, []) else (String_value, val), en)))) (\<lambda>(found, en).
          if en < sz then
            bindU (scan en) (\<lambda>next.
              Inr (Some (found, if next - en = 1 \<and> m_input ! en = CHR '','' then next else en)))
          else Inr (Some (found, en)))))"

text \<open>Calling \<open>get_next\<close> until it says \<open>Done\<close>, at most \<open>n\<close> times.\<close>

primrec get_all :: "nat \<Rightarrow> encoding_group \<Rightarrow> string \<Rightarrow> nat \<Rightarrow> (juncture \<times> string) list ub_res" where
  "get_all 0 enc m_input m_pos = Inr (Some [])"
| "get_all (Suc n) enc m_input m_pos =
     bindU (parse_array_step enc m_input m_pos) (\<lambda>(found, m_pos).
       if fst found = Done then Inr (Some [found])
       else bindU (get_all n enc m_input m_pos) (\<lambda>fs. Inr (Some (found # fs))))"

section \<open>\<open>pqxx::array\<close>\<close>

text \<open>
  The element type: its conversion from text, its null value if it has one, and its name.  An array object
  holds the elements, the extents of the dimensions and the factors of all but the last.
\<close>

record 'e element_type =
  from_string :: "string \<Rightarrow> 'e res"
  null_value :: "'e option"
  type_name :: string

record 'e array =
  m_elts :: "'e list"
  m_extents :: "nat list"
  m_factors :: "nat list"

definition conversion_error :: "string \<Rightarrow> 'a res" where
  "conversion_error msg = Inl (Pqxx_conversion_error msg)"

definition quoted_name :: "string \<Rightarrow> string" where
  "quoted_name s = [CHR 0x27] @ s @ [CHR 0x27]"

definition check_dims :: "nat \<Rightarrow> string \<Rightarrow> unit res" where
  "check_dims DIMENSIONS data =
     (let sz = length data in
      if sz < DIMENSIONS * 2 then
        conversion_error (''Trying to parse a '' @ nat_to_string DIMENSIONS @ ''-dimensional array out of '' @
          quoted_name data @ ''.'')
      else if data ! 0 \<noteq> CHR 0x7B then
        conversion_error (''Malformed array: does not start with '' @ quoted_name [CHR 0x7B] @ ''.'')
      else case find (\<lambda>i. data ! i \<noteq> CHR 0x7B) [0..<DIMENSIONS] of
        Some i \<Rightarrow> conversion_error (''Expecting '' @ nat_to_string DIMENSIONS @ ''-dimensional array, but found '' @
          nat_to_string i @ ''.'')
      | None \<Rightarrow>
          if data ! DIMENSIONS = CHR 0x7B then
            conversion_error (''Tried to parse '' @ nat_to_string DIMENSIONS @
              ''-dimensional array from array data that has more dimensions.'')
          else if list_ex (\<lambda>i. data ! (sz - 1 - i) \<noteq> CHR 0x7D) [0..<DIMENSIONS] then
            conversion_error (''Malformed array: does not end in the right number of '' @ quoted_name [CHR 0x7D] @ ''.'')
          else Inr ())"

definition parse_field_end :: "char \<Rightarrow> string \<Rightarrow> nat \<Rightarrow> nat res" where
  "parse_field_end SEPARATOR data here =
     (let sz = length data in
      if here < sz then
        (if data ! here = SEPARATOR then
           (if here + 1 \<ge> sz then conversion_error ''Array looks truncated.''
            else if data ! (here + 1) = SEPARATOR then conversion_error ''Array contains double separator.''
            else if data ! (here + 1) = CHR 0x7D then conversion_error ''Array contains trailing separator.''
            else Inr (here + 1))
         else if data ! here = CHR 0x7D then Inr here
         else conversion_error (''Unexpected character in array: '' @ nat_to_string (of_char (data ! here)) @
           '' where separator or closing brace expected.''))
      else Inr here)"

text \<open>
  The state of the parser.  \<open>dim\<close> is a \<open>size_t\<close> whose \<open>outer\<close> value is \<open>npos\<close>, so that adding and subtracting
  one wrap around.  The extents of the object are first written when a row of their dimension ends.
\<close>

record 'e array_state =
  a_here :: nat
  a_dim :: size_t
  a_know :: nat
  a_extents :: "nat list"
  a_sizes :: "nat list"
  a_elts :: "'e list"

definition open_brace :: "nat \<Rightarrow> 'e array_state \<Rightarrow> 'e array_state res" where
  "open_brace DIMENSIONS s =
     bindR (if a_dim s = npos then
              (if a_know s \<noteq> DIMENSIONS then
                 conversion_error ''Array text representation closed and reopened its outside brace pair.''
               else Inr (a_extents s))
            else if a_dim s \<ge> DIMENSIONS - 1 then
              conversion_error ''Array seems to have inconsistent number of dimensions.''
            else Inr ((a_extents s)[a_dim s := a_extents s ! a_dim s + 1])) (\<lambda>extents.
       let dim = sz_add (a_dim s) 1 in
       Inr (s\<lparr>a_dim := dim, a_extents := extents[dim := 0], a_here := a_here s + 1\<rparr>))"

definition close_brace :: "char \<Rightarrow> string \<Rightarrow> 'e array_state \<Rightarrow> 'e array_state res" where
  "close_brace SEPARATOR data s =
     (let dim = a_dim s in
      if dim = npos then conversion_error (''Array has spurious '' @ quoted_name [CHR 0x7D] @ ''.'')
      else
        bindR (if dim < a_know s then
                 Inr (s\<lparr>a_sizes := (a_sizes s)[dim := a_extents s ! dim], a_know := dim\<rparr>)
               else if a_extents s ! dim \<noteq> a_sizes s ! dim then
                 conversion_error ''Rows in array have inconsistent sizes.''
               else Inr s) (\<lambda>s.
        bindR (parse_field_end SEPARATOR data (a_here s + 1)) (\<lambda>here.
        Inr (s\<lparr>a_dim := sz_sub dim 1, a_here := here\<rparr>))))"

text \<open>An element: the position after it and its value.\<close>

definition parse_element ::
    "encoding_group \<Rightarrow> char \<Rightarrow> 'e element_type \<Rightarrow> string \<Rightarrow> nat \<Rightarrow> (nat \<times> 'e) ub_res" where
  "parse_element enc SEPARATOR T data here =
     (if data ! here = CHR 0x00 then okU (conversion_error ''Unexpected zero byte in array.'')
      else if data ! here = CHR '','' then okU (conversion_error ''Array contains empty field.'')
      else if data ! here = CHR 0x22 then
        bindU (scan_double_quoted_string enc data (length data) here) (\<lambda>en.
        bindU (parse_double_quoted_string enc data en here) (\<lambda>buf.
        bindU (okU (from_string T buf)) (\<lambda>e. Inr (Some (en, e)))))
      else
        bindU (scan_unquoted_string enc [SEPARATOR, CHR 0x7D] data (length data) here) (\<lambda>en.
        let field = slice data here en in
        if field = ''NULL'' then
          (case null_value T of
             Some e \<Rightarrow> Inr (Some (en, e))
           | None \<Rightarrow> Inl (Pqxx_unexpected_null (''Array contains a null '' @ type_name T @
               ''.  Consider making it an array of std::optional<'' @ type_name T @ ''> instead.'')))
        else bindU (okU (from_string T field)) (\<lambda>e. Inr (Some (en, e)))))"

definition array_step ::
    "nat \<Rightarrow> char \<Rightarrow> encoding_group \<Rightarrow> 'e element_type \<Rightarrow> string \<Rightarrow> 'e array_state \<Rightarrow> 'e array_state ub_res" where
  "array_step DIMENSIONS SEPARATOR enc T data s =
     (if data ! a_here s = CHR 0x7B then okU (open_brace DIMENSIONS s)
      else if data ! a_here s = CHR 0x7D then okU (close_brace SEPARATOR data s)
      else if a_dim s \<noteq> DIMENSIONS - 1 then
        okU (conversion_error ''Malformed array: found element where sub-array was expected.'')
      else
        bindU (parse_element enc SEPARATOR T data (a_here s)) (\<lambda>(en, e).
        bindU (okU (parse_field_end SEPARATOR data en)) (\<lambda>here.
        Inr (Some (s\<lparr>a_extents := (a_extents s)[a_dim s := a_extents s ! a_dim s + 1],
          a_elts := a_elts s @ [e], a_here := here\<rparr>)))))"

text \<open>Every round of the loop moves on.\<close>

lemma parse_field_end_ge: "parse_field_end sep data here = Inr h \<Longrightarrow> here \<le> h \<and> (here < length data \<and> data ! here = sep \<longrightarrow> here < h)"
  by (auto simp: parse_field_end_def conversion_error_def Let_def split: if_splits)

lemma scan_unquoted_ge:
  "scan_unquoted_string enc STOP input sz pos = Inr (Some en) \<Longrightarrow> pos \<le> en \<and> (pos < sz \<and> en = pos \<longrightarrow> input ! pos \<in> set STOP)"
proof (induction enc STOP input sz pos rule: scan_unquoted_string.induct)
  case (1 enc STOP input sz pos)
  from 1(2) obtain "next" where n: "get_glyph_scanner enc input sz pos = Inr (Some next)"
    and r: "(if pos < sz \<and> (next - pos > 1 \<or> input ! pos \<notin> set STOP) then scan_unquoted_string enc STOP input sz next
       else Inr (Some pos)) = Inr (Some en)"
    by (subst (asm) scan_unquoted_string.simps) (auto simp: bindU_Some)
  show ?case
  proof (cases "pos < sz \<and> (next - pos > 1 \<or> input ! pos \<notin> set STOP)")
    case True
    with r 1(1) [OF n True] scan_step [OF n] show ?thesis by auto
  qed (use r in \<open>auto split: if_splits\<close>)
qed

lemma scan_dq_loop_ge: "scan_dq_loop enc input sz pos q = Inr (Some en) \<Longrightarrow> pos \<le> en"
proof (induction "sz - pos" arbitrary: pos q rule: less_induct)
  case less
  then obtain "next" where n: "get_glyph_scanner enc input sz pos = Inr (Some next)"
    by (subst (asm) (2) scan_dq_loop.simps) (auto simp: bindU_Some)
  note r = less(2) [unfolded scan_dq_loop.simps [of enc input sz pos q] n bindU_simps]
  show ?case
  proof (cases "pos < sz \<and> sz \<le> npos")
    case True
    with scan_step [OF n] have pn: "pos < next" "sz - next < sz - pos" by auto
    have once: "pos \<le> en" if "scan_dq_loop enc input sz next q' = Inr (Some en)" for q'
      using less(1) [OF pn(2) that] pn(1) by simp
    have twice: "pos \<le> en" if "get_glyph_scanner enc input sz next = Inr (Some n2)"
      "scan_dq_loop enc input sz n2 False = Inr (Some en)" for n2
    proof -
      have "sz - n2 < sz - pos" by (rule scan_twice [OF n _ _ that(1)]) (use True in auto)
      with less(1) [OF this that(2)] show ?thesis by simp
    qed
    show ?thesis
    proof (cases "\<not> q \<and> next - pos = 1 \<and> input ! pos = CHR 0x5C")
      case esc: True
      with r True show ?thesis by (auto simp: bindU_Some intro: twice)
    next
      case False
      with r True once show ?thesis by (simp split: if_split_asm)
    qed
  qed (use r in \<open>simp split: if_split_asm\<close>)
qed

lemma parse_element_ge:
  assumes "parse_element enc sep T data here = Inr (Some (en, e))" "here < length data"
  shows "here \<le> en \<and> (en = here \<longrightarrow> data ! here \<in> {sep, CHR 0x7D})"
proof (cases "data ! here = CHR 0x22")
  case True
  with assms obtain "next" where n: "get_glyph_scanner enc data (length data) here = Inr (Some next)"
    "scan_dq_loop enc data (length data) next False = Inr (Some en)"
    by (auto simp: parse_element_def scan_double_quoted_string_def bindU_Some conversion_error_def split: if_splits)
  with scan_dq_loop_ge scan_step [OF n(1) assms(2)] show ?thesis by fastforce
next
  case False
  with assms obtain "scan_unquoted_string enc [sep, CHR 0x7D] data (length data) here = Inr (Some en)"
    by (auto simp: parse_element_def bindU_Some conversion_error_def Let_def split: if_splits option.splits)
  from scan_unquoted_ge [OF this] assms(2) show ?thesis by auto
qed

lemma array_step_ge:
  assumes "array_step D sep enc T data s = Inr (Some s')" "a_here s < length data"
  shows "a_here s < a_here s'"
proof (cases "data ! a_here s = CHR 0x7B \<or> data ! a_here s = CHR 0x7D")
  case True
  with assms show ?thesis
    by (auto simp: array_step_def open_brace_def close_brace_def okU_Some bindR_eq_Inr conversion_error_def Let_def
        dest: parse_field_end_ge split: if_splits)
next
  case False
  with assms obtain en e h where p: "parse_element enc sep T data (a_here s) = Inr (Some (en, e))"
    "parse_field_end sep data en = Inr h" "a_here s' = h"
    by (auto simp: array_step_def okU_Some bindU_Some conversion_error_def split: if_splits)
  note ge = parse_element_ge [OF p(1) assms(2)] parse_field_end_ge [OF p(2)]
  show ?thesis
  proof (cases "en = a_here s")
    case True
    with ge False p(3) assms(2) show ?thesis by auto
  next
    case False
    with ge p(3) show ?thesis by simp
  qed
qed

function array_loop ::
    "nat \<Rightarrow> char \<Rightarrow> encoding_group \<Rightarrow> 'e element_type \<Rightarrow> string \<Rightarrow> 'e array_state \<Rightarrow> 'e array_state ub_res" where
  "array_loop D sep enc T data s =
     (if a_here s < length data then bindU (array_step D sep enc T data s) (array_loop D sep enc T data)
      else Inr (Some s))"
  by pat_completeness auto
termination
  by (relation "measure (\<lambda>(D, sep, enc, T, data, s). length data - a_here s)") (auto dest: array_step_ge)

declare array_loop.simps [simp del]

definition array_init :: "nat \<Rightarrow> 'e array_state" where
  "array_init DIMENSIONS = \<lparr>a_here = 0, a_dim = npos, a_know = DIMENSIONS, a_extents = replicate DIMENSIONS 0,
     a_sizes = replicate DIMENSIONS 0, a_elts = []\<rparr>"

text \<open>
  \<open>init_factors\<close>: the loop runs from the last dimension down and fills \<open>m_factors[dim - 1]\<close> with the product
  of the extents from \<open>dim\<close> on, here from the end of the list of extents.
\<close>

primrec init_factors :: "nat list \<Rightarrow> nat list" where
  "init_factors [] = []"
| "init_factors (e # es) =
     (case es of [] \<Rightarrow> [] | e' # _ \<Rightarrow> (case init_factors es of [] \<Rightarrow> [e'] | f # fs \<Rightarrow> (e' * f) # f # fs))"

definition parse_array ::
    "nat \<Rightarrow> char \<Rightarrow> encoding_group \<Rightarrow> 'e element_type \<Rightarrow> string \<Rightarrow> 'e array ub_res" where
  "parse_array DIMENSIONS SEPARATOR enc T data =
     bindU (okU (check_dims DIMENSIONS data)) (\<lambda>_.
     bindU (array_loop DIMENSIONS SEPARATOR enc T data (array_init DIMENSIONS)) (\<lambda>s.
     if a_dim s \<noteq> npos then okU (conversion_error ''Malformed array; may be truncated.'')
     else Inr (Some \<lparr>m_elts = a_elts s, m_extents = a_sizes s, m_factors = init_factors (a_sizes s)\<rparr>)))"

text \<open>Access.  Indexes are \<open>size_t\<close> here; \<open>at\<close> on the vector of elements checks once more.\<close>

fun check_bounds :: "nat \<Rightarrow> nat list \<Rightarrow> nat list \<Rightarrow> unit res" where
  "check_bounds dimension (first # indexes) (e # es) =
     (if first \<ge> e then Inl (Pqxx_range_error (''Array index for dimension '' @ nat_to_string dimension @
        '' is out of bounds: '' @ nat_to_string first @ '' >= '' @ nat_to_string e))
      else if indexes \<noteq> [] then check_bounds (dimension + 1) indexes es else Inr ())"
| "check_bounds dimension _ _ = Inr ()"

fun add_index :: "nat list \<Rightarrow> nat list \<Rightarrow> nat" where
  "add_index [] fs = 0"
| "add_index [first] fs = first"
| "add_index (first # indexes) (f # fs) = first * f + add_index indexes fs"
| "add_index (first # indexes) [] = first"

definition locate :: "'e array \<Rightarrow> nat list \<Rightarrow> nat" where
  "locate a index = add_index index (m_factors a)"

definition array_at :: "'e array \<Rightarrow> nat list \<Rightarrow> 'e res" where
  "array_at a index =
     bindR (check_bounds 0 index (m_extents a)) (\<lambda>_.
     if locate a index < length (m_elts a) then Inr (m_elts a ! locate a index)
     else Inl (Out_of_range ''vector::_M_range_check''))"

section \<open>Quoted fields\<close>

text \<open>A glyph by itself, and what a scanner does wherever its bytes occur.\<close>

definition is_glyph :: "encoding_group \<Rightarrow> string \<Rightarrow> bool" where
  "is_glyph enc g \<longleftrightarrow> g \<noteq> [] \<and> get_glyph_scanner enc g (length g) 0 = Inr (Some (length g))"

lemmas scan_eqs = get_glyph_scanner_def scan_defs glyph_end_def Let_def

lemma glyph_copy:
  assumes "get_glyph_scanner enc g k 0 = Inr (Some k)" "0 < k" "start + k \<le> n"
    and "\<And>i. i < k \<Longrightarrow> get_byte s (start + i) = get_byte g i" "k = length g"
  shows "get_glyph_scanner enc s n start = Inr (Some (start + k))"
proof -
  have "k \<le> 4" using glyph_progress [OF assms(1,2)] by simp
  then consider "k = 1" | "k = 2" | "k = 3" | "k = 4" using assms(2) by linarith
  then show ?thesis
  proof cases
    case 1
    with assms(4) [of 0] have "get_byte s start = get_byte g 0" by simp
    with 1 assms(1,3) show ?thesis
      by (cases enc) (auto simp: scan_eqs split: if_splits)
  next
    case 2
    with assms(4) [of 0] assms(4) [of 1] have "get_byte s start = get_byte g 0" "get_byte s (Suc start) = get_byte g (Suc 0)" by simp_all
    with 2 assms(1,3) show ?thesis
      by (cases enc; ((simp add: scan_eqs split: if_split_asm; fail) | (auto simp: scan_eqs between_inc_def split: if_splits; fail)))
  next
    case 3
    with assms(4) [of 0] assms(4) [of 1] assms(4) [of 2] have "get_byte s start = get_byte g 0" "get_byte s (Suc start) = get_byte g (Suc 0)"
      "get_byte s (Suc (Suc start)) = get_byte g (Suc (Suc 0))" by (simp_all add: eval_nat_numeral)
    with 3 assms(1,3) show ?thesis
      by (cases enc; ((simp add: scan_eqs split: if_split_asm; fail) | (auto simp: scan_eqs between_inc_def split: if_splits; fail)))
  next
    case 4
    with assms(4) [of 0] assms(4) [of 1] assms(4) [of 2] assms(4) [of 3]
    have "get_byte s start = get_byte g 0" "get_byte s (Suc start) = get_byte g (Suc 0)"
      "get_byte s (Suc (Suc start)) = get_byte g (Suc (Suc 0))" "get_byte s (start + 3) = get_byte g 3" by (simp_all add: eval_nat_numeral)
    with 4 assms(1,3,5) show ?thesis
      by (cases enc; ((simp add: scan_eqs split: if_split_asm; fail) | (auto simp: scan_eqs between_inc_def split: if_splits; fail)))
  qed
qed

lemma glyph_at:
  assumes "is_glyph enc g" "length a + length g \<le> n"
  shows "get_glyph_scanner enc (a @ g @ b) n (length a) = Inr (Some (length a + length g))"
proof (rule glyph_copy [of _ g])
  show "get_byte (a @ g @ b) (length a + i) = get_byte g i" if "i < length g" for i
    using that by (simp add: get_byte_def nth_append)
qed (use assms in \<open>auto simp: is_glyph_def\<close>)

lemma ascii_glyph: "ascii [c] \<Longrightarrow> is_glyph enc [c]"
  using glyph_ascii [of "[c]" 0 1 enc] by (simp add: is_glyph_def ascii_def get_byte_def)

lemma ascii_at: "ascii [c] \<Longrightarrow> length a < n \<Longrightarrow>
   get_glyph_scanner enc (a @ c # b) n (length a) = Inr (Some (Suc (length a)))"
  using glyph_at [OF ascii_glyph, of c a n enc b] by simp

lemma ascii_chars [simp]: "ascii [CHR 0x22]" "ascii [CHR 0x5C]" "ascii [CHR 0x7B]" "ascii [CHR 0x7D]" "ascii [CHR '','']"
  by (simp_all add: ascii_def)

text \<open>The quoting PostgreSQL applies to the fields of arrays and composite values.\<close>

definition escape_glyph :: "string \<Rightarrow> string" where
  "escape_glyph g = (if g = [CHR 0x22] \<or> g = [CHR 0x5C] then CHR 0x5C # g else g)"

definition quote_text :: "string list \<Rightarrow> string" where
  "quote_text gs = CHR 0x22 # concat (map escape_glyph gs) @ [CHR 0x22]"

text \<open>What may follow a closing quote.\<close>

definition after_quote :: "string \<Rightarrow> bool" where
  "after_quote b \<longleftrightarrow> b = [] \<or> (ascii [hd b] \<and> hd b \<noteq> CHR 0x22)"

lemma scan_dq_quote:
  assumes "list_all (is_glyph enc) gs" "after_quote b" "length s \<le> npos" "s = a @ concat (map escape_glyph gs) @ CHR 0x22 # b"
  shows "scan_dq_loop enc s (length s) (length a) False =
    Inr (Some (length a + length (concat (map escape_glyph gs)) + 1))"
  using assms(1,4)
proof (induction gs arbitrary: a)
  case Nil
  then have s: "s = a @ CHR 0x22 # b" "length a < length s" by simp_all
  then have n: "get_glyph_scanner enc s (length s) (length a) = Inr (Some (Suc (length a)))"
    "s ! length a = CHR 0x22" using ascii_at [of "CHR 0x22" a "length s" enc b] by auto
  have "scan_dq_loop enc s (length s) (Suc (length a)) True = Inr (Some (Suc (length a)))"
  proof (cases b)
    case Nil
    with s show ?thesis by (subst scan_dq_loop.simps) (simp add: scan_end)
  next
    case (Cons c b')
    with assms(2) have c: "ascii [c]" "c \<noteq> CHR 0x22" by (simp_all add: after_quote_def)
    have "get_glyph_scanner enc s (length s) (Suc (length a)) = Inr (Some (Suc (Suc (length a))))"
      using ascii_at [OF c(1), of "a @ [CHR 0x22]" "length s" enc b'] s Cons by simp
    moreover have "s ! Suc (length a) = c" using s Cons by (simp add: nth_append)
    ultimately show ?thesis using c(2) s assms(3) Cons by (subst scan_dq_loop.simps) simp
  qed
  with n s assms(3) show ?case by (subst scan_dq_loop.simps) simp
next
  case (Cons g gs)
  let ?t = "concat (map escape_glyph gs) @ CHR 0x22 # b"
  from Cons.prems have g: "is_glyph enc g" "list_all (is_glyph enc) gs" and s: "s = a @ escape_glyph g @ ?t" by simp_all
  show ?case
  proof (cases "g = [CHR 0x22] \<or> g = [CHR 0x5C]")
    case True
    then obtain c where gc: "g = [c]" and q: "c = CHR 0x22 \<or> c = CHR 0x5C" by blast
    then have c: "g = [c]" "ascii [c]" "escape_glyph g = [CHR 0x5C, c]" by (auto simp: escape_glyph_def)
    with s have s': "s = a @ CHR 0x5C # c # ?t" "s = (a @ [CHR 0x5C]) @ c # ?t" "s = (a @ [CHR 0x5C, c]) @ ?t" by simp_all
    have l: "Suc (length a) < length s" "length a < length s" "s ! length a = CHR 0x5C" by (simp_all add: s'(1))
    have "get_glyph_scanner enc s (length s) (length a) = Inr (Some (Suc (length a)))"
      "get_glyph_scanner enc s (length s) (Suc (length a)) = Inr (Some (Suc (Suc (length a))))"
      using ascii_at [of "CHR 0x5C" a "length s" enc "c # ?t"] ascii_at [OF c(2), of "a @ [CHR 0x5C]" "length s" enc ?t] l s'
      by simp_all
    with Cons.IH [OF g(2) s'(3)] l assms(3) c(3) show ?thesis by (subst scan_dq_loop.simps) simp
  next
    case False
    then have e: "escape_glyph g = g" by (simp add: escape_glyph_def)
    then have s': "s = a @ g @ ?t" "s = (a @ g) @ ?t" using s by simp_all
    have ne: "g \<noteq> []" using g(1) by (simp add: is_glyph_def)
    have "get_glyph_scanner enc s (length s) (length a) = Inr (Some (length a + length g))"
      unfolding s'(1) by (rule glyph_at [OF g(1)]) simp
    moreover have "length a < length s" by (simp add: s'(1))
    moreover have "length g = Suc 0 \<longrightarrow> s ! length a \<noteq> CHR 0x22 \<and> s ! length a \<noteq> CHR 0x5C"
      using False ne by (cases g) (auto simp: s'(1))
    moreover have "scan_dq_loop enc s (length s) (length a + length g) False =
        Inr (Some (length a + length (concat (map escape_glyph (g # gs))) + 1))"
      using Cons.IH [OF g(2) s'(2)] by (simp add: e)
    ultimately show ?thesis using assms(3) by (subst scan_dq_loop.simps) auto
  qed
qed

lemma npos_neq_0 [simp]: "npos \<noteq> 0" "0 \<noteq> npos"
  by (simp_all add: npos_def)

lemma slice_append: "slice (a @ g @ b) (length a) (length a + length g) = g"
  by (simp add: slice_def)

lemma parse_dq_quote:
  assumes "list_all (is_glyph enc) gs" "length s \<le> npos" "s = a @ concat (map escape_glyph gs) @ CHR 0x22 # b"
    and "en = length a + length (concat (map escape_glyph gs)) + 1"
  shows "parse_dq_loop enc s en (length a) outp = Inr (Some (outp @ concat gs))"
  using assms(1,3,4)
proof (induction gs arbitrary: a outp)
  case Nil
  then have "get_glyph_scanner enc s en (length a) = Inr (Some en)"
    using ascii_at [of "CHR 0x22" a en enc b] by simp
  with Nil assms(2) show ?case by (subst parse_dq_loop.simps) simp
next
  case (Cons g gs)
  let ?t = "concat (map escape_glyph gs) @ CHR 0x22 # b"
  from Cons.prems have g: "is_glyph enc g" "list_all (is_glyph enc) gs" and s: "s = a @ escape_glyph g @ ?t"
    and en: "en = length a + length (escape_glyph g) + length (concat (map escape_glyph gs)) + 1" by simp_all
  have "en \<le> length s" by (simp add: s en)
  with assms(2) en have sub: "sz_sub en (Suc 0) = en - 1" by simp
  show ?case
  proof (cases "g = [CHR 0x22] \<or> g = [CHR 0x5C]")
    case True
    then obtain c where gc: "g = [c]" and q: "c = CHR 0x22 \<or> c = CHR 0x5C" by blast
    then have c: "ascii [c]" "escape_glyph g = [CHR 0x5C, c]" by (auto simp: escape_glyph_def)
    with s have s': "s = a @ CHR 0x5C # c # ?t" "s = (a @ [CHR 0x5C]) @ c # ?t" "s = (a @ [CHR 0x5C, c]) @ ?t" by simp_all
    have l: "Suc (length a) < en - 1" "Suc (length a) < en" "length a < en" "s ! length a = CHR 0x5C"
      by (simp_all add: s'(1) en c(2))
    have "get_glyph_scanner enc s en (length a) = Inr (Some (Suc (length a)))"
      "get_glyph_scanner enc s en (Suc (length a)) = Inr (Some (Suc (Suc (length a))))"
      using ascii_at [of "CHR 0x5C" a en enc "c # ?t"] ascii_at [OF c(1), of "a @ [CHR 0x5C]" en enc ?t] l s'
      by simp_all
    moreover have "slice s (Suc (length a)) (Suc (Suc (length a))) = [c]"
      using slice_append [of "a @ [CHR 0x5C]" "[c]" ?t] s'(2) by simp
    moreover have "parse_dq_loop enc s en (Suc (Suc (length a))) (outp @ [c]) = Inr (Some ((outp @ [c]) @ concat gs))"
      using Cons.IH [OF g(2) s'(3), of "outp @ [c]"] by (simp add: en c(2))
    ultimately show ?thesis using l sub by (subst parse_dq_loop.simps) (simp add: gc)
  next
    case False
    then have e: "escape_glyph g = g" by (simp add: escape_glyph_def)
    then have s': "s = a @ g @ ?t" "s = (a @ g) @ ?t" using s by simp_all
    have ne: "g \<noteq> []" using g(1) by (simp add: is_glyph_def)
    have "get_glyph_scanner enc s en (length a) = Inr (Some (length a + length g))"
      unfolding s'(1) by (rule glyph_at [OF g(1)]) (simp add: en e)
    moreover have "length a < en - 1" using ne by (simp add: en e)
    moreover have "length g = Suc 0 \<longrightarrow> s ! length a \<noteq> CHR 0x22 \<and> s ! length a \<noteq> CHR 0x5C"
      using False ne by (cases g) (auto simp: s'(1))
    moreover have "slice s (length a) (length a + length g) = g" unfolding s'(1) by (rule slice_append)
    moreover have "parse_dq_loop enc s en (length a + length g) (outp @ g) = Inr (Some ((outp @ g) @ concat gs))"
      using Cons.IH [OF g(2) s'(2), of "outp @ g"] by (simp add: en e)
    ultimately show ?thesis using sub by (subst parse_dq_loop.simps) auto
  qed
qed

text \<open>Unquoting undoes quoting, in every encoding and inside any text.\<close>

lemma quoted_field:
  assumes "list_all (is_glyph enc) gs" "after_quote b" "length s \<le> max_size" "s = a @ quote_text gs @ b"
  shows "scan_double_quoted_string enc s (length s) (length a) = Inr (Some (length a + length (quote_text gs)))"
    and "parse_double_quoted_string enc s (length a + length (quote_text gs)) (length a) = Inr (Some (concat gs))"
proof -
  let ?c = "concat (map escape_glyph gs)" and ?en = "length a + length (quote_text gs)"
  have s: "s = a @ CHR 0x22 # ?c @ CHR 0x22 # b" "s = (a @ [CHR 0x22]) @ ?c @ CHR 0x22 # b"
    by (simp_all add: assms(4) quote_text_def)
  have en: "?en = length (a @ [CHR 0x22]) + length ?c + 1" by (simp add: quote_text_def)
  have n: "length s \<le> npos" using assms(3) by (simp add: max_size_def npos_def)
  have le: "length a < length s" "?en \<le> length s" "length a < ?en" "length a + 2 \<le> ?en"
    by (simp_all add: assms(4) quote_text_def)
  have q: "get_glyph_scanner enc s m (length a) = Inr (Some (Suc (length a)))" if "length a < m" for m
    using ascii_at [of "CHR 0x22" a m enc] that s(1) by simp
  from scan_dq_quote [OF assms(1,2) n s(2)] q [OF le(1)]
  show "scan_double_quoted_string enc s (length s) (length a) = Inr (Some ?en)"
    by (simp add: scan_double_quoted_string_def en)
  have "sz_sub (sz_sub ?en (length a)) 2 \<le> max_size"
  proof -
    have "?en < 2 ^ 64" using le(2) assms(3) by (simp add: max_size_def)
    then have "sz_sub ?en (length a) = length (quote_text gs)" "length (quote_text gs) < 2 ^ 64"
      by (simp_all add: npos_def)
    moreover have "length (quote_text gs) \<le> max_size" using le(2) assms(3) by simp
    ultimately show ?thesis using le(4) by (simp add: npos_def)
  qed
  with parse_dq_quote [OF assms(1) n s(2) en, of "[]"] q [OF le(3)]
  show "parse_double_quoted_string enc s ?en (length a) = Inr (Some (concat gs))"
    by (simp add: parse_double_quoted_string_def)
qed

section \<open>The shape of an array\<close>

text \<open>
  How many elements there are when the extents counted so far are \<open>ext\<close>, the extents of finished rows are
  \<open>sizes\<close> and the parser is in dimension \<open>d\<close>: every dimension before \<open>d\<close> has one row that is not finished.
\<close>

definition count_elts :: "nat list \<Rightarrow> nat list \<Rightarrow> nat \<Rightarrow> nat" where
  "count_elts ext sizes d =
     ext ! d * prod_list (drop (Suc d) sizes) + (\<Sum>i<d. (ext ! i - 1) * prod_list (drop (Suc i) sizes))"

definition array_ok :: "nat \<Rightarrow> 'e array_state \<Rightarrow> bool" where
  "array_ok D s \<longleftrightarrow> length (a_extents s) = D \<and> length (a_sizes s) = D \<and> a_know s \<le> D \<and>
     (if a_dim s = npos then
        (a_know s = D \<and> a_elts s = [] \<or> a_know s = 0 \<and> length (a_elts s) = prod_list (a_sizes s))
      else a_dim s < D \<and> length (a_elts s) = count_elts (a_extents s) (a_sizes s) (a_dim s) \<and>
        (\<forall>i < a_dim s. 1 \<le> a_extents s ! i \<and> (1 < a_extents s ! i \<longrightarrow> a_know s \<le> Suc i)) \<and>
        (0 < a_extents s ! a_dim s \<longrightarrow> a_know s \<le> Suc (a_dim s)))"

lemma array_ok_init: "array_ok D (array_init D)"
  by (simp add: array_ok_def array_init_def)

lemma count_elts_open: "length ext = D \<Longrightarrow> Suc d < D \<Longrightarrow>
   count_elts (ext[d := Suc (ext ! d), Suc d := 0]) sizes (Suc d) = count_elts ext sizes d"
  by (simp add: count_elts_def nth_list_update)

lemma array_ok_open:
  assumes "array_ok D s" "open_brace D s = Inr s'" "0 < D" "D < npos"
  shows "array_ok D s'"
proof (cases "a_dim s = npos")
  case True
  with assms show ?thesis
    by (auto simp: array_ok_def open_brace_def conversion_error_def count_elts_def Let_def split: if_splits)
next
  case False
  let ?d = "a_dim s" and ?e = "a_extents s"
  from False assms(2) have d: "Suc ?d < D" "?d < npos"
    and s': "s' = s\<lparr>a_dim := Suc ?d, a_extents := ?e[?d := Suc (?e ! ?d), Suc ?d := 0], a_here := Suc (a_here s)\<rparr>"
    using assms(4) by (auto simp: open_brace_def conversion_error_def Let_def bindR_eq_Inr split: if_splits)
  have "Suc ?d \<noteq> npos" using d(1) assms(4) by simp
  with False assms(1) d count_elts_open [of ?e D ?d "a_sizes s"] show ?thesis
    by (auto simp: s' array_ok_def nth_list_update less_Suc_eq)
qed

lemma array_ok_element:
  assumes "array_ok D s" "a_dim s = D - 1" "0 < D" "D < npos"
  shows "array_ok D (s\<lparr>a_extents := (a_extents s)[a_dim s := a_extents s ! a_dim s + 1], a_elts := a_elts s @ [e], a_here := h\<rparr>)"
  using assms by (auto simp: array_ok_def count_elts_def nth_list_update)

lemma prod_list_drop: "k < length xs \<Longrightarrow> prod_list (drop k xs) = xs ! k * prod_list (drop (Suc k) xs)"
  by (simp add: Cons_nth_drop_Suc [symmetric])

lemma array_ok_close:
  assumes "array_ok D s" "close_brace sep data s = Inr s'" "0 < D" "D < npos"
  shows "array_ok D s'"
proof -
  let ?d = "a_dim s" and ?e = "a_extents s"
  from assms(2) have nd: "?d \<noteq> npos" by (auto simp: close_brace_def conversion_error_def Let_def)
  define z where "z = (a_sizes s)[?d := ?e ! ?d]"
  from assms(1) nd have ok: "length ?e = D" "length (a_sizes s) = D" "a_know s \<le> D" "?d < D"
    "length (a_elts s) = count_elts ?e (a_sizes s) ?d"
    "\<forall>i < ?d. 1 \<le> ?e ! i \<and> (1 < ?e ! i \<longrightarrow> a_know s \<le> Suc i)" "0 < ?e ! ?d \<longrightarrow> a_know s \<le> Suc ?d"
    by (simp_all add: array_ok_def)
  from assms(2) nd obtain k h where s': "s' = s\<lparr>a_sizes := z, a_know := k, a_dim := sz_sub ?d 1, a_here := h\<rparr>"
    and k: "k \<le> ?d" "?d < a_know s \<or> z = a_sizes s \<and> k = a_know s" "k = ?d \<or> k = a_know s"
    by (cases "?d < a_know s")
      (auto simp: close_brace_def conversion_error_def Let_def bindR_eq_Inr z_def split: if_splits)
  have z: "length z = D" "drop (Suc ?d) z = drop (Suc ?d) (a_sizes s)" "z ! ?d = ?e ! ?d"
    using ok(2,4) by (simp_all add: z_def)
  have terms: "(?e ! i - 1) * prod_list (drop (Suc i) z) = (?e ! i - 1) * prod_list (drop (Suc i) (a_sizes s))"
    if "i < ?d" for i
  proof (cases "?d < a_know s")
    case True
    with that ok(6) have "?e ! i - 1 = 0" by fastforce
    then show ?thesis by simp
  qed (use k in simp)
  have pd: "prod_list (drop ?d z) = ?e ! ?d * prod_list (drop (Suc ?d) (a_sizes s))"
    using prod_list_drop [of ?d z] ok(4) z by simp
  have sum: "length (a_elts s) = prod_list (drop ?d z) + (\<Sum>i<?d. (?e ! i - 1) * prod_list (drop (Suc i) z))"
  proof -
    have "(\<Sum>i<?d. (?e ! i - 1) * prod_list (drop (Suc i) z)) = (\<Sum>i<?d. (?e ! i - 1) * prod_list (drop (Suc i) (a_sizes s)))"
      by (rule sum.cong) (use terms in auto)
    with ok(5) show ?thesis by (simp add: count_elts_def pd)
  qed
  show ?thesis
  proof (cases ?d)
    case 0
    with sum z(1) k(1) show ?thesis by (simp add: s' array_ok_def ok(1))
  next
    case (Suc d)
    have e1: "1 \<le> ?e ! d" using ok(6) Suc by simp
    have "prod_list (drop ?d z) + (?e ! d - 1) * prod_list (drop ?d z) = ?e ! d * prod_list (drop ?d z)"
      using e1 by (cases "?e ! d") simp_all
    with sum have "length (a_elts s) = count_elts ?e z d" by (simp add: Suc count_elts_def)
    moreover have "sz_sub ?d 1 = d" "d \<noteq> npos" "d < D"
      using Suc ok(4) assms(4) by (simp_all add:)
    moreover have "k \<le> D" "k \<le> Suc d" using k(1) ok(4) Suc by simp_all
    moreover have "\<forall>i < d. 1 \<le> ?e ! i \<and> (1 < ?e ! i \<longrightarrow> k \<le> Suc i)"
      using ok(6) Suc k by (metis le_trans less_SucI not_less_eq_eq order_less_imp_le)
    ultimately show ?thesis by (simp add: s' array_ok_def ok(1) z(1))
  qed
qed

lemma array_ok_step:
  assumes "array_ok D s" "array_step D sep enc T data s = Inr (Some s')" "0 < D" "D < npos"
  shows "array_ok D s'"
proof (cases "data ! a_here s = CHR 0x7B \<or> data ! a_here s = CHR 0x7D")
  case True
  with assms show ?thesis by (auto simp: array_step_def okU_Some intro: array_ok_open array_ok_close split: if_splits)
next
  case False
  with assms(2) obtain e h where "a_dim s = D - 1"
    "s' = s\<lparr>a_extents := (a_extents s)[a_dim s := a_extents s ! a_dim s + 1], a_elts := a_elts s @ [e], a_here := h\<rparr>"
    by (auto simp: array_step_def okU_Some bindU_Some conversion_error_def split: if_splits)
  with array_ok_element [OF assms(1) _ assms(3,4)] show ?thesis by simp
qed

lemma array_ok_loop:
  "array_loop D sep enc T data s = Inr (Some s') \<Longrightarrow> array_ok D s \<Longrightarrow> 0 < D \<Longrightarrow> D < npos \<Longrightarrow> array_ok D s'"
proof (induction D sep enc T data s rule: array_loop.induct)
  case (1 D sep enc T data s)
  show ?case
  proof (cases "a_here s < length data")
    case True
    with 1(2) obtain t where "array_step D sep enc T data s = Inr (Some t)" "array_loop D sep enc T data t = Inr (Some s')"
      by (subst (asm) array_loop.simps) (auto simp: bindU_Some)
    with 1 True array_ok_step show ?thesis by blast
  next
    case False
    with 1(2,3) show ?thesis by (subst (asm) array_loop.simps) simp
  qed
qed

text \<open>The data of a non-empty loop changes the state, so a finished array was opened.\<close>

lemma array_know_outer:
  "array_loop D sep enc T data s = Inr (Some s') \<Longrightarrow> array_ok D s \<Longrightarrow> 0 < D \<Longrightarrow> D < npos \<Longrightarrow>
   a_dim s \<noteq> npos \<or> a_know s \<noteq> D \<Longrightarrow> a_dim s' = npos \<Longrightarrow> a_know s' = 0"
proof (induction D sep enc T data s rule: array_loop.induct)
  case (1 D sep enc T data s)
  show ?case
  proof (cases "a_here s < length data")
    case True
    with 1(2) obtain t where t: "array_step D sep enc T data s = Inr (Some t)" "array_loop D sep enc T data t = Inr (Some s')"
      by (subst (asm) array_loop.simps) (auto simp: bindU_Some)
    have ok: "array_ok D t" using array_ok_step [OF 1(3) t(1) 1(4,5)] .
    have "a_dim t \<noteq> npos \<or> a_know t \<noteq> D"
    proof (cases "a_dim s = npos")
      case True
      with t(1) 1(6) show ?thesis
        by (auto simp: array_step_def okU_Some bindU_Some conversion_error_def open_brace_def close_brace_def Let_def split: if_splits)
    next
      case False
      then have d: "a_dim s < D" using 1(3) by (simp add: array_ok_def)
      from t(1) False show ?thesis
      proof (cases "data ! a_here s = CHR 0x7D")
        case True
        with t(1) d 1(3) show ?thesis
          by (cases "a_dim s < a_know s")
            (auto simp: array_step_def okU_Some close_brace_def conversion_error_def bindR_eq_Inr Let_def array_ok_def split: if_splits)
      next
        case no: False
        with t(1) False d 1(5) show ?thesis
          by (auto simp: array_step_def okU_Some bindU_Some conversion_error_def open_brace_def bindR_eq_Inr Let_def
              split: if_splits)
      qed
    qed
    with 1(1) [OF True t(1)] t(2) ok 1(4,5,7) show ?thesis by blast
  next
    case False
    with 1 show ?thesis by (subst (asm) array_loop.simps) (auto simp: array_ok_def)
  qed
qed

lemma parse_array_shape:
  assumes "parse_array D sep enc T data = Inr (Some a)" "0 < D" "D < npos"
  shows "length (m_extents a) = D" "length (m_elts a) = prod_list (m_extents a)" "m_factors a = init_factors (m_extents a)"
proof -
  from assms(1) obtain s where c: "check_dims D data = Inr ()" and l: "array_loop D sep enc T data (array_init D) = Inr (Some s)"
    and s: "a_dim s = npos" and a: "a = \<lparr>m_elts = a_elts s, m_extents = a_sizes s, m_factors = init_factors (a_sizes s)\<rparr>"
    by (auto simp: parse_array_def bindU_Some okU_Some conversion_error_def split: if_splits)
  have ok: "array_ok D s" by (rule array_ok_loop [OF l array_ok_init assms(2,3)])
  from c assms(2) have "0 < length data" "data ! 0 = CHR 0x7B"
    by (auto simp: check_dims_def conversion_error_def Let_def split: if_splits)
  with l obtain t where t: "array_step D sep enc T data (array_init D) = Inr (Some t)" "array_loop D sep enc T data t = Inr (Some s)"
    by (subst (asm) array_loop.simps) (auto simp: bindU_Some array_init_def)
  have "a_dim t \<noteq> npos" using t(1) \<open>data ! 0 = CHR 0x7B\<close> assms(2)
    by (auto simp: array_step_def array_init_def okU_Some open_brace_def Let_def)
  with array_know_outer [OF t(2) array_ok_step [OF array_ok_init t(1) assms(2,3)] assms(2,3) _ s] have "a_know s = 0" by blast
  with ok s assms(2) show "length (m_extents a) = D" "length (m_elts a) = prod_list (m_extents a)"
    "m_factors a = init_factors (m_extents a)" by (auto simp: array_ok_def a)
qed

section \<open>Indexes\<close>

lemma init_factors_Cons: "init_factors (e # e' # es) = prod_list (e' # es) # init_factors (e' # es)"
  by (induction es arbitrary: e e') simp_all

lemma add_index_less:
  "list_all2 (<) index es \<Longrightarrow> es \<noteq> [] \<Longrightarrow> add_index index (init_factors es) < prod_list es"
proof (induction index es rule: list_all2_induct)
  case (Cons i index e es)
  show ?case
  proof (cases es)
    case Nil
    with Cons show ?thesis by simp
  next
    case (Cons e' es')
    with Cons.hyps obtain j index' where index: "index = j # index'" by (cases index) auto
    have "i * prod_list es + add_index index (init_factors es) < Suc i * prod_list es"
      using Cons.IH Cons by simp
    also have "\<dots> \<le> e * prod_list es" using Cons.hyps(1) by (intro mult_le_mono1) simp
    finally show ?thesis by (simp add: Cons index init_factors_Cons del: init_factors.simps)
  qed
qed simp

lemma mixed_radix: "r < p \<Longrightarrow> r' < p \<Longrightarrow> i * p + r = j * p + r' \<Longrightarrow> i = j \<and> r = (r' :: nat)"
  by (metis add.commute div_mult_self1 div_less mod_less mod_mult_self1 add_cancel_right_left not_less_zero)

lemma add_index_inj:
  "list_all2 (<) index es \<Longrightarrow> list_all2 (<) index' es \<Longrightarrow> es \<noteq> [] \<Longrightarrow>
   add_index index (init_factors es) = add_index index' (init_factors es) \<Longrightarrow> index = index'"
proof (induction index es arbitrary: index' rule: list_all2_induct)
  case (Cons i index e es)
  from Cons.prems(1) obtain j js where index': "index' = j # js" and js: "list_all2 (<) js es"
    by (cases index') auto
  show ?case
  proof (cases es)
    case Nil
    with Cons js show ?thesis by (simp add: index')
  next
    case (Cons e' es')
    with Cons.hyps js obtain k l ks ls where k: "index = k # ks" "js = l # ls" by (cases index; cases js) auto
    have ne: "es \<noteq> []" using Cons by simp
    from Cons.prems(3) have "i * prod_list es + add_index index (init_factors es) = j * prod_list es + add_index js (init_factors es)"
      by (simp add: Cons index' k init_factors_Cons del: init_factors.simps)
    from mixed_radix [OF add_index_less [OF Cons.hyps(2) ne] add_index_less [OF js ne] this] Cons.IH [OF js ne]
    show ?thesis by (simp add: index')
  qed
qed simp

lemma check_bounds_ok: "length index = length es \<Longrightarrow> es \<noteq> [] \<Longrightarrow>
   (check_bounds d index es = Inr () \<longleftrightarrow> list_all2 (<) index es) \<and>
   (\<not> list_all2 (<) index es \<longrightarrow> (\<exists>msg. check_bounds d index es = Inl (Pqxx_range_error msg)))"
proof (induction d index es rule: check_bounds.induct)
  case (1 d i index e es)
  then show ?case by (cases "es = []") auto
qed auto

text \<open>
  A parsed array, whatever its text, has as many elements as the product of its extents, and checked access
  with as many indexes as dimensions does what it should: indexes within the extents give the element at a
  position inside the storage, different indexes different positions, and any other indexes a range error,
  never an access outside.
\<close>

theorem array_access:
  assumes "parse_array D sep enc T data = Inr (Some a)" "0 < D" "D < npos" "length index = D"
  shows "length (m_extents a) = D \<and> length (m_elts a) = prod_list (m_extents a) \<and>
    (if list_all2 (<) index (m_extents a)
     then locate a index < length (m_elts a) \<and> array_at a index = Inr (m_elts a ! locate a index) \<and>
       (\<forall>index'. list_all2 (<) index' (m_extents a) \<and> locate a index = locate a index' \<longrightarrow> index = index')
     else \<exists>msg. array_at a index = Inl (Pqxx_range_error msg))"
proof -
  note shape = parse_array_shape [OF assms(1-3)]
  then have ne: "m_extents a \<noteq> []" and l: "length index = length (m_extents a)" using assms(2,4) by auto
  show ?thesis
  proof (cases "list_all2 (<) index (m_extents a)")
    case True
    have "locate a index < length (m_elts a)"
      unfolding locate_def shape(2,3) by (rule add_index_less [OF True ne])
    moreover have "index = index'" if "list_all2 (<) index' (m_extents a)" "locate a index = locate a index'" for index'
      by (rule add_index_inj [OF True that(1) ne that(2) [unfolded locate_def shape(3)]])
    ultimately show ?thesis using check_bounds_ok [OF l ne, of 0] True shape(1,2) by (simp add: array_at_def)
  next
    case False
    with check_bounds_ok [OF l ne, of 0] shape(1,2) show ?thesis by (auto simp: array_at_def)
  qed
qed

section \<open>Writing and reading an array\<close>

text \<open>
  The text form of an array value: elements quoted, or bare if none of their characters is special; rows in
  braces.  \<open>shape\<close> says that a value is rectangular with the given extents; only the last may be zero, because
  PostgreSQL writes every empty array without dimensions.
\<close>

datatype elt = Quoted "string list" | Bare "string list"

datatype tree = Elt elt | Row "tree list"

fun elt_text :: "elt \<Rightarrow> string" where
  "elt_text (Quoted gs) = quote_text gs"
| "elt_text (Bare gs) = concat gs"

definition special :: "char \<Rightarrow> char set" where
  "special sep = {sep, CHR 0x7B, CHR 0x7D, CHR 0x22, CHR '','', CHR 0x00}"

fun elt_ok :: "encoding_group \<Rightarrow> char \<Rightarrow> elt \<Rightarrow> bool" where
  "elt_ok enc sep (Quoted gs) \<longleftrightarrow> list_all (is_glyph enc) gs"
| "elt_ok enc sep (Bare gs) \<longleftrightarrow> gs \<noteq> [] \<and> list_all (is_glyph enc) gs \<and> (\<forall>g \<in> set gs. length g = 1 \<longrightarrow> hd g \<notin> special sep)"

fun elt_value :: "'e element_type \<Rightarrow> elt \<Rightarrow> 'e res" where
  "elt_value T (Quoted gs) = from_string T (concat gs)"
| "elt_value T (Bare gs) =
     (if concat gs = ''NULL'' then (case null_value T of None \<Rightarrow> Inl (Pqxx_unexpected_null []) | Some e \<Rightarrow> Inr e)
      else from_string T (concat gs))"

primrec join :: "char \<Rightarrow> string list \<Rightarrow> string" where
  "join sep [] = []"
| "join sep (x # xs) = x @ (if xs = [] then [] else sep # join sep xs)"

fun render :: "char \<Rightarrow> tree \<Rightarrow> string" where
  "render sep (Elt e) = elt_text e"
| "render sep (Row ts) = CHR 0x7B # join sep (map (render sep) ts) @ [CHR 0x7D]"

fun leaves :: "tree \<Rightarrow> elt list" where
  "leaves (Elt e) = [e]"
| "leaves (Row ts) = concat (map leaves ts)"

fun shape :: "tree \<Rightarrow> nat list \<Rightarrow> bool" where
  "shape (Elt e) es \<longleftrightarrow> es = []"
| "shape (Row ts) es \<longleftrightarrow> (case es of [] \<Rightarrow> False | e # es' \<Rightarrow> length ts = e \<and> (es' \<noteq> [] \<longrightarrow> 0 < e) \<and> (\<forall>t \<in> set ts. shape t es'))"

definition separator_ok :: "char \<Rightarrow> bool" where
  "separator_ok sep \<longleftrightarrow> ascii [sep] \<and> sep \<notin> {CHR 0x7B, CHR 0x7D, CHR 0x22, CHR 0x00}"

lemma glyph_first: "is_glyph enc g \<Longrightarrow> length g \<noteq> 1 \<Longrightarrow> ascii [c] \<Longrightarrow> hd g \<noteq> c"
proof
  assume g: "is_glyph enc g" "length g \<noteq> 1" "ascii [c]" "hd g = c"
  then obtain cs where cs: "g = c # cs" by (cases g) (auto simp: is_glyph_def)
  have "get_glyph_scanner enc g (length g) 0 = Inr (Some 1)"
    using glyph_ascii [of g 0 "length g" enc] g(3) by (simp add: cs get_byte_def ascii_def)
  with g(1,2) show False by (simp add: is_glyph_def)
qed

lemma special_ascii: "separator_ok sep \<Longrightarrow> c \<in> special sep \<Longrightarrow> ascii [c]"
  by (auto simp: special_def separator_ok_def ascii_def)

lemma elt_text_hd:
  assumes "elt_ok enc sep e" "separator_ok sep"
  shows "elt_text e \<noteq> [] \<and> hd (elt_text e) \<notin> {sep, CHR 0x7B, CHR 0x7D, CHR '','', CHR 0x00} \<and>
    (hd (elt_text e) = CHR 0x22 \<longleftrightarrow> (\<exists>gs. e = Quoted gs))"
proof (cases e)
  case (Quoted gs)
  with assms(2) show ?thesis by (auto simp: quote_text_def separator_ok_def)
next
  case (Bare gs)
  with assms(1) obtain g gs' where gs: "gs = g # gs'" "is_glyph enc g" "length g = 1 \<longrightarrow> hd g \<notin> special sep" by (cases gs) auto
  have "hd g \<notin> special sep"
  proof (cases "length g = 1")
    case False
    with glyph_first [OF gs(2)] special_ascii [OF assms(2)] show ?thesis by blast
  qed (use gs in simp)
  moreover have "g \<noteq> []" using gs(2) by (simp add: is_glyph_def)
  ultimately show ?thesis using Bare gs(1) by (auto simp: special_def)
qed

lemma scan_bare:
  assumes "list_all (is_glyph enc) gs" "\<forall>g \<in> set gs. length g = 1 \<longrightarrow> hd g \<notin> set STOP" "b \<noteq> []" "hd b \<in> set STOP" "ascii [hd b]"
    and "s = a @ concat gs @ b"
  shows "scan_unquoted_string enc STOP s (length s) (length a) = Inr (Some (length a + length (concat gs)))"
  using assms(1,2,6)
proof (induction gs arbitrary: a)
  case Nil
  obtain c b' where b: "b = c # b'" using assms(3) by (cases b) auto
  with Nil have s: "s = a @ c # b'" "length a < length s" "s ! length a = c" by simp_all
  from ascii_at [of c a "length s" enc b'] assms(5) b s
  have "get_glyph_scanner enc s (length s) (length a) = Inr (Some (Suc (length a)))" by simp
  with assms(4) b s show ?case by (subst scan_unquoted_string.simps) simp
next
  case (Cons g gs)
  then have s: "s = a @ g @ concat gs @ b" "s = (a @ g) @ concat gs @ b" and g: "is_glyph enc g" by simp_all
  have n: "get_glyph_scanner enc s (length s) (length a) = Inr (Some (length a + length g))"
    unfolding s(1) by (rule glyph_at [OF g]) simp
  have "length a < length s" using g s(1) by (simp add: is_glyph_def)
  moreover have "length g > 1 \<or> s ! length a \<notin> set STOP"
    using Cons.prems(2) g s(1) by (cases g) (auto simp: is_glyph_def)
  moreover have "scan_unquoted_string enc STOP s (length s) (length a + length g) = Inr (Some (length a + length g + length (concat gs)))"
    using Cons.IH [OF _ _ s(2)] Cons.prems by simp
  ultimately show ?case using n by (subst scan_unquoted_string.simps) (simp add: add.assoc)
qed

lemma parse_element_text:
  assumes "elt_ok enc sep e" "separator_ok sep" "elt_value T e = Inr v" "b \<noteq> []" "hd b \<in> {sep, CHR 0x7D}"
    and "s = a @ elt_text e @ b" "length s \<le> max_size"
  shows "parse_element enc sep T s (length a) = Inr (Some (length a + length (elt_text e), v))"
proof -
  have b: "ascii [hd b]" "hd b \<noteq> CHR 0x22" using assms(2,5) by (auto simp: separator_ok_def)
  have first: "s ! length a = hd (elt_text e)"
    using elt_text_hd [OF assms(1,2)] assms(6) by (cases "elt_text e") (auto simp: nth_append)
  show ?thesis
  proof (cases e)
    case (Quoted gs)
    from quoted_field [of enc gs b s a] assms Quoted b
    have "scan_double_quoted_string enc s (length s) (length a) = Inr (Some (length a + length (quote_text gs)))"
      "parse_double_quoted_string enc s (length a + length (quote_text gs)) (length a) = Inr (Some (concat gs))"
      by (simp_all add: after_quote_def)
    moreover have "s ! length a = CHR 0x22" using first Quoted by (simp add: quote_text_def)
    ultimately show ?thesis using assms(3) Quoted by (simp add: parse_element_def)
  next
    case (Bare gs)
    have "scan_unquoted_string enc [sep, CHR 0x7D] s (length s) (length a) = Inr (Some (length a + length (concat gs)))"
      by (rule scan_bare [of _ _ _ b]) (use assms Bare b in \<open>auto simp: special_def\<close>)
    moreover have "slice s (length a) (length a + length (concat gs)) = concat gs"
      using assms(6) Bare by (simp add: slice_def)
    moreover have "s ! length a \<notin> {CHR 0x00, CHR '','', CHR 0x22}"
      using first elt_text_hd [OF assms(1,2)] Bare by auto
    ultimately show ?thesis using assms(3) Bare
      by (auto simp: parse_element_def split: option.splits if_splits)
  qed
qed

lemma runs_step:
  "array_step D sep enc T data s = Inr (Some s') \<Longrightarrow> a_here s < length data \<Longrightarrow>
   array_loop D sep enc T data s = array_loop D sep enc T data s'"
  by (subst array_loop.simps) simp

lemma render_hd:
  assumes "shape t es" "list_all (elt_ok enc sep) (leaves t)" "separator_ok sep"
  shows "render sep t \<noteq> [] \<and> hd (render sep t) \<notin> {sep, CHR 0x7D}"
proof (cases t)
  case (Elt e)
  with assms elt_text_hd [of enc sep e] show ?thesis by auto
qed (use assms in \<open>auto simp: separator_ok_def\<close>)

lemma field_end_next:
  assumes "data = a @ c # b" "separator_ok sep" "c = CHR 0x7D \<or> c = sep \<and> b \<noteq> [] \<and> hd b \<notin> {sep, CHR 0x7D}"
  shows "parse_field_end sep data (length a) = Inr (if c = sep then Suc (length a) else length a)"
  using assms by (cases b) (auto simp: parse_field_end_def separator_ok_def nth_append)

text \<open>
  What reading \<open>n\<close> values does to the state, when they stand in dimension \<open>k - 1\<close>: their elements are appended,
  \<open>n\<close> more entries are counted there, and the extents from \<open>k\<close> on are known.
\<close>

definition reads :: "nat \<Rightarrow> nat \<Rightarrow> nat list \<Rightarrow> nat \<Rightarrow> 'e list \<Rightarrow> nat \<Rightarrow> 'e array_state \<Rightarrow> 'e array_state \<Rightarrow> bool" where
  "reads D k es h vs n s s' \<longleftrightarrow>
     a_here s' = h \<and> a_dim s' = a_dim s \<and> a_know s' = min (a_know s) k \<and> a_elts s' = a_elts s @ vs \<and>
     length (a_extents s') = D \<and> length (a_sizes s') = D \<and>
     (0 < k \<longrightarrow> a_extents s' ! (k - 1) = a_extents s ! (k - 1) + n) \<and>
     (\<forall>j < k - 1. a_extents s' ! j = a_extents s ! j) \<and>
     take k (a_sizes s') = take k (a_sizes s) \<and> drop k (a_sizes s') = es"

definition at_value :: "nat \<Rightarrow> nat \<Rightarrow> nat list \<Rightarrow> nat \<Rightarrow> 'e array_state \<Rightarrow> bool" where
  "at_value D k es p s \<longleftrightarrow>
     k + length es = D \<and> a_here s = p \<and> a_dim s = (if k = 0 then npos else k - 1) \<and>
     length (a_extents s) = D \<and> length (a_sizes s) = D \<and>
     (a_know s = D \<or> 0 < k \<and> a_know s \<le> k \<and> drop k (a_sizes s) = es)"

lemma read_elt:
  assumes "at_value D k [] (length a) s" "0 < D" "D < npos" "elt_ok enc sep e" "separator_ok sep" "elt_value T e = Inr v"
    and "data = a @ elt_text e @ b" "length data \<le> max_size" "b \<noteq> []" "hd b \<in> {sep, CHR 0x7D}"
    and "parse_field_end sep data (length a + length (elt_text e)) = Inr h"
  shows "\<exists>s'. array_loop D sep enc T data s = array_loop D sep enc T data s' \<and> reads D k [] h [v] 1 s s'"
proof -
  let ?s' = "s\<lparr>a_extents := (a_extents s)[a_dim s := a_extents s ! a_dim s + 1], a_elts := a_elts s @ [v], a_here := h\<rparr>"
  from elt_text_hd [OF assms(4,5)] assms(7) have first: "data ! length a \<notin> {CHR 0x7B, CHR 0x7D}"
    by (cases "elt_text e") (auto simp: nth_append)
  from assms(1,2) have s: "a_here s = length a" "k = D" "a_dim s = D - 1" by (auto simp: at_value_def)
  have "array_step D sep enc T data s = Inr (Some ?s')"
    using parse_element_text [OF assms(4-6,9,10,7,8)] first assms(11) s by (simp add: array_step_def)
  moreover have "a_here s < length data" using assms(7,9) s(1) by simp
  ultimately have "array_loop D sep enc T data s = array_loop D sep enc T data ?s'" by (rule runs_step)
  moreover have "reads D k [] h [v] 1 s ?s'"
    using assms(1,2) s by (auto simp: reads_def at_value_def nth_list_update)
  ultimately show ?thesis by blast
qed

lemma reads_at: "reads D k es h vs n s t \<Longrightarrow> at_value D k es p s \<Longrightarrow> 0 < k \<Longrightarrow> at_value D k es h t"
  by (auto simp: reads_def at_value_def)

lemma reads_trans: "reads D k es h vs n s t \<Longrightarrow> reads D k es h' vs' m t u \<Longrightarrow> reads D k es h' (vs @ vs') (n + m) s u"
  by (auto simp: reads_def)

text \<open>The values of one row, given how each of them is read.\<close>

lemma read_values:
  assumes "separator_ok sep" "0 < k" "length data \<le> max_size"
    and one: "\<And>t vs a b s h. t \<in> set ts \<Longrightarrow> map (elt_value T) (leaves t) = map Inr vs \<Longrightarrow> at_value D k es (length a) s \<Longrightarrow>
      data = a @ render sep t @ b \<Longrightarrow> b \<noteq> [] \<Longrightarrow> hd b \<in> {sep, CHR 0x7D} \<Longrightarrow>
      parse_field_end sep data (length a + length (render sep t)) = Inr h \<Longrightarrow>
      \<exists>s'. array_loop D sep enc T data s = array_loop D sep enc T data s' \<and> reads D k es h vs 1 s s'"
    and "\<forall>t \<in> set ts. render sep t \<noteq> [] \<and> hd (render sep t) \<notin> {sep, CHR 0x7D}"
    and "map (elt_value T) (concat (map leaves ts)) = map Inr vs" "at_value D k es (length a) s" "ts \<noteq> []"
    and "data = a @ join sep (map (render sep) ts) @ CHR 0x7D # b"
  shows "\<exists>s'. array_loop D sep enc T data s = array_loop D sep enc T data s' \<and>
    reads D k es (length a + length (join sep (map (render sep) ts))) vs (length ts) s s'"
  using assms(4-9)
proof (induction ts arbitrary: vs a s)
  case (Cons t ts)
  from Cons.prems(3) obtain vs1 vs2 where vs: "vs = vs1 @ vs2" "map (elt_value T) (leaves t) = map Inr vs1"
    "map (elt_value T) (concat (map leaves ts)) = map Inr vs2"
    by (auto simp: append_eq_map_conv)
  show ?case
  proof (cases "ts = []")
    case True
    with Cons.prems(6) have d: "data = a @ render sep t @ CHR 0x7D # b" "data = (a @ render sep t) @ CHR 0x7D # b" by simp_all
    from field_end_next [OF d(2) assms(1)] assms(1)
    have "parse_field_end sep data (length a + length (render sep t)) = Inr (length a + length (render sep t))"
      by (auto simp: separator_ok_def)
    from Cons.prems(1) [OF _ vs(2) Cons.prems(4) d(1) _ _ this] vs(1,3) True show ?thesis by simp
  next
    case False
    let ?j = "join sep (map (render sep) ts)" and ?h = "Suc (length a + length (render sep t))"
    from Cons.prems(6) False have d: "data = a @ render sep t @ sep # ?j @ CHR 0x7D # b"
      "data = (a @ render sep t) @ sep # ?j @ CHR 0x7D # b" "data = (a @ render sep t @ [sep]) @ ?j @ CHR 0x7D # b" by simp_all
    obtain t' ts' where ts: "ts = t' # ts'" using False by (cases ts) auto
    with Cons.prems(2) have j: "?j \<noteq> []" "hd ?j \<notin> {sep, CHR 0x7D}" by (auto simp: hd_append)
    from field_end_next [OF d(2) assms(1)] j have
      "parse_field_end sep data (length a + length (render sep t)) = Inr ?h" by (simp add: hd_append)
    from Cons.prems(1) [OF _ vs(2) Cons.prems(4) d(1) _ _ this] obtain s1 where
      s1: "array_loop D sep enc T data s = array_loop D sep enc T data s1" "reads D k es ?h vs1 1 s s1" by auto
    from reads_at [OF s1(2) Cons.prems(4) assms(2)]
    have at1: "at_value D k es (length (a @ render sep t @ [sep])) s1" by simp
    have "\<exists>s'. array_loop D sep enc T data s1 = array_loop D sep enc T data s' \<and>
      reads D k es (length (a @ render sep t @ [sep]) + length ?j) vs2 (length ts) s1 s'"
      by (rule Cons.IH [OF Cons.prems(1) _ vs(3) at1 False d(3)]) (use Cons.prems(2) in auto)
    then obtain s2 where "array_loop D sep enc T data s1 = array_loop D sep enc T data s2"
      "reads D k es (length (a @ render sep t @ [sep]) + length ?j) vs2 (length ts) s1 s2" by blast
    with s1 reads_trans [OF s1(2) this(2)] False vs(1) show ?thesis by (intro exI [of _ s2]) (simp add: add.assoc)
  qed
qed simp

lemma at_value_open:
  assumes "at_value D k (e # es) p s" "0 < D" "D < npos" "data ! p = CHR 0x7B"
  obtains s1 where "array_step D sep enc T data s = Inr (Some s1)" "at_value D (Suc k) es (Suc p) s1"
    "a_know s1 = a_know s" "a_elts s1 = a_elts s" "a_sizes s1 = a_sizes s" "a_extents s1 ! k = 0"
    "0 < k \<longrightarrow> a_extents s1 ! (k - 1) = Suc (a_extents s ! (k - 1))" "\<forall>j < k - 1. a_extents s1 ! j = a_extents s ! j"
proof -
  let ?x = "if k = 0 then a_extents s else (a_extents s)[k - 1 := Suc (a_extents s ! (k - 1))]"
  let ?s1 = "s\<lparr>a_dim := k, a_extents := ?x[k := 0], a_here := Suc p\<rparr>"
  from assms(1) have s: "k + Suc (length es) = D" "a_here s = p" "a_dim s = (if k = 0 then npos else k - 1)"
    "length (a_extents s) = D" "length (a_sizes s) = D"
    "a_know s = D \<or> 0 < k \<and> a_know s \<le> k \<and> drop k (a_sizes s) = e # es" by (simp_all add: at_value_def)
  have "array_step D sep enc T data s = Inr (Some ?s1)"
    using s assms(3,4) by (cases "k = 0") (auto simp: array_step_def open_brace_def Let_def)
  moreover have "drop (Suc k) (a_sizes s) = es" if "drop k (a_sizes s) = e # es"
    using that by (metis drop_Suc list.sel(3) tl_drop)
  then have "at_value D (Suc k) es (Suc p) ?s1"
    using s by (auto simp: at_value_def)
  ultimately show thesis using that [of ?s1] s by (auto simp: nth_list_update)
qed

lemma read_tree:
  "shape t es \<Longrightarrow> list_all (elt_ok enc sep) (leaves t) \<Longrightarrow> separator_ok sep \<Longrightarrow> map (elt_value T) (leaves t) = map Inr vs \<Longrightarrow>
   at_value D k es (length a) s \<Longrightarrow> 0 < D \<Longrightarrow> D < npos \<Longrightarrow> data = a @ render sep t @ b \<Longrightarrow> length data \<le> max_size \<Longrightarrow>
   (0 < k \<longrightarrow> b \<noteq> [] \<and> hd b \<in> {sep, CHR 0x7D}) \<Longrightarrow>
   parse_field_end sep data (length a + length (render sep t)) = Inr h \<Longrightarrow>
   \<exists>s'. array_loop D sep enc T data s = array_loop D sep enc T data s' \<and> reads D k es h vs 1 s s'"
proof (induction t arbitrary: es vs k a s b h)
  case (Elt e)
  from Elt.prems(4) obtain v where v: "elt_value T e = Inr v" "vs = [v]" by auto
  from Elt.prems(1,5,6) have "k = D" "es = []" by (simp_all add: at_value_def)
  with read_elt [of D k a s enc sep e T v data b h] Elt.prems v show ?case by simp
next
  case (Row ts)
  let ?j = "join sep (map (render sep) ts)"
  from Row.prems(1) obtain e es' where es: "es = e # es'" "length ts = e" "es' \<noteq> [] \<longrightarrow> 0 < e" "\<forall>t \<in> set ts. shape t es'"
    by (cases es) auto
  from Row.prems(8) have d: "data = a @ CHR 0x7B # ?j @ CHR 0x7D # b" "data = (a @ [CHR 0x7B]) @ ?j @ CHR 0x7D # b" by simp_all
  then have c: "data ! length a = CHR 0x7B" "length a < length data" "data ! Suc (length a + length ?j) = CHR 0x7D"
    "Suc (length a + length ?j) < length data" by (simp_all add: nth_append)
  from Row.prems(5) have at: "a_here s = length a" "a_dim s = (if k = 0 then npos else k - 1)" "k + length es = D"
    "length (a_sizes s) = D" "a_know s = D \<or> 0 < k \<and> a_know s \<le> k \<and> drop k (a_sizes s) = es" by (simp_all add: at_value_def)
  from at_value_open [OF Row.prems(5) [unfolded es(1)] Row.prems(6,7) c(1), of sep enc T] obtain s1 where
    s1: "array_step D sep enc T data s = Inr (Some s1)" "at_value D (Suc k) es' (Suc (length a)) s1"
    "a_know s1 = a_know s" "a_elts s1 = a_elts s" "a_sizes s1 = a_sizes s" "a_extents s1 ! k = 0"
    "0 < k \<longrightarrow> a_extents s1 ! (k - 1) = Suc (a_extents s ! (k - 1))" "\<forall>j < k - 1. a_extents s1 ! j = a_extents s ! j" by blast
  from runs_step [OF s1(1)] c(2) at(1) have r1: "array_loop D sep enc T data s = array_loop D sep enc T data s1" by simp
  have "\<exists>s2. array_loop D sep enc T data s1 = array_loop D sep enc T data s2 \<and>
    (if ts = [] then s2 = s1 \<and> vs = [] else reads D (Suc k) es' (Suc (length a) + length ?j) vs (length ts) s1 s2)"
  proof (cases "ts = []")
    case True
    with Row.prems(4) show ?thesis by auto
  next
    case False
    have hds: "\<forall>t \<in> set ts. render sep t \<noteq> [] \<and> hd (render sep t) \<notin> {sep, CHR 0x7D}"
    proof
      fix t assume "t \<in> set ts"
      with es(4) Row.prems(2) have "shape t es'" "list_all (elt_ok enc sep) (leaves t)" by (auto simp: list_all_iff)
      then show "render sep t \<noteq> [] \<and> hd (render sep t) \<notin> {sep, CHR 0x7D}" using Row.prems(3) by (rule render_hd)
    qed
    have "\<exists>s'. array_loop D sep enc T data s1 = array_loop D sep enc T data s' \<and>
      reads D (Suc k) es' (length (a @ [CHR 0x7B]) + length ?j) vs (length ts) s1 s'"
    proof (rule read_values [OF Row.prems(3) _ Row.prems(9) _ hds _ _ False d(2)])
      fix t ws a' b' h' and s' :: "'a array_state"
      assume t: "t \<in> set ts" "map (elt_value T) (leaves t) = map Inr ws" "at_value D (Suc k) es' (length a') s'"
        "data = a' @ render sep t @ b'" "b' \<noteq> []" "hd b' \<in> {sep, CHR 0x7D}"
        "parse_field_end sep data (length a' + length (render sep t)) = Inr h'"
      show "\<exists>s''. array_loop D sep enc T data s' = array_loop D sep enc T data s'' \<and> reads D (Suc k) es' h' ws 1 s' s''"
        by (rule Row.IH [OF t(1) _ _ Row.prems(3) t(2,3) Row.prems(6,7) t(4) Row.prems(9) _ t(7)])
          (use t es(4) Row.prems(2) in \<open>auto simp: list_all_iff\<close>)
    qed (use Row.prems(4) s1(2) in simp_all)
    with False show ?thesis by simp
  qed
  then obtain s2 where r2: "array_loop D sep enc T data s1 = array_loop D sep enc T data s2"
    and s2: "if ts = [] then s2 = s1 \<and> vs = [] else reads D (Suc k) es' (Suc (length a) + length ?j) vs (length ts) s1 s2" by blast
  have dim1: "a_dim s1 = k" "a_here s1 = Suc (length a)" "length (a_extents s1) = D" "length (a_sizes s1) = D"
    using s1(2) by (simp_all add: at_value_def)
  have s2': "a_here s2 = Suc (length a + length ?j)" "a_dim s2 = k" "a_elts s2 = a_elts s @ vs"
    "length (a_extents s2) = D" "length (a_sizes s2) = D" "a_extents s2 ! k = e"
    "a_know s2 = (if ts = [] then a_know s else min (a_know s) (Suc k))"
    "\<forall>j < k. a_extents s2 ! j = a_extents s1 ! j" "take (Suc k) (a_sizes s2) = take (Suc k) (a_sizes s)"
    "drop (Suc k) (a_sizes s2) = es'"
    using s2 dim1 s1(3-6) es(2,3) at(3) es(1) by (auto simp: reads_def split: if_splits)
  have k: "k < D" "k < npos" using at(3) es(1) Row.prems(7) by simp_all
  have nth: "a_sizes s2 ! k = a_sizes s ! k"
    using arg_cong [OF s2'(9), of "\<lambda>xs. xs ! k"] k by simp
  let ?z = "if k < a_know s2 then (a_sizes s2)[k := e] else a_sizes s2"
  let ?s3 = "s2\<lparr>a_sizes := ?z, a_know := min (a_know s2) k, a_dim := a_dim s, a_here := h\<rparr>"
  have old: "a_sizes s ! k = e" if "a_know s \<le> k"
    using that at(5) k es(1) by (auto simp: drop_eq_nths nth_via_drop)
  have "close_brace sep data s2 = Inr ?s3"
  proof -
    have "sz_sub k (Suc 0) = a_dim s" using at(2) k by (cases "k = 0") simp_all
    moreover have "parse_field_end sep data (Suc (Suc (length a + length ?j))) = Inr h"
      using Row.prems(11) by simp
    ultimately show ?thesis using s2' nth old k
      by (auto simp: close_brace_def Let_def min_def)
  qed
  with c(3) s2'(1) have "array_step D sep enc T data s2 = Inr (Some ?s3)" by (simp add: array_step_def)
  from runs_step [OF this] c(4) s2'(1) have r3: "array_loop D sep enc T data s2 = array_loop D sep enc T data ?s3" by simp
  have "drop k ?z = e # es'"
  proof -
    have "?z ! k = e" using s2'(5,7) nth old k by (auto simp: min_def split: if_splits)
    moreover have "drop (Suc k) ?z = es'" using s2'(10) by simp
    ultimately show ?thesis using k s2'(5) by (simp add: Cons_nth_drop_Suc [symmetric] split: if_splits)
  qed
  moreover have "take k ?z = take k (a_sizes s)"
    using arg_cong [OF s2'(9), of "take k"] by simp
  moreover have "min (a_know s2) k = min (a_know s) k" using s2'(7) by (auto simp: min_def)
  moreover have "length ?z = D" using s2'(5) by simp
  ultimately have "reads D k es h vs 1 s ?s3"
    using s2' s1(7,8) es(1) by (auto simp: reads_def)
  with r1 r2 r3 show ?case by auto
qed

text \<open>The text of an array begins and ends with as many braces as it has dimensions.\<close>

lemma render_braces:
  "shape t es \<Longrightarrow> list_all (elt_ok enc sep) (leaves t) \<Longrightarrow> separator_ok sep \<Longrightarrow>
   2 * length es \<le> length (render sep t) \<and>
   (\<exists>x. render sep t = replicate (length es) CHR 0x7B @ x \<and> x \<noteq> [] \<and> hd x \<noteq> CHR 0x7B) \<and>
   (\<exists>y. render sep t = y @ replicate (length es) CHR 0x7D)"
proof (induction t arbitrary: es)
  case (Elt e)
  with elt_text_hd [of enc sep e] show ?case by auto
next
  case (Row ts)
  from Row.prems(1) obtain e es' where es: "es = e # es'" "length ts = e" "es' \<noteq> [] \<longrightarrow> 0 < e" "\<forall>t \<in> set ts. shape t es'"
    by (cases es) auto
  have IH: "2 * length es' \<le> length (render sep t) \<and>
     (\<exists>x. render sep t = replicate (length es') CHR 0x7B @ x \<and> x \<noteq> [] \<and> hd x \<noteq> CHR 0x7B) \<and>
     (\<exists>y. render sep t = y @ replicate (length es') CHR 0x7D)" if "t \<in> set ts" for t
    by (rule Row.IH [OF that]) (use that es(4) Row.prems(2,3) in \<open>auto simp: list_all_iff\<close>)
  show ?case
  proof (cases ts)
    case Nil
    with es show ?thesis by (auto intro: exI [of _ "[CHR 0x7B]"])
  next
    case (Cons t us)
    let ?j = "join sep (map (render sep) ts)"
    have "t \<in> set ts" using Cons by simp
    from IH [OF this] obtain x where x: "render sep t = replicate (length es') CHR 0x7B @ x" "x \<noteq> []" "hd x \<noteq> CHR 0x7B"
      "2 * length es' \<le> length (render sep t)" by (elim conjE exE) (rule that)
    obtain z where j: "?j = render sep t @ z" using Cons by auto
    have "last ts \<in> set ts" using Cons by simp
    with IH obtain y where y: "render sep (last ts) = y @ replicate (length es') CHR 0x7D" by blast
    have "\<exists>w. join sep (map (render sep) vs) = w @ render sep (last vs)" if "vs \<noteq> []" for vs
      using that
    proof (induction vs)
      case (Cons v vs)
      show ?case
      proof (cases "vs = []")
        case False
        with Cons.IH obtain w where "join sep (map (render sep) vs) = w @ render sep (last vs)" by blast
        with False show ?thesis by (intro exI [of _ "render sep v @ sep # w"]) simp
      qed simp
    qed simp
    then obtain w where w: "?j = w @ render sep (last ts)" using Cons by blast
    have r1: "render sep (Row ts) = replicate (length es) CHR 0x7B @ (x @ z @ [CHR 0x7D])"
      using j x(1) es(1) by simp
    have r2: "render sep (Row ts) = (CHR 0x7B # w @ y) @ replicate (length es) CHR 0x7D"
      using w y es(1) by (simp add: replicate_append_same [symmetric] del: replicate_append_same)
    have r3: "2 * length es \<le> length (render sep (Row ts))"
      using j x(4) es(1) by simp
    have r4: "x @ z @ [CHR 0x7D] \<noteq> []" "hd (x @ z @ [CHR 0x7D]) \<noteq> CHR 0x7B" using x(2,3) by simp_all
    from r1 r4 have "\<exists>x. render sep (Row ts) = replicate (length es) CHR 0x7B @ x \<and> x \<noteq> [] \<and> hd x \<noteq> CHR 0x7B"
      by (intro exI [of _ "x @ z @ [CHR 0x7D]"] conjI)
    moreover from r2 have "\<exists>y. render sep (Row ts) = y @ replicate (length es) CHR 0x7D"
      by (rule exI)
    ultimately show ?thesis using r3 by (intro conjI)
  qed
qed

lemma check_dims_render:
  assumes "shape t es" "list_all (elt_ok enc sep) (leaves t)" "separator_ok sep" "es \<noteq> []"
  shows "check_dims (length es) (render sep t) = Inr ()"
proof -
  let ?D = "length es" and ?s = "render sep t"
  from render_braces [OF assms(1-3)] obtain x y where l: "2 * ?D \<le> length ?s"
    and x: "?s = replicate ?D CHR 0x7B @ x" "x \<noteq> []" "hd x \<noteq> CHR 0x7B" and y: "?s = y @ replicate ?D CHR 0x7D" by blast
  have p: "?s ! i = CHR 0x7B" if "i < ?D" for i using that by (simp add: x(1) nth_append)
  have "?s ! ?D \<noteq> CHR 0x7B" using x by (cases x) (auto simp: nth_append)
  moreover have "?s ! (length ?s - 1 - i) = CHR 0x7D" if "i < ?D" for i
  proof -
    have "length ?s = length y + ?D" using arg_cong [OF y, of length] by simp
    then have "length ?s - 1 - i = length y + (?D - 1 - i)" using that by simp
    moreover have "(y @ replicate ?D CHR 0x7D) ! (length y + (?D - 1 - i)) = CHR 0x7D"
      unfolding nth_append_length_plus using that by (intro nth_replicate) simp
    ultimately show ?thesis using y by simp
  qed
  moreover have "find (\<lambda>i. ?s ! i \<noteq> CHR 0x7B) [0..<?D] = None" using p by (simp add: find_None_iff)
  moreover have "?s ! 0 = CHR 0x7B" using p [of 0] assms(4) by simp
  ultimately show ?thesis using l by (auto simp: check_dims_def Let_def list_ex_iff)
qed

lemma parse_array_render:
  assumes "shape t es" "es \<noteq> []" "length es < npos" "list_all (elt_ok enc sep) (leaves t)" "separator_ok sep"
    and "map (elt_value T) (leaves t) = map Inr vs" "length (render sep t) \<le> max_size"
  shows "parse_array (length es) sep enc T (render sep t) =
    Inr (Some \<lparr>m_elts = vs, m_extents = es, m_factors = init_factors es\<rparr>)"
proof -
  let ?D = "length es" and ?s = "render sep t"
  have D: "0 < ?D" using assms(2) by simp
  have at: "at_value ?D 0 es (length ([] :: string)) (array_init ?D)" by (simp add: at_value_def array_init_def)
  have "parse_field_end sep ?s (length ([] :: string) + length ?s) = Inr (length ?s)" by (simp add: parse_field_end_def)
  from read_tree [OF assms(1,4,5,6) at D assms(3) _ assms(7) _ this, of "[]"] obtain s where
    s: "array_loop ?D sep enc T ?s (array_init ?D) = array_loop ?D sep enc T ?s s"
      "reads ?D 0 es (length ?s) vs 1 (array_init ?D) s" by auto
  then have r: "a_here s = length ?s" "a_dim s = npos" "a_elts s = vs" "a_sizes s = es"
    by (simp_all add: reads_def array_init_def)
  then have "array_loop ?D sep enc T ?s (array_init ?D) = Inr (Some s)"
    unfolding s(1) by (subst array_loop.simps) simp
  with check_dims_render [OF assms(1,4,5,2)] r show ?thesis by (simp add: parse_array_def)
qed

text \<open>
  C16. Reading undoes writing: the text of a rectangular array of any number of dimensions, with its elements
  quoted or bare, parses to the array with these elements in order and these extents, in every encoding and with
  any separator that is not a character of the array syntax.
\<close>

theorem array_roundtrip:
  assumes "shape t es" "es \<noteq> []" "length es < npos" "list_all (elt_ok enc sep) (leaves t)" "separator_ok sep"
    and "map (elt_value T) (leaves t) = map Inr vs" "length (render sep t) \<le> max_size"
  shows "parse_array (length es) sep enc T (render sep t) =
    Inr (Some \<lparr>m_elts = vs, m_extents = es, m_factors = init_factors es\<rparr>)"
  by (rule parse_array_render [OF assms])

text \<open>Two rows of two, the separator a semicolon; one element is quoted and has a brace and a quote in it.\<close>

definition demo_tree :: tree where
  "demo_tree = Row [Row [Elt (Bare [''a'']), Elt (Quoted [''}'', [CHR 0x22]])], Row [Elt (Quoted []), Elt (Bare [''b'', ''c''])]]"

definition text_type :: "string element_type" where
  "text_type = \<lparr>from_string = Inr, null_value = None, type_name = ''string''\<rparr>"

lemma demo_tree_ok:
  "shape demo_tree [2, 2]" "list_all (elt_ok MONOBYTE CHR '';'') (leaves demo_tree)" "separator_ok CHR '';''"
  "map (elt_value text_type) (leaves demo_tree) = map Inr [''a'', [CHR 0x7D, CHR 0x22], [], ''bc'']"
  "length (render CHR '';'' demo_tree) \<le> max_size"
proof -
  show "shape demo_tree [2, 2]" by (simp add: demo_tree_def)
  show "list_all (elt_ok MONOBYTE CHR '';'') (leaves demo_tree)"
    by (simp add: demo_tree_def is_glyph_def get_glyph_scanner_def scan_defs glyph_end_def special_def)
  show "separator_ok CHR '';''" by (simp add: separator_ok_def ascii_def)
  show "map (elt_value text_type) (leaves demo_tree) = map Inr [''a'', [CHR 0x7D, CHR 0x22], [], ''bc'']"
    by (simp add: demo_tree_def text_type_def)
  show "length (render CHR '';'' demo_tree) \<le> max_size"
    by (simp add: demo_tree_def max_size_def quote_text_def escape_glyph_def)
qed

lemma demo_parse: "parse_array 2 CHR '';'' MONOBYTE text_type (render CHR '';'' demo_tree) =
   Inr (Some \<lparr>m_elts = [''a'', [CHR 0x7D, CHR 0x22], [], ''bc''], m_extents = [2, 2], m_factors = [2]\<rparr>)"
proof -
  have "(2 :: nat) < npos" by (simp add: npos_def)
  with parse_array_render [OF demo_tree_ok(1) _ _ demo_tree_ok(2-5)] show ?thesis by (simp add: eval_nat_numeral)
qed

lemma array_roundtrip_witness:
  "render CHR '';'' demo_tree = ''{{a;'' @ [CHR 0x22, CHR 0x7D, CHR 0x5C, CHR 0x22, CHR 0x22] @ ''};{'' @ [CHR 0x22, CHR 0x22] @ '';bc}}'' \<and>
   parse_array 2 CHR '';'' MONOBYTE text_type (render CHR '';'' demo_tree) =
     Inr (Some \<lparr>m_elts = [''a'', [CHR 0x7D, CHR 0x22], [], ''bc''], m_extents = [2, 2], m_factors = [2]\<rparr>)"
proof
  show "render CHR '';'' demo_tree = ''{{a;'' @ [CHR 0x22, CHR 0x7D, CHR 0x5C, CHR 0x22, CHR 0x22] @ ''};{'' @ [CHR 0x22, CHR 0x22] @ '';bc}}''"
    by (simp add: demo_tree_def quote_text_def escape_glyph_def)
  have n: "(2 :: nat) < npos" by (simp add: npos_def)
  from array_roundtrip [OF demo_tree_ok(1) _ _ demo_tree_ok(2-5)] n
  show "parse_array 2 CHR '';'' MONOBYTE text_type (render CHR '';'' demo_tree) =
     Inr (Some \<lparr>m_elts = [''a'', [CHR 0x7D, CHR 0x22], [], ''bc''], m_extents = [2, 2], m_factors = [2]\<rparr>)"
    by (simp add: eval_nat_numeral)
qed

text \<open>An index within the extents, and one outside.\<close>

lemma array_access_witness:
  "array_at \<lparr>m_elts = [''a'', [CHR 0x7D, CHR 0x22], [], ''bc''], m_extents = [2, 2], m_factors = [2]\<rparr> [0, 1] =
     Inr [CHR 0x7D, CHR 0x22] \<and>
   (\<exists>msg. array_at \<lparr>m_elts = [''a'', [CHR 0x7D, CHR 0x22], [], ''bc''], m_extents = [2, 2], m_factors = [2]\<rparr> [0, 2] =
     Inl (Pqxx_range_error msg))"
proof -
  have n: "(2 :: nat) < npos" by (simp add: npos_def)
  from array_access [OF demo_parse _ n, of "[0, 1]"] array_access [OF demo_parse _ n, of "[0, 2]"]
  show ?thesis by (simp add: locate_def)
qed

end
