(* ===== verification/Pqxx_Conversions.thy ===== *)
theory Pqxx_Conversions
  imports Pqxx_Array
begin

text \<open>
  Conversion between values and text: integers, strings and binary data in \<open>src/strconv.cxx\<close>,
  \<open>include/pqxx/internal/conversions.hxx\<close> and \<open>src/util.cxx\<close>.  A buffer is the list of its bytes and stands
  for the memory between \<open>begin\<close> and \<open>end\<close> of the caller's caller; a pointer into it is an offset, \<open>end\<close> is its
  length.  Writing or reading outside of it is the outcome \<open>None\<close>.
\<close>

section \<open>Buffers\<close>

definition put :: "string \<Rightarrow> nat \<Rightarrow> char \<Rightarrow> string ub_res" where
  "put buf pos c = (if pos < length buf then Inr (Some (buf[pos := c])) else Inr None)"

text \<open>A block copy of \<open>s\<close> to \<open>pos\<close>.\<close>

definition blit :: "string \<Rightarrow> nat \<Rightarrow> string \<Rightarrow> string" where
  "blit buf pos s = take pos buf @ s @ drop (pos + length s) buf"

lemma take_prefix: "n = length x \<Longrightarrow> take n (x @ y) = x"
  by simp

lemma length_blit [simp]: "pos + length s \<le> length buf \<Longrightarrow> length (blit buf pos s) = length buf"
  by (simp add: blit_def)

lemma take_blit: "pos + length s \<le> length buf \<Longrightarrow> take (pos + length s) (blit buf pos s) = take pos buf @ s"
  by (simp add: blit_def)

lemma put_snoc: "put (a @ x # b) (length a) c = Inr (Some ((a @ [c]) @ b))"
  by (simp add: put_def)

section \<open>Integers\<close>

text \<open>An integral type: its name, whether it is signed, and its width.\<close>

record int_type =
  t_name :: string
  t_signed :: bool
  t_bits :: nat

definition t_min :: "int_type \<Rightarrow> int" where
  "t_min T = (if t_signed T then - (2 ^ (t_bits T - 1)) else 0)"

definition t_max :: "int_type \<Rightarrow> int" where
  "t_max T = (if t_signed T then 2 ^ (t_bits T - 1) - 1 else 2 ^ t_bits T - 1)"

definition digits10 :: "int_type \<Rightarrow> nat" where
  "digits10 T = length (nat_to_string (nat (t_max T))) - 1"

text \<open>The result of an operation of the type: overflow is undefined for a signed type and wraps around otherwise.\<close>

definition arith :: "int_type \<Rightarrow> int \<Rightarrow> int ub_res" where
  "arith T n =
     (if t_min T \<le> n \<and> n \<le> t_max T then Inr (Some n)
      else if t_signed T then Inr None else Inr (Some (n mod 2 ^ t_bits T)))"

definition int_size_buffer :: "int_type \<Rightarrow> nat" where
  "int_size_buffer T = of_bool (t_signed T) + digits10 T + 1 + 1"

definition state_buffer_overrun :: "int \<Rightarrow> int \<Rightarrow> string" where
  "state_buffer_overrun have_bytes need_bytes =
     ''Have '' @ int_to_string have_bytes @ '' bytes, need '' @ int_to_string need_bytes @ ''.''"

text \<open>Digits are written from the end of the buffer down.  The value is not negative.\<close>

function nonneg_loop :: "nat \<Rightarrow> string \<Rightarrow> nat \<Rightarrow> (string \<times> nat) ub_res" where
  "nonneg_loop value buf pos =
     (if pos = 0 then Inr None
      else
        let buf = buf[pos - 1 := digit_char (value mod 10)] in
        if value div 10 > 0 then nonneg_loop (value div 10) buf (pos - 1) else Inr (Some (buf, pos - 1)))"
  by pat_completeness auto
termination by (relation "measure fst") auto

declare nonneg_loop.simps [simp del]

definition nonneg_to_buf :: "string \<Rightarrow> nat \<Rightarrow> (string \<times> nat) ub_res" where
  "nonneg_to_buf buf value =
     (let en = length buf in
      if en = 0 then Inr None else nonneg_loop value (buf[en - 1 := CHR 0x00]) (en - 1))"

definition neg_to_buf :: "string \<Rightarrow> nat \<Rightarrow> (string \<times> nat) ub_res" where
  "neg_to_buf buf value =
     bindU (nonneg_to_buf buf value) (\<lambda>(buf, pos).
     if pos = 0 then Inr None else Inr (Some (buf[pos - 1 := CHR ''-''], pos - 1)))"

definition bottom_to_buf :: "int_type \<Rightarrow> string \<Rightarrow> (string \<times> nat) ub_res" where
  "bottom_to_buf T buf = neg_to_buf buf (nat (t_min T mod 2 ^ t_bits T))"

text \<open>\<open>to_buf\<close> gives the buffer and a view of it, an offset and a size.\<close>

definition int_to_buf :: "int_type \<Rightarrow> string \<Rightarrow> nat \<Rightarrow> int \<Rightarrow> (string \<times> nat \<times> nat) ub_res" where
  "int_to_buf T buf begin value =
     (let space = int (length buf) - int begin; need = int (int_size_buffer T) in
      if space < need then
        Inl (Pqxx_conversion_overrun (''Could not convert '' @ t_name T @ '' to string: buffer too small.  '' @
          state_buffer_overrun space need))
      else
        bindU (if \<not> t_signed T then nonneg_to_buf buf (nat value)
               else if value \<ge> 0 then nonneg_to_buf buf (nat value)
               else if value > t_min T then bindU (arith T (- value)) (\<lambda>v. neg_to_buf buf (nat v))
               else bottom_to_buf T buf) (\<lambda>(buf, pos).
        Inr (Some (buf, pos, length buf - pos - 1))))"

text \<open>
  \<open>into_buf\<close>: with a \<open>std::to_chars\<close> for integers, which writes the shortest text or reports that it does not fit,
  and without one.
\<close>

definition wrap_to_chars :: "int_type \<Rightarrow> string \<Rightarrow> nat \<Rightarrow> int \<Rightarrow> (string \<times> nat) ub_res" where
  "wrap_to_chars T buf begin value =
     (let text = int_to_string value in
      if int begin + int (length text) > int (length buf) - 1 then
        Inl (Pqxx_conversion_overrun (''Could not convert '' @ t_name T @ '' to string: buffer too small ('' @
          int_to_string (int (length buf) - int begin) @ '' bytes).''))
      else Inr (Some (blit buf begin (text @ [CHR 0x00]), begin + length text + 1)))"

definition generic_into_buf ::
    "string \<Rightarrow> (string \<Rightarrow> nat \<Rightarrow> 'e \<Rightarrow> (string \<times> nat \<times> nat) ub_res) \<Rightarrow> string \<Rightarrow> nat \<Rightarrow> 'e \<Rightarrow> (string \<times> nat) ub_res" where
  "generic_into_buf name to_buf buf begin value =
     bindU (to_buf buf begin value) (\<lambda>(buf, data, size).
     let space = int (length buf) - int begin; len = size + 1 in
     if int len > space then
       Inl (Pqxx_conversion_overrun (''Not enough buffer space to insert '' @ name @ ''.  '' @
         state_buffer_overrun space (int len)))
     else if data + len > length buf then Inr None
     else Inr (Some (blit buf begin (take len (drop data buf)), begin + len)))"

text \<open>\<open>generic_to_buf\<close>, on top of \<open>into_buf\<close>, for a value that is not null.\<close>

definition generic_to_buf ::
    "(string \<Rightarrow> nat \<Rightarrow> 'e \<Rightarrow> (string \<times> nat) ub_res) \<Rightarrow> string \<Rightarrow> nat \<Rightarrow> 'e \<Rightarrow> (string \<times> nat \<times> nat) ub_res" where
  "generic_to_buf into_buf buf begin value =
     bindU (into_buf buf begin value) (\<lambda>(buf, en). Inr (Some (buf, begin, en - begin - 1)))"

section \<open>Integers from text\<close>

text \<open>\<open>from_string_arithmetic\<close>, over \<open>std::from_chars\<close>, which takes a minus sign for signed types only.\<close>

definition from_string_arithmetic :: "int_type \<Rightarrow> string \<Rightarrow> int res" where
  "from_string_arithmetic T text =
     (let here = dropWhile (\<lambda>c. c = CHR '' '' \<or> c = CHR 0x09) text;
          neg = (t_signed T \<and> here \<noteq> [] \<and> hd here = CHR ''-'');
          r = (if neg then tl here else here);
          ds = takeWhile is_digit_c r;
          n = int (foldl (\<lambda>a c. a * 10 + digit_val c) 0 ds);
          v = (if neg then - n else n);
          base = ''Could not convert '' @ [CHR 0x27] @ text @ [CHR 0x27] @ '' to '' @ t_name T
      in if ds = [] then Inl (Pqxx_conversion_error (base @ '': Invalid argument.''))
         else if v < t_min T \<or> v > t_max T then Inl (Pqxx_conversion_error (base @ '': Value out of range.''))
         else if dropWhile is_digit_c r \<noteq> [] then Inl (Pqxx_conversion_error (base @ '': Could not parse full string.''))
         else Inr v)"

text \<open>The conversion for compilers without \<open>std::from_chars\<close>.\<close>

definition report_overflow :: "'a ub_res" where
  "report_overflow = Inl (Pqxx_conversion_error ''Could not convert string to integer: value out of range.'')"

definition numeric_high_threshold :: "int_type \<Rightarrow> int" where
  "numeric_high_threshold T = t_max T div 10"

text \<open>Division truncates, and the minimum is not positive.\<close>

definition numeric_low_threshold :: "int_type \<Rightarrow> int" where
  "numeric_low_threshold T = - ((- t_min T) div 10)"

definition safe_multiply_by_ten :: "int_type \<Rightarrow> int \<Rightarrow> int ub_res" where
  "safe_multiply_by_ten T n =
     (if n > numeric_high_threshold T then report_overflow
      else if t_signed T \<and> numeric_low_threshold T > n then report_overflow
      else arith T (n * 10))"

definition safe_add_digit :: "int_type \<Rightarrow> int \<Rightarrow> int \<Rightarrow> int ub_res" where
  "safe_add_digit T n d =
     bindU (arith T (t_max T - d)) (\<lambda>high_threshold.
     if n > high_threshold then report_overflow else arith T (n + d))"

definition safe_sub_digit :: "int_type \<Rightarrow> int \<Rightarrow> int \<Rightarrow> int ub_res" where
  "safe_sub_digit T n d =
     bindU (arith T (t_min T + d)) (\<lambda>low_threshold.
     if n < low_threshold then report_overflow else arith T (n - d))"

definition absorb_digit_positive :: "int_type \<Rightarrow> int \<Rightarrow> int \<Rightarrow> int ub_res" where
  "absorb_digit_positive T value digit = bindU (safe_multiply_by_ten T value) (\<lambda>n. safe_add_digit T n digit)"

definition absorb_digit_negative :: "int_type \<Rightarrow> int \<Rightarrow> int \<Rightarrow> int ub_res" where
  "absorb_digit_negative T value digit = bindU (safe_multiply_by_ten T value) (\<lambda>n. safe_sub_digit T n digit)"

text \<open>
  The loops over the digits, from the bytes at \<open>data + i\<close> on: the result and what is left.  The first one has no
  bound and runs into the bytes behind the text; the second stops at the end.
\<close>

fun digits_unbounded :: "(int \<Rightarrow> int \<Rightarrow> int ub_res) \<Rightarrow> int \<Rightarrow> string \<Rightarrow> (int \<times> string) ub_res" where
  "digits_unbounded absorb_digit acc [] = Inr None"
| "digits_unbounded absorb_digit acc (c # cs) =
     (if is_digit_c c then
        bindU (absorb_digit acc (int (digit_val c))) (\<lambda>acc. digits_unbounded absorb_digit acc cs)
      else Inr (Some (acc, c # cs)))"

fun digits_bounded :: "(int \<Rightarrow> int \<Rightarrow> int ub_res) \<Rightarrow> int \<Rightarrow> string \<Rightarrow> (int \<times> string) ub_res" where
  "digits_bounded absorb_digit acc [] = Inr (Some (acc, []))"
| "digits_bounded absorb_digit acc (c # cs) =
     (if is_digit_c c then
        bindU (absorb_digit acc (int (digit_val c))) (\<lambda>acc. digits_bounded absorb_digit acc cs)
      else Inr (Some (acc, c # cs)))"

text \<open>\<open>behind\<close> are the bytes in memory after the text.\<close>

definition from_string_integer :: "int_type \<Rightarrow> string \<Rightarrow> string \<Rightarrow> int ub_res" where
  "from_string_integer T text behind =
     (let quoted = quoted_name text in
      if text = [] then okU (conversion_error (''Attempt to convert empty string to '' @ t_name T @ ''.''))
      else
        let here = dropWhile (\<lambda>c. c = CHR '' '' \<or> c = CHR 0x09) text in
        if here = [] then okU (conversion_error (''Converting string to '' @ t_name T @ '', but it contains only whitespace.''))
        else
          bindU (if is_digit_c (hd here) then
                   bindU (digits_unbounded (absorb_digit_positive T) 0 (here @ behind)) (\<lambda>(v, left).
                   Inr (Some (v, length left > length behind)))
                 else if hd here = CHR ''-'' then
                   (if \<not> t_signed T then okU (conversion_error (''Attempt to convert negative value to '' @ t_name T @ ''.''))
                    else if tl here = [] then okU (conversion_error (''Converting string to '' @ t_name T @ '', but it contains only a sign.''))
                    else
                      bindU (digits_bounded (absorb_digit_negative T) 0 (tl here)) (\<lambda>(v, left).
                      Inr (Some (v, left \<noteq> []))))
                 else okU (conversion_error (''Could not convert string to '' @ t_name T @ '': '' @ quoted @ ''.''))) (\<lambda>(v, more).
          if more then okU (conversion_error (''Unexpected text after '' @ t_name T @ '': '' @ quoted @ ''.''))
          else Inr (Some v)))"

section \<open>Strings\<close>

definition string_into_buf :: "string \<Rightarrow> nat \<Rightarrow> string \<Rightarrow> (string \<times> nat) ub_res" where
  "string_into_buf buf begin value =
     (if int (length value) \<ge> int (length buf) - int begin then
        Inl (Pqxx_conversion_overrun ''Could not convert string to string: too long for buffer.'')
      else Inr (Some (blit buf begin (value @ [CHR 0x00]), begin + length value + 1)))"

definition string_size_buffer :: "string \<Rightarrow> nat" where
  "string_size_buffer value = length value + 1"

section \<open>Binary data\<close>

definition hex_digits :: string where
  "hex_digits = ''0123456789abcdef''"

definition hex_digit :: "nat \<Rightarrow> char" where
  "hex_digit c = hex_digits ! c"

definition nibble :: "nat \<Rightarrow> int" where
  "nibble c =
     (if 48 \<le> c \<and> c \<le> 57 then int c - 48
      else if 97 \<le> c \<and> c \<le> 102 then 10 + (int c - 97)
      else if 65 \<le> c \<and> c \<le> 70 then 10 + (int c - 65)
      else - 1)"

definition size_esc_bin :: "nat \<Rightarrow> nat" where
  "size_esc_bin binary_bytes = 2 + (2 * binary_bytes) + 1"

definition size_unesc_bin :: "nat \<Rightarrow> nat" where
  "size_unesc_bin escaped_bytes = sz_sub escaped_bytes 2 div 2"

text \<open>\<open>esc_bin\<close> into a buffer, from the offset \<open>here\<close> on.\<close>

primrec esc_bin_loop :: "8 word list \<Rightarrow> string \<Rightarrow> nat \<Rightarrow> string ub_res" where
  "esc_bin_loop [] buffer here = put buffer here (CHR 0x00)"
| "esc_bin_loop (uc # binary_data) buffer here =
     bindU (put buffer here (hex_digit (unat (drop_bit 4 uc)))) (\<lambda>buffer.
     bindU (put buffer (here + 1) (hex_digit (unat (and uc 0x0f)))) (\<lambda>buffer.
     esc_bin_loop binary_data buffer (here + 2)))"

definition esc_bin_into :: "8 word list \<Rightarrow> string \<Rightarrow> nat \<Rightarrow> string ub_res" where
  "esc_bin_into binary_data buffer here =
     bindU (put buffer here (CHR 0x5C)) (\<lambda>buffer.
     bindU (put buffer (here + 1) (CHR ''x'')) (\<lambda>buffer.
     esc_bin_loop binary_data buffer (here + 2)))"

definition esc_bin :: "8 word list \<Rightarrow> string ub_res" where
  "esc_bin binary_data =
     (let bytes = size_esc_bin (length binary_data) in
      bindU (esc_bin_into binary_data (replicate bytes (CHR 0x00)) 0) (\<lambda>buf.
      Inr (Some (take (bytes - 1) buf))))"

definition binary_into_buf :: "string \<Rightarrow> nat \<Rightarrow> 8 word list \<Rightarrow> (string \<times> nat) ub_res" where
  "binary_into_buf buf begin value =
     (let budget = size_esc_bin (length value) in
      if int (length buf) - int begin < int budget then
        Inl (Pqxx_conversion_overrun ''Not enough buffer space to escape binary data.'')
      else bindU (esc_bin_into value buf begin) (\<lambda>buf. Inr (Some (buf, begin + budget))))"

text \<open>The loop of \<open>unesc_bin\<close> reads two bytes at a time; the size of the buffer is that of the output.\<close>

fun unesc_bin_loop :: "string \<Rightarrow> nat \<Rightarrow> 8 word list ub_res" where
  "unesc_bin_loop [] room = Inr (Some [])"
| "unesc_bin_loop [c] room = Inr None"
| "unesc_bin_loop (c # d # input) room =
     (let hi = nibble (of_char c); lo = nibble (of_char d) in
      if hi < 0 then Inl (Pqxx_failure ''Invalid hex-escaped data.'')
      else if lo < 0 then Inl (Pqxx_failure ''Invalid hex-escaped data.'')
      else if room = 0 then Inr None
      else bindU (unesc_bin_loop input (room - 1)) (\<lambda>bs.
        Inr (Some (or (push_bit 4 (word_of_int hi)) (word_of_int lo) # bs))))"

definition unesc_bin_into :: "string \<Rightarrow> nat \<Rightarrow> 8 word list ub_res" where
  "unesc_bin_into escaped_data room =
     (let in_size = length escaped_data in
      if in_size < 2 then Inl (Pqxx_failure ''Binary data appears truncated.'')
      else if in_size mod 2 \<noteq> 0 then Inl (Pqxx_failure ''Invalid escaped binary length.'')
      else if escaped_data ! 0 \<noteq> CHR 0x5C \<or> escaped_data ! 1 \<noteq> CHR ''x'' then
        Inl (Pqxx_failure (''Escaped binary data did not start with '' @ quoted_name [CHR 0x5C, CHR ''x''] @
          [CHR 0x60] @ ''.  Is the server or libpq too old?''))
      else unesc_bin_loop (drop 2 escaped_data) room)"

text \<open>The string is resized before anything is checked.\<close>

definition unesc_bin :: "string \<Rightarrow> 8 word list ub_res" where
  "unesc_bin escaped_data =
     (let bytes = size_unesc_bin (length escaped_data) in
      if bytes > max_size then Inl (Length_error ''basic_string::_M_replace_aux'')
      else unesc_bin_into escaped_data bytes)"

section \<open>Writing integers\<close>

lemma nonneg_loop_digits:
  "length junk = length (nat_to_string n) \<Longrightarrow>
   nonneg_loop n (a @ junk @ b) (length a + length junk) = Inr (Some (a @ nat_to_string n @ b, length a))"
proof (induction n arbitrary: junk b rule: nat_to_string.induct)
  case (1 n)
  show ?case
  proof (cases "n < 10")
    case True
    with "1.prems" have "length junk = Suc 0" by (subst (asm) nat_to_string.simps) simp
    then obtain c where "junk = [c]" by (cases junk) auto
    with True show ?thesis by (subst nat_to_string.simps, subst nonneg_loop.simps) simp
  next
    case False
    then have nts: "nat_to_string n = nat_to_string (n div 10) @ [digit_char (n mod 10)]" by (subst nat_to_string.simps) simp
    with "1.prems" have "junk \<noteq> []" by auto
    then obtain j c where j: "junk = j @ [c]" by (cases junk rule: rev_cases) auto
    with "1.prems" nts have l: "length j = length (nat_to_string (n div 10))" by simp
    have "nonneg_loop n (a @ junk @ b) (length a + length junk) =
        nonneg_loop (n div 10) (a @ j @ digit_char (n mod 10) # b) (length a + length j)"
      using False div_greater_zero_iff [of n 10] by (subst nonneg_loop.simps) (simp add: j list_update_append Let_def)
    also have "\<dots> = Inr (Some (a @ nat_to_string (n div 10) @ digit_char (n mod 10) # b, length a))"
      using "1.IH" [OF False l] .
    finally show ?thesis by (simp add: nts)
  qed
qed

lemma nonneg_to_buf_digits:
  assumes "length junk = Suc (length (nat_to_string n))"
  shows "nonneg_to_buf (a @ junk) n = Inr (Some (a @ nat_to_string n @ [CHR 0x00], length a))"
proof -
  obtain j c where j: "junk = j @ [c]" using assms by (cases junk rule: rev_cases) auto
  with nonneg_loop_digits [of j n a "[CHR 0x00]"] assms show ?thesis
    by (simp add: nonneg_to_buf_def Let_def list_update_append)
qed

lemma neg_to_buf_digits:
  assumes "length junk = length (nat_to_string n) + 2"
  shows "neg_to_buf (a @ junk) n = Inr (Some (a @ CHR ''-'' # nat_to_string n @ [CHR 0x00], length a))"
proof -
  obtain c j where j: "junk = c # j" using assms by (cases junk) auto
  with nonneg_to_buf_digits [of j n "a @ [c]"] assms show ?thesis
    by (simp add: neg_to_buf_def list_update_append)
qed

lemma nat_to_string_length: "n < 10 ^ k \<Longrightarrow> 0 < k \<Longrightarrow> length (nat_to_string n) \<le> k"
proof (induction n arbitrary: k rule: nat_to_string.induct)
  case (1 n)
  show ?case
  proof (cases "n < 10")
    case False
    then obtain j where j: "k = Suc j" "0 < j" using "1.prems" by (cases k; cases "k - 1") auto
    with "1.prems" have "n div 10 < 10 ^ j" by (simp add: less_mult_imp_div_less mult.commute)
    with "1.IH" [OF False this j(2)] False j show ?thesis by (subst nat_to_string.simps) simp
  qed (use "1.prems" in \<open>subst nat_to_string.simps, simp\<close>)
qed

text \<open>The widths of the types for which the library instantiates the conversions.\<close>

definition int_type_ok :: "int_type \<Rightarrow> bool" where
  "int_type_ok T \<longleftrightarrow> t_bits T \<in> {16, 32, 64}"

lemma int_type_cases:
  assumes "int_type_ok T"
  obtains b where "t_bits T = b" "b = 16 \<or> b = 32 \<or> b = 64"
  using assms by (auto simp: int_type_ok_def)

lemma digits10_values:
  "t_bits T = 16 \<Longrightarrow> digits10 T = 4" "t_bits T = 32 \<Longrightarrow> digits10 T = 9"
  "t_bits T = 64 \<Longrightarrow> t_signed T \<Longrightarrow> digits10 T = 18" "t_bits T = 64 \<Longrightarrow> \<not> t_signed T \<Longrightarrow> digits10 T = 19"
  by (simp_all add: digits10_def t_max_def nat_to_string.simps)

lemma digits_fit:
  assumes "int_type_ok T" "t_min T \<le> v" "v \<le> t_max T"
  shows "length (nat_to_string (nat \<bar>v\<bar>)) \<le> digits10 T + 1"
proof (rule nat_to_string_length)
  have "\<bar>v\<bar> < 10 ^ (digits10 T + 1)"
    using assms by (cases "t_signed T") (auto simp: int_type_ok_def digits10_values t_min_def t_max_def)
  then show "nat \<bar>v\<bar> < 10 ^ (digits10 T + 1)" by (simp add: nat_less_iff)
qed simp

text \<open>Cutting the last \<open>n\<close> bytes off a buffer.\<close>

lemma buffer_end: "begin + n \<le> length buf \<Longrightarrow>
   \<exists>a junk. buf = a @ junk \<and> length junk = n \<and> begin \<le> length a \<and> take begin a = take begin buf"
  by (rule exI [of _ "take (length buf - n) buf"], rule exI [of _ "drop (length buf - n) buf"])
    (use le_diff_conv2 in \<open>auto simp: min_def simp del: append_eq_conv_conj\<close>)

lemma int_to_buf_text:
  assumes "int_type_ok T" "t_min T \<le> v" "v \<le> t_max T" "begin + int_size_buffer T \<le> length buf"
  shows "\<exists>a. int_to_buf T buf begin v = Inr (Some (a @ int_to_string v @ [CHR 0x00], length a, length (int_to_string v))) \<and>
    begin \<le> length a \<and> length a + length (int_to_string v) + 1 = length buf \<and> take begin a = take begin buf"
proof -
  let ?n = "nat \<bar>v\<bar>"
  have fit: "length (nat_to_string ?n) \<le> digits10 T + 1" by (rule digits_fit [OF assms(1-3)])
  have space: "\<not> int (length buf) - int begin < int (int_size_buffer T)" using assms(4) by simp
  show ?thesis
  proof (cases "v < 0")
    case False
    then have s: "int_to_string v = nat_to_string (nat v)" by (simp add: int_to_string_def)
    from False fit assms(4) have "begin + Suc (length (nat_to_string (nat v))) \<le> length buf"
      by (simp add: int_size_buffer_def)
    from buffer_end [OF this] obtain a junk where
      a: "buf = a @ junk" "length junk = Suc (length (nat_to_string (nat v)))" "begin \<le> length a" "take begin a = take begin buf" by blast
    from False space nonneg_to_buf_digits [OF a(2), of a] a show ?thesis
      by (intro exI [of _ a]) (simp add: int_to_buf_def Let_def s)
  next
    case True
    then have s: "int_to_string v = CHR ''-'' # nat_to_string (nat (- v))" and n: "?n = nat (- v)"
      by (simp_all add: int_to_string_def)
    have sg: "t_signed T" using True assms(2) by (cases "t_signed T") (simp_all add: t_min_def)
    from sg fit assms(4) n have "begin + (length (nat_to_string (nat (- v))) + 2) \<le> length buf"
      by (simp add: int_size_buffer_def)
    from buffer_end [OF this] obtain a junk where
      a: "buf = a @ junk" "length junk = length (nat_to_string (nat (- v))) + 2" "begin \<le> length a" "take begin a = take begin buf" by blast
    note neg = neg_to_buf_digits [OF a(2), of a]
    have "(if v > t_min T then bindU (arith T (- v)) (\<lambda>v. neg_to_buf buf (nat v)) else bottom_to_buf T buf) =
        neg_to_buf buf (nat (- v))"
    proof (cases "v > t_min T")
      case True
      then have "arith T (- v) = Inr (Some (- v))"
        using assms(2,3) sg \<open>v < 0\<close> by (simp add: arith_def t_min_def t_max_def)
      with True show ?thesis by simp
    next
      case False
      then have "v = t_min T" using assms(2) by simp
      moreover have "nat (t_min T mod 2 ^ t_bits T) = nat (- t_min T)"
        using assms(1) sg by (auto simp: int_type_ok_def t_min_def)
      ultimately show ?thesis by (simp add: bottom_to_buf_def)
    qed
    moreover have "\<not> v \<ge> 0" using True by simp
    then have "int_to_buf T buf begin v =
        bindU (if v > t_min T then bindU (arith T (- v)) (\<lambda>v. neg_to_buf buf (nat v)) else bottom_to_buf T buf)
          (\<lambda>(buf, pos). Inr (Some (buf, pos, length buf - pos - 1)))"
      by (simp only: int_to_buf_def Let_def space sg if_False if_True simp_thms)
    ultimately show ?thesis
      using neg a by (intro exI [of _ a]) (simp add: s)
  qed
qed

lemma generic_into_buf_text:
  assumes "to_buf buf begin v = Inr (Some (a @ s @ [CHR 0x00], length a, length s))" "begin \<le> length a"
    "length a + length s + 1 = length buf" "take begin a = take begin buf"
  shows "\<exists>buf'. generic_into_buf name to_buf buf begin v = Inr (Some (buf', begin + length s + 1)) \<and>
    length buf' = length buf \<and> take (begin + length s + 1) buf' = take begin buf @ s @ [CHR 0x00]"
proof -
  let ?b = "a @ s @ [CHR 0x00]"
  have l: "length ?b = length buf" "begin + length (s @ [CHR 0x00]) \<le> length ?b" using assms(2,3) by simp_all
  have "generic_into_buf name to_buf buf begin v = Inr (Some (blit ?b begin (s @ [CHR 0x00]), begin + (length s + 1)))"
    using assms by (simp add: generic_into_buf_def Let_def)
  moreover have "take (begin + length s + 1) (blit ?b begin (s @ [CHR 0x00])) = take begin buf @ s @ [CHR 0x00]"
    using take_blit [OF l(2)] assms(2,4) by (simp add: add.assoc)
  ultimately show ?thesis using l by auto
qed

section \<open>Reading integers\<close>

lemma t_limits: "int_type_ok T \<Longrightarrow> t_min T \<le> 0 \<and> 9 \<le> t_max T \<and> (t_signed T \<longrightarrow> t_min T = - t_max T - 1) \<and> (\<not> t_signed T \<longrightarrow> t_min T = 0)"
  by (auto simp: int_type_ok_def t_min_def t_max_def)

lemma arith_in: "t_min T \<le> n \<Longrightarrow> n \<le> t_max T \<Longrightarrow> arith T n = Inr (Some n)"
  by (simp add: arith_def)

lemma absorb_positive:
  assumes "int_type_ok T" "0 \<le> n" "n \<le> t_max T" "0 \<le> d" "d \<le> 9"
  shows "absorb_digit_positive T n d = (if n * 10 + d \<le> t_max T then Inr (Some (n * 10 + d)) else report_overflow)"
proof -
  note lim = t_limits [OF assms(1)]
  have low: "\<not> (t_signed T \<and> numeric_low_threshold T > n)" using lim assms(2) unfolding numeric_low_threshold_def by linarith
  show ?thesis
  proof (cases "n > t_max T div 10")
    case True
    then have "n * 10 + d > t_max T" using assms(4) by linarith
    with True show ?thesis
      by (simp add: absorb_digit_positive_def safe_multiply_by_ten_def numeric_high_threshold_def report_overflow_def)
  next
    case False
    then have "n * 10 \<le> t_max T" by linarith
    then have "safe_multiply_by_ten T n = Inr (Some (n * 10))"
      using False low lim assms(2) by (auto simp: safe_multiply_by_ten_def numeric_high_threshold_def arith_in)
    moreover have "arith T (t_max T - d) = Inr (Some (t_max T - d))"
      using lim assms(4,5) by (intro arith_in) linarith+
    moreover have "arith T (n * 10 + d) = Inr (Some (n * 10 + d))" if "n * 10 + d \<le> t_max T"
      using that lim assms(2,4) by (intro arith_in) linarith+
    ultimately show ?thesis by (auto simp: absorb_digit_positive_def safe_add_digit_def report_overflow_def)
  qed
qed

lemma absorb_negative:
  assumes "int_type_ok T" "t_signed T" "n \<le> 0" "t_min T \<le> n" "0 \<le> d" "d \<le> 9"
  shows "absorb_digit_negative T n d = (if t_min T \<le> n * 10 - d then Inr (Some (n * 10 - d)) else report_overflow)"
proof -
  note lim = t_limits [OF assms(1)]
  have high: "\<not> n > numeric_high_threshold T" using lim assms(3) unfolding numeric_high_threshold_def by linarith
  show ?thesis
  proof (cases "numeric_low_threshold T > n")
    case True
    then have "n * 10 - d < t_min T" using assms(5) unfolding numeric_low_threshold_def by linarith
    with True high assms(2) show ?thesis
      by (simp add: absorb_digit_negative_def safe_multiply_by_ten_def report_overflow_def)
  next
    case False
    then have "t_min T \<le> n * 10" unfolding numeric_low_threshold_def by linarith
    then have "safe_multiply_by_ten T n = Inr (Some (n * 10))"
      using False high lim assms(3) by (simp add: safe_multiply_by_ten_def arith_in)
    moreover have "arith T (t_min T + d) = Inr (Some (t_min T + d))"
      using lim assms(2,5,6) by (intro arith_in) linarith+
    moreover have "arith T (n * 10 - d) = Inr (Some (n * 10 - d))" if "t_min T \<le> n * 10 - d"
      using that lim assms(3,5) by (intro arith_in) linarith+
    ultimately show ?thesis by (auto simp: absorb_digit_negative_def safe_sub_digit_def report_overflow_def)
  qed
qed

text \<open>What digits denote, after a value \<open>n\<close>.\<close>

definition digits_value :: "int \<Rightarrow> string \<Rightarrow> int" where
  "digits_value n ds = foldl (\<lambda>a c. a * 10 + int (digit_val c)) n ds"

lemma digits_value_simps [simp]:
  "digits_value n [] = n" "digits_value n (c # ds) = digits_value (n * 10 + int (digit_val c)) ds"
  by (simp_all add: digits_value_def)

lemma digits_value_int: "digits_value (int n) ds = int (foldl (\<lambda>a c. a * 10 + digit_val c) n ds)"
proof (induction ds arbitrary: n)
  case (Cons c ds)
  from Cons.IH [of "n * 10 + digit_val c"] show ?case by simp
qed simp

lemma digits_value_ge: "0 \<le> n \<Longrightarrow> n \<le> digits_value n ds"
proof (induction ds arbitrary: n)
  case (Cons c ds)
  then have "n * 10 + int (digit_val c) \<le> digits_value (n * 10 + int (digit_val c)) ds" by simp
  with Cons.prems show ?case by simp
qed simp

lemma digit_val_le: "is_digit_c c \<Longrightarrow> digit_val c \<le> 9"
  by (auto simp: is_digit_c_def digit_val_def less_eq_char_def)

lemma digits_unbounded_value:
  assumes "int_type_ok T" "\<forall>c \<in> set ds. is_digit_c c" "left \<noteq> []" "\<not> is_digit_c (hd left)"
  shows "0 \<le> n \<Longrightarrow> n \<le> t_max T \<Longrightarrow> digits_unbounded (absorb_digit_positive T) n (ds @ left) =
    (if digits_value n ds \<le> t_max T then Inr (Some (digits_value n ds, left)) else report_overflow)"
  using assms(2)
proof (induction ds arbitrary: n)
  case Nil
  with assms(3,4) show ?case by (cases left) simp_all
next
  case (Cons c ds)
  let ?m = "n * 10 + int (digit_val c)"
  from Cons.prems(3) have d: "is_digit_c c" "digit_val c \<le> 9" by (simp_all add: digit_val_le)
  have "\<not> digits_value ?m ds \<le> t_max T" if "\<not> ?m \<le> t_max T"
    using digits_value_ge [of ?m ds] that Cons.prems(1) by simp
  with Cons d assms(1) show ?case
    by (cases "?m \<le> t_max T") (simp_all add: absorb_positive report_overflow_def)
qed

lemma digits_bounded_value:
  assumes "int_type_ok T" "t_signed T" "\<forall>c \<in> set ds. is_digit_c c" "left = [] \<or> \<not> is_digit_c (hd left)"
  shows "0 \<le> n \<Longrightarrow> t_min T \<le> - n \<Longrightarrow> digits_bounded (absorb_digit_negative T) (- n) (ds @ left) =
    (if t_min T \<le> - digits_value n ds then Inr (Some (- digits_value n ds, left)) else report_overflow)"
  using assms(3)
proof (induction ds arbitrary: n)
  case Nil
  with assms(4) show ?case by (cases left) simp_all
next
  case (Cons c ds)
  let ?m = "n * 10 + int (digit_val c)"
  from Cons.prems(3) have d: "is_digit_c c" "digit_val c \<le> 9" by (simp_all add: digit_val_le)
  have "\<not> t_min T \<le> - digits_value ?m ds" if "\<not> t_min T \<le> - ?m"
    using digits_value_ge [of ?m ds] that Cons.prems(1) by simp
  moreover have "absorb_digit_negative T (- n) (int (digit_val c)) =
      (if t_min T \<le> - ?m then Inr (Some (- ?m)) else report_overflow)"
    using absorb_negative [OF assms(1,2), of "- n" "int (digit_val c)"] Cons.prems d by simp
  moreover have "digits_bounded (absorb_digit_negative T) (- ?m) (ds @ left) =
      (if t_min T \<le> - digits_value ?m ds then Inr (Some (- digits_value ?m ds, left)) else report_overflow)"
    if "t_min T \<le> - ?m"
    using Cons.IH [of ?m] Cons.prems that by simp
  ultimately show ?case using d
    by (cases "t_min T \<le> - ?m") (simp_all add: report_overflow_def del: minus_add_distrib)
qed

lemma dropWhile_hd: "dropWhile P xs \<noteq> [] \<Longrightarrow> \<not> P (hd (dropWhile P xs))"
  by (induction xs) auto

lemma digits_split:
  obtains ds left where "s = ds @ left" "\<forall>c \<in> set ds. is_digit_c c" "left = [] \<or> \<not> is_digit_c (hd left)"
    "takeWhile is_digit_c s = ds" "dropWhile is_digit_c s = left"
  using takeWhile_dropWhile_id [of is_digit_c s] dropWhile_hd [of is_digit_c s] set_takeWhileD
  by (metis (no_types, lifting))

text \<open>The two ways through the conversion, by the first character that is not a blank.\<close>

lemma from_string_integer_digits:
  assumes "int_type_ok T" "behind \<noteq> []" "\<not> is_digit_c (hd behind)"
    and "here = dropWhile (\<lambda>c. c = CHR '' '' \<or> c = CHR 0x09) s" "here \<noteq> []" "is_digit_c (hd here)"
  shows "case from_string_arithmetic T s of
      Inr v \<Rightarrow> from_string_integer T s behind = Inr (Some v)
    | Inl _ \<Rightarrow> \<exists>msg. from_string_integer T s behind = Inl (Pqxx_conversion_error msg)"
proof -
  note lim = t_limits [OF assms(1)]
  obtain ds left where s: "here = ds @ left" "\<forall>c \<in> set ds. is_digit_c c" "left = [] \<or> \<not> is_digit_c (hd left)"
    "takeWhile is_digit_c here = ds" "dropWhile is_digit_c here = left" by (rule digits_split)
  have ds: "ds \<noteq> []" using s assms(5,6) by (cases here) auto
  have "hd here \<noteq> CHR ''-''" using assms(6) by (auto simp: is_digit_c_def less_eq_char_def)
  have u: "digits_unbounded (absorb_digit_positive T) 0 (here @ behind) =
      (if digits_value 0 ds \<le> t_max T then Inr (Some (digits_value 0 ds, left @ behind)) else report_overflow)"
    using digits_unbounded_value [OF assms(1) s(2), of "left @ behind" 0] assms(2,3) s(1,3) lim
    by (cases left) auto
  have v: "int (foldl (\<lambda>a c. a * 10 + digit_val c) 0 ds) = digits_value 0 ds"
    using digits_value_int [of 0 ds] by simp
  have "0 \<le> digits_value 0 ds" by (rule digits_value_ge) simp
  moreover have "s \<noteq> []" using assms(4,5) by auto
  ultimately show ?thesis
    using assms(5,6) \<open>hd here \<noteq> CHR ''-''\<close> lim ds
    by (auto simp: from_string_arithmetic_def from_string_integer_def conversion_error_def report_overflow_def Let_def
        assms(4) [symmetric] u v s(4,5))
qed

lemma from_string_integer_minus:
  assumes "int_type_ok T" "t_signed T"
    and "here = dropWhile (\<lambda>c. c = CHR '' '' \<or> c = CHR 0x09) s" "here \<noteq> []" "hd here = CHR ''-''"
  shows "case from_string_arithmetic T s of
      Inr v \<Rightarrow> from_string_integer T s behind = Inr (Some v)
    | Inl _ \<Rightarrow> \<exists>msg. from_string_integer T s behind = Inl (Pqxx_conversion_error msg)"
proof -
  note lim = t_limits [OF assms(1)]
  obtain ds left where s: "tl here = ds @ left" "\<forall>c \<in> set ds. is_digit_c c" "left = [] \<or> \<not> is_digit_c (hd left)"
    "takeWhile is_digit_c (tl here) = ds" "dropWhile is_digit_c (tl here) = left" by (rule digits_split)
  have b: "digits_bounded (absorb_digit_negative T) 0 (tl here) =
    (if t_min T \<le> - digits_value 0 ds then Inr (Some (- digits_value 0 ds, left)) else report_overflow)"
    using digits_bounded_value [OF assms(1) _ s(2,3), of 0] assms(2) s(1) lim by simp
  have v: "int (foldl (\<lambda>a c. a * 10 + digit_val c) 0 ds) = digits_value 0 ds"
    using digits_value_int [of 0 ds] by simp
  have "0 \<le> digits_value 0 ds" by (rule digits_value_ge) simp
  moreover have "ds = [] \<and> tl here \<noteq> [] \<Longrightarrow> left \<noteq> []" "tl here = [] \<Longrightarrow> ds = []" using s(1) by simp_all
  moreover have "s \<noteq> []" "\<not> is_digit_c CHR ''-''" using assms(3,4) by (auto simp: is_digit_c_def less_eq_char_def)
  ultimately show ?thesis
    using assms(2,4,5) lim
    by (auto simp: from_string_arithmetic_def from_string_integer_def conversion_error_def report_overflow_def Let_def
        assms(3) [symmetric] b v s(4,5))
qed

text \<open>
  C22. The hand-written conversion from text to integers, with its overflow checks before every step, agrees with
  \<open>std::from_chars\<close> for every integral type: the same value where there is one and a conversion error in every
  other case, and no operation overflows.  It needs that the byte behind the text is not a digit, because one
  of the two loops runs past the end.
\<close>

theorem from_string_integer_equiv:
  assumes "int_type_ok T" "behind \<noteq> []" "\<not> is_digit_c (hd behind)"
  shows "case from_string_arithmetic T s of
      Inr v \<Rightarrow> from_string_integer T s behind = Inr (Some v)
    | Inl _ \<Rightarrow> \<exists>msg. from_string_integer T s behind = Inl (Pqxx_conversion_error msg)"
proof -
  define here where "here = dropWhile (\<lambda>c. c = CHR '' '' \<or> c = CHR 0x09) s"
  consider "here = []" | "here \<noteq> []" "is_digit_c (hd here)" | "here \<noteq> []" "t_signed T" "hd here = CHR ''-''"
    | "here \<noteq> []" "\<not> is_digit_c (hd here)" "\<not> (t_signed T \<and> hd here = CHR ''-'')" by blast
  then show ?thesis
  proof cases
    case 1
    then show ?thesis
      by (auto simp: from_string_arithmetic_def from_string_integer_def conversion_error_def Let_def here_def [symmetric])
  next
    case 2
    then show ?thesis by (rule from_string_integer_digits [OF assms here_def])
  next
    case 3
    then show ?thesis by (intro from_string_integer_minus [OF assms(1) _ here_def])
  next
    case 4
    then have "takeWhile is_digit_c here = []" "s \<noteq> []" by (cases here; auto simp: here_def)+
    with 4 show ?thesis
      by (auto simp: from_string_arithmetic_def from_string_integer_def conversion_error_def Let_def here_def [symmetric])
  qed
qed

definition cpp_int :: int_type where
  "cpp_int = \<lparr>t_name = ''int'', t_signed = True, t_bits = 32\<rparr>"

lemma cpp_int_simps [simp]: "int_type_ok cpp_int" "t_min cpp_int = - 2147483648" "t_max cpp_int = 2147483647"
  by (simp_all add: int_type_ok_def cpp_int_def t_min_def t_max_def)

lemma from_string_integer_equiv_witness:
  "from_string_integer cpp_int ''-2147483648'' [CHR '')''] = Inr (Some (- 2147483648)) \<and>
   (\<exists>msg. from_string_integer cpp_int ''2147483648'' [CHR '')''] = Inl (Pqxx_conversion_error msg))"
proof
  have nd: "\<not> is_digit_c CHR '')''" by (simp add: is_digit_c_def less_eq_char_def)
  have "from_string_arithmetic cpp_int ''-2147483648'' = Inr (- 2147483648)"
    by (simp add: from_string_arithmetic_def Let_def is_digit_c_def less_eq_char_def digit_val_def, simp add: cpp_int_def)
  with from_string_integer_equiv [of cpp_int "[CHR '')'']" "''-2147483648''"] nd
  show "from_string_integer cpp_int ''-2147483648'' [CHR '')''] = Inr (Some (- 2147483648))" by simp
  have "\<exists>e. from_string_arithmetic cpp_int ''2147483648'' = Inl e"
    by (simp add: from_string_arithmetic_def Let_def is_digit_c_def less_eq_char_def digit_val_def)
  with from_string_integer_equiv [of cpp_int "[CHR '')'']" "''2147483648''"] nd
  show "\<exists>msg. from_string_integer cpp_int ''2147483648'' [CHR '')''] = Inl (Pqxx_conversion_error msg)" by auto
qed

text \<open>Where the byte behind the text is a digit, the hand-written conversion takes it for a part of the number.\<close>

lemma from_string_integer_overread:
  "from_string_integer cpp_int ''1'' ''23,'' = Inr (Some 123) \<and> from_string_arithmetic cpp_int ''1'' = Inr 1"
  by (simp add: from_string_integer_def from_string_arithmetic_def Let_def is_digit_c_def less_eq_char_def digit_val_def
      absorb_positive)

text \<open>The conversion of \<open>int\<close> is the one modelled for \<open>field::as\<close>.\<close>

lemma int_from_string_arithmetic: "from_string_arithmetic cpp_int = int_from_string"
proof
  fix s
  have t: "'' to '' @ t_name cpp_int = '' to int''" "t_signed cpp_int = True" "t_min cpp_int = - (2 ^ 31)" "t_max cpp_int = 2 ^ 31 - 1"
    by (simp_all add: cpp_int_def t_min_def t_max_def)
  show "from_string_arithmetic cpp_int s = int_from_string s"
    by (simp only: from_string_arithmetic_def int_from_string_def INT_MIN_def INT_MAX_def t simp_thms append_assoc)
qed

section \<open>Binary data as text\<close>

definition hex_text :: "8 word list \<Rightarrow> string" where
  "hex_text bs = concat (map (\<lambda>uc. [hex_digit (unat (drop_bit 4 uc)), hex_digit (unat (and uc 0x0f))]) bs)"

lemma hex_text_Cons: "hex_text (uc # bs) = hex_digit (unat (drop_bit 4 uc)) # hex_digit (unat (and uc 0x0f)) # hex_text bs"
  by (simp add: hex_text_def)

lemma length_hex_text [simp]: "length (hex_text bs) = 2 * length bs"
  by (induction bs) (simp_all add: hex_text_def)

lemma put_at: "length a = pos \<Longrightarrow> put (a @ x # b) pos c = Inr (Some (a @ c # b))"
  by (auto simp: put_def)

lemma esc_bin_loop_text:
  "length junk = 2 * length bs + 1 \<Longrightarrow>
   esc_bin_loop bs (a @ junk @ b) (length a) = Inr (Some (a @ hex_text bs @ CHR 0x00 # b))"
proof (induction bs arbitrary: a junk)
  case Nil
  then obtain c where "junk = [c]" by (cases junk) auto
  then show ?case by (simp add: put_at hex_text_def)
next
  case (Cons uc bs)
  then obtain c d j where j: "junk = c # d # j" "length j = 2 * length bs + 1" by (cases junk; cases "tl junk") auto
  let ?h = "hex_digit (unat (drop_bit 4 uc))" and ?l = "hex_digit (unat (and uc 0x0f))"
  have "put (a @ junk @ b) (length a) ?h = Inr (Some (a @ ?h # d # j @ b))" by (simp add: j put_at)
  moreover have "put (a @ ?h # d # j @ b) (length a + 1) ?l = Inr (Some (a @ ?h # ?l # j @ b))"
    using put_at [of "a @ [?h]" "length a + 1" d "j @ b" ?l] by simp
  moreover have "esc_bin_loop bs (a @ ?h # ?l # j @ b) (length a + 2) = Inr (Some (a @ ?h # ?l # hex_text bs @ CHR 0x00 # b))"
    using Cons.IH [of j "a @ [?h, ?l]"] j(2) by simp
  ultimately show ?case by (simp add: hex_text_Cons)
qed

lemma esc_bin_into_text:
  assumes "length junk = size_esc_bin (length bs)"
  shows "esc_bin_into bs (a @ junk @ b) (length a) = Inr (Some (a @ CHR 0x5C # CHR ''x'' # hex_text bs @ CHR 0x00 # b))"
proof -
  obtain c d j where j: "junk = c # d # j" "length j = 2 * length bs + 1"
    using assms by (cases junk; cases "tl junk") (auto simp: size_esc_bin_def)
  have "put (a @ junk @ b) (length a) (CHR 0x5C) = Inr (Some (a @ CHR 0x5C # d # j @ b))" by (simp add: j put_at)
  moreover have "put (a @ CHR 0x5C # d # j @ b) (length a + 1) (CHR ''x'') = Inr (Some (a @ CHR 0x5C # CHR ''x'' # j @ b))"
    using put_at [of "a @ [CHR 0x5C]" "length a + 1" d "j @ b" "CHR ''x''"] by simp
  ultimately show ?thesis
    using esc_bin_loop_text [OF j(2), of "a @ [CHR 0x5C, CHR ''x'']" b] by (simp add: esc_bin_into_def)
qed

lemma nibble_hex_digit: "n < 16 \<Longrightarrow> nibble (of_char (hex_digit n)) = int n"
proof -
  have "list_all (\<lambda>n. nibble (of_char (hex_digit n)) = int n) [0..<16]" by code_simp
  then show "n < 16 \<Longrightarrow> nibble (of_char (hex_digit n)) = int n" by (simp only: list_all_iff set_upt) simp
qed

lemma byte_halves:
  fixes uc :: "8 word"
  shows "or (push_bit 4 (drop_bit 4 uc)) (and uc 0x0f) = uc" "unat (drop_bit 4 uc) < 16" "unat (and uc 0x0f) < 16"
proof -
  have m: "and uc 0x0f = take_bit 4 uc" by (simp add: take_bit_eq_mask mask_eq_exp_minus_1)
  have "bit (or (push_bit 4 (drop_bit 4 uc)) (take_bit 4 uc)) n = bit uc n" for n
    by (auto simp: bit_or_iff bit_push_bit_iff bit_drop_bit_eq bit_take_bit_iff dest: bit_imp_le_length)
  then show "or (push_bit 4 (drop_bit 4 uc)) (and uc 0x0f) = uc" by (simp add: m bit_eq_iff)
  show "unat (drop_bit 4 uc) < 16" using unsigned_less [of uc, where ?'a = nat]
    by (subst unat_drop_bit_eq) (simp add: drop_bit_eq_div less_mult_imp_div_less)
  show "unat (and uc 0x0f) < 16" unfolding m by (subst unsigned_take_bit_eq) (simp_all add: take_bit_eq_mod)
qed

lemma unesc_bin_loop_hex: "length bs \<le> room \<Longrightarrow> unesc_bin_loop (hex_text bs) room = Inr (Some bs)"
proof (induction bs arbitrary: room)
  case (Cons uc bs)
  then show ?case by (simp add: hex_text_Cons nibble_hex_digit byte_halves Let_def)
qed (simp add: hex_text_def)

lemma esc_bin_text: "esc_bin bs = Inr (Some (CHR 0x5C # CHR ''x'' # hex_text bs))"
  using esc_bin_into_text [of "replicate (size_esc_bin (length bs)) CHR 0x00" bs "[]" "[]"]
  by (simp add: esc_bin_def Let_def size_esc_bin_def)

lemma size_unesc_esc: "2 + 2 * n \<le> npos \<Longrightarrow> size_unesc_bin (2 + 2 * n) = n"
  unfolding size_unesc_bin_def by (subst sz_sub_le) simp_all

text \<open>Either outcome of \<open>unesc_bin\<close> on text that starts like escaped data.\<close>

lemma unesc_bin_hex:
  assumes "2 * length bs + 2 \<le> max_size"
  shows "unesc_bin (CHR 0x5C # CHR ''x'' # hex_text bs) = Inr (Some bs)"
proof -
  have n: "length (CHR 0x5C # CHR ''x'' # hex_text bs) = 2 + 2 * length bs" by simp
  have "size_unesc_bin (2 + 2 * length bs) = length bs"
    by (rule size_unesc_esc) (use assms in \<open>simp add: max_size_def npos_def\<close>)
  moreover have "length bs \<le> max_size" using assms by simp
  ultimately show ?thesis unfolding unesc_bin_def n Let_def
    by (simp add: unesc_bin_into_def unesc_bin_loop_hex)
qed

text \<open>
  Escaping and unescaping binary data: the text is \<open>\x\<close> and two hexadecimal digits for every byte, one less
  than the size the buffer gets, and unescaping it gives back the bytes.  Text of fewer than two characters,
  for which a failure exception is provided, ends in the length error of the string that is made for the result,
  because its size wraps around.
\<close>

theorem bytea_roundtrip:
  "(2 * length bs + 2 \<le> max_size \<longrightarrow>
     (\<exists>s. esc_bin bs = Inr (Some s) \<and> length s + 1 = size_esc_bin (length bs) \<and> unesc_bin s = Inr (Some bs))) \<and>
   (length s < 2 \<longrightarrow> unesc_bin s = Inl (Length_error ''basic_string::_M_replace_aux''))"
proof (intro conjI impI)
  assume "2 * length bs + 2 \<le> max_size"
  then show "\<exists>s. esc_bin bs = Inr (Some s) \<and> length s + 1 = size_esc_bin (length bs) \<and> unesc_bin s = Inr (Some bs)"
    by (intro exI [of _ "CHR 0x5C # CHR ''x'' # hex_text bs"]) (simp add: esc_bin_text unesc_bin_hex size_esc_bin_def)
next
  assume "length s < 2"
  then have "length s = 0 \<or> length s = 1" by linarith
  then have "size_unesc_bin (length s) > max_size"
    by (auto simp: size_unesc_bin_def sz_sub_def max_size_def npos_def)
  then show "unesc_bin s = Inl (Length_error ''basic_string::_M_replace_aux'')"
    by (simp add: unesc_bin_def Let_def)
qed

lemma bytea_roundtrip_witness:
  "(\<exists>s. esc_bin [0x00, 0xab, 0xff] = Inr (Some s) \<and> length s + 1 = 9 \<and> unesc_bin s = Inr (Some [0x00, 0xab, 0xff])) \<and>
   unesc_bin [] = Inl (Length_error ''basic_string::_M_replace_aux'')"
proof -
  have "2 * length [0x00, 0xab, 0xff :: 8 word] + 2 \<le> max_size" by (simp add: max_size_def)
  with bytea_roundtrip [of "[0x00, 0xab, 0xff]" "[]"] show ?thesis by (simp add: size_esc_bin_def)
qed

section \<open>The interface of conversions\<close>

text \<open>
  What a type offers for writing it: \<open>string_traits<T>\<close> and \<open>is_unquoted_safe<T>\<close>.
\<close>

record 'e field_type = "'e element_type" +
  is_unquoted_safe :: bool
  size_buffer :: "'e \<Rightarrow> nat"
  to_buf :: "string \<Rightarrow> nat \<Rightarrow> 'e \<Rightarrow> (string \<times> nat \<times> nat) ub_res"
  into_buf :: "string \<Rightarrow> nat \<Rightarrow> 'e \<Rightarrow> (string \<times> nat) ub_res"

text \<open>
  The contract: with as much room as \<open>size_buffer\<close> asks for, \<open>into_buf\<close> writes the text and a zero byte at
  \<open>begin\<close>, \<open>to_buf\<close> gives a view of the text somewhere behind \<open>begin\<close>, and neither touches what is before.
\<close>

definition writes :: "'e field_type \<Rightarrow> 'e \<Rightarrow> string \<Rightarrow> bool" where
  "writes T v s \<longleftrightarrow> length s < size_buffer T v \<and>
     (\<forall>buf begin. begin + size_buffer T v \<le> length buf \<longrightarrow>
       (\<exists>buf'. into_buf T buf begin v = Inr (Some (buf', begin + length s + 1)) \<and> length buf' = length buf \<and>
          take (begin + length s + 1) buf' = take begin buf @ s @ [CHR 0x00]) \<and>
       (\<exists>buf' data. to_buf T buf begin v = Inr (Some (buf', data, length s)) \<and> length buf' = length buf \<and>
          begin \<le> data \<and> data + length s < length buf \<and> take begin buf' = take begin buf \<and>
          take (length s) (drop data buf') = s))"

lemma writes_into:
  "writes T v s \<Longrightarrow> p + size_buffer T v \<le> length buf \<Longrightarrow>
   \<exists>buf'. into_buf T buf p v = Inr (Some (buf', p + length s + 1)) \<and> length buf' = length buf \<and>
     take (p + length s + 1) buf' = take p buf @ s @ [CHR 0x00]"
  by (simp add: writes_def)

lemma writes_view:
  "writes T v s \<Longrightarrow> p + size_buffer T v \<le> length buf \<Longrightarrow>
   \<exists>buf' data. to_buf T buf p v = Inr (Some (buf', data, length s)) \<and> length buf' = length buf \<and>
     p \<le> data \<and> data + length s < length buf \<and> take p buf' = take p buf \<and> take (length s) (drop data buf') = s"
  by (simp add: writes_def)

locale string_traits =
  fixes T :: "'e field_type" and text_of :: "'e \<Rightarrow> string" and has :: "'e \<Rightarrow> bool"
  assumes writes_text: "has v \<Longrightarrow> writes T v (text_of v)"
    and from_text: "has v \<Longrightarrow> from_string T (text_of v) = Inr v"
begin

lemma to_string_roundtrip:
  assumes "has v" "size_buffer T v \<le> length buf"
  shows "\<exists>buf' n. into_buf T buf 0 v = Inr (Some (buf', n)) \<and> from_string T (take (n - 1) buf') = Inr v"
proof -
  from writes_into [OF writes_text [OF assms(1)], of 0 buf] assms(2) obtain buf' where
    "into_buf T buf 0 v = Inr (Some (buf', length (text_of v) + 1))" "take (length (text_of v) + 1) buf' = text_of v @ [CHR 0x00]"
    by auto
  moreover have "take (length (text_of v)) buf' = take (length (text_of v)) (take (length (text_of v) + 1) buf')"
    by (simp add: min_def)
  ultimately show ?thesis using from_text [OF assms(1)] by simp
qed

end

lemma generic_to_buf_text:
  assumes "w buf begin v = Inr (Some (buf', begin + length s + 1))" "length buf' = length buf"
    "take (begin + length s + 1) buf' = take begin buf @ s @ [CHR 0x00]" "begin + length s + 1 \<le> length buf"
  shows "generic_to_buf w buf begin v = Inr (Some (buf', begin, length s)) \<and>
    take begin buf' = take begin buf \<and> take (length s) (drop begin buf') = s"
proof -
  have "take begin (take (begin + length s + 1) buf') = take begin (take begin buf @ s @ [CHR 0x00])"
    "take (length s) (drop begin (take (begin + length s + 1) buf')) = take (length s) (drop begin (take begin buf @ s @ [CHR 0x00]))"
    by (simp_all only: assms(3))
  moreover have "take (length s) (drop begin (take (begin + length s + 1) buf')) = take (length s) (drop begin buf')"
    by (simp add: drop_take min_def)
  ultimately show ?thesis using assms(1,4) by (simp add: generic_to_buf_def min_def)
qed

text \<open>Types whose \<open>to_buf\<close> is built on \<open>into_buf\<close>.\<close>

lemma writes_generic:
  assumes "to_buf T = generic_to_buf (into_buf T)" "length s < size_buffer T v"
    and "\<And>buf p. p + size_buffer T v \<le> length buf \<Longrightarrow>
      \<exists>buf'. into_buf T buf p v = Inr (Some (buf', p + length s + 1)) \<and> length buf' = length buf \<and>
        take (p + length s + 1) buf' = take p buf @ s @ [CHR 0x00]"
  shows "writes T v s"
  unfolding writes_def
proof (intro conjI allI impI)
  fix buf :: string and p
  assume room: "p + size_buffer T v \<le> length buf"
  from assms(3) [OF this] obtain buf' where b: "into_buf T buf p v = Inr (Some (buf', p + length s + 1))"
    "length buf' = length buf" "take (p + length s + 1) buf' = take p buf @ s @ [CHR 0x00]" by blast
  then show "\<exists>buf'. into_buf T buf p v = Inr (Some (buf', p + length s + 1)) \<and> length buf' = length buf \<and>
    take (p + length s + 1) buf' = take p buf @ s @ [CHR 0x00]" by blast
  have l: "p + length s + 1 \<le> length buf" using room assms(2) by simp
  from generic_to_buf_text [of "into_buf T", OF b l] b(2) l
  show "\<exists>buf' data. to_buf T buf p v = Inr (Some (buf', data, length s)) \<and> length buf' = length buf \<and>
     p \<le> data \<and> data + length s < length buf \<and> take p buf' = take p buf \<and> take (length s) (drop data buf') = s"
    unfolding assms(1) by (intro exI [of _ buf'] exI [of _ p]) simp
qed (rule assms(2))

text \<open>Strings.\<close>

definition string_type :: "string field_type" where
  "string_type = \<lparr>from_string = Inr, null_value = None, type_name = ''std::string'', is_unquoted_safe = False,
     size_buffer = string_size_buffer, to_buf = generic_to_buf string_into_buf, into_buf = string_into_buf\<rparr>"

lemma string_type_simps [simp]:
  "from_string string_type = Inr" "is_unquoted_safe string_type = False" "size_buffer string_type = string_size_buffer"
  "to_buf string_type = generic_to_buf string_into_buf" "into_buf string_type = string_into_buf"
  by (simp_all add: string_type_def)

interpretation str: string_traits string_type "\<lambda>v. v" "\<lambda>_. True"
proof
  fix v :: string
  show "writes string_type v v"
  proof (rule writes_generic)
    fix buf :: string and p
    assume "p + size_buffer string_type v \<le> length buf"
    then have l: "p + length (v @ [CHR 0x00]) \<le> length buf" by (simp add: string_size_buffer_def)
    then have "string_into_buf buf p v = Inr (Some (blit buf p (v @ [CHR 0x00]), p + length v + 1))"
      by (simp add: string_into_buf_def)
    with l take_blit [OF l] show "\<exists>buf'. into_buf string_type buf p v = Inr (Some (buf', p + length v + 1)) \<and>
      length buf' = length buf \<and> take (p + length v + 1) buf' = take p buf @ v @ [CHR 0x00]" by simp
  qed (simp_all add: string_size_buffer_def)
qed simp

text \<open>\<open>unesc_bin\<close> stays inside its buffers.\<close>

lemma unesc_bin_loop_defined: "length s = 2 * room \<Longrightarrow> unesc_bin_loop s room \<noteq> Inr None"
proof (induction s room rule: unesc_bin_loop.induct)
  case (3 c d input room)
  then have "length input = 2 * (room - 1)" by (cases room) simp_all
  with 3 show ?case by (auto simp: Let_def bindU_def split: sum.split option.split)
qed simp_all

lemma unesc_bin_defined:
  assumes "length s \<le> npos"
  shows "unesc_bin s \<noteq> Inr None"
proof (cases "length s < 2 \<or> length s mod 2 \<noteq> 0")
  case True
  then show ?thesis by (auto simp: unesc_bin_def unesc_bin_into_def Let_def)
next
  case False
  then have "length (drop 2 s) = 2 * size_unesc_bin (length s)"
    using assms by (simp add: size_unesc_bin_def) presburger
  from unesc_bin_loop_defined [OF this] show ?thesis
    by (auto simp: unesc_bin_def unesc_bin_into_def Let_def)
qed

text \<open>
  Binary data, where it is short enough to be converted back.  The outcome that is mapped to \<open>Bad_alloc\<close> does not
  occur.
\<close>

definition bytes_type :: "8 word list field_type" where
  "bytes_type = \<lparr>from_string = (\<lambda>s. case unesc_bin s of Inl e \<Rightarrow> Inl e | Inr None \<Rightarrow> Inl Bad_alloc | Inr (Some bs) \<Rightarrow> Inr bs),
     null_value = None, type_name = ''std::basic_string<std::byte>'', is_unquoted_safe = False,
     size_buffer = (\<lambda>v. size_esc_bin (length v)), to_buf = generic_to_buf binary_into_buf, into_buf = binary_into_buf\<rparr>"

lemma bytes_type_simps [simp]:
  "is_unquoted_safe bytes_type = False" "size_buffer bytes_type v = size_esc_bin (length v)"
  "to_buf bytes_type = generic_to_buf binary_into_buf" "into_buf bytes_type = binary_into_buf"
  by (simp_all add: bytes_type_def)

interpretation bin: string_traits bytes_type "\<lambda>v. CHR 0x5C # CHR ''x'' # hex_text v" "\<lambda>v. 2 * length v + 2 \<le> max_size"
proof
  fix v :: "8 word list"
  assume "2 * length v + 2 \<le> max_size"
  then show "from_string bytes_type (CHR 0x5C # CHR ''x'' # hex_text v) = Inr v"
    by (simp add: bytes_type_def unesc_bin_hex)
  let ?s = "CHR 0x5C # CHR ''x'' # hex_text v"
  show "writes bytes_type v ?s"
  proof (rule writes_generic)
    fix buf :: string and p
    assume "p + size_buffer bytes_type v \<le> length buf"
    then have l: "p + size_esc_bin (length v) \<le> length buf" by simp
    let ?a = "take p buf" and ?j = "take (size_esc_bin (length v)) (drop p buf)"
      and ?b = "drop (p + size_esc_bin (length v)) buf"
    have "buf = ?a @ ?j @ ?b" by (metis append_take_drop_id drop_drop add.commute)
    then have "esc_bin_into v buf p = Inr (Some (?a @ CHR 0x5C # CHR ''x'' # hex_text v @ CHR 0x00 # ?b))"
      using esc_bin_into_text [of ?j v ?a ?b] l by simp
    moreover have "take (length (?a @ ?s @ [CHR 0x00])) ((?a @ ?s @ [CHR 0x00]) @ ?b) = ?a @ ?s @ [CHR 0x00]" by (rule take_prefix) (rule refl)
    moreover have "length (?a @ ?s @ [CHR 0x00]) = p + length ?s + 1" "length ?s + 1 = size_esc_bin (length v)"
      using l by (simp_all add: size_esc_bin_def)
    ultimately show "\<exists>buf'. into_buf bytes_type buf p v = Inr (Some (buf', p + length ?s + 1)) \<and>
      length buf' = length buf \<and> take (p + length ?s + 1) buf' = take p buf @ ?s @ [CHR 0x00]"
      using l by (simp add: binary_into_buf_def Let_def add.assoc)
  qed (simp_all add: size_esc_bin_def)
qed

text \<open>
  Integers, for either implementation of \<open>into_buf\<close>.  They are right-aligned by \<open>to_buf\<close>.
\<close>

definition integer_type :: "int_type \<Rightarrow> bool \<Rightarrow> int field_type" where
  "integer_type T have_charconv = \<lparr>from_string = from_string_arithmetic T, null_value = None, type_name = t_name T,
     is_unquoted_safe = True, size_buffer = (\<lambda>_. int_size_buffer T), to_buf = int_to_buf T,
     into_buf = (if have_charconv then wrap_to_chars T else generic_into_buf (t_name T) (int_to_buf T))\<rparr>"

lemma int_to_string_length:
  assumes "int_type_ok T" "t_min T \<le> v" "v \<le> t_max T"
  shows "length (int_to_string v) < int_size_buffer T"
proof -
  have "0 \<le> v" if "\<not> t_signed T" using that assms(2) by (simp add: t_min_def)
  with digits_fit [OF assms] show ?thesis by (cases "v < 0") (auto simp: int_to_string_def int_size_buffer_def)
qed

lemma from_string_int_to_string:
  assumes "int_type_ok T" "t_min T \<le> v" "v \<le> t_max T"
  shows "from_string_arithmetic T (int_to_string v) = Inr v"
proof -
  let ?n = "nat_to_string (nat \<bar>v\<bar>)"
  have d: "\<forall>c \<in> set ?n. is_digit_c c" by (rule nat_to_string_digits)
  then have hd: "is_digit_c (hd ?n)" by simp
  then have h: "hd ?n \<noteq> CHR '' ''" "hd ?n \<noteq> CHR 0x09" "hd ?n \<noteq> CHR ''-''"
    by (auto simp: is_digit_c_def less_eq_char_def)
  have w: "takeWhile is_digit_c ?n = ?n" "dropWhile is_digit_c ?n = []"
    using d by (rule takeWhile_all, rule dropWhile_all)
  show ?thesis
  proof (cases "v < 0")
    case True
    then have "t_signed T" using assms(2) by (cases "t_signed T") (simp_all add: t_min_def)
    moreover have "nat \<bar>v\<bar> = nat (- v)" using True by simp
    note w = w [unfolded this]
    ultimately show ?thesis using True assms
      by (simp add: w from_string_arithmetic_def int_to_string_def Let_def foldl_digits_nat_to_string del: dropWhile_eq_Nil_conv)
  next
    case False
    then have "dropWhile (\<lambda>c. c = CHR '' '' \<or> c = CHR 0x09) ?n = ?n" using h by (simp add: dropWhile_none)
    moreover have n: "nat \<bar>v\<bar> = nat v" using False by simp
    ultimately show ?thesis using False h(3) assms
      by (simp add: w [unfolded n] from_string_arithmetic_def int_to_string_def Let_def foldl_digits_nat_to_string del: dropWhile_eq_Nil_conv)
  qed
qed

lemma integer_writes:
  assumes "int_type_ok T" "t_min T \<le> v" "v \<le> t_max T"
  shows "writes (integer_type T cc) v (int_to_string v)"
  unfolding writes_def
proof (intro conjI allI impI)
  let ?s = "int_to_string v"
  show len: "length ?s < size_buffer (integer_type T cc) v"
    using int_to_string_length [OF assms] by (simp add: integer_type_def)
  fix buf :: string and p
  assume "p + size_buffer (integer_type T cc) v \<le> length buf"
  then have room: "p + int_size_buffer T \<le> length buf" by (simp add: integer_type_def)
  from int_to_buf_text [OF assms room] obtain a where
    a: "int_to_buf T buf p v = Inr (Some (a @ ?s @ [CHR 0x00], length a, length ?s))" "p \<le> length a"
      "length a + length ?s + 1 = length buf" "take p a = take p buf" by blast
  from a show "\<exists>buf' data. to_buf (integer_type T cc) buf p v = Inr (Some (buf', data, length ?s)) \<and>
     length buf' = length buf \<and> p \<le> data \<and> data + length ?s < length buf \<and> take p buf' = take p buf \<and>
     take (length ?s) (drop data buf') = ?s" by (simp add: integer_type_def)
  show "\<exists>buf'. into_buf (integer_type T cc) buf p v = Inr (Some (buf', p + length ?s + 1)) \<and>
     length buf' = length buf \<and> take (p + length ?s + 1) buf' = take p buf @ ?s @ [CHR 0x00]"
  proof (cases cc)
    case True
    have l: "p + length (?s @ [CHR 0x00]) \<le> length buf" using len room by (simp add: integer_type_def)
    then have "wrap_to_chars T buf p v = Inr (Some (blit buf p (?s @ [CHR 0x00]), p + length ?s + 1))"
      by (simp add: wrap_to_chars_def Let_def)
    with l take_blit [OF l] True show ?thesis by (simp add: integer_type_def)
  next
    case False
    with generic_into_buf_text [of "int_to_buf T" buf p v a ?s "t_name T"] a show ?thesis by (simp add: integer_type_def)
  qed
qed

interpretation int: string_traits "integer_type cpp_int cc" int_to_string "\<lambda>v. - 2147483648 \<le> v \<and> v \<le> 2147483647"
  by unfold_locales (use integer_writes [of cpp_int] from_string_int_to_string [of cpp_int] in \<open>simp_all add: integer_type_def\<close>)

text \<open>
  Integers of any of the library's types, the lowest one of a signed type included, are written in decimal by
  both implementations, inside of the space that \<open>size_buffer\<close> asks for and without overflow, and read back as the
  same value.
\<close>

theorem integer_text:
  assumes "int_type_ok T" "t_min T \<le> v" "v \<le> t_max T" "begin + int_size_buffer T \<le> length buf"
  shows "\<exists>a b. wrap_to_chars T buf begin v = Inr (Some (take begin buf @ int_to_string v @ CHR 0x00 # a, begin + length (int_to_string v) + 1)) \<and>
    generic_into_buf (t_name T) (int_to_buf T) buf begin v =
      Inr (Some (take begin buf @ int_to_string v @ CHR 0x00 # b, begin + length (int_to_string v) + 1)) \<and>
    from_string_arithmetic T (int_to_string v) = Inr v"
proof -
  have one: "\<exists>a. into_buf (integer_type T cc) buf begin v =
      Inr (Some (take begin buf @ int_to_string v @ CHR 0x00 # a, begin + length (int_to_string v) + 1))" for cc
  proof -
    from writes_into [OF integer_writes [OF assms(1-3)], where p = "begin" and buf = buf] assms(4) obtain buf' where
      b: "into_buf (integer_type T cc) buf begin v = Inr (Some (buf', begin + length (int_to_string v) + 1))"
      "take (begin + length (int_to_string v) + 1) buf' = take begin buf @ int_to_string v @ [CHR 0x00]"
      by (auto simp: integer_type_def)
    then have "buf' = (take begin buf @ int_to_string v @ [CHR 0x00]) @ drop (begin + length (int_to_string v) + 1) buf'"
      by (metis append_take_drop_id)
    with b(1) show ?thesis by auto
  qed
  from one [of True] one [of False] from_string_int_to_string [OF assms(1-3)] show ?thesis
    by (simp add: integer_type_def)
qed

lemma digit_char_values:
  "digit_char 0 = CHR ''0''" "digit_char (Suc 0) = CHR ''1''" "digit_char 2 = CHR ''2''" "digit_char 3 = CHR ''3''"
  "digit_char 4 = CHR ''4''" "digit_char 5 = CHR ''5''" "digit_char 6 = CHR ''6''" "digit_char 7 = CHR ''7''"
  "digit_char 8 = CHR ''8''" "digit_char 9 = CHR ''9''"
  by (simp_all add: digit_char_def char_of_def bit_numeral_rec bit_Suc_0_iff)

lemma integer_text_witness:
  "\<exists>a. generic_into_buf ''int'' (int_to_buf cpp_int) (replicate 14 CHR ''.'') 2 (- 2147483648) =
     Inr (Some (''..-2147483648'' @ CHR 0x00 # a, 14))"
proof -
  have s: "int_to_string (- 2147483648) = ''-2147483648''"
    by (simp add: int_to_string_def nat_to_string.simps digit_char_values)
  have "int_size_buffer cpp_int = 12" by (simp add: int_size_buffer_def digits10_values cpp_int_def)
  then have "2 + int_size_buffer cpp_int \<le> length (replicate 14 CHR ''.'')" by simp
  from integer_text [OF cpp_int_simps(1) _ _ this, of "- 2147483648"] obtain b where
    "generic_into_buf (t_name cpp_int) (int_to_buf cpp_int) (replicate 14 CHR ''.'') 2 (- 2147483648) =
      Inr (Some (take 2 (replicate 14 CHR ''.'') @ int_to_string (- 2147483648) @ CHR 0x00 # b, 2 + length (int_to_string (- 2147483648)) + 1))"
    by auto
  moreover have "take 2 (replicate 14 CHR ''.'') = ''..''" by (simp add: numeral_eq_Suc)
  moreover have "t_name cpp_int = ''int''" by (simp add: cpp_int_def)
  ultimately show ?thesis unfolding s by auto
qed

end
