(* ===== verification/Pqxx_Date.thy ===== *)
theory Pqxx_Date
  imports Pqxx_Conversions
begin

text \<open>
  Dates and their text in ISO format: \<open>src/time.cxx\<close> and \<open>include/pqxx/time.hxx\<close>.  The years of C++ have a year
  zero, those of the text have none and are marked \<open>BC\<close> at the end.  Buffers are as in \<open>Pqxx_Conversions\<close>.
\<close>

section \<open>The types of \<open>std::chrono\<close>\<close>

text \<open>A year is a \<open>short\<close>, a month and a day are an \<open>unsigned char\<close>; the constructors truncate what they get.\<close>

record date =
  year :: int
  month :: nat
  day :: nat

definition to_short :: "int \<Rightarrow> int" where
  "to_short n = (n + 32768) mod 65536 - 32768"

definition make_date :: "int \<Rightarrow> nat \<Rightarrow> nat \<Rightarrow> date" where
  "make_date y m d = \<lparr>year = to_short y, month = m mod 256, day = d mod 256\<rparr>"

definition year_min :: int where
  "year_min = - 32767"

definition is_leap :: "int \<Rightarrow> bool" where
  "is_leap y \<longleftrightarrow> y mod 4 = 0 \<and> (y mod 100 \<noteq> 0 \<or> y mod 400 = 0)"

definition last_day :: "int \<Rightarrow> nat \<Rightarrow> nat" where
  "last_day y m = (if m = 2 then (if is_leap y then 29 else 28) else if m \<in> {4, 6, 9, 11} then 30 else 31)"

definition day_ok :: "nat \<Rightarrow> bool" where
  "day_ok d \<longleftrightarrow> 1 \<le> d \<and> d \<le> 31"

definition date_ok :: "date \<Rightarrow> bool" where
  "date_ok v \<longleftrightarrow> year_min \<le> year v \<and> year v \<le> 32767 \<and> 1 \<le> month v \<and> month v \<le> 12 \<and>
     1 \<le> day v \<and> day v \<le> last_day (year v) (month v)"

section \<open>Writing\<close>

definition s_bc :: string where
  "s_bc = '' BC''"

definition date_size_buffer :: nat where
  "date_size_buffer = 5 + 1 + 2 + 1 + 2 + length s_bc + 1"

text \<open>\<open>string_view::copy\<close> to a position in the buffer.\<close>

definition copy_to :: "string \<Rightarrow> nat \<Rightarrow> string \<Rightarrow> (string \<times> nat) ub_res" where
  "copy_to buf pos s =
     (if pos + length s \<le> length buf then Inr (Some (blit buf pos s, pos + length s)) else Inr None)"

text \<open>\<open>*begin++ = c\<close>, and a run of them.\<close>

definition put_next :: "string \<Rightarrow> nat \<Rightarrow> char \<Rightarrow> (string \<times> nat) ub_res" where
  "put_next buf pos c = bindU (put buf pos c) (\<lambda>buf. Inr (Some (buf, pos + 1)))"

primrec put_all :: "string \<Rightarrow> nat \<Rightarrow> string \<Rightarrow> (string \<times> nat) ub_res" where
  "put_all buf pos [] = Inr (Some (buf, pos))"
| "put_all buf pos (c # cs) = bindU (put_next buf pos c) (\<lambda>(buf, pos). put_all buf pos cs)"

definition cpp_short :: int_type where
  "cpp_short = \<lparr>t_name = ''short'', t_signed = True, t_bits = 16\<rparr>"

text \<open>With and without \<open>std::to_chars\<close>, as for the other integers.\<close>

definition year_into_buf :: "bool \<Rightarrow> string \<Rightarrow> nat \<Rightarrow> int \<Rightarrow> (string \<times> nat) ub_res" where
  "year_into_buf have_charconv buf begin y =
     (if y = year_min then copy_to buf begin ''32768''
      else
        let absy = to_short (\<bar>y\<bar> + of_bool (y \<le> 0)) in
        bindU (if absy < 1000 then
                 put_all buf begin (''0'' @ (if absy < 100 then ''0'' else []) @ (if absy < 10 then ''0'' else []))
               else Inr (Some (buf, begin))) (\<lambda>(buf, begin).
        bindU (into_buf (integer_type cpp_short have_charconv) buf begin absy) (\<lambda>(buf, en).
        Inr (Some (buf, en - 1)))))"

definition number_to_digit :: "nat \<Rightarrow> char" where
  "number_to_digit i = char_of (i + 48)"

definition month_into_buf :: "string \<Rightarrow> nat \<Rightarrow> nat \<Rightarrow> (string \<times> nat) ub_res" where
  "month_into_buf buf begin m =
     bindU (if m \<ge> 10 then put_next buf begin (CHR ''1'') else put_next buf begin (CHR ''0'')) (\<lambda>(buf, begin).
     put_next buf begin (number_to_digit (m mod 10)))"

definition day_into_buf :: "string \<Rightarrow> nat \<Rightarrow> nat \<Rightarrow> (string \<times> nat) ub_res" where
  "day_into_buf buf begin d =
     bindU (put_next buf begin (number_to_digit (d div 10))) (\<lambda>(buf, begin).
     put_next buf begin (number_to_digit (d mod 10)))"

definition date_into_buf :: "bool \<Rightarrow> string \<Rightarrow> nat \<Rightarrow> date \<Rightarrow> (string \<times> nat) ub_res" where
  "date_into_buf have_charconv buf begin v =
     (if int (length buf) - int begin < int date_size_buffer then
        Inl (Pqxx_conversion_overrun ''Not enough room in buffer for date.'')
      else
        bindU (year_into_buf have_charconv buf begin (year v)) (\<lambda>(buf, begin).
        bindU (put_next buf begin (CHR ''-'')) (\<lambda>(buf, begin).
        bindU (month_into_buf buf begin (month v)) (\<lambda>(buf, begin).
        bindU (put_next buf begin (CHR ''-'')) (\<lambda>(buf, begin).
        bindU (day_into_buf buf begin (day v)) (\<lambda>(buf, begin).
        bindU (if year v \<le> 0 then copy_to buf begin s_bc else Inr (Some (buf, begin))) (\<lambda>(buf, begin).
        put_next buf begin (CHR 0x00))))))))"

section \<open>Reading\<close>

definition year_from_buf :: "string \<Rightarrow> int res" where
  "year_from_buf text =
     (if length text < 4 then conversion_error (''Year field is too small: '' @ quoted_name text @ ''.'')
      else bindR (from_string_arithmetic cpp_int text) (\<lambda>year.
        if year \<le> 0 then conversion_error (''Bad year: '' @ quoted_name text @ ''.'') else Inr year))"

text \<open>A month and a day are views of two bytes.\<close>

definition month_from_string :: "string \<Rightarrow> nat res" where
  "month_from_string text =
     (if \<not> is_digit_c (text ! 0) \<or> \<not> is_digit_c (text ! 1) then
        conversion_error (''Invalid month: '' @ quoted_name text @ ''.'')
      else Inr (10 * digit_val (text ! 0) + digit_val (text ! 1)))"

definition day_from_string :: "string \<Rightarrow> nat res" where
  "day_from_string text =
     (let bad = conversion_error (''Bad day in date: '' @ quoted_name text @ ''.'') in
      if \<not> is_digit_c (text ! 0) \<or> \<not> is_digit_c (text ! 1) then bad
      else
        let d = 10 * digit_val (text ! 0) + digit_val (text ! 1) in
        if \<not> day_ok d then bad else Inr d)"

definition find_year_month_separator :: "string \<Rightarrow> nat" where
  "find_year_month_separator text = length (takeWhile (\<lambda>c. c \<noteq> CHR ''-'') text)"

definition make_parse_error :: "string \<Rightarrow> string" where
  "make_parse_error text = ''Invalid date: '' @ quoted_name text @ ''.''"

definition ends_with :: "string \<Rightarrow> string \<Rightarrow> bool" where
  "ends_with text s \<longleftrightarrow> length s \<le> length text \<and> drop (length text - length s) text = s"

definition date_from_string :: "string \<Rightarrow> date res" where
  "date_from_string text =
     (if length text < 9 then conversion_error (make_parse_error text)
      else
        let is_bc = ends_with text s_bc;
            text = (if is_bc then take (length text - length s_bc) text else text);
            ymsep = find_year_month_separator text in
        if length text - ymsep \<noteq> 6 then conversion_error (make_parse_error text)
        else
          bindR (year_from_buf (take ymsep text)) (\<lambda>base_year.
          if base_year = 0 then conversion_error ''Year zero conversion.''
          else
            let y = (if is_bc then - base_year + 1 else base_year) in
            bindR (month_from_string (take 2 (drop (ymsep + 1) text))) (\<lambda>m.
            if text ! (ymsep + 3) \<noteq> CHR ''-'' then conversion_error (make_parse_error text)
            else
              bindR (day_from_string (take 2 (drop (ymsep + 4) text))) (\<lambda>d.
              let date = make_date y m d in
              if \<not> date_ok date then conversion_error (make_parse_error text) else Inr date))))"

definition date_type :: "bool \<Rightarrow> date field_type" where
  "date_type have_charconv = \<lparr>from_string = date_from_string, null_value = None, type_name = ''std::chrono::year_month_day'',
     is_unquoted_safe = False, size_buffer = (\<lambda>_. date_size_buffer),
     to_buf = generic_to_buf (date_into_buf have_charconv), into_buf = date_into_buf have_charconv\<rparr>"

section \<open>The text of a date\<close>

text \<open>The year as the calendar of the server counts it, in at least four digits.\<close>

definition calendar_year :: "int \<Rightarrow> nat" where
  "calendar_year y = nat (if y \<le> 0 then 1 - y else y)"

definition year_digits :: "nat \<Rightarrow> string" where
  "year_digits n = replicate (4 - length (nat_to_string n)) (CHR ''0'') @ nat_to_string n"

definition two_digits :: "nat \<Rightarrow> string" where
  "two_digits n = [digit_char (n div 10), digit_char (n mod 10)]"

definition date_text :: "date \<Rightarrow> string" where
  "date_text v = year_digits (calendar_year (year v)) @ ''-'' @ two_digits (month v) @ ''-'' @ two_digits (day v) @
     (if year v \<le> 0 then s_bc else [])"

section \<open>What is written\<close>

text \<open>The buffer \<open>buf\<close> holds what \<open>buf0\<close> did before \<open>b\<close>, then \<open>s\<close>, up to \<open>p\<close>.\<close>

definition wrote :: "string \<Rightarrow> nat \<Rightarrow> string \<Rightarrow> string \<Rightarrow> nat \<Rightarrow> bool" where
  "wrote buf0 b s buf p \<longleftrightarrow>
     length buf = length buf0 \<and> p = b + length s \<and> p \<le> length buf \<and> take p buf = take b buf0 @ s"

lemma wrote_start: "b \<le> length buf0 \<Longrightarrow> wrote buf0 b [] buf0 b"
  by (simp add: wrote_def)

lemma put_next_wrote:
  "wrote buf0 b s buf p \<Longrightarrow> p < length buf0 \<Longrightarrow> \<exists>buf'. put_next buf p c = Inr (Some (buf', Suc p)) \<and> wrote buf0 b (s @ [c]) buf' (Suc p)"
  by (auto simp: wrote_def put_next_def put_def take_Suc_conv_app_nth)

lemma put_all_wrote:
  "wrote buf0 b s buf p \<Longrightarrow> p + length cs \<le> length buf0 \<Longrightarrow>
   \<exists>buf'. put_all buf p cs = Inr (Some (buf', p + length cs)) \<and> wrote buf0 b (s @ cs) buf' (p + length cs)"
proof (induction cs arbitrary: s buf p)
  case (Cons c cs)
  from put_next_wrote [OF Cons.prems(1), of c] Cons.prems(2) obtain buf1 where
    b: "put_next buf p c = Inr (Some (buf1, Suc p))" "wrote buf0 b (s @ [c]) buf1 (Suc p)" by auto
  from Cons.IH [OF b(2)] Cons.prems(2) b(1) show ?case by simp
qed simp

lemma copy_to_wrote:
  assumes "wrote buf0 b s buf p" "p + length cs \<le> length buf0"
  shows "\<exists>buf'. copy_to buf p cs = Inr (Some (buf', p + length cs)) \<and> wrote buf0 b (s @ cs) buf' (p + length cs)"
  using assms take_blit [of p cs buf] by (auto simp: wrote_def copy_to_def)

lemma number_to_digit_char: "number_to_digit n = digit_char n"
  by (simp add: number_to_digit_def digit_char_def add.commute)

lemma month_into_buf_wrote:
  assumes "wrote buf0 b s buf p" "p + 2 \<le> length buf0" "m \<le> 12"
  shows "\<exists>buf'. month_into_buf buf p m = Inr (Some (buf', p + 2)) \<and> wrote buf0 b (s @ two_digits m) buf' (p + 2)"
proof -
  have d: "digit_char (m div 10) = (if m \<ge> 10 then CHR ''1'' else CHR ''0'')"
  proof (cases "m \<ge> 10")
    case True
    with assms(3) have "m div 10 = 1" by (simp add: div_nat_eqI)
    with True show ?thesis by (simp add: digit_char_values)
  qed (simp add: digit_char_values)
  from put_next_wrote [OF assms(1), of "digit_char (m div 10)"] assms(2) obtain buf1 where
    b: "put_next buf p (digit_char (m div 10)) = Inr (Some (buf1, Suc p))" "wrote buf0 b (s @ [digit_char (m div 10)]) buf1 (Suc p)" by auto
  from put_next_wrote [OF b(2), of "digit_char (m mod 10)"] assms(2) b(1) show ?thesis
    by (auto simp: month_into_buf_def two_digits_def number_to_digit_char d split: if_splits)
qed

lemma day_into_buf_wrote:
  assumes "wrote buf0 b s buf p" "p + 2 \<le> length buf0"
  shows "\<exists>buf'. day_into_buf buf p d = Inr (Some (buf', p + 2)) \<and> wrote buf0 b (s @ two_digits d) buf' (p + 2)"
proof -
  from put_next_wrote [OF assms(1), of "digit_char (d div 10)"] assms(2) obtain buf1 where
    b: "put_next buf p (digit_char (d div 10)) = Inr (Some (buf1, Suc p))" "wrote buf0 b (s @ [digit_char (d div 10)]) buf1 (Suc p)" by auto
  from put_next_wrote [OF b(2), of "digit_char (d mod 10)"] assms(2) b(1) show ?thesis
    by (auto simp: day_into_buf_def two_digits_def number_to_digit_char)
qed

lemma cpp_short_simps [simp]: "int_type_ok cpp_short" "t_min cpp_short = - 32768" "t_max cpp_short = 32767"
  by (simp_all add: cpp_short_def int_type_ok_def t_min_def t_max_def)

lemma to_short_id: "- 32768 \<le> n \<Longrightarrow> n \<le> 32767 \<Longrightarrow> to_short n = n"
  by (simp add: to_short_def)

lemma to_short_wrap: "to_short (n + 65536) = to_short n"
proof -
  have "n + 65536 + 32768 = (n + 32768) + 65536" by simp
  then show ?thesis unfolding to_short_def by (simp only: mod_add_self2)
qed

lemma nat_to_string_length_eq:
  "n < 10 \<Longrightarrow> length (nat_to_string n) = 1"
  "10 \<le> n \<Longrightarrow> n < 100 \<Longrightarrow> length (nat_to_string n) = 2"
  "100 \<le> n \<Longrightarrow> n < 1000 \<Longrightarrow> length (nat_to_string n) = 3"
  "1000 \<le> n \<Longrightarrow> 4 \<le> length (nat_to_string n)"
proof -
  have one: "length (nat_to_string n) = 1" if "n < 10" for n using that by (subst nat_to_string.simps) simp
  have more: "length (nat_to_string n) = length (nat_to_string (n div 10)) + 1" if "10 \<le> n" for n
    using that by (subst nat_to_string.simps) simp
  have "length (nat_to_string n) \<noteq> 0" for n by (subst nat_to_string.simps) simp
  then have pos: "1 \<le> length (nat_to_string n)" for n by (simp add: Suc_le_eq)
  show "n < 10 \<Longrightarrow> length (nat_to_string n) = 1" by (rule one)
  show two: "10 \<le> n \<Longrightarrow> n < 100 \<Longrightarrow> length (nat_to_string n) = 2" for n
    using more [of n] one [of "n div 10"] by simp
  show "100 \<le> n \<Longrightarrow> n < 1000 \<Longrightarrow> length (nat_to_string n) = 3"
    using more [of n] two [of "n div 10"] by simp
  show "1000 \<le> n \<Longrightarrow> 4 \<le> length (nat_to_string n)"
    using more [of n] more [of "n div 10"] more [of "n div 10 div 10"] pos [of "n div 10 div 10 div 10"] by simp
qed

text \<open>The zeros in front of a year.\<close>

lemma year_zeros:
  "replicate (4 - length (nat_to_string n)) (CHR ''0'') =
   (if n < 1000 then ''0'' @ (if n < 100 then ''0'' else []) @ (if n < 10 then ''0'' else []) else [])"
proof -
  have r: "replicate 3 c = [c, c, c]" "replicate 2 c = [c, c]" "replicate 1 c = [c]" for c :: char
    by (simp_all add: numeral_eq_Suc)
  consider "n < 10" | "10 \<le> n" "n < 100" | "100 \<le> n" "n < 1000" | "1000 \<le> n" by linarith
  then show ?thesis
    by cases (use nat_to_string_length_eq [of n] r [of "CHR ''0''"] in simp_all)
qed

lemma take_snoc: "take (q + 1) xs = ys @ [c] \<Longrightarrow> length ys = q \<Longrightarrow> take q xs = ys"
  by (drule arg_cong [of _ _ "take q"]) (simp add: min_def)

lemma year_into_buf_wrote:
  assumes "wrote buf0 b s buf p" "p + 10 \<le> length buf0" "year_min \<le> y" "y \<le> 32767"
  shows "\<exists>buf' q. year_into_buf cc buf p y = Inr (Some (buf', q)) \<and> q \<le> p + 5 \<and>
    wrote buf0 b (s @ year_digits (calendar_year y)) buf' q"
proof (cases "y = year_min")
  case True
  then have "year_digits (calendar_year y) = ''32768''"
    by (simp add: year_digits_def calendar_year_def year_min_def nat_to_string.simps digit_char_values)
  with True copy_to_wrote [OF assms(1), of "''32768''"] assms(2) show ?thesis by (auto simp: year_into_buf_def)
next
  case False
  let ?n = "calendar_year y"
  define zs where "zs = replicate (4 - length (nat_to_string ?n)) (CHR ''0'')"
  have n: "\<bar>y\<bar> + of_bool (y \<le> 0) = int ?n" "?n \<le> 32767"
    using False assms(3,4) by (auto simp: calendar_year_def year_min_def)
  then have absy: "to_short (\<bar>y\<bar> + of_bool (y \<le> 0)) = int ?n" by (simp add: to_short_id)
  have "length (nat_to_string ?n) \<noteq> 0" by (subst nat_to_string.simps) simp
  then have zl: "length zs \<le> 3" by (cases "length (nat_to_string ?n)") (simp_all add: zs_def)
  have zeros: "(if int ?n < 1000 then
        put_all buf p (''0'' @ (if int ?n < 100 then ''0'' else []) @ (if int ?n < 10 then ''0'' else []))
      else Inr (Some (buf, p))) = put_all buf p zs"
    by (simp add: zs_def year_zeros)
  from put_all_wrote [OF assms(1), of zs] assms(2) zl obtain buf1 where
    z: "put_all buf p zs = Inr (Some (buf1, p + length zs))" "wrote buf0 b (s @ zs) buf1 (p + length zs)" by auto
  have size: "size_buffer (integer_type cpp_short cc) (int ?n) = 7"
    by (simp add: integer_type_def int_size_buffer_def digits10_values cpp_short_def)
  have its: "int_to_string (int ?n) = nat_to_string ?n" by (simp add: int_to_string_def)
  have "writes (integer_type cpp_short cc) (int ?n) (nat_to_string ?n)"
    using integer_writes [of cpp_short "int ?n" cc] n(2) by (simp add: its)
  moreover have "p + length zs + 7 \<le> length buf1" using z(2) assms(2) zl by (simp add: wrote_def)
  ultimately obtain buf2 where
    i: "into_buf (integer_type cpp_short cc) buf1 (p + length zs) (int ?n) = Inr (Some (buf2, p + length zs + length (nat_to_string ?n) + 1))"
    "length buf2 = length buf1"
    "take (p + length zs + length (nat_to_string ?n) + 1) buf2 = take (p + length zs) buf1 @ nat_to_string ?n @ [CHR 0x00]"
    using writes_into size by metis
  let ?q = "p + length zs + length (nat_to_string ?n)"
  have l: "length (nat_to_string ?n) \<le> 5" using nat_to_string_length [of ?n 5] n(2) by simp
  have digits: "year_digits ?n = zs @ nat_to_string ?n" by (simp add: year_digits_def zs_def)
  have q: "?q \<le> p + 5" using l by (simp add: zs_def)
  have "length (take (p + length zs) buf1 @ nat_to_string ?n) = ?q" using z(2) by (simp add: wrote_def)
  from take_snoc [OF _ this, of buf2 "CHR 0x00"] i(3)
  have "take ?q buf2 = take (p + length zs) buf1 @ nat_to_string ?n" by simp
  then have "wrote buf0 b (s @ year_digits ?n) buf2 ?q"
    using z(2) i(2) q assms(2) by (auto simp: wrote_def digits)
  moreover have "year_into_buf cc buf p y = Inr (Some (buf2, ?q))"
    unfolding year_into_buf_def if_not_P [OF False] Let_def absy zeros z(1) bindU_simps prod.case i(1) by simp
  ultimately show ?thesis using q by blast
qed

lemma date_into_buf_writes:
  assumes "date_ok v" "begin + date_size_buffer \<le> length buf"
  shows "\<exists>buf'. date_into_buf cc buf begin v = Inr (Some (buf', begin + length (date_text v) + 1)) \<and>
    wrote buf begin (date_text v @ [CHR 0x00]) buf' (begin + length (date_text v) + 1)"
proof -
  have room: "begin + 15 \<le> length buf" using assms(2) by (simp add: date_size_buffer_def s_bc_def)
  have m: "month v \<le> 12" and y: "year_min \<le> year v" "year v \<le> 32767" using assms(1) by (simp_all add: date_ok_def)
  from room have "wrote buf begin [] buf begin" by (simp add: wrote_start)
  from year_into_buf_wrote [OF this _ y, of cc] room obtain b1 p1 where
    1: "year_into_buf cc buf begin (year v) = Inr (Some (b1, p1))" "p1 \<le> begin + 5"
      "wrote buf begin (year_digits (calendar_year (year v))) b1 p1" by auto
  from put_next_wrote [OF 1(3), of "CHR ''-''"] room 1(2) obtain b2 where
    2: "put_next b1 p1 (CHR ''-'') = Inr (Some (b2, Suc p1))"
      "wrote buf begin (year_digits (calendar_year (year v)) @ ''-'') b2 (Suc p1)" by auto
  from month_into_buf_wrote [OF 2(2) _ m] room 1(2) obtain b3 where
    3: "month_into_buf b2 (Suc p1) (month v) = Inr (Some (b3, Suc p1 + 2))"
      "wrote buf begin ((year_digits (calendar_year (year v)) @ ''-'') @ two_digits (month v)) b3 (Suc p1 + 2)" by auto
  from put_next_wrote [OF 3(2), of "CHR ''-''"] room 1(2) obtain b4 where
    4: "put_next b3 (Suc p1 + 2) (CHR ''-'') = Inr (Some (b4, Suc (Suc p1 + 2)))"
      "wrote buf begin (((year_digits (calendar_year (year v)) @ ''-'') @ two_digits (month v)) @ ''-'') b4 (Suc (Suc p1 + 2))" by auto
  from day_into_buf_wrote [OF 4(2), of "day v"] room 1(2) obtain b5 where
    5: "day_into_buf b4 (Suc (Suc p1 + 2)) (day v) = Inr (Some (b5, Suc (Suc p1 + 2) + 2))"
      "wrote buf begin ((((year_digits (calendar_year (year v)) @ ''-'') @ two_digits (month v)) @ ''-'') @ two_digits (day v)) b5 (Suc (Suc p1 + 2) + 2)" by auto
  obtain b6 p6 where
    6: "(if year v \<le> 0 then copy_to b5 (Suc (Suc p1 + 2) + 2) s_bc else Inr (Some (b5, Suc (Suc p1 + 2) + 2))) = Inr (Some (b6, p6))"
      "wrote buf begin (date_text v) b6 p6" "p6 \<le> begin + 14"
    using copy_to_wrote [OF 5(2), of s_bc] 5(2) room 1(2)
    by (cases "year v \<le> 0") (auto simp: date_text_def s_bc_def)
  from put_next_wrote [OF 6(2), of "CHR 0x00"] room 6(3) obtain b7 where
    7: "put_next b6 p6 (CHR 0x00) = Inr (Some (b7, Suc p6))" "wrote buf begin (date_text v @ [CHR 0x00]) b7 (Suc p6)" by auto
  have p6: "p6 = begin + length (date_text v)" using 6(2) by (simp add: wrote_def)
  have space: "\<not> int (length buf) - int begin < int date_size_buffer" using assms(2) by simp
  show ?thesis
    unfolding date_into_buf_def if_not_P [OF space] 1(1) bindU_simps prod.case 2(1) 3(1) 4(1) 5(1) 6(1) 7(1)
    using 7(2) p6 by simp
qed

section \<open>Reading it back\<close>

lemma from_string_arithmetic_digits:
  assumes "ds \<noteq> []" "\<forall>c \<in> set ds. is_digit_c c" "foldl (\<lambda>a c. a * 10 + digit_val c) 0 ds = n" "int n \<le> t_max T" "int_type_ok T"
  shows "from_string_arithmetic T ds = Inr (int n)"
proof -
  have "is_digit_c (hd ds)" using assms(1,2) by simp
  then have h: "hd ds \<noteq> CHR '' ''" "hd ds \<noteq> CHR 0x09" "hd ds \<noteq> CHR ''-''"
    by (auto simp: is_digit_c_def less_eq_char_def)
  then have d: "dropWhile (\<lambda>c. c = CHR '' '' \<or> c = CHR 0x09) ds = ds" by (simp add: dropWhile_none assms(1))
  have w: "takeWhile is_digit_c ds = ds" "dropWhile is_digit_c ds = []"
    using assms(2) by (rule takeWhile_all, rule dropWhile_all)
  have "\<not> (int n < t_min T \<or> int n > t_max T)" using t_limits [OF assms(5)] assms(4) by auto
  then show ?thesis
    by (simp add: from_string_arithmetic_def Let_def d h assms(1,3) w del: dropWhile_eq_Nil_conv takeWhile_eq_all_conv)
qed

lemma year_digits_digits: "\<forall>c \<in> set (year_digits n). is_digit_c c"
  using nat_to_string_digits [of n] digit_char_is_digit [of 0] by (auto simp: year_digits_def digit_char_values)

lemma year_digits_value: "foldl (\<lambda>a c. a * 10 + digit_val c) 0 (year_digits n) = n"
proof -
  have "foldl (\<lambda>a c. a * 10 + digit_val c) 0 (replicate k (CHR ''0'')) = 0" for k
    by (induction k) (simp_all add: digit_val_def)
  then show ?thesis by (simp add: year_digits_def foldl_digits_nat_to_string)
qed

lemma year_digits_length: "4 \<le> length (year_digits n)"
  by (simp add: year_digits_def)

lemma year_from_digits:
  assumes "1 \<le> n" "int n \<le> 2147483647"
  shows "year_from_buf (year_digits n) = Inr (int n)"
proof -
  have "from_string_arithmetic cpp_int (year_digits n) = Inr (int n)"
    using year_digits_length [of n] year_digits_digits year_digits_value assms(2)
    by (intro from_string_arithmetic_digits) auto
  with assms(1) year_digits_length [of n] show ?thesis by (simp add: year_from_buf_def)
qed

lemma two_digits_value:
  "n < 100 \<Longrightarrow> is_digit_c (two_digits n ! 0)" "n < 100 \<Longrightarrow> is_digit_c (two_digits n ! Suc 0)"
  "n < 100 \<Longrightarrow> 10 * digit_val (two_digits n ! 0) + digit_val (two_digits n ! Suc 0) = n"
  by (simp_all add: two_digits_def digit_char_is_digit)

lemma month_from_two_digits: "n < 100 \<Longrightarrow> month_from_string (two_digits n) = Inr n"
  using two_digits_value [of n] by (simp add: month_from_string_def)

lemma day_from_two_digits: "day_ok n \<Longrightarrow> day_from_string (two_digits n) = Inr n"
  using two_digits_value [of n] by (simp add: day_from_string_def day_ok_def)

lemma last_day_le: "last_day y m \<le> 31"
  by (simp add: last_day_def)

lemma s_bc_length: "length s_bc = 3"
  by (simp add: s_bc_def)

lemma s_bc_last: "s_bc \<noteq> []" "last s_bc = CHR ''C''"
  by (simp_all add: s_bc_def)

lemma last_day_text: "ends_with (s @ two_digits n) s_bc \<longleftrightarrow> False" if "n < 100"
proof -
  have "is_digit_c (digit_char (n mod 10))" by (simp add: digit_char_is_digit)
  then have "digit_char (n mod 10) \<noteq> CHR ''C''" by (auto simp: is_digit_c_def less_eq_char_def)
  moreover have "last (s @ two_digits n) = digit_char (n mod 10)" by (simp add: two_digits_def)
  moreover have "last t = CHR ''C''" if "ends_with t s_bc" for t
  proof -
    from that have "t = take (length t - 3) t @ s_bc" unfolding ends_with_def by (metis append_take_drop_id s_bc_length)
    then show ?thesis by (metis last_appendR s_bc_last)
  qed
  ultimately show ?thesis by metis
qed

lemma ends_with_bc: "ends_with (s @ s_bc) s_bc"
  by (simp add: ends_with_def)

text \<open>What is left of the text without its suffix.\<close>

lemma date_from_parts:
  assumes "\<forall>c \<in> set yt. is_digit_c c" "m < 100" "n < 100"
    and "s = yt @ ''-'' @ two_digits m @ ''-'' @ two_digits n"
  shows "find_year_month_separator s = length yt" "length s = length yt + 6" "take (length yt) s = yt"
    "take 2 (drop (length yt + 1) s) = two_digits m" "s ! (length yt + 3) = CHR ''-''"
    "take 2 (drop (length yt + 4) s) = two_digits n"
proof -
  have "\<forall>c \<in> set yt. c \<noteq> CHR ''-''" using assms(1) by (auto simp: is_digit_c_def less_eq_char_def)
  then show "find_year_month_separator s = length yt"
    by (simp add: find_year_month_separator_def assms(4) takeWhile_append)
qed (simp_all add: assms(4) two_digits_def nth_append)

lemma date_from_text:
  assumes "date_ok v"
  shows "date_from_string (date_text v) = Inr v"
proof -
  let ?n = "calendar_year (year v)"
  define s where "s = year_digits ?n @ ''-'' @ two_digits (month v) @ ''-'' @ two_digits (day v)"
  have v: "year_min \<le> year v" "year v \<le> 32767" "month v < 100" "day v < 100" "day_ok (day v)" "month v < 256" "day v < 256"
    using assms last_day_le [of "year v" "month v"] by (simp_all add: date_ok_def day_ok_def)
  note parts = date_from_parts [OF year_digits_digits v(3,4) s_def]
  have y: "year_from_buf (year_digits ?n) = Inr (int ?n)"
    by (rule year_from_digits) (use v(1,2) in \<open>auto simp: calendar_year_def year_min_def\<close>)
  have same: "(if year v \<le> 0 then - int ?n + 1 else int ?n) = year v" by (auto simp: calendar_year_def)
  have make: "make_date (year v) (month v) (day v) = v"
    using v by (simp add: make_date_def to_short_id year_min_def)
  have t: "date_text v = s @ (if year v \<le> 0 then s_bc else [])" by (simp add: date_text_def s_def)
  have plain: "\<not> ends_with s s_bc"
    using last_day_text [OF v(4), of "year_digits ?n @ ''-'' @ two_digits (month v) @ ''-''"] by (simp add: s_def)
  have bc: "ends_with (date_text v) s_bc \<longleftrightarrow> year v \<le> 0"
    by (simp add: t plain ends_with_bc)
  have cut: "(if ends_with (date_text v) s_bc then take (length (date_text v) - length s_bc) (date_text v) else date_text v) = s"
    by (simp add: t plain ends_with_bc)
  have len: "\<not> length (date_text v) < 9" using year_digits_length [of ?n] parts(2) by (simp add: t)
  have n0: "int ?n \<noteq> 0" by (auto simp: calendar_year_def)
  show ?thesis
    unfolding date_from_string_def if_not_P [OF len] Let_def
    unfolding cut
    unfolding bc parts(1)
    unfolding parts(3) y
    unfolding bindR.simps same
    using n0 assms parts(4) by (simp add: parts y month_from_two_digits day_from_two_digits v make)
qed

lemma date_type_simps [simp]:
  "from_string (date_type cc) = date_from_string" "is_unquoted_safe (date_type cc) = False"
  "size_buffer (date_type cc) v = date_size_buffer"
  "to_buf (date_type cc) = generic_to_buf (date_into_buf cc)" "into_buf (date_type cc) = date_into_buf cc"
  by (simp_all add: date_type_def)

lemma date_text_length:
  assumes "date_ok v"
  shows "length (date_text v) < date_size_buffer"
proof -
  have "wrote (replicate date_size_buffer CHR 0x00) 0 (date_text v @ [CHR 0x00]) buf (0 + length (date_text v) + 1)"
    if "date_into_buf cc (replicate date_size_buffer CHR 0x00) 0 v = Inr (Some (buf, 0 + length (date_text v) + 1))" for cc buf
    using date_into_buf_writes [OF assms, of 0 "replicate date_size_buffer CHR 0x00" cc] that by auto
  moreover obtain buf where "date_into_buf True (replicate date_size_buffer CHR 0x00) 0 v = Inr (Some (buf, 0 + length (date_text v) + 1))"
    using date_into_buf_writes [OF assms, of 0 "replicate date_size_buffer CHR 0x00" True] by auto
  ultimately show ?thesis by (fastforce simp: wrote_def)
qed

interpretation date: string_traits "date_type cc" date_text date_ok
proof
  fix v
  assume v: "date_ok v"
  show "from_string (date_type cc) (date_text v) = Inr v" using date_from_text [OF v] by simp
  show "writes (date_type cc) v (date_text v)"
  proof (rule writes_generic)
    fix buf :: string and p
    assume "p + size_buffer (date_type cc) v \<le> length buf"
    then have "p + date_size_buffer \<le> length buf" by simp
    from date_into_buf_writes [OF v this, of cc] show "\<exists>buf'. into_buf (date_type cc) buf p v = Inr (Some (buf', p + length (date_text v) + 1)) \<and>
      length buf' = length buf \<and> take (p + length (date_text v) + 1) buf' = take p buf @ date_text v @ [CHR 0x00]"
      by (auto simp: wrote_def)
  qed (simp_all add: date_text_length v)
qed

text \<open>
  C20. Every valid date, leap days and the years before our era included, is written into the space that
  \<open>size_buffer\<close> asks for, whichever way integers are written, with its year in the calendar of the server (the year
  zero of C++ is the year 1 BC), and its text reads back as the same date.
\<close>

theorem date_roundtrip:
  assumes "date_ok v" "begin + date_size_buffer \<le> length buf"
  shows "\<exists>buf'. date_into_buf have_charconv buf begin v =
      Inr (Some (take begin buf @ date_text v @ CHR 0x00 # buf', begin + length (date_text v) + 1)) \<and>
    date_from_string (date_text v) = Inr v"
proof -
  from date_into_buf_writes [OF assms] obtain b where
    b: "date_into_buf have_charconv buf begin v = Inr (Some (b, begin + length (date_text v) + 1))"
      "take (begin + length (date_text v) + 1) b = take begin buf @ date_text v @ [CHR 0x00]"
    by (auto simp: wrote_def)
  then have "b = (take begin buf @ date_text v @ [CHR 0x00]) @ drop (begin + length (date_text v) + 1) b"
    by (metis append_take_drop_id)
  with b(1) date.from_text [OF assms(1), of have_charconv] show ?thesis by auto
qed

lemma date_roundtrip_witness:
  "\<exists>b. date_into_buf False (replicate 16 CHR ''.'') 1 \<lparr>year = 0, month = 2, day = 29\<rparr> =
     Inr (Some (''.0001-02-29 BC'' @ CHR 0x00 # b, 15))"
proof -
  let ?v = "\<lparr>year = 0, month = 2, day = 29\<rparr>"
  have ok: "date_ok ?v" by (simp add: date_ok_def year_min_def last_day_def is_leap_def)
  have zeros: "replicate 3 (CHR ''0'') = ''000''" by (simp add: numeral_eq_Suc)
  have its: "date_text ?v = ''0001-02-29 BC''"
    by (simp add: date_text_def year_digits_def calendar_year_def two_digits_def s_bc_def nat_to_string.simps digit_char_values zeros)
  have room: "1 + date_size_buffer \<le> length (replicate 16 CHR ''.'')" by (simp add: date_size_buffer_def s_bc_def)
  have "take 1 (replicate 16 CHR ''.'') = ''.''" by (simp add: numeral_eq_Suc)
  with date_roundtrip [OF ok room, of False] show ?thesis unfolding its by auto
qed

text \<open>
  The years of the server go further than those of C++.  A year that does not fit is not rejected: the same day of
  another year is read.
\<close>

lemma date_year_wraps:
  assumes "date_ok v" "0 < year v"
  shows "date_from_string (date_text v) = Inr v \<and>
    date_from_string (year_digits (nat (year v + 65536)) @ drop (length (year_digits (nat (year v)))) (date_text v)) = Inr v"
proof -
  let ?n = "nat (year v + 65536)"
  define s where "s = year_digits ?n @ ''-'' @ two_digits (month v) @ ''-'' @ two_digits (day v)"
  have v: "year v \<le> 32767" "month v < 100" "day v < 100" "day_ok (day v)" "month v < 256" "day v < 256"
    using assms(1) last_day_le [of "year v" "month v"] by (simp_all add: date_ok_def day_ok_def)
  note parts = date_from_parts [OF year_digits_digits v(2,3) s_def]
  have y: "year_from_buf (year_digits ?n) = Inr (year v + 65536)"
    using year_from_digits [of ?n] v(1) assms(2) by simp
  have make: "make_date (year v + 65536) (month v) (day v) = v"
    using v assms(2) by (simp add: make_date_def to_short_wrap to_short_id)
  have plain: "\<not> ends_with s s_bc"
    using last_day_text [OF v(3), of "year_digits ?n @ ''-'' @ two_digits (month v) @ ''-''"] by (simp add: s_def)
  have len: "\<not> length s < 9" using year_digits_length [of ?n] parts(2) by simp
  have "date_from_string s = Inr v"
    unfolding date_from_string_def if_not_P [OF len] Let_def if_not_P [OF plain] parts(1)
    unfolding parts(3) y
    unfolding bindR.simps
    using assms parts(4) by (simp add: parts month_from_two_digits day_from_two_digits v make plain)
  moreover have "year_digits ?n @ drop (length (year_digits (nat (year v)))) (date_text v) = s"
    using assms(2) by (simp add: s_def date_text_def calendar_year_def)
  ultimately show ?thesis using date_from_text [OF assms(1)] by simp
qed

end
