(* ===== verification/Pqxx_Composite.thy ===== *)
theory Pqxx_Composite
  imports Pqxx_Conversions
begin

text \<open>
  Values of composite types in text form: \<open>include/pqxx/composite.hxx\<close> and the parts of
  \<open>include/pqxx/internal/array-composite.hxx\<close> it uses.  The fields of the template parameter pack are a list of
  pairs of a field type and a value, all over one type of values.
\<close>

section \<open>Reading\<close>

text \<open>\<open>std::data(input)\<close>, where a string is made of it: up to the first zero byte.\<close>

definition c_string :: "string \<Rightarrow> string" where
  "c_string s = takeWhile (\<lambda>c. c \<noteq> CHR 0x00) s"

text \<open>One field: the position after it and its value.\<close>

definition parse_composite_field ::
    "encoding_group \<Rightarrow> nat \<Rightarrow> string \<Rightarrow> nat \<Rightarrow> ('e, 'z) element_type_scheme \<Rightarrow> nat \<Rightarrow> (nat \<times> 'e) ub_res" where
  "parse_composite_field enc index input pos T last_field =
     (let sz = length input; scan = get_glyph_scanner enc input sz in
      bindU (scan pos) (\<lambda>next.
      if next - pos \<noteq> 1 then okU (conversion_error ''Non-ASCII character in composite-type syntax.'')
      else
        bindU (if input ! pos \<in> {CHR '','', CHR '')'', CHR '']''} then
                 (case null_value T of
                    Some e \<Rightarrow> Inr (Some (pos, e))
                  | None \<Rightarrow> okU (conversion_error (''Can'' @ [CHR 0x27] @ ''t read composite field '' @ nat_to_string index @
                      '': C++ type '' @ type_name T @ '' does not support nulls.'')))
               else if input ! pos = CHR 0x22 then
                 bindU (scan_double_quoted_string enc input sz pos) (\<lambda>stop.
                 bindU (parse_double_quoted_string enc input stop pos) (\<lambda>buf.
                 bindU (okU (from_string T buf)) (\<lambda>e. Inr (Some (stop, e)))))
               else
                 bindU (scan_unquoted_string enc '',)]'' input sz pos) (\<lambda>stop.
                 bindU (okU (from_string T (slice input pos stop))) (\<lambda>e. Inr (Some (stop, e))))) (\<lambda>(pos, e).
        bindU (scan pos) (\<lambda>next.
        if next - pos \<noteq> 1 then
          okU (conversion_error (''Unexpected non-ASCII character after composite field: '' @ input))
        else if index < last_field then
          (if input ! pos \<noteq> CHR '','' then
             okU (conversion_error (''Found '' @ quoted_name [input ! pos] @
               '' in composite value where comma was expected: '' @ c_string input))
           else Inr (Some (next, e)))
        else if input ! pos = CHR '','' then
          okU (conversion_error (''Composite value contained more fields than the expected '' @
            nat_to_string last_field @ '': '' @ c_string input))
        else if input ! pos \<noteq> CHR '')'' \<and> input ! pos \<noteq> CHR '']'' then
          okU (conversion_error (''Composite value has unexpected characters where closing parenthesis was expected: '' @
            input))
        else if next \<noteq> sz then
          okU (conversion_error (''Composite value has unexpected text after closing parenthesis: '' @ input))
        else Inr (Some (next, e))))))"

text \<open>The fields in turn, from number \<open>index\<close> on.\<close>

primrec parse_composite_fields ::
    "'e field_type list \<Rightarrow> encoding_group \<Rightarrow> nat \<Rightarrow> string \<Rightarrow> nat \<Rightarrow> nat \<Rightarrow> (nat \<times> 'e list) ub_res" where
  "parse_composite_fields [] enc index input here last_field = Inr (Some (here, []))"
| "parse_composite_fields (T # Ts) enc index input here last_field =
     bindU (parse_composite_field enc index input here T last_field) (\<lambda>(here, e).
     bindU (parse_composite_fields Ts enc (index + 1) input here last_field) (\<lambda>(here, es).
     Inr (Some (here, e # es))))"

definition parse_composite :: "encoding_group \<Rightarrow> string \<Rightarrow> 'e field_type list \<Rightarrow> 'e list ub_res" where
  "parse_composite enc input Ts =
     (if length input = 0 then okU (conversion_error ''Cannot parse composite value from empty string.'')
      else
        bindU (get_glyph_scanner enc input (length input) 0) (\<lambda>next.
        if next \<noteq> 1 \<or> input ! 0 \<noteq> CHR ''('' then
          okU (conversion_error (''Invalid composite value string: '' @ input))
        else
          bindU (parse_composite_fields Ts enc 0 input next (length Ts - 1)) (\<lambda>(here, es).
          if here \<noteq> length input then
            okU (conversion_error (''Composite value did not end at the closing parenthesis: '' @ quoted_name input @ ''.''))
          else if input ! (here - 1) \<noteq> CHR '')'' then
            okU (conversion_error (''Composive value did not end in parenthesis: '' @ quoted_name input))
          else Inr (Some es))))"

section \<open>Writing\<close>

definition size_composite_field_buffer :: "'e field_type \<Rightarrow> 'e \<Rightarrow> nat" where
  "size_composite_field_buffer T field =
     (if is_unquoted_safe T then sz_sub (size_buffer T field) 1
      else 1 + 2 * sz_sub (size_buffer T field) 1 + 1)"

definition composite_size_buffer :: "('e field_type \<times> 'e) list \<Rightarrow> nat" where
  "composite_size_buffer fs =
     (if fs = [] then 3
      else 1 + sum_list (map (\<lambda>(T, v). size_composite_field_buffer T v) fs) + length fs + 1)"

text \<open>The body of the loop: a byte, and a backslash before it if it needs one.\<close>

definition write_byte :: "string \<Rightarrow> nat \<Rightarrow> char \<Rightarrow> (string \<times> nat) ub_res" where
  "write_byte buf pos c =
     bindU (if c = CHR 0x22 \<or> c = CHR 0x5C then
              bindU (put buf pos (CHR 0x5C)) (\<lambda>buf. Inr (Some (buf, pos + 1)))
            else Inr (Some (buf, pos))) (\<lambda>(buf, pos).
     bindU (put buf pos c) (\<lambda>buf. Inr (Some (buf, pos + 1))))"

text \<open>
  The text of the field is at the end of the same buffer, from \<open>i\<close> on, while its escaped form is written at
  \<open>pos\<close>.
\<close>

primrec escape_loop :: "nat \<Rightarrow> nat \<Rightarrow> string \<Rightarrow> nat \<Rightarrow> (string \<times> nat) ub_res" where
  "escape_loop 0 i buf pos = Inr (Some (buf, pos))"
| "escape_loop (Suc n) i buf pos =
     bindU (write_byte buf pos (buf ! i)) (\<lambda>(buf, pos). escape_loop n (i + 1) buf pos)"

definition write_field_text :: "string \<Rightarrow> nat \<Rightarrow> 'e field_type \<Rightarrow> 'e \<Rightarrow> (string \<times> nat) ub_res" where
  "write_field_text buf pos T field =
     (if is_unquoted_safe T then
        bindU (into_buf T buf pos field) (\<lambda>(buf, en). Inr (Some (buf, en - 1)))
      else
        let budget = size_buffer T field in
        bindU (put buf pos (CHR 0x22)) (\<lambda>buf.
        if length buf < budget then Inr None
        else
          bindU (to_buf T buf (length buf - budget) field) (\<lambda>(buf, data, n).
          bindU (escape_loop n data buf (pos + 1)) (\<lambda>(buf, pos).
          bindU (put buf pos (CHR 0x22)) (\<lambda>buf. Inr (Some (buf, pos + 1)))))))"

definition write_composite_field :: "string \<Rightarrow> nat \<Rightarrow> 'e field_type \<Rightarrow> 'e \<Rightarrow> (string \<times> nat) ub_res" where
  "write_composite_field buf pos T field =
     bindU (write_field_text buf pos T field) (\<lambda>(buf, pos).
     bindU (put buf pos (CHR '','')) (\<lambda>buf. Inr (Some (buf, pos + 1))))"

primrec write_composite_fields :: "('e field_type \<times> 'e) list \<Rightarrow> string \<Rightarrow> nat \<Rightarrow> (string \<times> nat) ub_res" where
  "write_composite_fields [] buf pos = Inr (Some (buf, pos))"
| "write_composite_fields (f # fs) buf pos =
     bindU (write_composite_field buf pos (fst f) (snd f)) (\<lambda>(buf, pos). write_composite_fields fs buf pos)"

text \<open>The buffer afterwards and the offset of the end of what was written.\<close>

definition composite_into_buf :: "string \<Rightarrow> ('e field_type \<times> 'e) list \<Rightarrow> (string \<times> nat) ub_res" where
  "composite_into_buf buf fs =
     (if length buf < composite_size_buffer fs then
        okU (conversion_error ''Buffer space may not be enough to represent composite value.'')
      else if fs = [] then Inr (Some (blit buf 0 (''()'' @ [CHR 0x00]), 3))
      else
        bindU (put buf 0 (CHR ''('')) (\<lambda>buf.
        bindU (write_composite_fields fs buf 1) (\<lambda>(buf, pos).
        let pos = (if length fs > 1 then pos - 1 else pos) in
        bindU (put buf pos (CHR '')'')) (\<lambda>buf.
        bindU (put buf (pos + 1) (CHR 0x00)) (\<lambda>buf. Inr (Some (buf, pos + 2)))))))"

section \<open>What is written\<close>

definition escape_byte :: "char \<Rightarrow> string" where
  "escape_byte c = (if c = CHR 0x22 \<or> c = CHR 0x5C then [CHR 0x5C, c] else [c])"

definition field_text :: "'e field_type \<Rightarrow> string \<Rightarrow> string" where
  "field_text T s = (if is_unquoted_safe T then s else CHR 0x22 # concat (map escape_byte s) @ [CHR 0x22])"

definition composite_text :: "string list \<Rightarrow> string" where
  "composite_text fs = CHR ''('' # join CHR '','' fs @ '')''"

lemma put_ok: "pos < length buf \<Longrightarrow>
   \<exists>buf'. put buf pos c = Inr (Some buf') \<and> length buf' = length buf \<and> take (pos + 1) buf' = take pos buf @ [c] \<and>
     drop (pos + 1) buf' = drop (pos + 1) buf"
  by (simp add: put_def take_Suc_conv_app_nth)

lemma write_byte_text:
  assumes "pos + length (escape_byte c) \<le> length buf"
  shows "\<exists>buf'. write_byte buf pos c = Inr (Some (buf', pos + length (escape_byte c))) \<and> length buf' = length buf \<and>
    take (pos + length (escape_byte c)) buf' = take pos buf @ escape_byte c \<and>
    drop (pos + length (escape_byte c)) buf' = drop (pos + length (escape_byte c)) buf"
proof (cases "c = CHR 0x22 \<or> c = CHR 0x5C")
  case True
  then have e: "escape_byte c = [CHR 0x5C, c]" by (auto simp: escape_byte_def)
  with assms have "Suc pos < length buf" by simp
  then have "take (Suc (Suc pos)) (buf[pos := CHR 0x5C, Suc pos := c]) = take pos buf @ [CHR 0x5C, c]"
    by (simp add: take_Suc_conv_app_nth nth_list_update)
  with True e \<open>Suc pos < length buf\<close> show ?thesis by (simp add: write_byte_def put_def)
next
  case False
  then have e: "escape_byte c = [c]" by (simp add: escape_byte_def)
  with put_ok [of pos buf c] assms False show ?thesis by (auto simp: write_byte_def)
qed

lemma take_le: "m \<le> n \<Longrightarrow> take n xs = take n ys \<Longrightarrow> take m xs = take m ys"
  by (metis min.absorb1 take_take)

text \<open>
  The escaped form never runs into the part of the text that is still to be read, provided there was as much
  space in front of it as it has bytes, less one.
\<close>

lemma escape_loop_text:
  "take (length s) (drop i buf) = s \<Longrightarrow> pos + length s \<le> i + 1 \<Longrightarrow> pos + length (concat (map escape_byte s)) \<le> length buf \<Longrightarrow>
   \<exists>buf'. escape_loop (length s) i buf pos = Inr (Some (buf', pos + length (concat (map escape_byte s)))) \<and>
     length buf' = length buf \<and>
     take (pos + length (concat (map escape_byte s))) buf' = take pos buf @ concat (map escape_byte s)"
proof (induction s arbitrary: i buf pos)
  case Nil
  then show ?case by simp
next
  case (Cons c s)
  let ?e = "concat (map escape_byte s)" and ?k = "length (escape_byte c)"
  have k: "?k = 1 \<or> ?k = 2" by (simp add: escape_byte_def)
  from Cons.prems(1) have i: "i < length buf" by (cases "i < length buf") simp_all
  then have c: "buf ! i = c" and s: "take (length s) (drop (i + 1) buf) = s"
    using Cons.prems(1) by (simp_all add: Cons_nth_drop_Suc [symmetric])
  have room: "pos + ?k + length ?e \<le> length buf" using Cons.prems(3) by simp
  have "\<exists>buf'. write_byte buf pos c = Inr (Some (buf', pos + ?k)) \<and> length buf' = length buf \<and>
      take (pos + ?k) buf' = take pos buf @ escape_byte c \<and> drop (pos + ?k) buf' = drop (pos + ?k) buf"
    by (rule write_byte_text) (use room in simp)
  then obtain buf' where w: "write_byte buf pos c = Inr (Some (buf', pos + ?k))" "length buf' = length buf"
    "take (pos + ?k) buf' = take pos buf @ escape_byte c" "drop (pos + ?k) buf' = drop (pos + ?k) buf" by blast
  have step: "escape_loop (Suc (length s)) i buf pos = escape_loop (length s) (i + 1) buf' (pos + ?k)"
    using w(1) c by simp
  have view: "take (length s) (drop (i + 1) buf') = s"
  proof (cases s)
    case (Cons d t)
    then have "pos + ?k \<le> i + 1" using Cons.prems(2) k by auto
    then have "drop (i + 1) buf' = drop (i + 1) buf" using w(4) by (metis drop_drop le_add_diff_inverse2)
    with s show ?thesis by simp
  qed simp
  have "pos + ?k + length s \<le> i + 1 + 1" using Cons.prems(2) k by auto
  from Cons.IH [OF view this] room w(2) obtain buf2 where
    "escape_loop (length s) (i + 1) buf' (pos + ?k) = Inr (Some (buf2, pos + ?k + length ?e))" "length buf2 = length buf"
    "take (pos + ?k + length ?e) buf2 = take (pos + ?k) buf' @ ?e" by auto
  with step w(3) show ?case by (simp add: add.assoc)
qed

lemma length_escape: "length (concat (map escape_byte s)) \<le> 2 * length s"
  by (induction s) (auto simp: escape_byte_def)

lemma sb_minus: "length s < size_buffer T v \<Longrightarrow> size_buffer T v \<le> npos \<Longrightarrow> sz_sub (size_buffer T v) 1 = size_buffer T v - 1"
  by simp

lemma field_text_size:
  assumes "writes T v s" "size_buffer T v \<le> npos"
  shows "length (field_text T s) \<le> size_composite_field_buffer T v"
proof -
  have l: "length s < size_buffer T v" using assms(1) by (simp add: writes_def)
  then have "length s \<le> size_buffer T v - 1" by simp
  with l assms(2) length_escape [of s] show ?thesis
    by (auto simp: field_text_def size_composite_field_buffer_def)
qed

lemma write_field_text_text:
  assumes "writes T v s" "size_buffer T v \<le> npos" "pos + size_composite_field_buffer T v + 1 \<le> length buf"
  shows "\<exists>buf'. write_field_text buf pos T v = Inr (Some (buf', pos + length (field_text T s))) \<and>
    length buf' = length buf \<and> take (pos + length (field_text T s)) buf' = take pos buf @ field_text T s"
proof -
  let ?f = "field_text T s" and ?n = "size_buffer T v"
  have l: "length s < ?n" using assms(1) by (simp add: writes_def)
  show ?thesis
  proof (cases "is_unquoted_safe T")
    case True
    then have f: "?f = s" by (simp add: field_text_def)
    have "size_composite_field_buffer T v = ?n - 1" using True l assms(2) by (simp add: size_composite_field_buffer_def)
    then have "pos + ?n \<le> length buf" using assms(3) l by simp
    from writes_into [OF assms(1) this] obtain buf1 where b: "into_buf T buf pos v = Inr (Some (buf1, pos + length s + 1))"
      "length buf1 = length buf" "take (pos + length s + 1) buf1 = take pos buf @ s @ [CHR 0x00]" by blast
    have "take (pos + length s) buf1 = take (pos + length s) (take (pos + length s + 1) buf1)" by (simp add: min_def)
    also have "\<dots> = take pos buf @ s" using b(2,3) \<open>pos + ?n \<le> length buf\<close> l by simp
    finally show ?thesis using b True by (simp add: f write_field_text_def)
  next
    case False
    have f: "?f = CHR 0x22 # concat (map escape_byte s) @ [CHR 0x22]" using False by (simp add: field_text_def)
    let ?e = "concat (map escape_byte s)"
    have sz: "size_composite_field_buffer T v = 2 * (?n - 1) + 2" using False l assms(2)
      by (simp add: size_composite_field_buffer_def)
    then have room: "pos + 2 * ?n + 1 \<le> length buf" using assms(3) l by simp
    then have "pos < length buf" by simp
    from put_ok [OF this, of "CHR 0x22"] obtain b1 where b1: "put buf pos (CHR 0x22) = Inr (Some b1)" "length b1 = length buf"
      "take (pos + 1) b1 = take pos buf @ [CHR 0x22]" by blast
    have "length b1 - ?n + ?n \<le> length b1" using room b1(2) by simp
    from writes_view [OF assms(1) this] obtain b2 data where b2: "to_buf T b1 (length b1 - ?n) v = Inr (Some (b2, data, length s))"
      "length b2 = length b1" "length b1 - ?n \<le> data" "data + length s < length b1" "take (length b1 - ?n) b2 = take (length b1 - ?n) b1"
      "take (length s) (drop data b2) = s" by blast
    have pre: "take (pos + 1) b2 = take pos buf @ [CHR 0x22]"
      using take_le [OF _ b2(5), of "pos + 1"] b1(2,3) room by simp
    have e: "pos + 1 + length ?e \<le> length b2" using length_escape [of s] l room b1(2) b2(2) by simp
    have "pos + 1 + length s \<le> data + 1" using b2(3) b1(2) room l by simp
    from escape_loop_text [OF b2(6) this e] obtain b3 where b3: "escape_loop (length s) data b2 (pos + 1) = Inr (Some (b3, pos + 1 + length ?e))"
      "length b3 = length b2" "take (pos + 1 + length ?e) b3 = take (pos + 1) b2 @ ?e" by blast
    have "pos + 1 + length ?e < length b3" using length_escape [of s] l room b1(2) b2(2) b3(2) by simp
    from put_ok [OF this, of "CHR 0x22"] obtain b4 where b4: "put b3 (pos + 1 + length ?e) (CHR 0x22) = Inr (Some b4)"
      "length b4 = length b3" "take (pos + 1 + length ?e + 1) b4 = take (pos + 1 + length ?e) b3 @ [CHR 0x22]" by blast
    have len: "pos + length ?f = pos + 1 + length ?e + 1" by (simp add: f)
    have "take (pos + length ?f) b4 = take pos buf @ ?f" unfolding len b4(3) b3(3) pre by (simp add: f)
    moreover have "\<not> length b1 < ?n" using room b1(2) by simp
    ultimately show ?thesis using False b1(1,2) b2(1,2) b3(1,2) b4(1,2) len by (simp add: write_field_text_def Let_def)
  qed
qed

lemma write_composite_field_text:
  assumes "writes T v s" "size_buffer T v \<le> npos" "pos + size_composite_field_buffer T v + 1 \<le> length buf"
  shows "\<exists>buf'. write_composite_field buf pos T v = Inr (Some (buf', pos + length (field_text T s) + 1)) \<and>
    length buf' = length buf \<and> take (pos + length (field_text T s) + 1) buf' = take pos buf @ field_text T s @ [CHR '','']"
proof -
  let ?f = "field_text T s"
  from write_field_text_text [OF assms] obtain buf1 where b: "write_field_text buf pos T v = Inr (Some (buf1, pos + length ?f))"
      "length buf1 = length buf" "take (pos + length ?f) buf1 = take pos buf @ ?f" by blast
  have "pos + length ?f < length buf1" using field_text_size [OF assms(1,2)] assms(3) b(2) by simp
  from put_ok [OF this, of "CHR '',''"] obtain buf2 where "put buf1 (pos + length ?f) (CHR '','') = Inr (Some buf2)"
    "length buf2 = length buf1" "take (pos + length ?f + 1) buf2 = take (pos + length ?f) buf1 @ [CHR '','']" by blast
  with b show ?thesis by (simp add: write_composite_field_def)
qed

text \<open>A field whose conversions keep their contract for the text \<open>s\<close>.\<close>

definition field_writes :: "'e field_type \<times> 'e \<Rightarrow> string \<Rightarrow> bool" where
  "field_writes f s \<longleftrightarrow> writes (fst f) (snd f) s \<and> size_buffer (fst f) (snd f) \<le> npos"

definition field_texts :: "('e field_type \<times> 'e) list \<Rightarrow> string list \<Rightarrow> string list" where
  "field_texts fs ss = map2 (\<lambda>f s. field_text (fst f) s) fs ss"

lemma field_texts_simps [simp]:
  "field_texts [] ss = []" "field_texts (f # fs) (s # ss) = field_text (fst f) s # field_texts fs ss"
  by (simp_all add: field_texts_def)

lemma write_composite_fields_text:
  "list_all2 field_writes fs ss \<Longrightarrow>
   pos + sum_list (map (\<lambda>(T, v). size_composite_field_buffer T v) fs) + length fs \<le> length buf \<Longrightarrow>
   \<exists>buf'. write_composite_fields fs buf pos = Inr (Some (buf', pos + length (concat (map (\<lambda>t. t @ [CHR '','']) (field_texts fs ss))))) \<and>
     length buf' = length buf \<and>
     take (pos + length (concat (map (\<lambda>t. t @ [CHR '','']) (field_texts fs ss)))) buf' =
       take pos buf @ concat (map (\<lambda>t. t @ [CHR '','']) (field_texts fs ss))"
proof (induction fs ss arbitrary: buf pos rule: list_all2_induct)
  case Nil
  then show ?case by simp
next
  case (Cons f fs s ss)
  obtain T v where f: "f = (T, v)" by (cases f)
  let ?t = "field_text T s" and ?c = "concat (map (\<lambda>t. t @ [CHR '','']) (field_texts fs ss))"
  from Cons.hyps(1) have w: "writes T v s" "size_buffer T v \<le> npos" by (simp_all add: field_writes_def f)
  have "pos + size_composite_field_buffer T v + 1 \<le> length buf" using Cons.prems by (simp add: f)
  from write_composite_field_text [OF w this] obtain b1 where
    b1: "write_composite_field buf pos T v = Inr (Some (b1, pos + length ?t + 1))" "length b1 = length buf"
      "take (pos + length ?t + 1) b1 = take pos buf @ ?t @ [CHR '','']" by blast
  have "pos + length ?t + 1 + sum_list (map (\<lambda>(T, v). size_composite_field_buffer T v) fs) + length fs \<le> length b1"
    using Cons.prems field_text_size [OF w] b1(2) by (simp add: f)
  from Cons.IH [OF this] obtain b2 where
    "write_composite_fields fs b1 (pos + length ?t + 1) = Inr (Some (b2, pos + length ?t + 1 + length ?c))" "length b2 = length b1"
    "take (pos + length ?t + 1 + length ?c) b2 = take (pos + length ?t + 1) b1 @ ?c" by blast
  with b1 show ?case by (simp add: f add.assoc)
qed

lemma concat_join: "ts \<noteq> [] \<Longrightarrow> concat (map (\<lambda>t. t @ [c]) ts) = join c ts @ [c]"
  by (induction ts) auto

lemma field_texts_Nil: "list_all2 field_writes fs ss \<Longrightarrow> field_texts fs ss = [] \<longleftrightarrow> fs = []"
  by (cases fs; cases ss) auto

lemma length_field_texts: "list_all2 field_writes fs ss \<Longrightarrow>
   length (concat (map (\<lambda>t. t @ [CHR '','']) (field_texts fs ss))) \<le>
     sum_list (map (\<lambda>(T, v). size_composite_field_buffer T v) fs) + length fs"
proof (induction fs ss rule: list_all2_induct)
  case (Cons f fs s ss)
  then have "length (field_text (fst f) s) \<le> size_composite_field_buffer (fst f) (snd f)"
    by (intro field_text_size) (simp_all add: field_writes_def)
  with Cons.IH show ?case by (simp add: case_prod_unfold)
qed simp

text \<open>The end of \<open>composite_into_buf\<close>.\<close>

lemma close_composite:
  assumes "take pos b = x" "pos + 2 \<le> length b"
  shows "\<exists>b'. bindU (put b pos (CHR '')'')) (\<lambda>buf. bindU (put buf (pos + 1) (CHR 0x00)) (\<lambda>buf. Inr (Some (buf, pos + 2)))) =
      Inr (Some (b', pos + 2)) \<and> length b' = length b \<and> take (pos + 2) b' = x @ '')'' @ [CHR 0x00]"
proof -
  have "pos < length b" using assms(2) by simp
  from put_ok [OF this] obtain b1 where b1: "put b pos (CHR '')'') = Inr (Some b1)" "length b1 = length b"
    "take (pos + 1) b1 = take pos b @ '')''" by blast
  have "pos + 1 < length b1" using assms(2) b1(2) by simp
  from put_ok [OF this] obtain b2 where "put b1 (pos + 1) (CHR 0x00) = Inr (Some b2)" "length b2 = length b1"
    "take (pos + 1 + 1) b2 = take (pos + 1) b1 @ [CHR 0x00]" by blast
  with b1 assms(1) show ?thesis by simp
qed

lemma open_composite:
  assumes "list_all2 field_writes fs ss" "fs \<noteq> []" "composite_size_buffer fs \<le> length buf"
  obtains b where "put buf 0 (CHR ''('') = Inr (Some (buf[0 := CHR ''('']))"
    "write_composite_fields fs (buf[0 := CHR ''('']) 1 = Inr (Some (b, length (join CHR '','' (field_texts fs ss)) + 2))"
    "length b = length buf" "take (length (join CHR '','' (field_texts fs ss)) + 2) b = CHR ''('' # join CHR '','' (field_texts fs ss) @ '',''"
    "length (join CHR '','' (field_texts fs ss)) + 3 \<le> length buf"
proof -
  let ?j = "join CHR '','' (field_texts fs ss)"
  have sz: "1 + sum_list (map (\<lambda>(T, v). size_composite_field_buffer T v) fs) + length fs + 1 \<le> length buf"
    using assms(2,3) by (simp add: composite_size_buffer_def)
  then have "0 < length buf" by linarith
  moreover have c: "concat (map (\<lambda>t. t @ [CHR '','']) (field_texts fs ss)) = ?j @ '',''"
    using concat_join field_texts_Nil [OF assms(1)] assms(2) by blast
  moreover have "1 + sum_list (map (\<lambda>(T, v). size_composite_field_buffer T v) fs) + length fs \<le> length (buf[0 := CHR ''(''])"
    using sz by simp
  from write_composite_fields_text [OF assms(1) this] obtain b where
    "write_composite_fields fs (buf[0 := CHR ''('']) 1 = Inr (Some (b, 1 + length (?j @ '','')))"
    "length b = length buf" "take (1 + length (?j @ '','')) b = take 1 (buf[0 := CHR ''('']) @ ?j @ '',''" unfolding c by auto
  moreover have "take 1 (buf[0 := CHR ''('']) = ''(''" using \<open>0 < length buf\<close> by (cases buf) simp_all
  moreover have "length ?j + 3 \<le> length buf" using length_field_texts [OF assms(1)] sz c by simp
  ultimately show thesis by (intro that [of b]) (simp_all add: put_def)
qed

section \<open>Reading what was written\<close>

text \<open>
  The text \<open>concat gs\<close>, by glyphs, of a field value that reading can take up again.  Unquoted text must not contain
  the characters that end a field.  Quoted text may have anything in it, but as it is escaped byte by byte and read
  glyph by glyph, no glyph of several bytes may have a quote or a backslash among them.
\<close>

definition field_reads :: "encoding_group \<Rightarrow> 'e field_type \<times> 'e \<Rightarrow> string list \<Rightarrow> bool" where
  "field_reads enc f gs \<longleftrightarrow>
     from_string (fst f) (concat gs) = Inr (snd f) \<and> list_all (is_glyph enc) gs \<and>
     (if is_unquoted_safe (fst f)
      then gs \<noteq> [] \<and> length (hd gs) = 1 \<and> hd gs \<noteq> [CHR 0x22] \<and> (\<forall>g \<in> set gs. length g = 1 \<longrightarrow> hd g \<notin> set '',)]'')
      else (\<forall>g \<in> set gs. length g \<noteq> 1 \<longrightarrow> CHR 0x22 \<notin> set g \<and> CHR 0x5C \<notin> set g))"

lemma escape_bytes_id: "CHR 0x22 \<notin> set g \<Longrightarrow> CHR 0x5C \<notin> set g \<Longrightarrow> concat (map escape_byte g) = g"
  by (induction g) (auto simp: escape_byte_def)

lemma escape_bytes_glyphs:
  "\<forall>g \<in> set gs. length g \<noteq> 1 \<longrightarrow> CHR 0x22 \<notin> set g \<and> CHR 0x5C \<notin> set g \<Longrightarrow>
   concat (map escape_byte (concat gs)) = concat (map escape_glyph gs)"
proof (induction gs)
  case (Cons g gs)
  have "concat (map escape_byte g) = escape_glyph g"
  proof (cases "length g = 1")
    case True
    then obtain c where "g = [c]" by (cases g) auto
    then show ?thesis by (simp add: escape_byte_def escape_glyph_def)
  next
    case False
    with Cons.prems show ?thesis by (auto simp: escape_bytes_id escape_glyph_def)
  qed
  with Cons show ?case by simp
qed simp

lemma field_text_quote: "field_reads enc f gs \<Longrightarrow> \<not> is_unquoted_safe (fst f) \<Longrightarrow> field_text (fst f) (concat gs) = quote_text gs"
  by (simp add: field_reads_def field_text_def quote_text_def escape_bytes_glyphs)

text \<open>A single byte where a separator is expected.\<close>

lemma ascii_sep [simp]: "ascii '')''" "ascii '']''" "ascii ''(''"
  by (simp_all add: ascii_def)

lemma parse_composite_field_text:
  assumes "field_reads enc (T, v) gs" "length input \<le> max_size" "input = a @ field_text T (concat gs) @ c # b"
    and "c = CHR '','' \<or> c = CHR '')'' \<or> c = CHR '']''"
  shows "parse_composite_field enc index input (length a) T last_field =
    (let pos = length a + length (field_text T (concat gs)) in
     if index < last_field then
       (if c = CHR '','' then Inr (Some (pos + 1, v))
        else okU (conversion_error (''Found '' @ quoted_name [c] @ '' in composite value where comma was expected: '' @ c_string input)))
     else if c = CHR '','' then
       okU (conversion_error (''Composite value contained more fields than the expected '' @
         nat_to_string last_field @ '': '' @ c_string input))
     else if b = [] then Inr (Some (pos + 1, v))
     else okU (conversion_error (''Composite value has unexpected text after closing parenthesis: '' @ input)))"
proof -
  let ?t = "field_text T (concat gs)" and ?scan = "get_glyph_scanner enc input (length input)"
  let ?pos = "length a + length ?t"
  have rd: "from_string T (concat gs) = Inr v" "list_all (is_glyph enc) gs" using assms(1) by (simp_all add: field_reads_def)
  have c: "ascii [c]" "c \<noteq> CHR 0x22" "c \<in> set '',)]''" using assms(4) by auto
  have "length ?t + length a < length input" by (simp add: assms(3))
  then have end1: "?scan ?pos = Inr (Some (?pos + 1))" "input ! ?pos = c"
    using ascii_at [OF c(1), of "a @ ?t" "length input" enc b] by (simp_all add: assms(3) nth_append)
  have first: "\<exists>x t. ?t = x # t \<and> ?scan (length a) = Inr (Some (length a + 1)) \<and> x \<notin> set '',)]'' \<and> (x = CHR 0x22 \<longleftrightarrow> \<not> is_unquoted_safe T)"
  proof (cases "is_unquoted_safe T")
    case True
    then obtain x gs' where gs: "gs = [x] # gs'" using assms(1) by (cases gs; cases "hd gs") (auto simp: field_reads_def)
    then have g: "is_glyph enc [x]" "x \<notin> set '',)]''" "x \<noteq> CHR 0x22" using assms(1) True by (auto simp: field_reads_def)
    have "input = a @ [x] @ concat gs' @ c # b" using True gs assms(3) by (simp add: field_text_def)
    then have "?scan (length a) = Inr (Some (length a + 1))"
      using glyph_at [OF g(1), of a "length input" "concat gs' @ c # b"] by simp
    with True gs g show ?thesis by (simp add: field_text_def)
  next
    case False
    then have "?t = CHR 0x22 # concat (map escape_byte (concat gs)) @ [CHR 0x22]" by (simp add: field_text_def)
    moreover have "?scan (length a) = Inr (Some (length a + 1))"
      using ascii_at [of "CHR 0x22" a "length input" enc] by (simp add: assms(3) calculation)
    ultimately show ?thesis using False by auto
  qed
  then obtain x t where x: "?t = x # t" "?scan (length a) = Inr (Some (length a + 1))" "x \<notin> set '',)]''"
    "x = CHR 0x22 \<longleftrightarrow> \<not> is_unquoted_safe T" by blast
  then have at: "input ! length a = x" by (simp add: assms(3))
  have val: "(if input ! length a = CHR 0x22 then
                 bindU (scan_double_quoted_string enc input (length input) (length a)) (\<lambda>stop.
                 bindU (parse_double_quoted_string enc input stop (length a)) (\<lambda>buf.
                 bindU (okU (from_string T buf)) (\<lambda>e. Inr (Some (stop, e)))))
               else
                 bindU (scan_unquoted_string enc '',)]'' input (length input) (length a)) (\<lambda>stop.
                 bindU (okU (from_string T (slice input (length a) stop))) (\<lambda>e. Inr (Some (stop, e))))) = Inr (Some (?pos, v))"
  proof (cases "is_unquoted_safe T")
    case True
    then have t: "?t = concat gs" by (simp add: field_text_def)
    have "scan_unquoted_string enc '',)]'' input (length input) (length a) = Inr (Some (length a + length (concat gs)))"
      by (rule scan_bare [of _ _ _ "c # b"]) (use assms(1,3) True c t in \<open>auto simp: field_reads_def\<close>)
    moreover have "slice input (length a) (length a + length (concat gs)) = concat gs"
      unfolding assms(3) t by (rule slice_append)
    ultimately show ?thesis using True x(4) rd(1) at t by simp
  next
    case False
    then have q: "?t = quote_text gs" using field_text_quote [OF assms(1)] by simp
    from quoted_field [OF rd(2), of "c # b" input a] c assms(2,3) q
    show ?thesis using False x(4) rd(1) at by (simp add: after_quote_def)
  qed
  have "length input = ?pos + 1 \<longleftrightarrow> b = []" by (simp add: assms(3))
  then show ?thesis
    using x(2,3) val end1 at c(3) assms(4) unfolding parse_composite_field_def Let_def by auto
qed

definition field_ok :: "encoding_group \<Rightarrow> 'e field_type \<times> 'e \<Rightarrow> string list \<Rightarrow> bool" where
  "field_ok enc f gs \<longleftrightarrow> field_writes f (concat gs) \<and> field_reads enc f gs"

lemma field_ok_writes: "list_all2 (field_ok enc) fs gss \<Longrightarrow> list_all2 field_writes fs (map concat gss)"
  by (induction rule: list_all2_induct) (simp_all add: field_ok_def)

lemma parse_composite_fields_text:
  "list_all2 (field_ok enc) fs gss \<Longrightarrow> fs \<noteq> [] \<Longrightarrow> length input \<le> max_size \<Longrightarrow>
   input = a @ join CHR '','' (field_texts fs (map concat gss)) @ '')'' \<Longrightarrow> index + length fs = last_field + 1 \<Longrightarrow>
   parse_composite_fields (map fst fs) enc index input (length a) last_field = Inr (Some (length input, map snd fs))"
proof (induction fs gss arbitrary: a index rule: list_all2_induct)
  case (Cons f fs gs gss)
  obtain T v where f: "f = (T, v)" by (cases f)
  with Cons.hyps(1) have r: "field_reads enc (T, v) gs" by (simp add: field_ok_def)
  let ?t = "field_text T (concat gs)"
  show ?case
  proof (cases "fs = []")
    case True
    then have i: "input = a @ ?t @ CHR '')'' # []" "index = last_field" using Cons.prems Cons.hyps(2) f by simp_all
    from parse_composite_field_text [OF r Cons.prems(2) i(1), of index last_field] i True show ?thesis by (simp add: f)
  next
    case False
    let ?j = "join CHR '','' (field_texts fs (map concat gss))"
    have ne: "field_texts fs (map concat gss) \<noteq> []"
      using field_texts_Nil [OF field_ok_writes [OF Cons.hyps(2)]] False by simp
    then have i: "input = a @ ?t @ CHR '','' # ?j @ '')''" "input = (a @ ?t @ '','') @ ?j @ '')''"
      using Cons.prems(3) f by simp_all
    have "index < last_field" using Cons.prems(4) False by (cases fs) simp_all
    with parse_composite_field_text [OF r Cons.prems(2) i(1), of index last_field]
    have "parse_composite_field enc index input (length a) T last_field = Inr (Some (length (a @ ?t @ '',''), v))" by simp
    moreover have "parse_composite_fields (map fst fs) enc (index + 1) input (length (a @ ?t @ '','')) last_field =
        Inr (Some (length input, map snd fs))"
      by (rule Cons.IH [OF False Cons.prems(2) i(2)]) (use Cons.prems(4) in simp)
    ultimately show ?thesis by (simp add: f)
  qed
qed simp

lemma parse_composite_text:
  assumes "list_all2 (field_ok enc) fs gss" "fs \<noteq> []" "length (composite_text (field_texts fs (map concat gss))) \<le> max_size"
  shows "parse_composite enc (composite_text (field_texts fs (map concat gss))) (map fst fs) = Inr (Some (map snd fs))"
proof -
  let ?s = "composite_text (field_texts fs (map concat gss))"
  have s: "?s = ''('' @ join CHR '','' (field_texts fs (map concat gss)) @ '')''" by (simp add: composite_text_def)
  have "get_glyph_scanner enc ?s (length ?s) 0 = Inr (Some 1)"
    using ascii_at [of "CHR ''(''" "[]" "length ?s" enc] by (simp add: composite_text_def)
  moreover have "parse_composite_fields (map fst fs) enc 0 ?s 1 (length fs - 1) = Inr (Some (length ?s, map snd fs))"
    using parse_composite_fields_text [OF assms(1-3) s, of 0 "length fs - 1"] assms(2) by (cases fs) simp_all
  moreover have "?s ! (length ?s - 1) = CHR '')''" "?s ! 0 = CHR ''(''" "length ?s \<noteq> 0" by (simp_all add: composite_text_def nth_append)
  ultimately show ?thesis by (simp add: parse_composite_def)
qed

text \<open>
  C17. A composite value of two or more fields, none of them null, written into any buffer of the advertised size.  Let
  the conversions of each field keep their contract (its text fits the size it asks for and converts back), and let its
  text consist of whole characters of the encoding.  The text of a field that is written without quotes begins with a
  one-byte character other than a quote and has no comma and no closing parenthesis or bracket; in the text of a field that is
  quoted no multibyte character has the byte of a quote or a backslash (which SJIS or BIG5 text may have).  Then no byte
  outside of the buffer is touched, although the text of every field is escaped inside of the buffer it is converted
  to; the buffer gets the fields in parentheses with commas between, and reading that text gives back all of the values.
\<close>

theorem composite_roundtrip:
  assumes "list_all2 (field_ok enc) fs gss" "2 \<le> length fs" "composite_size_buffer fs \<le> length buf" "length buf \<le> max_size"
  shows "\<exists>buf'. composite_into_buf buf fs = Inr (Some (buf', length (composite_text (field_texts fs (map concat gss))) + 1)) \<and>
    length buf' = length buf \<and>
    take (length (composite_text (field_texts fs (map concat gss))) + 1) buf' = composite_text (field_texts fs (map concat gss)) @ [CHR 0x00] \<and>
    parse_composite enc (composite_text (field_texts fs (map concat gss))) (map fst fs) = Inr (Some (map snd fs))"
proof -
  let ?j = "join CHR '','' (field_texts fs (map concat gss))" and ?s = "composite_text (field_texts fs (map concat gss))"
  have ne: "fs \<noteq> []" using assms(2) by auto
  from open_composite [OF field_ok_writes [OF assms(1)] ne assms(3)] obtain b where
    b: "put buf 0 (CHR ''('') = Inr (Some (buf[0 := CHR ''('']))"
    "write_composite_fields fs (buf[0 := CHR ''('']) 1 = Inr (Some (b, length ?j + 2))"
    "length b = length buf" "take (length ?j + 2) b = CHR ''('' # ?j @ '',''" "length ?j + 3 \<le> length buf" by blast
  have "take (length ?j + 1) b = take (length ?j + 1) (take (length ?j + 2) b)" by (simp add: min_def)
  also have "\<dots> = ''('' @ ?j" unfolding b(4) by simp
  finally have "take (length ?j + 1) b = ''('' @ ?j" .
  from close_composite [OF this] b(3,5) obtain b' where
    "bindU (put b (length ?j + 1) (CHR '')'')) (\<lambda>buf. bindU (put buf (length ?j + 1 + 1) (CHR 0x00)) (\<lambda>buf. Inr (Some (buf, length ?j + 1 + 2)))) =
      Inr (Some (b', length ?j + 1 + 2))" "length b' = length buf" "take (length ?j + 1 + 2) b' = (''('' @ ?j) @ '')'' @ [CHR 0x00]" by auto
  moreover have "length ?s \<le> max_size" using b(5) assms(4) by (simp add: composite_text_def)
  ultimately show ?thesis
    using b(1,2) assms(2,3) ne parse_composite_text [OF assms(1) ne]
    by (simp add: composite_into_buf_def composite_text_def Let_def)
qed

text \<open>
  A composite value of one field goes wrong in every case: the comma behind it is not taken back, and the text
  with the comma is rejected on reading; and that comma has no place in a buffer of the advertised size, so that a
  field that needs all of the space it was given is written over the end of the buffer.
\<close>

theorem composite_single_field:
  assumes "field_ok enc f gs" "length buf \<ge> composite_size_buffer [f]" "length buf \<le> max_size"
  shows "(length (field_text (fst f) (concat gs)) + 4 \<le> length buf \<longrightarrow>
      (\<exists>buf' msg. composite_into_buf buf [f] = Inr (Some (buf', length (field_text (fst f) (concat gs)) + 4)) \<and>
        take (length (field_text (fst f) (concat gs)) + 4) buf' = ''('' @ field_text (fst f) (concat gs) @ '',)'' @ [CHR 0x00] \<and>
        parse_composite enc (''('' @ field_text (fst f) (concat gs) @ '',)'') [fst f] = Inl (Pqxx_conversion_error msg))) \<and>
    (length buf < length (field_text (fst f) (concat gs)) + 4 \<longrightarrow> composite_into_buf buf [f] = Inr None)"
proof -
  obtain T v where f: "f = (T, v)" by (cases f)
  let ?t = "field_text T (concat gs)"
  have w: "list_all2 field_writes [f] [concat gs]" using assms(1) by (simp add: field_ok_def)
  from open_composite [OF w _ assms(2)] obtain b where
    b: "put buf 0 (CHR ''('') = Inr (Some (buf[0 := CHR ''('']))"
    "write_composite_fields [f] (buf[0 := CHR ''('']) 1 = Inr (Some (b, length ?t + 2))"
    "length b = length buf" "take (length ?t + 2) b = CHR ''('' # ?t @ '',''" "length ?t + 3 \<le> length buf" by (auto simp: f)
  show ?thesis
  proof (intro conjI impI)
    assume "length (field_text (fst f) (concat gs)) + 4 \<le> length buf"
    then have room: "length ?t + 2 + 2 \<le> length b" using b(3) by (simp add: f)
    from close_composite [OF b(4) room] obtain b' where
      c: "bindU (put b (length ?t + 2) (CHR '')'')) (\<lambda>buf. bindU (put buf (length ?t + 2 + 1) (CHR 0x00)) (\<lambda>buf. Inr (Some (buf, length ?t + 2 + 2)))) =
        Inr (Some (b', length ?t + 2 + 2))" "take (length ?t + 2 + 2) b' = (CHR ''('' # ?t @ '','') @ '')'' @ [CHR 0x00]" by blast
    let ?s = "''('' @ ?t @ '',)''"
    have r: "field_reads enc (T, v) gs" using assms(1) by (simp add: field_ok_def f)
    have "length ?s \<le> max_size" using room b(3) assms(3) by simp
    from parse_composite_field_text [OF r this, of "''(''" "CHR '',''" "'')''" 0 0]
    obtain msg where "parse_composite_field enc 0 ?s 1 T 0 = Inl (Pqxx_conversion_error msg)" by (auto simp: conversion_error_def)
    moreover have "get_glyph_scanner enc ?s (length ?s) 0 = Inr (Some 1)"
      using ascii_at [of "CHR ''(''" "[]" "length ?s" enc] by simp
    ultimately have "parse_composite enc ?s [T] = Inl (Pqxx_conversion_error msg)" by (simp add: parse_composite_def)
    with b(1,2) c assms(2)
    show "\<exists>buf' msg. composite_into_buf buf [f] = Inr (Some (buf', length (field_text (fst f) (concat gs)) + 4)) \<and>
        take (length (field_text (fst f) (concat gs)) + 4) buf' = ''('' @ field_text (fst f) (concat gs) @ '',)'' @ [CHR 0x00] \<and>
        parse_composite enc (''('' @ field_text (fst f) (concat gs) @ '',)'') [fst f] = Inl (Pqxx_conversion_error msg)"
      by (simp add: composite_into_buf_def Let_def f eval_nat_numeral)
  next
    assume "length buf < length (field_text (fst f) (concat gs)) + 4"
    then have "length buf = length ?t + 3" using b(5) by (simp add: f)
    with b(1-3) assms(2) show "composite_into_buf buf [f] = Inr None"
      by (simp add: composite_into_buf_def Let_def put_def f)
  qed
qed

section \<open>Examples\<close>

text \<open>Values of several types in one composite.\<close>

datatype cpp_value = Number int | Text string

fun the_int :: "cpp_value \<Rightarrow> int" where
  "the_int (Number i) = i" | "the_int (Text s) = 0"

fun the_text :: "cpp_value \<Rightarrow> string" where
  "the_text (Text s) = s" | "the_text (Number i) = []"

definition embed :: "('a \<Rightarrow> 'e) \<Rightarrow> ('e \<Rightarrow> 'a) \<Rightarrow> 'a field_type \<Rightarrow> 'e field_type" where
  "embed wrap prj T = \<lparr>from_string = (\<lambda>s. case from_string T s of Inl e \<Rightarrow> Inl e | Inr v \<Rightarrow> Inr (wrap v)),
     null_value = map_option wrap (null_value T), type_name = type_name T, is_unquoted_safe = is_unquoted_safe T,
     size_buffer = (\<lambda>v. size_buffer T (prj v)), to_buf = (\<lambda>buf begin v. to_buf T buf begin (prj v)),
     into_buf = (\<lambda>buf begin v. into_buf T buf begin (prj v))\<rparr>"

lemma embed_simps [simp]:
  "from_string (embed wrap prj T) s = (case from_string T s of Inl e \<Rightarrow> Inl e | Inr v \<Rightarrow> Inr (wrap v))"
  "is_unquoted_safe (embed wrap prj T) = is_unquoted_safe T" "size_buffer (embed wrap prj T) v = size_buffer T (prj v)"
  by (simp_all add: embed_def)

lemma writes_embed: "writes T (prj v) s \<Longrightarrow> writes (embed wrap prj T) v s"
  by (simp add: writes_def embed_def)

definition int_field :: "cpp_value field_type" where
  "int_field = embed Number the_int (integer_type cpp_int True)"

definition text_field :: "cpp_value field_type" where
  "text_field = embed Text the_text string_type"

lemma int_field_ok: "field_ok UTF8 (int_field, Number 355) [''3'', ''5'', ''5'']"
proof -
  have s: "int_to_string 355 = ''355''"
    by (simp add: int_to_string_def nat_to_string.simps digit_char_values)
  have "writes (integer_type cpp_int True) 355 ''355''"
    using int.writes_text [of 355 True] by (simp add: s)
  then have "writes int_field (Number 355) ''355''" unfolding int_field_def by (intro writes_embed) simp
  moreover have "from_string_arithmetic cpp_int ''355'' = Inr 355"
    using from_string_int_to_string [of cpp_int 355] by (simp add: s)
  moreover have "int_size_buffer cpp_int \<le> npos"
    by (simp add: int_size_buffer_def digits10_values cpp_int_def npos_def)
  ultimately show ?thesis
    by (simp add: field_ok_def field_writes_def field_reads_def int_field_def integer_type_def ascii_glyph ascii_def)
qed

lemma text_field_ok:
  assumes "list_all (is_glyph UTF8) gs" "length (concat gs) < npos" "\<forall>g \<in> set gs. length g \<noteq> 1 \<longrightarrow> CHR 0x22 \<notin> set g \<and> CHR 0x5C \<notin> set g"
  shows "field_ok UTF8 (text_field, Text (concat gs)) gs"
proof -
  have "writes text_field (Text (concat gs)) (concat gs)"
    unfolding text_field_def by (intro writes_embed) (simp add: str.writes_text)
  then show ?thesis
    using assms by (simp add: field_ok_def field_writes_def field_reads_def text_field_def string_size_buffer_def)
qed

lemma composite_roundtrip_witness:
  "\<exists>buf'. composite_into_buf (replicate 25 CHR 0x00) [(int_field, Number 355), (text_field, Text ([CHR 0x22] @ ''a''))] = Inr (Some (buf', 12)) \<and>
    take 12 buf' = ''(355,'' @ [CHR 0x22, CHR 0x5C, CHR 0x22, CHR ''a'', CHR 0x22] @ '')'' @ [CHR 0x00] \<and>
    parse_composite UTF8 (''(355,'' @ [CHR 0x22, CHR 0x5C, CHR 0x22, CHR ''a'', CHR 0x22] @ '')'') [int_field, text_field] =
      Inr (Some [Number 355, Text ([CHR 0x22] @ ''a'')])"
proof -
  let ?fs = "[(int_field, Number 355), (text_field, Text ([CHR 0x22] @ ''a''))]" and ?gss = "[[''3'', ''5'', ''5''], [[CHR 0x22], ''a'']]"
  have "field_ok UTF8 (text_field, Text (concat [[CHR 0x22], ''a''])) [[CHR 0x22], ''a'']"
    by (rule text_field_ok) (simp_all add: ascii_glyph ascii_def npos_def)
  then have ok: "list_all2 (field_ok UTF8) ?fs ?gss" using int_field_ok by simp
  have sz: "composite_size_buffer ?fs \<le> length (replicate 25 CHR 0x00)"
    by (simp add: composite_size_buffer_def size_composite_field_buffer_def int_field_def text_field_def integer_type_def
        string_size_buffer_def int_size_buffer_def digits10_values cpp_int_def npos_def)
  have "field_texts ?fs (map concat ?gss) = [''355'', [CHR 0x22, CHR 0x5C, CHR 0x22, CHR ''a'', CHR 0x22]]"
    by (simp add: field_text_def escape_byte_def int_field_def text_field_def integer_type_def)
  then have t: "composite_text (field_texts ?fs (map concat ?gss)) =
      ''(355,'' @ [CHR 0x22, CHR 0x5C, CHR 0x22, CHR ''a'', CHR 0x22] @ '')''" by (simp add: composite_text_def)
  have len: "length (''(355,'' @ [CHR 0x22, CHR 0x5C, CHR 0x22, CHR ''a'', CHR 0x22] @ '')'') + 1 = 12" by simp
  have two: "2 \<le> length ?fs" and max: "length (replicate 25 CHR 0x00) \<le> max_size" by (simp_all add: max_size_def)
  from composite_roundtrip [OF ok two sz max, unfolded t len] show ?thesis
    by (elim exE conjE, intro exI conjI) (assumption | simp)+
qed

lemma composite_single_field_witness:
  "composite_into_buf (replicate 7 CHR 0x00) [(text_field, Text [CHR 0x22])] = Inr None \<and>
   (\<exists>msg. parse_composite UTF8 (''('' @ [CHR 0x22, CHR 0x5C, CHR 0x22, CHR 0x22] @ '',)'') [text_field] = Inl (Pqxx_conversion_error msg))"
proof -
  have ok: "field_ok UTF8 (text_field, Text [CHR 0x22]) [[CHR 0x22]]"
    using text_field_ok [of "[[CHR 0x22]]"] by (simp add: ascii_glyph ascii_def npos_def)
  have sz: "composite_size_buffer [(text_field, Text [CHR 0x22])] = 7"
    by (simp add: composite_size_buffer_def size_composite_field_buffer_def text_field_def string_size_buffer_def npos_def)
  have t: "field_text text_field (concat [[CHR 0x22]]) = [CHR 0x22, CHR 0x5C, CHR 0x22, CHR 0x22]"
    by (simp add: field_text_def escape_byte_def text_field_def)
  have "length (replicate 7 CHR 0x00) \<le> max_size" "length (replicate 8 CHR 0x00) \<le> max_size" by (simp_all add: max_size_def)
  with composite_single_field [OF ok, of "replicate 7 CHR 0x00"] composite_single_field [OF ok, of "replicate 8 CHR 0x00"] sz t
  show ?thesis by (simp, blast)
qed

end
