(* ===== verification/Pqxx_Stream.thy ===== *)
theory Pqxx_Stream
  imports Pqxx_Conversions Pqxx_Transaction
begin

text \<open>
  Streaming rows with PostgreSQL's COPY: \<open>src/stream_to.cxx\<close>, \<open>include/pqxx/stream_to.hxx\<close>, \<open>src/stream_from.cxx\<close>,
  \<open>include/pqxx/stream_from.hxx\<close>, and the operations of the connection they stand on.  An operation of a stream is
  an action on the scope (connection and transaction) and the stream object.  The outcome \<open>None\<close> is undefined
  behaviour, or a failed assertion.
\<close>

section \<open>Actions that may be undefined\<close>

definition bindO :: "('w, 'a option) act \<Rightarrow> ('a \<Rightarrow> ('w, 'b option) act) \<Rightarrow> ('w, 'b option) act" where
  "bindO m f = (\<lambda>w. case m w of (Inl e, w) \<Rightarrow> (Inl e, w) | (Inr None, w) \<Rightarrow> (Inr None, w) | (Inr (Some x), w) \<Rightarrow> f x w)"

lemma bindO_Some [res_simps]: "m w = (Inr (Some x), w') \<Longrightarrow> bindO m f w = f x w'"
  by (simp add: bindO_def)

lemma bindO_Inl [res_simps]: "m w = (Inl e, w') \<Longrightarrow> bindO m f w = (Inl e, w')"
  by (simp add: bindO_def)

lemma bindO_None [res_simps]: "m w = (Inr None, w') \<Longrightarrow> bindO m f w = (Inr None, w')"
  by (simp add: bindO_def)

text \<open>Actions on the first and on the second part of a pair of states.\<close>

definition on_fst :: "('a, 'r) act \<Rightarrow> ('a \<times> 'b, 'r) act" where
  "on_fst m = (\<lambda>(a, b). case m a of (r, a) \<Rightarrow> (r, (a, b)))"

definition on_snd :: "('b, 'r) act \<Rightarrow> ('a \<times> 'b, 'r) act" where
  "on_snd m = (\<lambda>(a, b). case m b of (r, b) \<Rightarrow> (r, (a, b)))"

lemma on_fst_apply: "m a = (r, a') \<Longrightarrow> on_fst m (a, b) = (r, (a', b))"
  by (simp add: on_fst_def)

lemma on_snd_apply: "m b = (r, b') \<Longrightarrow> on_snd m (a, b) = (r, (a, b'))"
  by (simp add: on_snd_def)

definition resize_str :: "nat \<Rightarrow> string \<Rightarrow> string" where
  "resize_str n s = take n s @ replicate (n - length s) (CHR 0x00)"

lemma length_resize_str [simp]: "length (resize_str n s) = n"
  by (simp add: resize_str_def)

section \<open>The connection\<close>

text \<open>
  What libpq offers for COPY.  \<open>PQgetCopyData\<close> gives its result and the memory of the line, in which a zero byte
  follows the bytes it counts.
\<close>

record 's copy_libpq =
  pq :: "'s libpq"
  PQgetCopyData :: "nat \<Rightarrow> 's \<Rightarrow> int \<times> string \<times> 's"
  PQputCopyData :: "nat \<Rightarrow> string \<Rightarrow> 's \<Rightarrow> int \<times> 's"
  PQputCopyEnd :: "nat \<Rightarrow> 's \<Rightarrow> int \<times> 's"
  PQgetResult :: "nat \<Rightarrow> 's \<Rightarrow> pgresult option \<times> 's"
  PQescapeIdentifier :: "nat \<Rightarrow> string \<Rightarrow> 's \<Rightarrow> string option"

definition err_msg :: "'s copy_libpq \<Rightarrow> 's scope \<Rightarrow> string" where
  "err_msg K w = PQerrorMessage (pq K) (m_conn (cn w)) (srv w)"

definition end_copy :: "'s copy_libpq \<Rightarrow> ('s scope, pgresult) act" where
  "end_copy K = (\<lambda>w.
     case PQgetResult K (m_conn (cn w)) (srv w) of (r, s) \<Rightarrow> make_result (pq K) r ''[END COPY]'' (w\<lparr>srv := s\<rparr>))"

text \<open>A line is the memory libpq allocated for it and the size of its text in there, or a null pointer.\<close>

type_synonym raw_line = "(string \<times> nat) option"

definition read_copy_line :: "'s copy_libpq \<Rightarrow> ('s scope, raw_line) act" where
  "read_copy_line K = (\<lambda>w.
     case PQgetCopyData K (m_conn (cn w)) (srv w) of
       (line_len, buf, s) \<Rightarrow>
         let w = w\<lparr>srv := s\<rparr> in
         if line_len = -2 then throwA (Pqxx_failure (''Reading of table data failed: '' @ err_msg K w)) w
         else if line_len = -1 then bindA (end_copy K) (\<lambda>_. retA None) w
         else if line_len = 0 then throwA (Pqxx_internal_error ''table read inexplicably went asynchronous'') w
         else retA (Some (buf, nat ((line_len - 1) mod 2 ^ 64))) w)"

definition write_copy_line :: "'s copy_libpq \<Rightarrow> string \<Rightarrow> ('s scope, unit) act" where
  "write_copy_line K line = (\<lambda>w.
     if int (length line) > INT_MAX then
       throwA (Pqxx_range_error ''Cast overflow: Line in stream_to is too long to process.'') w
     else
       case PQputCopyData K (m_conn (cn w)) line (srv w) of
         (n, s) \<Rightarrow>
           let w = w\<lparr>srv := s\<rparr> in
           if n \<le> 0 then throwA (Pqxx_failure (''Error writing to table: '' @ err_msg K w)) w
           else
             case PQputCopyData K (m_conn (cn w)) [newline] (srv w) of
               (n, s) \<Rightarrow>
                 let w = w\<lparr>srv := s\<rparr> in
                 if n \<le> 0 then throwA (Pqxx_failure (''Error writing to table: '' @ err_msg K w)) w
                 else retA () w)"

definition end_copy_write :: "'s copy_libpq \<Rightarrow> ('s scope, unit) act" where
  "end_copy_write K = (\<lambda>w.
     case PQputCopyEnd K (m_conn (cn w)) (srv w) of
       (res, s) \<Rightarrow>
         let w = w\<lparr>srv := s\<rparr> in
         if res = -1 then throwA (Pqxx_failure (''Write to table failed: '' @ err_msg K w)) w
         else if res = 0 then throwA (Pqxx_internal_error ''table write is inexplicably asynchronous'') w
         else if res = 1 then bindA (end_copy K) (\<lambda>_. retA ()) w
         else throwA (Pqxx_internal_error
           (''unexpected result '' @ int_to_string res @ '' from PQputCopyEnd()'')) w)"

definition quote_name :: "'s copy_libpq \<Rightarrow> string \<Rightarrow> ('s scope, string) act" where
  "quote_name K identifier = (\<lambda>w.
     case PQescapeIdentifier K (m_conn (cn w)) identifier (srv w) of
       None \<Rightarrow> throwA (Pqxx_failure (err_msg K w)) w
     | Some s \<Rightarrow> retA s w)"

text \<open>\<open>quote_table\<close> of a path and \<open>quote_columns\<close>: the quoted names, joined by \<open>separated_list\<close>.\<close>

primrec quote_names :: "'s copy_libpq \<Rightarrow> string list \<Rightarrow> ('s scope, string list) act" where
  "quote_names K [] = retA []"
| "quote_names K (n # ns) = bindA (quote_name K n) (\<lambda>q. bindA (quote_names K ns) (\<lambda>qs. retA (q # qs)))"

definition quote_table :: "'s copy_libpq \<Rightarrow> string list \<Rightarrow> ('s scope, string) act" where
  "quote_table K path = bindA (quote_names K path) (\<lambda>qs. retA (join (CHR ''.'') qs))"

definition quote_columns :: "'s copy_libpq \<Rightarrow> string list \<Rightarrow> ('s scope, string) act" where
  "quote_columns K columns = bindA (quote_names K columns) (\<lambda>qs. retA (join (CHR '','') qs))"

section \<open>Transactions and their focus\<close>

definition tx_exec_n :: "'s libpq \<Rightarrow> nat \<Rightarrow> string \<Rightarrow> ('s scope, pgresult) act" where
  "tx_exec_n L rows query =
     bindA (tx_exec L query) (\<lambda>r.
     if length (res_rows r) \<noteq> rows then throwA (Pqxx_unexpected_rows
       (''Expected '' @ nat_to_string rows @ '' row(s) of data from query , got '' @
        nat_to_string (length (res_rows r)) @ ''.''))
     else retA r)"

definition tx_exec0 :: "'s libpq \<Rightarrow> string \<Rightarrow> ('s scope, pgresult) act" where
  "tx_exec0 L query = tx_exec_n L 0 query"

text \<open>The base class of the streams, and what the two older ones have in common.\<close>

record transaction_focus =
  m_guest :: guest
  m_reg :: bool

record stream_focus = transaction_focus +
  m_finished :: bool

definition unregister_me :: "'s scope \<times> 'z transaction_focus_scheme \<Rightarrow> 's scope \<times> 'z transaction_focus_scheme" where
  "unregister_me = (\<lambda>(w, st). (unregister_focus (m_guest st) w, st\<lparr>m_reg := False\<rparr>))"

definition register_pending_error :: "string \<Rightarrow> 's scope \<Rightarrow> 's scope" where
  "register_pending_error err w =
     (if m_pending_error (tx w) = [] \<and> err \<noteq> [] then w\<lparr>tx := (tx w)\<lparr>m_pending_error := err\<rparr>\<rparr> else w)"

text \<open>The search function for the encoding of the connection.\<close>

definition get_finder :: "'s libpq \<Rightarrow> string \<Rightarrow> ('s scope, char_finder_func) act" where
  "get_finder L needle =
     bindA (encoding_id L) (\<lambda>enc.
     bindA (liftR (enc_group (pg_encoding_to_char L enc))) (\<lambda>group.
     liftR (get_char_finder needle group)))"

section \<open>Writing rows\<close>

text \<open>
  How \<open>append_to_buffer\<close> treats a type: one that is always null, arithmetic types, the string types (the view it
  takes of a value), and all others, which are converted first.
\<close>

datatype 'e storage = Always_null | Arithmetic | Text "'e \<Rightarrow> string" | Converted

record 'e column_type =
  col :: "'e field_type"
  storage :: "'e storage"
  is_null :: "'e \<Rightarrow> bool"

record stream_to = stream_focus +
  m_buffer :: string
  m_field_buf :: string
  m_finder :: char_finder_func

text \<open>Backspace, form feed, newline, carriage return, both tabs and the backslash.\<close>

definition copy_specials :: string where
  "copy_specials = [CHR 0x08, CHR 0x0C, CHR 0x0A, CHR 0x0D, CHR 0x09, CHR 0x0B, CHR 0x5C]"

definition begin_copy :: "'s libpq \<Rightarrow> string \<Rightarrow> string \<Rightarrow> ('s scope, pgresult) act" where
  "begin_copy L table columns =
     tx_exec0 L (if columns = [] then ''COPY '' @ table @ '' FROM STDIN''
                 else ''COPY '' @ table @ ''('' @ columns @ '') FROM STDIN'')"

text \<open>The constructor, for an object at address \<open>this\<close>.\<close>

definition new_stream_to :: "'s libpq \<Rightarrow> nat \<Rightarrow> string \<Rightarrow> string \<Rightarrow> ('s scope, stream_to) act" where
  "new_stream_to L this path columns =
     (let guest = (this, ''stream_to'', path) in
      bindA (get_finder L copy_specials) (\<lambda>finder.
      bindA (begin_copy L path columns) (\<lambda>_.
      bindA (register_focus guest) (\<lambda>_.
      retA \<lparr>m_guest = guest, m_reg = True, m_finished = False, m_buffer = [], m_field_buf = [], m_finder = finder\<rparr>))))"

text \<open>\<open>table\<close>, for a table and columns by their names.\<close>

definition stream_to_table :: "'s copy_libpq \<Rightarrow> nat \<Rightarrow> string list \<Rightarrow> string list \<Rightarrow> ('s scope, stream_to) act" where
  "stream_to_table K this path columns =
     bindA (quote_table K path) (\<lambda>t. bindA (quote_columns K columns) (\<lambda>cs. new_stream_to (pq K) this t cs))"

text \<open>
  The move constructor: the object at \<open>this\<close> takes the place of \<open>other\<close>, the focus of the transaction included.
  The new object and what is left of the old one.
\<close>

definition move_stream_to :: "nat \<Rightarrow> stream_to \<Rightarrow> ('s scope, stream_to \<times> stream_to) act" where
  "move_stream_to this other = (\<lambda>w.
     let guest = (this, snd (m_guest other)); reg = m_reg other;
         (w, other) = (if reg then unregister_me (w, other) else (w, other));
         moved = other\<lparr>m_guest := (fst (m_guest other), fst (snd (m_guest other)), []), m_finished := True,
           m_buffer := [], m_field_buf := []\<rparr> in
     bindA (if reg then register_focus guest else retA ()) (\<lambda>_.
       retA (other\<lparr>m_guest := guest, m_reg := reg\<rparr>, moved)) w)"

definition escape_char :: "char \<Rightarrow> char res" where
  "escape_char c =
     (if c = CHR 0x08 then Inr (CHR ''b'')
      else if c = CHR 0x0C then Inr (CHR ''f'')
      else if c = CHR 0x0A then Inr (CHR ''n'')
      else if c = CHR 0x0D then Inr (CHR ''r'')
      else if c = CHR 0x09 then Inr (CHR ''t'')
      else if c = CHR 0x0B then Inr (CHR ''v'')
      else if c = CHR 0x5C then Inr (CHR 0x5C)
      else Inl (Pqxx_internal_error
        (''Stream escaping unexpectedly stopped at '' @ [CHR 0x27] @ nat_to_string (of_char c))))"

text \<open>The loop over the text \<open>data\<close>, which appends to the buffer.\<close>

function escape_field_loop :: "char_finder_func \<Rightarrow> string \<Rightarrow> nat \<Rightarrow> (string, unit option) act" where
  "escape_field_loop finder data here buf =
     (if here < length data then
        (case finder data here of
           Inl e \<Rightarrow> (Inl e, buf)
         | Inr None \<Rightarrow> (Inr None, buf)
         | Inr (Some stop_char) \<Rightarrow>
             if stop_char < here then (Inl (Length_error ''basic_string::append''), buf)
             else if length data < stop_char then (Inr None, buf)
             else
               let buf = buf @ slice data here stop_char in
               if stop_char < length data then
                 (case escape_char (data ! stop_char) of
                    Inl e \<Rightarrow> (Inl e, buf @ [CHR 0x5C])
                  | Inr c \<Rightarrow> escape_field_loop finder data (stop_char + 1) (buf @ [CHR 0x5C, c]))
               else escape_field_loop finder data (stop_char + 1) buf)
      else (Inr (Some ()), buf))"
  by pat_completeness auto
termination by (relation "measure (\<lambda>(finder, data, here, buf). length data - here)") auto

declare escape_field_loop.simps [simp del]

definition append_buffer :: "string \<Rightarrow> stream_to \<Rightarrow> stream_to" where
  "append_buffer s st = st\<lparr>m_buffer := m_buffer st @ s\<rparr>"

definition escape_field_to_buffer :: "string \<Rightarrow> (stream_to, unit option) act" where
  "escape_field_to_buffer data = (\<lambda>st.
     case escape_field_loop (m_finder st) data 0 (m_buffer st) of
       (Inr (Some _), buf) \<Rightarrow> (Inr (Some ()), st\<lparr>m_buffer := buf @ [CHR 0x09]\<rparr>)
     | (r, buf) \<Rightarrow> (r, st\<lparr>m_buffer := buf\<rparr>))"

definition null_field :: string where
  "null_field = [CHR 0x5C, CHR ''N'', CHR 0x09]"

definition estimate_buffer :: "'e column_type \<Rightarrow> 'e \<Rightarrow> nat" where
  "estimate_buffer C field =
     (if storage C = Always_null \<or> is_null C field then length null_field else size_buffer (col C) field)"

text \<open>The three ways of appending a value that is not null.\<close>

definition append_arithmetic :: "'e field_type \<Rightarrow> nat \<Rightarrow> 'e \<Rightarrow> (stream_to, unit option) act" where
  "append_arithmetic T budget f = (\<lambda>st.
     let offset = length (m_buffer st); buf = resize_str (offset + budget) (m_buffer st) in
     case into_buf T buf offset f of
       Inl e \<Rightarrow> (Inl e, st\<lparr>m_buffer := buf\<rparr>)
     | Inr None \<Rightarrow> (Inr None, st\<lparr>m_buffer := buf\<rparr>)
     | Inr (Some (buf, en)) \<Rightarrow>
         if en = 0 \<or> length buf < en then (Inr None, st\<lparr>m_buffer := buf\<rparr>)
         else (Inr (Some ()), st\<lparr>m_buffer := resize_str en (buf[en - 1 := CHR 0x09])\<rparr>))"

definition append_text :: "nat \<Rightarrow> string \<Rightarrow> (stream_to, unit option) act" where
  "append_text budget s = (\<lambda>st. escape_field_to_buffer s (st\<lparr>m_field_buf := resize_str budget (m_field_buf st)\<rparr>))"

definition append_converted :: "'e field_type \<Rightarrow> nat \<Rightarrow> 'e \<Rightarrow> (stream_to, unit option) act" where
  "append_converted T budget f = (\<lambda>st.
     let buf = resize_str budget (m_field_buf st) in
     case to_buf T buf 0 f of
       Inl e \<Rightarrow> (Inl e, st\<lparr>m_field_buf := buf\<rparr>)
     | Inr None \<Rightarrow> (Inr None, st\<lparr>m_field_buf := buf\<rparr>)
     | Inr (Some (buf, data, n)) \<Rightarrow>
         if length buf < data + n then (Inr None, st\<lparr>m_field_buf := buf\<rparr>)
         else escape_field_to_buffer (slice buf data (data + n)) (st\<lparr>m_field_buf := buf\<rparr>))"

definition append_to_buffer :: "'e column_type \<Rightarrow> 'e \<Rightarrow> (stream_to, unit option) act" where
  "append_to_buffer C f = (\<lambda>st.
     if storage C = Always_null \<or> is_null C f then (Inr (Some ()), append_buffer null_field st)
     else
       let budget = estimate_buffer C f in
       case storage C of
         Arithmetic \<Rightarrow> append_arithmetic (col C) budget f st
       | Text view \<Rightarrow> append_text budget (view f) st
       | _ \<Rightarrow> append_converted (col C) budget f st)"

primrec fill_buffer :: "('e column_type \<times> 'e) list \<Rightarrow> (stream_to, unit option) act" where
  "fill_buffer [] = retA (Some ())"
| "fill_buffer (f # fs) = bindO (append_to_buffer (fst f) (snd f)) (\<lambda>_. fill_buffer fs)"

definition write_raw_line :: "'s copy_libpq \<Rightarrow> string \<Rightarrow> ('s scope \<times> stream_to, unit) act" where
  "write_raw_line K line = on_fst (write_copy_line K line)"

text \<open>The tab after the last field is taken off again; the buffer is cleared once the line is out.\<close>

definition write_buffer :: "'s copy_libpq \<Rightarrow> ('s scope \<times> stream_to, unit option) act" where
  "write_buffer K = (\<lambda>(w, st).
     if m_buffer st \<noteq> [] \<and> last (m_buffer st) \<noteq> CHR 0x09 then (Inr None, (w, st))
     else
       let st = st\<lparr>m_buffer := butlast (m_buffer st)\<rparr> in
       bindA (write_raw_line K (m_buffer st)) (\<lambda>_ (w, st). retA (Some ()) (w, st\<lparr>m_buffer := []\<rparr>)) (w, st))"

definition write_row :: "'s copy_libpq \<Rightarrow> ('e column_type \<times> 'e) list \<Rightarrow> ('s scope \<times> stream_to, unit option) act" where
  "write_row K fs = bindO (on_snd (fill_buffer fs)) (\<lambda>_. write_buffer K)"

text \<open>\<open>complete\<close> and the destructor.\<close>

definition complete_to :: "'s copy_libpq \<Rightarrow> ('s scope \<times> stream_to, unit) act" where
  "complete_to K = (\<lambda>(w, st).
     if \<not> m_finished st then on_fst (end_copy_write K) (unregister_me (w, st\<lparr>m_finished := True\<rparr>))
     else retA () (w, st))"

definition destroy_to :: "'s copy_libpq \<Rightarrow> 's scope \<times> stream_to \<Rightarrow> 's scope" where
  "destroy_to K ws =
     (case complete_to K ws of (Inl e, (w, _)) \<Rightarrow> register_pending_error (what e) w | (Inr _, (w, _)) \<Rightarrow> w)"

section \<open>Reading rows\<close>

definition unescape_char :: "char \<Rightarrow> char" where
  "unescape_char escaped =
     (if escaped = CHR ''b'' then CHR 0x08
      else if escaped = CHR ''f'' then CHR 0x0C
      else if escaped = CHR ''n'' then CHR 0x0A
      else if escaped = CHR ''r'' then CHR 0x0D
      else if escaped = CHR ''t'' then CHR 0x09
      else if escaped = CHR ''v'' then CHR 0x0B
      else escaped)"

text \<open>A view into the row buffer: position and size, or a null pointer for a null field.\<close>

type_synonym zview = "(nat \<times> nat) option"

record stream_from = stream_focus +
  m_char_finder :: char_finder_func
  m_row :: string
  m_fields :: "zview list"

definition row_specials :: string where
  "row_specials = [CHR 0x09, CHR 0x5C]"

text \<open>The constructor; the public ones differ in the command they send.\<close>

definition new_stream_from :: "'s libpq \<Rightarrow> nat \<Rightarrow> string \<Rightarrow> ('s scope, string) act \<Rightarrow> ('s scope, stream_from) act" where
  "new_stream_from L this name command =
     (let guest = (this, ''stream_from'', name) in
      bindA (get_finder L row_specials) (\<lambda>finder.
      bindA command (\<lambda>cmd.
      bindA (tx_exec0 L cmd) (\<lambda>_.
      bindA (register_focus guest) (\<lambda>_.
      retA \<lparr>m_guest = guest, m_reg = True, m_finished = False, m_char_finder = finder, m_row = [], m_fields = []\<rparr>)))))"

definition stream_from_query :: "'s libpq \<Rightarrow> nat \<Rightarrow> string \<Rightarrow> ('s scope, stream_from) act" where
  "stream_from_query L this query = new_stream_from L this [] (retA (''COPY ('' @ query @ '') TO STDOUT''))"

definition stream_from_table :: "'s copy_libpq \<Rightarrow> nat \<Rightarrow> string \<Rightarrow> ('s scope, stream_from) act" where
  "stream_from_table K this table =
     new_stream_from (pq K) this table
       (bindA (quote_name K table) (\<lambda>q. retA (''COPY '' @ q @ '' TO STDOUT'')))"

definition stream_from_columns :: "'s libpq \<Rightarrow> nat \<Rightarrow> string \<Rightarrow> string \<Rightarrow> ('s scope, stream_from) act" where
  "stream_from_columns L this table columns =
     new_stream_from L this table (retA
       (if columns = [] then ''COPY '' @ table @ '' TO STDOUT''
        else ''COPY '' @ table @ ''('' @ columns @ '') TO STDOUT''))"

definition stream_from_path :: "'s copy_libpq \<Rightarrow> nat \<Rightarrow> string list \<Rightarrow> string list \<Rightarrow> ('s scope, stream_from) act" where
  "stream_from_path K this path columns =
     bindA (quote_table K path) (\<lambda>t. bindA (quote_columns K columns) (\<lambda>cs. stream_from_columns (pq K) this t cs))"

definition close_from :: "'s scope \<times> stream_from \<Rightarrow> 's scope \<times> stream_from" where
  "close_from ws = (if m_finished (snd ws) then ws else unregister_me (fst ws, (snd ws)\<lparr>m_finished := True\<rparr>))"

definition get_raw_line :: "'s copy_libpq \<Rightarrow> ('s scope \<times> stream_from, raw_line) act" where
  "get_raw_line K = (\<lambda>ws.
     if \<not> m_finished (snd ws) then
       (case on_fst (read_copy_line K) ws of
          (Inl e, ws) \<Rightarrow> (Inl e, if is_std_exception e then close_from ws else ws)
        | (Inr None, ws) \<Rightarrow> (Inr None, close_from ws)
        | (Inr (Some line), ws) \<Rightarrow> (Inr (Some line), ws))
     else (Inr None, ws))"

text \<open>The loop of \<open>complete\<close> need not end, for all the library knows.\<close>

partial_function (option) flush_lines ::
    "'s copy_libpq \<Rightarrow> 's scope \<times> stream_from \<Rightarrow> (unit res \<times> 's scope \<times> stream_from) option" where
  "flush_lines K ws =
     (case get_raw_line K ws of
        (Inl e, ws) \<Rightarrow> Some (Inl e, ws)
      | (Inr None, ws) \<Rightarrow> Some (Inr (), ws)
      | (Inr (Some _), ws) \<Rightarrow> flush_lines K ws)"

definition complete_from :: "'s copy_libpq \<Rightarrow> 's scope \<times> stream_from \<Rightarrow> (unit res \<times> 's scope \<times> stream_from) option" where
  "complete_from K ws =
     (if m_finished (snd ws) then Some (Inr (), ws)
      else case flush_lines K ws of
        None \<Rightarrow> None
      | Some (Inr _, ws) \<Rightarrow> Some (Inr (), close_from ws)
      | Some (Inl (Pqxx_broken_connection e), ws) \<Rightarrow> Some (Inl (Pqxx_broken_connection e), close_from ws)
      | Some (Inl e, (w, st)) \<Rightarrow>
          if is_std_exception e then Some (Inr (), close_from (register_pending_error (what e) w, st))
          else Some (Inl e, (w, st)))"

text \<open>The end of a field: its view, and a zero byte behind it.\<close>

definition end_field :: "nat \<Rightarrow> nat option \<Rightarrow> (string \<times> zview list, nat option) act" where
  "end_field write field_begin = (\<lambda>(row, views).
     case field_begin of
       None \<Rightarrow> (Inr (Some write), (row, views @ [None]))
     | Some b \<Rightarrow>
         if write < length row then (Inr (Some (write + 1)), (row[write := CHR 0x00], views @ [Some (b, write - b)]))
         else (Inr None, (row, views @ [Some (b, write - b)])))"

definition end_row :: "nat \<Rightarrow> nat option \<Rightarrow> (string \<times> zview list, unit option) act" where
  "end_row write field_begin = bindO (end_field write field_begin) (\<lambda>_. retA (Some ()))"

text \<open>
  The loop over the line.  \<open>write\<close> is a position in the row buffer; copies and writes beyond its end are undefined
  behaviour, and so is a position from the search function that makes no sense.
\<close>

function parse_loop :: "char_finder_func \<Rightarrow> string \<Rightarrow> nat \<Rightarrow> nat \<Rightarrow> nat option \<Rightarrow> (string \<times> zview list, unit option) act" where
  "parse_loop finder line offset write field_begin rf =
     (if offset < length line then
        (case finder line offset of
           Inl e \<Rightarrow> (Inl e, rf)
         | Inr None \<Rightarrow> (Inr None, rf)
         | Inr (Some stop_char) \<Rightarrow>
             if stop_char < offset \<or> length line < stop_char \<or> length (fst rf) < write + (stop_char - offset) then (Inr None, rf)
             else
               let rf = (blit (fst rf) write (slice line offset stop_char), snd rf);
                   write = write + (stop_char - offset) in
               if stop_char \<ge> length line then end_row write field_begin rf
               else if line ! stop_char = CHR 0x09 then
                 (case end_field write field_begin rf of
                    (Inl e, rf) \<Rightarrow> (Inl e, rf)
                  | (Inr None, rf) \<Rightarrow> (Inr None, rf)
                  | (Inr (Some write), rf) \<Rightarrow> parse_loop finder line (stop_char + 1) write (Some write) rf)
               else if line ! stop_char \<noteq> CHR 0x5C then (Inr None, rf)
               else if stop_char + 1 \<ge> length line then (Inl (Pqxx_failure ''Row ends in backslash''), rf)
               else
                 let escaped = line ! (stop_char + 1) in
                 if escaped = CHR ''N'' \<and> field_begin \<noteq> Some write then
                   (Inl (Pqxx_failure ''Null sequence found in nonempty field''), rf)
                 else if write \<ge> length (fst rf) then (Inr None, rf)
                 else
                   parse_loop finder line (stop_char + 2) (write + 1) (if escaped = CHR ''N'' then None else field_begin)
                     ((fst rf)[write := unescape_char escaped], snd rf))
      else end_row write field_begin rf)"
  by pat_completeness auto
termination by (relation "measure (\<lambda>(finder, line, offset, write, field_begin, rf). length line - offset)") auto

declare parse_loop.simps [simp del]

definition parse_row :: "char_finder_func \<Rightarrow> string \<Rightarrow> string \<Rightarrow> unit option res \<times> string \<times> zview list" where
  "parse_row finder line row = parse_loop finder line 0 0 (Some 0) (resize_str (length line + 1) row, [])"

definition parse_line :: "'s copy_libpq \<Rightarrow> ('s scope \<times> stream_from, unit option) act" where
  "parse_line K = (\<lambda>(w, st).
     if m_finished st then (Inr (Some ()), (w, st))
     else
       case get_raw_line K (w, st\<lparr>m_fields := []\<rparr>) of
         (Inl e, ws) \<Rightarrow> (Inl e, ws)
       | (Inr None, (w, st)) \<Rightarrow> (Inr (Some ()), (w, st\<lparr>m_finished := True\<rparr>))
       | (Inr (Some (buf, line_size)), (w, st)) \<Rightarrow>
           if line_size \<ge> npos div 2 then (Inl (Pqxx_range_error ''Stream produced a ridiculously long line.''), (w, st))
           else if length buf < line_size then (Inr None, (w, st))
           else (case parse_row (m_char_finder st) (take line_size buf) (m_row st) of
                   (r, (row, views)) \<Rightarrow> (r, (w, st\<lparr>m_row := row, m_fields := views\<rparr>))))"

text \<open>\<open>read_row\<close> gives a pointer to \<open>m_fields\<close> or a null pointer; here, the views.\<close>

definition read_row :: "'s copy_libpq \<Rightarrow> ('s scope \<times> stream_from, zview list option option) act" where
  "read_row K = bindO (parse_line K) (\<lambda>_ (w, st).
     (Inr (Some (if m_finished st then None else Some (m_fields st))), (w, st)))"

definition view_text :: "string \<Rightarrow> zview \<Rightarrow> string option" where
  "view_text row v = map_option (\<lambda>(b, n). slice row b (b + n)) v"

text \<open>\<open>operator>>\<close> into a tuple, whose elements keep their values where the type is always null.\<close>

definition extract_value :: "'e column_type \<Rightarrow> string \<Rightarrow> zview \<Rightarrow> 'e \<Rightarrow> 'e res" where
  "extract_value C row field old =
     (if storage C = Always_null then
        (if field \<noteq> None then Inl (Pqxx_conversion_error ''Streaming non-null value into null field.'') else Inr old)
      else
        case view_text row field of
          None \<Rightarrow> (case null_value (col C) of
              Some e \<Rightarrow> Inr e
            | None \<Rightarrow> Inl (Pqxx_conversion_error (''Attempt to convert null to '' @ type_name (col C) @ ''.'')))
        | Some text \<Rightarrow> from_string (col C) text)"

text \<open>The elements of the tuple in order; the ones before an exception have been assigned.\<close>

fun extract_fields :: "string \<Rightarrow> 'e column_type list \<Rightarrow> zview list \<Rightarrow> ('e list, unit) act" where
  "extract_fields row (C # Cs) (f # fs) (v # vs) =
     (case extract_value C row f v of
        Inl e \<Rightarrow> (Inl e, v # vs)
      | Inr v \<Rightarrow> (case extract_fields row Cs fs vs of (r, vs) \<Rightarrow> (r, v # vs)))"
| "extract_fields row _ _ vs = (Inr (), vs)"

definition extract_row ::
    "'s copy_libpq \<Rightarrow> 'e column_type list \<Rightarrow> (('s scope \<times> stream_from) \<times> 'e list, unit option) act" where
  "extract_row K Cs = (\<lambda>(ws, t).
     if m_finished (snd ws) then (Inr (Some ()), (ws, t))
     else
       bindO (on_fst (parse_line K)) (\<lambda>_ (ws, t).
         let st = snd ws in
         if m_finished st then (Inr (Some ()), (ws, t))
         else if length (m_fields st) \<noteq> length Cs then
           (Inl (Pqxx_usage_error (''Tried to extract '' @ nat_to_string (length Cs) @ '' field(s) from a stream of '' @
              nat_to_string (length (m_fields st)) @ ''.'')), (ws, t))
         else bindA (on_snd (extract_fields (m_row st) Cs (m_fields st))) (\<lambda>_. retA (Some ())) (ws, t)) (ws, t))"

text \<open>
  The input iterator of a stream: whether it still has its stream, and its value.  \<open>operator>>\<close> sets the value;
  the iterator lets go of the stream when that is at its end.
\<close>

definition advance ::
    "'s copy_libpq \<Rightarrow> 'e column_type list \<Rightarrow> (('s scope \<times> stream_from) \<times> bool \<times> 'e list, unit option) act" where
  "advance K Cs = (\<lambda>(ws, home, t).
     if \<not> home then (Inl (Pqxx_usage_error ''Moving stream_from iterator beyond end().''), (ws, home, t))
     else
       case extract_row K Cs (ws, t) of
         (Inr (Some _), (ws, t)) \<Rightarrow> (Inr (Some ()), (ws, \<not> m_finished (snd ws), t))
       | (r, (ws, t)) \<Rightarrow> (r, (ws, home, t)))"

section \<open>From one stream into another\<close>

text \<open>\<open>stream_to::operator<<(stream_from &)\<close>.  The streams are on two connections.\<close>

partial_function (option) copy_stream ::
    "'s copy_libpq \<Rightarrow> 't copy_libpq \<Rightarrow> ('s scope \<times> stream_from) \<times> ('t scope \<times> stream_to) \<Rightarrow>
      (unit option res \<times> ('s scope \<times> stream_from) \<times> ('t scope \<times> stream_to)) option" where
  "copy_stream K K' s =
     (if m_finished (snd (fst s)) then Some (Inr (Some ()), s)
      else
        case get_raw_line K (fst s) of
          (Inl e, src) \<Rightarrow> Some (Inl e, (src, snd s))
        | (Inr None, src) \<Rightarrow> Some (Inr (Some ()), (src, snd s))
        | (Inr (Some line), src) \<Rightarrow>
            if length (fst line) < snd line then Some (Inr None, (src, snd s))
            else
              case write_raw_line K' (take (snd line) (fst line)) (snd s) of
                (Inl e, dst) \<Rightarrow> Some (Inl e, (src, dst))
              | (Inr _, dst) \<Rightarrow> copy_stream K K' (src, dst))"

section \<open>The search functions on text made of glyphs\<close>

text \<open>The glyphs \<open>gs\<close> contain none of the characters searched for.\<close>

definition plain :: "encoding_group \<Rightarrow> string \<Rightarrow> string list \<Rightarrow> bool" where
  "plain enc needle gs \<longleftrightarrow> list_all (is_glyph enc) gs \<and> (\<forall>g \<in> set gs. length g = 1 \<longrightarrow> hd g \<notin> set needle)"

lemma plain_simps [simp]:
  "plain enc needle []"
  "plain enc needle (g # gs) \<longleftrightarrow> is_glyph enc g \<and> (length g = 1 \<longrightarrow> hd g \<notin> set needle) \<and> plain enc needle gs"
  by (auto simp: plain_def)

lemma glyph_hd_plain: "is_glyph enc g \<Longrightarrow> length g = 1 \<longrightarrow> hd g \<notin> set needle \<Longrightarrow> ascii needle \<Longrightarrow> hd g \<notin> set needle"
  using glyph_first by (fastforce simp: ascii_def)

lemma find_ascii_char_glyphs:
  "plain enc needle gs \<Longrightarrow> ascii needle \<Longrightarrow> b = [] \<or> hd b \<in> set needle \<Longrightarrow>
   find_ascii_char enc needle (a @ concat gs @ b) (length a) = Inr (Some (length a + length (concat gs)))"
proof (induction gs arbitrary: a)
  case Nil
  show ?case
  proof (cases b)
    case Nil
    then show ?thesis by (subst find_ascii_char.simps) simp
  next
    case (Cons c cs)
    then have "c \<in> set needle" "ascii [c]" using Nil.prems by (auto simp: ascii_def)
    with Cons ascii_at [of c a "length a + Suc (length cs)" enc cs] show ?thesis by (subst find_ascii_char.simps) simp
  qed
next
  case (Cons g gs)
  let ?s = "a @ concat (g # gs) @ b"
  have g: "is_glyph enc g" "hd g \<notin> set needle" using Cons.prems glyph_hd_plain by auto
  then have ne: "g \<noteq> []" by (simp add: is_glyph_def)
  have "get_glyph_scanner enc ?s (length ?s) (length a) = Inr (Some (length a + length g))"
    using glyph_at [OF g(1), of a "length ?s" "concat gs @ b"] by simp
  moreover have "?s ! length a \<notin> set needle" using g(2) ne by (cases g) (auto simp: nth_append)
  ultimately have "find_ascii_char enc needle ?s (length a) = find_ascii_char enc needle ?s (length (a @ g))"
    using ne by (subst find_ascii_char.simps) simp
  also have "\<dots> = Inr (Some (length (a @ g) + length (concat gs)))"
    using Cons.IH [of "a @ g"] Cons.prems by simp
  finally show ?case by simp
qed

lemma concat_singletons [simp]: "concat (map (\<lambda>c. [c]) s) = s"
  by (induction s) auto

lemma plain_bytes: "set s \<inter> set needle = {} \<Longrightarrow> plain MONOBYTE needle (map (\<lambda>c. [c]) s)"
  by (induction s) (auto simp: is_glyph_def mono_scan)

lemma bytewise_plain:
  assumes "plain enc needle gs" "enc \<in> bytewise" "ascii needle"
  shows "set (concat gs) \<inter> set needle = {}"
  using assms(1)
proof (induction gs)
  case (Cons g gs)
  have g: "is_glyph enc g" "hd g \<notin> set needle" using Cons.prems assms(3) glyph_hd_plain by auto
  then have ne: "g \<noteq> []" by (simp add: is_glyph_def)
  have "g ! i \<notin> set needle" if "i < length g" for i
    using glyph_no_needle [of enc g "length g" 0 "length g" needle i] g assms(2,3) ne that
    by (simp add: is_glyph_def hd_conv_nth)
  then have "set g \<inter> set needle = {}" by (auto simp: in_set_conv_nth)
  with Cons show ?case by auto
qed simp

lemma mono_plain: "plain MONOBYTE needle gs \<Longrightarrow> set (concat gs) \<inter> set needle = {}"
proof (induction gs)
  case (Cons g gs)
  then have "length g = 1" by (auto simp: is_glyph_def get_glyph_scanner_def scan_MONOBYTE_def glyph_end_def split: if_splits)
  with Cons show ?case by (cases g) auto
qed simp

text \<open>The contract of a search function that the library picks for an encoding.\<close>

definition finder_ok :: "encoding_group \<Rightarrow> string \<Rightarrow> char_finder_func \<Rightarrow> bool" where
  "finder_ok enc needle f \<longleftrightarrow>
     (\<forall>a gs b. plain enc needle gs \<longrightarrow> b = [] \<or> hd b \<in> set needle \<longrightarrow>
        f (a @ concat gs @ b) (length a) = Inr (Some (length a + length (concat gs))))"

definition finder_safe :: "string \<Rightarrow> char_finder_func \<Rightarrow> bool" where
  "finder_safe needle f \<longleftrightarrow>
     (\<forall>s here. here \<le> length s \<longrightarrow> f s here \<noteq> Inr None \<and>
        (\<forall>p. f s here = Inr (Some p) \<longrightarrow> here \<le> p \<and> p \<le> length s \<and> (p < length s \<longrightarrow> s ! p \<in> set needle)))"

lemma finder_okD: "finder_ok enc needle f \<Longrightarrow> plain enc needle gs \<Longrightarrow> b = [] \<or> hd b \<in> set needle \<Longrightarrow>
    f (a @ concat gs @ b) (length a) = Inr (Some (length a + length (concat gs)))"
  unfolding finder_ok_def by blast

lemma finder_safeD:
  assumes "finder_safe needle f" "here \<le> length s"
  shows "f s here \<noteq> Inr None"
    "f s here = Inr (Some p) \<Longrightarrow> here \<le> p \<and> p \<le> length s \<and> (p < length s \<longrightarrow> s ! p \<in> set needle)"
  using assms unfolding finder_safe_def by blast+

lemma find_ascii_char_ok: "ascii needle \<Longrightarrow> finder_ok enc needle (find_ascii_char enc needle)"
  using find_ascii_char_glyphs by (simp add: finder_ok_def)

lemma find_ascii_char_bytes_ok:
  assumes "ascii needle" "enc \<in> bytewise"
  shows "finder_ok enc needle (find_ascii_char MONOBYTE needle)"
  unfolding finder_ok_def
proof (intro allI impI)
  fix a gs b
  assume "plain enc needle gs" "b = [] \<or> hd b \<in> set needle"
  with find_ascii_char_glyphs [OF plain_bytes [OF bytewise_plain] assms(1), of enc gs b a] assms
  show "find_ascii_char MONOBYTE needle (a @ concat gs @ b) (length a) = Inr (Some (length a + length (concat gs)))" by simp
qed

lemma get_char_finder_ok:
  assumes "get_char_finder needle enc = Inr f" "ascii needle" "enc \<noteq> MULE_INTERNAL"
  shows "finder_ok enc needle f"
proof (cases "enc \<in> bytewise")
  case True
  then have "f = find_ascii_char MONOBYTE needle" using assms(1) by (auto simp: get_char_finder_def map_ascii_search_group_def)
  with find_ascii_char_bytes_ok [OF assms(2) True] show ?thesis by simp
next
  case False
  then have "f = find_ascii_char enc needle"
    using assms(1,3) by (cases enc; simp add: get_char_finder_def map_ascii_search_group_def)
  with find_ascii_char_ok [OF assms(2)] show ?thesis by simp
qed

lemma scan_defined: "enc \<noteq> MULE_INTERNAL \<Longrightarrow> get_glyph_scanner enc s n here \<noteq> Inr None"
  by (cases enc) (simp_all add: get_glyph_scanner_def scan_defs glyph_end_def throw_for_encoding_error_def Let_def)

lemma find_ascii_char_safe: "enc \<noteq> MULE_INTERNAL \<Longrightarrow> here \<le> length s \<Longrightarrow>
   find_ascii_char enc needle s here \<noteq> Inr None \<and>
   (\<forall>p. find_ascii_char enc needle s here = Inr (Some p) \<longrightarrow> here \<le> p \<and> p \<le> length s \<and> (p < length s \<longrightarrow> s ! p \<in> set needle))"
proof (induction enc needle s here rule: find_ascii_char.induct)
  case (1 enc needle s here)
  show ?case
  proof (cases "here < length s")
    case False
    then show ?thesis using 1(3) by (subst (1 2) find_ascii_char.simps) simp
  next
    case True
    show ?thesis
    proof (cases "get_glyph_scanner enc s (length s) here")
      case (Inl e)
      with True show ?thesis by (subst (1 2) find_ascii_char.simps) simp
    next
      case (Inr r)
      with scan_defined [OF 1(2)] obtain n where n: "get_glyph_scanner enc s (length s) here = Inr (Some n)" by (cases r) auto
      from glyph_progress [OF this True] have "here < n" "n \<le> length s" by simp_all
      with n True 1(1) [OF True n refl _ 1(2)] show ?thesis by (subst (1 2) find_ascii_char.simps) force
    qed
  qed
qed

lemma get_char_finder_safe:
  assumes "get_char_finder needle enc = Inr f"
  shows "finder_safe needle f"
proof -
  have "f = find_ascii_char (map_ascii_search_group enc) needle"
    using assms by (cases enc; simp add: get_char_finder_def map_ascii_search_group_def)
  moreover have "map_ascii_search_group enc \<noteq> MULE_INTERNAL" by (cases enc; simp add: map_ascii_search_group_def)
  ultimately show ?thesis unfolding finder_safe_def using find_ascii_char_safe by blast
qed

section \<open>Escaping\<close>

text \<open>A glyph in the text of a COPY line, and the field made of them.\<close>

definition copy_escape :: "string \<Rightarrow> string" where
  "copy_escape g =
     (if length g = 1 \<and> hd g \<in> set copy_specials
      then [CHR 0x5C, case escape_char (hd g) of Inr c \<Rightarrow> c | Inl _ \<Rightarrow> hd g] else g)"

definition copy_text :: "string list \<Rightarrow> string" where
  "copy_text gs = concat (map copy_escape gs)"

lemma copy_text_simps [simp]:
  "copy_text [] = []" "copy_text (g # gs) = copy_escape g @ copy_text gs" "copy_text (gs @ hs) = copy_text gs @ copy_text hs"
  by (simp_all add: copy_text_def)

lemma ascii_specials [simp]: "ascii copy_specials" "ascii row_specials"
  by (simp_all add: ascii_def copy_specials_def row_specials_def)

lemma copy_escape_special: "c \<in> set copy_specials \<Longrightarrow>
   \<exists>d. copy_escape [c] = [CHR 0x5C, d] \<and> escape_char c = Inr d \<and> unescape_char d = c \<and> d \<noteq> CHR ''N''"
  by (auto simp: copy_specials_def copy_escape_def escape_char_def unescape_char_def)

lemma copy_text_plain: "plain enc copy_specials gs \<Longrightarrow> copy_text gs = concat gs"
  by (induction gs) (auto simp: copy_escape_def)

lemma plain_mono: "plain enc copy_specials gs \<Longrightarrow> plain enc row_specials gs"
  by (auto simp: plain_def copy_specials_def row_specials_def)

lemma length_copy_text: "length (concat gs) \<le> length (copy_text gs)"
  by (induction gs) (auto simp: copy_escape_def)

text \<open>Glyphs up to the first special character.\<close>

lemma plain_prefix:
  assumes "list_all (is_glyph enc) gs"
  obtains (all) "plain enc copy_specials gs"
  | (special) ps c hs where "gs = ps @ [c] # hs" "plain enc copy_specials ps" "c \<in> set copy_specials"
      "list_all (is_glyph enc) hs" "length hs < length gs"
  using assms
proof (induction gs arbitrary: thesis)
  case Nil
  show ?case by (rule Nil.prems(1)) simp
next
  case (Cons g gs)
  show ?case
  proof (cases "length g = 1 \<and> hd g \<in> set copy_specials")
    case True
    then have "g # gs = [] @ [hd g] # gs" by (cases g) auto
    from Cons.prems(2) [OF this] True Cons.prems(3) show ?thesis by simp
  next
    case False
    show ?thesis
    proof (rule Cons.IH)
      assume "plain enc copy_specials gs"
      with False Cons.prems(1,3) show thesis by simp
    next
      fix ps c hs
      assume r: "gs = ps @ [c] # hs" "plain enc copy_specials ps" "c \<in> set copy_specials"
        "list_all (is_glyph enc) hs" "length hs < length gs"
      then have "g # gs = (g # ps) @ [c] # hs" by simp
      from Cons.prems(2) [OF this] r False Cons.prems(3) show thesis by simp
    qed (use Cons.prems(3) in simp)
  qed
qed

lemma slice_middle: "slice (a @ x @ b) (length a) (length a + length x) = x"
  by (simp add: slice_def)

lemma escape_field_loop_text:
  assumes "finder_ok enc copy_specials f"
  shows "list_all (is_glyph enc) gs \<Longrightarrow>
    escape_field_loop f (a @ concat gs) (length a) buf = (Inr (Some ()), buf @ copy_text gs)"
proof (induction gs arbitrary: a buf rule: length_induct)
  case (1 gs)
  show ?case
  proof (cases "concat gs = []")
    case True
    then have "gs = []" using 1(2) by (cases gs) (auto simp: is_glyph_def)
    then show ?thesis by (subst escape_field_loop.simps) simp
  next
    case ne: False
    from 1(2) show ?thesis
    proof (cases rule: plain_prefix)
      case all
      then have "f (a @ concat gs) (length a) = Inr (Some (length a + length (concat gs)))"
        using finder_okD [OF assms all, of "[]" a] by simp
      moreover have "slice (a @ concat gs) (length a) (length a + length (concat gs)) = concat gs"
        using slice_middle [of a "concat gs" "[]"] by simp
      moreover have "escape_field_loop f (a @ concat gs) (Suc (length a + length (concat gs))) b = (Inr (Some ()), b)" for b
        by (subst escape_field_loop.simps) simp
      ultimately show ?thesis using ne copy_text_plain [OF all] by (subst escape_field_loop.simps) simp
    next
      case (special ps c hs)
      let ?data = "a @ concat gs"
      have d: "?data = a @ concat ps @ c # concat hs" using special(1) by simp
      from copy_escape_special [OF special(3)] obtain e where e: "copy_escape [c] = [CHR 0x5C, e]" "escape_char c = Inr e" by blast
      have "f ?data (length a) = Inr (Some (length a + length (concat ps)))"
        using finder_okD [OF assms special(2), of "c # concat hs" a] special(3) d by simp
      moreover have "slice ?data (length a) (length a + length (concat ps)) = concat ps"
        unfolding d by (rule slice_middle)
      moreover have "?data ! (length a + length (concat ps)) = c" unfolding d by (simp add: nth_append)
      ultimately have "escape_field_loop f ?data (length a) buf =
          escape_field_loop f ?data (length a + length (concat ps) + 1) (buf @ concat ps @ [CHR 0x5C, e])"
        using e(2) special(1) by (subst escape_field_loop.simps) simp
      also have "\<dots> = escape_field_loop f ((a @ concat ps @ [c]) @ concat hs) (length (a @ concat ps @ [c]))
          (buf @ concat ps @ [CHR 0x5C, e])" using d by simp
      also have "\<dots> = (Inr (Some ()), (buf @ concat ps @ [CHR 0x5C, e]) @ copy_text hs)"
        using 1(1) special(4,5) by blast
      finally show ?thesis using special(1) e(1) copy_text_plain [OF special(2)] by simp
    qed
  qed
qed

lemma escape_field_text:
  assumes "finder_ok enc copy_specials (m_finder st)" "list_all (is_glyph enc) gs"
  shows "escape_field_to_buffer (concat gs) st = (Inr (Some ()), append_buffer (copy_text gs @ [CHR 0x09]) st)"
  using escape_field_loop_text [OF assms, of "[]" "m_buffer st"] by (simp add: escape_field_to_buffer_def append_buffer_def)

section \<open>Writing a row\<close>

text \<open>The text of a field in a COPY line, where \<open>None\<close> is a null, and the line.\<close>

definition field_line :: "string list option \<Rightarrow> string" where
  "field_line t = (case t of None \<Rightarrow> [CHR 0x5C, CHR ''N''] | Some gs \<Rightarrow> copy_text gs)"

definition copy_line :: "string list option list \<Rightarrow> string" where
  "copy_line ts = join (CHR 0x09) (map field_line ts)"

text \<open>The value of the column is null, or its text is the glyphs \<open>gs\<close>.\<close>

definition column_writes :: "encoding_group \<Rightarrow> 'e column_type \<times> 'e \<Rightarrow> string list option \<Rightarrow> bool" where
  "column_writes enc f t =
     (case t of
        None \<Rightarrow> storage (fst f) = Always_null \<or> is_null (fst f) (snd f)
      | Some gs \<Rightarrow> \<not> is_null (fst f) (snd f) \<and> list_all (is_glyph enc) gs \<and>
          (case storage (fst f) of
             Always_null \<Rightarrow> False
           | Arithmetic \<Rightarrow> writes (col (fst f)) (snd f) (concat gs) \<and> plain enc copy_specials gs
           | Text view \<Rightarrow> view (snd f) = concat gs
           | Converted \<Rightarrow> writes (col (fst f)) (snd f) (concat gs)))"

definition appends :: "(stream_to, unit option) act \<Rightarrow> string \<Rightarrow> stream_to \<Rightarrow> bool" where
  "appends m s st \<longleftrightarrow> (\<exists>fb. m st = (Inr (Some ()), (append_buffer s st)\<lparr>m_field_buf := fb\<rparr>))"

lemma appends_escape:
  assumes "finder_ok enc copy_specials (m_finder st)" "list_all (is_glyph enc) gs"
  shows "escape_field_to_buffer (concat gs) (st\<lparr>m_field_buf := fb\<rparr>) =
    (Inr (Some ()), (append_buffer (copy_text gs @ [CHR 0x09]) st)\<lparr>m_field_buf := fb\<rparr>)"
  using escape_field_text [of enc "st\<lparr>m_field_buf := fb\<rparr>" gs] assms by (simp add: append_buffer_def)

lemma append_arithmetic_text:
  assumes "writes T v s" "n = size_buffer T v"
  shows "append_arithmetic T n v st = (Inr (Some ()), append_buffer (s @ [CHR 0x09]) st)"
proof -
  let ?o = "length (m_buffer st)" and ?buf = "resize_str (length (m_buffer st) + n) (m_buffer st)"
  from writes_into [OF assms(1), of ?o ?buf] assms(2) obtain buf' where
    b: "into_buf T ?buf ?o v = Inr (Some (buf', ?o + length s + 1))" "length buf' = ?o + n"
      "take (?o + length s + 1) buf' = take ?o ?buf @ s @ [CHR 0x00]" by auto
  have l: "length s < n" using assms by (simp add: writes_def)
  have "take (?o + length s) buf' = take (?o + length s) (take (?o + length s + 1) buf')" by (simp add: min_def)
  also have "\<dots> = m_buffer st @ s" unfolding b(3) by (simp add: resize_str_def)
  finally have "resize_str (?o + length s + 1) (buf'[?o + length s := CHR 0x09]) = m_buffer st @ s @ [CHR 0x09]"
    using b(2) l by (simp add: resize_str_def take_Suc_conv_app_nth)
  with b(1,2) l show ?thesis by (simp add: append_arithmetic_def append_buffer_def Let_def)
qed

lemma append_converted_text:
  assumes "writes T v (concat gs)" "n = size_buffer T v" "finder_ok enc copy_specials (m_finder st)" "list_all (is_glyph enc) gs"
  shows "appends (append_converted T n v) (copy_text gs @ [CHR 0x09]) st"
proof -
  let ?buf = "resize_str n (m_field_buf st)"
  from writes_view [OF assms(1), of 0 ?buf] assms(2) obtain buf' data where
    b: "to_buf T ?buf 0 v = Inr (Some (buf', data, length (concat gs)))" "length buf' = n"
      "data + length (concat gs) < n" "take (length (concat gs)) (drop data buf') = concat gs" by auto
  have "slice buf' data (data + length (concat gs)) = concat gs" using b(4) by (simp add: slice_def)
  with b(1-3) appends_escape [OF assms(3,4)] show ?thesis by (auto simp: appends_def append_converted_def Let_def)
qed

lemma append_to_buffer_text:
  assumes "column_writes enc (C, v) t" "finder_ok enc copy_specials (m_finder st)"
  shows "appends (append_to_buffer C v) (field_line t @ [CHR 0x09]) st"
proof (cases t)
  case None
  with assms(1) have "append_to_buffer C v st = (Inr (Some ()), append_buffer (field_line t @ [CHR 0x09]) st)"
    by (simp add: column_writes_def append_to_buffer_def field_line_def null_field_def)
  also have "append_buffer (field_line t @ [CHR 0x09]) st =
      (append_buffer (field_line t @ [CHR 0x09]) st)\<lparr>m_field_buf := m_field_buf st\<rparr>" by (simp add: append_buffer_def)
  finally show ?thesis unfolding appends_def by blast
next
  case (Some gs)
  note c = assms(1) [unfolded column_writes_def Some]
  have g: "list_all (is_glyph enc) gs" "\<not> is_null C v" using c by simp_all
  show ?thesis
  proof (cases "storage C")
    case Always_null
    with c show ?thesis by simp
  next
    case Arithmetic
    with c have "writes (col C) v (concat gs)" "plain enc copy_specials gs" by simp_all
    from append_arithmetic_text [OF this(1) refl, of st] copy_text_plain [OF this(2)] Arithmetic g(2) Some
    have "append_to_buffer C v st = (Inr (Some ()), append_buffer (field_line t @ [CHR 0x09]) st)"
      by (simp add: append_to_buffer_def estimate_buffer_def field_line_def)
    also have "append_buffer (field_line t @ [CHR 0x09]) st =
        (append_buffer (field_line t @ [CHR 0x09]) st)\<lparr>m_field_buf := m_field_buf st\<rparr>" by (simp add: append_buffer_def)
    finally show ?thesis unfolding appends_def by blast
  next
    case (Text view)
    with c g(2) Some appends_escape [OF assms(2) g(1)] show ?thesis
      by (auto simp: appends_def append_to_buffer_def append_text_def field_line_def Let_def)
  next
    case Converted
    with c have "writes (col C) v (concat gs)" by simp
    from append_converted_text [OF this refl assms(2) g(1)] Converted g(2) Some show ?thesis
      by (simp add: appends_def append_to_buffer_def estimate_buffer_def field_line_def)
  qed
qed

lemma append_buffer_simps [simp]:
  "m_finder (append_buffer s st) = m_finder st" "m_buffer (append_buffer s st) = m_buffer st @ s"
  "append_buffer [] st = st" "append_buffer b (append_buffer a st) = append_buffer (a @ b) st"
  "append_buffer b (st\<lparr>m_field_buf := fb\<rparr>) = (append_buffer b st)\<lparr>m_field_buf := fb\<rparr>"
  by (simp_all add: append_buffer_def)

lemma fill_buffer_text:
  "list_all2 (column_writes enc) fs ts \<Longrightarrow> finder_ok enc copy_specials (m_finder st) \<Longrightarrow>
   appends (fill_buffer fs) (concat (map (\<lambda>t. field_line t @ [CHR 0x09]) ts)) st"
proof (induction fs ts arbitrary: st rule: list_all2_induct)
  case Nil
  show ?case unfolding appends_def by (intro exI [of _ "m_field_buf st"]) (simp add: retA_def)
next
  case (Cons f fs t ts)
  from Cons.hyps(1) have "column_writes enc (fst f, snd f) t" by simp
  from append_to_buffer_text [OF this Cons.prems] obtain fb where
    a: "append_to_buffer (fst f) (snd f) st = (Inr (Some ()), (append_buffer (field_line t @ [CHR 0x09]) st)\<lparr>m_field_buf := fb\<rparr>)"
    by (auto simp: appends_def)
  from Cons.IH [of "(append_buffer (field_line t @ [CHR 0x09]) st)\<lparr>m_field_buf := fb\<rparr>"] Cons.prems a
  show ?case by (simp add: appends_def bindO_def)
qed

lemma join_snoc: "ts \<noteq> [] \<Longrightarrow> concat (map (\<lambda>t. h t @ [c]) ts) = join c (map h ts) @ [c]"
  by (induction ts) (auto simp: neq_Nil_conv)

lemma write_row_text:
  assumes "list_all2 (column_writes enc) fs ts" "finder_ok enc copy_specials (m_finder st)" "ts \<noteq> []"
  shows "\<exists>fb. write_row K fs (w, st) =
    bindA (write_raw_line K (m_buffer st @ copy_line ts)) (\<lambda>_ (w, st). retA (Some ()) (w, st\<lparr>m_buffer := []\<rparr>))
      (w, st\<lparr>m_field_buf := fb, m_buffer := m_buffer st @ copy_line ts\<rparr>)"
proof -
  from fill_buffer_text [OF assms(1,2)] obtain fb where
    "fill_buffer fs st = (Inr (Some ()), (append_buffer (copy_line ts @ [CHR 0x09]) st)\<lparr>m_field_buf := fb\<rparr>)"
    using assms(3) by (auto simp: appends_def join_snoc copy_line_def)
  then show ?thesis
    by (intro exI [of _ fb]) (simp add: write_row_def bindO_def on_snd_def write_buffer_def append_buffer_def butlast_append Let_def)
qed

section \<open>Parsing a row\<close>

text \<open>What the loop does at the end of a field.\<close>

definition after_field :: "char_finder_func \<Rightarrow> string \<Rightarrow> nat \<Rightarrow> nat \<Rightarrow> nat option \<Rightarrow> (string \<times> zview list, unit option) act" where
  "after_field f line stop write fb =
     (if stop \<ge> length line then end_row write fb
      else bindO (end_field write fb) (\<lambda>write. parse_loop f line (stop + 1) write (Some write)))"

lemma parse_stop:
  assumes "f line (length a) = Inr (Some (length a + length x))" "line = a @ x @ b" "line \<noteq> a" "w + length x \<le> length row"
  shows "b = [] \<or> hd b = CHR 0x09 \<Longrightarrow>
      parse_loop f line (length a) w fb (row, vs) =
        after_field f line (length a + length x) (w + length x) fb (blit row w x, vs)"
    "b = CHR 0x5C # e # r \<Longrightarrow> e \<noteq> CHR ''N'' \<or> fb = Some w \<and> x = [] \<Longrightarrow> w + length x < length row \<Longrightarrow>
      parse_loop f line (length a) w fb (row, vs) =
        parse_loop f line (length a + length x + 2) (w + length x + 1) (if e = CHR ''N'' then None else fb)
          ((blit row w x)[w + length x := unescape_char e], vs)"
proof -
  have lt: "length a < length line" using assms(2,3) by (cases "x @ b") auto
  have sl: "slice line (length a) (length a + length x) = x" unfolding assms(2) by (rule slice_middle)
  show "parse_loop f line (length a) w fb (row, vs) =
      after_field f line (length a + length x) (w + length x) fb (blit row w x, vs)" if "b = [] \<or> hd b = CHR 0x09"
  proof (cases b)
    case Nil
    with lt assms(1,2,4) sl show ?thesis by (subst parse_loop.simps) (simp add: after_field_def)
  next
    case (Cons c cs)
    with that assms(2) have "line ! (length a + length x) = CHR 0x09" by (simp add: nth_append)
    with Cons lt assms(1,2,4) sl show ?thesis
      by (subst parse_loop.simps) (simp add: after_field_def bindO_def Let_def split: sum.split option.split prod.split)
  qed
  show "parse_loop f line (length a) w fb (row, vs) =
        parse_loop f line (length a + length x + 2) (w + length x + 1) (if e = CHR ''N'' then None else fb)
          ((blit row w x)[w + length x := unescape_char e], vs)"
    if b: "b = CHR 0x5C # e # r" and n: "e \<noteq> CHR ''N'' \<or> fb = Some w \<and> x = []" and room: "w + length x < length row"
  proof -
    have "line ! (length a + length x) = CHR 0x5C" "line ! (length a + length x + 1) = e"
      using assms(2) b by (simp_all add: nth_append)
    with lt assms(1,2,4) sl b n room show ?thesis by (subst parse_loop.simps) (auto simp: Let_def)
  qed
qed

lemma backslash_row [simp]: "CHR 0x5C \<in> set row_specials" "CHR 0x09 \<in> set row_specials"
  by (simp_all add: row_specials_def)

lemma parse_text:
  assumes "finder_ok enc row_specials f" "b = [] \<or> hd b = CHR 0x09"
  shows "list_all (is_glyph enc) gs \<Longrightarrow> line = a @ copy_text gs @ b \<Longrightarrow> w + length (copy_text gs) \<le> length row \<Longrightarrow>
    \<exists>row'. length row' = length row \<and> take (w + length (concat gs)) row' = take w row @ concat gs \<and>
      parse_loop f line (length a) w fb (row, vs) =
        after_field f line (length a + length (copy_text gs)) (w + length (concat gs)) fb (row', vs)"
proof (induction gs arbitrary: a w row rule: length_induct)
  case (1 gs)
  show ?case
  proof (cases "line = a")
    case True
    then have "gs = []" "b = []" using 1(2,3) length_copy_text [of gs] by (cases gs; auto simp: is_glyph_def)+
    with True show ?thesis
      by (intro exI [of _ row]) (subst parse_loop.simps, simp add: after_field_def)
  next
    case ne: False
    from 1(2) show ?thesis
    proof (cases rule: plain_prefix)
      case all
      have "f line (length a) = Inr (Some (length a + length (concat gs)))"
        using finder_okD [OF assms(1) plain_mono [OF all], of b a] assms(2) 1(3) copy_text_plain [OF all] by auto
      from parse_stop(1) [of f line a "concat gs", OF this, of b w row fb vs] 1(3,4) copy_text_plain [OF all] ne assms(2) take_blit [of w "concat gs" row]
      show ?thesis by (intro exI [of _ "blit row w (concat gs)"]) simp
    next
      case (special ps c hs)
      from copy_escape_special [OF special(3)] obtain d where
        d: "copy_escape [c] = [CHR 0x5C, d]" "unescape_char d = c" "d \<noteq> CHR ''N''" by blast
      let ?x = "concat ps" and ?b = "CHR 0x5C # d # copy_text hs @ b"
      have t: "copy_text gs = ?x @ CHR 0x5C # d # copy_text hs" using special(1) d(1) copy_text_plain [OF special(2)] by simp
      then have line: "line = a @ ?x @ ?b" using 1(3) by simp
      let ?row = "(blit row w ?x)[w + length ?x := c]" and ?a = "a @ ?x @ [CHR 0x5C, d]"
      have room: "w + length ?x < length row" using 1(4) t by simp
      have "f line (length a) = Inr (Some (length a + length ?x))"
        using finder_okD [OF assms(1) plain_mono [OF special(2)], of ?b a] line by simp
      from parse_stop(2) [of f line a ?x, OF this line ne less_imp_le [OF room] refl _ room, of fb vs] d(2,3)
      have step: "parse_loop f line (length a) w fb (row, vs) = parse_loop f line (length ?a) (w + length ?x + 1) fb (?row, vs)"
        by simp
      have "line = ?a @ copy_text hs @ b" "w + length ?x + 1 + length (copy_text hs) \<le> length ?row"
        using line room 1(4) t by simp_all
      with 1(1) special(4,5) obtain row' where r: "length row' = length ?row"
        "take (w + length ?x + 1 + length (concat hs)) row' = take (w + length ?x + 1) ?row @ concat hs"
        "parse_loop f line (length ?a) (w + length ?x + 1) fb (?row, vs) =
          after_field f line (length ?a + length (copy_text hs)) (w + length ?x + 1 + length (concat hs)) fb (row', vs)" by blast
      have "take (w + length ?x + 1) ?row = take w row @ ?x @ [c]"
        using room take_blit [of w ?x row] by (simp add: take_Suc_conv_app_nth)
      moreover have "length (copy_text gs) = length ?x + 2 + length (copy_text hs)" by (subst t) simp
      moreover have "concat gs = ?x @ c # concat hs" using special(1) by simp
      ultimately show ?thesis using r step room by (intro exI [of _ row']) (simp add: add.assoc)
    qed
  qed
qed

lemma parse_null:
  assumes "finder_ok enc row_specials f" "b = [] \<or> hd b = CHR 0x09" "line = a @ [CHR 0x5C, CHR ''N''] @ b" "w + 1 \<le> length row"
  shows "parse_loop f line (length a) w (Some w) (row, vs) =
    after_field f line (length a + 2) (w + 1) None (row[w := CHR ''N''], vs)"
proof -
  let ?a = "a @ [CHR 0x5C, CHR ''N'']" and ?row = "row[w := CHR ''N'']"
  have blit: "blit r w [] = r" for r w by (simp add: blit_def)
  have "f line (length a) = Inr (Some (length a + length []))"
    using finder_okD [OF assms(1), of "[]" "[CHR 0x5C, CHR ''N''] @ b" a] assms(3) by simp
  from parse_stop(2) [of f line a "[]", OF this, of "[CHR 0x5C, CHR ''N''] @ b" w row "CHR ''N''" b "Some w" vs] assms(3,4)
  have "parse_loop f line (length a) w (Some w) (row, vs) = parse_loop f line (length ?a) (w + 1) None (?row, vs)"
    by (simp add: blit unescape_char_def)
  also have "\<dots> = after_field f line (length ?a) (w + 1) None (?row, vs)"
  proof (cases "b = []")
    case True
    then show ?thesis using assms(3) by (subst parse_loop.simps) (simp add: after_field_def)
  next
    case False
    then have "f line (length ?a) = Inr (Some (length ?a + length []))"
      using finder_okD [OF assms(1), of "[]" b ?a] assms(2,3) by simp
    from parse_stop(1) [of f line ?a "[]", OF this, of b "w + 1" ?row None vs] assms(2-4) False show ?thesis by (simp add: blit)
  qed
  finally show ?thesis by simp
qed

text \<open>The text \<open>s\<close> at \<open>w\<close> in the row.\<close>

lemma field_view:
  assumes "take (w + length s) r = take w row @ s" "w \<le> length row"
  shows "take w r = take w row" "take (w + length s + 1) q = take (w + length s + 1) r \<Longrightarrow> slice q w (w + length s) = s"
proof -
  have "take w (take (w + length s) r) = take w (take w row @ s)" by (simp only: assms(1))
  then show "take w r = take w row" using assms(2) by (simp add: min_def)
  assume q: "take (w + length s + 1) q = take (w + length s + 1) r"
  have "take (w + length s) q = take (w + length s) (take (w + length s + 1) q)" by (simp add: min_def)
  also have "\<dots> = take w row @ s" unfolding q using assms(1) by (simp add: min_def)
  finally have "drop w (take (w + length s) q) = drop w (take w row @ s)" by simp
  then show "slice q w (w + length s) = s" using assms(2) by (simp add: slice_def drop_take)
qed

text \<open>One field: the loop comes to its end with a view that stays valid as long as what is before \<open>w2\<close> does.\<close>

lemma parse_field:
  assumes f: "finder_ok enc row_specials f" and b: "b = [] \<or> hd b = CHR 0x09" and g: "pred_option (list_all (is_glyph enc)) t"
    and line: "line = a @ field_line t @ b" and room: "w + length (field_line t) < length row"
  shows "\<exists>w1 fb row1 w2 row2 v.
    parse_loop f line (length a) w (Some w) (row, vs) = after_field f line (length a + length (field_line t)) w1 fb (row1, vs) \<and>
    end_field w1 fb (row1, vs) = (Inr (Some w2), (row2, vs @ [v])) \<and>
    w \<le> w2 \<and> w2 \<le> w + length (field_line t) + 1 \<and> length row2 = length row \<and> take w row2 = take w row \<and>
    (\<forall>r. take w2 r = take w2 row2 \<longrightarrow> view_text r v = map_option concat t)"
proof (cases t)
  case None
  then have "parse_loop f line (length a) w (Some w) (row, vs) = after_field f line (length a + 2) (w + 1) None (row[w := CHR ''N''], vs)"
    using parse_null [OF f b] line room by (simp add: field_line_def)
  with None show ?thesis
    by (intro exI [of _ "w + 1"] exI [of _ None] exI [of _ "row[w := CHR ''N'']"])
      (simp add: field_line_def end_field_def view_text_def)
next
  case (Some gs)
  let ?n = "length (concat gs)"
  from Some g line room obtain row1 where r: "length row1 = length row" "take (w + ?n) row1 = take w row @ concat gs"
    "parse_loop f line (length a) w (Some w) (row, vs) =
      after_field f line (length a + length (field_line t)) (w + ?n) (Some w) (row1, vs)"
    using parse_text [OF f b, of gs line a w row "Some w" vs] by (auto simp: field_line_def)
  have n: "?n \<le> length (field_line t)" using Some length_copy_text by (simp add: field_line_def)
  let ?row2 = "row1[w + ?n := CHR 0x00]"
  have wr: "w < length row" using room by simp
  have t: "take (w + ?n) ?row2 = take w row @ concat gs" using r(2) by simp
  note view = field_view [OF t less_imp_le [OF wr]]
  show ?thesis using r room n Some view
    by (intro exI [of _ "w + ?n"] exI [of _ "Some w"] exI [of _ row1] exI [of _ "w + ?n + 1"] exI [of _ ?row2]
        exI [of _ "Some (w, ?n)"]) (simp add: end_field_def view_text_def)
qed

lemma parse_fields:
  assumes f: "finder_ok enc row_specials f"
  shows "ts \<noteq> [] \<Longrightarrow> list_all (pred_option (list_all (is_glyph enc))) ts \<Longrightarrow> line = a @ copy_line ts \<Longrightarrow>
    w + length (copy_line ts) < length row \<Longrightarrow>
    \<exists>row' vs'. parse_loop f line (length a) w (Some w) (row, vs) = (Inr (Some ()), (row', vs @ vs')) \<and>
      length row' = length row \<and> take w row' = take w row \<and> map (view_text row') vs' = map (map_option concat) ts"
proof (induction ts arbitrary: a w row vs)
  case (Cons t ts)
  let ?b = "if ts = [] then [] else CHR 0x09 # copy_line ts"
  have line: "line = a @ field_line t @ ?b" and room: "w + length (field_line t) < length row"
    using Cons.prems(3,4) by (simp_all add: copy_line_def)
  from Cons.prems(2) have g: "pred_option (list_all (is_glyph enc)) t" "list_all (pred_option (list_all (is_glyph enc))) ts" by simp_all
  have "?b = [] \<or> hd ?b = CHR 0x09" by simp
  from parse_field [OF f this g(1) line room, of vs] obtain w1 fb row1 w2 row2 v where
    p: "parse_loop f line (length a) w (Some w) (row, vs) = after_field f line (length a + length (field_line t)) w1 fb (row1, vs)"
      "end_field w1 fb (row1, vs) = (Inr (Some w2), (row2, vs @ [v]))"
    and w2: "w \<le> w2" "w2 \<le> w + length (field_line t) + 1" and r2: "length row2 = length row" "take w row2 = take w row"
    and v: "\<And>r. take w2 r = take w2 row2 \<Longrightarrow> view_text r v = map_option concat t" by blast
  show ?case
  proof (cases "ts = []")
    case True
    then have "after_field f line (length a + length (field_line t)) w1 fb (row1, vs) = (Inr (Some ()), (row2, vs @ [v]))"
      using p(2) line by (simp add: after_field_def end_row_def bindO_def retA_def)
    with p(1) r2 v [OF refl] True show ?thesis by (intro exI [of _ row2] exI [of _ "[v]"]) simp
  next
    case False
    let ?a = "a @ field_line t @ [CHR 0x09]"
    have l: "line = ?a @ copy_line ts" "w2 + length (copy_line ts) < length row2"
      using Cons.prems(3,4) False w2 r2(1) by (simp_all add: copy_line_def)
    from Cons.IH [OF False g(2) this, of "vs @ [v]"] obtain row' vs' where
      n: "parse_loop f line (length ?a) w2 (Some w2) (row2, vs @ [v]) = (Inr (Some ()), (row', (vs @ [v]) @ vs'))"
        "length row' = length row2" "take w2 row' = take w2 row2" "map (view_text row') vs' = map (map_option concat) ts" by blast
    have "after_field f line (length a + length (field_line t)) w1 fb (row1, vs) =
        parse_loop f line (length ?a) w2 (Some w2) (row2, vs @ [v])"
      using p(2) line False by (simp add: after_field_def bindO_def)
    moreover have "take w (take w2 row') = take w (take w2 row2)" by (simp only: n(3))
    then have "take w row' = take w row" using w2(1) r2(2) by (simp add: min_def)
    ultimately show ?thesis using p(1) n(1,2,4) v [OF n(3)] r2(1)
      by (intro exI [of _ row'] exI [of _ "v # vs'"]) simp
  qed
qed simp

lemma parse_row_text:
  assumes "finder_ok enc row_specials f" "ts \<noteq> []" "list_all (pred_option (list_all (is_glyph enc))) ts"
  shows "\<exists>row' vs. parse_row f (copy_line ts) row = (Inr (Some ()), (row', vs)) \<and>
    length row' = length (copy_line ts) + 1 \<and> map (view_text row') vs = map (map_option concat) ts"
  using parse_fields [OF assms, of "copy_line ts" "[]" 0 "resize_str (length (copy_line ts) + 1) row" "[]"]
  by (auto simp: parse_row_def)

section \<open>Nothing is written outside of the row\<close>

definition views_ok :: "nat \<Rightarrow> string \<Rightarrow> zview list \<Rightarrow> bool" where
  "views_ok write row vs \<longleftrightarrow> (\<forall>b n. Some (b, n) \<in> set vs \<longrightarrow> b + n < write \<and> row ! (b + n) = CHR 0x00)"

lemma views_ok_mono:
  "views_ok w row vs \<Longrightarrow> w \<le> w' \<Longrightarrow> (\<And>i. i < w \<Longrightarrow> row' ! i = row ! i) \<Longrightarrow> views_ok w' row' vs"
  by (auto simp: views_ok_def) (metis less_le_trans)+

definition row_safe :: "unit option res \<times> string \<times> zview list \<Rightarrow> nat \<Rightarrow> bool" where
  "row_safe out n \<longleftrightarrow> fst out \<noteq> Inr None \<and> length (fst (snd out)) = n \<and> views_ok n (fst (snd out)) (snd (snd out))"

lemma end_field_safe:
  assumes "write < length row" "\<forall>b. fb = Some b \<longrightarrow> b \<le> write" "views_ok write row vs"
  shows "\<exists>w r vs'. end_field write fb (row, vs) = (Inr (Some w), (r, vs')) \<and> length r = length row \<and>
    write \<le> w \<and> w \<le> write + 1 \<and> views_ok w r vs'"
proof (cases fb)
  case None
  with assms show ?thesis by (auto simp: end_field_def views_ok_def)
next
  case (Some b)
  have "views_ok (write + 1) (row[write := CHR 0x00]) vs" using assms(3) by (rule views_ok_mono) simp_all
  with Some assms show ?thesis by (auto simp: end_field_def views_ok_def)
qed

lemma nth_blit_before: "i < pos \<Longrightarrow> pos \<le> length buf \<Longrightarrow> blit buf pos s ! i = buf ! i"
  by (simp add: blit_def nth_append)

lemma end_row_safe:
  assumes "write < length row" "\<forall>b. fb = Some b \<longrightarrow> b \<le> write" "views_ok write row vs"
  shows "row_safe (end_row write fb (row, vs)) (length row)"
proof -
  from end_field_safe [OF assms] obtain w r vs' where
    "end_field write fb (row, vs) = (Inr (Some w), (r, vs'))" "length r = length row" "w \<le> write + 1" "views_ok w r vs'" by blast
  moreover from this assms(1) have "views_ok (length row) r vs'" by (elim views_ok_mono) simp_all
  ultimately show ?thesis by (simp add: end_row_def bindO_def retA_def row_safe_def)
qed

lemma parse_loop_safe:
  assumes f: "finder_safe row_specials f"
  shows "write \<le> offset \<Longrightarrow> offset \<le> length line \<Longrightarrow> length (fst rf) = length line + 1 \<Longrightarrow>
    (\<forall>b. fb = Some b \<longrightarrow> b \<le> write) \<Longrightarrow> views_ok write (fst rf) (snd rf) \<Longrightarrow>
    row_safe (parse_loop f line offset write fb rf) (length line + 1)"
proof (induction "length line - offset" arbitrary: offset "write" fb rf rule: less_induct)
  case less
  obtain row vs where rf: "rf = (row, vs)" by (cases rf)
  note prems = less.prems [unfolded rf fst_conv snd_conv]
  have w: "write < length row" using prems by simp
  have err: "row_safe (Inl e, (r, vs)) (length line + 1)" if "length r = length line + 1" "\<And>i. i < write \<Longrightarrow> r ! i = row ! i" for e r
    using views_ok_mono [OF prems(5), of "length line + 1" r] that prems(1,2) by (simp add: row_safe_def)
  show ?case
  proof (cases "offset < length line")
    case False
    then show ?thesis using end_row_safe [OF w prems(4,5)] prems(3)
      by (subst parse_loop.simps) (simp add: rf)
  next
    case True
    show ?thesis
    proof (cases "f line offset")
      case (Inl e)
      then have "parse_loop f line offset write fb rf = (Inl e, (row, vs))"
        using True by (subst parse_loop.simps) (simp add: rf)
      with err [OF prems(3) refl] show ?thesis by simp
    next
      case (Inr p)
      with finder_safeD(1) [OF f prems(2)] obtain stop where stop: "f line offset = Inr (Some stop)" by (cases p) auto
      from finder_safeD(2) [OF f prems(2) this]
      have s: "offset \<le> stop" "stop \<le> length line" "stop < length line \<longrightarrow> line ! stop \<in> set row_specials" by auto
      let ?w = "write + (stop - offset)" and ?row = "blit row write (slice line offset stop)"
      have sl: "length (slice line offset stop) = stop - offset" using s by (simp add: slice_def)
      have room: "?w \<le> stop" "?w < length row" using prems s by simp_all
      have len: "length ?row = length line + 1" using sl room prems(3) by simp
      have before: "?row ! i = row ! i" if "i < write" for i using that w by (intro nth_blit_before) simp_all
      have v: "views_ok ?w ?row vs" using prems(5) by (rule views_ok_mono) (simp_all add: before)
      have b: "\<forall>b. fb = Some b \<longrightarrow> b \<le> ?w" using prems(4) by auto
      have no: "\<not> (stop < offset \<or> length line < stop \<or> length row < ?w)" using s room by simp
      show ?thesis
      proof (cases "stop < length line")
        case False
        then have "parse_loop f line offset write fb rf = end_row ?w fb (?row, vs)"
          using True stop no by (subst parse_loop.simps) (simp add: rf Let_def)
        moreover have "row_safe (end_row ?w fb (?row, vs)) (length ?row)"
          by (rule end_row_safe) (use room len v b prems(3) in simp_all)
        ultimately show ?thesis using len by simp
      next
        case in_line: True
        show ?thesis
        proof (cases "line ! stop = CHR 0x09")
          case tab: True
          from end_field_safe [of ?w ?row fb vs] room len v b prems(3) obtain w2 r vs' where
            e: "end_field ?w fb (?row, vs) = (Inr (Some w2), (r, vs'))" "length r = length ?row" "w2 \<le> ?w + 1" "views_ok w2 r vs'"
            by auto
          have "row_safe (parse_loop f line (stop + 1) w2 (Some w2) (r, vs')) (length line + 1)"
            by (rule less.hyps) (use e room len s in_line True in auto)
          moreover have "parse_loop f line offset write fb rf = parse_loop f line (stop + 1) w2 (Some w2) (r, vs')"
            using e(1) tab in_line True stop no room(2) by (subst parse_loop.simps) (simp add: rf Let_def)
          ultimately show ?thesis by simp
        next
          case False
          then have bs: "line ! stop = CHR 0x5C" using s(3) in_line by (simp add: row_specials_def)
          show ?thesis
          proof (cases "stop + 1 < length line \<and> \<not> (line ! (stop + 1) = CHR ''N'' \<and> fb \<noteq> Some ?w)")
            case False
            then have "\<exists>e. parse_loop f line offset write fb rf = (Inl e, (?row, vs))"
              using bs in_line True stop no by (subst parse_loop.simps) (auto simp: rf Let_def)
            with err [OF len before] show ?thesis by auto
          next
            case esc: True
            let ?row2 = "?row[?w := unescape_char (line ! (stop + 1))]"
            have v2: "views_ok (?w + 1) ?row2 vs" using v by (rule views_ok_mono) simp_all
            have "row_safe (parse_loop f line (stop + 2) (?w + 1) (if line ! (stop + 1) = CHR ''N'' then None else fb) (?row2, vs))
                (length line + 1)"
              by (rule less.hyps) (use esc room len s b v2 True in auto)
            moreover have "parse_loop f line offset write fb rf =
                parse_loop f line (stop + 2) (?w + 1) (if line ! (stop + 1) = CHR ''N'' then None else fb) (?row2, vs)"
              using esc bs in_line True stop no room len prems(3) by (subst parse_loop.simps) (auto simp: rf Let_def)
            ultimately show ?thesis by simp
          qed
        qed
      qed
    qed
  qed
qed

end
