(* ===== verification/Pqxx_Copy.thy ===== *)
theory Pqxx_Copy
  imports Pqxx_Stream Pg_Server
begin

text \<open>
  What COPY streams promise: a row written by one stream is read back by another, whatever the line on the wire
  reading stays inside of its buffer, copying from stream to stream keeps every line, and an open stream holds the
  focus of its transaction.  The last sections show what a failed row leaves behind.
\<close>

section \<open>A connection to run streams on\<close>

text \<open>Lines to be read, and everything that was sent.\<close>

record copy_demo =
  incoming :: "string list"
  outgoing :: string
  executed :: "string list"

definition demo_pq :: "copy_demo libpq" where
  "demo_pq = \<lparr>PQconnectdb = (\<lambda>_ s. (Some 0, s)), PQstatus_ok = (\<lambda>_ _. True), PQerrorMessage = (\<lambda>_ _. []),
     PQprotocolVersion = (\<lambda>_ _. 3), PQserverVersion = (\<lambda>_ _. 150000), PQclientEncoding = (\<lambda>_ _. 0),
     pg_encoding_to_char = (\<lambda>_. ''SJIS''), PQexec = (\<lambda>_ q s. (Some ok_result, s\<lparr>executed := executed s @ [q]\<rparr>)),
     PQexecParams = (\<lambda>_ q _ s. (Some ok_result, s\<lparr>executed := executed s @ [q]\<rparr>)), PQconsumeInput = (\<lambda>_ s. (True, s)),
     PQnotifies = (\<lambda>_ s. s), PQescapeStringConn = (\<lambda>_ t _. Some t), PQfinish = (\<lambda>_ s. s)\<rparr>"

definition demo_copy :: "copy_demo copy_libpq" where
  "demo_copy = \<lparr>pq = demo_pq,
     PQgetCopyData = (\<lambda>_ s. case incoming s of
         [] \<Rightarrow> (-1, [], s)
       | l # ls \<Rightarrow> (int (length l) + 1, l @ [newline, CHR 0x00], s\<lparr>incoming := ls\<rparr>)),
     PQputCopyData = (\<lambda>_ t s. (1, s\<lparr>outgoing := outgoing s @ t\<rparr>)),
     PQputCopyEnd = (\<lambda>_ s. (1, s)), PQgetResult = (\<lambda>_ s. (Some ok_result, s)),
     PQescapeIdentifier = (\<lambda>_ t _. Some t)\<rparr>"

definition demo_scope :: "string list \<Rightarrow> copy_demo scope" where
  "demo_scope ls = \<lparr>srv = \<lparr>incoming = ls, outgoing = [], executed = []\<rparr>,
     cn = \<lparr>m_conn = 0, m_trans = Some (trans_guest new_transaction), notices = []\<rparr>,
     tx = new_transaction\<lparr>m_registered := True\<rparr>\<rparr>"

definition demo_to :: stream_to where
  "demo_to = \<lparr>m_guest = (3, ''stream_to'', ''t''), m_reg = True, m_finished = False, m_buffer = [], m_field_buf = [],
     m_finder = find_ascii_char SJIS copy_specials\<rparr>"

definition demo_from :: stream_from where
  "demo_from = \<lparr>m_guest = (4, ''stream_from'', ''t''), m_reg = True, m_finished = False,
     m_char_finder = find_ascii_char SJIS row_specials, m_row = [], m_fields = []\<rparr>"

lemma demo_finders:
  "get_char_finder copy_specials SJIS = Inr (m_finder demo_to)"
  "get_char_finder row_specials SJIS = Inr (m_char_finder demo_from)"
  by (simp_all add: get_char_finder_def map_ascii_search_group_def demo_to_def demo_from_def)

text \<open>Columns of the three kinds, over strings; integers are over \<open>int\<close>.\<close>

definition text_column :: "string column_type" where
  "text_column = \<lparr>col = string_type, storage = Text (\<lambda>v. v), is_null = (\<lambda>_. False)\<rparr>"

definition null_column :: "string column_type" where
  "null_column = \<lparr>col = string_type, storage = Always_null, is_null = (\<lambda>_. True)\<rparr>"

context string_traits
begin

lemma converted_column:
  "has v \<Longrightarrow> list_all (is_glyph enc) gs \<Longrightarrow> concat gs = text_of v \<Longrightarrow>
   column_writes enc (\<lparr>col = T, storage = Converted, is_null = (\<lambda>_. False)\<rparr>, v) (Some gs)"
  using writes_text by (simp add: column_writes_def)

lemma arithmetic_column:
  "has v \<Longrightarrow> plain enc copy_specials gs \<Longrightarrow> concat gs = text_of v \<Longrightarrow>
   column_writes enc (\<lparr>col = T, storage = Arithmetic, is_null = (\<lambda>_. False)\<rparr>, v) (Some gs)"
  using writes_text by (simp add: column_writes_def plain_def)

end

section \<open>A row and back\<close>

lemma write_copy_line_ok:
  assumes "int (length line) \<le> INT_MAX" "PQputCopyData K (m_conn (cn w)) line (srv w) = (n1, s1)" "0 < n1"
    "PQputCopyData K (m_conn (cn w)) [newline] s1 = (n2, s2)" "0 < n2"
  shows "write_copy_line K line w = (Inr (), w\<lparr>srv := s2\<rparr>)"
  using assms by (simp add: write_copy_line_def retA_def)

lemma read_row_line:
  assumes "PQgetCopyData K (m_conn (cn v)) (srv v) = (int (length line) + 1, line @ after, s)" "after \<noteq> []"
    "length line < npos div 2" "\<not> m_finished sf" "parse_row (m_char_finder sf) line (m_row sf) = (Inr (Some ()), (row, vs))"
  shows "read_row K (v, sf) = (Inr (Some (Some vs)), (v\<lparr>srv := s\<rparr>, sf\<lparr>m_row := row, m_fields := vs\<rparr>))"
proof -
  have n: "nat (int (length line) mod 2 ^ 64) = length line"
    using assms(3) by (simp add: npos_def nat_mod_distrib flip: of_nat_mod)
  have "get_raw_line K (v, sf\<lparr>m_fields := []\<rparr>) = (Inr (Some (line @ after, length line)), (v\<lparr>srv := s\<rparr>, sf\<lparr>m_fields := []\<rparr>))"
    using assms(1,4) n by (simp add: get_raw_line_def on_fst_def read_copy_line_def retA_def Let_def)
  with assms(3-5) show ?thesis by (simp add: read_row_def bindO_def parse_line_def)
qed

lemma column_glyphs: "column_writes enc f t \<Longrightarrow> pred_option (list_all (is_glyph enc)) t"
  by (cases t) (simp_all add: column_writes_def)

lemma columns_glyphs: "list_all2 (column_writes enc) fs ts \<Longrightarrow> list_all (pred_option (list_all (is_glyph enc))) ts"
  by (induction rule: list_all2_induct) (auto dest: column_glyphs)

text \<open>
  C18. Round trip of a row through COPY.  A row of at least one field, with nulls, numbers, strings and converted
  values, is sent as one line in which the special characters are escaped; a stream that receives this line gives
  views of the texts of the same values, in their order, and nulls for the nulls.  This holds in every encoding but
  MULE_INTERNAL, also where the second byte of a character is a backslash.
\<close>

theorem copy_row_roundtrip:
  assumes "enc \<noteq> MULE_INTERNAL" "list_all2 (column_writes enc) fs ts" "ts \<noteq> []" "int (length (copy_line ts)) \<le> INT_MAX"
    and writer: "get_char_finder copy_specials enc = Inr (m_finder st)" "m_buffer st = []"
    and reader: "get_char_finder row_specials enc = Inr (m_char_finder sf)" "\<not> m_finished sf"
    and sent: "PQputCopyData K (m_conn (cn w)) (copy_line ts) (srv w) = (n1, s1)" "0 < n1"
      "PQputCopyData K (m_conn (cn w)) [newline] s1 = (n2, s2)" "0 < n2"
    and received: "PQgetCopyData K' (m_conn (cn v)) (srv v) =
      (int (length (copy_line ts)) + 1, copy_line ts @ [newline, CHR 0x00], s)"
  shows "\<exists>fb row vs. write_row K fs (w, st) = (Inr (Some ()), (w\<lparr>srv := s2\<rparr>, st\<lparr>m_field_buf := fb\<rparr>)) \<and>
    read_row K' (v, sf) = (Inr (Some (Some vs)), (v\<lparr>srv := s\<rparr>, sf\<lparr>m_row := row, m_fields := vs\<rparr>)) \<and>
    map (view_text row) vs = map (map_option concat) ts"
proof -
  note ok = get_char_finder_ok [OF writer(1) ascii_specials(1) assms(1)] get_char_finder_ok [OF reader(1) ascii_specials(2) assms(1)]
  from write_row_text [OF assms(2) ok(1) assms(3), of K w] writer(2) obtain fb where
    "write_row K fs (w, st) = bindA (write_raw_line K (copy_line ts)) (\<lambda>_ (w, st). retA (Some ()) (w, st\<lparr>m_buffer := []\<rparr>))
      (w, st\<lparr>m_field_buf := fb, m_buffer := copy_line ts\<rparr>)" by auto
  moreover from writer(2) have "st\<lparr>m_field_buf := fb, m_buffer := []\<rparr> = st\<lparr>m_field_buf := fb\<rparr>" by simp
  ultimately have wr: "write_row K fs (w, st) = (Inr (Some ()), (w\<lparr>srv := s2\<rparr>, st\<lparr>m_field_buf := fb\<rparr>))"
    using write_copy_line_ok [OF assms(4) sent] by (simp add: bindA_def write_raw_line_def on_fst_def retA_def)
  have "length (copy_line ts) < npos div 2" using assms(4) by (simp add: INT_MAX_def npos_def)
  moreover from parse_row_text [OF ok(2) assms(3) columns_glyphs [OF assms(2)], of "m_row sf"] obtain row vs where
    "parse_row (m_char_finder sf) (copy_line ts) (m_row sf) = (Inr (Some ()), (row, vs))"
    "map (view_text row) vs = map (map_option concat) ts" by blast
  ultimately show ?thesis using wr read_row_line [OF received, of sf row vs] reader(2) by auto
qed

text \<open>
  A SHIFT_JIS character whose second byte is a backslash, with a tab behind it, and a null.
\<close>

definition demo_value :: string where
  "demo_value = [CHR 0x83, CHR 0x5C, CHR 0x09]"

definition demo_texts :: "string list option list" where
  "demo_texts = [Some [[CHR 0x83, CHR 0x5C], [CHR 0x09]], None]"

definition demo_row :: "(string column_type \<times> string) list" where
  "demo_row = [(text_column, demo_value), (null_column, [])]"

lemma demo_line: "copy_line demo_texts =
    [CHR 0x83, CHR 0x5C, CHR 0x5C, CHR ''t'', CHR 0x09, CHR 0x5C, CHR ''N'']"
  by code_simp

lemma demo_writes: "list_all2 (column_writes SJIS) demo_row demo_texts"
proof -
  have "is_glyph SJIS [CHR 0x83, CHR 0x5C]" "is_glyph SJIS [CHR 0x09]" by code_simp+
  then show ?thesis
    by (simp add: demo_row_def demo_texts_def column_writes_def text_column_def null_column_def demo_value_def)
qed

lemma demo_pq_copy [simp]:
  "PQputCopyData demo_copy c t s = (1, s\<lparr>outgoing := outgoing s @ t\<rparr>)"
  "PQgetCopyData demo_copy c s = (case incoming s of [] \<Rightarrow> (-1, [], s)
     | l # ls \<Rightarrow> (int (length l) + 1, l @ [newline, CHR 0x00], s\<lparr>incoming := ls\<rparr>))"
  by (simp_all add: demo_copy_def)

lemma demo_states [simp]:
  "m_buffer demo_to = []" "\<not> m_finished demo_to" "\<not> m_finished demo_from"
  "srv (demo_scope ls) = \<lparr>incoming = ls, outgoing = [], executed = []\<rparr>" "m_conn (cn (demo_scope ls)) = 0"
  by (simp_all add: demo_to_def demo_from_def demo_scope_def)

theorem copy_row_roundtrip_witness:
  "\<exists>fb row vs. write_row demo_copy demo_row (demo_scope [], demo_to) =
      (Inr (Some ()), ((demo_scope [])\<lparr>srv := \<lparr>incoming = [], outgoing = copy_line demo_texts @ [newline], executed = []\<rparr>\<rparr>,
        demo_to\<lparr>m_field_buf := fb\<rparr>)) \<and>
    read_row demo_copy (demo_scope [copy_line demo_texts], demo_from) =
      (Inr (Some (Some vs)), ((demo_scope [copy_line demo_texts])\<lparr>srv := \<lparr>incoming = [], outgoing = [], executed = []\<rparr>\<rparr>,
        demo_from\<lparr>m_row := row, m_fields := vs\<rparr>)) \<and>
    map (view_text row) vs = [Some demo_value, None]"
proof -
  have "int (length (copy_line demo_texts)) \<le> INT_MAX" by (simp add: demo_line INT_MAX_def)
  moreover have "SJIS \<noteq> MULE_INTERNAL" "demo_texts \<noteq> []" by (simp_all add: demo_texts_def)
  note hyps = this(1) demo_writes this(2) calculation demo_finders(1) demo_states(1) demo_finders(2) demo_states(3)
  have texts: "map (map_option concat) demo_texts = [Some demo_value, None]"
    by (simp add: demo_texts_def demo_value_def)
  show ?thesis
    unfolding texts [symmetric]
    by (rule copy_row_roundtrip [OF hyps, where w = "demo_scope []" and K = demo_copy and K' = demo_copy
          and v = "demo_scope [copy_line demo_texts]" and ?n1.0 = 1 and ?n2.0 = 1
          and ?s1.0 = "\<lparr>incoming = [], outgoing = copy_line demo_texts, executed = []\<rparr>"]) simp_all
qed

section \<open>Any line at all\<close>

lemma close_from_keeps [simp]: "m_row (snd (close_from ws)) = m_row (snd ws)" "m_fields (snd (close_from ws)) = m_fields (snd ws)"
  by (cases ws; simp add: close_from_def unregister_me_def)+

text \<open>The views of the current row lie in the row buffer, each with a zero byte behind it.\<close>

definition row_ok :: "stream_from \<Rightarrow> bool" where
  "row_ok sf \<longleftrightarrow> views_ok (length (m_row sf)) (m_row sf) (m_fields sf)"

lemma row_ok_no_views: "m_fields sf = [] \<Longrightarrow> row_ok sf"
  by (simp add: row_ok_def views_ok_def)

lemma parse_row_ok:
  assumes "get_char_finder row_specials enc = Inr f" "parse_row f line row = (r, (row', vs))"
  shows "r \<noteq> Inr None \<and> views_ok (length row') row' vs"
proof -
  have "row_safe (parse_row f line row) (length line + 1)"
    unfolding parse_row_def using parse_loop_safe [OF get_char_finder_safe [OF assms(1)]] by (simp add: views_ok_def)
  with assms(2) show ?thesis by (auto simp: row_safe_def)
qed

text \<open>
  C26. Reading a row is safe.  Whatever line the server sends, with escapes, nulls, broken characters and backslashes
  wherever they please, the parser neither reads behind the line nor writes behind its row buffer, in all encodings;
  it gives a row or an exception, and afterwards every view of the stream lies inside of the row buffer, with a zero
  byte behind it.  All that is asked of libpq is that the line has the number of bytes that it says.
\<close>

theorem parse_line_safe:
  assumes "get_char_finder row_specials enc = Inr (m_char_finder sf)" "row_ok sf"
    "PQgetCopyData K (m_conn (cn v)) (srv v) = (n, buf, s)" "-2 \<le> n" "n \<le> int (length buf)"
    "parse_line K (v, sf) = (r, (v', sf'))"
  shows "r \<noteq> Inr None \<and> row_ok sf'"
proof (cases "m_finished sf")
  case True
  with assms(2,6) show ?thesis by (auto simp: parse_line_def)
next
  case False
  let ?sf = "sf\<lparr>m_fields := []\<rparr>"
  obtain x v1 sf1 where g: "get_raw_line K (v, ?sf) = (x, (v1, sf1))" by (cases "get_raw_line K (v, ?sf)") auto
  have m: "m_fields sf1 = []" "m_char_finder sf1 = m_char_finder sf"
    using g False by (auto simp: get_raw_line_def on_fst_def close_from_def unregister_me_def split: prod.splits sum.splits option.splits if_splits)
  show ?thesis
  proof (cases x)
    case (Inl e)
    with g False assms(6) m row_ok_no_views show ?thesis by (auto simp: parse_line_def)
  next
    case (Inr x')
    show ?thesis
    proof (cases x')
      case None
      with g Inr False assms(6) m show ?thesis by (auto simp: parse_line_def row_ok_def views_ok_def)
    next
      case (Some l)
      with Inr g False assms(3-5) have l: "l = (buf, nat ((n - 1) mod 2 ^ 64))" "0 < n"
        by (auto simp: get_raw_line_def on_fst_def read_copy_line_def retA_def throwA_def Let_def bindA_def
            split: prod.splits sum.splits option.splits if_splits)
      have "(n - 1) mod 2 ^ 64 \<le> n - 1" using l(2) by (intro zmod_le_nonneg_dividend) simp
      then have "nat ((n - 1) mod 2 ^ 64) \<le> length buf" using assms(5) by linarith
      with l(1) Some Inr g False assms(6) m show ?thesis
        using parse_row_ok [OF assms(1)] row_ok_no_views [OF m(1)]
        by (auto simp: parse_line_def row_ok_def split: prod.splits if_splits)
    qed
  qed
qed

theorem parse_line_safe_witness:
  "fst (parse_line demo_copy (demo_scope [[CHR ''x'', CHR 0x5C]], demo_from)) \<noteq> Inr None"
proof -
  have "row_ok demo_from" by (simp add: row_ok_no_views demo_from_def)
  from parse_line_safe [OF demo_finders(2) this, of demo_copy "demo_scope [[CHR ''x'', CHR 0x5C]]" 3
      "[CHR ''x'', CHR 0x5C, newline, CHR 0x00]" "\<lparr>incoming = [], outgoing = [], executed = []\<rparr>"]
  show ?thesis by (cases "parse_line demo_copy (demo_scope [[CHR ''x'', CHR 0x5C]], demo_from)") auto
qed

section \<open>All the lines of a stream\<close>

text \<open>The source hands out the lines \<open>ls\<close> and then its end.\<close>

inductive delivers :: "'s copy_libpq \<Rightarrow> 's scope \<times> stream_from \<Rightarrow> string list \<Rightarrow> 's scope \<times> stream_from \<Rightarrow> bool" for K where
  delivers_end: "\<not> m_finished (snd src) \<Longrightarrow> get_raw_line K src = (Inr None, src') \<Longrightarrow> delivers K src [] src'"
| delivers_line: "\<not> m_finished (snd src) \<Longrightarrow> get_raw_line K src = (Inr (Some (buf, n)), src1) \<Longrightarrow> n \<le> length buf \<Longrightarrow>
    delivers K src1 ls src' \<Longrightarrow> delivers K src (take n buf # ls) src'"

lemma close_from_finished [simp]: "m_finished (snd (close_from ws))"
  by (simp add: close_from_def unregister_me_def)

lemma get_raw_line_end: "\<not> m_finished (snd src) \<Longrightarrow> get_raw_line K src = (Inr None, src') \<Longrightarrow> m_finished (snd src')"
  by (auto simp: get_raw_line_def split: prod.splits sum.splits option.splits)

lemma delivers_open: "delivers K src ls src' \<Longrightarrow> \<not> m_finished (snd src)"
  by (cases rule: delivers.cases) auto

lemma delivers_flush: "delivers K src ls src' \<Longrightarrow> flush_lines K src = Some (Inr (), src') \<and> m_finished (snd src')"
proof (induction rule: delivers.induct)
  case (delivers_end src src')
  from get_raw_line_end [OF this] delivers_end show ?case by (subst flush_lines.simps) simp
next
  case (delivers_line src buf n src1 ls src')
  then show ?case by (subst flush_lines.simps) simp
qed

text \<open>The destination takes the lines \<open>ls\<close>.\<close>

definition accepts :: "'t copy_libpq \<Rightarrow> 't scope \<times> stream_to \<Rightarrow> string list \<Rightarrow> 't scope \<times> stream_to \<Rightarrow> bool" where
  "accepts K dst ls dst' \<longleftrightarrow> forA ls (write_raw_line K) dst = (Inr (), dst')"

lemma accepts_Cons: "accepts K dst (l # ls) dst' \<Longrightarrow>
   \<exists>dst1. write_raw_line K l dst = (Inr (), dst1) \<and> accepts K dst1 ls dst'"
  by (auto simp: accepts_def bindA_def split: prod.splits sum.splits)

lemma copy_stream_lines:
  "delivers K src ls src' \<Longrightarrow> accepts K' dst ls dst' \<Longrightarrow> copy_stream K K' (src, dst) = Some (Inr (Some ()), (src', dst'))"
proof (induction arbitrary: dst rule: delivers.induct)
  case (delivers_end src src')
  then show ?case by (subst copy_stream.simps) (simp add: accepts_def retA_def)
next
  case (delivers_line src buf n src1 ls src')
  from accepts_Cons [OF delivers_line.prems] obtain dst1 where
    "write_raw_line K' (take n buf) dst = (Inr (), dst1)" "accepts K' dst1 ls dst'" by blast
  with delivers_line show ?case by (subst copy_stream.simps) simp
qed

text \<open>
  A failure of the destination ends the copy with its exception.  The lines up to there are sent; the one that
  failed is lost, and the source stays open at the line after it.
\<close>

lemma copy_stream_failure:
  "delivers K src1 later src' \<Longrightarrow> get_raw_line K src = (Inr (Some (buf, n)), src1) \<Longrightarrow> n \<le> length buf \<Longrightarrow>
   \<not> m_finished (snd src) \<Longrightarrow> write_raw_line K' (take n buf) dst = (Inl e, dst') \<Longrightarrow>
   copy_stream K K' (src, dst) = Some (Inl e, (src1, dst')) \<and> \<not> m_finished (snd src1)"
  using delivers_open by (subst copy_stream.simps) simp

text \<open>
  Copying a stream into another.  If the source hands out the lines \<open>ls\<close> before its end and the destination takes
  them, then the copy ends, has written exactly these lines in their order, unchanged, and has closed the source.  A
  source that is completed instead is drained to the same end.
\<close>

theorem copy_stream_copies:
  assumes "delivers K src ls src'" "accepts K' dst ls dst'"
  shows "copy_stream K K' (src, dst) = Some (Inr (Some ()), (src', dst')) \<and> m_finished (snd src') \<and>
    complete_from K src = Some (Inr (), src')"
proof -
  from delivers_flush [OF assms(1)] delivers_open [OF assms(1)] have "complete_from K src = Some (Inr (), src')" "m_finished (snd src')"
    by (simp_all add: complete_from_def close_from_def)
  with copy_stream_lines [OF assms] show ?thesis by simp
qed

lemma demo_delivers:
  assumes "incoming (srv w) = ls" "\<not> m_finished sf" "\<forall>l \<in> set ls. length l < 2 ^ 64"
    "m_conn (cn w) = 0"
  shows "\<exists>src'. delivers demo_copy (w, sf) ls src'"
  using assms
proof (induction ls arbitrary: w)
  case Nil
  then have "\<exists>src'. get_raw_line demo_copy (w, sf) = (Inr None, src')"
    by (auto simp: get_raw_line_def on_fst_def read_copy_line_def Let_def bindA_def retA_def end_copy_def demo_copy_def
        make_result_def encoding_id_def demo_pq_def liftR_def enc_group_def enc_group_names_def check_status_def status_error_def
        ok_result_def)
  with Nil(2) show ?case using delivers_end [of "(w, sf)"] by fastforce
next
  case (Cons l ls)
  have n: "nat (int (length l) mod 2 ^ 64) = length l" using Cons.prems(3) by (simp add: nat_mod_distrib flip: of_nat_mod)
  let ?w = "w\<lparr>srv := (srv w)\<lparr>incoming := ls\<rparr>\<rparr>"
  have g: "get_raw_line demo_copy (w, sf) = (Inr (Some (l @ [newline, CHR 0x00], length l)), (?w, sf))"
    using Cons.prems n by (simp add: get_raw_line_def on_fst_def read_copy_line_def retA_def Let_def)
  from Cons.IH [of ?w] Cons.prems obtain src' where "delivers demo_copy (?w, sf) ls src'" by auto
  from delivers_line [OF _ g _ this] Cons.prems(2) have "delivers demo_copy (w, sf) (l # ls) src'" by simp
  then show ?case by (rule exI)
qed

lemma demo_accepts: "m_conn (cn w) = 0 \<Longrightarrow> \<forall>l \<in> set ls. int (length l) \<le> INT_MAX \<Longrightarrow>
   accepts demo_copy (w, st) ls (w\<lparr>srv := (srv w)\<lparr>outgoing := outgoing (srv w) @ concat (map (\<lambda>l. l @ [newline]) ls)\<rparr>\<rparr>, st)"
proof (induction ls arbitrary: w)
  case (Cons l ls)
  let ?w = "w\<lparr>srv := (srv w)\<lparr>outgoing := (outgoing (srv w) @ l) @ [newline]\<rparr>\<rparr>"
  have "write_copy_line demo_copy l w = (Inr (), ?w)"
    by (rule write_copy_line_ok [where ?n1.0 = 1 and ?n2.0 = 1 and ?s1.0 = "(srv w)\<lparr>outgoing := outgoing (srv w) @ l\<rparr>"])
      (use Cons.prems in simp_all)
  with Cons.IH [of ?w] Cons.prems show ?case
    by (simp add: accepts_def bindA_def write_raw_line_def on_fst_def)
qed (simp add: accepts_def retA_def)

theorem copy_stream_copies_witness:
  "\<exists>src'. copy_stream demo_copy demo_copy ((demo_scope [''1'', ''2''], demo_from), (demo_scope [], demo_to)) =
     Some (Inr (Some ()), (src', ((demo_scope [])\<lparr>srv :=
       \<lparr>incoming = [], outgoing = ''1'' @ [newline] @ ''2'' @ [newline], executed = []\<rparr>\<rparr>, demo_to)))"
proof -
  from demo_delivers [of "demo_scope [''1'', ''2'']" "[''1'', ''2'']" demo_from] obtain src' where
    "delivers demo_copy (demo_scope [''1'', ''2''], demo_from) [''1'', ''2''] src'" by auto
  from copy_stream_copies [OF this demo_accepts [of "demo_scope []" "[''1'', ''2'']" demo_to]] show ?thesis
    by (intro exI [of _ src']) (simp add: INT_MAX_def)
qed

section \<open>An open stream has the focus\<close>

lemma register_focus_ok: "register_focus g w = (Inr (), w') \<Longrightarrow> w' = w\<lparr>tx := (tx w)\<lparr>m_focus := Some g\<rparr>\<rparr>"
  by (auto simp: register_focus_def bindA_def liftR_def retA_def split: sum.splits)

lemma busy_exec:
  assumes "m_focus (tx w) = Some g" "m_pending_error (tx w) = []"
  shows "\<exists>msg. tx_exec L q w = (Inl (Pqxx_usage_error msg), w)"
  using assms by (auto simp: tx_exec_def check_pending_error_def with_command_def register_focus_def check_unique_register_def
      bindA_def retA_def liftR_def command_guest_def)

lemma busy_commit:
  assumes "m_focus (tx w) = Some g" "m_pending_error (tx w) = []" "m_status (tx w) = Active"
  shows "\<exists>msg. tx_commit L w = (Inl (Pqxx_failure msg), w)"
  using assms by (auto simp: tx_commit_def check_pending_error_def bindA_def retA_def throwA_def)

text \<open>A command that succeeded has left the transaction as it was: active, without a focus or a pending error.\<close>

lemma make_result_tx: "tx (snd (make_result L r d w)) = tx w"
  by (simp add: make_result_def encoding_id_def bindA_def throwA_def retA_def liftR_def Let_def split: option.split sum.split)

lemma get_notifs_tx: "tx (snd (get_notifs L w)) = tx w"
  by (simp add: get_notifs_def throwA_def retA_def split: prod.split bool.split)

lemma conn_exec_tx:
  fixes w :: "'s scope"
  shows "tx (snd (conn_exec L q d w)) = tx w"
proof -
  obtain r s where e: "PQexec L (m_conn (cn w)) q (srv w) = (r, s)" by fastforce
  have "tx (snd (bindA (make_result L r d) (\<lambda>res. bindA (get_notifs L) (\<lambda>_. retA res)) (w\<lparr>srv := s\<rparr>))) = tx w"
  proof (rule bindA_keeps)
    fix x and w' :: "'s scope"
    assume "make_result L r d (w\<lparr>srv := s\<rparr>) = (x, w')"
    then show "tx w' = tx w" using make_result_tx [of L r d "w\<lparr>srv := s\<rparr>"] by simp
  next
    fix x and w' :: "'s scope"
    assume k: "tx w' = tx w"
    show "tx (snd (bindA (get_notifs L) (\<lambda>_. retA x) w')) = tx w"
      by (rule bindA_keeps) (use get_notifs_tx [of L w'] k in \<open>auto simp: retA_def\<close>)
  qed
  with e show ?thesis by (simp add: conn_exec_def)
qed

lemma exec_idle:
  assumes "tx_exec L q w = (Inr r, w')"
  shows "m_focus (tx w') = None \<and> m_status (tx w') = Active \<and> m_pending_error (tx w') = []"
proof -
  from assms have p: "m_pending_error (tx w) = []" and f: "m_focus (tx w) = None"
    by (auto simp: tx_exec_def check_pending_error_def with_command_def register_focus_def check_unique_register_def
        bindA_def retA_def throwA_def liftR_def split: if_splits option.splits)
  let ?w = "w\<lparr>tx := (tx w)\<lparr>m_focus := Some (command_guest [])\<rparr>\<rparr>"
  from assms p f have a: "m_status (tx w) = Active"
    and e: "finallyA (direct_exec L q) (unregister_focus (command_guest [])) ?w = (Inr r, w')"
    by (auto simp: tx_exec_def check_pending_error_def with_command_def register_focus_def check_unique_register_def
        bindA_def retA_def throwA_def liftR_def finallyA_def split: if_splits)
  have "direct_exec L q ?w = conn_exec L q [] ?w"
    using p by (simp add: direct_exec_def check_pending_error_def bindA_def retA_def)
  with e conn_exec_tx [of L q "[]" ?w] obtain w1 where "tx w1 = tx ?w" "w' = unregister_focus (command_guest []) w1"
    by (auto simp: finallyA_def split: prod.splits)
  with p a show ?thesis by (simp add: unregister_focus_def check_unique_unregister_def)
qed

lemma end_copy_tx: "tx (snd (end_copy K w)) = tx w"
  by (simp add: end_copy_def make_result_tx split_beta)

lemma snd_bindA_retA: "snd (bindA m (\<lambda>_. retA x) w) = snd (m w)"
  by (simp add: bindA_def retA_def split: prod.split sum.split)

lemma end_copy_write_tx: "tx (snd (end_copy_write K w)) = tx w"
  by (simp add: end_copy_write_def throwA_def snd_bindA_retA end_copy_tx Let_def split_beta)

lemma new_stream_to_idle:
  assumes "new_stream_to L this path columns w = (Inr st, w')"
  shows "m_guest st = (this, ''stream_to'', path) \<and> \<not> m_finished st \<and> m_focus (tx w') = Some (m_guest st) \<and>
    m_status (tx w') = Active \<and> m_pending_error (tx w') = []"
proof -
  from assms obtain f w1 r w2 where "begin_copy L path columns w1 = (Inr r, w2)"
    "register_focus (this, ''stream_to'', path) w2 = (Inr (), w')" "m_guest st = (this, ''stream_to'', path)" "\<not> m_finished st"
    by (auto simp: new_stream_to_def Let_def bindA_def retA_def split: prod.splits sum.splits)
  moreover from this(1) obtain q r' where "tx_exec L q w1 = (Inr r', w2)"
    by (auto simp: begin_copy_def tx_exec0_def tx_exec_n_def bindA_def throwA_def retA_def split: prod.splits sum.splits if_splits)
  ultimately show ?thesis using exec_idle register_focus_ok by fastforce
qed

text \<open>Moving a stream hands the focus over; completing or destroying the old object does nothing any more.\<close>

lemma move_stream_to_focus:
  assumes "m_reg st" "m_focus (tx w) = Some (m_guest st)"
  shows "\<exists>st1 old. move_stream_to this st w = (Inr (st1, old), w\<lparr>tx := (tx w)\<lparr>m_focus := Some (m_guest st1)\<rparr>\<rparr>) \<and>
    fst (m_guest st1) = this \<and> m_reg st1 \<and> m_buffer st1 = m_buffer st \<and> m_finished st1 = m_finished st \<and>
    complete_to K (w', old) = (Inr (), (w', old)) \<and> destroy_to K (w', old) = w'"
  using assms
  by (simp add: move_stream_to_def unregister_me_def unregister_focus_def check_unique_unregister_def register_focus_def
      check_unique_register_def bindA_def retA_def liftR_def complete_to_def destroy_to_def Let_def)

text \<open>
  While a stream is open, its transaction does nothing else: from its constructor on, every command and every commit
  throws, and nothing is sent to the server.  When the stream is completed, the focus is free again whatever the
  server answers; and an error in completing that the destructor finds is not lost: the next command or commit
  throws it.
\<close>

theorem open_stream_has_focus:
  assumes "new_stream_to (pq K) this path columns w = (Inr st, w1)"
  shows "(\<exists>msg. tx_exec (pq K) q w1 = (Inl (Pqxx_usage_error msg), w1)) \<and>
    (\<exists>msg. tx_commit (pq K) w1 = (Inl (Pqxx_failure msg), w1)) \<and>
    (\<exists>r w2 st2. complete_to K (w1, st) = (r, (w2, st2)) \<and> m_focus (tx w2) = None \<and> m_finished st2 \<and>
      (\<forall>e. r = Inl e \<and> what e \<noteq> [] \<longrightarrow>
        (let w3 = destroy_to K (w1, st) in
         fst (tx_exec (pq K) q w3) = Inl (Pqxx_failure (what e)) \<and> fst (tx_commit (pq K) w3) = Inl (Pqxx_failure (what e)))))"
proof -
  note idle = new_stream_to_idle [OF assms]
  let ?w = "w1\<lparr>tx := (tx w1)\<lparr>m_focus := None\<rparr>\<rparr>" and ?st = "st\<lparr>m_finished := True, m_reg := False\<rparr>"
  obtain r w2 where e: "end_copy_write K ?w = (r, w2)" by fastforce
  have t: "tx w2 = tx ?w" using end_copy_write_tx [of K ?w] e by simp
  have u: "unregister_me (w1, st\<lparr>m_finished := True\<rparr>) = (?w, ?st)"
    using idle by (simp add: unregister_me_def unregister_focus_def check_unique_unregister_def)
  have c: "complete_to K (w1, st) = (r, (w2, ?st))"
    using idle by (simp add: complete_to_def u on_fst_def e)
  have "fst (tx_exec (pq K) q w3) = Inl (Pqxx_failure (what x)) \<and> fst (tx_commit (pq K) w3) = Inl (Pqxx_failure (what x))"
    if "r = Inl x" "what x \<noteq> []" "w3 = destroy_to K (w1, st)" for x w3
    using that c t idle
    by (simp add: destroy_to_def register_pending_error_def tx_exec_def tx_commit_def check_pending_error_def bindA_def throwA_def)
  with c t idle busy_exec [of w1] busy_commit [of w1] show ?thesis by (auto simp: Let_def)
qed

lemma demo_open: "\<exists>st w1. new_stream_to demo_pq 3 ''t'' [] (demo_scope []) = (Inr st, w1)"
proof -
  let ?sql = "''COPY t FROM STDIN''"
  have f: "get_finder demo_pq copy_specials (demo_scope []) = (Inr (find_ascii_char SJIS copy_specials), demo_scope [])"
    by (simp add: get_finder_def encoding_id_def demo_pq_def bindA_def retA_def liftR_def Let_def enc_group_def
        enc_group_names_def get_char_finder_def map_ascii_search_group_def)
  have "\<exists>w1. tx_exec demo_pq ?sql (demo_scope []) = (Inr ok_result, w1) \<and> m_focus (tx w1) = None"
    by (simp add: tx_exec_def check_pending_error_def with_command_def register_focus_def check_unique_register_def
        bindA_def retA_def liftR_def finallyA_def direct_exec_def conn_exec_def make_result_def encoding_id_def get_notifs_def
        demo_pq_def demo_scope_def new_transaction_def enc_group_def enc_group_names_def check_status_def status_error_def
        ok_result_def unregister_focus_def check_unique_unregister_def Let_def)
  then obtain w1 where "tx_exec demo_pq ?sql (demo_scope []) = (Inr ok_result, w1)" "m_focus (tx w1) = None" by blast
  with f show ?thesis
    by (simp add: new_stream_to_def begin_copy_def tx_exec0_def tx_exec_n_def bindA_def retA_def liftR_def ok_result_def
        register_focus_def check_unique_register_def Let_def)
qed

theorem open_stream_has_focus_witness:
  "\<exists>st w1 msg. new_stream_to (pq demo_copy) 3 ''t'' [] (demo_scope []) = (Inr st, w1) \<and>
    tx_exec (pq demo_copy) ''SELECT'' w1 = (Inl (Pqxx_usage_error msg), w1)"
proof -
  have "pq demo_copy = demo_pq" by (simp add: demo_copy_def)
  with demo_open obtain st w1 where n: "new_stream_to (pq demo_copy) 3 ''t'' [] (demo_scope []) = (Inr st, w1)" by auto
  from open_stream_has_focus [OF this, of "''SELECT''"] n show ?thesis by blast
qed

section \<open>After a failure\<close>

text \<open>A field that cannot be appended leaves the buffer longer.\<close>

lemma escape_field_loop_extends: "\<exists>part. snd (escape_field_loop f data here buf) = buf @ part"
proof (induction "length data - here" arbitrary: here buf rule: less_induct)
  case less
  note step = escape_field_loop.simps [of f data here buf]
  show ?case
  proof (cases "here < length data")
    case False
    then show ?thesis unfolding step by simp
  next
    case True
    show ?thesis
    proof (cases "f data here")
      case (Inl e)
      with True show ?thesis unfolding step by simp
    next
      case (Inr p)
      show ?thesis
      proof (cases p)
        case None
        with True Inr show ?thesis unfolding step by simp
      next
        case (Some stop)
        have ih: "\<exists>part. snd (escape_field_loop f data (stop + 1) (buf @ x)) = buf @ part" if "here \<le> stop" for x
        proof -
          have "length data - (stop + 1) < length data - here" using True that by simp
          from less [OF this, of "buf @ x"] show ?thesis by auto
        qed
        show ?thesis
        proof (cases "here \<le> stop \<and> stop < length data")
          case True
          with \<open>here < length data\<close> Inr Some ih [of "slice data here stop @ [CHR 0x5C, c]" for c] show ?thesis
            unfolding step by (cases "escape_char (data ! stop)") (simp_all add: Let_def)
        next
          case False
          with \<open>here < length data\<close> Inr Some ih [of "slice data here stop"] show ?thesis
            unfolding step by (auto simp: Let_def)
        qed
      qed
    qed
  qed
qed

text \<open>What is left of the state of a writer that a failed append changed: it only got more in its buffer.\<close>

definition grows :: "stream_to \<Rightarrow> stream_to \<Rightarrow> bool" where
  "grows st st' \<longleftrightarrow> m_finder st' = m_finder st \<and> (\<exists>part. m_buffer st' = m_buffer st @ part)"

lemma escape_field_grows: "escape_field_to_buffer data st = (r, st') \<Longrightarrow> grows st st'"
  using escape_field_loop_extends [of "m_finder st" data 0 "m_buffer st"]
  by (auto simp: escape_field_to_buffer_def grows_def split: prod.splits sum.splits option.splits)

lemma append_to_buffer_grows:
  assumes "append_to_buffer C v st = (Inl e, st')"
  shows "grows st st'"
proof -
  have sub: "grows st st'" if "escape_field_to_buffer d (st\<lparr>m_field_buf := b\<rparr>) = (r, st')" for d b r
    using escape_field_grows [OF that] by (simp add: grows_def)
  show ?thesis
    using assms sub
    by (auto simp: append_to_buffer_def append_arithmetic_def append_text_def append_converted_def Let_def grows_def resize_str_def
        split: if_splits storage.splits sum.splits option.splits prod.splits)
qed

lemma bindO_assoc: "bindO (bindO m f) g = bindO m (\<lambda>x. bindO (f x) g)"
  by (auto simp: bindO_def fun_eq_iff split: prod.split sum.split option.split)

lemma bindO_unit: "bindO (retA (Some x)) f = f x"
  by (simp add: bindO_def retA_def)

lemma fill_buffer_append: "fill_buffer (fs @ gs) = bindO (fill_buffer fs) (\<lambda>_. fill_buffer gs)"
  by (induction fs) (simp_all add: bindO_unit bindO_assoc)

lemma fill_buffer_failed:
  assumes "fill_buffer (fs @ [f]) st = (Inl e, st')" "fill_buffer fs st = (Inr (Some ()), st1)"
  shows "append_to_buffer (fst f) (snd f) st1 = (Inl e, st') \<and> fill_buffer (fs @ f # gs) st = (Inl e, st')"
proof -
  from assms have "append_to_buffer (fst f) (snd f) st1 = (Inl e, st')"
    by (auto simp: fill_buffer_append bindO_def retA_def split: prod.splits sum.splits option.splits)
  with assms(2) show ?thesis by (simp add: fill_buffer_append bindO_def)
qed

text \<open>
  A row that fails in the middle spoils the next one.  When a field of a row cannot be written, for instance because
  its text is broken in the encoding of the connection, the fields before it stay in the buffer of the stream.  The
  next row that is written goes to the server on one line with them: as a row with more fields, or as one whose
  values are not those that were asked for.
\<close>

theorem failed_row_leaks:
  assumes "enc \<noteq> MULE_INTERNAL" "get_char_finder copy_specials enc = Inr (m_finder st)" "m_buffer st = []"
    and failed: "list_all2 (column_writes enc) fs ts" "fill_buffer (fs @ [f]) st = (Inl e, st')"
    and retry: "list_all2 (column_writes enc) fs' ts'" "ts' \<noteq> []"
  shows "\<exists>part fb. write_row K (fs @ f # gs) (w, st) = (Inl e, (w, st')) \<and>
    m_buffer st' = concat (map (\<lambda>t. field_line t @ [CHR 0x09]) ts) @ part \<and>
    (let line = concat (map (\<lambda>t. field_line t @ [CHR 0x09]) ts) @ part @ copy_line ts' in
     write_row K fs' (w, st') =
       bindA (write_raw_line K line) (\<lambda>_ (w, st). retA (Some ()) (w, st\<lparr>m_buffer := []\<rparr>))
         (w, st'\<lparr>m_field_buf := fb, m_buffer := line\<rparr>))"
proof -
  note ok = get_char_finder_ok [OF assms(2) ascii_specials(1) assms(1)]
  let ?t = "concat (map (\<lambda>t. field_line t @ [CHR 0x09]) ts)"
  from fill_buffer_text [OF failed(1) ok] obtain fb where
    a: "fill_buffer fs st = (Inr (Some ()), (append_buffer ?t st)\<lparr>m_field_buf := fb\<rparr>)" by (auto simp: appends_def)
  note f = fill_buffer_failed [OF failed(2) a, of gs]
  from append_to_buffer_grows [OF conjunct1 [OF f]] assms(3) obtain part where
    g: "m_buffer st' = ?t @ part" "m_finder st' = m_finder st" by (auto simp: grows_def)
  from write_row_text [OF retry(1) ok [folded g(2)] retry(2), of K w] obtain fb' where
    "write_row K fs' (w, st') = bindA (write_raw_line K (m_buffer st' @ copy_line ts'))
      (\<lambda>_ (w, st). retA (Some ()) (w, st\<lparr>m_buffer := []\<rparr>)) (w, st'\<lparr>m_field_buf := fb', m_buffer := m_buffer st' @ copy_line ts'\<rparr>)"
    by blast
  moreover from f have "write_row K (fs @ f # gs) (w, st) = (Inl e, (w, st'))"
    by (simp add: write_row_def bindO_def on_snd_def)
  ultimately show ?thesis using g(1) unfolding g(1) Let_def by (intro exI [of _ part] exI [of _ fb']) simp
qed

text \<open>The byte 80 is no SHIFT_JIS character.\<close>

lemma demo_failure: "\<exists>e st'. fill_buffer [(text_column, ''a''), (text_column, [CHR 0x80])] demo_to = (Inl e, st') \<and>
   m_buffer st' = ''a'' @ [CHR 0x09]"
proof -
  have "find_ascii_char SJIS copy_specials ''a'' 0 = Inr (Some 1)"
    using find_ascii_char_glyphs [of SJIS copy_specials "[''a'']" "[]" "[]"]
    by (simp add: copy_specials_def ascii_glyph ascii_def)
  then have "escape_field_loop (find_ascii_char SJIS copy_specials) ''a'' 0 [] = (Inr (Some ()), ''a'')"
    by (subst escape_field_loop.simps, simp add: slice_def Let_def, subst escape_field_loop.simps, simp)
  moreover have "\<exists>e. find_ascii_char SJIS copy_specials [CHR 0x80] 0 = Inl e"
    by (subst find_ascii_char.simps) (simp add: get_glyph_scanner_def scan_SJIS_def get_byte_def between_inc_def
        throw_for_encoding_error_def)
  then obtain e where "find_ascii_char SJIS copy_specials [CHR 0x80] 0 = Inl e" by blast
  then have "escape_field_loop (find_ascii_char SJIS copy_specials) [CHR 0x80] 0 b = (Inl e, b)" for b
    by (subst escape_field_loop.simps) simp
  ultimately show ?thesis
    by (simp add: bindO_def append_to_buffer_def text_column_def append_text_def escape_field_to_buffer_def demo_to_def
        estimate_buffer_def Let_def)
qed

theorem failed_row_leaks_witness:
  "\<exists>e w st. write_row demo_copy [(text_column, ''a''), (text_column, [CHR 0x80])] (demo_scope [], demo_to) = (Inl e, (w, st)) \<and>
    outgoing (srv (fst (snd (write_row demo_copy [(text_column, ''b'')] (w, st))))) = ''a'' @ [CHR 0x09] @ ''b'' @ [newline]"
proof -
  let ?bad = "(text_column, [CHR 0x80])" and ?a = "[(text_column, ''a'')]" and ?b = "[(text_column, ''b'')]"
  have w: "list_all2 (column_writes SJIS) ?a [Some [''a'']]" "list_all2 (column_writes SJIS) ?b [Some [''b'']]"
    by (simp_all add: column_writes_def text_column_def ascii_glyph ascii_def)
  from demo_failure obtain e st' where f: "fill_buffer (?a @ [?bad]) demo_to = (Inl e, st')" "m_buffer st' = ''a'' @ [CHR 0x09]" by auto
  have l: "field_line (Some [''a'']) = ''a''" "copy_line [Some [''b'']] = ''b''" by code_simp+
  from failed_row_leaks [OF _ demo_finders(1) demo_states(1) w(1) f(1) w(2), of demo_copy "[]" "demo_scope []"] f(2) obtain fb where
    r: "write_row demo_copy (?a @ [?bad]) (demo_scope [], demo_to) = (Inl e, (demo_scope [], st'))"
      "write_row demo_copy ?b (demo_scope [], st') =
        bindA (write_raw_line demo_copy (''a'' @ [CHR 0x09] @ ''b'')) (\<lambda>_ (w, st). retA (Some ()) (w, st\<lparr>m_buffer := []\<rparr>))
         (demo_scope [], st'\<lparr>m_field_buf := fb, m_buffer := ''a'' @ [CHR 0x09] @ ''b''\<rparr>)"
    by (auto simp: Let_def l)
  show ?thesis
    by (intro exI [of _ e] exI [of _ "demo_scope []"] exI [of _ st'])
      (use r in \<open>simp add: bindA_def write_raw_line_def on_fst_def write_copy_line_def retA_def Let_def INT_MAX_def\<close>)
qed

end
