(* ===== verification/Pqxx_Stream_Query.thy ===== *)
theory Pqxx_Stream_Query
  imports Pqxx_Copy
begin

text \<open>
  \<open>stream_query\<close>, the newer way of reading the results of a query row by row
  (\<open>include/pqxx/internal/stream_query.hxx\<close> and \<open>stream_query_impl.hxx\<close>).  It searches for the ends of fields
  without a test of the end of the line, relying on a tab that its iterator puts there.  Its parser checks most of
  its assumptions with assertions only, so it is modelled with and without them: the argument \<open>dbg\<close>.  A failed
  assertion is the outcome \<open>None\<close>, like undefined behaviour.
\<close>

section \<open>The stream\<close>

text \<open>The search function is a null pointer once the stream is done.\<close>

record stream_query = transaction_focus +
  m_s_finder :: "s_char_finder_func option"
  m_text :: string

definition query_done :: "stream_query \<Rightarrow> bool" where
  "query_done q \<longleftrightarrow> m_s_finder q = None"

definition get_s_finder :: "'s libpq \<Rightarrow> ('s scope, s_char_finder_func) act" where
  "get_s_finder L =
     bindA (encoding_id L) (\<lambda>enc.
     bindA (liftR (enc_group (pg_encoding_to_char L enc))) (\<lambda>group.
     liftR (get_s_char_finder row_specials group)))"

definition new_stream_query :: "'s libpq \<Rightarrow> nat \<Rightarrow> nat \<Rightarrow> string \<Rightarrow> ('s scope, stream_query) act" where
  "new_stream_query L this types query =
     (let guest = (this, ''stream_query'', []) in
      bindA (get_s_finder L) (\<lambda>finder.
      bindA (tx_exec0 L (''COPY ('' @ query @ '') TO STDOUT'')) (\<lambda>r.
      if res_columns r \<noteq> types then throwA (Pqxx_usage_error
        (''Parsing query stream with wrong number of columns: code expects '' @ nat_to_string types @
         '' but query returns '' @ nat_to_string (res_columns r) @ ''.''))
      else
        bindA (register_focus guest) (\<lambda>_.
        retA \<lparr>m_guest = guest, m_reg = True, m_s_finder = Some finder, m_text = []\<rparr>))))"

definition close_query :: "'s scope \<times> stream_query \<Rightarrow> 's scope \<times> stream_query" where
  "close_query ws = (if query_done (snd ws) then ws else unregister_me (fst ws, (snd ws)\<lparr>m_s_finder := None\<rparr>))"

definition read_line :: "'s copy_libpq \<Rightarrow> ('s scope \<times> stream_query, raw_line) act" where
  "read_line K = (\<lambda>ws.
     case on_fst (read_copy_line K) ws of
       (Inl e, ws) \<Rightarrow> (Inl e, if is_std_exception e then close_query ws else ws)
     | (Inr None, ws) \<Rightarrow> (Inr None, close_query ws)
     | (Inr (Some line), ws) \<Rightarrow> (Inr (Some line), ws))"

text \<open>
  The iterator takes a line and puts a tab in place of the newline behind it, if the line is not empty.  Its state
  is the memory of the line and the size of the text.  The assertion of \<open>read_line\<close>, that the stream is not done, is here.
\<close>

definition consume_line :: "bool \<Rightarrow> 's copy_libpq \<Rightarrow> ('s scope \<times> stream_query, (string \<times> nat) option) act" where
  "consume_line dbg K = (\<lambda>ws.
     if dbg \<and> query_done (snd ws) then (Inr None, ws)
     else
       case read_line K ws of
         (Inl e, ws) \<Rightarrow> (Inl e, ws)
       | (Inr None, ws) \<Rightarrow> (Inr (Some ([], 0)), ws)
       | (Inr (Some (ptr, n)), ws) \<Rightarrow>
           if n > 0 then
             (if length ptr \<le> n \<or> dbg \<and> ptr ! n \<noteq> newline then (Inr None, ws)
              else (Inr (Some (ptr[n := CHR 0x09], n)), ws))
           else (Inr (Some (ptr, n)), ws))"

section \<open>The fields\<close>

definition peek :: "string \<Rightarrow> nat \<Rightarrow> char ub_res" where
  "peek lp i = (if i < length lp then Inr (Some (lp ! i)) else Inr None)"

lemma peek_at: "peek (a @ c # b) (length a) = Inr (Some c)"
  by (simp add: peek_def)

text \<open>
  The loop that unescapes a field up to the tab.  A position from the search function that is not at a tab or a
  backslash is taken for an error, although without assertions the code would go on searching there.
\<close>

function read_text ::
    "bool \<Rightarrow> s_char_finder_func \<Rightarrow> string \<Rightarrow> nat \<Rightarrow> nat \<Rightarrow> string \<Rightarrow> nat \<Rightarrow> (nat \<times> string \<times> nat) ub_res" where
  "read_text dbg finder lp line_size offset row write =
     bindU (peek lp offset) (\<lambda>c.
     if c = CHR 0x09 then Inr (Some (offset, row, write))
     else if dbg \<and> c = CHR 0x00 then Inr None
     else
       bindU (finder lp line_size offset) (\<lambda>stop_char.
       if dbg \<and> stop_char \<ge> line_size + 1 then Inr None
       else if stop_char < offset \<or> length lp \<le> stop_char \<or> length row < write + (stop_char - offset) then Inr None
       else
         let row = blit row write (slice lp offset stop_char); write = write + (stop_char - offset) in
         if lp ! stop_char = CHR 0x09 then Inr (Some (stop_char, row, write))
         else if lp ! stop_char \<noteq> CHR 0x5C \<or> dbg \<and> stop_char + 1 \<ge> line_size then Inr None
         else
           bindU (peek lp (stop_char + 1)) (\<lambda>escaped.
           if dbg \<and> (of_char escaped :: nat) \<ge> 0x80 then Inr None
           else if write \<ge> length row then Inr None
           else read_text dbg finder lp line_size (stop_char + 2) (row[write := unescape_char escaped]) (write + 1))))"
  by pat_completeness auto
termination
  by (relation "measure (\<lambda>(dbg, finder, lp, line_size, offset, row, write). length lp - offset)")
    (auto simp: peek_def split: if_splits)

declare read_text.simps [simp del]

text \<open>A field: the new offset, the row buffer, the new position in it, and the view.\<close>

definition read_field ::
    "bool \<Rightarrow> s_char_finder_func \<Rightarrow> string \<Rightarrow> nat \<Rightarrow> nat \<Rightarrow> string \<Rightarrow> nat \<Rightarrow> (nat \<times> string \<times> nat \<times> zview) ub_res" where
  "read_field dbg finder lp line_size offset row write =
     (if dbg \<and> (offset \<ge> line_size \<or> length lp < line_size + 2 \<or> lp ! line_size \<noteq> CHR 0x09 \<or> lp ! (line_size + 1) \<noteq> CHR 0x00) then
        Inr None
      else
        bindU (peek lp offset) (\<lambda>c.
        bindU (if c = CHR 0x5C then bindU (peek lp (offset + 1)) (\<lambda>d. Inr (Some (d = CHR ''N''))) else Inr (Some False)) (\<lambda>is_null.
        if is_null then
          (if dbg \<and> (length lp \<le> offset + 2 \<or> lp ! (offset + 2) \<noteq> CHR 0x09) then Inr None
           else Inr (Some (offset + 3, row, write, None)))
        else
          bindU (read_text dbg finder lp line_size offset row write) (\<lambda>(offset, row, en).
          if en \<ge> length row then Inr None
          else Inr (Some (offset + 1, row[en := CHR 0x00], en + 1, Some (write, en - write)))))))"

text \<open>For a type that is always null and a null field, \<open>parse_field\<close> ends without returning a value.\<close>

definition convert_field :: "'e column_type \<Rightarrow> string option \<Rightarrow> 'e ub_res" where
  "convert_field C txt =
     (if storage C = Always_null then
        (if txt \<noteq> None then Inl (Pqxx_conversion_error
           (''Streaming a non-null value into a '' @ type_name (col C) @ '', which must always be null.''))
         else Inr None)
      else
        case txt of
          None \<Rightarrow> (case null_value (col C) of
              Some e \<Rightarrow> Inr (Some e)
            | None \<Rightarrow> Inl (Pqxx_conversion_error (''Attempt to convert null to '' @ type_name (col C) @ ''.'')))
        | Some s \<Rightarrow> okU (from_string (col C) s))"

primrec parse_query_fields ::
    "'e column_type list \<Rightarrow> bool \<Rightarrow> s_char_finder_func \<Rightarrow> string \<Rightarrow> nat \<Rightarrow> nat \<Rightarrow> string \<Rightarrow> nat \<Rightarrow> (nat \<times> string \<times> 'e list) ub_res" where
  "parse_query_fields [] dbg finder lp line_size offset row write = Inr (Some (offset, row, []))"
| "parse_query_fields (C # Cs) dbg finder lp line_size offset row write =
     (if dbg \<and> offset \<ge> line_size then Inr None
      else
        bindU (read_field dbg finder lp line_size offset row write) (\<lambda>(offset, row, write, v).
        bindU (convert_field C (view_text row v)) (\<lambda>e.
        bindU (parse_query_fields Cs dbg finder lp line_size offset row write) (\<lambda>(offset, row, es).
        Inr (Some (offset, row, e # es))))))"

text \<open>The values of a line, and the row buffer, which is kept for its memory only.\<close>

definition parse_query_line ::
    "bool \<Rightarrow> 'e column_type list \<Rightarrow> stream_query \<Rightarrow> string \<times> nat \<Rightarrow> ('e list \<times> string) ub_res" where
  "parse_query_line dbg Cs q = (\<lambda>(lp, line_size).
     case m_s_finder q of
       None \<Rightarrow> Inr None
     | Some finder \<Rightarrow>
         bindU (parse_query_fields Cs dbg finder lp line_size 0 (resize_str (line_size + 1) (m_text q)) 0) (\<lambda>(offset, row, es).
         if dbg \<and> offset \<noteq> line_size + 1 then Inr None else Inr (Some (es, row))))"

text \<open>
  A \<open>for\<close> loop over the stream: the values of the rows.  It need not end.
\<close>

partial_function (option) query_rows ::
    "bool \<Rightarrow> 's copy_libpq \<Rightarrow> 'e column_type list \<Rightarrow> 'e list list \<Rightarrow> 's scope \<times> stream_query \<Rightarrow>
      ('e list list ub_res \<times> 's scope \<times> stream_query) option" where
  "query_rows dbg K Cs rows ws =
     (case consume_line dbg K ws of
        (Inl e, ws) \<Rightarrow> Some (Inl e, ws)
      | (Inr None, ws) \<Rightarrow> Some (Inr None, ws)
      | (Inr (Some line), (w, q)) \<Rightarrow>
          if query_done q then Some (Inr (Some rows), (w, q))
          else
            case parse_query_line dbg Cs q line of
              Inl e \<Rightarrow> Some (Inl e, (w, q))
            | Inr None \<Rightarrow> Some (Inr None, (w, q))
            | Inr (Some (es, row)) \<Rightarrow> query_rows dbg K Cs (rows @ [es]) (w, q\<lparr>m_text := row\<rparr>))"

section \<open>Searching up to a sentinel\<close>

lemma find_s_ascii_char_glyphs:
  "plain enc needle gs \<Longrightarrow> ascii needle \<Longrightarrow> c \<in> set needle \<Longrightarrow> length a + length (concat gs) \<le> sz \<Longrightarrow>
   length (a @ concat gs @ c # b) \<le> npos \<Longrightarrow>
   find_s_ascii_char enc needle (a @ concat gs @ c # b) sz (length a) = Inr (Some (length a + length (concat gs)))"
proof (induction gs arbitrary: a)
  case Nil
  then show ?case by (subst find_s_ascii_char.simps) simp
next
  case (Cons g gs)
  let ?s = "a @ concat (g # gs) @ c # b"
  have g: "is_glyph enc g" "hd g \<notin> set needle" using Cons.prems(1,2) glyph_hd_plain by auto
  then have ne: "g \<noteq> []" by (simp add: is_glyph_def)
  have "get_glyph_scanner enc ?s sz (length a) = Inr (Some (length a + length g))"
    using glyph_at [OF g(1), of a sz "concat gs @ c # b"] Cons.prems(4) by simp
  moreover have "?s ! length a \<notin> set needle" using g(2) ne by (cases g) (auto simp: nth_append)
  moreover have "length a < npos" using Cons.prems(5) by simp
  ultimately have "find_s_ascii_char enc needle ?s sz (length a) = find_s_ascii_char enc needle ?s sz (length (a @ g))"
    using ne by (subst find_s_ascii_char.simps) simp
  also have "\<dots> = Inr (Some (length (a @ g) + length (concat gs)))"
    using Cons.IH [of "a @ g"] Cons.prems by simp
  finally show ?case by simp
qed

definition s_finder_ok :: "encoding_group \<Rightarrow> string \<Rightarrow> s_char_finder_func \<Rightarrow> bool" where
  "s_finder_ok enc needle f \<longleftrightarrow>
     (\<forall>a gs c b sz. plain enc needle gs \<longrightarrow> c \<in> set needle \<longrightarrow> length a + length (concat gs) \<le> sz \<longrightarrow>
        length (a @ concat gs @ c # b) \<le> npos \<longrightarrow>
        f (a @ concat gs @ c # b) sz (length a) = Inr (Some (length a + length (concat gs))))"

lemma s_finder_okD: "s_finder_ok enc needle f \<Longrightarrow> plain enc needle gs \<Longrightarrow> c \<in> set needle \<Longrightarrow>
    length a + length (concat gs) \<le> sz \<Longrightarrow> length (a @ concat gs @ c # b) \<le> npos \<Longrightarrow>
    f (a @ concat gs @ c # b) sz (length a) = Inr (Some (length a + length (concat gs)))"
  unfolding s_finder_ok_def by blast

lemma get_s_char_finder_is:
  assumes "get_s_char_finder needle enc = Inr f"
  shows "f = find_s_ascii_char (map_ascii_search_group enc) needle"
  using assms by (cases enc; simp add: get_s_char_finder_def map_ascii_search_group_def)

lemma get_s_char_finder_ok:
  assumes "get_s_char_finder needle enc = Inr f" "ascii needle" "enc \<noteq> MULE_INTERNAL"
  shows "s_finder_ok enc needle f"
  unfolding s_finder_ok_def
proof (intro allI impI)
  fix a gs c b sz
  assume p: "plain enc needle gs" and h: "c \<in> set needle" "length a + length (concat gs) \<le> sz" "length (a @ concat gs @ c # b) \<le> npos"
  show "f (a @ concat gs @ c # b) sz (length a) = Inr (Some (length a + length (concat gs)))"
  proof (cases "enc \<in> bytewise")
    case True
    then have "f = find_s_ascii_char MONOBYTE needle"
      using get_s_char_finder_is [OF assms(1)] by (auto simp: map_ascii_search_group_def)
    with find_s_ascii_char_glyphs [OF plain_bytes [OF bytewise_plain [OF p True assms(2)]] assms(2), of c a sz b] h
    show ?thesis by simp
  next
    case False
    then have "f = find_s_ascii_char enc needle"
      using get_s_char_finder_is [OF assms(1)] assms(3) by (cases enc; simp add: map_ascii_search_group_def)
    with find_s_ascii_char_glyphs [OF p assms(2) h] show ?thesis by simp
  qed
qed

section \<open>Reading what was written\<close>

lemma copy_text_hd: "list_all (is_glyph enc) gs \<Longrightarrow> copy_text gs = CHR 0x5C # r \<Longrightarrow> r \<noteq> [] \<and> hd r \<noteq> CHR ''N''"
proof (cases gs)
  case (Cons g hs)
  assume t: "copy_text gs = CHR 0x5C # r" and g: "list_all (is_glyph enc) gs"
  show ?thesis
  proof (cases "length g = 1 \<and> hd g \<in> set copy_specials")
    case True
    then have "g = [hd g]" by (cases g) auto
    with True copy_escape_special [of "hd g"] obtain d where "copy_escape g = [CHR 0x5C, d]" "d \<noteq> CHR ''N''" by auto
    with t Cons show ?thesis by auto
  next
    case False
    then have "copy_escape g = g" by (auto simp: copy_escape_def)
    moreover have "g \<noteq> []" "is_glyph enc g" using g Cons by (auto simp: is_glyph_def)
    ultimately have "hd g = CHR 0x5C" using t Cons by (cases g) auto
    moreover have "hd g \<notin> set copy_specials"
      using glyph_hd_plain [OF \<open>is_glyph enc g\<close> _ ascii_specials(1)] False by blast
    ultimately show ?thesis by (simp add: copy_specials_def)
  qed
qed simp

lemma read_text_stop:
  assumes "f lp sz (length a) = Inr (Some (length a + length x))" "lp = a @ x @ CHR 0x09 # b" "length a + length x \<le> sz"
    "w + length x \<le> length row" "dbg \<longrightarrow> CHR 0x00 \<notin> set x" "x \<noteq> [] \<longrightarrow> hd x \<noteq> CHR 0x09"
  shows "read_text dbg f lp sz (length a) row w = Inr (Some (length a + length x, blit row w x, w + length x))"
proof (cases x)
  case Nil
  have "blit row w [] = row" by (simp add: blit_def)
  with Nil assms show ?thesis by (subst read_text.simps) (simp add: peek_def)
next
  case (Cons c cs)
  have "slice lp (length a) (length a + length x) = x" unfolding assms(2) by (rule slice_middle)
  moreover have "lp ! (length a + length x) = CHR 0x09" using assms(2) by (simp add: nth_append)
  ultimately show ?thesis using assms Cons
    by (subst read_text.simps) (auto simp: peek_def Let_def)
qed

lemma copy_escape_code: "c \<in> set copy_specials \<Longrightarrow>
   \<exists>d. copy_escape [c] = [CHR 0x5C, d] \<and> unescape_char d = c \<and> (of_char d :: nat) < 0x80"
  by (auto simp: copy_specials_def copy_escape_def escape_char_def unescape_char_def)

lemma read_text_escape:
  assumes "f lp sz (length a) = Inr (Some (length a + length x))" "lp = a @ x @ CHR 0x5C # d # b" "length a + length x + 1 < sz"
    "w + length x < length row" "dbg \<longrightarrow> CHR 0x00 \<notin> set x" "(of_char d :: nat) < 0x80" "x \<noteq> [] \<longrightarrow> hd x \<noteq> CHR 0x09"
  shows "read_text dbg f lp sz (length a) row w =
    read_text dbg f lp sz (length a + length x + 2) ((blit row w x)[w + length x := unescape_char d]) (w + length x + 1)"
proof -
  let ?h = "hd (x @ [CHR 0x5C])"
  have s: "slice lp (length a) (length a + length x) = x" unfolding assms(2) by (rule slice_middle)
  have n: "lp ! (length a + length x) = CHR 0x5C" "peek lp (length a + length x + 1) = Inr (Some d)"
    using assms(2) by (simp_all add: nth_append peek_def)
  have h: "peek lp (length a) = Inr (Some ?h)" using assms(2) by (cases x) (simp_all add: peek_def)
  have "?h \<noteq> CHR 0x09" "\<not> (dbg \<and> ?h = CHR 0x00)" using assms(5,7) by (cases x; auto)+
  with s n h assms(1-4,6) show ?thesis by (subst read_text.simps) (auto simp: Let_def)
qed

lemma plain_hd: "plain enc needle gs \<Longrightarrow> ascii needle \<Longrightarrow> concat gs \<noteq> [] \<Longrightarrow> hd (concat gs) \<notin> set needle"
  using glyph_hd_plain by (cases gs) (auto simp: is_glyph_def)

lemma read_text_glyphs:
  assumes f: "s_finder_ok enc row_specials f" and lim: "length lp \<le> npos"
  shows "list_all (is_glyph enc) gs \<Longrightarrow> lp = a @ copy_text gs @ CHR 0x09 # b \<Longrightarrow> length a + length (copy_text gs) \<le> sz \<Longrightarrow>
    w + length (copy_text gs) \<le> length row \<Longrightarrow> dbg \<longrightarrow> CHR 0x00 \<notin> set (concat gs) \<and> length a + length (copy_text gs) < sz + 1 \<Longrightarrow>
    \<exists>row'. length row' = length row \<and> take (w + length (concat gs)) row' = take w row @ concat gs \<and>
      read_text dbg f lp sz (length a) row w =
        Inr (Some (length a + length (copy_text gs), row', w + length (concat gs)))"
proof (induction gs arbitrary: a w row rule: length_induct)
  case (1 gs)
  from 1(2) show ?case
  proof (cases rule: plain_prefix)
    case all
    note t = copy_text_plain [OF all]
    have "f lp sz (length a) = Inr (Some (length a + length (concat gs)))"
      using s_finder_okD [OF f plain_mono [OF all], of "CHR 0x09" a sz b] 1(3,4) t lim by simp
    moreover have "concat gs \<noteq> [] \<longrightarrow> hd (concat gs) \<noteq> CHR 0x09"
      using plain_hd [OF plain_mono [OF all]] by (auto simp: row_specials_def ascii_def)
    ultimately show ?thesis
      using read_text_stop [of f lp sz a "concat gs" b w row dbg] 1(3-6) t take_blit [of w "concat gs" row]
      by (intro exI [of _ "blit row w (concat gs)"]) auto
  next
    case (special ps c hs)
    from copy_escape_code [OF special(3)] obtain d where
      d: "copy_escape [c] = [CHR 0x5C, d]" "unescape_char d = c" "(of_char d :: nat) < 0x80" by blast
    let ?x = "concat ps" and ?b = "copy_text hs @ CHR 0x09 # b"
    have t: "copy_text gs = ?x @ CHR 0x5C # d # copy_text hs" using special(1) d(1) copy_text_plain [OF special(2)] by simp
    then have line: "lp = a @ ?x @ CHR 0x5C # d # ?b" using 1(3) by simp
    have len: "length (copy_text gs) = length ?x + 2 + length (copy_text hs)" by (subst t) simp
    let ?row = "(blit row w ?x)[w + length ?x := c]" and ?a = "a @ ?x @ [CHR 0x5C, d]"
    have room: "w + length ?x < length row" "length a + length ?x + 1 < sz" using 1(4,5) len by simp_all
    have "f lp sz (length a) = Inr (Some (length a + length ?x))"
      using s_finder_okD [OF f plain_mono [OF special(2)], of "CHR 0x5C" a sz "d # ?b"] line lim room by simp
    moreover have "?x \<noteq> [] \<longrightarrow> hd ?x \<noteq> CHR 0x09"
      using plain_hd [OF plain_mono [OF special(2)]] by (auto simp: row_specials_def ascii_def)
    moreover have "dbg \<longrightarrow> CHR 0x00 \<notin> set ?x" using 1(6) special(1) by auto
    ultimately have step: "read_text dbg f lp sz (length a) row w = read_text dbg f lp sz (length ?a) ?row (w + length ?x + 1)"
      using read_text_escape [of f lp sz a ?x d ?b w row dbg] line room d by simp
    have "lp = ?a @ copy_text hs @ CHR 0x09 # b" "length ?a + length (copy_text hs) \<le> sz"
      "w + length ?x + 1 + length (copy_text hs) \<le> length ?row"
      "dbg \<longrightarrow> CHR 0x00 \<notin> set (concat hs) \<and> length ?a + length (copy_text hs) < sz + 1"
      using line room 1(4-6) len special(1) by simp_all
    with 1(1) special(4,5) obtain row' where r: "length row' = length ?row"
      "take (w + length ?x + 1 + length (concat hs)) row' = take (w + length ?x + 1) ?row @ concat hs"
      "read_text dbg f lp sz (length ?a) ?row (w + length ?x + 1) =
        Inr (Some (length ?a + length (copy_text hs), row', w + length ?x + 1 + length (concat hs)))" by blast
    have "take (w + length ?x + 1) ?row = take w row @ ?x @ [c]"
      using room take_blit [of w ?x row] by (simp add: take_Suc_conv_app_nth)
    moreover have "concat gs = ?x @ c # concat hs" using special(1) by simp
    ultimately show ?thesis using r step room len by (intro exI [of _ row']) (simp add: add.assoc)
  qed
qed

text \<open>One field; the view stays valid as long as what is before \<open>w2\<close> does.\<close>

lemma read_field_text:
  assumes f: "s_finder_ok enc row_specials f" and lim: "length lp \<le> npos" and g: "pred_option (list_all (is_glyph enc)) t"
    and lp: "lp = a @ field_line t @ CHR 0x09 # b" "length a + length (field_line t) \<le> sz" and room: "w + length (field_line t) < length row"
    and dbg: "dbg \<longrightarrow> length a < sz \<and> lp ! sz = CHR 0x09 \<and> lp ! (sz + 1) = CHR 0x00 \<and> sz + 2 \<le> length lp \<and>
      pred_option (\<lambda>gs. CHR 0x00 \<notin> set (concat gs)) t"
  shows "\<exists>row2 w2 v. read_field dbg f lp sz (length a) row w = Inr (Some (length a + length (field_line t) + 1, row2, w2, v)) \<and>
    w \<le> w2 \<and> w2 \<le> w + length (field_line t) + 1 \<and> length row2 = length row \<and> take w row2 = take w row \<and>
    (\<forall>r. take w2 r = take w2 row2 \<longrightarrow> view_text r v = map_option concat t)"
proof (cases t)
  case None
  then have "lp = a @ CHR 0x5C # CHR ''N'' # CHR 0x09 # b" using lp(1) by (simp add: field_line_def)
  then have "read_field dbg f lp sz (length a) row w = Inr (Some (length a + 3, row, w, None))"
    using dbg by (auto simp: read_field_def peek_def nth_append)
  with None show ?thesis by (auto simp: field_line_def view_text_def)
next
  case (Some gs)
  let ?n = "length (concat gs)"
  have lp': "lp = a @ copy_text gs @ CHR 0x09 # b" "length a + length (copy_text gs) \<le> sz" "w + length (copy_text gs) < length row"
    using lp room Some by (simp_all add: field_line_def)
  from Some g have gs: "list_all (is_glyph enc) gs" by simp
  from read_text_glyphs [OF f lim gs lp'(1,2), of w row dbg] lp'(2,3) dbg Some obtain row1 where
    r: "length row1 = length row" "take (w + ?n) row1 = take w row @ concat gs"
      "read_text dbg f lp sz (length a) row w = Inr (Some (length a + length (copy_text gs), row1, w + ?n))" by auto
  have n: "?n \<le> length (copy_text gs)" by (rule length_copy_text)
  have null: "bindU (peek lp (length a)) (\<lambda>c.
      bindU (if c = CHR 0x5C then bindU (peek lp (length a + 1)) (\<lambda>d. Inr (Some (d = CHR ''N''))) else Inr (Some False)) k) = k False" for k
  proof (cases "copy_text gs")
    case Nil
    then show ?thesis using lp'(1) by (simp add: peek_def)
  next
    case (Cons c cs)
    show ?thesis
    proof (cases "c = CHR 0x5C")
      case True
      with copy_text_hd [OF gs, of cs] Cons obtain d ds where "cs = d # ds" "d \<noteq> CHR ''N''" by (cases cs) auto
      with Cons True show ?thesis using lp'(1) by (simp add: peek_def nth_append)
    next
      case False
      with Cons show ?thesis using lp'(1) by (simp add: peek_def)
    qed
  qed
  let ?row2 = "row1[w + ?n := CHR 0x00]"
  have wr: "w < length row" using room by simp
  have t: "take (w + ?n) ?row2 = take w row @ concat gs" using r(2) by simp
  note view = field_view [OF t less_imp_le [OF wr]]
  have "read_field dbg f lp sz (length a) row w =
      Inr (Some (length a + length (copy_text gs) + 1, ?row2, w + ?n + 1, Some (w, ?n)))"
    using dbg r(1,3) lp'(3) n by (auto simp: read_field_def null)
  then show ?thesis using Some n r(1) view
    by (intro exI [of _ ?row2] exI [of _ "w + ?n + 1"] exI [of _ "Some (w, ?n)"]) (simp add: field_line_def view_text_def)
qed

section \<open>Rows and their values\<close>

text \<open>A field with the text \<open>fst x\<close>, made of glyphs, reads as the value \<open>snd x\<close>.\<close>

definition column_reads :: "encoding_group \<Rightarrow> 'e column_type \<Rightarrow> string list option \<times> 'e \<Rightarrow> bool" where
  "column_reads enc C x \<longleftrightarrow> storage C \<noteq> Always_null \<and> pred_option (list_all (is_glyph enc)) (fst x) \<and>
     (case fst x of None \<Rightarrow> null_value (col C) = Some (snd x) | Some gs \<Rightarrow> from_string (col C) (concat gs) = Inr (snd x))"

text \<open>What the assertions of the code demand: no zero bytes, and text in the last field.\<close>

definition asserted :: "bool \<Rightarrow> string list option list \<Rightarrow> bool" where
  "asserted dbg ts \<longleftrightarrow> dbg \<longrightarrow>
     list_all (pred_option (\<lambda>gs. CHR 0x00 \<notin> set (concat gs))) ts \<and> field_line (last ts) \<noteq> []"

lemma convert_field_reads: "column_reads enc C x \<Longrightarrow> convert_field C (map_option concat (fst x)) = Inr (Some (snd x))"
  by (cases "fst x") (simp_all add: column_reads_def convert_field_def)

lemma parse_query_fields_text:
  assumes f: "s_finder_ok enc row_specials f" and lim: "length lp \<le> npos"
  shows "list_all2 (column_reads enc) Cs xs \<Longrightarrow> xs \<noteq> [] \<Longrightarrow> lp = a @ copy_line (map fst xs) @ [CHR 0x09, CHR 0x00] \<Longrightarrow>
    sz = length a + length (copy_line (map fst xs)) \<Longrightarrow> w + length (copy_line (map fst xs)) < length row \<Longrightarrow>
    asserted dbg (map fst xs) \<Longrightarrow>
    \<exists>row'. parse_query_fields Cs dbg f lp sz (length a) row w = Inr (Some (sz + 1, row', map snd xs))"
proof (induction Cs xs arbitrary: a w row rule: list_all2_induct)
  case (Cons C Cs x xs)
  let ?t = "fst x" and ?ts = "map fst xs"
  let ?b = "if xs = [] then [CHR 0x00] else copy_line ?ts @ [CHR 0x09, CHR 0x00]"
  have lp: "lp = a @ field_line ?t @ CHR 0x09 # ?b" and len: "length a + length (field_line ?t) \<le> sz"
    and room: "w + length (field_line ?t) < length row"
    using Cons.prems(2-4) by (simp_all add: copy_line_def)
  have dbg: "dbg \<longrightarrow> length a < sz \<and> lp ! sz = CHR 0x09 \<and> lp ! (sz + 1) = CHR 0x00 \<and> sz + 2 \<le> length lp \<and>
      pred_option (\<lambda>gs. CHR 0x00 \<notin> set (concat gs)) ?t"
    using Cons.prems(2,3,5) by (auto simp: asserted_def copy_line_def nth_append split: if_splits)
  have "pred_option (list_all (is_glyph enc)) ?t" using Cons.hyps(1) by (simp add: column_reads_def)
  from read_field_text [OF f lim this lp len room dbg] obtain row2 w2 v where
    r: "read_field dbg f lp sz (length a) row w = Inr (Some (length a + length (field_line ?t) + 1, row2, w2, v))"
      "w2 \<le> w + length (field_line ?t) + 1" "length row2 = length row" "view_text row2 v = map_option concat ?t" by blast
  have step: "parse_query_fields (C # Cs) dbg f lp sz (length a) row w =
      bindU (parse_query_fields Cs dbg f lp sz (length a + length (field_line ?t) + 1) row2 w2)
        (\<lambda>(offset, row, es). Inr (Some (offset, row, snd x # es)))"
    using dbg r(1,4) convert_field_reads [OF Cons.hyps(1)] by auto
  show ?case
  proof (cases "xs = []")
    case True
    with Cons.hyps(2) have "Cs = []" by simp
    with step True Cons.prems(3) show ?thesis by (simp add: copy_line_def)
  next
    case False
    let ?a = "a @ field_line ?t @ [CHR 0x09]"
    have "lp = ?a @ copy_line ?ts @ [CHR 0x09, CHR 0x00]" "sz = length ?a + length (copy_line ?ts)"
      "w2 + length (copy_line ?ts) < length row2" "asserted dbg ?ts"
      using lp False Cons.prems(3-5) r(2,3) by (simp_all add: copy_line_def asserted_def)
    from Cons.IH [OF False this] step show ?thesis by auto
  qed
qed simp

lemma parse_query_line_text:
  assumes "s_finder_ok enc row_specials f" "m_s_finder q = Some f" "list_all2 (column_reads enc) Cs xs" "xs \<noteq> []"
    and "length (copy_line (map fst xs)) + 2 \<le> npos" "asserted dbg (map fst xs)"
  shows "\<exists>row. parse_query_line dbg Cs q (copy_line (map fst xs) @ [CHR 0x09, CHR 0x00], length (copy_line (map fst xs))) =
    Inr (Some (map snd xs, row))"
  using parse_query_fields_text [OF assms(1) _ assms(3,4), of "copy_line (map fst xs) @ [CHR 0x09, CHR 0x00]" "[]"
      "length (copy_line (map fst xs))" 0 "resize_str (length (copy_line (map fst xs)) + 1) (m_text q)" dbg] assms(2,5,6)
  by (auto simp: parse_query_line_def)

section \<open>All the rows\<close>

text \<open>The server hands out the lines \<open>ls\<close> and then the end of the data.\<close>

inductive hands_out :: "'s copy_libpq \<Rightarrow> 's scope \<Rightarrow> string list \<Rightarrow> 's scope \<Rightarrow> bool" for K where
  out_end: "read_copy_line K w = (Inr None, w') \<Longrightarrow> hands_out K w [] w'"
| out_line: "read_copy_line K w = (Inr (Some (l @ [newline, CHR 0x00], length l)), w1) \<Longrightarrow> hands_out K w1 ls w' \<Longrightarrow>
    hands_out K w (l # ls) w'"

inductive_cases out_endE: "hands_out K w [] w'"
inductive_cases out_lineE: "hands_out K w (l # ls) w'"

lemma query_rows_text:
  assumes f: "s_finder_ok enc row_specials f"
  shows "hands_out K w (map (\<lambda>xs. copy_line (map fst xs)) xss) w' \<Longrightarrow>
    list_all (\<lambda>xs. list_all2 (column_reads enc) Cs xs \<and> copy_line (map fst xs) \<noteq> [] \<and>
      length (copy_line (map fst xs)) + 2 \<le> npos \<and> asserted dbg (map fst xs)) xss \<Longrightarrow>
    m_s_finder q = Some f \<Longrightarrow>
    \<exists>ws'. query_rows dbg K Cs rows (w, q) = Some (Inr (Some (rows @ map (map snd) xss)), ws') \<and> query_done (snd ws')"
proof (induction xss arbitrary: w q rows)
  case Nil
  from Nil(1) have "read_copy_line K w = (Inr None, w')" by (auto elim: out_endE)
  with Nil(3) show ?case
    by (subst query_rows.simps) (simp add: consume_line_def read_line_def on_fst_def close_query_def unregister_me_def query_done_def)
next
  case (Cons xs xss)
  let ?l = "copy_line (map fst xs)"
  from Cons.prems(1) obtain w1 where
    l: "read_copy_line K w = (Inr (Some (?l @ [newline, CHR 0x00], length ?l)), w1)"
    and rest: "hands_out K w1 (map (\<lambda>xs. copy_line (map fst xs)) xss) w'" by (auto elim: out_lineE)
  from Cons.prems(2) have row: "list_all2 (column_reads enc) Cs xs" "?l \<noteq> []" "length ?l + 2 \<le> npos" "asserted dbg (map fst xs)"
    by simp_all
  from row(2) have "xs \<noteq> []" by (auto simp: copy_line_def)
  from parse_query_line_text [OF f Cons.prems(3) row(1) this row(3,4)] obtain r where
    p: "parse_query_line dbg Cs q (?l @ [CHR 0x09, CHR 0x00], length ?l) = Inr (Some (map snd xs, r))" by blast
  have c: "consume_line dbg K (w, q) = (Inr (Some (?l @ [CHR 0x09, CHR 0x00], length ?l)), (w1, q))"
    using l row(2) Cons.prems(3) by (simp add: consume_line_def read_line_def on_fst_def query_done_def nth_append list_update_append)
  have "query_rows dbg K Cs rows (w, q) = query_rows dbg K Cs (rows @ [map snd xs]) (w1, q\<lparr>m_text := r\<rparr>)"
    using Cons.prems(3) by (subst query_rows.simps) (simp add: c p query_done_def)
  with Cons.IH [OF rest, of "q\<lparr>m_text := r\<rparr>" "rows @ [map snd xs]"] Cons.prems(2,3) show ?case by simp
qed

text \<open>
  C19. Streaming the rows of a query.  If the server hands out rows as COPY lines, with the texts of values that the
  requested types can read, the loop over the stream ends, and its body has seen exactly the values of the rows, in
  their order.  The search without a test of the end of the line is safe here, in every encoding but MULE_INTERNAL,
  because of the tab behind every line.  What is required of the rows is that their line is not empty; and
  if the library is compiled with assertions, that the last field of a row is not an empty string.
\<close>

theorem query_rows_roundtrip:
  assumes "enc \<noteq> MULE_INTERNAL" "get_s_char_finder row_specials enc = Inr f" "m_s_finder q = Some f"
    "hands_out K w (map (\<lambda>xs. copy_line (map fst xs)) xss) w'"
    "\<forall>xs \<in> set xss. list_all2 (column_reads enc) Cs xs \<and> copy_line (map fst xs) \<noteq> [] \<and>
      length (copy_line (map fst xs)) + 2 \<le> npos \<and> asserted dbg (map fst xs)"
  shows "\<exists>ws'. query_rows dbg K Cs [] (w, q) = Some (Inr (Some (map (map snd) xss)), ws') \<and> query_done (snd ws')"
  using query_rows_text [OF get_s_char_finder_ok [OF assms(2) ascii_specials(2) assms(1)] assms(4) _ assms(3), of Cs dbg "[]"] assms(5)
  by (simp add: list_all_iff)

text \<open>The rows \<open>1\<close> and a null, and \<open>2\<close> and \<open>x\<close>, read as text with the null as an empty string.\<close>

definition lenient_column :: "string column_type" where
  "lenient_column = \<lparr>col = string_type\<lparr>null_value := Some []\<rparr>, storage = Text (\<lambda>v. v), is_null = (\<lambda>v. v = [])\<rparr>"

definition demo_rows :: "(string list option \<times> string) list list" where
  "demo_rows = [[(Some [''1''], ''1''), (None, [])], [(Some [''2''], ''2''), (Some [''x''], ''x'')]]"

definition demo_query :: stream_query where
  "demo_query = \<lparr>m_guest = (5, ''stream_query'', []), m_reg = True,
     m_s_finder = Some (find_s_ascii_char SJIS row_specials), m_text = []\<rparr>"

lemma demo_s_finder: "get_s_char_finder row_specials SJIS = Inr (find_s_ascii_char SJIS row_specials)"
  by (simp add: get_s_char_finder_def map_ascii_search_group_def)

lemma demo_read_line:
  "incoming (srv w) = l # ls \<Longrightarrow> length l < 2 ^ 64 \<Longrightarrow>
   read_copy_line demo_copy w = (Inr (Some (l @ [newline, CHR 0x00], length l)), w\<lparr>srv := (srv w)\<lparr>incoming := ls\<rparr>\<rparr>)"
  by (simp add: read_copy_line_def retA_def Let_def nat_mod_distrib flip: of_nat_mod)

lemma demo_read_end: "incoming (srv w) = [] \<Longrightarrow> m_conn (cn w) = 0 \<Longrightarrow> \<exists>w'. read_copy_line demo_copy w = (Inr None, w')"
  by (simp add: read_copy_line_def Let_def bindA_def retA_def end_copy_def demo_copy_def
      make_result_def encoding_id_def demo_pq_def liftR_def enc_group_def enc_group_names_def check_status_def status_error_def
      ok_result_def)

lemma demo_hands_out: "incoming (srv w) = ls \<Longrightarrow> m_conn (cn w) = 0 \<Longrightarrow> \<forall>l \<in> set ls. length l < 2 ^ 64 \<Longrightarrow>
   \<exists>w'. hands_out demo_copy w ls w'"
proof (induction ls arbitrary: w)
  case Nil
  then show ?case using demo_read_end out_end by metis
next
  case (Cons l ls)
  from Cons.IH [of "w\<lparr>srv := (srv w)\<lparr>incoming := ls\<rparr>\<rparr>"] Cons.prems out_line [OF demo_read_line [OF Cons.prems(1)]]
  show ?case by fastforce
qed

theorem query_rows_roundtrip_witness:
  "\<exists>ws'. query_rows True demo_copy [lenient_column, lenient_column] []
      (demo_scope [''1'' @ [CHR 0x09, CHR 0x5C, CHR ''N''], ''2'' @ [CHR 0x09] @ ''x''], demo_query) =
    Some (Inr (Some [[''1'', []], [''2'', ''x'']]), ws') \<and> query_done (snd ws')"
proof -
  let ?ls = "map (\<lambda>xs. copy_line (map fst xs)) demo_rows"
  have ls: "?ls = [''1'' @ [CHR 0x09, CHR 0x5C, CHR ''N''], ''2'' @ [CHR 0x09] @ ''x'']" by code_simp
  with demo_hands_out [of "demo_scope ?ls" ?ls] obtain w' where w: "hands_out demo_copy (demo_scope ?ls) ?ls w'" by auto
  have g: "is_glyph SJIS ''1''" "is_glyph SJIS ''2''" "is_glyph SJIS ''x''" by code_simp+
  have "\<forall>xs \<in> set demo_rows. list_all2 (column_reads SJIS) [lenient_column, lenient_column] xs"
    using g by (simp add: demo_rows_def column_reads_def lenient_column_def)
  moreover have "\<forall>xs \<in> set demo_rows. copy_line (map fst xs) \<noteq> [] \<and> length (copy_line (map fst xs)) \<le> 4 \<and> asserted True (map fst xs)"
    by (simp add: demo_rows_def copy_line_def field_line_def copy_escape_def copy_specials_def asserted_def)
  then have "\<forall>xs \<in> set demo_rows. copy_line (map fst xs) \<noteq> [] \<and> length (copy_line (map fst xs)) + 2 \<le> npos \<and> asserted True (map fst xs)"
    by (auto simp: npos_def)
  ultimately have "\<forall>xs \<in> set demo_rows. list_all2 (column_reads SJIS) [lenient_column, lenient_column] xs \<and> copy_line (map fst xs) \<noteq> [] \<and>
      length (copy_line (map fst xs)) + 2 \<le> npos \<and> asserted True (map fst xs)" by blast
  from query_rows_roundtrip [OF _ demo_s_finder _ w this, of demo_query] show ?thesis
    by (simp add: ls demo_query_def) (simp add: demo_rows_def)
qed

section \<open>A row that ends with an empty string\<close>

lemma parse_query_fields_assert:
  assumes f: "s_finder_ok enc row_specials f" and lim: "length lp \<le> npos"
  shows "list_all2 (column_reads enc) Cs xs \<Longrightarrow> xs \<noteq> [] \<Longrightarrow> lp = a @ copy_line (map fst xs) @ [CHR 0x09, CHR 0x00] \<Longrightarrow>
    sz = length a + length (copy_line (map fst xs)) \<Longrightarrow> w + length (copy_line (map fst xs)) < length row \<Longrightarrow>
    list_all (pred_option (\<lambda>gs. CHR 0x00 \<notin> set (concat gs))) (map fst xs) \<Longrightarrow> fst (last xs) = Some [] \<Longrightarrow>
    parse_query_fields Cs True f lp sz (length a) row w = Inr None"
proof (induction Cs xs arbitrary: a w row rule: list_all2_induct)
  case (Cons C Cs x xs)
  let ?t = "fst x" and ?ts = "map fst xs"
  show ?case
  proof (cases "xs = []")
    case True
    with Cons.prems have "sz = length a" by (simp add: copy_line_def field_line_def)
    then show ?thesis by simp
  next
    case False
    let ?a = "a @ field_line ?t @ [CHR 0x09]"
    have lp: "lp = a @ field_line ?t @ CHR 0x09 # copy_line ?ts @ [CHR 0x09, CHR 0x00]" "length a + length (field_line ?t) \<le> sz"
      "w + length (field_line ?t) < length row"
      using Cons.prems(2-4) False by (simp_all add: copy_line_def)
    have dbg: "True \<longrightarrow> length a < sz \<and> lp ! sz = CHR 0x09 \<and> lp ! (sz + 1) = CHR 0x00 \<and> sz + 2 \<le> length lp \<and>
        pred_option (\<lambda>gs. CHR 0x00 \<notin> set (concat gs)) ?t"
      using Cons.prems(2,3,5) False by (auto simp: copy_line_def nth_append)
    have "pred_option (list_all (is_glyph enc)) ?t" using Cons.hyps(1) by (simp add: column_reads_def)
    from read_field_text [OF f lim this lp dbg] obtain row2 w2 v where
      r: "read_field True f lp sz (length a) row w = Inr (Some (length a + length (field_line ?t) + 1, row2, w2, v))"
        "w2 \<le> w + length (field_line ?t) + 1" "length row2 = length row" "view_text row2 v = map_option concat ?t" by blast
    have "lp = ?a @ copy_line ?ts @ [CHR 0x09, CHR 0x00]" "sz = length ?a + length (copy_line ?ts)"
      "w2 + length (copy_line ?ts) < length row2" "list_all (pred_option (\<lambda>gs. CHR 0x00 \<notin> set (concat gs))) ?ts"
      "fst (last xs) = Some []"
      using lp False Cons.prems(3-6) r(2,3) by (simp_all add: copy_line_def)
    from Cons.IH [OF False this] r(1,4) convert_field_reads [OF Cons.hyps(1)] dbg show ?thesis by auto
  qed
qed simp

lemma empty_search: "get_s_char_finder row_specials enc = Inr f \<Longrightarrow> f [newline, CHR 0x00] 0 0 = Inr None"
proof -
  assume "get_s_char_finder row_specials enc = Inr f"
  then have "f = find_s_ascii_char (map_ascii_search_group enc) row_specials" by (rule get_s_char_finder_is)
  then show ?thesis
    by (simp, subst find_s_ascii_char.simps) (simp add: scan_end row_specials_def find_s_ascii_char.simps npos_def)
qed

text \<open>
  A row that ends with an empty string is one that a query may well return.  When this is its only field, the line
  is empty, no tab is put behind it, and the search for one runs out of the line: undefined behaviour.  When there are
  other fields before it, the row is read without assertions, but with them it fails the one that says that there is
  text left for every field.
\<close>

theorem query_empty_text:
  assumes "enc \<noteq> MULE_INTERNAL" "get_s_char_finder row_specials enc = Inr f" "m_s_finder q = Some f"
    and row: "list_all2 (column_reads enc) Cs xs" "xs \<noteq> []" "fst (last xs) = Some []"
      "list_all (pred_option (\<lambda>gs. CHR 0x00 \<notin> set (concat gs))) (map fst xs)" "length (copy_line (map fst xs)) + 2 \<le> npos"
    and line: "read_copy_line K w =
      (Inr (Some (copy_line (map fst xs) @ [newline, CHR 0x00], length (copy_line (map fst xs)))), w1)"
    and "dbg \<or> length xs = 1"
  shows "query_rows dbg K Cs rows (w, q) = Some (Inr None, (w1, q))"
proof -
  let ?l = "copy_line (map fst xs)"
  have open_q: "\<not> query_done q" using assms(3) by (simp add: query_done_def)
  show ?thesis
  proof (cases "?l = []")
    case True
    from row(1,2) obtain C Cs' where Cs: "Cs = C # Cs'" by (cases Cs) auto
    have "consume_line dbg K (w, q) = (Inr (Some ([newline, CHR 0x00], 0)), (w1, q))"
      using line True open_q by (simp add: consume_line_def read_line_def on_fst_def)
    moreover have "parse_query_line dbg Cs q ([newline, CHR 0x00], 0) = Inr None"
      using assms(3) empty_search [OF assms(2)] by (simp add: parse_query_line_def Cs read_field_def peek_def)
        (subst read_text.simps, simp add: peek_def)
    ultimately show ?thesis using open_q by (subst query_rows.simps) simp
  next
    case False
    have dbg
    proof (rule ccontr)
      assume "\<not> dbg"
      with assms(10) obtain x where "xs = [x]" by (auto simp: length_Suc_conv)
      with row(3) False show False by (simp add: copy_line_def field_line_def)
    qed
    have "consume_line dbg K (w, q) = (Inr (Some (?l @ [CHR 0x09, CHR 0x00], length ?l)), (w1, q))"
      using line False open_q by (simp add: consume_line_def read_line_def on_fst_def nth_append list_update_append)
    moreover have "parse_query_line dbg Cs q (?l @ [CHR 0x09, CHR 0x00], length ?l) = Inr None"
      using parse_query_fields_assert [OF get_s_char_finder_ok [OF assms(2) ascii_specials(2) assms(1)] _ row(1,2), of _ "[]" "length ?l" 0
          "resize_str (length ?l + 1) (m_text q)"] row(3-5) assms(3) \<open>dbg\<close> by (simp add: parse_query_line_def)
    ultimately show ?thesis using open_q by (subst query_rows.simps) simp
  qed
qed

text \<open>A query for one empty string, which \<open>stream_from\<close> would read.\<close>

theorem query_empty_text_witness:
  "fst (the (query_rows False demo_copy [text_column] [] (demo_scope [[]], demo_query))) = Inr None"
proof -
  have r: "list_all2 (column_reads SJIS) [text_column] [(Some [], [])]" by (simp add: column_reads_def text_column_def)
  have l: "copy_line (map fst [(Some [], [])]) = []" by (simp add: copy_line_def field_line_def)
  have "read_copy_line demo_copy (demo_scope [[]]) =
      (Inr (Some ([newline, CHR 0x00], 0)), (demo_scope [[]])\<lparr>srv := (srv (demo_scope [[]]))\<lparr>incoming := []\<rparr>\<rparr>)"
    using demo_read_line [of "demo_scope [[]]" "[]" "[]"] by simp
  from query_empty_text [OF _ demo_s_finder _ r, of demo_query demo_copy "demo_scope [[]]" _ False "[]"] this l show ?thesis
    by (simp add: demo_query_def npos_def)
qed

end
