(* ===== verification/Pqxx_Pipeline.thy ===== *)
theory Pqxx_Pipeline
  imports Pqxx_Stream Pqxx_Composite Cpp_Map
begin

text \<open>
  \<open>pqxx::pipeline\<close> (\<open>src/pipeline.cxx\<close>, \<open>include/pqxx/pipeline.hxx\<close>): queries are sent to the server in batches,
  and their results are taken when they arrive or when they are asked for.  The object stands beside the scope of its
  connection and transaction, as the COPY streams do.  An iterator of the map of queries is its key, \<open>None\<close> is the
  end; using one that points nowhere is the outcome \<open>None\<close> of undefined behaviour.
\<close>

section \<open>libpq\<close>

text \<open>
  The asynchronous half of libpq.  \<open>PQgetCancel\<close> tells whether there is an object to cancel with, \<open>PQcancel\<close> gives
  the text of its error, if there is one.
\<close>

record 's async_libpq =
  cp :: "'s copy_libpq"
  PQsendQuery :: "nat \<Rightarrow> string \<Rightarrow> 's \<Rightarrow> bool \<times> 's"
  PQisBusy :: "nat \<Rightarrow> 's \<Rightarrow> bool"
  PQgetCancel :: "nat \<Rightarrow> 's \<Rightarrow> bool"
  PQcancel :: "nat \<Rightarrow> 's \<Rightarrow> string option \<times> 's"

definition start_exec :: "'s async_libpq \<Rightarrow> string \<Rightarrow> ('s scope, unit) act" where
  "start_exec Q query = (\<lambda>w.
     case PQsendQuery Q (m_conn (cn w)) query (srv w) of
       (True, s) \<Rightarrow> retA () (w\<lparr>srv := s\<rparr>)
     | (False, s) \<Rightarrow> throwA (Pqxx_failure (err_msg (cp Q) (w\<lparr>srv := s\<rparr>))) (w\<lparr>srv := s\<rparr>))"

definition get_result :: "'s async_libpq \<Rightarrow> ('s scope, pgresult option) act" where
  "get_result Q = (\<lambda>w. case PQgetResult (cp Q) (m_conn (cn w)) (srv w) of (r, s) \<Rightarrow> retA r (w\<lparr>srv := s\<rparr>))"

definition consume_input :: "'s async_libpq \<Rightarrow> ('s scope, bool) act" where
  "consume_input Q = (\<lambda>w. case PQconsumeInput (pq (cp Q)) (m_conn (cn w)) (srv w) of (b, s) \<Rightarrow> retA b (w\<lparr>srv := s\<rparr>))"

definition is_busy :: "'s async_libpq \<Rightarrow> 's scope \<Rightarrow> bool" where
  "is_busy Q w = PQisBusy Q (m_conn (cn w)) (srv w)"

definition cancel_query :: "'s async_libpq \<Rightarrow> ('s scope, unit) act" where
  "cancel_query Q = (\<lambda>w.
     if \<not> PQgetCancel Q (m_conn (cn w)) (srv w) then throwA Bad_alloc w
     else
       case PQcancel Q (m_conn (cn w)) (srv w) of
         (None, s) \<Rightarrow> retA () (w\<lparr>srv := s\<rparr>)
       | (Some err, s) \<Rightarrow> throwA (Pqxx_sql_error ''sql_error'' err) (w\<lparr>srv := s\<rparr>))"

section \<open>State\<close>

text \<open>A result with the text of the query it is said to be from; \<open>None\<close> is a result without data.\<close>

record query_result =
  r_data :: "pgresult option"
  r_query :: string

definition result_empty :: "query_result \<Rightarrow> bool" where
  "result_empty r = (case r_data r of None \<Rightarrow> True | Some d \<Rightarrow> res_rows d = [])"

definition result_check_status :: "query_result \<Rightarrow> unit res" where
  "result_check_status r =
     (case r_data r of None \<Rightarrow> Inl (Pqxx_failure ''No result set given.'')
      | Some d \<Rightarrow> bindR (check_status [] d) (\<lambda>_. Inr ()))"

record Query =
  query :: string
  q_res :: query_result

definition new_Query :: "string \<Rightarrow> Query" where
  "new_Query q = \<lparr>query = q, q_res = \<lparr>r_data = None, r_query = []\<rparr>\<rparr>"

type_synonym iter = "int option"

record pipeline = transaction_focus +
  m_queries :: "(int, Query) cmap"
  issued_first :: iter
  issued_second :: iter
  m_retain :: int
  m_num_waiting :: int
  m_q_id :: int
  m_dummy_pending :: bool
  m_error :: int

type_synonym 's pipe = "'s scope \<times> pipeline"

text \<open>An identifier is a \<open>long\<close>, which has 32 bits on the platform the program is written for.\<close>

definition qid_limit :: int where
  "qid_limit = 2147483647"

definition have_pending :: "pipeline \<Rightarrow> bool" where
  "have_pending p \<longleftrightarrow> issued_second p \<noteq> issued_first p"

definition set_error_at :: "int \<Rightarrow> pipeline \<Rightarrow> pipeline" where
  "set_error_at qid p = (if qid < m_error p then p\<lparr>m_error := qid\<rparr> else p)"

section \<open>Iterators\<close>

definition map_begin :: "(int, 'v) cmap \<Rightarrow> iter" where
  "map_begin m = (case m of [] \<Rightarrow> None | e # _ \<Rightarrow> Some (fst e))"

text \<open>\<open>*it\<close>.\<close>

definition deref :: "(int, 'v) cmap \<Rightarrow> iter \<Rightarrow> (int \<times> 'v) option" where
  "deref m it = (case it of None \<Rightarrow> None | Some k \<Rightarrow> map_option (Pair k) (map_get m k))"

text \<open>The entries from an iterator on, and those between two iterators.\<close>

definition entries_from :: "(int, 'v) cmap \<Rightarrow> iter \<Rightarrow> (int, 'v) cmap" where
  "entries_from m it = (case it of None \<Rightarrow> [] | Some k \<Rightarrow> filter (\<lambda>e. k \<le> fst e) m)"

definition entries_between :: "(int, 'v) cmap \<Rightarrow> iter \<Rightarrow> iter \<Rightarrow> (int, 'v) cmap option" where
  "entries_between m first stop =
     (if first = stop then Some []
      else if deref m first = None then None
      else
        (case stop of
           None \<Rightarrow> Some (entries_from m first)
         | Some k \<Rightarrow>
             if map_get (entries_from m first) k = None then None
             else Some (filter (\<lambda>e. fst e < k) (entries_from m first))))"

definition iter_next :: "(int, 'v) cmap \<Rightarrow> int \<Rightarrow> iter" where
  "iter_next m k = map_begin (filter (\<lambda>e. k < fst e) m)"

definition map_erase :: "int \<Rightarrow> (int, 'v) cmap \<Rightarrow> (int, 'v) cmap" where
  "map_erase k m = filter (\<lambda>e. fst e \<noteq> k) m"

text \<open>Changing the result of the query at a key.\<close>

definition set_result :: "int \<Rightarrow> query_result \<Rightarrow> (int, Query) cmap \<Rightarrow> (int, Query) cmap" where
  "set_result k r m = map (\<lambda>e. if fst e = k then (k, (snd e)\<lparr>q_res := r\<rparr>) else e) m"

section \<open>Actions\<close>

definition on_scope :: "('s scope, 'a) act \<Rightarrow> ('s pipe, 'a option) act" where
  "on_scope m = (\<lambda>(w, p). case m w of (Inl e, w) \<Rightarrow> (Inl e, (w, p)) | (Inr x, w) \<Rightarrow> (Inr (Some x), (w, p)))"

definition modify :: "(pipeline \<Rightarrow> pipeline) \<Rightarrow> ('s pipe, unit option) act" where
  "modify f = (\<lambda>(w, p). (Inr (Some ()), (w, f p)))"

definition register_me :: "('s pipe, unit option) act" where
  "register_me = (\<lambda>(w, p).
     bindO (on_scope (register_focus (m_guest p))) (\<lambda>_. modify (\<lambda>p. p\<lparr>m_reg := True\<rparr>)) (w, p))"

definition attach :: "('s pipe, unit option) act" where
  "attach = (\<lambda>ws. if \<not> m_reg (snd ws) then register_me ws else (Inr (Some ()), ws))"

definition detach :: "('s pipe, unit option) act" where
  "detach = (\<lambda>ws. (Inr (Some ()), if m_reg (snd ws) then unregister_me ws else ws))"

definition internal_error :: "string \<Rightarrow> ('s pipe, 'a option) act" where
  "internal_error err = (\<lambda>(w, p). (Inl (Pqxx_internal_error err), (w, set_error_at 0 p)))"

text \<open>The constructor, for an object at address \<open>this\<close>.  The encoding is only passed on to the results.\<close>

definition new_pipeline :: "'s libpq \<Rightarrow> nat \<Rightarrow> string \<Rightarrow> ('s scope, pipeline) act" where
  "new_pipeline L this tname =
     (let guest = (this, ''pipeline'', tname) in
      bindA (encoding_id L) (\<lambda>enc.
      bindA (liftR (enc_group (pg_encoding_to_char L enc))) (\<lambda>_.
      bindA (register_focus guest) (\<lambda>_.
      retA \<lparr>m_guest = guest, m_reg = True, m_queries = [], issued_first = None, issued_second = None, m_retain = 0,
        m_num_waiting = 0, m_q_id = 0, m_dummy_pending = False, m_error = qid_limit\<rparr>))))"

section \<open>Results\<close>

text \<open>
  \<open>obtain_result\<close>.  A null pointer while results are due means that the batch failed; the result is labelled with
  the query at the beginning of the map.
\<close>

definition obtain_result :: "'s async_libpq \<Rightarrow> bool \<Rightarrow> ('s pipe, bool option) act" where
  "obtain_result Q expect_none = (\<lambda>(w, p).
     case PQgetResult (cp Q) (m_conn (cn w)) (srv w) of
       (None, s) \<Rightarrow>
         if have_pending p \<and> \<not> expect_none then
           (case deref (m_queries p) (issued_first p) of
              None \<Rightarrow> (Inr None, (w\<lparr>srv := s\<rparr>, p))
            | Some e \<Rightarrow> (Inr (Some False), (w\<lparr>srv := s\<rparr>, (set_error_at (fst e) p)\<lparr>issued_second := issued_first p\<rparr>)))
         else (Inr (Some False), (w\<lparr>srv := s\<rparr>, p))
     | (Some r, s) \<Rightarrow>
         (case m_queries p of
            [] \<Rightarrow> (Inr None, (w\<lparr>srv := s\<rparr>, p))
          | oldest # _ \<Rightarrow>
              if \<not> have_pending p then
                (Inl (Logic_error ''Got more results from pipeline than there were queries.''),
                 (w\<lparr>srv := s\<rparr>, set_error_at (fst oldest) p))
              else
                (case deref (m_queries p) (issued_first p) of
                   None \<Rightarrow> (Inr None, (w\<lparr>srv := s\<rparr>, p))
                 | Some e \<Rightarrow>
                     if \<not> result_empty (q_res (snd e)) then
                       internal_error ''Multiple results for one query.'' (w\<lparr>srv := s\<rparr>, p)
                     else
                       (Inr (Some True), (w\<lparr>srv := s\<rparr>,
                          p\<lparr>m_queries := set_result (fst e) \<lparr>r_data = Some r, r_query = query (snd oldest)\<rparr> (m_queries p),
                            issued_first := iter_next (m_queries p) (fst e)\<rparr>)))))"

text \<open>How many queries are at or behind an iterator: the loops below go forward in the map.\<close>

definition remaining :: "(int, 'v) cmap \<Rightarrow> iter \<Rightarrow> nat" where
  "remaining m it = length (entries_from m it)"

lemma map_begin_filter: "map_begin (filter P m) = Some k \<Longrightarrow> \<exists>v. (k, v) \<in> set m \<and> P (k, v)"
proof (cases "filter P m")
  case (Cons e es)
  then have "e \<in> set m \<and> P e" using Cons_eq_filterD [OF Cons [symmetric]] by auto
  moreover assume "map_begin (filter P m) = Some k"
  ultimately show ?thesis using Cons by (cases e) (auto simp: map_begin_def)
qed (simp add: map_begin_def)

lemma remaining_next:
  assumes "deref m (Some k) = Some e"
  shows "remaining m (iter_next m k) < remaining m (Some k)"
proof (cases "iter_next m k")
  case None
  from assms have "map_get m k \<noteq> None" by (auto simp: deref_def)
  then have "k \<in> fst ` set m" by (auto simp: map_get_map_of map_of_eq_None_iff)
  then have "filter (\<lambda>e. k \<le> fst e) m \<noteq> []" by (auto simp: filter_empty_conv)
  with None show ?thesis by (simp add: remaining_def entries_from_def)
next
  case (Some k')
  then have k: "k < k'" by (auto simp: iter_next_def dest!: map_begin_filter)
  from assms have "map_get m k \<noteq> None" by (auto simp: deref_def)
  then have "k \<in> fst ` set m" by (auto simp: map_get_map_of map_of_eq_None_iff)
  then obtain x where x: "x \<in> set m" "fst x = k" by auto
  have "length (filter (\<lambda>e. k' \<le> fst e) m) = length (filter (\<lambda>e. k' \<le> fst e) (filter (\<lambda>e. k \<le> fst e) m))"
    using k by (auto intro!: arg_cong [of _ _ length] filter_cong)
  also have "\<dots> < length (filter (\<lambda>e. k \<le> fst e) m)"
    using x k by (intro length_filter_less [of x]) auto
  finally show ?thesis by (simp add: Some remaining_def entries_from_def)
qed

lemma remaining_deref: "deref m it = Some e \<Longrightarrow> remaining m (iter_next m (fst e)) < remaining m it"
  using remaining_next [of m _ e] by (cases it) (auto simp: deref_def)

lemma remaining_set_result [simp]: "remaining (set_result k r m) it = remaining m it"
proof -
  have "fst ((\<lambda>e. if fst e = k then (k, (snd e)\<lparr>q_res := r\<rparr>) else e) e) = fst e" for e :: "int \<times> Query" by simp
  then show ?thesis
    by (auto simp: remaining_def entries_from_def set_result_def filter_map o_def split: option.splits)
qed

lemma obtain_result_advances:
  assumes "obtain_result Q b (w, p) = (Inr (Some True), (w', p'))"
  shows "remaining (m_queries p') (issued_first p') < remaining (m_queries p) (issued_first p)"
proof -
  from assms obtain e where e: "deref (m_queries p) (issued_first p) = Some e"
      "issued_first p' = iter_next (m_queries p) (fst e)"
      "remaining (m_queries p') (issued_first p') = remaining (m_queries p) (issued_first p')"
    by (auto simp: obtain_result_def internal_error_def split: prod.splits option.splits list.splits if_splits)
  then obtain k where "issued_first p = Some k" "fst e = k" by (auto simp: deref_def split: option.splits)
  with e remaining_next [of "m_queries p" k e] show ?thesis by simp
qed

section \<open>Receiving\<close>

function recv_loop :: "'s async_libpq \<Rightarrow> iter \<Rightarrow> ('s pipe, unit option) act" where
  "recv_loop Q stop (w, p) =
     (case obtain_result Q False (w, p) of
        (Inl e, ws) \<Rightarrow> (Inl e, ws)
      | (Inr None, ws) \<Rightarrow> (Inr None, ws)
      | (Inr (Some got), (w', p')) \<Rightarrow>
          if got \<and> issued_first p' \<noteq> stop then recv_loop Q stop (w', p') else (Inr (Some ()), (w', p')))"
  by pat_completeness auto
termination
  by (relation "measure (\<lambda>(Q, stop, w, p). remaining (m_queries p) (issued_first p))")
    (auto dest: obtain_result_advances [OF sym])

declare recv_loop.simps [simp del]

function further_loop :: "'s async_libpq \<Rightarrow> ('s pipe, unit option) act" where
  "further_loop Q (w, p) =
     (if is_busy Q w then (Inr (Some ()), (w, p))
      else
        case obtain_result Q False (w, p) of
          (Inl e, ws) \<Rightarrow> (Inl e, ws)
        | (Inr None, ws) \<Rightarrow> (Inr None, ws)
        | (Inr (Some False), ws) \<Rightarrow> (Inr (Some ()), ws)
        | (Inr (Some True), (w', p')) \<Rightarrow>
            (case PQconsumeInput (pq (cp Q)) (m_conn (cn w')) (srv w') of
               (False, s) \<Rightarrow> (Inl (Pqxx_broken_connection ''Connection to database failed.''), (w'\<lparr>srv := s\<rparr>, p'))
             | (True, s) \<Rightarrow> further_loop Q (w'\<lparr>srv := s\<rparr>, p')))"
  by pat_completeness auto
termination
  by (relation "measure (\<lambda>(Q, w, p). remaining (m_queries p) (issued_first p))")
    (auto dest: obtain_result_advances [OF sym])

declare further_loop.simps [simp del]

definition get_further_available_results :: "'s async_libpq \<Rightarrow> ('s pipe, unit option) act" where
  "get_further_available_results Q = further_loop Q"

text \<open>The replay of a failed batch, query by query.  The loop tests its condition at the end.\<close>

function replay_loop :: "'s async_libpq \<Rightarrow> iter \<Rightarrow> ('s pipe, unit option) act" where
  "replay_loop Q stop (w, p) =
     (case deref (m_queries p) (issued_first p) of
        None \<Rightarrow> (Inr None, (w, p))
      | Some e \<Rightarrow>
          let p = p\<lparr>m_num_waiting := m_num_waiting p - 1\<rparr> in
          case tx_exec (pq (cp Q)) (query (snd e)) w of
            (Inl x, w) \<Rightarrow> (Inl x, (w, p))
          | (Inr d, w) \<Rightarrow>
              let r = \<lparr>r_data = Some d, r_query = query (snd e)\<rparr>;
                  p' = p\<lparr>m_queries := set_result (fst e) r (m_queries p)\<rparr> in
              case result_check_status r of
                Inl x \<Rightarrow> (Inl x, (w, p'))
              | Inr _ \<Rightarrow>
                  let p' = p'\<lparr>issued_first := iter_next (m_queries p) (fst e)\<rparr> in
                  if issued_first p' \<noteq> stop then replay_loop Q stop (w, p') else (Inr (Some ()), (w, p')))"
  by pat_completeness auto
termination
  by (relation "measure (\<lambda>(Q, stop, w, p). remaining (m_queries p) (issued_first p))")
    (auto dest: remaining_deref)

declare replay_loop.simps [simp del]

text \<open>The errors \<open>obtain_dummy\<close> takes for a failed batch: \<open>sql_error\<close> and its subclasses.\<close>

fun is_sql_error :: "exn \<Rightarrow> bool" where
  "is_sql_error (Pqxx_sql_error _ _) = True"
| "is_sql_error (Pqxx_completion_unknown _) = True"
| "is_sql_error _ = False"

definition theDummyValue :: string where
  "theDummyValue = ''1''"

definition theSeparator :: string where
  "theSeparator = ''; ''"

definition theDummyQuery :: string where
  "theDummyQuery = ''SELECT '' @ theDummyValue @ theSeparator"

text \<open>The value of the dummy query, \<open>R.at(0).at(0).as<std::string>()\<close>.\<close>

definition dummy_value :: "pgresult \<Rightarrow> string res" where
  "dummy_value r =
     (if res_rows r = [] then Inl (Pqxx_range_error ''Row number out of range.'')
      else if res_columns r = 0 then Inl (Pqxx_range_error ''Invalid field number.'')
      else field_as ''std::string'' Inr (hd (hd (res_rows r))))"

definition check_dummy :: "pgresult \<Rightarrow> ('s pipe, unit option) act" where
  "check_dummy R =
     (if length (res_rows R) > 1 then internal_error ''Unexpected result for dummy query in pipeline.''
      else
        bindO (on_scope (liftR (dummy_value R))) (\<lambda>v.
        if v \<noteq> theDummyValue then internal_error ''Dummy query in pipeline returned unexpected value.''
        else retA (Some ())))"

text \<open>
  What the handler of the replay does: the query that failed is the last one with a result, and the error is at its
  successor.  The identifier behind the last possible one overflows.
\<close>

definition replay_failed :: "('s pipe, unit option) act" where
  "replay_failed = (\<lambda>(w, p).
     case deref (m_queries p) (issued_first p) of
       None \<Rightarrow> (Inr None, (w, p))
     | Some thud \<Rightarrow>
         let q = iter_next (m_queries p) (fst thud); p = p\<lparr>issued_first := q, issued_second := q\<rparr> in
         case q of
           None \<Rightarrow> if fst thud = qid_limit then (Inr None, (w, p)) else (Inr (Some ()), (w, set_error_at (fst thud + 1) p))
         | Some k \<Rightarrow> (Inr (Some ()), (w, set_error_at k p)))"

definition replay :: "'s async_libpq \<Rightarrow> iter \<Rightarrow> ('s pipe, unit option) act" where
  "replay Q stop = catchA (replay_loop Q stop) (\<lambda>e. if is_std_exception e then replay_failed else throwA e)"

text \<open>The batch failed: its queries get the error as their result, and are then tried one at a time.\<close>

definition batch_failed :: "'s async_libpq \<Rightarrow> query_result \<Rightarrow> ('s pipe, unit option) act" where
  "batch_failed Q R = (\<lambda>(w, p).
     case entries_between (m_queries p) (issued_first p) (issued_second p) of
       None \<Rightarrow> (Inr None, (w, p))
     | Some es \<Rightarrow>
         let stop = issued_second p; p = p\<lparr>m_queries := fold (\<lambda>e. set_result (fst e) R) es (m_queries p)\<rparr> in
         bindO (obtain_result Q True) (\<lambda>_ (w, p).
           case entries_between (m_queries p) (issued_first p) stop of
             None \<Rightarrow> (Inr None, (w, p))
           | Some es \<Rightarrow>
               if int (length es) > INT_MAX then
                 (Inl (Pqxx_range_error ''Cast overflow: pipeline obtain_dummy()''), (w, p))
               else
                 replay Q stop (unregister_me (w, p\<lparr>m_num_waiting := m_num_waiting p + int (length es),
                   issued_second := issued_first p\<rparr>))) (w, p))"

definition obtain_dummy :: "'s async_libpq \<Rightarrow> ('s pipe, unit option) act" where
  "obtain_dummy Q = (\<lambda>(w, p).
     case PQgetResult (cp Q) (m_conn (cn w)) (srv w) of
       (r, s) \<Rightarrow>
         let w = w\<lparr>srv := s\<rparr>; p = p\<lparr>m_dummy_pending := False\<rparr> in
         case r of
           None \<Rightarrow> internal_error ''Pipeline got no result from backend when it expected one.'' (w, p)
         | Some d \<Rightarrow>
             let R = \<lparr>r_data = Some d, r_query = ''[DUMMY PIPELINE QUERY]''\<rparr> in
             case result_check_status R of
               Inr _ \<Rightarrow> check_dummy d (w, p)
             | Inl e \<Rightarrow> if is_sql_error e then batch_failed Q R (w, p) else (Inl e, (w, p)))"

definition receive_if_available :: "'s async_libpq \<Rightarrow> ('s pipe, unit option) act" where
  "receive_if_available Q =
     bindO (on_scope (consume_input Q)) (\<lambda>alive.
     if \<not> alive then throwA (Pqxx_broken_connection ''Connection to database failed.'')
     else (\<lambda>(w, p).
       if is_busy Q w then (Inr (Some ()), (w, p))
       else
         bindO (if m_dummy_pending p then obtain_dummy Q else retA (Some ())) (\<lambda>_ (w, p).
           if have_pending p then get_further_available_results Q (w, p) else (Inr (Some ()), (w, p))) (w, p)))"

definition receive :: "'s async_libpq \<Rightarrow> iter \<Rightarrow> ('s pipe, unit option) act" where
  "receive Q stop = (\<lambda>(w, p).
     bindO (if m_dummy_pending p then obtain_dummy Q else retA (Some ())) (\<lambda>_.
     bindO (recv_loop Q stop) (\<lambda>_ (w, p).
       if issued_first p = stop then get_further_available_results Q (w, p) else (Inr (Some ()), (w, p)))) (w, p))"

section \<open>Sending\<close>

fun separated_list :: "string \<Rightarrow> string list \<Rightarrow> string" where
  "separated_list sep [] = []"
| "separated_list sep [x] = x"
| "separated_list sep (x # y # xs) = x @ sep @ separated_list sep (y # xs)"

definition batch_text :: "string list \<Rightarrow> string" where
  "batch_text qs = (if length qs > 1 then theDummyQuery else []) @ separated_list theSeparator qs"

definition issue :: "'s async_libpq \<Rightarrow> ('s pipe, unit option) act" where
  "issue Q =
     bindO (obtain_result Q False) (\<lambda>_ (w, p).
     if m_error p < qid_limit then (Inr (Some ()), (w, p))
     else
       let oldest = issued_second p in
       case entries_between (m_queries p) oldest None of
         None \<Rightarrow> (Inr None, (w, p))
       | Some es \<Rightarrow>
           bindO (on_scope (start_exec Q (c_string (batch_text (map (query \<circ> snd) es))))) (\<lambda>_ (w, p).
             let p = p\<lparr>m_dummy_pending := length es > 1, issued_first := oldest, issued_second := None\<rparr> in
             if int (length es) > INT_MAX then (Inl (Pqxx_range_error ''Cast overflow: pipeline issue()''), (w, p))
             else (Inr (Some ()), (w, p\<lparr>m_num_waiting := m_num_waiting p - int (length es)\<rparr>))) (w, p))"

section \<open>Operations\<close>

definition generate_id :: "('s pipe, int option) act" where
  "generate_id = (\<lambda>(w, p).
     if m_q_id p = qid_limit then (Inl (Overflow_error ''Too many queries went through pipeline.''), (w, p))
     else (Inr (Some (m_q_id p + 1)), (w, p\<lparr>m_q_id := m_q_id p + 1\<rparr>)))"

definition enqueue :: "int \<Rightarrow> string \<Rightarrow> pipeline \<Rightarrow> pipeline" where
  "enqueue qid q p =
     (let p = p\<lparr>m_queries := map_put qid (new_Query q) (m_queries p)\<rparr>;
          p = (if issued_second p = None then
                 p\<lparr>issued_second := Some qid, issued_first := (if issued_first p = None then Some qid else issued_first p)\<rparr>
               else p)
      in p\<lparr>m_num_waiting := m_num_waiting p + 1\<rparr>)"

definition insert_query :: "'s async_libpq \<Rightarrow> string \<Rightarrow> ('s pipe, int option) act" where
  "insert_query Q q =
     bindO attach (\<lambda>_.
     bindO generate_id (\<lambda>qid.
     bindO (modify (enqueue qid q)) (\<lambda>_.
     bindO (\<lambda>(w, p).
       if m_num_waiting p > m_retain p then
         bindO (if have_pending p then receive_if_available Q else retA (Some ())) (\<lambda>_ (w, p).
           if \<not> have_pending p then issue Q (w, p) else (Inr (Some ()), (w, p))) (w, p)
       else (Inr (Some ()), (w, p))) (\<lambda>_.
     retA (Some qid)))))"

definition complete :: "'s async_libpq \<Rightarrow> ('s pipe, unit option) act" where
  "complete Q = (\<lambda>(w, p).
     bindO (if have_pending p then receive Q (issued_second p) else retA (Some ())) (\<lambda>_.
     bindO (\<lambda>(w, p).
       if m_num_waiting p \<noteq> 0 \<and> m_error p = qid_limit then bindO (issue Q) (\<lambda>_. receive Q None) (w, p)
       else (Inr (Some ()), (w, p))) (\<lambda>_.
     detach)) (w, p))"

definition flush :: "'s async_libpq \<Rightarrow> ('s pipe, unit option) act" where
  "flush Q = (\<lambda>(w, p).
     bindO (if m_queries p \<noteq> [] then
              bindO (if have_pending p then receive Q (issued_second p) else retA (Some ())) (\<lambda>_.
              modify (\<lambda>p. p\<lparr>issued_first := None, issued_second := None, m_num_waiting := 0, m_dummy_pending := False,
                m_queries := []\<rparr>))
            else retA (Some ())) (\<lambda>_. detach) (w, p))"

text \<open>\<open>cancel\<close>: every pending query is taken out of the map.\<close>

lemma length_map_erase: "deref m it = Some e \<Longrightarrow> length (map_erase (fst e) m) < length m"
proof -
  assume "deref m it = Some e"
  then have "fst e \<in> fst ` set m" by (auto simp: deref_def map_get_map_of split: option.splits dest!: map_of_SomeD intro: rev_image_eqI)
  then obtain x where "x \<in> set m" "fst x = fst e" by auto
  then show ?thesis unfolding map_erase_def by (intro length_filter_less [of x]) auto
qed

function cancel :: "'s async_libpq \<Rightarrow> ('s pipe, unit option) act" where
  "cancel Q (w, p) =
     (if have_pending p then
        (case cancel_query Q w of
           (Inl e, w) \<Rightarrow> (Inl e, (w, p))
         | (Inr _, w) \<Rightarrow>
             (case deref (m_queries p) (issued_first p) of
                None \<Rightarrow> (Inr None, (w, p))
              | Some e \<Rightarrow> cancel Q (w, p\<lparr>issued_first := iter_next (m_queries p) (fst e),
                  m_queries := map_erase (fst e) (m_queries p)\<rparr>)))
      else (Inr (Some ()), (w, p)))"
  by pat_completeness auto
termination
  by (relation "measure (\<lambda>(Q, w, p). length (m_queries p))") (auto simp: length_map_erase)

declare cancel.simps [simp del]

definition destroy_pipeline :: "'s async_libpq \<Rightarrow> ('s pipe, unit option) act" where
  "destroy_pipeline Q =
     bindO (catchA (cancel Q) (\<lambda>e. if is_std_exception e then retA (Some ()) else throwA e)) (\<lambda>_. detach)"

definition is_finished :: "int \<Rightarrow> pipeline \<Rightarrow> bool ub_res" where
  "is_finished q p =
     (if map_get (m_queries p) q = None then
        Inl (Logic_error (''Requested status for unknown query '' @ quoted_name (int_to_string q) @ ''.''))
      else if issued_first p = None then Inr (Some True)
      else
        case deref (m_queries p) (issued_first p) of
          None \<Rightarrow> Inr None
        | Some e \<Rightarrow> Inr (Some (q < fst e \<and> q < m_error p)))"

definition earlier_error :: exn where
  "earlier_error = Runtime_error ''Could not complete query in pipeline due to error in earlier query.''"

text \<open>
  \<open>retrieve\<close>, in its steps: the query is issued if it has not been yet, its result is fetched, the server is kept
  busy, and the query leaves the map.
\<close>

definition retrieve_issue :: "'s async_libpq \<Rightarrow> int \<Rightarrow> ('s pipe, unit option) act" where
  "retrieve_issue Q k = (\<lambda>(w, p).
     case issued_second p of
       None \<Rightarrow> (Inr (Some ()), (w, p))
     | Some n \<Rightarrow>
         if map_get (m_queries p) n = None then (Inr None, (w, p))
         else if k \<ge> n then
           bindO (if have_pending p then receive Q (issued_second p) else retA (Some ())) (\<lambda>_ (w, p).
             if m_error p = qid_limit then issue Q (w, p) else (Inr (Some ()), (w, p))) (w, p)
         else (Inr (Some ()), (w, p)))"

definition retrieve_receive :: "'s async_libpq \<Rightarrow> int \<Rightarrow> ('s pipe, unit option) act" where
  "retrieve_receive Q k = (\<lambda>(w, p).
     if have_pending p then
       (case deref (m_queries p) (issued_first p) of
          None \<Rightarrow> (Inr None, (w, p))
        | Some e \<Rightarrow>
            if k \<ge> fst e then receive Q (iter_next (m_queries p) k) (w, p)
            else receive_if_available Q (w, p))
     else (Inr (Some ()), (w, p)))"

definition retrieve_at :: "'s async_libpq \<Rightarrow> iter \<Rightarrow> ('s pipe, (int \<times> query_result) option) act" where
  "retrieve_at Q q = (\<lambda>(w, p).
     case q of
       None \<Rightarrow> (Inl (Logic_error ''Attempt to retrieve result for unknown query.''), (w, p))
     | Some k \<Rightarrow>
         if k \<ge> m_error p then (Inl earlier_error, (w, p))
         else
           bindO (retrieve_issue Q k) (\<lambda>_.
           bindO (retrieve_receive Q k) (\<lambda>_ (w, p).
           if k \<ge> m_error p then (Inl earlier_error, (w, p))
           else
             bindO (if m_num_waiting p \<noteq> 0 \<and> \<not> have_pending p \<and> m_error p = qid_limit then issue Q
                    else retA (Some ())) (\<lambda>_ (w, p).
             case map_get (m_queries p) k of
               None \<Rightarrow> (Inr None, (w, p))
             | Some e \<Rightarrow>
                 let R = q_res e; p = p\<lparr>m_queries := map_erase k (m_queries p)\<rparr> in
                 case result_check_status R of
                   Inl x \<Rightarrow> (Inl x, (w, p))
                 | Inr _ \<Rightarrow> (Inr (Some (k, R)), (w, p))) (w, p))) (w, p))"

definition retrieve_id :: "'s async_libpq \<Rightarrow> int \<Rightarrow> ('s pipe, query_result option) act" where
  "retrieve_id Q qid = (\<lambda>(w, p).
     bindO (retrieve_at Q (if map_get (m_queries p) qid = None then None else Some qid)) (\<lambda>r. retA (Some (snd r))) (w, p))"

definition retrieve_oldest :: "'s async_libpq \<Rightarrow> ('s pipe, (int \<times> query_result) option) act" where
  "retrieve_oldest Q = (\<lambda>(w, p).
     if m_queries p = [] then (Inl (Logic_error ''Attempt to retrieve result from empty pipeline.''), (w, p))
     else retrieve_at Q (map_begin (m_queries p)) (w, p))"

definition resume :: "'s async_libpq \<Rightarrow> ('s pipe, unit option) act" where
  "resume Q = (\<lambda>(w, p).
     bindO (if have_pending p then receive_if_available Q else retA (Some ())) (\<lambda>_ (w, p).
     if \<not> have_pending p \<and> m_num_waiting p \<noteq> 0 then bindO (issue Q) (\<lambda>_. receive_if_available Q) (w, p)
     else (Inr (Some ()), (w, p))) (w, p))"

definition retain :: "'s async_libpq \<Rightarrow> int \<Rightarrow> ('s pipe, int option) act" where
  "retain Q retain_max = (\<lambda>(w, p).
     if retain_max < 0 then
       (Inl (Pqxx_range_error (''Attempt to make pipeline retain '' @ int_to_string retain_max @ '' queries'')), (w, p))
     else
       let oldvalue = m_retain p; p = p\<lparr>m_retain := retain_max\<rparr> in
       bindO (if m_num_waiting p \<ge> m_retain p then resume Q else retA (Some ())) (\<lambda>_. retA (Some oldvalue)) (w, p))"

end
