(* ===== verification/Pqxx_Pipeline_Spec.thy ===== *)
theory Pqxx_Pipeline_Spec
  imports Pqxx_Pipeline
begin

text \<open>
  What a pipeline promises.  On a connection that runs the queries of a batch one after the other, without errors, it
  cannot be told from executing every query at once when it is inserted (the refinement).  The later sections show
  what becomes of it after an error, after a cancellation and when the replay of a failed batch succeeds.
\<close>

section \<open>The server\<close>

text \<open>The results of queries executed in their order, and the state of the database after them.\<close>

primrec run_all :: "(string \<Rightarrow> 'd \<Rightarrow> pgresult \<times> 'd) \<Rightarrow> string list \<Rightarrow> 'd \<Rightarrow> pgresult list \<times> 'd" where
  "run_all run [] d = ([], d)"
| "run_all run (q # qs) d =
     (fst (run q d) # fst (run_all run qs (snd (run q d))), snd (run_all run qs (snd (run q d))))"

lemma run_all_append:
  "run_all run (qs @ qs') d =
     (fst (run_all run qs d) @ fst (run_all run qs' (snd (run_all run qs d))), snd (run_all run qs' (snd (run_all run qs d))))"
  by (induction qs arbitrary: d) simp_all

lemma length_run_all [simp]: "length (fst (run_all run qs d)) = length qs"
  by (induction qs arbitrary: d) simp_all

text \<open>The answer to the dummy query.\<close>

definition dummy_ok :: "pgresult \<Rightarrow> bool" where
  "dummy_ok r \<longleftrightarrow> status_error r = Inr [] \<and> length (res_rows r) = 1 \<and> 0 < res_columns r \<and>
     hd (hd (res_rows r)) = Some theDummyValue"

text \<open>
  The contract of libpq and the server for connection \<open>c\<close>.  \<open>view\<close> shows the database and, while a command is in
  progress, the results that are still to be taken: they come in their order, followed by one null pointer.  A command
  can be sent when none is in progress; the queries of a batch are executed in their order, and \<open>okq\<close> ones succeed.
\<close>

definition batch_server ::
    "'s async_libpq \<Rightarrow> nat \<Rightarrow> ('s \<Rightarrow> 'd \<times> pgresult list option) \<Rightarrow> (string \<Rightarrow> 'd \<Rightarrow> pgresult \<times> 'd) \<Rightarrow> (string \<Rightarrow> bool) \<Rightarrow> bool" where
  "batch_server Q c view run okq \<longleftrightarrow>
     (\<forall>s d r rs. view s = (d, Some (r # rs)) \<longrightarrow> (\<exists>s'. PQgetResult (cp Q) c s = (Some r, s') \<and> view s' = (d, Some rs))) \<and>
     (\<forall>s d. view s = (d, None) \<or> view s = (d, Some []) \<longrightarrow> (\<exists>s'. PQgetResult (cp Q) c s = (None, s') \<and> view s' = (d, None))) \<and>
     (\<forall>s. \<exists>s'. PQconsumeInput (pq (cp Q)) c s = (True, s') \<and> view s' = view s) \<and>
     (\<forall>s d qs. view s = (d, None) \<and> qs \<noteq> [] \<and> (\<forall>q \<in> set qs. okq q) \<longrightarrow>
        (\<exists>s' dm. PQsendQuery Q c (c_string (batch_text qs)) s = (True, s') \<and> dummy_ok dm \<and>
           view s' = (snd (run_all run qs d), Some ((if length qs > 1 then [dm] else []) @ fst (run_all run qs d))))) \<and>
     (\<forall>q d. okq q \<longrightarrow> status_error (fst (run q d)) = Inr [])"

lemma batch_get:
  "batch_server Q c view run okq \<Longrightarrow> view s = (d, Some (r # rs)) \<Longrightarrow>
     \<exists>s'. PQgetResult (cp Q) c s = (Some r, s') \<and> view s' = (d, Some rs)"
  "batch_server Q c view run okq \<Longrightarrow> view s = (d, None) \<or> view s = (d, Some []) \<Longrightarrow>
     \<exists>s'. PQgetResult (cp Q) c s = (None, s') \<and> view s' = (d, None)"
  "batch_server Q c view run okq \<Longrightarrow> \<exists>s'. PQconsumeInput (pq (cp Q)) c s = (True, s') \<and> view s' = view s"
  unfolding batch_server_def by blast+

lemma batch_send:
  "batch_server Q c view run okq \<Longrightarrow> view s = (d, None) \<Longrightarrow> qs \<noteq> [] \<Longrightarrow> \<forall>q \<in> set qs. okq q \<Longrightarrow>
     \<exists>s' dm. PQsendQuery Q c (c_string (batch_text qs)) s = (True, s') \<and> dummy_ok dm \<and>
       view s' = (snd (run_all run qs d), Some ((if length qs > 1 then [dm] else []) @ fst (run_all run qs d)))"
  by (simp add: batch_server_def)

lemma batch_run: "batch_server Q c view run okq \<Longrightarrow> okq q \<Longrightarrow> status_error (fst (run q d)) = Inr []"
  by (simp add: batch_server_def)

lemma batch_run_all:
  "batch_server Q c view run okq \<Longrightarrow> \<forall>q \<in> set qs. okq q \<Longrightarrow> \<forall>r \<in> set (fst (run_all run qs d)). status_error r = Inr []"
  by (induction qs arbitrary: d) (auto simp: batch_run)

section \<open>The specification\<close>

text \<open>
  The abstract pipeline: the database, the results that have not been asked for with their identifiers, the last
  identifier and the number of queries to retain.  A query is executed when it is inserted.
\<close>

record 'd spec =
  sp_db :: 'd
  sp_results :: "(int \<times> pgresult) list"
  sp_id :: int
  sp_retain :: int

datatype pipe_call = Insert string | Retrieve int | Oldest | Retain int | Resume | Complete

datatype outcome = Identifier int | Result int pgresult | Retained int | Done | Threw exn | Undefined

definition unknown_query :: exn where
  "unknown_query = Logic_error ''Attempt to retrieve result for unknown query.''"

definition empty_pipeline :: exn where
  "empty_pipeline = Logic_error ''Attempt to retrieve result from empty pipeline.''"

definition retain_error :: "int \<Rightarrow> exn" where
  "retain_error n = Pqxx_range_error (''Attempt to make pipeline retain '' @ int_to_string n @ '' queries'')"

fun spec_op :: "(string \<Rightarrow> 'd \<Rightarrow> pgresult \<times> 'd) \<Rightarrow> pipe_call \<Rightarrow> 'd spec \<Rightarrow> outcome \<times> 'd spec" where
  "spec_op run (Insert q) a =
     (Identifier (sp_id a + 1),
      a\<lparr>sp_db := snd (run q (sp_db a)), sp_results := sp_results a @ [(sp_id a + 1, fst (run q (sp_db a)))],
        sp_id := sp_id a + 1\<rparr>)"
| "spec_op run (Retrieve k) a =
     (case map_of (sp_results a) k of
        None \<Rightarrow> (Threw unknown_query, a)
      | Some r \<Rightarrow> (Result k r, a\<lparr>sp_results := filter (\<lambda>e. fst e \<noteq> k) (sp_results a)\<rparr>))"
| "spec_op run Oldest a =
     (case sp_results a of
        [] \<Rightarrow> (Threw empty_pipeline, a)
      | e # es \<Rightarrow> (Result (fst e) (snd e), a\<lparr>sp_results := es\<rparr>))"
| "spec_op run (Retain n) a =
     (if n < 0 then (Threw (retain_error n), a) else (Retained (sp_retain a), a\<lparr>sp_retain := n\<rparr>))"
| "spec_op run Resume a = (Done, a)"
| "spec_op run Complete a = (Done, a)"

text \<open>The same operations on the model, with what the caller sees of a result.\<close>

definition seen :: "('a \<Rightarrow> outcome) \<Rightarrow> 'a ub_res \<times> 's pipe \<Rightarrow> outcome \<times> 's pipe" where
  "seen f x = (case fst x of Inl e \<Rightarrow> Threw e | Inr None \<Rightarrow> Undefined | Inr (Some y) \<Rightarrow> f y, snd x)"

definition result_seen :: "int \<Rightarrow> query_result \<Rightarrow> outcome" where
  "result_seen k r = (case r_data r of None \<Rightarrow> Undefined | Some d \<Rightarrow> Result k d)"

fun pipe_op :: "'s async_libpq \<Rightarrow> pipe_call \<Rightarrow> 's pipe \<Rightarrow> outcome \<times> 's pipe" where
  "pipe_op Q (Insert q) ws = seen Identifier (insert_query Q q ws)"
| "pipe_op Q (Retrieve k) ws = seen (result_seen k) (retrieve_id Q k ws)"
| "pipe_op Q Oldest ws = seen (\<lambda>(k, r). result_seen k r) (retrieve_oldest Q ws)"
| "pipe_op Q (Retain n) ws = seen Retained (retain Q n ws)"
| "pipe_op Q Resume ws = seen (\<lambda>_. Done) (resume Q ws)"
| "pipe_op Q Complete ws = seen (\<lambda>_. Done) (complete Q ws)"

primrec pipe_ops :: "'s async_libpq \<Rightarrow> pipe_call list \<Rightarrow> 's pipe \<Rightarrow> outcome list" where
  "pipe_ops Q [] ws = []"
| "pipe_ops Q (op # ops) ws = (case pipe_op Q op ws of (x, ws) \<Rightarrow> x # pipe_ops Q ops ws)"

primrec spec_ops :: "(string \<Rightarrow> 'd \<Rightarrow> pgresult \<times> 'd) \<Rightarrow> pipe_call list \<Rightarrow> 'd spec \<Rightarrow> outcome list" where
  "spec_ops run [] a = []"
| "spec_ops run (op # ops) a = (case spec_op run op a of (x, a) \<Rightarrow> x # spec_ops run ops a)"

section \<open>The simulation relation\<close>

text \<open>
  The map is in three parts: queries whose results have arrived (\<open>D\<close>), those the server works on (\<open>P\<close>, with the
  results \<open>rs\<close> on their way), and those that wait (\<open>W\<close>).
\<close>

type_synonym entries = "(int \<times> Query) list"

definition result_of :: "int \<times> Query \<Rightarrow> int \<times> pgresult" where
  "result_of e = (fst e, the (r_data (q_res (snd e))))"

definition keyed :: "entries \<Rightarrow> pgresult list \<Rightarrow> (int \<times> pgresult) list" where
  "keyed es rs = zip (map fst es) rs"

definition blank :: "int \<times> Query \<Rightarrow> bool" where
  "blank e \<longleftrightarrow> r_data (q_res (snd e)) = None"

definition filled :: "int \<times> Query \<Rightarrow> bool" where
  "filled e \<longleftrightarrow> (\<exists>d. r_data (q_res (snd e)) = Some d \<and> status_error d = Inr [])"

definition focus_ok :: "'s pipe \<Rightarrow> bool" where
  "focus_ok ws \<longleftrightarrow> m_focus (tx (fst ws)) = (if m_reg (snd ws) then Some (m_guest (snd ws)) else None)"

definition on_the_way :: "bool \<Rightarrow> entries \<Rightarrow> pgresult list \<Rightarrow> pgresult list option \<Rightarrow> bool" where
  "on_the_way dummy P rs out \<longleftrightarrow>
     (if P = [] then \<not> dummy \<and> (out = None \<or> out = Some [])
      else if dummy then \<exists>dm. dummy_ok dm \<and> out = Some (dm # rs) else out = Some rs)"

definition pipe_inv ::
    "nat \<Rightarrow> ('s \<Rightarrow> 'd \<times> pgresult list option) \<Rightarrow> (string \<Rightarrow> 'd \<Rightarrow> pgresult \<times> 'd) \<Rightarrow> (string \<Rightarrow> bool) \<Rightarrow> 'd spec \<Rightarrow>
     entries \<Rightarrow> entries \<Rightarrow> entries \<Rightarrow> pgresult list \<Rightarrow> 's pipe \<Rightarrow> bool" where
  "pipe_inv c view run okq a D P W rs ws \<longleftrightarrow>
     (case ws of (w, p) \<Rightarrow>
        m_conn (cn w) = c \<and> focus_ok (w, p) \<and>
        m_queries p = D @ P @ W \<and> map_ok (D @ P @ W) \<and> (\<forall>e \<in> set (D @ P @ W). fst e \<le> sp_id a) \<and>
        issued_first p = map_begin (P @ W) \<and> issued_second p = map_begin W \<and>
        m_num_waiting p = int (length W) \<and> m_retain p = sp_retain a \<and> m_q_id p = sp_id a \<and>
        m_error p = qid_limit \<and> sp_id a < qid_limit \<and> int (length (D @ P @ W)) \<le> sp_id a \<and>
        (\<forall>e \<in> set D. filled e) \<and> (\<forall>e \<in> set (P @ W). blank e) \<and> (\<forall>e \<in> set W. okq (query (snd e))) \<and>
        length rs = length P \<and> (\<forall>r \<in> set rs. status_error r = Inr []) \<and>
        on_the_way (m_dummy_pending p) P rs (snd (view (srv w))) \<and>
        sp_results a = map result_of D @ keyed P rs @ keyed W (fst (run_all run (map (query \<circ> snd) W) (fst (view (srv w))))) \<and>
        sp_db a = snd (run_all run (map (query \<circ> snd) W) (fst (view (srv w)))))"

text \<open>Iterators in a map that is cut at an entry.\<close>

lemma map_ok_split:
  assumes "map_ok (D @ e # R)"
  shows "\<forall>x \<in> set D. fst x < fst e" "\<forall>x \<in> set R. fst e < fst x"
  using assms by (auto simp: map_ok_def sorted_wrt_append)

lemma map_get_split: "map_ok (D @ e # R) \<Longrightarrow> map_get (D @ e # R) (fst e) = Some (snd e)"
  using map_ok_split(1) [of D e R] by (subst map_get_set [symmetric]) simp_all

lemma deref_split: "map_ok (D @ e # R) \<Longrightarrow> deref (D @ e # R) (Some (fst e)) = Some e"
  by (simp add: deref_def map_get_split)

lemma iter_next_split: "map_ok (D @ e # R) \<Longrightarrow> iter_next (D @ e # R) (fst e) = map_begin R"
proof -
  assume "map_ok (D @ e # R)"
  note map_ok_split [OF this]
  then have "filter (\<lambda>x. fst e < fst x) D = []" "filter (\<lambda>x. fst e < fst x) R = R"
    by (auto simp: filter_empty_conv intro: filter_True)
  then show ?thesis by (simp add: iter_next_def)
qed

lemma set_result_split:
  assumes "map_ok (D @ e # R)"
  shows "set_result (fst e) r (D @ e # R) = D @ (fst e, (snd e)\<lparr>q_res := r\<rparr>) # R"
proof -
  have "map (\<lambda>x. if fst x = fst e then (fst e, (snd x)\<lparr>q_res := r\<rparr>) else x) M = M" if "\<forall>x \<in> set M. fst x \<noteq> fst e" for M :: entries
    using that by (induction M) auto
  from this [of D] this [of R] map_ok_split [OF assms] show ?thesis by (fastforce simp: set_result_def)
qed

lemma map_begin_app: "map_begin (xs @ ys) = (if xs = [] then map_begin ys else Some (fst (hd xs)))"
  by (cases xs) (simp_all add: map_begin_def)

lemma map_begin_ne:
  assumes "map_ok (D @ P @ W)" "P \<noteq> []"
  shows "map_begin (P @ W) \<noteq> map_begin W"
proof (cases P)
  case (Cons e P')
  show ?thesis
  proof (cases W)
    case (Cons x W')
    with map_ok_split(2) [of D e "P' @ W"] assms(1) \<open>P = e # P'\<close> show ?thesis by (simp add: map_begin_def)
  qed (use Cons in \<open>simp add: map_begin_def\<close>)
qed (use assms(2) in simp)

lemma inv_keys: "pipe_inv c view run okq a D P W rs (w, p) \<Longrightarrow> \<forall>e \<in> set (D @ P @ W). fst e \<le> sp_id a"
  unfolding pipe_inv_def prod.case by (elim conjE)

lemma inv_length: "pipe_inv c view run okq a D P W rs (w, p) \<Longrightarrow> int (length (D @ P @ W)) \<le> sp_id a"
  unfolding pipe_inv_def prod.case by (elim conjE)

lemma have_pending_inv: "pipe_inv c view run okq a D P W rs (w, p) \<Longrightarrow> have_pending p \<longleftrightarrow> P \<noteq> []"
  using map_begin_ne [of D P W] by (cases "P = []") (auto simp: pipe_inv_def have_pending_def)

section \<open>Receiving results\<close>

lemma obtain_nothing:
  assumes "batch_server Q c view run okq" "pipe_inv c view run okq a D [] W rs (w, p)"
  shows "\<exists>s. obtain_result Q b (w, p) = (Inr (Some False), (w\<lparr>srv := s\<rparr>, p)) \<and>
    pipe_inv c view run okq a D [] W rs (w\<lparr>srv := s\<rparr>, p) \<and> snd (view s) = None"
proof -
  from assms(2) have c: "m_conn (cn w) = c" and v: "view (srv w) = (fst (view (srv w)), None) \<or> view (srv w) = (fst (view (srv w)), Some [])"
    by (auto simp: pipe_inv_def on_the_way_def prod_eq_iff)
  from batch_get(2) [OF assms(1) v] obtain s where
    s: "PQgetResult (cp Q) c (srv w) = (None, s)" "view s = (fst (view (srv w)), None)" by blast
  have "\<not> have_pending p" using have_pending_inv [OF assms(2)] by simp
  with s(1) c have "obtain_result Q b (w, p) = (Inr (Some False), (w\<lparr>srv := s\<rparr>, p))" by (simp add: obtain_result_def)
  moreover have "pipe_inv c view run okq a D [] W rs (w\<lparr>srv := s\<rparr>, p)"
    using assms(2) s(2) by (simp add: pipe_inv_def focus_ok_def on_the_way_def)
  ultimately show ?thesis using s(2) by auto
qed

lemma obtain_next:
  assumes "batch_server Q c view run okq" "pipe_inv c view run okq a D (e # P) W rs (w, p)" "\<not> m_dummy_pending p"
  shows "\<exists>w' p' e' rs'. obtain_result Q b (w, p) = (Inr (Some True), (w', p')) \<and>
    pipe_inv c view run okq a (D @ [e']) P W rs' (w', p') \<and> fst e' = fst e \<and> \<not> m_dummy_pending p'"
proof -
  from assms(2) obtain r rs' where rs: "rs = r # rs'" by (cases rs) (auto simp: pipe_inv_def)
  let ?d = "fst (view (srv w))"
  from assms(2,3) have c: "m_conn (cn w) = c" and v: "view (srv w) = (?d, Some (r # rs'))"
    by (auto simp: pipe_inv_def on_the_way_def prod_eq_iff rs)
  from batch_get(1) [OF assms(1) v] obtain s where
    s: "PQgetResult (cp Q) c (srv w) = (Some r, s)" "view s = (?d, Some rs')" by blast
  from assms(2) have m: "m_queries p = D @ e # P @ W" and ok: "map_ok (D @ e # P @ W)" and f: "issued_first p = Some (fst e)"
    and blank: "blank e" by (simp_all add: pipe_inv_def map_begin_def)
  have "have_pending p" using have_pending_inv [OF assms(2)] by simp
  have "m_queries p \<noteq> []" using m by simp
  then obtain oldest rest' where old: "m_queries p = oldest # rest'" by (meson neq_Nil_conv)
  define res where "res = \<lparr>r_data = Some r, r_query = query (snd oldest)\<rparr>"
  define e' where "e' = (fst e, (snd e)\<lparr>q_res := res\<rparr>)"
  let ?p = "p\<lparr>m_queries := D @ e' # P @ W, issued_first := map_begin (P @ W)\<rparr>"
  have "obtain_result Q b (w, p) = (Inr (Some True), (w\<lparr>srv := s\<rparr>, ?p))"
  proof -
    have d: "deref (m_queries p) (issued_first p) = Some e" using deref_split [OF ok] by (simp add: m f)
    have n: "iter_next (m_queries p) (fst e) = map_begin (P @ W)" using iter_next_split [OF ok] by (simp add: m)
    have sr: "set_result (fst e) res (m_queries p) = D @ e' # P @ W" using set_result_split [OF ok, of res] by (simp add: m e'_def)
    have re: "result_empty (q_res (snd e))" using blank by (simp add: blank_def result_empty_def)
    show ?thesis
      using s(1) \<open>have_pending p\<close> sr n re unfolding obtain_result_def res_def by (simp add: c old d [unfolded old])
  qed
  moreover have "pipe_inv c view run okq a (D @ [e']) P W rs' (w\<lparr>srv := s\<rparr>, ?p)"
  proof -
    have "map fst (D @ e' # P @ W) = map fst (D @ e # P @ W)" by (simp add: e'_def)
    then have "map_ok (D @ e' # P @ W)" using ok by (simp add: map_ok_def)
    moreover have "on_the_way False P rs' (snd (view s))" using s(2) assms(2) by (auto simp: on_the_way_def pipe_inv_def rs)
    moreover have "filled e'" using assms(2) by (simp add: filled_def e'_def res_def pipe_inv_def rs)
    moreover have "result_of e' = (fst e, r)" by (simp add: result_of_def e'_def res_def)
    moreover have "fst e' = fst e" by (simp add: e'_def)
    ultimately show ?thesis
      using assms(2,3) s(2) by (simp add: pipe_inv_def focus_ok_def keyed_def rs)
  qed
  ultimately show ?thesis using assms(3) by (intro exI [of _ "w\<lparr>srv := s\<rparr>"] exI [of _ ?p] exI [of _ e'] exI [of _ rs']) (simp add: e'_def)
qed

lemma inv_view:
  "pipe_inv c view run okq a D P W rs (w, p) \<Longrightarrow> view s = view (srv w) \<Longrightarrow> pipe_inv c view run okq a D P W rs (w\<lparr>srv := s\<rparr>, p)"
  by (simp add: pipe_inv_def focus_ok_def)

lemma obtain_dummy_inv:
  assumes "batch_server Q c view run okq" "pipe_inv c view run okq a D P W rs (w, p)" "m_dummy_pending p"
  shows "\<exists>w' p'. obtain_dummy Q (w, p) = (Inr (Some ()), (w', p')) \<and> pipe_inv c view run okq a D P W rs (w', p') \<and>
    \<not> m_dummy_pending p'"
proof -
  let ?d = "fst (view (srv w))"
  from assms(2,3) have P: "P \<noteq> []" and c: "m_conn (cn w) = c" by (auto simp: pipe_inv_def on_the_way_def)
  from assms(2,3) P obtain dm where dm: "dummy_ok dm" "view (srv w) = (?d, Some (dm # rs))"
    by (auto simp: pipe_inv_def on_the_way_def prod_eq_iff)
  from batch_get(1) [OF assms(1) dm(2)] obtain s where
    s: "PQgetResult (cp Q) c (srv w) = (Some dm, s)" "view s = (?d, Some rs)" by blast
  let ?w = "w\<lparr>srv := s\<rparr>" and ?p = "p\<lparr>m_dummy_pending := False\<rparr>"
  have len: "\<not> length (res_rows dm) > 1" and val: "dummy_value dm = Inr theDummyValue"
    and st: "result_check_status \<lparr>r_data = Some dm, r_query = ''[DUMMY PIPELINE QUERY]''\<rparr> = Inr ()"
    using dm(1) by (auto simp: dummy_ok_def dummy_value_def field_as_def result_check_status_def check_status_def)
  have "check_dummy dm (?w, ?p) = (Inr (Some ()), (?w, ?p))"
    unfolding check_dummy_def if_not_P [OF len] by (simp add: val bindO_def on_scope_def liftR_def retA_def)
  then have "obtain_dummy Q (w, p) = (Inr (Some ()), (?w, ?p))" by (simp add: obtain_dummy_def s(1) c st Let_def)
  moreover have "pipe_inv c view run okq a D P W rs (?w, ?p)"
    using assms(2) s(2) P by (simp add: pipe_inv_def focus_ok_def on_the_way_def)
  ultimately show ?thesis by (intro exI [of _ ?w] exI [of _ ?p]) simp
qed

lemma recv_loop_inv:
  assumes "batch_server Q c view run okq"
  shows "pipe_inv c view run okq a D (P1 @ P2) W rs (w, p) \<Longrightarrow> P1 \<noteq> [] \<Longrightarrow> \<not> m_dummy_pending p \<Longrightarrow>
    \<exists>D' rs' w' p'. recv_loop Q (map_begin (P2 @ W)) (w, p) = (Inr (Some ()), (w', p')) \<and>
      pipe_inv c view run okq a D' P2 W rs' (w', p') \<and> \<not> m_dummy_pending p'"
proof (induction P1 arbitrary: D rs w p)
  case (Cons e P1)
  from Cons.prems(1) have "pipe_inv c view run okq a D (e # P1 @ P2) W rs (w, p)" by simp
  from obtain_next [OF assms this Cons.prems(3), of False] obtain w1 p1 e1 rs1 where
    1: "obtain_result Q False (w, p) = (Inr (Some True), (w1, p1))"
      "pipe_inv c view run okq a (D @ [e1]) (P1 @ P2) W rs1 (w1, p1)" "\<not> m_dummy_pending p1" by auto
  have f: "issued_first p1 = map_begin (P1 @ P2 @ W)" "map_ok ((D @ [e1]) @ P1 @ P2 @ W)"
    using 1(2) by (simp_all add: pipe_inv_def)
  show ?case
  proof (cases "P1 = []")
    case True
    with 1 f(1) show ?thesis by (auto simp: recv_loop.simps [of Q _ w p])
  next
    case False
    with f map_begin_ne [of "D @ [e1]" P1 "P2 @ W"] have "issued_first p1 \<noteq> map_begin (P2 @ W)" by simp
    with 1(1) have "recv_loop Q (map_begin (P2 @ W)) (w, p) = recv_loop Q (map_begin (P2 @ W)) (w1, p1)"
      by (simp add: recv_loop.simps [of Q _ w p])
    with Cons.IH [OF 1(2) False 1(3)] show ?thesis by simp
  qed
qed simp

lemma further_loop_inv:
  assumes "batch_server Q c view run okq"
  shows "pipe_inv c view run okq a D P W rs (w, p) \<Longrightarrow> \<not> m_dummy_pending p \<Longrightarrow>
    \<exists>P1 D' P2 rs' w' p'. further_loop Q (w, p) = (Inr (Some ()), (w', p')) \<and> P = P1 @ P2 \<and>
      pipe_inv c view run okq a D' P2 W rs' (w', p') \<and> \<not> m_dummy_pending p'"
proof (induction P arbitrary: D rs w p)
  case Nil
  from obtain_nothing [OF assms Nil.prems(1), of False] obtain s where
    "obtain_result Q False (w, p) = (Inr (Some False), (w\<lparr>srv := s\<rparr>, p))"
    "pipe_inv c view run okq a D [] W rs (w\<lparr>srv := s\<rparr>, p)" by blast
  with Nil show ?case by (cases "is_busy Q w") (auto simp: further_loop.simps [of Q w p])
next
  case (Cons e P)
  show ?case
  proof (cases "is_busy Q w")
    case True
    with Cons.prems show ?thesis by - (rule exI [of _ "[]"], auto simp: further_loop.simps [of Q w p])
  next
    case False
    from obtain_next [OF assms Cons.prems, of False] obtain w1 p1 e1 rs1 where
      1: "obtain_result Q False (w, p) = (Inr (Some True), (w1, p1))"
        "pipe_inv c view run okq a (D @ [e1]) P W rs1 (w1, p1)" "\<not> m_dummy_pending p1" by auto
    have "m_conn (cn w1) = c" using 1(2) by (simp add: pipe_inv_def)
    with batch_get(3) [OF assms, of "srv w1"] obtain s where
      s: "PQconsumeInput (pq (cp Q)) (m_conn (cn w1)) (srv w1) = (True, s)" "view s = view (srv w1)" by auto
    from Cons.IH [OF inv_view [OF 1(2) s(2)] 1(3)] obtain P1 D' P2 rs' w' p' where
      "further_loop Q (w1\<lparr>srv := s\<rparr>, p1) = (Inr (Some ()), (w', p'))" "P = P1 @ P2"
      "pipe_inv c view run okq a D' P2 W rs' (w', p')" "\<not> m_dummy_pending p'" by blast
    with False 1(1) s(1) show ?thesis by - (rule exI [of _ "e # P1"], auto simp: further_loop.simps [of Q w p])
  qed
qed

lemma dummy_step:
  assumes "batch_server Q c view run okq" "pipe_inv c view run okq a D P W rs (w, p)"
  shows "\<exists>w' p'. (if m_dummy_pending p then obtain_dummy Q else retA (Some ())) (w, p) = (Inr (Some ()), (w', p')) \<and>
    pipe_inv c view run okq a D P W rs (w', p') \<and> \<not> m_dummy_pending p'"
  using obtain_dummy_inv [OF assms] assms(2) by (cases "m_dummy_pending p") (auto simp: retA_def)

lemma receive_inv:
  assumes "batch_server Q c view run okq" "pipe_inv c view run okq a D (P1 @ P2) W rs (w, p)" "P1 \<noteq> []"
  shows "\<exists>P3 D' P4 rs' w' p'. receive Q (map_begin (P2 @ W)) (w, p) = (Inr (Some ()), (w', p')) \<and> P2 = P3 @ P4 \<and>
    pipe_inv c view run okq a D' P4 W rs' (w', p') \<and> \<not> m_dummy_pending p'"
proof -
  from dummy_step [OF assms(1,2)] obtain w1 p1 where
    1: "(if m_dummy_pending p then obtain_dummy Q else retA (Some ())) (w, p) = (Inr (Some ()), (w1, p1))"
      "pipe_inv c view run okq a D (P1 @ P2) W rs (w1, p1)" "\<not> m_dummy_pending p1" by blast
  from recv_loop_inv [OF assms(1) 1(2) assms(3) 1(3)] obtain D2 rs2 w2 p2 where
    2: "recv_loop Q (map_begin (P2 @ W)) (w1, p1) = (Inr (Some ()), (w2, p2))"
      "pipe_inv c view run okq a D2 P2 W rs2 (w2, p2)" "\<not> m_dummy_pending p2" by blast
  from further_loop_inv [OF assms(1) 2(2,3)] obtain P3 D3 P4 rs3 w3 p3 where
    3: "further_loop Q (w2, p2) = (Inr (Some ()), (w3, p3))" "P2 = P3 @ P4"
      "pipe_inv c view run okq a D3 P4 W rs3 (w3, p3)" "\<not> m_dummy_pending p3" by blast
  have "issued_first p2 = map_begin (P2 @ W)" using 2(2) by (simp add: pipe_inv_def)
  then have "receive Q (map_begin (P2 @ W)) (w, p) = (Inr (Some ()), (w3, p3))"
    using 1(1) 2(1) 3(1) by (simp add: receive_def bindO_def get_further_available_results_def)
  with 3 show ?thesis by blast
qed

lemma consume_step:
  assumes "batch_server Q c view run okq" "pipe_inv c view run okq a D P W rs (w, p)"
  shows "\<exists>s. on_scope (consume_input Q) (w, p) = (Inr (Some True), (w\<lparr>srv := s\<rparr>, p)) \<and>
    pipe_inv c view run okq a D P W rs (w\<lparr>srv := s\<rparr>, p)"
proof -
  have "m_conn (cn w) = c" using assms(2) by (simp add: pipe_inv_def)
  with batch_get(3) [OF assms(1), of "srv w"] obtain s where
    "PQconsumeInput (pq (cp Q)) (m_conn (cn w)) (srv w) = (True, s)" "view s = view (srv w)" by auto
  with inv_view [OF assms(2)] show ?thesis by (auto simp: on_scope_def consume_input_def retA_def)
qed

lemma receive_if_available_inv:
  assumes "batch_server Q c view run okq" "pipe_inv c view run okq a D P W rs (w, p)"
  shows "\<exists>P1 D' P2 rs' w' p'. receive_if_available Q (w, p) = (Inr (Some ()), (w', p')) \<and> P = P1 @ P2 \<and>
    pipe_inv c view run okq a D' P2 W rs' (w', p')"
proof -
  from consume_step [OF assms] obtain s where
    s: "on_scope (consume_input Q) (w, p) = (Inr (Some True), (w\<lparr>srv := s\<rparr>, p))"
      "pipe_inv c view run okq a D P W rs (w\<lparr>srv := s\<rparr>, p)" by blast
  from dummy_step [OF assms(1) s(2)] obtain w1 p1 where
    1: "(if m_dummy_pending p then obtain_dummy Q else retA (Some ())) (w\<lparr>srv := s\<rparr>, p) = (Inr (Some ()), (w1, p1))"
      "pipe_inv c view run okq a D P W rs (w1, p1)" "\<not> m_dummy_pending p1" by blast
  from further_loop_inv [OF assms(1) 1(2,3)] obtain P1 D3 P2 rs3 w3 p3 where
    3: "further_loop Q (w1, p1) = (Inr (Some ()), (w3, p3))" "P = P1 @ P2"
      "pipe_inv c view run okq a D3 P2 W rs3 (w3, p3)" by blast
  consider "is_busy Q (w\<lparr>srv := s\<rparr>)" | "\<not> is_busy Q (w\<lparr>srv := s\<rparr>)" "have_pending p1" | "\<not> is_busy Q (w\<lparr>srv := s\<rparr>)" "\<not> have_pending p1" by blast
  then show ?thesis
  proof cases
    case 1
    with s have "receive_if_available Q (w, p) = (Inr (Some ()), (w\<lparr>srv := s\<rparr>, p))"
      by (simp add: receive_if_available_def bindO_def)
    with s(2) show ?thesis by - (rule exI [of _ "[]"], auto)
  next
    case 2
    with s(1) 1(1) 3(1) have "receive_if_available Q (w, p) = (Inr (Some ()), (w3, p3))"
      by (simp add: receive_if_available_def bindO_def get_further_available_results_def)
    with 3 show ?thesis by blast
  next
    case 3
    with s(1) 1(1) have "receive_if_available Q (w, p) = (Inr (Some ()), (w1, p1))"
      by (simp add: receive_if_available_def bindO_def)
    with 1(2) show ?thesis by - (rule exI [of _ "[]"], auto)
  qed
qed

section \<open>Sending and inserting\<close>

lemma entries_waiting:
  assumes "map_ok (D @ W)" "W \<noteq> []"
  shows "entries_between (D @ W) (map_begin W) None = Some W"
proof -
  obtain e W' where W: "W = e # W'" using assms(2) by (cases W) auto
  with assms(1) have ok: "map_ok (D @ e # W')" by simp
  from map_ok_split [OF ok] have "filter (\<lambda>x. fst e \<le> fst x) D = []" "filter (\<lambda>x. fst e \<le> fst x) W' = W'"
    by (force simp: filter_empty_conv intro: filter_True)+
  with deref_split [OF ok] show ?thesis by (simp add: entries_between_def entries_from_def map_begin_def W)
qed

lemma keyed_Nil [simp]: "keyed [] rs = []" "keyed es [] = []"
  by (simp_all add: keyed_def)

lemma issue_inv:
  assumes "batch_server Q c view run okq" "pipe_inv c view run okq a D [] W rs (w, p)" "W \<noteq> []"
  shows "\<exists>rs' w' p'. issue Q (w, p) = (Inr (Some ()), (w', p')) \<and> pipe_inv c view run okq a D W [] rs' (w', p')"
proof -
  let ?qs = "map (query \<circ> snd) W"
  from obtain_nothing [OF assms(1,2), of False] obtain s where
    s: "obtain_result Q False (w, p) = (Inr (Some False), (w\<lparr>srv := s\<rparr>, p))"
      "pipe_inv c view run okq a D [] W rs (w\<lparr>srv := s\<rparr>, p)" "snd (view s) = None" by blast
  let ?d = "fst (view s)"
  have v: "view s = (?d, None)" using s(3) by (simp add: prod_eq_iff)
  have "\<forall>q \<in> set ?qs. okq q" "?qs \<noteq> []" using s(2) assms(3) by (auto simp: pipe_inv_def)
  with batch_send [OF assms(1) v, of ?qs] obtain s' dm where
    s': "PQsendQuery Q c (c_string (batch_text ?qs)) s = (True, s')" "dummy_ok dm"
      "view s' = (snd (run_all run ?qs ?d), Some ((if length ?qs > 1 then [dm] else []) @ fst (run_all run ?qs ?d)))" by blast
  have es: "entries_between (m_queries p) (issued_second p) None = Some W"
    using s(2) assms(3) entries_waiting [of D W] by (simp add: pipe_inv_def)
  have small: "\<not> int (length W) > INT_MAX" and c: "m_conn (cn w) = c" and err: "\<not> m_error p < qid_limit"
    using s(2) by (auto simp: pipe_inv_def qid_limit_def INT_MAX_def)
  let ?w = "w\<lparr>srv := s'\<rparr>" and ?p = "p\<lparr>m_dummy_pending := length W > 1, issued_first := issued_second p, issued_second := None,
    m_num_waiting := m_num_waiting p - int (length W)\<rparr>"
  have "on_scope (start_exec Q (c_string (batch_text ?qs))) (w\<lparr>srv := s\<rparr>, p) = (Inr (Some ()), (?w, p))"
    by (simp add: on_scope_def start_exec_def c s'(1) retA_def)
  with small err s(1) es have "issue Q (w, p) = (Inr (Some ()), (?w, ?p))"
    by (simp add: issue_def bindO_def Let_def)
  moreover have "pipe_inv c view run okq a D W [] (fst (run_all run ?qs ?d)) (?w, ?p)"
    using s(2) s'(2,3) assms(3) batch_run_all [OF assms(1), of ?qs ?d]
    by (auto simp: pipe_inv_def focus_ok_def on_the_way_def map_begin_def)
  ultimately show ?thesis by blast
qed

lemma attach_inv:
  assumes "pipe_inv c view run okq a D P W rs (w, p)"
  shows "\<exists>w' p'. attach (w, p) = (Inr (Some ()), (w', p')) \<and> pipe_inv c view run okq a D P W rs (w', p') \<and> m_reg p'"
proof (cases "m_reg p")
  case False
  then have f: "m_focus (tx w) = None" using assms by (simp add: pipe_inv_def focus_ok_def)
  let ?w = "w\<lparr>tx := (tx w)\<lparr>m_focus := Some (m_guest p)\<rparr>\<rparr>" and ?p = "p\<lparr>m_reg := True\<rparr>"
  have "attach (w, p) = (Inr (Some ()), (?w, ?p))"
    using False f by (simp add: attach_def register_me_def bindO_def on_scope_def register_focus_def check_unique_register_def
        bindA_def liftR_def retA_def modify_def)
  moreover have "pipe_inv c view run okq a D P W rs (?w, ?p)" using assms by (simp add: pipe_inv_def focus_ok_def)
  ultimately show ?thesis by (intro exI [of _ ?w] exI [of _ ?p]) simp
qed (use assms in \<open>auto simp: attach_def\<close>)

lemma map_put_behind: "\<forall>e \<in> set m. fst e < k \<Longrightarrow> map_put k v m = m @ [(k, v)]"
  by (induction m) (auto simp: not_less)

lemma map_ok_snoc: "map_ok m \<Longrightarrow> \<forall>e \<in> set m. fst e < k \<Longrightarrow> map_ok (m @ [(k, v)])"
  by (auto simp: map_ok_def sorted_wrt_append)

lemma keyed_append: "length rs = length es \<Longrightarrow> keyed (es @ es') (rs @ rs') = keyed es rs @ keyed es' rs'"
  by (simp add: keyed_def)

lemma enqueue_eq:
  "enqueue k q p = p\<lparr>m_queries := map_put k (new_Query q) (m_queries p),
     issued_first := (if issued_second p = None \<and> issued_first p = None then Some k else issued_first p),
     issued_second := (if issued_second p = None then Some k else issued_second p), m_num_waiting := m_num_waiting p + 1\<rparr>"
  by (rule pipeline.equality) (simp_all add: enqueue_def Let_def)

lemma enqueue_inv:
  assumes "pipe_inv c view run okq a D P W rs (w, p)" "okq q" "sp_id a + 1 < qid_limit"
  shows "pipe_inv c view run okq (snd (spec_op run (Insert q) a)) D P (W @ [(sp_id a + 1, new_Query q)]) rs
    (w, enqueue (sp_id a + 1) q (p\<lparr>m_q_id := sp_id a + 1\<rparr>))"
proof -
  let ?k = "sp_id a + 1" and ?e = "(sp_id a + 1, new_Query q)" and ?qs = "map (query \<circ> snd) W"
  have lt: "\<forall>e \<in> set (D @ P @ W). fst e < ?k" using inv_keys [OF assms(1)] by (simp only: zle_add1_eq_le)
  then have le: "\<forall>e \<in> set D \<union> (set P \<union> set W). fst e \<le> ?k"
    unfolding set_append [symmetric] by (blast intro: less_imp_le)
  from map_put_behind [OF lt, of "new_Query q"] map_ok_snoc [OF _ lt, of "new_Query q"] assms(1)
  have m: "map_put ?k (new_Query q) (m_queries p) = D @ P @ W @ [?e]" "map_ok (D @ P @ W @ [?e])"
    by (simp_all add: pipe_inv_def)
  have e: "blank ?e" "query (snd ?e) = q" by (simp_all add: blank_def new_Query_def)
  have k: "keyed (W @ [?e]) (fst (run_all run ?qs d) @ [r]) = keyed W (fst (run_all run ?qs d)) @ [(?k, r)]" for d r
    using keyed_append [of "fst (run_all run ?qs d)" W "[?e]" "[r]"] by (simp add: keyed_def)
  have its: "map_begin (W @ [?e]) = (if map_begin W = None then Some ?k else map_begin W)"
    "map_begin (P @ W @ [?e]) = (if map_begin (P @ W) = None then Some ?k else map_begin (P @ W))"
    by (cases W; cases P; simp add: map_begin_def)+
  have f: "m_queries p = D @ P @ W" "issued_first p = map_begin (P @ W)" "issued_second p = map_begin W"
    using assms(1) by (simp_all add: pipe_inv_def)
  have no: "map_begin (P @ W) = None \<Longrightarrow> map_begin W = None" by (cases P; simp add: map_begin_def)
  have "pipe_inv c view run okq (snd (spec_op run (Insert q) a)) D P (W @ [?e]) rs
    (w, p\<lparr>m_q_id := ?k, m_queries := D @ P @ W @ [?e], issued_first := map_begin (P @ W @ [?e]),
      issued_second := map_begin (W @ [?e]), m_num_waiting := m_num_waiting p + 1\<rparr>)"
    using assms m(2) e le by (simp add: pipe_inv_def focus_ok_def run_all_append k)
  moreover have "enqueue ?k q (p\<lparr>m_q_id := ?k\<rparr>) = p\<lparr>m_q_id := ?k, m_queries := D @ P @ W @ [?e], issued_first := map_begin (P @ W @ [?e]),
      issued_second := map_begin (W @ [?e]), m_num_waiting := m_num_waiting p + 1\<rparr>"
    using no m(1) by (simp add: enqueue_eq f its)
  ultimately show ?thesis by simp
qed

definition pipe_rel ::
    "nat \<Rightarrow> ('s \<Rightarrow> 'd \<times> pgresult list option) \<Rightarrow> (string \<Rightarrow> 'd \<Rightarrow> pgresult \<times> 'd) \<Rightarrow> (string \<Rightarrow> bool) \<Rightarrow> 'd spec \<Rightarrow> 's pipe \<Rightarrow> bool" where
  "pipe_rel c view run okq a ws \<longleftrightarrow> (\<exists>D P W rs. pipe_inv c view run okq a D P W rs ws)"

lemma pipe_relI: "pipe_inv c view run okq a D P W rs ws \<Longrightarrow> pipe_rel c view run okq a ws"
  by (auto simp: pipe_rel_def)

text \<open>Taking what has arrived, if anything is pending; sending what waits, if nothing is.\<close>

lemma receive_step:
  assumes "batch_server Q c view run okq" "pipe_inv c view run okq a D P W rs (w, p)"
  shows "\<exists>D' P' rs' w' p'. (if have_pending p then receive_if_available Q else retA (Some ())) (w, p) = (Inr (Some ()), (w', p')) \<and>
    pipe_inv c view run okq a D' P' W rs' (w', p') \<and> set P' \<subseteq> set P"
proof (cases "have_pending p")
  case True
  from receive_if_available_inv [OF assms] obtain P1 D' P2 rs' w' p' where
    "receive_if_available Q (w, p) = (Inr (Some ()), (w', p'))" "P = P1 @ P2" "pipe_inv c view run okq a D' P2 W rs' (w', p')" by blast
  with True show ?thesis by (intro exI [of _ D'] exI [of _ P2] exI [of _ rs'] exI [of _ w'] exI [of _ p']) simp
qed (use assms(2) in \<open>auto simp: retA_def\<close>)

lemma issue_step:
  assumes "batch_server Q c view run okq" "pipe_inv c view run okq a D P W rs (w, p)"
  shows "\<exists>w' p'. (if \<not> have_pending p \<and> m_num_waiting p \<noteq> 0 then issue Q (w, p) else (Inr (Some ()), (w, p))) = (Inr (Some ()), (w', p')) \<and>
    pipe_rel c view run okq a (w', p')"
proof (cases "\<not> have_pending p \<and> m_num_waiting p \<noteq> 0")
  case True
  then have "P = []" "W \<noteq> []" using have_pending_inv [OF assms(2)] assms(2) by (auto simp: pipe_inv_def)
  with issue_inv [OF assms(1), of a D W rs w p] assms(2) obtain rs' w' p' where
    "issue Q (w, p) = (Inr (Some ()), (w', p'))" "pipe_inv c view run okq a D W [] rs' (w', p')" by auto
  with True show ?thesis by (auto intro: pipe_relI)
qed (use assms(2) in \<open>auto intro: pipe_relI\<close>)

section \<open>The operations keep the relation\<close>

lemma inv_fields:
  assumes "pipe_inv c view run okq a D P W rs (w, p)"
  shows "issued_second p = map_begin W" "issued_first p = map_begin (P @ W)" "m_num_waiting p = int (length W)"
    "m_error p = qid_limit" "m_q_id p = sp_id a" "m_retain p = sp_retain a" "m_queries p = D @ P @ W" "map_ok (D @ P @ W)"
  using assms by (simp_all add: pipe_inv_def)

lemma receive_all:
  assumes "batch_server Q c view run okq" "pipe_inv c view run okq a D P W rs (w, p)"
  shows "\<exists>D' rs' w' p'. (if have_pending p then receive Q (map_begin W) else retA (Some ())) (w, p) = (Inr (Some ()), (w', p')) \<and>
    pipe_inv c view run okq a D' [] W rs' (w', p')"
proof (cases "P = []")
  case True
  then show ?thesis using have_pending_inv [OF assms(2)] assms(2) by (auto simp: retA_def)
next
  case False
  with receive_inv [OF assms(1), of a D P "[]" W rs w p] assms(2) have_pending_inv [OF assms(2)] show ?thesis by auto
qed

lemma detach_inv:
  assumes "pipe_inv c view run okq a D P W rs (w, p)"
  shows "\<exists>w' p'. detach (w, p) = (Inr (Some ()), (w', p')) \<and> pipe_inv c view run okq a D P W rs (w', p')"
proof (cases "m_reg p")
  case True
  then have f: "m_focus (tx w) = Some (m_guest p)" using assms by (simp add: pipe_inv_def focus_ok_def)
  let ?w = "w\<lparr>tx := (tx w)\<lparr>m_focus := None\<rparr>\<rparr>" and ?p = "p\<lparr>m_reg := False\<rparr>"
  have "detach (w, p) = (Inr (Some ()), (?w, ?p))"
    using True f by (simp add: detach_def unregister_me_def unregister_focus_def check_unique_unregister_def)
  moreover have "pipe_inv c view run okq a D P W rs (?w, ?p)" using assms by (simp add: pipe_inv_def focus_ok_def)
  ultimately show ?thesis by blast
qed (use assms in \<open>auto simp: detach_def\<close>)

lemma generate_id_inv:
  assumes "pipe_inv c view run okq a D P W rs (w, p)"
  shows "generate_id (w, p) = (Inr (Some (sp_id a + 1)), (w, p\<lparr>m_q_id := sp_id a + 1\<rparr>))"
  using assms by (simp add: pipe_inv_def generate_id_def)

text \<open>A query that waits is sent when nothing is pending, and more results may be taken first.\<close>

lemma push_inv:
  assumes "batch_server Q c view run okq" "pipe_inv c view run okq a D P W rs (w, p)" "W \<noteq> []"
  shows "\<exists>w' p'. bindO (if have_pending p then receive_if_available Q else retA (Some ())) (\<lambda>_ (w, p).
      if \<not> have_pending p then issue Q (w, p) else (Inr (Some ()), (w, p))) (w, p) = (Inr (Some ()), (w', p')) \<and>
    pipe_rel c view run okq a (w', p')"
proof -
  from receive_step [OF assms(1,2)] obtain D1 P1 rs1 w1 p1 where
    1: "(if have_pending p then receive_if_available Q else retA (Some ())) (w, p) = (Inr (Some ()), (w1, p1))"
      "pipe_inv c view run okq a D1 P1 W rs1 (w1, p1)" by blast
  from issue_step [OF assms(1) 1(2)] obtain w2 p2 where
    2: "(if \<not> have_pending p1 \<and> m_num_waiting p1 \<noteq> 0 then issue Q (w1, p1) else (Inr (Some ()), (w1, p1))) = (Inr (Some ()), (w2, p2))"
      "pipe_rel c view run okq a (w2, p2)" by blast
  have "m_num_waiting p1 \<noteq> 0" using inv_fields(3) [OF 1(2)] assms(3) by simp
  with 1(1) 2 show ?thesis by (simp add: bindO_def)
qed

lemma insert_rel:
  assumes "batch_server Q c view run okq" "pipe_rel c view run okq a (w, p)" "okq q" "sp_id a + 1 < qid_limit"
  shows "\<exists>ws'. pipe_op Q (Insert q) (w, p) = (Identifier (sp_id a + 1), ws') \<and> pipe_rel c view run okq (snd (spec_op run (Insert q) a)) ws'"
proof -
  from assms(2) obtain D P W rs where inv: "pipe_inv c view run okq a D P W rs (w, p)" by (auto simp: pipe_rel_def)
  from attach_inv [OF inv] obtain w1 p1 where
    1: "attach (w, p) = (Inr (Some ()), (w1, p1))" "pipe_inv c view run okq a D P W rs (w1, p1)" by blast
  let ?a = "snd (spec_op run (Insert q) a)" and ?W = "W @ [(sp_id a + 1, new_Query q)]"
  define p2 where "p2 = enqueue (sp_id a + 1) q (p1\<lparr>m_q_id := sp_id a + 1\<rparr>)"
  have 2: "pipe_inv c view run okq ?a D P ?W rs (w1, p2)" unfolding p2_def by (rule enqueue_inv [OF 1(2) assms(3,4)])
  have "?W \<noteq> []" by simp
  from push_inv [OF assms(1) 2 this] obtain w3 p3 where
    3: "bindO (if have_pending p2 then receive_if_available Q else retA (Some ())) (\<lambda>_ (w, p).
      if \<not> have_pending p then issue Q (w, p) else (Inr (Some ()), (w, p))) (w1, p2) = (Inr (Some ()), (w3, p3))"
      "pipe_rel c view run okq ?a (w3, p3)" by blast
  have g: "modify (enqueue (sp_id a + 1) q) (w1, p1\<lparr>m_q_id := sp_id a + 1\<rparr>) = (Inr (Some ()), (w1, p2))"
    by (simp add: modify_def p2_def)
  have "insert_query Q q (w, p) = (Inr (Some (sp_id a + 1)), (if m_num_waiting p2 > m_retain p2 then (w3, p3) else (w1, p2)))"
    unfolding insert_query_def bindO_Some [where m = attach, OF 1(1)] bindO_Some [where m = generate_id, OF generate_id_inv [OF 1(2)]]
      bindO_Some [where m = "modify (enqueue (sp_id a + 1) q)", OF g]
    using 3(1) by (simp add: bindO_def retA_def)
  with 3(2) pipe_relI [OF 2] show ?thesis by (auto simp: seen_def)
qed

lemma resume_inv:
  assumes "batch_server Q c view run okq" "pipe_inv c view run okq a D P W rs (w, p)"
  shows "\<exists>w' p'. resume Q (w, p) = (Inr (Some ()), (w', p')) \<and> pipe_rel c view run okq a (w', p')"
proof -
  from receive_step [OF assms] obtain D1 P1 rs1 w1 p1 where
    1: "(if have_pending p then receive_if_available Q else retA (Some ())) (w, p) = (Inr (Some ()), (w1, p1))"
      "pipe_inv c view run okq a D1 P1 W rs1 (w1, p1)" by blast
  show ?thesis
  proof (cases "\<not> have_pending p1 \<and> m_num_waiting p1 \<noteq> 0")
    case True
    then have "P1 = []" "W \<noteq> []" using have_pending_inv [OF 1(2)] inv_fields(3) [OF 1(2)] by auto
    with issue_inv [OF assms(1), of a D1 W rs1 w1 p1] 1(2) obtain rs2 w2 p2 where
      2: "issue Q (w1, p1) = (Inr (Some ()), (w2, p2))" "pipe_inv c view run okq a D1 W [] rs2 (w2, p2)" by auto
    from receive_if_available_inv [OF assms(1) 2(2)] obtain P3 D3 P4 rs3 w3 p3 where
      "receive_if_available Q (w2, p2) = (Inr (Some ()), (w3, p3))" "pipe_inv c view run okq a D3 P4 [] rs3 (w3, p3)" by blast
    with 1(1) 2(1) True show ?thesis by (auto simp: resume_def bindO_def intro: pipe_relI)
  next
    case False
    then have "resume Q (w, p) = (Inr (Some ()), (w1, p1))" using 1(1) by (auto simp: resume_def bindO_def)
    with 1(2) show ?thesis by (auto intro: pipe_relI)
  qed
qed

lemma retain_rel:
  assumes "batch_server Q c view run okq" "pipe_rel c view run okq a (w, p)"
  shows "\<exists>ws'. pipe_op Q (Retain n) (w, p) = (fst (spec_op run (Retain n) a), ws') \<and> pipe_rel c view run okq (snd (spec_op run (Retain n) a)) ws'"
proof (cases "n < 0")
  case True
  with assms(2) show ?thesis by (simp add: retain_def retain_error_def seen_def)
next
  case False
  from assms(2) obtain D P W rs where inv: "pipe_inv c view run okq a D P W rs (w, p)" by (auto simp: pipe_rel_def)
  let ?a = "a\<lparr>sp_retain := n\<rparr>" and ?p = "p\<lparr>m_retain := n\<rparr>"
  have 1: "pipe_inv c view run okq ?a D P W rs (w, ?p)" using inv by (simp add: pipe_inv_def focus_ok_def)
  from resume_inv [OF assms(1) 1] obtain w2 p2 where
    2: "resume Q (w, ?p) = (Inr (Some ()), (w2, p2))" "pipe_rel c view run okq ?a (w2, p2)" by blast
  have "retain Q n (w, p) = (Inr (Some (sp_retain a)), if m_num_waiting p \<ge> n then (w2, p2) else (w, ?p))"
    using False 2(1) inv_fields(6) [OF inv] by (simp add: retain_def Let_def bindO_def retA_def)
  with False 2(2) pipe_relI [OF 1] show ?thesis by (auto simp: seen_def)
qed

lemma complete_inv:
  assumes "batch_server Q c view run okq" "pipe_inv c view run okq a D P W rs (w, p)"
  shows "\<exists>w' p'. complete Q (w, p) = (Inr (Some ()), (w', p')) \<and> pipe_rel c view run okq a (w', p')"
proof -
  from receive_all [OF assms] obtain D1 rs1 w1 p1 where
    1: "(if have_pending p then receive Q (map_begin W) else retA (Some ())) (w, p) = (Inr (Some ()), (w1, p1))"
      "pipe_inv c view run okq a D1 [] W rs1 (w1, p1)" by blast
  have "\<exists>D2 P2 W2 rs2 w2 p2. (if m_num_waiting p1 \<noteq> 0 \<and> m_error p1 = qid_limit then bindO (issue Q) (\<lambda>_. receive Q None) (w1, p1)
      else (Inr (Some ()), (w1, p1))) = (Inr (Some ()), (w2, p2)) \<and> pipe_inv c view run okq a D2 P2 W2 rs2 (w2, p2)"
  proof (cases "W = []")
    case True
    then show ?thesis using 1(2) inv_fields(3) [OF 1(2)] by auto
  next
    case False
    from issue_inv [OF assms(1) 1(2) False] obtain rs2 w2 p2 where
      2: "issue Q (w1, p1) = (Inr (Some ()), (w2, p2))" "pipe_inv c view run okq a D1 W [] rs2 (w2, p2)" by auto
    have "map_begin ([] @ [] :: entries) = None" by (simp add: map_begin_def)
    with receive_inv [OF assms(1), of a D1 W "[]" "[]" rs2 w2 p2] 2(2) False obtain D3 P3 rs3 w3 p3 where
      "receive Q None (w2, p2) = (Inr (Some ()), (w3, p3))" "pipe_inv c view run okq a D3 P3 [] rs3 (w3, p3)" by auto
    with 2(1) 1(2) False inv_fields(3,4) [OF 1(2)] show ?thesis by (auto simp: bindO_def)
  qed
  then obtain D2 P2 W2 rs2 w2 p2 where
    2: "(if m_num_waiting p1 \<noteq> 0 \<and> m_error p1 = qid_limit then bindO (issue Q) (\<lambda>_. receive Q None) (w1, p1)
      else (Inr (Some ()), (w1, p1))) = (Inr (Some ()), (w2, p2))" "pipe_inv c view run okq a D2 P2 W2 rs2 (w2, p2)" by blast
  from detach_inv [OF 2(2)] obtain w3 p3 where
    3: "detach (w2, p2) = (Inr (Some ()), (w3, p3))" "pipe_inv c view run okq a D2 P2 W2 rs2 (w3, p3)" by blast
  have "complete Q (w, p) = (Inr (Some ()), (w3, p3))"
    unfolding complete_def prod.case inv_fields(1) [OF assms(2)]
      bindO_Some [where m = "if have_pending p then receive Q (map_begin W) else retA (Some ())", OF 1(1)]
    using 2(1) 3(1) by (simp add: bindO_def)
  with 3(2) show ?thesis by (auto intro: pipe_relI)
qed

section \<open>Retrieving\<close>

lemma keys_of_results:
  assumes "pipe_inv c view run okq a D P W rs ws"
  shows "map fst (sp_results a) = map fst (D @ P @ W)"
proof -
  have k: "map fst (keyed es rs') = map fst es" if "length rs' = length es" for es :: entries and rs'
    using that by (simp add: keyed_def)
  have "map fst (map result_of D) = map fst D" by (simp add: result_of_def)
  with assms show ?thesis by (auto simp: pipe_inv_def k)
qed

lemma retrieve_issue_inv:
  assumes "batch_server Q c view run okq" "pipe_inv c view run okq a D P W rs (w, p)"
  shows "\<exists>D' P' W' rs' w' p'. retrieve_issue Q k (w, p) = (Inr (Some ()), (w', p')) \<and>
    pipe_inv c view run okq a D' P' W' rs' (w', p') \<and> k \<notin> fst ` set W'"
proof (cases W)
  case Nil
  then have "retrieve_issue Q k (w, p) = (Inr (Some ()), (w, p))" "k \<notin> fst ` set W"
    using inv_fields(1) [OF assms(2)] by (simp_all add: retrieve_issue_def map_begin_def)
  with assms(2) show ?thesis by blast
next
  case (Cons x W')
  have second: "issued_second p = Some (fst x)" using inv_fields(1) [OF assms(2)] Cons by (simp add: map_begin_def)
  have ok: "map_ok ((D @ P) @ x # W')" "m_queries p = (D @ P) @ x # W'" using inv_fields(7,8) [OF assms(2)] Cons by simp_all
  have found: "map_get (m_queries p) (fst x) = Some (snd x)" using map_get_split [OF ok(1)] ok(2) by simp
  show ?thesis
  proof (cases "k \<ge> fst x")
    case True
    from receive_all [OF assms] obtain D1 rs1 w1 p1 where
      1: "(if have_pending p then receive Q (map_begin W) else retA (Some ())) (w, p) = (Inr (Some ()), (w1, p1))"
        "pipe_inv c view run okq a D1 [] W rs1 (w1, p1)" by blast
    from issue_inv [OF assms(1) 1(2)] Cons obtain rs2 w2 p2 where
      2: "issue Q (w1, p1) = (Inr (Some ()), (w2, p2))" "pipe_inv c view run okq a D1 W [] rs2 (w2, p2)" by auto
    have "retrieve_issue Q k (w, p) = bindO (if have_pending p then receive Q (map_begin W) else retA (Some ())) (\<lambda>_ (w, p).
        if m_error p = qid_limit then issue Q (w, p) else (Inr (Some ()), (w, p))) (w, p)"
      using True second found inv_fields(1) [OF assms(2)] by (simp add: retrieve_issue_def)
    also have "\<dots> = (Inr (Some ()), (w2, p2))"
      unfolding bindO_Some [where m = "if have_pending p then receive Q (map_begin W) else retA (Some ())", OF 1(1)]
      using 2(1) inv_fields(4) [OF 1(2)] by simp
    finally show ?thesis using 2(2) by fastforce
  next
    case False
    then have "retrieve_issue Q k (w, p) = (Inr (Some ()), (w, p))" using second found by (simp add: retrieve_issue_def)
    moreover have "k \<notin> fst ` set W" using False map_ok_split(2) [OF ok(1)] Cons by force
    ultimately show ?thesis using assms(2) by blast
  qed
qed

lemma retrieve_receive_inv:
  assumes "batch_server Q c view run okq" "pipe_inv c view run okq a D P W rs (w, p)" "k \<in> fst ` set (D @ P @ W)" "k \<notin> fst ` set W"
  shows "\<exists>D' P' rs' w' p'. retrieve_receive Q k (w, p) = (Inr (Some ()), (w', p')) \<and>
    pipe_inv c view run okq a D' P' W rs' (w', p') \<and> k \<notin> fst ` set P'"
proof (cases P)
  case Nil
  then have "retrieve_receive Q k (w, p) = (Inr (Some ()), (w, p))" "k \<notin> fst ` set P"
    using have_pending_inv [OF assms(2)] by (simp_all add: retrieve_receive_def)
  with assms(2) show ?thesis by blast
next
  case (Cons x P')
  have ok: "map_ok (D @ x # P' @ W)" "m_queries p = D @ x # P' @ W" "issued_first p = Some (fst x)"
    using inv_fields(2,7,8) [OF assms(2)] Cons by (simp_all add: map_begin_def)
  have pend: "have_pending p" using have_pending_inv [OF assms(2)] Cons by simp
  have first: "deref (m_queries p) (issued_first p) = Some x" using deref_split [OF ok(1)] ok(2,3) by simp
  show ?thesis
  proof (cases "k \<ge> fst x")
    case True
    with map_ok_split(1) [OF ok(1)] have "k \<notin> fst ` set D" by (auto simp: image_iff)
    with assms(3,4) have "k \<in> fst ` set P" by auto
    then obtain e where "e \<in> set P" "fst e = k" by auto
    then obtain P1 P2 where P: "P = P1 @ e # P2" by (meson split_list)
    have ok': "map_ok ((D @ P1) @ e # P2 @ W)" "m_queries p = (D @ P1) @ e # P2 @ W"
      using inv_fields(7,8) [OF assms(2)] P by simp_all
    have stop: "iter_next (m_queries p) k = map_begin (P2 @ W)" using iter_next_split [OF ok'(1)] ok'(2) \<open>fst e = k\<close> by simp
    from assms(2) P have "pipe_inv c view run okq a D ((P1 @ [e]) @ P2) W rs (w, p)" by simp
    from receive_inv [OF assms(1) this] obtain P3 D3 P4 rs3 w3 p3 where
      3: "receive Q (map_begin (P2 @ W)) (w, p) = (Inr (Some ()), (w3, p3))" "P2 = P3 @ P4"
        "pipe_inv c view run okq a D3 P4 W rs3 (w3, p3)" by blast
    have "retrieve_receive Q k (w, p) = (Inr (Some ()), (w3, p3))"
      using pend first True stop 3(1) by (simp add: retrieve_receive_def)
    moreover have "\<forall>y \<in> set P4. k < fst y" using map_ok_split(2) [OF ok'(1)] by (simp add: 3(2) \<open>fst e = k\<close> ball_Un)
    then have "k \<notin> fst ` set P4" by fastforce
    ultimately show ?thesis using 3(3) by blast
  next
    case False
    from receive_if_available_inv [OF assms(1,2)] obtain P1 D3 P2 rs3 w3 p3 where
      3: "receive_if_available Q (w, p) = (Inr (Some ()), (w3, p3))" "P = P1 @ P2" "pipe_inv c view run okq a D3 P2 W rs3 (w3, p3)" by blast
    have "retrieve_receive Q k (w, p) = (Inr (Some ()), (w3, p3))" using pend first False 3(1) by (simp add: retrieve_receive_def)
    moreover have "k < fst y" if "y \<in> set P" for y
      using that False map_ok_split(2) [OF ok(1)] Cons by (metis Un_iff not_le_imp_less order.strict_trans set_ConsD set_append)
    then have "k \<notin> fst ` set P" by fastforce
    with 3(2) have "k \<notin> fst ` set P2" by auto
    ultimately show ?thesis using 3(3) by blast
  qed
qed

text \<open>Before it returns, the server is given work if it has none.\<close>

lemma keep_busy_inv:
  assumes "batch_server Q c view run okq" "pipe_inv c view run okq a D P W rs (w, p)"
  shows "\<exists>P' W' rs' w' p'. (if m_num_waiting p \<noteq> 0 \<and> \<not> have_pending p \<and> m_error p = qid_limit then issue Q
      else retA (Some ())) (w, p) = (Inr (Some ()), (w', p')) \<and>
    pipe_inv c view run okq a D P' W' rs' (w', p') \<and> P' @ W' = P @ W"
proof (cases "m_num_waiting p \<noteq> 0 \<and> \<not> have_pending p")
  case True
  then have "P = []" "W \<noteq> []" using have_pending_inv [OF assms(2)] inv_fields(3) [OF assms(2)] by auto
  with issue_inv [OF assms(1), of a D W rs w p] assms(2) obtain rs' w' p' where
    "issue Q (w, p) = (Inr (Some ()), (w', p'))" "pipe_inv c view run okq a D W [] rs' (w', p')" by auto
  with True \<open>P = []\<close> inv_fields(4) [OF assms(2)] show ?thesis by auto
next
  case False
  then have "\<not> (m_num_waiting p \<noteq> 0 \<and> \<not> have_pending p \<and> m_error p = qid_limit)" by blast
  with assms(2) show ?thesis by (auto simp: retA_def)
qed

lemma filter_absent: "k \<notin> fst ` set es \<Longrightarrow> filter (\<lambda>e. fst e \<noteq> k) es = es"
  by (rule filter_True) auto

lemma keyed_keys: "fst ` set (keyed es rs) \<subseteq> fst ` set es"
  by (auto simp: keyed_def dest: set_zip_leftD)

lemma erase_inv:
  assumes "pipe_inv c view run okq a D P W rs (w, p)" "k \<in> fst ` set (D @ P @ W)" "k \<notin> fst ` set (P @ W)"
  shows "\<exists>e d. map_get (m_queries p) k = Some e \<and> r_data (q_res e) = Some d \<and> status_error d = Inr [] \<and>
    map_of (sp_results a) k = Some d \<and>
    pipe_inv c view run okq (a\<lparr>sp_results := filter (\<lambda>e. fst e \<noteq> k) (sp_results a)\<rparr>)
      (filter (\<lambda>e. fst e \<noteq> k) D) P W rs (w, p\<lparr>m_queries := map_erase k (m_queries p)\<rparr>)"
proof -
  from assms(2,3) obtain x where x: "x \<in> set D" "fst x = k" by auto
  then obtain D1 D2 where D: "D = D1 @ x # D2" by (meson split_list)
  have ok: "map_ok (D1 @ x # D2 @ P @ W)" "m_queries p = D1 @ x # D2 @ P @ W"
    using inv_fields(7,8) [OF assms(1)] D by simp_all
  from x(1) assms(1) have "filled x" by (simp add: pipe_inv_def)
  then obtain d where d: "r_data (q_res (snd x)) = Some d" "status_error d = Inr []" by (auto simp: filled_def)
  have get: "map_get (m_queries p) k = Some (snd x)" using map_get_split [OF ok(1)] ok(2) x(2) by simp
  have dist: "distinct (map fst (sp_results a))"
    using keys_of_results [OF assms(1)] inv_fields(8) [OF assms(1)] by (simp add: map_ok_def strict_sorted_iff)
  have "result_of x \<in> set (map result_of D)" using x(1) by simp
  then have "result_of x \<in> set (sp_results a)" using assms(1) by (simp add: pipe_inv_def)
  with dist d(1) x(2) have res: "map_of (sp_results a) k = Some d" by (simp add: result_of_def)
  have "filter (\<lambda>e. fst e \<noteq> k) (P @ W) = P @ W" by (rule filter_absent) (rule assms(3))
  then have erase: "map_erase k (m_queries p) = filter (\<lambda>e. fst e \<noteq> k) D @ P @ W"
    using inv_fields(7) [OF assms(1)] by (simp add: map_erase_def)
  have "sorted_wrt (<) (map fst (filter (\<lambda>e. fst e \<noteq> k) m))" if "sorted_wrt (<) (map fst m)" for m :: entries
    using that by (auto simp: sorted_wrt_map intro: sorted_wrt_filter)
  then have ok': "map_ok (filter (\<lambda>e. fst e \<noteq> k) D @ P @ W)"
    using inv_fields(8) [OF assms(1)] erase inv_fields(7) [OF assms(1)] by (metis map_erase_def map_ok_def)
  have absent: "k \<notin> fst ` set (keyed P rs)" "k \<notin> fst ` set (keyed W rs')" for rs'
    using assms(3) keyed_keys [of P rs] keyed_keys [of W rs'] by auto
  have rD: "filter (\<lambda>e. fst e \<noteq> k) (map result_of D) = map result_of (filter (\<lambda>e. fst e \<noteq> k) D)"
    by (simp add: filter_map o_def result_of_def)
  have "length (filter (\<lambda>e. fst e \<noteq> k) D) \<le> length D" by (rule length_filter_le)
  with inv_length [OF assms(1)] have bounds: "int (length (filter (\<lambda>e. fst e \<noteq> k) D)) + (int (length P) + int (length W)) \<le> sp_id a"
    by (simp only: length_append of_nat_add)
  have "\<forall>e \<in> {x \<in> set D. fst x \<noteq> k} \<union> (set P \<union> set W). fst e \<le> sp_id a"
    using inv_keys [OF assms(1)] by (simp add: ball_Un)
  with bounds have "pipe_inv c view run okq (a\<lparr>sp_results := filter (\<lambda>e. fst e \<noteq> k) (sp_results a)\<rparr>)
      (filter (\<lambda>e. fst e \<noteq> k) D) P W rs (w, p\<lparr>m_queries := map_erase k (m_queries p)\<rparr>)"
    using assms(1) ok' erase by (simp add: pipe_inv_def focus_ok_def rD filter_absent [OF absent(1)] filter_absent [OF absent(2)])
  with get d res show ?thesis by blast
qed

lemma retrieve_at_inv:
  assumes "batch_server Q c view run okq" "pipe_inv c view run okq a D P W rs (w, p)" "k \<in> fst ` set (sp_results a)"
  shows "\<exists>R d ws'. retrieve_at Q (Some k) (w, p) = (Inr (Some (k, R)), ws') \<and> r_data R = Some d \<and>
    map_of (sp_results a) k = Some d \<and> pipe_rel c view run okq (a\<lparr>sp_results := filter (\<lambda>e. fst e \<noteq> k) (sp_results a)\<rparr>) ws'"
proof -
  have keys: "k \<in> fst ` set (D' @ P' @ W')" if "pipe_inv c view run okq a D' P' W' rs' ws" for D' P' W' rs' ws
    using keys_of_results [OF that] assms(3) by (metis list.set_map)
  have below: "\<not> k \<ge> m_error p'" if "pipe_inv c view run okq a D' P' W' rs' (w', p')" for D' P' W' rs' w' p'
  proof -
    from keys [OF that] inv_keys [OF that] have "k \<le> sp_id a" by auto
    with that show ?thesis by (simp add: pipe_inv_def)
  qed
  from retrieve_issue_inv [OF assms(1,2), of k] obtain D1 P1 W1 rs1 w1 p1 where
    1: "retrieve_issue Q k (w, p) = (Inr (Some ()), (w1, p1))" "pipe_inv c view run okq a D1 P1 W1 rs1 (w1, p1)" "k \<notin> fst ` set W1" by blast
  from retrieve_receive_inv [OF assms(1) 1(2) keys [OF 1(2)] 1(3)] obtain D2 P2 rs2 w2 p2 where
    2: "retrieve_receive Q k (w1, p1) = (Inr (Some ()), (w2, p2))" "pipe_inv c view run okq a D2 P2 W1 rs2 (w2, p2)" "k \<notin> fst ` set P2" by blast
  from keep_busy_inv [OF assms(1) 2(2)] obtain P3 W3 rs3 w3 p3 where
    3: "(if m_num_waiting p2 \<noteq> 0 \<and> \<not> have_pending p2 \<and> m_error p2 = qid_limit then issue Q
      else retA (Some ())) (w2, p2) = (Inr (Some ()), (w3, p3))" "pipe_inv c view run okq a D2 P3 W3 rs3 (w3, p3)" "P3 @ W3 = P2 @ W1" by blast
  have "k \<notin> fst ` set (P3 @ W3)" unfolding 3(3) using 1(3) 2(3) by auto
  from erase_inv [OF 3(2) keys [OF 3(2)] this] obtain e d where
    4: "map_get (m_queries p3) k = Some e" "r_data (q_res e) = Some d" "status_error d = Inr []" "map_of (sp_results a) k = Some d"
      "pipe_inv c view run okq (a\<lparr>sp_results := filter (\<lambda>e. fst e \<noteq> k) (sp_results a)\<rparr>)
        (filter (\<lambda>e. fst e \<noteq> k) D2) P3 W3 rs3 (w3, p3\<lparr>m_queries := map_erase k (m_queries p3)\<rparr>)" by blast
  have "result_check_status (q_res e) = Inr ()" using 4(2,3) by (simp add: result_check_status_def check_status_def)
  then have "retrieve_at Q (Some k) (w, p) = (Inr (Some (k, q_res e)), (w3, p3\<lparr>m_queries := map_erase k (m_queries p3)\<rparr>))"
    unfolding retrieve_at_def prod.case option.case if_not_P [OF below [OF assms(2)]]
      bindO_Some [where m = "retrieve_issue Q k", OF 1(1)] bindO_Some [where m = "retrieve_receive Q k", OF 2(1)]
      if_not_P [OF below [OF 2(2)]]
      bindO_Some [where m = "if m_num_waiting p2 \<noteq> 0 \<and> \<not> have_pending p2 \<and> m_error p2 = qid_limit then issue Q else retA (Some ())", OF 3(1)]
    by (simp add: 4(1) Let_def)
  with 4(2,4) pipe_relI [OF 4(5)] show ?thesis by blast
qed

lemma retrieve_rel:
  assumes "batch_server Q c view run okq" "pipe_rel c view run okq a (w, p)"
  shows "\<exists>ws'. pipe_op Q (Retrieve k) (w, p) = (fst (spec_op run (Retrieve k) a), ws') \<and> pipe_rel c view run okq (snd (spec_op run (Retrieve k) a)) ws'"
proof -
  from assms(2) obtain D P W rs where inv: "pipe_inv c view run okq a D P W rs (w, p)" by (auto simp: pipe_rel_def)
  have dom: "map_get (m_queries p) k = None \<longleftrightarrow> k \<notin> fst ` set (sp_results a)"
    using keys_of_results [OF inv] inv_fields(7) [OF inv] by (metis list.set_map map_get_map_of map_of_eq_None_iff)
  show ?thesis
  proof (cases "k \<in> fst ` set (sp_results a)")
    case True
    from retrieve_at_inv [OF assms(1) inv True] obtain R d ws' where
      r: "retrieve_at Q (Some k) (w, p) = (Inr (Some (k, R)), ws')" "r_data R = Some d" "map_of (sp_results a) k = Some d"
        "pipe_rel c view run okq (a\<lparr>sp_results := filter (\<lambda>e. fst e \<noteq> k) (sp_results a)\<rparr>) ws'" by blast
    from True dom have "\<not> map_get (m_queries p) k = None" by simp
    with r(1) have "retrieve_id Q k (w, p) = (Inr (Some R), ws')"
      unfolding retrieve_id_def prod.case by (simp only: if_False bindO_Some [where m = "retrieve_at Q (Some k)"] retA_def snd_conv)
    with r show ?thesis by (simp add: seen_def result_seen_def)
  next
    case False
    with dom have "map_get (m_queries p) k = None" "map_of (sp_results a) k = None" by (simp_all add: map_of_eq_None_iff)
    with assms(2) show ?thesis by (simp add: seen_def retrieve_id_def retrieve_at_def bindO_def unknown_query_def)
  qed
qed

lemma oldest_rel:
  assumes "batch_server Q c view run okq" "pipe_rel c view run okq a (w, p)"
  shows "\<exists>ws'. pipe_op Q Oldest (w, p) = (fst (spec_op run Oldest a), ws') \<and> pipe_rel c view run okq (snd (spec_op run Oldest a)) ws'"
proof -
  from assms(2) obtain D P W rs where inv: "pipe_inv c view run okq a D P W rs (w, p)" by (auto simp: pipe_rel_def)
  have keys: "map fst (sp_results a) = map fst (m_queries p)" using keys_of_results [OF inv] inv_fields(7) [OF inv] by simp
  show ?thesis
  proof (cases "sp_results a")
    case Nil
    with keys assms(2) show ?thesis by (simp add: seen_def retrieve_oldest_def empty_pipeline_def)
  next
    case (Cons e es)
    then obtain x xs where x: "m_queries p = x # xs" "fst x = fst e" using keys by (cases "m_queries p") auto
    have "sorted_wrt (<) (map fst (sp_results a))" using inv_fields(7,8) [OF inv] keys by (simp add: map_ok_def)
    then have rest: "filter (\<lambda>x. fst x \<noteq> fst e) es = es" using Cons by (auto intro!: filter_True)
    from retrieve_at_inv [OF assms(1) inv, of "fst e"] Cons obtain R d ws' where
      r: "retrieve_at Q (Some (fst e)) (w, p) = (Inr (Some (fst e, R)), ws')" "r_data R = Some d" "map_of (sp_results a) (fst e) = Some d"
        "pipe_rel c view run okq (a\<lparr>sp_results := filter (\<lambda>x. fst x \<noteq> fst e) (sp_results a)\<rparr>) ws'" by auto
    have "d = snd e" using r(3) Cons by simp
    moreover have "retrieve_oldest Q (w, p) = (Inr (Some (fst e, R)), ws')"
      using x r(1) by (simp add: retrieve_oldest_def map_begin_def)
    ultimately show ?thesis using r(2,4) Cons by (simp add: seen_def result_seen_def rest)
  qed
qed

section \<open>The refinement\<close>

definition admissible :: "(string \<Rightarrow> bool) \<Rightarrow> pipe_call \<Rightarrow> bool" where
  "admissible okq op = (case op of Insert q \<Rightarrow> okq q | _ \<Rightarrow> True)"

lemma pipe_op_rel:
  assumes "batch_server Q c view run okq" "pipe_rel c view run okq a ws" "admissible okq op" "sp_id a + 1 < qid_limit"
  shows "\<exists>ws'. pipe_op Q op ws = (fst (spec_op run op a), ws') \<and> pipe_rel c view run okq (snd (spec_op run op a)) ws'"
proof -
  obtain w p where ws: "ws = (w, p)" by force
  note rel = assms(2) [unfolded ws]
  then obtain D P W rs where inv: "pipe_inv c view run okq a D P W rs (w, p)" by (auto simp: pipe_rel_def)
  show ?thesis unfolding ws
  proof (cases op)
    case (Insert q)
    with insert_rel [OF assms(1) rel _ assms(4), of q] assms(3) show "\<exists>ws'. pipe_op Q op (w, p) = (fst (spec_op run op a), ws') \<and>
        pipe_rel c view run okq (snd (spec_op run op a)) ws'" by (auto simp: admissible_def)
  next
    case Resume
    with resume_inv [OF assms(1) inv] show "\<exists>ws'. pipe_op Q op (w, p) = (fst (spec_op run op a), ws') \<and>
        pipe_rel c view run okq (snd (spec_op run op a)) ws'" by (auto simp: seen_def)
  next
    case Complete
    with complete_inv [OF assms(1) inv] show "\<exists>ws'. pipe_op Q op (w, p) = (fst (spec_op run op a), ws') \<and>
        pipe_rel c view run okq (snd (spec_op run op a)) ws'" by (auto simp: seen_def)
  qed (use retrieve_rel [OF assms(1) rel] oldest_rel [OF assms(1) rel] retain_rel [OF assms(1) rel] in simp_all)
qed

lemma spec_id_le: "sp_id (snd (spec_op run op a)) \<le> sp_id a + 1"
  by (cases op) (auto split: option.split list.split)

lemma pipe_ops_rel:
  assumes "batch_server Q c view run okq"
  shows "pipe_rel c view run okq a ws \<Longrightarrow> \<forall>op \<in> set ops. admissible okq op \<Longrightarrow> sp_id a + int (length ops) < qid_limit \<Longrightarrow>
    pipe_ops Q ops ws = spec_ops run ops a"
proof (induction ops arbitrary: a ws)
  case (Cons op ops)
  from Cons.prems have "admissible okq op" "sp_id a + 1 < qid_limit" by simp_all
  from pipe_op_rel [OF assms Cons.prems(1) this] obtain ws' where
    s: "pipe_op Q op ws = (fst (spec_op run op a), ws')" "pipe_rel c view run okq (snd (spec_op run op a)) ws'" by blast
  from Cons.IH [OF s(2)] Cons.prems(2,3) spec_id_le [of run op a] have "pipe_ops Q ops ws' = spec_ops run ops (snd (spec_op run op a))" by simp
  with s(1) show ?case by (simp add: prod.case_eq_if)
qed simp

lemma bindA_InrD: "bindA m f w = (Inr y, w') \<Longrightarrow> \<exists>x v. m w = (Inr x, v) \<and> f x v = (Inr y, w')"
  by (auto simp: bindA_def split: prod.splits sum.splits)

lemma new_pipeline_rel:
  assumes "new_pipeline L this nm w = (Inr p, w')" "view (srv w') = (d, None)"
  shows "pipe_rel (m_conn (cn w')) view run okq \<lparr>sp_db = d, sp_results = [], sp_id = 0, sp_retain = 0\<rparr> (w', p)"
proof -
  let ?g = "(this, ''pipeline'', nm)"
  let ?p = "\<lparr>m_guest = ?g, m_reg = True, m_queries = [], issued_first = None, issued_second = None,
      m_retain = 0, m_num_waiting = 0, m_q_id = 0, m_dummy_pending = False, m_error = qid_limit\<rparr> :: pipeline"
  have reg: "register_focus ?g v = (Inr x, v') \<Longrightarrow> m_focus (tx v') = Some ?g" for v v' :: "'a scope" and x
    by (auto simp: register_focus_def bindA_def liftR_def retA_def split: sum.splits)
  have "bindA (encoding_id L) (\<lambda>enc. bindA (liftR (enc_group (pg_encoding_to_char L enc))) (\<lambda>_.
      bindA (register_focus ?g) (\<lambda>_. retA ?p))) w = (Inr p, w')"
    using assms(1) by (simp add: new_pipeline_def Let_def)
  then have p: "p = ?p" and f: "m_focus (tx w') = Some ?g"
    by (auto simp: retA_def dest!: bindA_InrD reg)
  have "pipe_inv (m_conn (cn w')) view run okq \<lparr>sp_db = d, sp_results = [], sp_id = 0, sp_retain = 0\<rparr> [] [] [] [] (w', p)"
    using assms(2) f by (simp add: pipe_inv_def p focus_ok_def on_the_way_def map_begin_def map_ok_def qid_limit_def)
  then show ?thesis by (rule pipe_relI)
qed

text \<open>
  C13. A pipeline is a queue that executes at once, as long as its queries succeed.  Let the server run the queries of
  a batch in their order, whatever it has ready at which moment, and let every query that is inserted be a single
  statement that succeeds (\<open>okq\<close>).  Then any sequence of fewer than 2147483647 calls (insertions, retrievals in any
  order, changes of the retention and completions) on a new pipeline gives the same answers as executing each query the
  moment it is inserted and keeping its result.
\<close>

theorem pipeline_refines:
  assumes "batch_server Q (m_conn (cn w')) view run okq" "new_pipeline (pq (cp Q)) this nm w = (Inr p, w')"
    "view (srv w') = (d, None)" "\<forall>op \<in> set ops. admissible okq op" "int (length ops) < qid_limit"
  shows "pipe_ops Q ops (w', p) = spec_ops run ops \<lparr>sp_db = d, sp_results = [], sp_id = 0, sp_retain = 0\<rparr>"
  by (rule pipe_ops_rel [OF assms(1) new_pipeline_rel [of _ _ _ _ _ _ view, OF assms(2,3)]]) (use assms(4,5) in simp_all)

section \<open>A server to run pipelines on\<close>

text \<open>
  The database is the list of the statements executed; a statement answers with their number, \<open>SELECT 1\<close> changes
  nothing.  A text is cut into statements at its semicolons.
\<close>

record pipe_demo =
  demo_db :: "string list"
  demo_out :: "pgresult list option"

definition one_value :: "string \<Rightarrow> pgresult" where
  "one_value v = \<lparr>res_status = PGRES_TUPLES_OK, res_message = [], res_sqlstate = None, res_columns = 1, res_rows = [[Some v]]\<rparr>"

definition demo_run :: "string \<Rightarrow> string list \<Rightarrow> pgresult \<times> string list" where
  "demo_run q d = (if q = ''SELECT 1'' then (one_value ''1'', d) else (one_value (nat_to_string (length d)), d @ [q]))"

function statements :: "string \<Rightarrow> string list" where
  "statements t =
     (let q = takeWhile (\<lambda>c. c \<noteq> CHR '';'') t; r = dropWhile (\<lambda>c. c \<noteq> CHR '';'') t in
      if r = [] then [q] else q # statements (drop 2 r))"
  by pat_completeness auto
termination
proof (relation "measure length")
  fix t q r :: string
  assume r: "r = dropWhile (\<lambda>c. c \<noteq> CHR '';'') t" "r \<noteq> []"
  have "length r \<le> length t" unfolding r(1) by (rule length_dropWhile_le)
  moreover have "0 < length r" using r(2) by simp
  ultimately show "(drop 2 r, t) \<in> measure length" unfolding in_measure length_drop by linarith
qed simp

declare statements.simps [simp del]

definition pipe_demo_pq :: "pipe_demo libpq" where
  "pipe_demo_pq = \<lparr>PQconnectdb = (\<lambda>_ s. (Some 0, s)), PQstatus_ok = (\<lambda>_ _. True), PQerrorMessage = (\<lambda>_ _. []),
     PQprotocolVersion = (\<lambda>_ _. 3), PQserverVersion = (\<lambda>_ _. 150000), PQclientEncoding = (\<lambda>_ _. 6),
     pg_encoding_to_char = (\<lambda>_. ''UTF8''),
     PQexec = (\<lambda>_ q s. case demo_run q (demo_db s) of (r, d) \<Rightarrow> (Some r, s\<lparr>demo_db := d, demo_out := None\<rparr>)),
     PQexecParams = (\<lambda>_ q _ s. (None, s)), PQconsumeInput = (\<lambda>_ s. (True, s)),
     PQnotifies = (\<lambda>_ s. s), PQescapeStringConn = (\<lambda>_ t _. Some t), PQfinish = (\<lambda>_ s. s)\<rparr>"

definition pipe_demo_copy :: "pipe_demo copy_libpq" where
  "pipe_demo_copy = \<lparr>pq = pipe_demo_pq, PQgetCopyData = (\<lambda>_ s. (-2, [], s)), PQputCopyData = (\<lambda>_ _ s. (-1, s)),
     PQputCopyEnd = (\<lambda>_ s. (-1, s)),
     PQgetResult = (\<lambda>_ s. case demo_out s of
         Some (r # rs) \<Rightarrow> (Some r, s\<lparr>demo_out := Some rs\<rparr>)
       | _ \<Rightarrow> (None, s\<lparr>demo_out := None\<rparr>)),
     PQescapeIdentifier = (\<lambda>_ t _. Some t)\<rparr>"

definition pipe_demo :: "pipe_demo async_libpq" where
  "pipe_demo = \<lparr>cp = pipe_demo_copy,
     PQsendQuery = (\<lambda>_ t s. if demo_out s \<noteq> None then (False, s)
       else case run_all demo_run (statements t) (demo_db s) of
              (rs, d) \<Rightarrow> (True, s\<lparr>demo_db := d, demo_out := Some rs\<rparr>)),
     PQisBusy = (\<lambda>_ s. demo_out s \<noteq> None \<and> odd (length (the (demo_out s)))),
     PQgetCancel = (\<lambda>_ _. True), PQcancel = (\<lambda>_ s. (None, s))\<rparr>"

definition demo_view :: "pipe_demo \<Rightarrow> string list \<times> pgresult list option" where
  "demo_view s = (demo_db s, demo_out s)"

definition one_statement :: "string \<Rightarrow> bool" where
  "one_statement q \<longleftrightarrow> CHR '';'' \<notin> set q \<and> CHR 0x00 \<notin> set q"

lemma statements_one: "CHR '';'' \<notin> set q \<Longrightarrow> statements q = [q]"
  by (subst statements.simps) (auto simp: takeWhile_eq_all_conv dropWhile_eq_Nil_conv Let_def)

lemma statements_more:
  assumes "CHR '';'' \<notin> set q"
  shows "statements (q @ ''; '' @ t) = q # statements t"
proof -
  have "takeWhile (\<lambda>c. c \<noteq> CHR '';'') (q @ ''; '' @ t) = q" "dropWhile (\<lambda>c. c \<noteq> CHR '';'') (q @ ''; '' @ t) = ''; '' @ t"
    using assms by (auto simp: takeWhile_append dropWhile_append)
  then show ?thesis by (subst statements.simps) (simp add: Let_def)
qed

lemma statements_list: "qs \<noteq> [] \<Longrightarrow> \<forall>q \<in> set qs. CHR '';'' \<notin> set q \<Longrightarrow> statements (separated_list ''; '' qs) = qs"
proof (induction qs rule: induct_list012)
  case (3 x y qs)
  then show ?case using statements_more [of x "separated_list ''; '' (y # qs)"] by simp
qed (simp_all add: statements_one)

lemma statements_batch:
  assumes "qs \<noteq> []" "\<forall>q \<in> set qs. one_statement q"
  shows "statements (c_string (batch_text qs)) = (if length qs > 1 then [''SELECT 1''] else []) @ qs"
proof -
  have semi: "\<forall>q \<in> set qs. CHR '';'' \<notin> set q" and nul: "\<forall>q \<in> set qs. CHR 0x00 \<notin> set q"
    using assms(2) by (simp_all add: one_statement_def)
  have "CHR 0x00 \<notin> set (separated_list ''; '' qs)" using nul by (induction qs rule: induct_list012) auto
  then have "c_string (batch_text qs) = batch_text qs"
    by (auto simp: c_string_def batch_text_def theDummyQuery_def theDummyValue_def theSeparator_def takeWhile_eq_all_conv)
  moreover have "statements (''SELECT 1; '' @ separated_list ''; '' qs) = ''SELECT 1'' # qs"
    using statements_more [of "''SELECT 1''" "separated_list ''; '' qs"] statements_list [OF assms(1) semi] by simp
  ultimately show ?thesis
    using statements_list [OF assms(1) semi] by (auto simp: batch_text_def theDummyQuery_def theDummyValue_def theSeparator_def)
qed

lemma demo_status: "status_error (one_value v) = Inr []"
  by (simp add: one_value_def status_error_def)

lemma pipe_demo_simps [simp]:
  "PQgetResult (cp pipe_demo) c s = (case demo_out s of Some (r # rs) \<Rightarrow> (Some r, s\<lparr>demo_out := Some rs\<rparr>)
     | _ \<Rightarrow> (None, s\<lparr>demo_out := None\<rparr>))"
  "PQconsumeInput (pq (cp pipe_demo)) c s = (True, s)"
  by (simp_all add: pipe_demo_def pipe_demo_copy_def pipe_demo_pq_def)

lemma demo_serves: "batch_server pipe_demo c demo_view demo_run one_statement"
proof -
  have "\<exists>s' dm. PQsendQuery pipe_demo c (c_string (batch_text qs)) s = (True, s') \<and> dummy_ok dm \<and>
      demo_view s' = (snd (run_all demo_run qs d), Some ((if length qs > 1 then [dm] else []) @ fst (run_all demo_run qs d)))"
    if "demo_view s = (d, None)" "qs \<noteq> []" "\<forall>q \<in> set qs. one_statement q" for s d qs
  proof -
    let ?s = "s\<lparr>demo_db := snd (run_all demo_run qs d),
      demo_out := Some ((if length qs > 1 then [one_value ''1''] else []) @ fst (run_all demo_run qs d))\<rparr>"
    have one: "demo_run ''SELECT 1'' d = (one_value ''1'', d)" for d by (simp add: demo_run_def)
    have "PQsendQuery pipe_demo c (c_string (batch_text qs)) s = (True, ?s)"
      using that(1) by (cases "length qs > 1") (simp_all add: pipe_demo_def demo_view_def statements_batch [OF that(2,3)] one case_prod_beta)
    moreover have "dummy_ok (one_value ''1'')" by (simp add: dummy_ok_def demo_status) (simp add: one_value_def theDummyValue_def)
    moreover have "demo_view ?s = (snd (run_all demo_run qs d), Some ((if length qs > 1 then [one_value ''1''] else []) @ fst (run_all demo_run qs d)))"
      by (simp add: demo_view_def)
    ultimately show ?thesis by blast
  qed
  moreover have "status_error (fst (demo_run q d)) = Inr []" for q d by (simp add: demo_run_def demo_status)
  ultimately show ?thesis unfolding batch_server_def by (auto simp: demo_view_def)
qed

definition pipe_scope :: "pipe_demo scope" where
  "pipe_scope = \<lparr>srv = \<lparr>demo_db = [], demo_out = None\<rparr>,
     cn = \<lparr>m_conn = 0, m_trans = Some (trans_guest new_transaction), notices = []\<rparr>,
     tx = new_transaction\<lparr>m_registered := True\<rparr>\<rparr>"

lemma demo_pipeline:
  "\<exists>p w. new_pipeline (pq (cp pipe_demo)) 5 ''p'' pipe_scope = (Inr p, w) \<and> m_conn (cn w) = 0 \<and> demo_view (srv w) = ([], None)"
  by (simp add: new_pipeline_def Let_def bindA_def encoding_id_def liftR_def register_focus_def retA_def check_unique_register_def
      pipe_demo_def pipe_demo_copy_def pipe_demo_pq_def enc_group_def enc_group_names_def pipe_scope_def new_transaction_def demo_view_def)

lemma pipeline_refines_witness:
  "\<exists>p w. new_pipeline (pq (cp pipe_demo)) 5 ''p'' pipe_scope = (Inr p, w) \<and>
     pipe_ops pipe_demo [Retain 2, Insert ''a'', Insert ''b'', Insert ''c'', Retrieve 2, Retrieve 2, Oldest, Complete, Retrieve 3] (w, p) =
       [Retained 0, Identifier 1, Identifier 2, Identifier 3, Result 2 (one_value ''1''), Threw unknown_query,
        Result 1 (one_value ''0''), Done, Result 3 (one_value ''2'')]"
proof -
  let ?ops = "[Retain 2, Insert ''a'', Insert ''b'', Insert ''c'', Retrieve 2, Retrieve 2, Oldest, Complete, Retrieve 3]"
  from demo_pipeline obtain p w where
    p: "new_pipeline (pq (cp pipe_demo)) 5 ''p'' pipe_scope = (Inr p, w)" "demo_view (srv w) = ([], None)" by blast
  have adm: "\<forall>op \<in> set ?ops. admissible one_statement op" by (simp add: admissible_def one_statement_def)
  have len: "int (length ?ops) < qid_limit" by (simp add: qid_limit_def)
  have "pipe_ops pipe_demo ?ops (w, p) = spec_ops demo_run ?ops \<lparr>sp_db = [], sp_results = [], sp_id = 0, sp_retain = 0\<rparr>"
    by (rule pipeline_refines [OF demo_serves p adm len])
  also have "\<dots> = [Retained 0, Identifier 1, Identifier 2, Identifier 3, Result 2 (one_value ''1''), Threw unknown_query,
        Result 1 (one_value ''0''), Done, Result 3 (one_value ''2'')]"
    by (simp add: demo_run_def nat_to_string.simps digit_char_values digit_char_values(3) [unfolded numeral_2_eq_2])
  finally show ?thesis using p(1) by blast
qed

end
