(* ===== verification/Pqxx_Pipeline_Errors.thy ===== *)
theory Pqxx_Pipeline_Errors
  imports Pqxx_Pipeline_Spec
begin

text \<open>
  What becomes of a pipeline after an error, after a cancellation and after a failed batch, whatever libpq does
  otherwise.
\<close>

section \<open>What receiving and sending leave alone\<close>

text \<open>
  The steps that talk to the server keep the identifiers in the map and the last one given out, and never move the
  point of error up.
\<close>

definition steady :: "('s pipe, 'a) act \<Rightarrow> bool" where
  "steady m \<longleftrightarrow> (\<forall>ws. m_error (snd (snd (m ws))) \<le> m_error (snd ws) \<and>
     map fst (m_queries (snd (snd (m ws)))) = map fst (m_queries (snd ws)) \<and> m_q_id (snd (snd (m ws))) = m_q_id (snd ws))"

named_theorems steady_intros

lemma steadyD:
  assumes "steady m" "m (w, p) = (r, (w', p'))"
  shows "m_error p' \<le> m_error p" "map fst (m_queries p') = map fst (m_queries p)" "m_q_id p' = m_q_id p"
  using spec [OF assms(1) [unfolded steady_def], of "(w, p)"] assms(2) by simp_all

lemma steadyI:
  assumes "\<And>w p r w' p'. m (w, p) = (r, (w', p')) \<Longrightarrow>
    m_error p' \<le> m_error p \<and> map fst (m_queries p') = map fst (m_queries p) \<and> m_q_id p' = m_q_id p"
  shows "steady m"
  using assms unfolding steady_def by (metis prod.collapse)

lemma steady_bindO [steady_intros]:
  assumes "steady m" "\<And>x. steady (f x)"
  shows "steady (bindO m f)"
proof (rule steadyI)
  fix w p r w' p'
  assume b: "bindO m f (w, p) = (r, (w', p'))"
  obtain r1 w1 p1 where m: "m (w, p) = (r1, (w1, p1))" by (metis prod.collapse)
  show "m_error p' \<le> m_error p \<and> map fst (m_queries p') = map fst (m_queries p) \<and> m_q_id p' = m_q_id p"
  proof (cases "\<exists>x. r1 = Inr (Some x)")
    case True
    then obtain x where "r1 = Inr (Some x)" by blast
    with b m have "f x (w1, p1) = (r, (w', p'))" by (simp add: bindO_def)
    from steadyD [OF assms(2) this] steadyD [OF assms(1) m] show ?thesis by auto
  next
    case False
    with b m have "(w', p') = (w1, p1)" by (auto simp: bindO_def split: sum.splits option.splits)
    with steadyD [OF assms(1) m] show ?thesis by simp
  qed
qed

lemma steady_catchA [steady_intros]:
  assumes "steady m" "\<And>e. steady (h e)"
  shows "steady (catchA m h)"
proof (rule steadyI)
  fix w p r w' p'
  assume b: "catchA m h (w, p) = (r, (w', p'))"
  obtain r1 w1 p1 where m: "m (w, p) = (r1, (w1, p1))" by (metis prod.collapse)
  show "m_error p' \<le> m_error p \<and> map fst (m_queries p') = map fst (m_queries p) \<and> m_q_id p' = m_q_id p"
  proof (cases r1)
    case (Inl e)
    with b m have "h e (w1, p1) = (r, (w', p'))" by (simp add: catchA_def)
    from steadyD [OF assms(2) this] steadyD [OF assms(1) m] show ?thesis by auto
  next
    case (Inr x)
    with b m steadyD [OF assms(1) m] show ?thesis by (simp add: catchA_def)
  qed
qed

lemma steady_on_scope [steady_intros]: "steady (on_scope m)"
  by (rule steadyI) (auto simp: on_scope_def split: prod.splits sum.splits)

lemma steady_simple [steady_intros]: "steady (retA x)" "steady (throwA e)" "steady (internal_error err)"
  by (rule steadyI; force simp: retA_def throwA_def internal_error_def set_error_at_def)+

lemma steady_if [steady_intros]: "steady m \<Longrightarrow> steady n \<Longrightarrow> steady (if b then m else n)"
  by simp

lemma steady_pure [steady_intros]: "steady (\<lambda>ws. (r, ws))"
  by (rule steadyI) auto

lemma set_error_at_simps [simp]:
  "m_error (set_error_at n p) \<le> m_error p" "m_queries (set_error_at n p) = m_queries p" "m_q_id (set_error_at n p) = m_q_id p"
  by (simp_all add: set_error_at_def)

lemma keys_set_result [simp]: "map fst (set_result k r m) = map fst m"
  by (induction m) (auto simp: set_result_def)

lemma steady_obtain_result [steady_intros]: "steady (obtain_result Q b)"
  by (rule steadyI) (auto simp: obtain_result_def internal_error_def split: prod.splits option.splits list.splits if_splits)

text \<open>The loops, by induction along their calls.\<close>

lemma steady_recv_loop [steady_intros]: "steady (recv_loop Q stop)"
proof (rule steadyI)
  fix w p r w' p'
  assume "recv_loop Q stop (w, p) = (r, (w', p'))"
  then show "m_error p' \<le> m_error p \<and> map fst (m_queries p') = map fst (m_queries p) \<and> m_q_id p' = m_q_id p"
  proof (induction Q stop "(w, p)" arbitrary: w p rule: recv_loop.induct)
    case (1 Q stop w p)
    obtain r1 w1 p1 where o: "obtain_result Q False (w, p) = (r1, (w1, p1))" by (metis prod.collapse)
    note s = steadyD [OF steady_obtain_result o]
    show ?case
    proof (cases "r1 = Inr (Some True) \<and> issued_first p1 \<noteq> stop")
      case True
      then have l: "recv_loop Q stop (w1, p1) = (r, (w', p'))" using "1.prems" o by (simp add: recv_loop.simps [of Q stop w p])
      have "m_error p' \<le> m_error p1 \<and> map fst (m_queries p') = map fst (m_queries p1) \<and> m_q_id p' = m_q_id p1"
        by (rule "1.hyps" [OF o [symmetric] _ refl refl _ l]) (use True in auto)
      with s show ?thesis by simp
    next
      case False
      then have "(w', p') = (w1, p1)" using "1.prems" o
        by (auto simp: recv_loop.simps [of Q stop w p] split: sum.splits option.splits if_splits)
      with s show ?thesis by simp
    qed
  qed
qed

lemma steady_further_loop [steady_intros]: "steady (further_loop Q)"
proof (rule steadyI)
  fix w p r w' p'
  assume "further_loop Q (w, p) = (r, (w', p'))"
  then show "m_error p' \<le> m_error p \<and> map fst (m_queries p') = map fst (m_queries p) \<and> m_q_id p' = m_q_id p"
  proof (induction Q "(w, p)" arbitrary: w p rule: further_loop.induct)
    case (1 Q w p)
    obtain r1 w1 p1 where o: "obtain_result Q False (w, p) = (r1, (w1, p1))" by (metis prod.collapse)
    note s = steadyD [OF steady_obtain_result o]
    obtain b s1 where c: "PQconsumeInput (pq (cp Q)) (m_conn (cn w1)) (srv w1) = (b, s1)" by force
    show ?case
    proof (cases "\<not> is_busy Q w \<and> r1 = Inr (Some True) \<and> b")
      case True
      then have l: "further_loop Q (w1\<lparr>srv := s1\<rparr>, p1) = (r, (w', p'))" using "1.prems" o c by (simp add: further_loop.simps [of Q w p])
      have "m_error p' \<le> m_error p1 \<and> map fst (m_queries p') = map fst (m_queries p1) \<and> m_q_id p' = m_q_id p1"
        by (rule "1.hyps" [OF _ o [symmetric] _ refl refl refl c [symmetric] _ l]) (use True in auto)
      with s show ?thesis by simp
    next
      case False
      then have "p' = p1 \<or> p' = p" using "1.prems" o c
        by (auto simp: further_loop.simps [of Q w p] split: sum.splits option.splits if_splits bool.splits)
      with s show ?thesis by auto
    qed
  qed
qed

lemma steady_replay_loop [steady_intros]: "steady (replay_loop Q stop)"
proof (rule steadyI)
  fix w p r w' p'
  assume "replay_loop Q stop (w, p) = (r, (w', p'))"
  then show "m_error p' \<le> m_error p \<and> map fst (m_queries p') = map fst (m_queries p) \<and> m_q_id p' = m_q_id p"
  proof (induction Q stop "(w, p)" arbitrary: w p rule: replay_loop.induct)
    case (1 Q stop w p)
    show ?case
    proof (cases "deref (m_queries p) (issued_first p)")
      case None
      with "1.prems" show ?thesis by (simp add: replay_loop.simps [of Q stop w p])
    next
      case (Some e)
      obtain r1 w1 where x: "tx_exec (pq (cp Q)) (query (snd e)) w = (r1, w1)" by force
      show ?thesis
      proof (cases r1)
        case (Inl y)
        with "1.prems" Some x show ?thesis by (auto simp: replay_loop.simps [of Q stop w p] Let_def)
      next
        case (Inr d)
        let ?r = "\<lparr>r_data = Some d, r_query = query (snd e)\<rparr>"
        let ?p = "p\<lparr>m_num_waiting := m_num_waiting p - 1, m_queries := set_result (fst e) ?r (m_queries p)\<rparr>"
        let ?p' = "?p\<lparr>issued_first := iter_next (m_queries p) (fst e)\<rparr>"
        show ?thesis
        proof (cases "result_check_status ?r = Inr () \<and> issued_first ?p' \<noteq> stop")
          case True
          then have l: "replay_loop Q stop (w1, ?p') = (r, (w', p'))"
            using "1.prems" Some x Inr by (simp add: replay_loop.simps [of Q stop w p] Let_def)
          from "1.hyps" [OF Some refl x [symmetric] Inr refl refl _ refl _ ] True l show ?thesis by simp
        next
          case False
          then have "p' = ?p \<or> p' = ?p'" using "1.prems" Some x Inr
            by (auto simp: replay_loop.simps [of Q stop w p] Let_def split: sum.splits if_splits)
          then show ?thesis by auto
        qed
      qed
    qed
  qed
qed

lemma steady_unregister [steady_intros]:
  assumes "steady m"
  shows "steady (\<lambda>ws. m (unregister_me ws))"
proof (rule steadyI)
  fix w p r w' p'
  assume "m (unregister_me (w, p)) = (r, (w', p'))"
  then have "m (unregister_focus (m_guest p) w, p\<lparr>m_reg := False\<rparr>) = (r, (w', p'))" by (simp add: unregister_me_def)
  from steadyD [OF assms this] show "m_error p' \<le> m_error p \<and> map fst (m_queries p') = map fst (m_queries p) \<and> m_q_id p' = m_q_id p"
    by simp
qed

lemma keys_fold_set_result [simp]: "map fst (fold (\<lambda>e. set_result (fst e) R) es m) = map fst m"
  by (induction es arbitrary: m) simp_all

lemma steady_replay_failed [steady_intros]: "steady replay_failed"
  by (rule steadyI) (auto simp: replay_failed_def Let_def set_error_at_def split: option.splits if_splits)

lemma steady_replay [steady_intros]: "steady (replay Q stop)"
  unfolding replay_def by (intro steady_intros)

text \<open>The same for a step whose action depends on the state it starts in.\<close>

definition stays :: "pipeline \<Rightarrow> 'a res \<times> 's pipe \<Rightarrow> bool" where
  "stays p x \<longleftrightarrow> m_error (snd (snd x)) \<le> m_error p \<and> map fst (m_queries (snd (snd x))) = map fst (m_queries p) \<and>
     m_q_id (snd (snd x)) = m_q_id p"

lemma steady_stays: "steady m \<longleftrightarrow> (\<forall>w p. stays p (m (w, p)))"
  by (simp add: steady_def stays_def)

lemma stays_steady:
  assumes "steady m" "m_error p' \<le> m_error p" "map fst (m_queries p') = map fst (m_queries p)" "m_q_id p' = m_q_id p"
  shows "stays p (m (w, p'))"
  using assms(1) [unfolded steady_stays stays_def, rule_format, of w p'] assms(2-4) by (auto simp: stays_def)

lemma stays_Pair [simp]:
  "stays p (r, (w, p')) \<longleftrightarrow> m_error p' \<le> m_error p \<and> map fst (m_queries p') = map fst (m_queries p) \<and> m_q_id p' = m_q_id p"
  by (simp add: stays_def)

lemma stays_bindO:
  assumes "stays p (m ws)" "\<And>x w' p'. m_error p' \<le> m_error p \<Longrightarrow> map fst (m_queries p') = map fst (m_queries p) \<Longrightarrow>
    m_q_id p' = m_q_id p \<Longrightarrow> stays p (f x (w', p'))"
  shows "stays p (bindO m f ws)"
proof -
  obtain r w1 p1 where m: "m ws = (r, (w1, p1))" by (metis prod.collapse)
  with assms show ?thesis by (auto simp: bindO_def split: sum.split option.split)
qed

lemma steady_check_dummy [steady_intros]: "steady (check_dummy d)"
  unfolding check_dummy_def by (intro steady_intros)

lemmas stays_steps = stays_steady [OF steady_obtain_result] stays_steady [OF steady_further_loop]
  stays_steady [OF steady_recv_loop] stays_steady [OF steady_simple(1)] stays_steady [OF steady_simple(2)]
  stays_steady [OF steady_simple(3)] stays_steady [OF steady_on_scope] stays_steady [OF steady_check_dummy]
  stays_steady [OF steady_unregister [OF steady_replay]]

lemma steady_batch_failed [steady_intros]: "steady (batch_failed Q R)"
  unfolding steady_stays
  by (auto simp: batch_failed_def Let_def intro!: stays_bindO stays_steps split: option.split)

lemma steady_obtain_dummy [steady_intros]: "steady (obtain_dummy Q)"
  unfolding steady_stays
  by (auto simp: obtain_dummy_def Let_def intro!: stays_steps stays_steady [OF steady_batch_failed]
      split: prod.split option.split sum.split)

lemmas stays_dummy = stays_steady [OF steady_obtain_dummy]

lemma steady_receive_if_available [steady_intros]: "steady (receive_if_available Q)"
proof -
  have "steady (\<lambda>(w, p). if is_busy Q w then (Inr (Some ()), (w, p))
     else bindO (if m_dummy_pending p then obtain_dummy Q else retA (Some ())) (\<lambda>_ (w, p).
       if have_pending p then get_further_available_results Q (w, p) else (Inr (Some ()), (w, p))) (w, p))"
    unfolding steady_stays get_further_available_results_def
    by (auto intro!: stays_bindO stays_steps stays_dummy)
  then show ?thesis unfolding receive_if_available_def by (intro steady_intros)
qed

lemma steady_receive [steady_intros]: "steady (receive Q stop)"
  unfolding steady_stays receive_def get_further_available_results_def
  by (auto intro!: stays_bindO stays_steps stays_dummy)

lemma steady_issue [steady_intros]: "steady (issue Q)"
  unfolding steady_stays issue_def
  by (auto simp: Let_def intro!: stays_bindO stays_steps split: option.split)

lemma steady_attach [steady_intros]: "steady attach"
  unfolding steady_stays
  by (auto simp: attach_def register_me_def modify_def intro!: stays_bindO stays_steps)

lemma steady_detach [steady_intros]: "steady detach"
  unfolding steady_stays by (auto simp: detach_def unregister_me_def)

section \<open>An error is final\<close>

lemma bindO_SomeE:
  assumes "bindO m f (w, p) = (Inr (Some y), ws')"
  obtains x w1 p1 where "m (w, p) = (Inr (Some x), (w1, p1))" "f x (w1, p1) = (Inr (Some y), ws')"
proof -
  obtain r w1 p1 where m: "m (w, p) = (r, (w1, p1))" by (metis prod.collapse)
  with assms obtain x where "r = Inr (Some x)" by (auto simp: bindO_def split: sum.splits option.splits)
  with m assms show ?thesis by (intro that [of x w1 p1]) (simp_all add: bindO_def)
qed

lemma flush_done:
  assumes "flush Q (w, p) = (Inr (Some ()), (w', p'))"
  shows "m_error p' \<le> m_error p" "m_q_id p' = m_q_id p" "m_queries p' = []"
proof -
  let ?clear = "\<lambda>p. p\<lparr>issued_first := None, issued_second := None, m_num_waiting := 0, m_dummy_pending := False, m_queries := []\<rparr>"
  from assms [unfolded flush_def prod.case] obtain x w1 p1 where
    1: "(if m_queries p \<noteq> [] then bindO (if have_pending p then receive Q (issued_second p) else retA (Some ())) (\<lambda>_. modify ?clear)
       else retA (Some ())) (w, p) = (Inr (Some x), (w1, p1))" "detach (w1, p1) = (Inr (Some ()), (w', p'))"
    by (rule bindO_SomeE)
  have p1: "m_error p1 \<le> m_error p \<and> m_q_id p1 = m_q_id p \<and> m_queries p1 = []"
  proof (cases "m_queries p = []")
    case False
    with 1(1) have "bindO (if have_pending p then receive Q (issued_second p) else retA (Some ())) (\<lambda>_. modify ?clear) (w, p) =
        (Inr (Some x), (w1, p1))" by simp
    then obtain y w2 p2 where
      2: "(if have_pending p then receive Q (issued_second p) else retA (Some ())) (w, p) = (Inr (Some y), (w2, p2))"
        "modify ?clear (w2, p2) = (Inr (Some x), (w1, p1))"
      by (rule bindO_SomeE)
    have "steady (if have_pending p then receive Q (issued_second p) else retA (Some ()))" by (intro steady_intros)
    from steadyD [OF this 2(1)] 2(2) show ?thesis by (auto simp: modify_def)
  qed (use 1(1) in \<open>auto simp: retA_def\<close>)
  from steadyD [OF steady_detach 1(2)] p1 show "m_error p' \<le> m_error p" "m_q_id p' = m_q_id p" "m_queries p' = []" by auto
qed

lemma insert_done:
  assumes "insert_query Q q (w, p) = (Inr (Some k), (w', p'))"
  shows "k = m_q_id p + 1" "m_error p' \<le> m_error p" "k \<in> fst ` set (m_queries p')"
proof -
  let ?push = "\<lambda>(w, p). if m_num_waiting p > m_retain p then
      bindO (if have_pending p then receive_if_available Q else retA (Some ())) (\<lambda>_ (w, p).
        if \<not> have_pending p then issue Q (w, p) else (Inr (Some ()), (w, p))) (w, p)
    else (Inr (Some ()), (w, p))"
  from assms [unfolded insert_query_def] obtain x w1 p1 where
    1: "attach (w, p) = (Inr (Some x), (w1, p1))"
      "bindO generate_id (\<lambda>qid. bindO (modify (enqueue qid q)) (\<lambda>_. bindO ?push (\<lambda>_. retA (Some qid)))) (w1, p1) = (Inr (Some k), (w', p'))"
    by (rule bindO_SomeE)
  from 1(2) obtain qid w2 p2 where
    2: "generate_id (w1, p1) = (Inr (Some qid), (w2, p2))"
      "bindO (modify (enqueue qid q)) (\<lambda>_. bindO ?push (\<lambda>_. retA (Some qid))) (w2, p2) = (Inr (Some k), (w', p'))"
    by (rule bindO_SomeE)
  from 2(2) obtain y w3 p3 where
    3: "modify (enqueue qid q) (w2, p2) = (Inr (Some y), (w3, p3))" "bindO ?push (\<lambda>_. retA (Some qid)) (w3, p3) = (Inr (Some k), (w', p'))"
    by (rule bindO_SomeE)
  from 3(2) obtain z w4 p4 where
    4: "?push (w3, p3) = (Inr (Some z), (w4, p4))" "retA (Some qid) (w4, p4) = (Inr (Some k), (w', p'))"
    by (rule bindO_SomeE)
  have p3: "p3 = enqueue qid q p2" using 3(1) by (simp add: modify_def)
  have p4: "p4 = p'" "k = qid" using 4(2) by (simp_all add: retA_def)
  have "steady ?push" unfolding steady_stays
    by (auto intro!: stays_bindO stays_steps stays_steady [OF steady_receive_if_available] stays_steady [OF steady_issue])
  note push = steadyD [OF this 4(1)]
  from 2(1) have g: "qid = m_q_id p1 + 1" "p2 = p1\<lparr>m_q_id := qid\<rparr>" by (auto simp: generate_id_def split: if_splits)
  note at = steadyD [OF steady_attach 1(1)]
  show "k = m_q_id p + 1" using p4(2) g(1) at(3) by simp
  show "m_error p' \<le> m_error p" using push(1) p3 p4(1) g(2) at(1) by (simp add: enqueue_eq)
  have "fst ` set (m_queries p') = fst ` set (m_queries p3)" using push(2) p4(1) by (metis list.set_map)
  then show "k \<in> fst ` set (m_queries p')" using p3 p4(2) by (simp add: enqueue_eq fst_set_map_put)
qed

text \<open>
  C34. Flushing does not clear an error, contrary to its documentation.  Once a query has failed, or the one behind
  it is marked, a query that is inserted after a \<open>flush\<close> is accepted and gets an identifier, but asking for its result
  is answered with the error of the earlier query, at once and whatever the server did.
\<close>

theorem flush_keeps_error:
  assumes "m_error p \<le> m_q_id p + 1" "flush Q (w, p) = (Inr (Some ()), (w1, p1))"
    "insert_query Q q (w1, p1) = (Inr (Some k), (w2, p2))"
  shows "k = m_q_id p + 1 \<and> retrieve_id Q k (w2, p2) = (Inl earlier_error, (w2, p2))"
proof -
  from flush_done [OF assms(2)] insert_done [OF assms(3)] assms(1)
  have k: "k = m_q_id p + 1" "m_error p2 \<le> k" "map_get (m_queries p2) k \<noteq> None"
    by (auto simp: map_get_map_of map_of_eq_None_iff)
  then have "retrieve_id Q k (w2, p2) = (Inl earlier_error, (w2, p2))"
    by (auto simp: retrieve_id_def retrieve_at_def bindO_def)
  with k(1) show ?thesis by simp
qed

definition failed_pipe :: pipeline where
  "failed_pipe = \<lparr>m_guest = (5, ''pipeline'', ''p''), m_reg = False, m_queries = [], issued_first = None, issued_second = None,
     m_retain = 0, m_num_waiting = 0, m_q_id = 1, m_dummy_pending = False, m_error = 1\<rparr>"

lemma flush_keeps_error_witness:
  "\<exists>ws. insert_query pipe_demo ''a'' (snd (flush pipe_demo (pipe_scope, failed_pipe))) = (Inr (Some 2), ws) \<and>
     retrieve_id pipe_demo 2 ws = (Inl earlier_error, ws)"
proof -
  have f: "flush pipe_demo (pipe_scope, failed_pipe) = (Inr (Some ()), (pipe_scope, failed_pipe))"
    by (simp add: flush_def failed_pipe_def detach_def bindO_def retA_def)
  obtain w p where i: "insert_query pipe_demo ''a'' (pipe_scope, failed_pipe) = (Inr (Some 2), (w, p))"
    by (simp add: insert_query_def failed_pipe_def attach_def register_me_def bindO_def on_scope_def register_focus_def bindA_def liftR_def
        check_unique_register_def pipe_scope_def new_transaction_def retA_def modify_def generate_id_def qid_limit_def enqueue_eq
        have_pending_def issue_def obtain_result_def)
  have "m_error failed_pipe \<le> m_q_id failed_pipe + 1" by (simp add: failed_pipe_def)
  from flush_keeps_error [OF this f i] f i show ?thesis by auto
qed

section \<open>A failed batch whose queries succeed\<close>

text \<open>The queries succeed when they are executed one by one, and nothing is left to be read afterwards.\<close>

primrec replays :: "'s async_libpq \<Rightarrow> string list \<Rightarrow> 's scope \<Rightarrow> bool" where
  "replays Q [] w \<longleftrightarrow> fst (PQgetResult (cp Q) (m_conn (cn w)) (srv w)) = None"
| "replays Q (q # qs) w \<longleftrightarrow>
     (case tx_exec (pq (cp Q)) q w of (Inl e, w) \<Rightarrow> False | (Inr d, w) \<Rightarrow> status_error d = Inr [] \<and> replays Q qs w)"

lemma replay_loop_all:
  "map_ok (D @ P) \<Longrightarrow> P \<noteq> [] \<Longrightarrow> m_queries p = D @ P \<Longrightarrow> issued_first p = map_begin P \<Longrightarrow> replays Q (map (\<lambda>e. query (snd e)) P) w \<Longrightarrow>
   \<exists>w' p'. replay_loop Q None (w, p) = (Inr (Some ()), (w', p')) \<and> issued_first p' = None \<and>
     issued_second p' = issued_second p \<and> replays Q [] w'"
proof (induction P arbitrary: D w p)
  case (Cons e P)
  from Cons.prems have ok: "map_ok (D @ e # P)" and m: "m_queries p = D @ e # P" and f: "issued_first p = Some (fst e)"
    by (simp_all add: map_begin_def)
  from Cons.prems(5) obtain d w1 where x: "tx_exec (pq (cp Q)) (query (snd e)) w = (Inr d, w1)" "status_error d = Inr []"
    and r: "replays Q (map (\<lambda>e. query (snd e)) P) w1" by (auto split: prod.splits sum.splits)
  let ?r = "\<lparr>r_data = Some d, r_query = query (snd e)\<rparr>"
  let ?e = "(fst e, (snd e)\<lparr>q_res := ?r\<rparr>)"
  let ?p = "p\<lparr>m_num_waiting := m_num_waiting p - 1, m_queries := D @ ?e # P, issued_first := map_begin P\<rparr>"
  have st: "result_check_status ?r = Inr ()" using x(2) by (simp add: result_check_status_def check_status_def)
  have step: "replay_loop Q None (w, p) = (if map_begin P \<noteq> None then replay_loop Q None (w1, ?p) else (Inr (Some ()), (w1, ?p)))"
    using deref_split [OF ok] iter_next_split [OF ok] set_result_split [OF ok, of ?r] x(1) st
    by (simp add: replay_loop.simps [of Q None w p] m f Let_def)
  show ?case
  proof (cases P)
    case Nil
    with step r show ?thesis by (auto simp: map_begin_def)
  next
    case (Cons y ys)
    have "map fst (D @ ?e # P) = map fst (D @ e # P)" by simp
    then have "map_ok ((D @ [?e]) @ P)" using ok by (simp add: map_ok_def)
    from Cons.IH [OF this, of ?p w1] r Cons step show ?thesis by (simp add: map_begin_def)
  qed
qed simp

lemma fold_set_result_split:
  "map_ok (D @ P) \<Longrightarrow> fold (\<lambda>e. set_result (fst e) R) P (D @ P) = D @ map (\<lambda>e. (fst e, (snd e)\<lparr>q_res := R\<rparr>)) P"
proof (induction P arbitrary: D)
  case (Cons e P)
  let ?e = "(fst e, (snd e)\<lparr>q_res := R\<rparr>)"
  have "map fst (D @ ?e # P) = map fst (D @ e # P)" by simp
  then have "map_ok ((D @ [?e]) @ P)" using Cons.prems by (simp add: map_ok_def)
  from Cons.IH [OF this] set_result_split [OF Cons.prems, of R] show ?case by simp
qed simp

text \<open>
  C32. The replay of a failed batch breaks the pipeline when it succeeds.  Let the last query of the pipeline be part of
  the batch in progress (no query waits behind it), and let the batch fail as a whole with an SQL error, for instance
  because a cancellation arrived late, and nothing follow the error.  If the queries of the batch then succeed when they
  are replayed one by one, the step of receiving that found the failure ends in undefined behaviour: it takes the
  replayed queries for pending ones and reads through the end of the map.
\<close>

theorem replay_success_breaks:
  assumes "map_ok (D @ P)" "P \<noteq> []" "int (length P) \<le> INT_MAX"
    and "m_queries p = D @ P" "issued_first p = map_begin P" "issued_second p = None" "m_dummy_pending p"
    and "PQgetResult (cp Q) (m_conn (cn w)) (srv w) = (Some d, s)" "check_status [] d = Inl e" "is_sql_error e"
    and "PQgetResult (cp Q) (m_conn (cn w)) s = (None, s')"
    and "replays Q (map (\<lambda>e. query (snd e)) P) (unregister_focus (m_guest p) (w\<lparr>srv := s'\<rparr>))"
  shows "\<exists>ws. receive Q stop (w, p) = (Inr None, ws)"
proof -
  let ?R = "\<lparr>r_data = Some d, r_query = ''[DUMMY PIPELINE QUERY]''\<rparr>"
  let ?P = "map (\<lambda>e. (fst e, (snd e)\<lparr>q_res := ?R\<rparr>)) P"
  let ?p1 = "p\<lparr>m_dummy_pending := False\<rparr>" and ?p2 = "p\<lparr>m_dummy_pending := False, m_queries := D @ ?P\<rparr>"
  let ?p3 = "p\<lparr>m_dummy_pending := False, m_queries := D @ ?P, m_num_waiting := m_num_waiting p + int (length P),
    issued_second := map_begin P, m_reg := False\<rparr>" and ?w3 = "unregister_focus (m_guest p) (w\<lparr>srv := s'\<rparr>)"
  have keys: "map_begin ?P = map_begin P" by (cases P) (simp_all add: map_begin_def)
  have "map fst (D @ ?P) = map fst (D @ P)" by simp
  then have ok: "map_ok (D @ ?P)" using assms(1) by (simp only: map_ok_def)
  have rep: "replays Q (map (\<lambda>e. query (snd e)) ?P) ?w3" using assms(12) by (simp add: o_def)
  from replay_loop_all [OF ok _ _ _ rep, of ?p3] assms(2,5) keys obtain w4 p4 where
    4: "replay_loop Q None (?w3, ?p3) = (Inr (Some ()), (w4, p4))" "issued_first p4 = None" "issued_second p4 = map_begin P"
      "replays Q [] w4" by auto
  have es: "entries_between (D @ P) (map_begin P) None = Some P" "entries_between (D @ ?P) (map_begin P) None = Some ?P"
    using entries_waiting [OF assms(1,2)] entries_waiting [OF ok] assms(2) keys by simp_all
  have "obtain_result Q True (w\<lparr>srv := s\<rparr>, ?p2) = (Inr (Some False), (w\<lparr>srv := s'\<rparr>, ?p2))"
    using assms(11) by (simp add: obtain_result_def)
  moreover have "fold (\<lambda>e. set_result (fst e) ?R) P (m_queries ?p1) = D @ ?P"
    using fold_set_result_split [OF assms(1), of ?R] assms(4) by simp
  moreover have "replay Q None (?w3, ?p3) = (Inr (Some ()), (w4, p4))" using 4(1) by (simp add: replay_def catchA_def)
  ultimately have b: "batch_failed Q ?R (w\<lparr>srv := s\<rparr>, ?p1) = (Inr (Some ()), (w4, p4))"
    using assms(3-6) es by (simp add: batch_failed_def Let_def bindO_def unregister_me_def)
  have "obtain_dummy Q (w, p) = (Inr (Some ()), (w4, p4))"
    using b assms(8-10) by (simp add: obtain_dummy_def Let_def result_check_status_def)
  moreover have "map_begin P \<noteq> None" using assms(2) by (cases P) (simp_all add: map_begin_def)
  then have "\<exists>ws. recv_loop Q stop (w4, p4) = (Inr None, ws)"
    using 4(2-4) by (auto simp: recv_loop.simps [of Q stop w4 p4] obtain_result_def have_pending_def deref_def split: prod.split option.split)
  ultimately show ?thesis using assms(7) by (auto simp: receive_def bindO_def)
qed

definition cancelled_result :: pgresult where
  "cancelled_result = \<lparr>res_status = PGRES_FATAL_ERROR, res_message = ''canceling statement due to user request'',
     res_sqlstate = Some ''57014'', res_columns = 0, res_rows = []\<rparr>"

definition batch_pipe :: pipeline where
  "batch_pipe = \<lparr>m_guest = (5, ''pipeline'', ''p''), m_reg = True, m_queries = [(1, new_Query ''a''), (2, new_Query ''b'')],
     issued_first = Some 1, issued_second = None, m_retain = 0, m_num_waiting = 0, m_q_id = 2, m_dummy_pending = True,
     m_error = qid_limit\<rparr>"

definition batch_scope :: "pipe_demo scope" where
  "batch_scope = pipe_scope\<lparr>srv := \<lparr>demo_db = [], demo_out = Some [cancelled_result]\<rparr>,
     tx := (tx pipe_scope)\<lparr>m_focus := Some (m_guest batch_pipe)\<rparr>\<rparr>"

lemma demo_conn_exec:
  "conn_exec (pq (cp pipe_demo)) q t w = (Inr (fst (demo_run q (demo_db (srv w)))),
    w\<lparr>srv := (srv w)\<lparr>demo_db := snd (demo_run q (demo_db (srv w))), demo_out := None\<rparr>\<rparr>)"
proof -
  let ?L = "pq (cp pipe_demo)" and ?r = "fst (demo_run q (demo_db (srv w)))"
  let ?w = "w\<lparr>srv := (srv w)\<lparr>demo_db := snd (demo_run q (demo_db (srv w))), demo_out := None\<rparr>\<rparr>"
  have st: "status_error ?r = Inr []" by (simp add: demo_run_def demo_status)
  have "encoding_id ?L v = (Inr 6, v)" "pg_encoding_to_char ?L 6 = ''UTF8''" for v
    by (simp_all add: encoding_id_def retA_def pipe_demo_def pipe_demo_copy_def pipe_demo_pq_def)
  then have "make_result ?L (Some ?r) t ?w = (Inr ?r, ?w)"
    using st by (simp add: make_result_def bindA_def liftR_def enc_group_def enc_group_names_def check_status_def)
  moreover have "get_notifs ?L ?w = (Inr (), ?w)"
    by (simp add: get_notifs_def retA_def) (simp add: pipe_demo_def pipe_demo_copy_def pipe_demo_pq_def)
  moreover have "PQexec ?L c q (srv w) = (Some ?r, srv ?w)" for c
    by (simp add: pipe_demo_def pipe_demo_copy_def pipe_demo_pq_def case_prod_beta)
  ultimately show ?thesis by (simp add: conn_exec_def bindA_def retA_def)
qed

lemma demo_exec:
  assumes "m_pending_error (tx w) = []" "m_focus (tx w) = None" "m_status (tx w) = Active"
  shows "tx_exec (pq (cp pipe_demo)) q w = (Inr (fst (demo_run q (demo_db (srv w)))),
    w\<lparr>srv := (srv w)\<lparr>demo_db := snd (demo_run q (demo_db (srv w))), demo_out := None\<rparr>\<rparr>)"
  using assms by (simp add: tx_exec_def bindA_def check_pending_error_def with_command_def register_focus_def
      check_unique_register_def liftR_def retA_def finallyA_def direct_exec_def demo_conn_exec
      unregister_focus_def check_unique_unregister_def)

lemma replay_success_breaks_witness:
  "\<exists>ws. receive pipe_demo None (batch_scope, batch_pipe) = (Inr None, ws)"
proof -
  let ?P = "m_queries batch_pipe" and ?s = "\<lparr>demo_db = [], demo_out = Some []\<rparr>" and ?s' = "\<lparr>demo_db = [], demo_out = None\<rparr>"
  have ok: "map_ok ([] @ ?P)" "?P \<noteq> []" "int (length ?P) \<le> INT_MAX" "m_queries batch_pipe = [] @ ?P"
    "issued_first batch_pipe = map_begin ?P" "issued_second batch_pipe = None" "m_dummy_pending batch_pipe"
    by (simp_all add: batch_pipe_def map_ok_def INT_MAX_def map_begin_def)
  have got: "PQgetResult (cp pipe_demo) (m_conn (cn batch_scope)) (srv batch_scope) = (Some cancelled_result, ?s)"
    "PQgetResult (cp pipe_demo) (m_conn (cn batch_scope)) ?s = (None, ?s')"
    by (simp_all add: batch_scope_def)
  have err: "check_status [] cancelled_result =
      Inl (Pqxx_sql_error ''sql_error'' ''canceling statement due to user request'')"
    by (simp add: check_status_def cancelled_result_def status_error_def throw_sql_error_def Let_def)
  let ?w = "unregister_focus (m_guest batch_pipe) (batch_scope\<lparr>srv := ?s'\<rparr>)"
  have w: "m_pending_error (tx ?w) = []" "m_focus (tx ?w) = None" "m_status (tx ?w) = Active"
    by (simp_all add: unregister_focus_def check_unique_unregister_def batch_scope_def batch_pipe_def pipe_scope_def new_transaction_def)
  have "map (\<lambda>e. query (snd e)) ?P = [''a'', ''b'']" by (simp add: batch_pipe_def new_Query_def)
  moreover have "status_error (fst (demo_run q d)) = Inr []" for q d by (simp add: demo_run_def demo_status)
  ultimately have rep: "replays pipe_demo (map (\<lambda>e. query (snd e)) ?P) ?w"
    by (simp add: demo_exec w)
  show ?thesis by (rule replay_success_breaks [OF ok got(1) err _ got(2) rep]) simp
qed

section \<open>After a cancellation\<close>

lemma cancel_done:
  assumes "cancel Q (w, p) = (Inr (Some ()), (w', p'))"
  shows "\<not> have_pending p' \<and> m_reg p' = m_reg p \<and> m_retain p' = m_retain p \<and> m_num_waiting p' = m_num_waiting p \<and>
    m_q_id p' = m_q_id p \<and> m_error p' = m_error p \<and> m_dummy_pending p' = m_dummy_pending p"
  using assms
proof (induction Q "(w, p)" arbitrary: w p rule: cancel.induct)
  case (1 Q w p)
  show ?case
  proof (cases "have_pending p")
    case True
    obtain r w1 where c: "cancel_query Q w = (r, w1)" by force
    with "1.prems" True obtain x e where r: "r = Inr x" "deref (m_queries p) (issued_first p) = Some e"
      by (auto simp: cancel.simps [of Q w p] split: sum.splits option.splits)
    let ?p = "p\<lparr>issued_first := iter_next (m_queries p) (fst e), m_queries := map_erase (fst e) (m_queries p)\<rparr>"
    have l: "cancel Q (w1, ?p) = (Inr (Some ()), (w', p'))"
      using "1.prems" True c r by (simp add: cancel.simps [of Q w p])
    from "1.hyps" [OF True c [symmetric] r(1) r(2) l] show ?thesis by simp
  next
    case False
    with "1.prems" show ?thesis by (simp add: cancel.simps [of Q w p])
  qed
qed

text \<open>
  A cancelled pipeline cannot be used again.  \<open>cancel\<close> takes the pending queries out of the pipeline but not their
  results off the connection, where libpq still delivers them.  The next query that is sent meets the first of these,
  and the insertion throws; the point of error is then at the oldest query, so that no result can be had any more.
\<close>

theorem cancel_breaks_insert:
  assumes "cancel Q (w, p) = (Inr (Some ()), (w1, p1))" "m_reg p" "m_q_id p \<noteq> qid_limit" "m_retain p \<le> m_num_waiting p"
    and "PQgetResult (cp Q) (m_conn (cn w1)) (srv w1) = (Some r, s)"
  shows "\<exists>w2 p2. insert_query Q q (w1, p1) = (Inl (Logic_error ''Got more results from pipeline than there were queries.''), (w2, p2)) \<and>
    m_error p2 \<le> fst (hd (m_queries p2))"
proof -
  let ?k = "m_q_id p + 1"
  note c = cancel_done [OF assms(1)]
  define p2 where "p2 = enqueue ?k q (p1\<lparr>m_q_id := ?k\<rparr>)"
  have a: "attach (w1, p1) = (Inr (Some ()), (w1, p1))" using c assms(2) by (simp add: attach_def)
  have g: "generate_id (w1, p1) = (Inr (Some ?k), (w1, p1\<lparr>m_q_id := ?k\<rparr>))" using c assms(3) by (simp add: generate_id_def)
  have m: "modify (enqueue ?k q) (w1, p1\<lparr>m_q_id := ?k\<rparr>) = (Inr (Some ()), (w1, p2))" by (simp add: modify_def p2_def)
  have np: "\<not> have_pending p2" using c by (auto simp: p2_def enqueue_eq have_pending_def)
  have wait: "m_num_waiting p2 > m_retain p2" using c assms(4) by (simp add: p2_def enqueue_eq)
  have "?k \<in> fst ` set (m_queries p2)" by (simp add: p2_def enqueue_eq fst_set_map_put)
  then obtain e es where es: "m_queries p2 = e # es" by (cases "m_queries p2") auto
  let ?err = "Logic_error ''Got more results from pipeline than there were queries.''"
  have o: "obtain_result Q False (w1, p2) = (Inl ?err, (w1\<lparr>srv := s\<rparr>, set_error_at (fst e) p2))"
    using assms(5) np es by (simp add: obtain_result_def)
  then have i: "issue Q (w1, p2) = (Inl ?err, (w1\<lparr>srv := s\<rparr>, set_error_at (fst e) p2))"
    unfolding issue_def by (rule bindO_Inl)
  have "insert_query Q q (w1, p1) = (Inl ?err, (w1\<lparr>srv := s\<rparr>, set_error_at (fst e) p2))"
    unfolding insert_query_def bindO_Some [where m = attach, OF a] bindO_Some [where m = generate_id, OF g]
      bindO_Some [where m = "modify (enqueue ?k q)", OF m]
    using wait np i by (simp add: bindO_def retA_def)
  moreover have "m_error (set_error_at (fst e) p2) \<le> fst (hd (m_queries (set_error_at (fst e) p2)))"
    using es by (simp add: set_error_at_def)
  ultimately show ?thesis by blast
qed

lemma cancel_breaks_insert_witness:
  "\<exists>w2 p2. insert_query pipe_demo ''c'' (snd (cancel pipe_demo (batch_scope, batch_pipe))) =
     (Inl (Logic_error ''Got more results from pipeline than there were queries.''), (w2, p2)) \<and>
     m_error p2 \<le> fst (hd (m_queries p2))"
proof -
  let ?p = "batch_pipe\<lparr>issued_first := None, m_queries := []\<rparr>"
  have q: "cancel_query pipe_demo w = (Inr (), w)" for w by (simp add: cancel_query_def pipe_demo_def retA_def)
  have c: "cancel pipe_demo (batch_scope, batch_pipe) = (Inr (Some ()), (batch_scope, ?p))"
    by (simp add: cancel.simps q have_pending_def batch_pipe_def deref_def iter_next_def map_begin_def map_erase_def)
  have h: "m_reg batch_pipe" "m_q_id batch_pipe \<noteq> qid_limit" "m_retain batch_pipe \<le> m_num_waiting batch_pipe"
    by (simp_all add: batch_pipe_def qid_limit_def)
  have r: "PQgetResult (cp pipe_demo) (m_conn (cn batch_scope)) (srv batch_scope) = (Some cancelled_result, \<lparr>demo_db = [], demo_out = Some []\<rparr>)"
    by (simp add: batch_scope_def)
  from cancel_breaks_insert [OF c h r, of "''c''"] c show ?thesis by simp
qed

section \<open>The text of a result\<close>

text \<open>
  The result of a query is labelled with the text of the oldest query in the pipeline, not with its own: here the
  second of two queries is asked for, and its result claims to be from the first.
\<close>

lemma result_mislabelled:
  "\<exists>ws. retrieve_id pipe_demo 2
      (batch_scope\<lparr>srv := \<lparr>demo_db = [''a'', ''b''], demo_out = Some [one_value ''1'', one_value ''0'', one_value ''1'']\<rparr>\<rparr>, batch_pipe) =
    (Inr (Some \<lparr>r_data = Some (one_value ''1''), r_query = ''a''\<rparr>), ws)"
proof -
  have d: "dummy_value (one_value ''1'') = Inr ''1''" "length (res_rows (one_value ''1'')) = 1"
    by (simp_all add: dummy_value_def one_value_def field_as_def)
  have st: "result_check_status \<lparr>r_data = Some (one_value v), r_query = t\<rparr> = Inr ()" for v t
    by (simp add: result_check_status_def check_status_def demo_status)
  show ?thesis
    by (simp add: retrieve_id_def retrieve_at_def retrieve_issue_def retrieve_receive_def receive_def bindO_def batch_pipe_def
        batch_scope_def pipe_scope_def qid_limit_def have_pending_def deref_def iter_next_def map_begin_def obtain_dummy_def
        check_dummy_def d st on_scope_def liftR_def retA_def theDummyValue_def recv_loop.simps obtain_result_def set_result_def
        new_Query_def result_empty_def get_further_available_results_def further_loop.simps is_busy_def
        Let_def pipe_demo_def [THEN arg_cong, of PQisBusy])
qed

end
