(* ===== verification/Pqxx_Range.thy ===== *)
theory Pqxx_Range
  imports Pqxx_Date Pqxx_Composite
begin

text \<open>
  \<open>pqxx::range\<close> (\<open>include/pqxx/range.hxx\<close>): the values between two bounds, each of which may be missing, belong to the
  range or not.  The type of the values is a linear order with its conversions, its null, its value-initialised object
  and what \<open>internal::concat\<close> makes of a value in a message.
\<close>

section \<open>Bounds\<close>

record 'e value_type = "'e field_type" +
  is_null :: "'e \<Rightarrow> bool"
  value_init :: 'e
  shown :: "'e \<Rightarrow> string"

datatype 'e range_bound = No_bound | Inclusive 'e | Exclusive 'e

definition inclusive_bound :: "('e, 'z) value_type_scheme \<Rightarrow> 'e \<Rightarrow> 'e range_bound res" where
  "inclusive_bound V v =
     (if is_null V v then Inl (Pqxx_argument_error ''Got null value as an inclusive range bound.'') else Inr (Inclusive v))"

definition exclusive_bound :: "('e, 'z) value_type_scheme \<Rightarrow> 'e \<Rightarrow> 'e range_bound res" where
  "exclusive_bound V v =
     (if is_null V v then Inl (Pqxx_argument_error ''Got null value as an exclusive range bound.'') else Inr (Exclusive v))"

text \<open>\<open>value()\<close>; \<open>None\<close> is the null pointer.\<close>

fun bound_value :: "'e range_bound \<Rightarrow> 'e option" where
  "bound_value No_bound = None"
| "bound_value (Inclusive v) = Some v"
| "bound_value (Exclusive v) = Some v"

fun is_limited :: "'e range_bound \<Rightarrow> bool" where
  "is_limited No_bound = False"
| "is_limited _ = True"

fun is_inclusive :: "'e range_bound \<Rightarrow> bool" where
  "is_inclusive (Inclusive _) = True"
| "is_inclusive _ = False"

fun is_exclusive :: "'e range_bound \<Rightarrow> bool" where
  "is_exclusive (Exclusive _) = True"
| "is_exclusive _ = False"

fun extends_down_to :: "'e::linorder range_bound \<Rightarrow> 'e \<Rightarrow> bool" where
  "extends_down_to No_bound x = True"
| "extends_down_to (Inclusive v) x = (\<not> x < v)"
| "extends_down_to (Exclusive v) x = (v < x)"

fun extends_up_to :: "'e::linorder range_bound \<Rightarrow> 'e \<Rightarrow> bool" where
  "extends_up_to No_bound x = True"
| "extends_up_to (Inclusive v) x = (\<not> v < x)"
| "extends_up_to (Exclusive v) x = (x < v)"

definition bound_eq :: "'e range_bound \<Rightarrow> 'e range_bound \<Rightarrow> bool" where
  "bound_eq a b =
     (if is_limited a then is_limited b \<and> is_inclusive a = is_inclusive b \<and> bound_value a = bound_value b
      else \<not> is_limited b)"

text \<open>\<open>*a.value() < *b.value()\<close>, asked only of limited bounds.\<close>

definition value_less :: "'e::linorder range_bound \<Rightarrow> 'e range_bound \<Rightarrow> bool" where
  "value_less a b = (case (bound_value a, bound_value b) of (Some x, Some y) \<Rightarrow> x < y | _ \<Rightarrow> False)"

section \<open>Ranges\<close>

record 'e pg_range =
  m_lower :: "'e range_bound"
  m_upper :: "'e range_bound"

definition bounds_crossed :: "'e::linorder range_bound \<Rightarrow> 'e range_bound \<Rightarrow> bool" where
  "bounds_crossed lower upper = (is_limited lower \<and> is_limited upper \<and> value_less upper lower)"

definition shown_bound :: "('e, 'z) value_type_scheme \<Rightarrow> 'e range_bound \<Rightarrow> string" where
  "shown_bound V b = (case bound_value b of None \<Rightarrow> [] | Some v \<Rightarrow> shown V v)"

definition new_range :: "('e::linorder, 'z) value_type_scheme \<Rightarrow> 'e range_bound \<Rightarrow> 'e range_bound \<Rightarrow> 'e pg_range res" where
  "new_range V lower upper =
     (if bounds_crossed lower upper then
        Inl (Pqxx_range_error (''Range'' @ CHR 0x27 # ''s lower bound ('' @ shown_bound V lower @
          '') is greater than its upper bound ('' @ shown_bound V upper @ '').''))
      else Inr \<lparr>m_lower = lower, m_upper = upper\<rparr>)"

definition empty_range :: "('e, 'z) value_type_scheme \<Rightarrow> 'e pg_range res" where
  "empty_range V =
     bindR (exclusive_bound V (value_init V)) (\<lambda>lower.
     bindR (exclusive_bound V (value_init V)) (\<lambda>upper. Inr \<lparr>m_lower = lower, m_upper = upper\<rparr>))"

definition range_empty :: "'e::linorder pg_range \<Rightarrow> bool" where
  "range_empty r \<longleftrightarrow>
     (is_exclusive (m_lower r) \<or> is_exclusive (m_upper r)) \<and> is_limited (m_lower r) \<and> is_limited (m_upper r) \<and>
     \<not> value_less (m_lower r) (m_upper r)"

definition range_eq :: "'e::linorder pg_range \<Rightarrow> 'e pg_range \<Rightarrow> bool" where
  "range_eq r s \<longleftrightarrow>
     (bound_eq (m_lower r) (m_lower s) \<and> bound_eq (m_upper r) (m_upper s)) \<or> (range_empty r \<and> range_empty s)"

definition range_contains :: "'e::linorder pg_range \<Rightarrow> 'e \<Rightarrow> bool" where
  "range_contains r x \<longleftrightarrow> extends_down_to (m_lower r) x \<and> extends_up_to (m_upper r) x"

definition lower_and :: "'e::linorder range_bound \<Rightarrow> 'e range_bound \<Rightarrow> 'e range_bound" where
  "lower_and a b =
     (if \<not> is_limited a then b
      else if \<not> is_limited b then a
      else if value_less a b then b
      else if value_less b a then a
      else if is_exclusive a then a
      else b)"

definition upper_and :: "'e::linorder range_bound \<Rightarrow> 'e range_bound \<Rightarrow> 'e range_bound" where
  "upper_and a b =
     (if \<not> is_limited a then b
      else if \<not> is_limited b then a
      else if value_less b a then b
      else if value_less a b then a
      else if is_exclusive a then a
      else b)"

definition range_and :: "('e::linorder, 'z) value_type_scheme \<Rightarrow> 'e pg_range \<Rightarrow> 'e pg_range \<Rightarrow> 'e pg_range res" where
  "range_and V r s =
     (let lower = lower_and (m_lower r) (m_lower s); upper = upper_and (m_upper r) (m_upper s) in
      if bounds_crossed lower upper then empty_range V else new_range V lower upper)"

definition contains_range :: "('e::linorder, 'z) value_type_scheme \<Rightarrow> 'e pg_range \<Rightarrow> 'e pg_range \<Rightarrow> bool res" where
  "contains_range V r s = bindR (range_and V r s) (\<lambda>t. Inr (range_eq t s))"

text \<open>The conversion to a range over another type, by a conversion of values.\<close>

fun convert_bound :: "('d, 'z) value_type_scheme \<Rightarrow> ('e \<Rightarrow> 'd) \<Rightarrow> 'e range_bound \<Rightarrow> 'd range_bound res" where
  "convert_bound W f No_bound = Inr No_bound"
| "convert_bound W f (Inclusive v) = inclusive_bound W (f v)"
| "convert_bound W f (Exclusive v) = exclusive_bound W (f v)"

definition convert_range :: "('d::linorder, 'z) value_type_scheme \<Rightarrow> ('e \<Rightarrow> 'd) \<Rightarrow> 'e pg_range \<Rightarrow> 'd pg_range res" where
  "convert_range W f r =
     bindR (convert_bound W f (m_lower r)) (\<lambda>lower.
     bindR (convert_bound W f (m_upper r)) (\<lambda>upper. new_range W lower upper))"

section \<open>Text\<close>

definition s_empty :: string where
  "s_empty = ''empty''"

definition s_overrun :: string where
  "s_overrun = ''Not enough space in buffer for range.''"

definition err_bad_input :: "string \<Rightarrow> string" where
  "err_bad_input text = ''Invalid range input: '' @ quoted_name text"

definition bound_size :: "('e, 'z) value_type_scheme \<Rightarrow> 'e range_bound \<Rightarrow> nat" where
  "bound_size V b = (case bound_value b of None \<Rightarrow> 0 | Some v \<Rightarrow> sz_sub (size_buffer V v) 1)"

definition range_size_buffer :: "('e::linorder, 'z) value_type_scheme \<Rightarrow> 'e pg_range \<Rightarrow> nat" where
  "range_size_buffer V r =
     (if range_empty r then length s_empty + 1 else 1 + bound_size V (m_lower r) + 1 + bound_size V (m_upper r) + 2)"

text \<open>A bound is converted in place; its zero byte is overwritten.\<close>

definition put_bound :: "('e, 'z) value_type_scheme \<Rightarrow> string \<Rightarrow> nat \<Rightarrow> 'e range_bound \<Rightarrow> (string \<times> nat) ub_res" where
  "put_bound V buf here b =
     (case bound_value b of
        None \<Rightarrow> Inr (Some (buf, here))
      | Some v \<Rightarrow> bindU (into_buf V buf here v) (\<lambda>(buf, en). Inr (Some (buf, en - 1))))"

definition range_into_buf :: "('e::linorder, 'z) value_type_scheme \<Rightarrow> string \<Rightarrow> nat \<Rightarrow> 'e pg_range \<Rightarrow> (string \<times> nat) ub_res" where
  "range_into_buf V buf begin r =
     (if range_empty r then
        (if length buf - begin \<le> length s_empty then okU (Inl (Pqxx_conversion_overrun s_overrun))
         else bindU (copy_to buf begin s_empty) (\<lambda>(buf, here). put_next buf here CHR 0x00))
      else if length buf - begin < 4 then okU (Inl (Pqxx_conversion_overrun s_overrun))
      else
        bindU (put_next buf begin (if is_inclusive (m_lower r) then CHR ''['' else CHR ''('')) (\<lambda>(buf, here).
        bindU (put_bound V buf here (m_lower r)) (\<lambda>(buf, here).
        bindU (put_next buf here CHR '','') (\<lambda>(buf, here).
        bindU (put_bound V buf here (m_upper r)) (\<lambda>(buf, here).
        if length buf - here < 2 then okU (Inl (Pqxx_conversion_overrun s_overrun))
        else
          bindU (put_next buf here (if is_inclusive (m_upper r) then CHR '']'' else CHR '')'')) (\<lambda>(buf, here).
          put_next buf here CHR 0x00))))))"

text \<open>\<open>string_traits<std::optional<T>>\<close>, as far as fields are read with it.\<close>

definition optional_type :: "('e, 'z) field_type_scheme \<Rightarrow> 'e option element_type" where
  "optional_type T = \<lparr>from_string = (\<lambda>s. bindR (from_string T s) (\<lambda>v. Inr (Some v))), null_value = Some None,
     type_name = ''std::optional<'' @ type_name T @ ''>''\<rparr>"

definition read_bound :: "('e, 'z) value_type_scheme \<Rightarrow> bool \<Rightarrow> 'e option \<Rightarrow> 'e range_bound res" where
  "read_bound V inc v =
     (case v of None \<Rightarrow> Inr No_bound | Some v \<Rightarrow> if inc then inclusive_bound V v else exclusive_bound V v)"

definition range_from_string :: "('e::linorder, 'z) value_type_scheme \<Rightarrow> string \<Rightarrow> 'e pg_range ub_res" where
  "range_from_string V text =
     (if length text < 3 then okU (conversion_error (err_bad_input text))
      else if hd text \<in> set ''eE'' then
        (if length text \<noteq> length s_empty \<or> text ! 1 \<notin> set ''mM'' \<or> text ! 2 \<notin> set ''pP'' \<or> text ! 3 \<notin> set ''tT'' \<or>
            text ! 4 \<notin> set ''yY'' then okU (conversion_error (err_bad_input text))
         else okU (empty_range V))
      else if hd text \<notin> set ''[('' then okU (conversion_error (err_bad_input text))
      else
        let left_inc = (hd text = CHR ''[''); field_parser = (\<lambda>index pos. parse_composite_field UTF8 index text pos (optional_type V) 1) in
        bindU (field_parser 0 1) (\<lambda>(pos, lower).
        bindU (field_parser 1 pos) (\<lambda>(pos, upper).
        if pos \<noteq> length text then okU (conversion_error (err_bad_input text))
        else
          let closing = text ! (pos - 1) in
          if closing \<noteq> CHR '')'' \<and> closing \<noteq> CHR '']'' then okU (conversion_error (err_bad_input text))
          else
            okU (bindR (read_bound V left_inc lower) (\<lambda>lower_bound.
                 bindR (read_bound V (closing = CHR '']'') upper) (\<lambda>upper_bound.
                 new_range V lower_bound upper_bound))))))"

section \<open>Sets of values\<close>

text \<open>A range its constructors make: bounds in order and without nulls.\<close>

definition range_ok :: "('e::linorder, 'z) value_type_scheme \<Rightarrow> 'e pg_range \<Rightarrow> bool" where
  "range_ok V r \<longleftrightarrow> \<not> bounds_crossed (m_lower r) (m_upper r) \<and>
     (\<forall>v. bound_value (m_lower r) = Some v \<or> bound_value (m_upper r) = Some v \<longrightarrow> \<not> is_null V v)"

lemma bound_eq_iff: "bound_eq a b \<longleftrightarrow> a = b"
  by (cases a; cases b) (auto simp: bound_eq_def)

lemma bound_eq_refl [simp]: "bound_eq a a"
  by (simp add: bound_eq_iff)

lemmas bound_defs = bounds_crossed_def value_less_def

lemma extends_lower_and: "extends_down_to (lower_and a b) x \<longleftrightarrow> extends_down_to a x \<and> extends_down_to b x"
  by (cases a; cases b) (auto simp: lower_and_def value_less_def)

lemma extends_upper_and: "extends_up_to (upper_and a b) x \<longleftrightarrow> extends_up_to a x \<and> extends_up_to b x"
  by (cases a; cases b) (auto simp: upper_and_def value_less_def)

lemma lower_and_choice: "lower_and a b = a \<or> lower_and a b = b"
  by (simp add: lower_and_def)

lemma upper_and_choice: "upper_and a b = a \<or> upper_and a b = b"
  by (simp add: upper_and_def)

lemma crossed_no_value: "bounds_crossed lower upper \<Longrightarrow> \<not> (extends_down_to lower x \<and> extends_up_to upper x)"
  by (cases lower; cases upper) (auto simp: bound_defs)

lemma empty_no_value: "range_empty r \<Longrightarrow> \<not> range_contains r x"
  by (cases "m_lower r"; cases "m_upper r") (auto simp: range_empty_def range_contains_def value_less_def)

lemma range_eq_contains: "range_eq r s \<Longrightarrow> range_contains r x = range_contains s x"
  using empty_no_value [of r x] empty_no_value [of s x] by (auto simp: range_eq_def bound_eq_iff range_contains_def)

lemma empty_range_ok:
  assumes "\<not> is_null V (value_init V)"
  shows "\<exists>r. empty_range V = Inr r \<and> range_ok V r \<and> range_empty r"
  using assms by (simp add: empty_range_def exclusive_bound_def range_ok_def range_empty_def bound_defs)

lemma range_and_cases:
  assumes "range_ok V r" "range_ok V s" "\<not> is_null V (value_init V)"
  obtains t where "range_and V r s = Inr t" "range_ok V t"
    "bounds_crossed (lower_and (m_lower r) (m_lower s)) (upper_and (m_upper r) (m_upper s)) \<Longrightarrow> range_empty t"
    "\<not> bounds_crossed (lower_and (m_lower r) (m_lower s)) (upper_and (m_upper r) (m_upper s)) \<Longrightarrow>
      t = \<lparr>m_lower = lower_and (m_lower r) (m_lower s), m_upper = upper_and (m_upper r) (m_upper s)\<rparr>"
proof (cases "bounds_crossed (lower_and (m_lower r) (m_lower s)) (upper_and (m_upper r) (m_upper s))")
  case True
  with empty_range_ok [OF assms(3)] show thesis by (auto simp: range_and_def intro: that)
next
  case False
  have "range_ok V \<lparr>m_lower = lower_and (m_lower r) (m_lower s), m_upper = upper_and (m_upper r) (m_upper s)\<rparr>"
    using assms(1,2) False lower_and_choice [of "m_lower r" "m_lower s"] upper_and_choice [of "m_upper r" "m_upper s"]
    by (auto simp: range_ok_def)
  with False show thesis by (auto simp: range_and_def new_range_def intro: that)
qed

text \<open>
  C24. The intersection of two ranges never throws, is a range again, and holds exactly the values that both of them
  hold.
\<close>

theorem range_and_meet:
  assumes "range_ok V r" "range_ok V s" "\<not> is_null V (value_init V)"
  shows "\<exists>t. range_and V r s = Inr t \<and> range_ok V t \<and>
    (\<forall>x. range_contains t x \<longleftrightarrow> range_contains r x \<and> range_contains s x)"
proof -
  let ?l = "lower_and (m_lower r) (m_lower s)" and ?u = "upper_and (m_upper r) (m_upper s)"
  from range_and_cases [OF assms] obtain t where t: "range_and V r s = Inr t" "range_ok V t"
    "bounds_crossed ?l ?u \<Longrightarrow> range_empty t" "\<not> bounds_crossed ?l ?u \<Longrightarrow> t = \<lparr>m_lower = ?l, m_upper = ?u\<rparr>" by metis
  have both: "range_contains r x \<and> range_contains s x \<longleftrightarrow> extends_down_to ?l x \<and> extends_up_to ?u x" for x
    by (auto simp: range_contains_def extends_lower_and extends_upper_and)
  have "range_contains t x \<longleftrightarrow> range_contains r x \<and> range_contains s x" for x
    using t(3,4) both [of x] crossed_no_value [of ?l ?u x] empty_no_value [of t x]
    by (cases "bounds_crossed ?l ?u") (auto simp: range_contains_def)
  with t(1,2) show ?thesis by blast
qed

text \<open>
  A range is said to contain another one only if it contains all of its values.
\<close>

lemma contains_range_sound:
  assumes "range_ok V r" "range_ok V s" "\<not> is_null V (value_init V)" "contains_range V r s = Inr True" "range_contains s x"
  shows "range_contains r x"
proof -
  let ?l = "lower_and (m_lower r) (m_lower s)" and ?u = "upper_and (m_upper r) (m_upper s)"
  from range_and_cases [OF assms(1-3)] obtain t where t: "range_and V r s = Inr t"
    "bounds_crossed ?l ?u \<Longrightarrow> range_empty t" "\<not> bounds_crossed ?l ?u \<Longrightarrow> t = \<lparr>m_lower = ?l, m_upper = ?u\<rparr>" by metis
  have "range_eq t s" using assms(4) t(1) by (simp add: contains_range_def)
  with assms(5) have "range_contains t x" by (simp add: range_eq_contains)
  with t(2,3) empty_no_value [of t x] show ?thesis
    by (cases "bounds_crossed ?l ?u") (simp_all add: range_contains_def extends_lower_and extends_upper_and)
qed

text \<open>
  In a dense order without ends a range that is not clearly empty has values as near to its bounds as one likes, so
  that the converse holds.
\<close>

lemma near_lower:
  fixes b u :: "'e::{dense_linorder, no_top, no_bot} range_bound"
  assumes "\<not> range_empty \<lparr>m_lower = b, m_upper = u\<rparr>" "\<not> bounds_crossed b u"
    and "\<And>v. bound_value b = Some v \<Longrightarrow> v < c"
  shows "\<exists>x<c. extends_down_to b x \<and> extends_up_to u x"
proof -
  define d where "d = (case bound_value u of None \<Rightarrow> c | Some v \<Rightarrow> min c v)"
  have d: "x < c \<and> extends_up_to u x" if "x < d" for x using that by (cases u) (auto simp: d_def)
  have e: "v < d" if "b = Exclusive v" for v
    using assms that by (cases u) (auto simp: d_def range_empty_def bound_defs)
  show ?thesis
  proof (cases b)
    case No_bound
    from lt_ex [of d] obtain x where "x < d" by blast
    with d [of x] No_bound show ?thesis by auto
  next
    case (Inclusive v)
    with assms have "extends_up_to u v" by (cases u) (auto simp: range_empty_def bound_defs)
    with Inclusive assms(3) show ?thesis by auto
  next
    case (Exclusive v)
    with e dense [of v d] obtain x where "v < x" "x < d" by auto
    with d [of x] Exclusive show ?thesis by auto
  qed
qed

lemma near_upper:
  fixes b l :: "'e::{dense_linorder, no_top, no_bot} range_bound"
  assumes "\<not> range_empty \<lparr>m_lower = l, m_upper = b\<rparr>" "\<not> bounds_crossed l b"
    and "\<And>v. bound_value b = Some v \<Longrightarrow> c < v"
  shows "\<exists>x>c. extends_down_to l x \<and> extends_up_to b x"
proof -
  define d where "d = (case bound_value l of None \<Rightarrow> c | Some v \<Rightarrow> max c v)"
  have d: "c < x \<and> extends_down_to l x" if "d < x" for x using that by (cases l) (auto simp: d_def)
  have e: "d < v" if "b = Exclusive v" for v
    using assms that by (cases l) (auto simp: d_def range_empty_def bound_defs)
  show ?thesis
  proof (cases b)
    case No_bound
    from gt_ex [of d] obtain x where "d < x" by blast
    with d [of x] No_bound show ?thesis by auto
  next
    case (Inclusive v)
    with assms have "extends_down_to l v" by (cases l) (auto simp: range_empty_def bound_defs)
    with Inclusive assms(3) show ?thesis by auto
  next
    case (Exclusive v)
    with e dense [of d v] obtain x where "d < x" "x < v" by auto
    with d [of x] Exclusive show ?thesis by auto
  qed
qed

lemma dense_between:
  fixes l u :: "'e::{dense_linorder, no_top, no_bot} range_bound"
  assumes "\<not> range_empty \<lparr>m_lower = l, m_upper = u\<rparr>" "\<not> bounds_crossed l u"
  shows "\<exists>x. extends_down_to l x \<and> extends_up_to u x"
proof -
  obtain c where "\<And>v. bound_value l = Some v \<Longrightarrow> v < c" using gt_ex by (cases "bound_value l") auto
  from near_lower [OF assms this] show ?thesis by blast
qed

lemma lower_and_absorb:
  fixes a b u :: "'e::{dense_linorder, no_top, no_bot} range_bound"
  assumes "\<not> range_empty \<lparr>m_lower = b, m_upper = u\<rparr>" "\<not> bounds_crossed b u"
    and "\<forall>x. extends_down_to b x \<and> extends_up_to u x \<longrightarrow> extends_down_to a x"
  shows "lower_and a b = b"
proof (cases "\<exists>c. bound_value a = Some c \<and> (\<forall>v. bound_value b = Some v \<longrightarrow> v < c)")
  case True
  then obtain c where c: "bound_value a = Some c" "\<And>v. bound_value b = Some v \<Longrightarrow> v < c" by blast
  from near_lower [OF assms(1,2) c(2)] assms(3) obtain x where "x < c" "extends_down_to a x" by blast
  with c(1) show ?thesis by (cases a) auto
next
  case False
  show ?thesis
  proof (cases "a = Exclusive (the (bound_value b)) \<and> is_inclusive b")
    case True
    then obtain v where v: "b = Inclusive v" "a = Exclusive v" by (cases b) auto
    with assms(1,2) have "extends_up_to u v" by (cases u) (auto simp: range_empty_def bound_defs)
    with v assms(3) show ?thesis by force
  next
    case no: False
    with False show ?thesis by (cases a; cases b) (auto simp: lower_and_def value_less_def)
  qed
qed

lemma upper_and_absorb:
  fixes a b l :: "'e::{dense_linorder, no_top, no_bot} range_bound"
  assumes "\<not> range_empty \<lparr>m_lower = l, m_upper = b\<rparr>" "\<not> bounds_crossed l b"
    and "\<forall>x. extends_down_to l x \<and> extends_up_to b x \<longrightarrow> extends_up_to a x"
  shows "upper_and a b = b"
proof (cases "\<exists>c. bound_value a = Some c \<and> (\<forall>v. bound_value b = Some v \<longrightarrow> c < v)")
  case True
  then obtain c where c: "bound_value a = Some c" "\<And>v. bound_value b = Some v \<Longrightarrow> c < v" by blast
  from near_upper [OF assms(1,2) c(2)] assms(3) obtain x where "c < x" "extends_up_to a x" by blast
  with c(1) show ?thesis by (cases a) auto
next
  case False
  show ?thesis
  proof (cases "a = Exclusive (the (bound_value b)) \<and> is_inclusive b")
    case True
    then obtain v where v: "b = Inclusive v" "a = Exclusive v" by (cases b) auto
    with assms(1,2) have "extends_down_to l v" by (cases l) (auto simp: range_empty_def bound_defs)
    with v assms(3) show ?thesis by force
  next
    case no: False
    with False show ?thesis by (cases a; cases b) (auto simp: upper_and_def value_less_def)
  qed
qed

text \<open>
  Over a dense order without ends a range is said to contain another one exactly if it contains all of its values;
  over any other order, such as the integers, it is said so only if it does.
\<close>

theorem contains_range_exact:
  fixes r s :: "'e::{dense_linorder, no_top, no_bot} pg_range"
  assumes "range_ok V r" "range_ok V s" "\<not> is_null V (value_init V)"
  shows "contains_range V r s = Inr (\<forall>x. range_contains s x \<longrightarrow> range_contains r x)"
proof -
  from range_and_cases [OF assms] obtain t where t: "range_and V r s = Inr t"
    "bounds_crossed (lower_and (m_lower r) (m_lower s)) (upper_and (m_upper r) (m_upper s)) \<Longrightarrow> range_empty t"
    "\<not> bounds_crossed (lower_and (m_lower r) (m_lower s)) (upper_and (m_upper r) (m_upper s)) \<Longrightarrow>
      t = \<lparr>m_lower = lower_and (m_lower r) (m_lower s), m_upper = upper_and (m_upper r) (m_upper s)\<rparr>"
    and ok: "range_ok V t" by metis
  have s: "\<lparr>m_lower = m_lower s, m_upper = m_upper s\<rparr> = s" "\<not> bounds_crossed (m_lower s) (m_upper s)"
    using assms(2) by (simp_all add: range_ok_def)
  have "range_eq t s" if all: "\<forall>x. range_contains s x \<longrightarrow> range_contains r x"
  proof (cases "range_empty s")
    case True
    show ?thesis
    proof (rule ccontr)
      assume n: "\<not> range_eq t s"
      with True t(2,3) have nt: "\<not> range_empty t"
        "t = \<lparr>m_lower = lower_and (m_lower r) (m_lower s), m_upper = upper_and (m_upper r) (m_upper s)\<rparr>"
        "\<not> bounds_crossed (m_lower t) (m_upper t)" using ok by (auto simp: range_eq_def range_ok_def)
      have "\<lparr>m_lower = m_lower t, m_upper = m_upper t\<rparr> = t" by simp
      with dense_between [of "m_lower t" "m_upper t"] nt(1,3) obtain x where "range_contains t x"
        unfolding range_contains_def by metis
      with nt(2) have "range_contains s x" by (auto simp: range_contains_def extends_lower_and extends_upper_and)
      with empty_no_value [OF True] show False by blast
    qed
  next
    case False
    then have ne: "\<not> range_empty \<lparr>m_lower = m_lower s, m_upper = m_upper s\<rparr>" unfolding s(1) .
    have "lower_and (m_lower r) (m_lower s) = m_lower s" "upper_and (m_upper r) (m_upper s) = m_upper s"
      using lower_and_absorb [OF ne s(2), of "m_lower r"] upper_and_absorb [OF ne s(2), of "m_upper r"] all
      by (simp_all add: range_contains_def)
    with s t(3) show ?thesis by (simp add: range_eq_def)
  qed
  moreover have "range_eq t s \<Longrightarrow> \<forall>x. range_contains s x \<longrightarrow> range_contains r x"
    using contains_range_sound [OF assms] t(1) by (simp add: contains_range_def)
  ultimately show ?thesis by (auto simp: contains_range_def t(1))
qed

section \<open>Text of a range\<close>

definition bound_text :: "('e \<Rightarrow> string) \<Rightarrow> 'e range_bound \<Rightarrow> string" where
  "bound_text txt b = (case bound_value b of None \<Rightarrow> [] | Some v \<Rightarrow> txt v)"

definition range_text :: "('e::linorder \<Rightarrow> string) \<Rightarrow> 'e pg_range \<Rightarrow> string" where
  "range_text txt r =
     (if range_empty r then s_empty
      else (if is_inclusive (m_lower r) then CHR ''['' else CHR ''('') # bound_text txt (m_lower r) @ CHR '','' #
        bound_text txt (m_upper r) @ [if is_inclusive (m_upper r) then CHR '']'' else CHR '')''])"

text \<open>The conversions keep their contract for a value, whose text is one that can stand in a range without quotes.\<close>

definition value_ok :: "('e, 'z) value_type_scheme \<Rightarrow> ('e \<Rightarrow> string) \<Rightarrow> 'e \<Rightarrow> bool" where
  "value_ok V txt v \<longleftrightarrow> writes (field_type.truncate V) v (txt v) \<and> size_buffer V v \<le> npos \<and> from_string V (txt v) = Inr v \<and>
     (\<exists>gs. concat gs = txt v \<and> list_all (is_glyph UTF8) gs \<and> gs \<noteq> [] \<and> length (hd gs) = 1 \<and> hd gs \<noteq> [CHR 0x22] \<and>
       (\<forall>g \<in> set gs. length g = 1 \<longrightarrow> hd g \<notin> set '',)]''))"

definition bound_ok :: "('e, 'z) value_type_scheme \<Rightarrow> ('e \<Rightarrow> string) \<Rightarrow> 'e range_bound \<Rightarrow> bool" where
  "bound_ok V txt b \<longleftrightarrow> (\<forall>v. bound_value b = Some v \<longrightarrow> value_ok V txt v \<and> \<not> is_null V v)"

lemma truncate_into_buf [simp]: "into_buf (field_type.truncate V) = into_buf V" "size_buffer (field_type.truncate V) = size_buffer V"
  by (simp_all add: field_type.defs)

lemma bound_text_size: "bound_ok V txt b \<Longrightarrow> length (bound_text txt b) \<le> bound_size V b"
  by (cases "bound_value b") (auto simp: bound_ok_def value_ok_def writes_def bound_text_def bound_size_def)

lemma put_bound_wrote:
  assumes "bound_ok V txt b" "wrote buf0 p0 s buf p" "p + bound_size V b + 1 \<le> length buf0"
  shows "\<exists>buf'. put_bound V buf p b = Inr (Some (buf', p + length (bound_text txt b))) \<and>
    wrote buf0 p0 (s @ bound_text txt b) buf' (p + length (bound_text txt b))"
proof (cases "bound_value b")
  case None
  with assms(2) show ?thesis by (simp add: put_bound_def bound_text_def)
next
  case (Some v)
  with assms(1) have w: "writes (field_type.truncate V) v (txt v)" "size_buffer V v \<le> npos" by (simp_all add: bound_ok_def value_ok_def)
  then have l: "length (txt v) < size_buffer V v" by (simp add: writes_def)
  have "p + size_buffer (field_type.truncate V) v \<le> length buf"
    using assms(2,3) l w(2) Some by (simp add: bound_size_def wrote_def)
  from writes_into [OF w(1) this] obtain buf' where b: "into_buf V buf p v = Inr (Some (buf', p + length (txt v) + 1))"
    "length buf' = length buf" "take (p + length (txt v) + 1) buf' = take p buf @ txt v @ [CHR 0x00]" by auto
  have p: "p \<le> length buf" using assms(2) by (simp add: wrote_def)
  have "take (p + length (txt v)) buf' = take p buf @ txt v"
    by (rule take_snoc [of _ _ _ "CHR 0x00"]) (use b(3) p in simp_all)
  moreover have "p + length (txt v) \<le> length buf" using arg_cong [OF b(3), of length] b(2) p by simp
  ultimately have "wrote buf0 p0 (s @ txt v) buf' (p + length (txt v))" using assms(2) b(2) by (auto simp: wrote_def)
  with b(1) Some show ?thesis by (simp add: put_bound_def bound_text_def)
qed

lemma range_text_size:
  assumes "bound_ok V txt (m_lower r)" "bound_ok V txt (m_upper r)"
  shows "length (range_text txt r) < range_size_buffer V r"
  using bound_text_size [OF assms(1)] bound_text_size [OF assms(2)] by (simp add: range_text_def range_size_buffer_def)

lemma range_into_buf_writes:
  assumes "bound_ok V txt (m_lower r)" "bound_ok V txt (m_upper r)" "begin + range_size_buffer V r \<le> length buf"
  shows "\<exists>buf'. range_into_buf V buf begin r = Inr (Some (buf', begin + length (range_text txt r) + 1)) \<and>
    wrote buf begin (range_text txt r @ [CHR 0x00]) buf' (begin + length (range_text txt r) + 1)"
proof (cases "range_empty r")
  case True
  have room: "begin + length s_empty + 1 \<le> length buf" using assms(3) True by (simp add: range_size_buffer_def)
  then have "begin \<le> length buf" by simp
  from copy_to_wrote [OF wrote_start [OF this], of s_empty] room obtain b where
    b: "copy_to buf begin s_empty = Inr (Some (b, begin + length s_empty))" "wrote buf begin s_empty b (begin + length s_empty)" by auto
  from put_next_wrote [OF b(2), of "CHR 0x00"] room obtain b' where "put_next b (begin + length s_empty) CHR 0x00 = Inr (Some (b', Suc (begin + length s_empty)))"
    "wrote buf begin (s_empty @ [CHR 0x00]) b' (Suc (begin + length s_empty))" by auto
  with b(1) room True show ?thesis by (simp add: range_into_buf_def range_text_def)
next
  case False
  let ?o = "if is_inclusive (m_lower r) then CHR ''['' else CHR ''(''" and ?c = "if is_inclusive (m_upper r) then CHR '']'' else CHR '')''"
  let ?l = "bound_text txt (m_lower r)" and ?u = "bound_text txt (m_upper r)"
  note sz = bound_text_size [OF assms(1)] bound_text_size [OF assms(2)]
  have room: "begin + bound_size V (m_lower r) + bound_size V (m_upper r) + 4 \<le> length buf"
    using assms(3) False by (simp add: range_size_buffer_def)
  then have "begin \<le> length buf" "begin < length buf" by simp_all
  from put_next_wrote [OF wrote_start [OF this(1)] this(2), of ?o] obtain b1 where
    1: "put_next buf begin ?o = Inr (Some (b1, Suc begin))" "wrote buf begin [?o] b1 (Suc begin)" by auto
  from put_bound_wrote [OF assms(1) 1(2)] room obtain b2 where
    2: "put_bound V b1 (Suc begin) (m_lower r) = Inr (Some (b2, Suc begin + length ?l))" "wrote buf begin ([?o] @ ?l) b2 (Suc begin + length ?l)" by auto
  from put_next_wrote [OF 2(2), of "CHR '',''"] sz(1) room obtain b3 where
    3: "put_next b2 (Suc begin + length ?l) (CHR '','') = Inr (Some (b3, Suc (Suc begin + length ?l)))"
      "wrote buf begin (([?o] @ ?l) @ '','') b3 (Suc (Suc begin + length ?l))" by auto
  let ?p = "Suc (Suc begin + length ?l) + length ?u"
  from put_bound_wrote [OF assms(2) 3(2)] sz(1) room obtain b4 where
    4: "put_bound V b3 (Suc (Suc begin + length ?l)) (m_upper r) = Inr (Some (b4, ?p))" "wrote buf begin ((([?o] @ ?l) @ '','') @ ?u) b4 ?p" by auto
  from put_next_wrote [OF 4(2), of ?c] sz room obtain b5 where
    5: "put_next b4 ?p ?c = Inr (Some (b5, Suc ?p))" "wrote buf begin (((([?o] @ ?l) @ '','') @ ?u) @ [?c]) b5 (Suc ?p)" by auto
  from put_next_wrote [OF 5(2), of "CHR 0x00"] sz room obtain b6 where
    6: "put_next b5 (Suc ?p) CHR 0x00 = Inr (Some (b6, Suc (Suc ?p)))"
      "wrote buf begin ((((([?o] @ ?l) @ '','') @ ?u) @ [?c]) @ [CHR 0x00]) b6 (Suc (Suc ?p))" by auto
  have t: "range_text txt r = ?o # ?l @ CHR '','' # ?u @ [?c]" using False by (simp add: range_text_def)
  have len: "length b4 = length buf" using 4(2) by (simp add: wrote_def)
  have sp: "\<not> length buf - begin < 4" "\<not> length b4 - ?p < 2" using room sz len by linarith+
  have "range_into_buf V buf begin r = Inr (Some (b6, Suc (Suc ?p)))"
    unfolding range_into_buf_def if_not_P [OF False] if_not_P [OF sp(1)] 1(1) 2(1) 3(1) 4(1) bindU_simps prod.case
      if_not_P [OF sp(2)] 5(1) 6(1) ..
  moreover have e: "begin + length (range_text txt r) + 1 = Suc (Suc ?p)"
    "range_text txt r @ [CHR 0x00] = (((([?o] @ ?l) @ '','') @ ?u) @ [?c]) @ [CHR 0x00]" unfolding t by simp_all
  ultimately show ?thesis unfolding e using 6(2) by blast
qed

section \<open>Reading it back\<close>

text \<open>One bound, the first one up to a comma and the second one up to the end.\<close>

lemma parse_composite_field_unquoted:
  fixes V :: "('e, 'z) value_type_scheme"
  assumes "value_ok V txt v" "length input \<le> max_size" "input = a @ txt v @ c # b"
    and "index < last_field \<and> c = CHR '','' \<or> index = last_field \<and> (c = CHR '')'' \<or> c = CHR '']'') \<and> b = []"
  shows "parse_composite_field UTF8 index input (length a) (optional_type V) last_field =
    Inr (Some (length a + length (txt v) + 1, Some v))"
proof -
  let ?T = "element_type.extend (optional_type V)
    (field_type.fields True (\<lambda>_. 0) (\<lambda>_ _ _. Inr None) (\<lambda>_ _ _. Inr None)) :: 'e option field_type"
  have T: "from_string ?T = from_string (optional_type V)" "null_value ?T = null_value (optional_type V)"
    "type_name ?T = type_name (optional_type V)" "is_unquoted_safe ?T"
    by (simp_all add: element_type.defs field_type.defs)
  obtain gs where gs: "concat gs = txt v" "list_all (is_glyph UTF8) gs" "gs \<noteq> []" "length (hd gs) = 1" "hd gs \<noteq> [CHR 0x22]"
    "\<forall>g \<in> set gs. length g = 1 \<longrightarrow> hd g \<notin> set '',)]''" and v: "from_string V (txt v) = Inr v"
    using assms(1) by (auto simp: value_ok_def)
  have r: "field_reads UTF8 (?T, Some v) gs"
    using gs v T by (simp add: field_reads_def optional_type_def)
  have f: "field_text ?T (concat gs) = txt v" using T(4) gs(1) by (simp add: field_text_def)
  have "parse_composite_field UTF8 index input (length a) (optional_type V) last_field =
      parse_composite_field UTF8 index input (length a) ?T last_field"
    unfolding parse_composite_field_def T(1-3) ..
  also have "\<dots> = Inr (Some (length a + length (txt v) + 1, Some v))"
    using parse_composite_field_text [OF r assms(2), unfolded f, OF assms(3), of index last_field] assms(4) by auto
  finally show ?thesis .
qed

lemma parse_composite_field_null:
  assumes "input = a @ c # b"
    and "index < last_field \<and> c = CHR '','' \<or> index = last_field \<and> (c = CHR '')'' \<or> c = CHR '']'') \<and> b = []"
  shows "parse_composite_field UTF8 index input (length a) (optional_type V) last_field = Inr (Some (length a + 1, None))"
proof -
  have "ascii [c]" using assms(2) by auto
  then have "get_glyph_scanner UTF8 input (length input) (length a) = Inr (Some (length a + 1))"
    using ascii_at [of c a "length input" UTF8 b] assms(1) by simp
  moreover have "input ! length a = c" by (simp add: assms(1))
  ultimately show ?thesis
    using assms(2) by (auto simp: parse_composite_field_def Let_def optional_type_def assms(1))
qed

lemma parse_bound:
  assumes "bound_ok V txt bd" "length input \<le> max_size" "input = a @ bound_text txt bd @ c # b"
    and "index < last_field \<and> c = CHR '','' \<or> index = last_field \<and> (c = CHR '')'' \<or> c = CHR '']'') \<and> b = []"
  shows "parse_composite_field UTF8 index input (length a) (optional_type V) last_field =
    Inr (Some (length a + length (bound_text txt bd) + 1, bound_value bd))"
proof (cases "bound_value bd")
  case None
  with assms(3) parse_composite_field_null [OF _ assms(4), of input a V] show ?thesis by (simp add: bound_text_def)
next
  case (Some v)
  then have v: "value_ok V txt v" "bound_text txt bd = txt v" using assms(1) by (simp_all add: bound_ok_def bound_text_def)
  from parse_composite_field_unquoted [OF v(1) assms(2) _ assms(4)] assms(3) show ?thesis by (simp add: v(2) Some)
qed

lemma read_bound_value: "bound_ok V txt b \<Longrightarrow> read_bound V (is_inclusive b) (bound_value b) = Inr b"
  by (cases b) (auto simp: read_bound_def bound_ok_def inclusive_bound_def exclusive_bound_def)

lemma range_from_text:
  assumes "bound_ok V txt (m_lower r)" "bound_ok V txt (m_upper r)" "\<not> bounds_crossed (m_lower r) (m_upper r)"
    and "\<not> range_empty r" "length (range_text txt r) \<le> max_size"
  shows "range_from_string V (range_text txt r) = Inr (Some r)"
proof -
  define op where "op = (if is_inclusive (m_lower r) then CHR ''['' else CHR ''('')"
  define cl where "cl = (if is_inclusive (m_upper r) then CHR '']'' else CHR '')'')"
  let ?l = "bound_text txt (m_lower r)" and ?u = "bound_text txt (m_upper r)" and ?s = "range_text txt r"
  have s: "?s = op # ?l @ CHR '','' # ?u @ [cl]" using assms(4) by (simp add: range_text_def op_def cl_def)
  have c: "op \<notin> set ''eE''" "op \<in> set ''[(''" "op = CHR ''['' \<longleftrightarrow> is_inclusive (m_lower r)"
    "cl = CHR '')'' \<or> cl = CHR '']''" "cl = CHR '']'' \<longleftrightarrow> is_inclusive (m_upper r)" by (auto simp: op_def cl_def)
  have "parse_composite_field UTF8 0 ?s (length [op]) (optional_type V) 1 =
      Inr (Some (length [op] + length ?l + 1, bound_value (m_lower r)))"
    by (rule parse_bound [OF assms(1,5)]) (auto simp: s)
  moreover have "parse_composite_field UTF8 1 ?s (length (op # ?l @ '','')) (optional_type V) 1 =
      Inr (Some (length (op # ?l @ '','') + length ?u + 1, bound_value (m_upper r)))"
    by (rule parse_bound [OF assms(2,5), of _ cl "[]"]) (use c(4) in \<open>auto simp: s\<close>)
  moreover have "?s ! (length ?s - 1) = cl" "hd ?s = op" "\<not> length ?s < 3" by (auto simp: s nth_append)
  moreover have "new_range V (m_lower r) (m_upper r) = Inr r" using assms(3) by (simp add: new_range_def)
  ultimately show ?thesis
    using c read_bound_value [OF assms(1)] read_bound_value [OF assms(2)]
    by (auto simp: range_from_string_def Let_def s nth_append)
qed

lemma range_from_empty: "range_from_string V s_empty = okU (empty_range V)"
  by (simp add: range_from_string_def s_empty_def)

text \<open>
  C21. Take a range whose bounds are not crossed, over a type with an initial value that is not null.  Let the conversions
  keep their contract on the bounds of the range, and let these not be null and have a text that can stand in a range without quotes: valid UTF-8, not empty,
  beginning with a one-byte character other than a quote, without a comma, a closing parenthesis or a closing bracket
  (so numbers and dates, but not every \<open>std::string\<close>).  It is written inside of the space that \<open>size_buffer\<close> asks for,
  and its text reads back as an equal range, whichever of its bounds are missing, inclusive or exclusive.
\<close>

theorem range_roundtrip:
  assumes "bound_ok V txt (m_lower r)" "bound_ok V txt (m_upper r)" "\<not> bounds_crossed (m_lower r) (m_upper r)"
    and "\<not> is_null V (value_init V)" "begin + range_size_buffer V r \<le> length buf" "length buf \<le> max_size"
  shows "\<exists>buf' r'. range_into_buf V buf begin r =
      Inr (Some (take begin buf @ range_text txt r @ CHR 0x00 # buf', begin + length (range_text txt r) + 1)) \<and>
    range_from_string V (range_text txt r) = Inr (Some r') \<and> range_eq r' r"
proof -
  from range_into_buf_writes [OF assms(1,2,5)] obtain b where
    b: "range_into_buf V buf begin r = Inr (Some (b, begin + length (range_text txt r) + 1))"
      "take (begin + length (range_text txt r) + 1) b = take begin buf @ range_text txt r @ [CHR 0x00]"
    by (auto simp: wrote_def)
  then have b': "b = take begin buf @ range_text txt r @ CHR 0x00 # drop (begin + length (range_text txt r) + 1) b"
    using append_take_drop_id [of "begin + length (range_text txt r) + 1" b] by simp
  have "\<exists>r'. range_from_string V (range_text txt r) = Inr (Some r') \<and> range_eq r' r"
  proof (cases "range_empty r")
    case True
    with empty_range_ok [OF assms(4)] show ?thesis by (auto simp: range_text_def range_from_empty range_eq_def)
  next
    case False
    have "length (range_text txt r) \<le> max_size" using range_text_size [OF assms(1,2)] assms(5,6) by linarith
    from range_from_text [OF assms(1-3) False this] show ?thesis by (simp add: range_eq_def)
  qed
  with b(1) b' show ?thesis by metis
qed

text \<open>
  Bounds are written without quotes, and a bound with an empty text is not told from a missing one when it is read: the
  range from the empty string on becomes the range of all strings.
\<close>

lemma empty_text_bound:
  assumes "txt v = []"
  shows "range_from_string V (range_text txt \<lparr>m_lower = Inclusive v, m_upper = No_bound\<rparr>) =
    Inr (Some \<lparr>m_lower = No_bound, m_upper = No_bound\<rparr>)"
proof -
  let ?s = "''[,)''"
  have s: "range_text txt \<lparr>m_lower = Inclusive v, m_upper = No_bound\<rparr> = ?s"
    using assms by (simp add: range_text_def range_empty_def bound_text_def)
  have "parse_composite_field UTF8 0 ?s (length ''['') (optional_type V) 1 = Inr (Some (length ''['' + 1, None))"
    by (rule parse_composite_field_null [of _ _ "CHR '',''" "'')''"]) simp_all
  moreover have "parse_composite_field UTF8 1 ?s (length ''[,'') (optional_type V) 1 = Inr (Some (length ''[,'' + 1, None))"
    by (rule parse_composite_field_null [of _ _ "CHR '')''" "[]"]) simp_all
  ultimately show ?thesis unfolding s by (simp add: range_from_string_def Let_def read_bound_def new_range_def bounds_crossed_def)
qed

text \<open>
  A field that is not quoted may not begin with a glyph of several bytes, as the first character of every field is
  looked at as if it were syntax; the server does not quote such a value.
\<close>

lemma non_ascii_field:
  "parse_composite_field UTF8 0 [CHR ''['', CHR 0xC3, CHR 0xA9, CHR '','', CHR '')''] 1 T 1 =
     okU (conversion_error ''Non-ASCII character in composite-type syntax.'')"
proof -
  let ?s = "[CHR ''['', CHR 0xC3, CHR 0xA9, CHR '','', CHR '')'']"
  have "get_glyph_scanner UTF8 ?s (length ?s) 1 = Inr (Some 3)" by code_simp
  then show ?thesis by (simp add: parse_composite_field_def)
qed

section \<open>Ranges of integers and dates\<close>

definition int_value :: "int value_type" where
  "int_value = field_type.extend (integer_type cpp_int True) \<lparr>is_null = (\<lambda>_. False), value_init = 0, shown = int_to_string\<rparr>"

text \<open>\<open>operator<\<close> of \<open>std::chrono::year_month_day\<close>: year, month and day in turn.\<close>

instantiation date_ext :: (linorder) linorder
begin

definition less_eq_date_ext :: "'a date_ext \<Rightarrow> 'a date_ext \<Rightarrow> bool" where
  "less_eq_date_ext a b \<longleftrightarrow> year a < year b \<or> year a = year b \<and> (month a < month b \<or> month a = month b \<and>
     (day a < day b \<or> day a = day b \<and> date.more a \<le> date.more b))"

definition less_date_ext :: "'a date_ext \<Rightarrow> 'a date_ext \<Rightarrow> bool" where
  "less_date_ext a b \<longleftrightarrow> year a < year b \<or> year a = year b \<and> (month a < month b \<or> month a = month b \<and>
     (day a < day b \<or> day a = day b \<and> date.more a < date.more b))"

instance
  by standard (auto simp: less_eq_date_ext_def less_date_ext_def)

end

definition date_value :: "date value_type" where
  "date_value = field_type.extend (date_type True)
     \<lparr>is_null = (\<lambda>_. False), value_init = \<lparr>year = 0, month = 0, day = 0\<rparr>, shown = date_text\<rparr>"

text \<open>A text of plain characters, none of which is looked at when a field is read.\<close>

lemma value_ok_plain:
  assumes "writes (field_type.truncate V) v (txt v)" "size_buffer V v \<le> npos" "from_string V (txt v) = Inr v"
    and "txt v \<noteq> []" "\<forall>c \<in> set (txt v). ascii [c] \<and> c \<notin> set [CHR 0x22, CHR '','', CHR '')'', CHR '']'']"
  shows "value_ok V txt v"
proof -
  have "list_all (is_glyph UTF8) (map (\<lambda>c. [c]) (txt v))" using assms(5) by (auto simp: list_all_iff intro: ascii_glyph)
  moreover have "concat (map (\<lambda>c. [c]) (txt v)) = txt v" by simp
  ultimately have "\<exists>gs. concat gs = txt v \<and> list_all (is_glyph UTF8) gs \<and> gs \<noteq> [] \<and> length (hd gs) = 1 \<and> hd gs \<noteq> [CHR 0x22] \<and>
       (\<forall>g \<in> set gs. length g = 1 \<longrightarrow> hd g \<notin> set '',)]'')"
    using assms(4,5) by (intro exI [of _ "map (\<lambda>c. [c]) (txt v)"]) (cases "txt v"; simp)
  with assms(1-3) show ?thesis unfolding value_ok_def by blast
qed

lemma digit_plain: "is_digit_c c \<Longrightarrow> ascii [c] \<and> c \<notin> set [CHR 0x22, CHR '','', CHR '')'', CHR '']'']"
  by (auto simp: is_digit_c_def ascii_def less_eq_char_def)

lemma date_text_plain:
  assumes "date_ok v"
  shows "\<forall>c \<in> set (date_text v). ascii [c] \<and> c \<notin> set [CHR 0x22, CHR '','', CHR '')'', CHR '']'']"
proof -
  have "month v < 100" "day v < 100" using assms last_day_le [of "year v" "month v"] by (auto simp: date_ok_def)
  then have "\<forall>c \<in> set (two_digits (month v)) \<union> set (two_digits (day v)). is_digit_c c"
    by (auto simp: two_digits_def digit_char_is_digit)
  then have "\<forall>c \<in> set (date_text v). is_digit_c c \<or> c \<in> set ''- BC''"
    using year_digits_digits [of "calendar_year (year v)"] by (auto simp: date_text_def s_bc_def)
  moreover have "\<forall>c \<in> set ''- BC''. ascii [c] \<and> c \<notin> set [CHR 0x22, CHR '','', CHR '')'', CHR '']'']"
    by (simp add: ascii_def)
  ultimately show ?thesis using digit_plain by blast
qed

lemma date_value_ok:
  assumes "date_ok v"
  shows "value_ok date_value date_text v"
proof (rule value_ok_plain)
  have t: "field_type.truncate date_value = date_type True"
    by (simp add: date_value_def field_type.defs)
  show "writes (field_type.truncate date_value) v (date_text v)" unfolding t by (rule date.writes_text [OF assms])
  show "from_string date_value (date_text v) = Inr v"
    using date.from_text [OF assms, of True] by (simp add: date_value_def field_type.defs)
  show "size_buffer date_value v \<le> npos"
    by (simp add: date_value_def field_type.defs date_size_buffer_def s_bc_def npos_def)
  show "date_text v \<noteq> []" by (simp add: date_text_def)
qed (rule date_text_plain [OF assms])

lemma int_value_ok:
  assumes "- 2147483648 \<le> v" "v \<le> 2147483647"
  shows "value_ok int_value int_to_string v"
proof (rule value_ok_plain)
  have t: "field_type.truncate int_value = integer_type cpp_int True"
    by (simp add: int_value_def field_type.defs)
  show "writes (field_type.truncate int_value) v (int_to_string v)" unfolding t by (rule int.writes_text) (use assms in simp)
  show "from_string int_value (int_to_string v) = Inr v"
    using int.from_text [of v True] assms by (simp add: int_value_def field_type.defs)
  show "size_buffer int_value v \<le> npos"
    by (simp add: int_value_def field_type.defs integer_type_def int_size_buffer_def digits10_values cpp_int_def npos_def)
  have "\<forall>c \<in> set (int_to_string v). is_digit_c c \<or> c = CHR ''-''"
    using nat_to_string_digits by (auto simp: int_to_string_def)
  moreover have "ascii ''-''" by (simp add: ascii_def)
  ultimately show "\<forall>c \<in> set (int_to_string v). ascii [c] \<and> c \<notin> set [CHR 0x22, CHR '','', CHR '')'', CHR '']'']"
    using digit_plain by fastforce
qed (simp add: int_to_string_def)

lemma range_and_meet_witness:
  "\<exists>t. range_and int_value \<lparr>m_lower = Inclusive 1, m_upper = Exclusive 7\<rparr> \<lparr>m_lower = Exclusive 1, m_upper = No_bound\<rparr> = Inr t \<and>
     range_contains t 2 \<and> \<not> range_contains t 1"
proof -
  let ?r = "\<lparr>m_lower = Inclusive 1, m_upper = Exclusive 7\<rparr> :: int pg_range" and ?s = "\<lparr>m_lower = Exclusive 1, m_upper = No_bound\<rparr> :: int pg_range"
  have "range_ok int_value ?r" "range_ok int_value ?s" "\<not> is_null int_value (value_init int_value)"
    by (auto simp: range_ok_def bound_defs int_value_def field_type.defs)
  from range_and_meet [OF this] obtain t where "range_and int_value ?r ?s = Inr t"
    "range_contains t x \<longleftrightarrow> range_contains ?r x \<and> range_contains ?s x" for x by blast
  then show ?thesis by (intro exI [of _ t]) (simp add: range_contains_def)
qed

lemma range_roundtrip_witness:
  "range_from_string date_value ''[0001-02-29 BC,2024-12-31)'' =
     Inr (Some \<lparr>m_lower = Inclusive \<lparr>year = 0, month = 2, day = 29\<rparr>, m_upper = Exclusive \<lparr>year = 2024, month = 12, day = 31\<rparr>\<rparr>)"
proof -
  let ?a = "\<lparr>year = 0, month = 2, day = 29\<rparr>" and ?b = "\<lparr>year = 2024, month = 12, day = 31\<rparr>"
  let ?r = "\<lparr>m_lower = Inclusive ?a, m_upper = Exclusive ?b\<rparr>"
  have d: "date_ok ?a" "date_ok ?b" by (simp_all add: date_ok_def year_min_def last_day_def is_leap_def)
  have n: "\<not> is_null date_value v" for v by (simp add: date_value_def field_type.defs)
  have ok: "bound_ok date_value date_text (m_lower ?r)" "bound_ok date_value date_text (m_upper ?r)"
    using d n by (auto simp: bound_ok_def intro: date_value_ok)
  have c: "\<not> bounds_crossed (m_lower ?r) (m_upper ?r)" "\<not> range_empty ?r"
    by (simp_all add: bound_defs range_empty_def less_date_ext_def)
  have zeros: "replicate 3 (CHR ''0'') = ''000''" by (simp add: numeral_eq_Suc)
  have "date_text ?a = ''0001-02-29 BC''" "date_text ?b = ''2024-12-31''"
    by (simp_all add: date_text_def year_digits_def calendar_year_def two_digits_def s_bc_def nat_to_string.simps digit_char_values
        zeros)
  then have t: "range_text date_text ?r = ''[0001-02-29 BC,2024-12-31)''" using c(2) by (simp add: range_text_def bound_text_def)
  have sz: "0 + range_size_buffer date_value ?r \<le> length (replicate 40 CHR 0x00)" "length (replicate 40 CHR 0x00) \<le> max_size"
    using c(2) by (simp_all add: range_size_buffer_def bound_size_def date_value_def field_type.defs date_size_buffer_def s_bc_def max_size_def npos_def)
  from range_roundtrip [OF ok c(1) n sz, unfolded t] c(2) show ?thesis
    by (auto simp: range_eq_def bound_eq_iff)
qed

end
