(* ===== verification/Pqxx_Cursor.thy ===== *)
theory Pqxx_Cursor
  imports Pqxx_Stream Pqxx_Composite
begin

text \<open>
  Cursors: \<open>sql_cursor\<close> (\<open>src/sql_cursor.cxx\<close>, \<open>include/pqxx/internal/sql_cursor.hxx\<close>), which keeps track of where the
  server's cursor is, and \<open>stateless_cursor\<close> on top of it (\<open>include/pqxx/cursor.hxx\<close>, \<open>src/cursor.cxx\<close>).  An operation
  is an action on the scope of connection and transaction and on the cursor object; \<open>None\<close> is undefined behaviour, here
  the overflow of an \<open>int\<close>.
\<close>

section \<open>State\<close>

text \<open>libpq with \<open>PQcmdTuples\<close>.\<close>

record 's cursor_libpq =
  ck :: "'s copy_libpq"
  PQcmdTuples :: "pgresult \<Rightarrow> string"

datatype access_policy = Forward_only | Random_access
datatype update_policy = Read_only | Update
datatype ownership_policy = Owned | Loose

text \<open>\<open>m_empty_result\<close> is \<open>None\<close> while it is a result without data.\<close>

record sql_cursor =
  c_name :: string
  m_empty_result :: "pgresult option"
  m_adopted :: bool
  m_ownership :: ownership_policy
  m_at_end :: int
  m_pos :: int
  m_endpos :: int

type_synonym 's cursor_state = "'s scope \<times> sql_cursor"

definition all_rows :: int where
  "all_rows = INT_MAX - 1"

definition backward_all :: int where
  "backward_all = INT_MIN + 1"

definition adorn_name :: "int \<Rightarrow> string \<Rightarrow> string \<times> int" where
  "adorn_name uid n =
     (let i = uid + 1 in (if n = [] then ''x'' @ int_to_string i else n @ ''_'' @ int_to_string i, i))"

definition fits_int :: "int \<Rightarrow> int option" where
  "fits_int v = (if INT_MIN \<le> v \<and> v \<le> INT_MAX then Some v else None)"

definition conn_op :: "('s scope, 'a) act \<Rightarrow> ('s scope \<times> 'c, 'a option) act" where
  "conn_op m = on_fst (bindA m (\<lambda>x. retA (Some x)))"

section \<open>The query of a cursor\<close>

definition useless_trail :: "char \<Rightarrow> bool" where
  "useless_trail c \<longleftrightarrow> is_space_c c \<or> c = CHR '';''"

primrec last_useful :: "string \<Rightarrow> nat \<Rightarrow> nat" where
  "last_useful t 0 = 0"
| "last_useful t (Suc n) = (if useless_trail (t ! n) then last_useful t n else Suc n)"

definition find_query_end :: "string \<Rightarrow> encoding_group \<Rightarrow> nat ub_res" where
  "find_query_end query enc =
     (if enc = MONOBYTE then Inr (Some (last_useful query (length query)))
      else
        case for_glyphs enc (\<lambda>gbegin gend en. if gend - gbegin > 1 \<or> \<not> useless_trail (query ! gbegin) then gend else en) query 0 0 of
          (Inl e, _) \<Rightarrow> Inl e
        | (Inr None, _) \<Rightarrow> Inr None
        | (Inr (Some _), en) \<Rightarrow> Inr (Some en))"

section \<open>Construction\<close>

definition declare_text :: "string \<Rightarrow> string \<Rightarrow> access_policy \<Rightarrow> update_policy \<Rightarrow> bool \<Rightarrow> string" where
  "declare_text qname query ap up hold =
     ''DECLARE '' @ qname @ '' '' @ (if ap = Forward_only then ''NO '' else []) @ ''SCROLL CURSOR '' @
     (if hold then ''WITH HOLD '' else []) @ ''FOR '' @ query @ '' '' @
     (if up = Update then ''FOR UPDATE '' else ''FOR READ ONLY '')"

definition init_empty_result :: "'s copy_libpq \<Rightarrow> ('s cursor_state, unit option) act" where
  "init_empty_result K = (\<lambda>(w, c).
     if m_pos c \<noteq> 0 then (Inl (Pqxx_internal_error ''init_empty_result() from bad pos().''), (w, c))
     else
       bindO (conn_op (bindA (quote_name K (c_name c)) (\<lambda>q. tx_exec (pq K) (c_string (''FETCH 0 IN '' @ q))))) (\<lambda>r (w, c).
         (Inr (Some ()), (w, c\<lparr>m_empty_result := Some r\<rparr>))) (w, c))"

text \<open>The constructor that declares a cursor; \<open>uid\<close> is the connection's count of the names it has given out.\<close>

definition new_sql_cursor ::
    "'s copy_libpq \<Rightarrow> int \<Rightarrow> string \<Rightarrow> string \<Rightarrow> access_policy \<Rightarrow> update_policy \<Rightarrow> ownership_policy \<Rightarrow> bool \<Rightarrow>
     ('s scope, sql_cursor option) act" where
  "new_sql_cursor K uid query cname ap up op hold =
     (let name = fst (adorn_name uid cname) in
      if query = [] then throwA (Pqxx_usage_error ''Cursor has empty query.'')
      else
        bindA (encoding_id (pq K)) (\<lambda>i.
        bindA (liftR (enc_group (pg_encoding_to_char (pq K) i))) (\<lambda>enc.
        bindO (liftR (find_query_end query enc)) (\<lambda>qend.
        if qend = 0 then throwA (Pqxx_usage_error ''Cursor has effectively empty query.'')
        else
          bindA (quote_name K name) (\<lambda>q.
          bindA (tx_exec (pq K) (c_string (declare_text q (take qend query) ap up hold))) (\<lambda>_ w.
          case init_empty_result K (w, \<lparr>c_name = name, m_empty_result = None, m_adopted = False, m_ownership = Owned,
              m_at_end = -1, m_pos = 0, m_endpos = -1\<rparr>) of
            (Inl e, (w, c)) \<Rightarrow> (Inl e, w)
          | (Inr None, (w, c)) \<Rightarrow> (Inr None, w)
          | (Inr (Some _), (w, c)) \<Rightarrow> (Inr (Some (c\<lparr>m_ownership := op\<rparr>)), w)))))))"

definition adopt_sql_cursor :: "string \<Rightarrow> ownership_policy \<Rightarrow> sql_cursor" where
  "adopt_sql_cursor cname op = \<lparr>c_name = cname, m_empty_result = None, m_adopted = True, m_ownership = op,
     m_at_end = 0, m_pos = -1, m_endpos = -1\<rparr>"

definition close_sql_cursor :: "'s copy_libpq \<Rightarrow> ('s cursor_state, unit option) act" where
  "close_sql_cursor K = (\<lambda>(w, c).
     if m_ownership c = Owned then
       bindO (catchA (conn_op (bindA (quote_name K (c_name c)) (\<lambda>q. bindA (conn_exec (pq K) (c_string (''CLOSE '' @ q)) []) (\<lambda>_. retA ()))))
         (\<lambda>e. if is_std_exception e then retA (Some ()) else throwA e)) (\<lambda>_ (w, c).
         (Inr (Some ()), (w, c\<lparr>m_ownership := Loose\<rparr>))) (w, c)
     else (Inr (Some ()), (w, c)))"

section \<open>Moving\<close>

text \<open>
  \<open>adjust\<close>, in two parts: what the number of rows tells about the ends, and the new position.
\<close>

definition settle :: "int \<Rightarrow> int \<Rightarrow> bool \<Rightarrow> (sql_cursor, int option) act" where
  "settle direction actual hit_end = (\<lambda>c.
     let moved = (if m_pos c \<ge> 0 then fits_int (m_pos c + direction * actual) else Some (m_pos c)) in
     case moved of
       None \<Rightarrow> (Inr None, c)
     | Some p \<Rightarrow>
         let c = c\<lparr>m_pos := p\<rparr> in
         if hit_end \<and> m_endpos c \<ge> 0 \<and> m_pos c \<noteq> m_endpos c then
           (Inl (Pqxx_internal_error ''Inconsistent cursor end positions.''), c)
         else (Inr (Some (direction * actual)), if hit_end then c\<lparr>m_endpos := m_pos c\<rparr> else c))"

definition adjust :: "int \<Rightarrow> int \<Rightarrow> (sql_cursor, int option) act" where
  "adjust hoped actual = (\<lambda>c.
     if actual < 0 then (Inl (Pqxx_internal_error ''Negative rows in cursor movement.''), c)
     else if hoped = 0 then (Inr (Some 0), c)
     else if hoped = INT_MIN then (Inr None, c)
     else
       let direction = (if hoped < 0 then -1 else 1) in
       if actual = \<bar>hoped\<bar> then settle direction actual False (c\<lparr>m_at_end := 0\<rparr>)
       else if actual > \<bar>hoped\<bar> then (Inl (Pqxx_internal_error ''Cursor displacement larger than requested.''), c)
       else
         let steps = (if m_at_end c \<noteq> direction then actual + 1 else actual) in
         if direction > 0 then settle direction steps True (c\<lparr>m_at_end := direction\<rparr>)
         else if m_pos c = -1 then settle direction steps False (c\<lparr>m_pos := steps, m_at_end := direction\<rparr>)
         else if m_pos c \<noteq> steps then
           (Inl (Pqxx_internal_error (''Moved back to beginning, but wrong position: hoped='' @ int_to_string hoped @
              '', actual='' @ int_to_string steps @ '', m_pos='' @ int_to_string (m_pos c) @ '', direction='' @
              int_to_string direction @ ''.'')), c)
         else settle direction steps False (c\<lparr>m_at_end := direction\<rparr>))"

definition stridestring :: "int \<Rightarrow> string" where
  "stridestring n = (if n \<ge> all_rows then ''ALL'' else if n \<le> backward_all then ''BACKWARD ALL'' else int_to_string n)"

definition cursor_command :: "'s copy_libpq \<Rightarrow> string \<Rightarrow> int \<Rightarrow> ('s cursor_state, pgresult option) act" where
  "cursor_command K verb rows = (\<lambda>(w, c).
     conn_op (bindA (quote_name K (c_name c)) (\<lambda>q.
       conn_exec (pq K) (c_string (verb @ '' '' @ stridestring rows @ '' IN '' @ q)) [])) (w, c))"

text \<open>\<open>fetch\<close> gives the result and the displacement.\<close>

definition fetch :: "'s cursor_libpq \<Rightarrow> int \<Rightarrow> ('s cursor_state, (pgresult option \<times> int) option) act" where
  "fetch K rows = (\<lambda>(w, c).
     if rows = 0 then (Inr (Some (m_empty_result c, 0)), (w, c))
     else
       bindO (cursor_command (ck K) ''FETCH'' rows) (\<lambda>r.
       bindO (on_snd (adjust rows (int (length (res_rows r))))) (\<lambda>d.
       retA (Some (Some r, d)))) (w, c))"

definition affected_rows :: "'s cursor_libpq \<Rightarrow> pgresult \<Rightarrow> int ub_res" where
  "affected_rows K r =
     (let s = c_string (PQcmdTuples K r) in
      if s = [] then Inr (Some 0)
      else case stoi s of Inr v \<Rightarrow> Inr (Some v) | Inl (Out_of_range _) \<Rightarrow> Inr None | Inl _ \<Rightarrow> Inr (Some 0))"

text \<open>\<open>move\<close> gives the number of rows and the displacement.\<close>

definition move_cursor :: "'s cursor_libpq \<Rightarrow> int \<Rightarrow> ('s cursor_state, (int \<times> int) option) act" where
  "move_cursor K rows = (\<lambda>(w, c).
     if rows = 0 then (Inr (Some (0, 0)), (w, c))
     else
       bindO (cursor_command (ck K) ''MOVE'' rows) (\<lambda>r.
       bindO (liftR (affected_rows K r)) (\<lambda>n.
       bindO (on_snd (adjust rows n)) (\<lambda>d.
       retA (Some (n, d))))) (w, c))"

section \<open>Stateless cursors\<close>

definition obtain_stateless_cursor_size :: "'s cursor_libpq \<Rightarrow> ('s cursor_state, int option) act" where
  "obtain_stateless_cursor_size K = (\<lambda>(w, c).
     bindO (if m_endpos c = -1 then bindO (move_cursor K all_rows) (\<lambda>_. retA (Some ())) else retA (Some ())) (\<lambda>_ (w, c).
       (Inr (fits_int (m_endpos c - 1)), (w, c))) (w, c))"

definition stateless_cursor_retrieve :: "'s cursor_libpq \<Rightarrow> int \<Rightarrow> int \<Rightarrow> int \<Rightarrow> ('s cursor_state, pgresult option option) act" where
  "stateless_cursor_retrieve K sz begin_pos end_pos = (\<lambda>(w, c).
     if begin_pos < 0 \<or> begin_pos > sz then (Inl (Pqxx_range_error ''Starting position out of range''), (w, c))
     else
       let end_pos = (if end_pos < -1 then -1 else if end_pos > sz then sz else end_pos) in
       if begin_pos = end_pos then (Inr (Some (m_empty_result c)), (w, c))
       else
         let direction = (if begin_pos < end_pos then 1 else -1) in
         case fits_int ((begin_pos - direction) - (m_pos c - 1)) of
           None \<Rightarrow> (Inr None, (w, c))
         | Some d \<Rightarrow>
             bindO (move_cursor K d) (\<lambda>_.
             bindO (fetch K (end_pos - begin_pos)) (\<lambda>r. retA (Some (fst r)))) (w, c))"

text \<open>The constructors, \<open>size\<close> and \<open>retrieve\<close> of the class.\<close>

definition new_stateless_cursor ::
    "'s copy_libpq \<Rightarrow> int \<Rightarrow> string \<Rightarrow> string \<Rightarrow> update_policy \<Rightarrow> ownership_policy \<Rightarrow> bool \<Rightarrow> ('s scope, sql_cursor option) act" where
  "new_stateless_cursor K uid query cname up op hold = new_sql_cursor K uid query cname Random_access up op hold"

definition adopt_stateless_cursor :: "'s cursor_libpq \<Rightarrow> string \<Rightarrow> ownership_policy \<Rightarrow> 's scope \<Rightarrow> unit ub_res \<times> 's cursor_state" where
  "adopt_stateless_cursor K cname op w =
     bindO (move_cursor K backward_all) (\<lambda>_. retA (Some ())) (w, adopt_sql_cursor cname op)"

definition stateless_retrieve :: "'s cursor_libpq \<Rightarrow> int \<Rightarrow> int \<Rightarrow> ('s cursor_state, pgresult option option) act" where
  "stateless_retrieve K begin_pos end_pos =
     bindO (obtain_stateless_cursor_size K) (\<lambda>sz. stateless_cursor_retrieve K sz begin_pos end_pos)"

end
