(* ===== verification/Pqxx_Cursor_Spec.thy ===== *)
theory Pqxx_Cursor_Spec
  imports Pqxx_Cursor
begin

text \<open>
  What cursors promise.  The server's cursor stands before, on or behind the rows of its query; \<open>sql_cursor\<close> gets only
  the number of rows of each answer, and knows its position from these.  \<open>stateless_cursor\<close> is then a slice of the
  rows, except when it reads backwards from the end.
\<close>

section \<open>The server's cursor\<close>

type_synonym table_rows = "string option list list"

text \<open>
  The rows that the cursor passes and where it comes to stand, position 0 being before the first row and one more than
  the number of rows behind the last one.
\<close>

definition scroll :: "table_rows \<Rightarrow> nat \<Rightarrow> int \<Rightarrow> table_rows \<times> nat" where
  "scroll rows p m =
     (if m \<ge> 0 then
        let k = (if m \<ge> all_rows then length rows + 1 else nat m) in (take k (drop p rows), min (p + k) (length rows + 1))
      else
        let j = (if m \<le> backward_all then p else nat (- m)) in (rev (drop (p - 1 - j) (take (p - 1) rows)), p - j))"

text \<open>
  The contract of a server that does not fail for the cursor that is called \<open>nm\<close>, quoted \<open>q\<close>, on connection \<open>con\<close>, and was
  declared with policy \<open>ap\<close>: \<open>view\<close> shows its rows and its position.  FETCH answers with the rows, MOVE with their number;
  nothing else moves the cursor.  Of a cursor that is declared NO SCROLL nothing is said about going backward, which
  PostgreSQL refuses.
\<close>

definition can_scroll :: "access_policy \<Rightarrow> int \<Rightarrow> bool" where
  "can_scroll ap m \<longleftrightarrow> ap = Random_access \<or> 0 \<le> m"

definition cursor_server :: "'s cursor_libpq \<Rightarrow> access_policy \<Rightarrow> nat \<Rightarrow> string \<Rightarrow> string \<Rightarrow> ('s \<Rightarrow> (table_rows \<times> nat) option) \<Rightarrow> bool" where
  "cursor_server K ap con nm q view \<longleftrightarrow>
     (\<forall>s rows p m. view s = Some (rows, p) \<and> m \<noteq> 0 \<and> can_scroll ap m \<longrightarrow>
        (\<exists>r s'. PQexec (pq (ck K)) con (c_string (''FETCH '' @ stridestring m @ '' IN '' @ q)) s = (Some r, s') \<and>
           res_status r = PGRES_TUPLES_OK \<and> res_rows r = fst (scroll rows p m) \<and> view s' = Some (rows, snd (scroll rows p m))) \<and>
        (\<exists>r s'. PQexec (pq (ck K)) con (c_string (''MOVE '' @ stridestring m @ '' IN '' @ q)) s = (Some r, s') \<and>
           res_status r = PGRES_COMMAND_OK \<and> PQcmdTuples K r = nat_to_string (length (fst (scroll rows p m))) \<and>
           view s' = Some (rows, snd (scroll rows p m)))) \<and>
     (\<forall>s. view s \<noteq> None \<longrightarrow> PQescapeIdentifier (ck K) con nm s = Some q \<and> PQclientEncoding (pq (ck K)) con s \<noteq> -1 \<and>
        (\<exists>enc. enc_group (pg_encoding_to_char (pq (ck K)) (PQclientEncoding (pq (ck K)) con s)) = Inr enc)) \<and>
     (\<forall>s. \<exists>s'. PQconsumeInput (pq (ck K)) con s = (True, s') \<and> view s' = view s) \<and>
     (\<forall>s. view (PQnotifies (pq (ck K)) con s) = view s)"

lemma cursor_server_fetch:
  "cursor_server K ap con nm q view \<Longrightarrow> view s = Some (rows, p) \<Longrightarrow> m \<noteq> 0 \<Longrightarrow> can_scroll ap m \<Longrightarrow>
   \<exists>r s'. PQexec (pq (ck K)) con (c_string (''FETCH '' @ stridestring m @ '' IN '' @ q)) s = (Some r, s') \<and>
     res_status r = PGRES_TUPLES_OK \<and> res_rows r = fst (scroll rows p m) \<and> view s' = Some (rows, snd (scroll rows p m))"
  by (simp add: cursor_server_def)

lemma cursor_server_move:
  "cursor_server K ap con nm q view \<Longrightarrow> view s = Some (rows, p) \<Longrightarrow> m \<noteq> 0 \<Longrightarrow> can_scroll ap m \<Longrightarrow>
   \<exists>r s'. PQexec (pq (ck K)) con (c_string (''MOVE '' @ stridestring m @ '' IN '' @ q)) s = (Some r, s') \<and>
     res_status r = PGRES_COMMAND_OK \<and> PQcmdTuples K r = nat_to_string (length (fst (scroll rows p m))) \<and>
     view s' = Some (rows, snd (scroll rows p m))"
  by (simp add: cursor_server_def)

lemma cursor_server_calm:
  "cursor_server K ap con nm q view \<Longrightarrow> view s \<noteq> None \<Longrightarrow> PQescapeIdentifier (ck K) con nm s = Some q"
  "cursor_server K ap con nm q view \<Longrightarrow> view s \<noteq> None \<Longrightarrow> PQclientEncoding (pq (ck K)) con s \<noteq> -1 \<and>
     (\<exists>enc. enc_group (pg_encoding_to_char (pq (ck K)) (PQclientEncoding (pq (ck K)) con s)) = Inr enc)"
  "cursor_server K ap con nm q view \<Longrightarrow> \<exists>s'. PQconsumeInput (pq (ck K)) con s = (True, s') \<and> view s' = view s"
  "cursor_server K ap con nm q view \<Longrightarrow> view (PQnotifies (pq (ck K)) con s) = view s"
  unfolding cursor_server_def by blast+

lemma conn_exec_answer:
  assumes "cursor_server K ap con nm q view" "m_conn (cn w) = con"
    and "PQexec (pq (ck K)) con cmd (srv w) = (Some r, s')" "res_status r \<in> {PGRES_TUPLES_OK, PGRES_COMMAND_OK}" "view s' = Some v"
  shows "\<exists>s2. conn_exec (pq (ck K)) cmd [] w = (Inr r, w\<lparr>srv := s2\<rparr>) \<and> view s2 = Some v"
proof -
  from cursor_server_calm(3) [OF assms(1), of s'] obtain s1 where s1: "PQconsumeInput (pq (ck K)) con s' = (True, s1)" "view s1 = view s'" by blast
  from cursor_server_calm(2) [OF assms(1), of s'] assms(5) obtain enc where
    e: "PQclientEncoding (pq (ck K)) con s' \<noteq> -1" "enc_group (pg_encoding_to_char (pq (ck K)) (PQclientEncoding (pq (ck K)) con s')) = Inr enc" by auto
  have st: "check_status [] r = Inr r" using assms(4) by (auto simp: check_status_def status_error_def)
  have "conn_exec (pq (ck K)) cmd [] w = (Inr r, w\<lparr>srv := if m_trans (cn w) \<noteq> None then s1 else PQnotifies (pq (ck K)) con s1\<rparr>)"
    using assms(2,3) s1(1) e st
    by (simp add: conn_exec_def make_result_def encoding_id_def get_notifs_def bindA_def liftR_def retA_def Let_def)
  with s1(2) cursor_server_calm(4) [OF assms(1), of s1] assms(5) show ?thesis by auto
qed

lemma cursor_command_answer:
  assumes "cursor_server K ap con (c_name c) q view" "m_conn (cn w) = con" "view (srv w) = Some v0"
    and "PQexec (pq (ck K)) con (c_string (verb @ '' '' @ stridestring m @ '' IN '' @ q)) (srv w) = (Some r, s')"
    and "res_status r \<in> {PGRES_TUPLES_OK, PGRES_COMMAND_OK}" "view s' = Some v"
  shows "\<exists>s2. cursor_command (ck K) verb m (w, c) = (Inr (Some r), (w\<lparr>srv := s2\<rparr>, c)) \<and> view s2 = Some v"
proof -
  from conn_exec_answer [OF assms(1,2,4-6)] obtain s2 where
    s2: "conn_exec (pq (ck K)) (c_string (verb @ '' '' @ stridestring m @ '' IN '' @ q)) [] w = (Inr r, w\<lparr>srv := s2\<rparr>)" "view s2 = Some v" by blast
  have "quote_name (ck K) (c_name c) w = (Inr q, w)"
    using cursor_server_calm(1) [OF assms(1)] assms(2,3) by (simp add: quote_name_def retA_def)
  with s2 show ?thesis by (intro exI [of _ s2]) (simp add: cursor_command_def conn_op_def on_fst_def bindA_def retA_def)
qed

section \<open>Keeping track\<close>

text \<open>What the object knows when the server's cursor stands at \<open>p\<close>.\<close>

definition tracks :: "table_rows \<Rightarrow> nat \<Rightarrow> sql_cursor \<Rightarrow> bool" where
  "tracks rows p c \<longleftrightarrow> m_pos c = int p \<and> p \<le> length rows + 1 \<and>
     m_at_end c = (if p = 0 then -1 else if p = length rows + 1 then 1 else 0) \<and>
     (m_endpos c = -1 \<or> m_endpos c = int (length rows) + 1) \<and> (p = length rows + 1 \<longrightarrow> m_endpos c = int p)"

text \<open>The parts of the object that moving leaves alone.\<close>

definition same_cursor :: "sql_cursor \<Rightarrow> sql_cursor \<Rightarrow> bool" where
  "same_cursor c c' \<longleftrightarrow> c_name c' = c_name c \<and> m_empty_result c' = m_empty_result c \<and> m_ownership c' = m_ownership c"

lemma settle_ok:
  assumes "INT_MIN \<le> m_pos c + direction * actual" "m_pos c + direction * actual \<le> INT_MAX" "0 \<le> m_pos c"
    and "hit_end \<Longrightarrow> m_endpos c = -1 \<or> m_endpos c = m_pos c + direction * actual"
  shows "settle direction actual hit_end c = (Inr (Some (direction * actual)),
    c\<lparr>m_pos := m_pos c + direction * actual, m_endpos := if hit_end then m_pos c + direction * actual else m_endpos c\<rparr>)"
  using assms by (cases hit_end) (auto simp: settle_def fits_int_def Let_def)

lemma adjust_forward:
  assumes "tracks rows p c" "0 < m" "m \<le> INT_MAX" "int (length rows) < all_rows"
  shows "\<exists>c'. adjust m (int (length (fst (scroll rows p m)))) c = (Inr (Some (int (snd (scroll rows p m)) - int p)), c') \<and>
    tracks rows (snd (scroll rows p m)) c' \<and> same_cursor c c'"
proof -
  let ?n = "length rows"
  define k where "k = (if m \<ge> all_rows then ?n + 1 else nat m)"
  have s: "fst (scroll rows p m) = take k (drop p rows)" "snd (scroll rows p m) = min (p + k) (?n + 1)"
    using assms(2) by (simp_all add: scroll_def k_def Let_def)
  have l: "length (fst (scroll rows p m)) = min k (?n - p)" by (simp add: s(1) min.commute)
  have c: "m_pos c = int p" "p \<le> ?n + 1" using assms(1) by (simp_all add: tracks_def)
  have m: "m \<noteq> 0" "m \<noteq> INT_MIN" "\<not> m < 0" using assms(2) by (simp_all add: INT_MIN_def)
  show ?thesis
  proof (cases "k \<le> ?n - p")
    case True
    then have k: "int k = m" "min k (?n - p) = k" "min (p + k) (?n + 1) = p + k" "0 < k" "p + k \<le> ?n"
      using assms(2,4) by (auto simp: k_def split: if_splits)
    have "adjust m (int k) c = settle 1 (int k) False (c\<lparr>m_at_end := 0\<rparr>)" using m k(1) by (simp add: adjust_def Let_def)
    also have "\<dots> = (Inr (Some (1 * int k)), c\<lparr>m_at_end := 0, m_pos := int p + int k\<rparr>)"
      by (subst settle_ok) (use c k(5) assms(4) in \<open>simp_all add: all_rows_def INT_MAX_def INT_MIN_def\<close>)
    finally show ?thesis
      unfolding l s(2) k(2,3) using assms(1) k(4,5) by (auto simp: tracks_def same_cursor_def)
  next
    case False
    then have k: "min k (?n - p) = ?n - p" "min (p + k) (?n + 1) = ?n + 1" "int (?n - p) < m"
      using assms(4) by (auto simp: k_def min_def split: if_splits)
    let ?a = "if m_at_end c \<noteq> 1 then int (?n - p) + 1 else int (?n - p)"
    have a: "?a = int ?n + 1 - int p" using assms(1) c(2) by (auto simp: tracks_def)
    have "adjust m (int (?n - p)) c = settle 1 ?a True (c\<lparr>m_at_end := 1\<rparr>)" using m k(3) by (simp add: adjust_def Let_def)
    also have "\<dots> = (Inr (Some (1 * ?a)), c\<lparr>m_at_end := 1, m_pos := int p + ?a, m_endpos := int p + ?a\<rparr>)"
      by (subst settle_ok) (use c a assms(1,4) in \<open>auto simp: all_rows_def INT_MAX_def INT_MIN_def tracks_def\<close>)
    finally show ?thesis
      unfolding l s(2) k(1,2) using a by (auto simp: tracks_def same_cursor_def)
  qed
qed

lemma adjust_backward:
  assumes "tracks rows p c" "m < 0" "INT_MIN < m" "int (length rows) < all_rows"
  shows "\<exists>c'. adjust m (int (length (fst (scroll rows p m)))) c = (Inr (Some (int (snd (scroll rows p m)) - int p)), c') \<and>
    tracks rows (snd (scroll rows p m)) c' \<and> same_cursor c c'"
proof -
  let ?n = "length rows"
  define j where "j = (if m \<le> backward_all then p else nat (- m))"
  have s: "fst (scroll rows p m) = rev (drop (p - 1 - j) (take (p - 1) rows))" "snd (scroll rows p m) = p - j"
    using assms(2) by (simp_all add: scroll_def j_def Let_def)
  have c: "m_pos c = int p" "p \<le> ?n + 1" using assms(1) by (simp_all add: tracks_def)
  then have l: "length (fst (scroll rows p m)) = min j (p - 1)" by (auto simp: s(1) min_def)
  have m: "m \<noteq> 0" "m \<noteq> INT_MIN" using assms(2,3) by simp_all
  have big: "int p < - backward_all" using c(2) assms(4) by (simp add: all_rows_def backward_all_def INT_MAX_def INT_MIN_def)
  show ?thesis
  proof (cases "j \<le> p - 1 \<and> p \<noteq> 0")
    case True
    then have j: "int j = - m" "min j (p - 1) = j" "0 < j" "j < p"
      using assms(2) by (auto simp: j_def split: if_splits)
    have "adjust m (int j) c = settle (-1) (int j) False (c\<lparr>m_at_end := 0\<rparr>)" using m j(1) assms(2) by (simp add: adjust_def Let_def)
    also have "\<dots> = (Inr (Some (-1 * int j)), c\<lparr>m_at_end := 0, m_pos := int p + -1 * int j\<rparr>)"
      by (subst settle_ok) (use c j(4) big in \<open>simp_all add: backward_all_def INT_MAX_def INT_MIN_def\<close>)
    finally show ?thesis
      unfolding l s(2) j(2) using assms(1) j(3,4) c(2) by (auto simp: tracks_def same_cursor_def)
  next
    case False
    then have j: "min j (p - 1) = p - 1" "p - j = 0" "int (p - 1) < - m"
      using assms(2) big by (auto simp: j_def min_def split: if_splits)
    let ?a = "if m_at_end c \<noteq> -1 then int (p - 1) + 1 else int (p - 1)"
    have a: "?a = int p" using assms(1) by (auto simp: tracks_def)
    have "adjust m (int (p - 1)) c = settle (-1) (int p) False (c\<lparr>m_at_end := -1\<rparr>)"
      using m j(3) assms(2) a c(1) by (auto simp: adjust_def Let_def)
    also have "\<dots> = (Inr (Some (-1 * int p)), c\<lparr>m_at_end := -1, m_pos := int p + -1 * int p\<rparr>)"
      by (subst settle_ok) (use c in \<open>simp_all add: INT_MAX_def INT_MIN_def\<close>)
    finally show ?thesis
      unfolding l s(2) j(1,2) using assms(1) by (auto simp: tracks_def same_cursor_def)
  qed
qed

lemma adjust_tracks:
  assumes "tracks rows p c" "m \<noteq> 0" "INT_MIN < m" "m \<le> INT_MAX" "int (length rows) < all_rows"
  shows "\<exists>c'. adjust m (int (length (fst (scroll rows p m)))) c = (Inr (Some (int (snd (scroll rows p m)) - int p)), c') \<and>
    tracks rows (snd (scroll rows p m)) c' \<and> same_cursor c c'"
  using adjust_forward [OF assms(1) _ assms(4,5)] adjust_backward [OF assms(1) _ assms(3,5)] assms(2) by (cases "0 < m") auto

text \<open>The server's cursor and the object that wraps it.\<close>

definition cursor_rel :: "'s cursor_libpq \<Rightarrow> access_policy \<Rightarrow> string \<Rightarrow> ('s \<Rightarrow> (table_rows \<times> nat) option) \<Rightarrow> table_rows \<Rightarrow> nat \<Rightarrow> 's cursor_state \<Rightarrow> bool" where
  "cursor_rel K ap q view rows p ws \<longleftrightarrow>
     cursor_server K ap (m_conn (cn (fst ws))) (c_name (snd ws)) q view \<and> view (srv (fst ws)) = Some (rows, p) \<and>
     tracks rows p (snd ws) \<and> int (length rows) < all_rows \<and> (\<forall>r. m_empty_result (snd ws) = Some r \<longrightarrow> res_rows r = [])"

definition rows_of :: "pgresult option \<Rightarrow> table_rows" where
  "rows_of r = (case r of None \<Rightarrow> [] | Some r \<Rightarrow> res_rows r)"

lemma scroll_zero: "tracks rows p c \<Longrightarrow> scroll rows p 0 = ([], p)"
  by (simp add: scroll_def all_rows_def INT_MAX_def tracks_def)

lemma scroll_length: "length (fst (scroll rows p m)) \<le> length rows"
  by (auto simp: scroll_def Let_def)

lemma fetch_ok:
  assumes "cursor_rel K ap q view rows p ws" "INT_MIN < m" "m \<le> INT_MAX" "can_scroll ap m"
  shows "\<exists>r ws'. fetch K m ws = (Inr (Some (r, int (snd (scroll rows p m)) - int p)), ws') \<and>
    rows_of r = fst (scroll rows p m) \<and> cursor_rel K ap q view rows (snd (scroll rows p m)) ws'"
proof -
  obtain w c where ws: "ws = (w, c)" by (cases ws)
  note r = assms(1) [unfolded cursor_rel_def ws fst_conv snd_conv]
  show ?thesis
  proof (cases "m = 0")
    case True
    with r assms(1) scroll_zero [of rows p c] show ?thesis
      by (auto simp: ws fetch_def rows_of_def split: option.split)
  next
    case False
    from cursor_server_fetch [of K ap "m_conn (cn w)" "c_name c" q view] r False assms(4) obtain res s' where
      x: "PQexec (pq (ck K)) (m_conn (cn w)) (c_string (''FETCH '' @ stridestring m @ '' IN '' @ q)) (srv w) = (Some res, s')"
      "res_status res = PGRES_TUPLES_OK" "res_rows res = fst (scroll rows p m)" "view s' = Some (rows, snd (scroll rows p m))" by blast
    from cursor_command_answer [of K ap "m_conn (cn w)" c q view w "(rows, p)" "''FETCH''" m res s'] r x obtain s2 where
      s2: "cursor_command (ck K) ''FETCH'' m (w, c) = (Inr (Some res), (w\<lparr>srv := s2\<rparr>, c))" "view s2 = Some (rows, snd (scroll rows p m))" by auto
    from adjust_tracks [of rows p c m] r False assms(2,3) obtain c' where
      c': "adjust m (int (length (fst (scroll rows p m)))) c = (Inr (Some (int (snd (scroll rows p m)) - int p)), c')"
      "tracks rows (snd (scroll rows p m)) c'" "same_cursor c c'" by blast
    have "fetch K m ws = (Inr (Some (Some res, int (snd (scroll rows p m)) - int p)), (w\<lparr>srv := s2\<rparr>, c'))"
      using False s2(1) c'(1) x(3) by (simp add: ws fetch_def bindO_def on_snd_def retA_def)
    moreover have "cursor_rel K ap q view rows (snd (scroll rows p m)) (w\<lparr>srv := s2\<rparr>, c')"
      using r s2(2) c'(2,3) by (simp add: cursor_rel_def same_cursor_def)
    ultimately show ?thesis using x(3) by (auto simp: rows_of_def)
  qed
qed

lemma affected_rows_count:
  assumes "PQcmdTuples K r = nat_to_string n" "int n \<le> INT_MAX"
  shows "affected_rows K r = Inr (Some (int n))"
proof -
  have "\<forall>c \<in> set (nat_to_string n). c \<noteq> CHR 0x00"
    using nat_to_string_digits [of n] by (auto simp: is_digit_c_def less_eq_char_def)
  then have "c_string (nat_to_string n) = nat_to_string n" by (simp add: c_string_def takeWhile_all)
  with stoi_nat_to_string [OF assms(2)] assms(1) show ?thesis by (simp add: affected_rows_def)
qed

lemma move_ok:
  assumes "cursor_rel K ap q view rows p ws" "INT_MIN < m" "m \<le> INT_MAX" "can_scroll ap m"
  shows "\<exists>ws'. move_cursor K m ws = (Inr (Some (int (length (fst (scroll rows p m))), int (snd (scroll rows p m)) - int p)), ws') \<and>
    m_empty_result (snd ws') = m_empty_result (snd ws) \<and> cursor_rel K ap q view rows (snd (scroll rows p m)) ws'"
proof -
  obtain w c where ws: "ws = (w, c)" by (cases ws)
  note r = assms(1) [unfolded cursor_rel_def ws fst_conv snd_conv]
  show ?thesis
  proof (cases "m = 0")
    case True
    with r assms(1) scroll_zero [of rows p c] show ?thesis by (auto simp: ws move_cursor_def)
  next
    case False
    from cursor_server_move [of K ap "m_conn (cn w)" "c_name c" q view] r False assms(4) obtain res s' where
      x: "PQexec (pq (ck K)) (m_conn (cn w)) (c_string (''MOVE '' @ stridestring m @ '' IN '' @ q)) (srv w) = (Some res, s')"
      "res_status res = PGRES_COMMAND_OK" "PQcmdTuples K res = nat_to_string (length (fst (scroll rows p m)))"
      "view s' = Some (rows, snd (scroll rows p m))" by blast
    from cursor_command_answer [of K ap "m_conn (cn w)" c q view w "(rows, p)" "''MOVE''" m res s'] r x obtain s2 where
      s2: "cursor_command (ck K) ''MOVE'' m (w, c) = (Inr (Some res), (w\<lparr>srv := s2\<rparr>, c))" "view s2 = Some (rows, snd (scroll rows p m))" by auto
    have "int (length (fst (scroll rows p m))) \<le> INT_MAX"
      using scroll_length [of rows p m] r by (simp add: all_rows_def)
    from affected_rows_count [OF x(3) this] have n: "affected_rows K res = Inr (Some (int (length (fst (scroll rows p m)))))" .
    from adjust_tracks [of rows p c m] r False assms(2,3) obtain c' where
      c': "adjust m (int (length (fst (scroll rows p m)))) c = (Inr (Some (int (snd (scroll rows p m)) - int p)), c')"
      "tracks rows (snd (scroll rows p m)) c'" "same_cursor c c'" by blast
    have "move_cursor K m ws = (Inr (Some (int (length (fst (scroll rows p m))), int (snd (scroll rows p m)) - int p)), (w\<lparr>srv := s2\<rparr>, c'))"
      using False s2(1) c'(1) n by (simp add: ws move_cursor_def bindO_def on_snd_def retA_def liftR_def)
    moreover have "cursor_rel K ap q view rows (snd (scroll rows p m)) (w\<lparr>srv := s2\<rparr>, c')" "m_empty_result c' = m_empty_result c"
      using r s2(2) c'(2,3) by (simp_all add: cursor_rel_def same_cursor_def)
    ultimately show ?thesis by (auto simp: ws)
  qed
qed

section \<open>Sequences of calls\<close>

datatype cursor_call = Fetch int | Move int

text \<open>What the caller gets: the rows or their number, the displacement and \<open>pos()\<close>.\<close>

datatype cursor_answer = Fetched table_rows int int | Moved int int int

fun cursor_op :: "'s cursor_libpq \<Rightarrow> cursor_call \<Rightarrow> ('s cursor_state, cursor_answer option) act" where
  "cursor_op K (Fetch m) = bindO (fetch K m) (\<lambda>(r, d) ws. (Inr (Some (Fetched (rows_of r) d (m_pos (snd ws)))), ws))"
| "cursor_op K (Move m) = bindO (move_cursor K m) (\<lambda>(n, d) ws. (Inr (Some (Moved n d (m_pos (snd ws)))), ws))"

primrec cursor_ops :: "'s cursor_libpq \<Rightarrow> cursor_call list \<Rightarrow> ('s cursor_state, cursor_answer list option) act" where
  "cursor_ops K [] = retA (Some [])"
| "cursor_ops K (x # xs) = bindO (cursor_op K x) (\<lambda>a. bindO (cursor_ops K xs) (\<lambda>as. retA (Some (a # as))))"

fun scroll_op :: "table_rows \<Rightarrow> cursor_call \<Rightarrow> nat \<Rightarrow> cursor_answer \<times> nat" where
  "scroll_op rows (Fetch m) p = (let (rs, p') = scroll rows p m in (Fetched rs (int p' - int p) (int p'), p'))"
| "scroll_op rows (Move m) p = (let (rs, p') = scroll rows p m in (Moved (int (length rs)) (int p' - int p) (int p'), p'))"

primrec scroll_ops :: "table_rows \<Rightarrow> cursor_call list \<Rightarrow> nat \<Rightarrow> cursor_answer list" where
  "scroll_ops rows [] p = []"
| "scroll_ops rows (x # xs) p = fst (scroll_op rows x p) # scroll_ops rows xs (snd (scroll_op rows x p))"

fun distance :: "cursor_call \<Rightarrow> int" where
  "distance (Fetch m) = m"
| "distance (Move m) = m"

lemma cursor_op_ok:
  assumes "cursor_rel K ap q view rows p ws" "INT_MIN < distance x" "distance x \<le> INT_MAX" "can_scroll ap (distance x)"
  shows "\<exists>ws'. cursor_op K x ws = (Inr (Some (fst (scroll_op rows x p))), ws') \<and> cursor_rel K ap q view rows (snd (scroll_op rows x p)) ws'"
proof (cases x)
  case (Fetch m)
  with fetch_ok [OF assms(1), of m] assms(2-4) show ?thesis
    by (auto simp: bindO_def Let_def case_prod_unfold cursor_rel_def tracks_def)
next
  case (Move m)
  with move_ok [OF assms(1), of m] assms(2-4) show ?thesis
    by (auto simp: bindO_def Let_def case_prod_unfold cursor_rel_def tracks_def)
qed

lemma cursor_ops_ok:
  "cursor_rel K ap q view rows p ws \<Longrightarrow> \<forall>x \<in> set calls. INT_MIN < distance x \<and> distance x \<le> INT_MAX \<and> can_scroll ap (distance x) \<Longrightarrow>
   \<exists>ws' p'. cursor_ops K calls ws = (Inr (Some (scroll_ops rows calls p)), ws') \<and> cursor_rel K ap q view rows p' ws'"
proof (induction calls arbitrary: p ws)
  case (Cons x xs)
  from cursor_op_ok [OF Cons.prems(1), of x] Cons.prems(2) obtain ws1 where
    1: "cursor_op K x ws = (Inr (Some (fst (scroll_op rows x p))), ws1)" "cursor_rel K ap q view rows (snd (scroll_op rows x p)) ws1" by auto
  from Cons.IH [OF 1(2)] Cons.prems(2) obtain ws2 p2 where
    "cursor_ops K xs ws1 = (Inr (Some (scroll_ops rows xs (snd (scroll_op rows x p)))), ws2)" "cursor_rel K ap q view rows p2 ws2" by auto
  with 1(1) show ?case by (auto simp: bindO_def retA_def)
qed (auto simp: retA_def)

lemma new_sql_cursor_fields:
  assumes "new_sql_cursor K uid query cname ap up op hold w = (Inr (Some c), w')"
  shows "m_pos c = 0 \<and> m_at_end c = -1 \<and> m_endpos c = -1 \<and> c_name c = fst (adorn_name uid cname) \<and> m_ownership c = op"
  using assms
  by (auto simp: new_sql_cursor_def Let_def bindA_def bindO_def throwA_def init_empty_result_def conn_op_def on_fst_def retA_def
      split: if_splits prod.splits sum.splits option.splits)

lemma new_sql_cursor_rel:
  assumes "new_sql_cursor K uid query cname ap up op hold w = (Inr (Some c), w')"
    and "cursor_server L ap (m_conn (cn w')) (c_name c) q view" "view (srv w') = Some (rows, 0)" "int (length rows) < all_rows"
    and "\<forall>r. m_empty_result c = Some r \<longrightarrow> res_rows r = []"
  shows "cursor_rel L ap q view rows 0 (w', c)"
  using new_sql_cursor_fields [OF assms(1)] assms(2-5) by (simp add: cursor_rel_def tracks_def)

text \<open>
  C14. A cursor object always knows where the server's cursor is, although it only learns how many rows each answer had.
  On a server that keeps its contract, where the new cursor stands before fewer than \<open>cursor_base::all()\<close> rows and its
  \<open>FETCH 0\<close> gave none: after any sequence of
  fetches and moves, forward and, if the cursor can scroll, backward, past either end and by any distances, each fetch gave
  the rows that the cursor passed, each displacement is the one of the server's cursor, \<open>pos\<close> is its position, and
  none of the internal errors was raised.
\<close>

theorem sql_cursor_tracks:
  assumes "new_sql_cursor (ck K) uid query cname ap up op hold w = (Inr (Some c), w')"
    and "cursor_server K ap (m_conn (cn w')) (c_name c) q view" "view (srv w') = Some (rows, 0)" "int (length rows) < all_rows"
    and "\<forall>r. m_empty_result c = Some r \<longrightarrow> res_rows r = []"
    and "\<forall>x \<in> set calls. INT_MIN < distance x \<and> distance x \<le> INT_MAX \<and> can_scroll ap (distance x)"
  shows "\<exists>ws. cursor_ops K calls (w', c) = (Inr (Some (scroll_ops rows calls 0)), ws)"
  using cursor_ops_ok [OF new_sql_cursor_rel [OF assms(1-5)] assms(6)] by blast

section \<open>Stateless cursors\<close>

text \<open>The rows from \<open>b\<close> to before \<open>e\<close>, in either direction, as far as they exist.\<close>

definition row_slice :: "table_rows \<Rightarrow> int \<Rightarrow> int \<Rightarrow> table_rows" where
  "row_slice rows b e =
     (if b \<le> e then take (nat (e - b)) (drop (nat b) rows)
      else rev (drop (nat (e + 1)) (take (nat b + 1) rows)))"

lemma scroll_any: "can_scroll Random_access m"
  by (simp add: can_scroll_def)

lemma stateless_size_ok:
  assumes "cursor_rel K Random_access q view rows p ws"
  shows "\<exists>ws' p'. obtain_stateless_cursor_size K ws = (Inr (Some (int (length rows))), ws') \<and>
    m_empty_result (snd ws') = m_empty_result (snd ws) \<and> cursor_rel K Random_access q view rows p' ws'"
proof -
  obtain w c where ws: "ws = (w, c)" by (cases ws)
  note r = assms [unfolded cursor_rel_def ws fst_conv snd_conv]
  have n: "fits_int (int (length rows)) = Some (int (length rows))"
    using r by (simp add: fits_int_def all_rows_def INT_MAX_def INT_MIN_def)
  show ?thesis
  proof (cases "m_endpos c = -1")
    case True
    from move_ok [OF assms, of all_rows, OF _ _ scroll_any] obtain ws' where m: "move_cursor K all_rows ws =
        (Inr (Some (int (length (fst (scroll rows p all_rows))), int (snd (scroll rows p all_rows)) - int p)), ws')"
      "m_empty_result (snd ws') = m_empty_result (snd ws)" "cursor_rel K Random_access q view rows (snd (scroll rows p all_rows)) ws'"
      by (auto simp: all_rows_def INT_MAX_def INT_MIN_def)
    have "snd (scroll rows p all_rows) = length rows + 1" by (simp add: scroll_def Let_def all_rows_def INT_MAX_def)
    with m(3) have e: "m_endpos (snd ws') - 1 = int (length rows)" "cursor_rel K Random_access q view rows (length rows + 1) ws'"
      by (auto simp: cursor_rel_def tracks_def)
    with True m n show ?thesis
      by (cases ws') (auto simp: ws obtain_stateless_cursor_size_def bindO_def retA_def)
  next
    case False
    then have "m_endpos c - 1 = int (length rows)" using r by (auto simp: tracks_def)
    with False n assms show ?thesis by (auto simp: ws obtain_stateless_cursor_size_def bindO_def retA_def)
  qed
qed

text \<open>Moving to \<open>b\<close> and fetching from there, in terms of the server's cursor.\<close>

lemma scroll_forward: "0 \<le> m \<Longrightarrow> m < all_rows \<Longrightarrow>
   scroll rows p m = (take (nat m) (drop p rows), min (p + nat m) (length rows + 1))"
  by (simp add: scroll_def Let_def)

lemma scroll_backward: "m < 0 \<Longrightarrow> backward_all < m \<Longrightarrow>
   scroll rows p m = (rev (drop (p - 1 - nat (- m)) (take (p - 1) rows)), p - nat (- m))"
  by (simp add: scroll_def Let_def)

lemma scroll_to:
  assumes "p \<le> length rows + 1" "int (length rows) < all_rows" "0 \<le> t" "t \<le> int (length rows) + 2"
  shows "snd (scroll rows p (t - int p)) = min (nat t) (length rows + 1)"
proof (cases "int p \<le> t")
  case True
  have "snd (scroll rows p m) = min (p + nat m) (length rows + 1)" if "0 \<le> m" "int p + m = t" for m
    using that assms by (auto simp: scroll_def Let_def)
  from this [of "t - int p"] True show ?thesis by (simp add: nat_diff_distrib)
next
  case False
  then have "backward_all < t - int p" using assms by (simp add: backward_all_def all_rows_def INT_MIN_def INT_MAX_def)
  with False assms show ?thesis by (simp add: scroll_backward)
qed

definition clip :: "int \<Rightarrow> int \<Rightarrow> int" where
  "clip n e = (if e < -1 then -1 else if e > n then n else e)"

lemma row_slice_clip: "0 \<le> b \<Longrightarrow> b \<le> int (length rows) \<Longrightarrow> row_slice rows b (clip (int (length rows)) e) = row_slice rows b e"
  by (auto simp: row_slice_def clip_def nat_diff_distrib)

lemma row_slice_same: "row_slice rows b b = []"
  by (simp add: row_slice_def)

text \<open>What is fetched between the two positions, and where it goes wrong.\<close>

lemma scroll_slice:
  assumes "0 \<le> b" "b \<le> int (length rows)" "b \<noteq> e" "-1 \<le> e" "e \<le> int (length rows)" "int (length rows) < all_rows"
  shows "fst (scroll rows (min (nat (if b < e then b else b + 2)) (length rows + 1)) (e - b)) =
    (if b = int (length rows) \<and> 0 \<le> e then rev (drop (nat e) rows) else row_slice rows b e)"
proof -
  obtain i where i: "b = int i" "i \<le> length rows" using assms(1,2) by (cases b) auto
  show ?thesis
  proof (cases "b < e")
    case True
    then have "nat b \<le> length rows + 1" "e - b < all_rows" "0 \<le> e - b" using i assms(5,6) by simp_all
    with True scroll_forward [of "e - b" rows "nat b"] assms(5) show ?thesis by (simp add: row_slice_def)
  next
    case False
    then have m: "e - b < 0" "backward_all < e - b" "nat (- (e - b)) = nat (b - e)"
      using assms by (simp_all add: backward_all_def all_rows_def INT_MIN_def INT_MAX_def)
    show ?thesis
    proof (cases "i = length rows")
      case True
      have "min (nat (b + 2)) (length rows + 1) = length rows + 1" using i(1) True by simp
      moreover have "length rows - nat (b - e) = nat e" if "0 \<le> e" using that i(1) True assms(5) by (simp add: nat_diff_distrib')
      moreover have "length rows - nat (b - e) = 0" if "\<not> 0 \<le> e" using that i(1) True by simp
      ultimately show ?thesis using False True i(1) scroll_backward [OF m(1,2), of rows "length rows + 1"] m(3) assms(4)
        by (auto simp: row_slice_def)
    next
      case less: False
      then have p: "min (nat (b + 2)) (length rows + 1) = i + 2" using i by simp
      have "i + 2 - 1 - nat (b - e) = nat (e + 1)" using i(1) False assms(3,4) by (simp add: nat_diff_distrib')
      then show ?thesis using False less i p scroll_backward [OF m(1,2), of rows "i + 2"] m(3) by (simp add: row_slice_def)
    qed
  qed
qed

lemma stateless_retrieve_rows:
  assumes "cursor_rel K Random_access q view rows p ws" "0 \<le> b" "b \<le> int (length rows)"
  shows "\<exists>r ws' p'. stateless_retrieve K b e ws = (Inr (Some r), ws') \<and> cursor_rel K Random_access q view rows p' ws' \<and>
    rows_of r = (if b = int (length rows) \<and> 0 \<le> e \<and> e < b then rev (drop (nat e) rows) else row_slice rows b e)"
proof -
  let ?n = "int (length rows)"
  from stateless_size_ok [OF assms(1)] obtain w c p1 where
    1: "obtain_stateless_cursor_size K ws = (Inr (Some ?n), (w, c))" "cursor_rel K Random_access q view rows p1 (w, c)" by fastforce
  note r = 1(2) [unfolded cursor_rel_def fst_conv snd_conv]
  let ?e = "clip ?n e" and ?res = "\<lambda>r. rows_of r = (if b = ?n \<and> 0 \<le> e \<and> e < b then rev (drop (nat e) rows) else row_slice rows b e)"
  have n: "?n < all_rows" using r by simp
  have e: "-1 \<le> ?e" "?e \<le> ?n" by (auto simp: clip_def)
  have "\<exists>r ws' p'. stateless_cursor_retrieve K ?n b e (w, c) = (Inr (Some r), ws') \<and> cursor_rel K Random_access q view rows p' ws' \<and> ?res r"
  proof (cases "b = ?e")
    case True
    then have "row_slice rows b e = []" using row_slice_clip [OF assms(2,3), of e] row_slice_same [of rows b] by simp
    moreover have "rows_of (m_empty_result c) = []" using r by (auto simp: rows_of_def split: option.split)
    moreover have "\<not> (b = ?n \<and> 0 \<le> e \<and> e < b)" using True by (auto simp: clip_def)
    ultimately show ?thesis
      using True assms(2,3) 1(2) by (auto simp: stateless_cursor_retrieve_def clip_def Let_def)
  next
    case False
    let ?dir = "if b < ?e then 1 else -1" and ?t = "if b < ?e then b else b + 2"
    have d: "(b - ?dir) - (m_pos c - 1) = ?t - int p1" using r by (simp add: tracks_def)
    have p1: "p1 \<le> length rows + 1" using r by (simp add: tracks_def)
    have t: "0 \<le> ?t" "?t \<le> ?n + 2" using assms(2,3) by auto
    have range: "INT_MIN < ?t - int p1" "?t - int p1 \<le> INT_MAX" "INT_MIN < ?e - b" "?e - b \<le> INT_MAX"
      using t p1 n e assms(2,3) by (auto simp: all_rows_def INT_MIN_def INT_MAX_def)
    from move_ok [OF 1(2) range(1,2) scroll_any] obtain n2 ws2 where
      2: "move_cursor K (?t - int p1) (w, c) = (Inr (Some n2), ws2)" "cursor_rel K Random_access q view rows (snd (scroll rows p1 (?t - int p1))) ws2" by blast
    note at = scroll_to [OF p1 n t]
    from fetch_ok [OF 2(2) range(3,4) scroll_any] obtain x n3 ws3 p3 where
      3: "fetch K (?e - b) ws2 = (Inr (Some (x, n3)), ws3)" "rows_of x = fst (scroll rows (min (nat ?t) (length rows + 1)) (?e - b))"
        "cursor_rel K Random_access q view rows p3 ws3" unfolding at by blast
    have fit: "fits_int (?t - int p1) = Some (?t - int p1)" using range(1,2) by (simp add: fits_int_def)
    have "stateless_cursor_retrieve K ?n b e (w, c) = (Inr (Some x), ws3)"
      unfolding stateless_cursor_retrieve_def clip_def [symmetric] Let_def prod.case d fit option.case
      using False assms(2,3) 2(1) 3(1) by (simp add: bindO_def retA_def)
    moreover have "b = ?n \<and> 0 \<le> ?e \<longleftrightarrow> b = ?n \<and> 0 \<le> e \<and> e < b" "b = ?n \<and> 0 \<le> e \<and> e < b \<Longrightarrow> ?e = e"
      using False assms(2) by (auto simp: clip_def split: if_splits)
    then have "?res x"
      unfolding 3(2) scroll_slice [OF assms(2,3) False e n] row_slice_clip [OF assms(2,3)] by auto
    ultimately show ?thesis using 3(3) by blast
  qed
  with 1(1) show ?thesis by (auto simp: stateless_retrieve_def bindO_def)
qed

text \<open>An adopted cursor, which has to be one that scrolls, may stand anywhere; moving it back to the start is what tells the object where it is.\<close>

lemma adopt_stateless_cursor_ok:
  assumes "cursor_server K Random_access (m_conn (cn w)) nm q view" "view (srv w) = Some (rows, p)" "p \<le> length rows + 1" "int (length rows) < all_rows"
  shows "\<exists>ws. adopt_stateless_cursor K nm op w = (Inr (Some ()), ws) \<and> cursor_rel K Random_access q view rows 0 ws"
proof -
  let ?c = "adopt_sql_cursor nm op"
  have m: "backward_all \<noteq> 0" "backward_all < 0" "backward_all \<noteq> INT_MIN" by (simp_all add: backward_all_def INT_MIN_def)
  have s: "length (fst (scroll rows p backward_all)) = p - 1" "snd (scroll rows p backward_all) = 0"
    using assms(3) m(2) by (auto simp: scroll_def Let_def)
  from cursor_server_move [OF assms(1,2) m(1) scroll_any] s obtain r s' where
    x: "PQexec (pq (ck K)) (m_conn (cn w)) (c_string (''MOVE '' @ stridestring backward_all @ '' IN '' @ q)) (srv w) = (Some r, s')"
    "res_status r = PGRES_COMMAND_OK" "PQcmdTuples K r = nat_to_string (p - 1)" "view s' = Some (rows, 0)" by auto
  have srv: "cursor_server K Random_access (m_conn (cn w)) (c_name ?c) q view" using assms(1) by (simp add: adopt_sql_cursor_def)
  from cursor_command_answer [OF srv refl assms(2), of "''MOVE''" backward_all r s'] x obtain s2 where
    s2: "cursor_command (ck K) ''MOVE'' backward_all (w, ?c) = (Inr (Some r), (w\<lparr>srv := s2\<rparr>, ?c))" "view s2 = Some (rows, 0)" by auto
  have p: "int (p - 1) < - backward_all" "int (p - 1) \<le> INT_MAX" "int (p - 1) + 1 \<le> INT_MAX"
    using assms(3,4) by (auto simp: all_rows_def backward_all_def INT_MAX_def INT_MIN_def)
  have a: "adjust backward_all (int (p - 1)) ?c =
      (Inr (Some (-1 * (int (p - 1) + 1))), ?c\<lparr>m_pos := 0, m_at_end := -1, m_endpos := -1\<rparr>)"
  proof -
    let ?d = "?c\<lparr>m_pos := int (p - 1) + 1, m_at_end := -1\<rparr>"
    have "adjust backward_all (int (p - 1)) ?c = settle (-1) (int (p - 1) + 1) False ?d"
      using m p(1) by (simp add: adjust_def Let_def adopt_sql_cursor_def)
    also have "\<dots> = (Inr (Some (-1 * (int (p - 1) + 1))), ?d\<lparr>m_pos := m_pos ?d + -1 * (int (p - 1) + 1), m_endpos := m_endpos ?d\<rparr>)"
      using settle_ok [of ?d "-1" "int (p - 1) + 1" False] p by (simp add: INT_MIN_def INT_MAX_def)
    finally show ?thesis by (simp add: adopt_sql_cursor_def)
  qed
  have "adopt_stateless_cursor K nm op w = (Inr (Some ()), (w\<lparr>srv := s2\<rparr>, ?c\<lparr>m_pos := 0, m_at_end := -1, m_endpos := -1\<rparr>))"
    using m(1) s2(1) a affected_rows_count [OF x(3) p(2)]
    by (simp add: adopt_stateless_cursor_def move_cursor_def bindO_def on_snd_def retA_def liftR_def)
  moreover have "cursor_rel K Random_access q view rows 0 (w\<lparr>srv := s2\<rparr>, ?c\<lparr>m_pos := 0, m_at_end := -1, m_endpos := -1\<rparr>)"
    using assms(1,4) s2(2) by (simp add: cursor_rel_def tracks_def adopt_sql_cursor_def)
  ultimately show ?thesis by blast
qed

text \<open>
  C25. On a stateless cursor, which is declared to scroll, \<open>retrieve\<close> gives the rows from the first position to before the second one, forward or backward, wherever the cursor
  stands and as far as the rows exist, and throws if the first position is out of range; the exception are rows read
  backward from behind the last one.
\<close>

theorem stateless_retrieve_slice:
  assumes "cursor_rel K Random_access q view rows p ws" "\<not> (b = int (length rows) \<and> 0 \<le> e \<and> e < b)"
  shows "if 0 \<le> b \<and> b \<le> int (length rows)
    then \<exists>r ws' p'. stateless_retrieve K b e ws = (Inr (Some r), ws') \<and> rows_of r = row_slice rows b e \<and> cursor_rel K Random_access q view rows p' ws'
    else \<exists>ws' p'. stateless_retrieve K b e ws = (Inl (Pqxx_range_error ''Starting position out of range''), ws') \<and> cursor_rel K Random_access q view rows p' ws'"
proof (cases "0 \<le> b \<and> b \<le> int (length rows)")
  case True
  then have b: "0 \<le> b" "b \<le> int (length rows)" by simp_all
  from stateless_retrieve_rows [OF assms(1) b, of e] assms(2) True show ?thesis by (simp add: if_not_P) blast
next
  case False
  from stateless_size_ok [OF assms(1)] obtain w c p1 where
    "obtain_stateless_cursor_size K ws = (Inr (Some (int (length rows))), (w, c))" "cursor_rel K Random_access q view rows p1 (w, c)" by fastforce
  with False show ?thesis by (auto simp: stateless_retrieve_def bindO_def stateless_cursor_retrieve_def)
qed

text \<open>
  C33. Read backward from the position behind the last row, \<open>retrieve\<close> gives one row too many: the position cannot be moved
  one further, so that the whole range is shifted and the row at the excluded end is part of the result.
\<close>

theorem stateless_backward_from_end:
  assumes "cursor_rel K Random_access q view rows p ws" "0 \<le> e" "e < int (length rows)"
  shows "\<exists>r ws'. stateless_retrieve K (int (length rows)) e ws = (Inr (Some r), ws') \<and>
    rows_of r = row_slice rows (int (length rows)) e @ [rows ! nat e]"
proof -
  have "int (length rows) \<le> int (length rows)" "0 \<le> int (length rows)" by simp_all
  from stateless_retrieve_rows [OF assms(1) this(2,1), of e] assms(2,3) obtain r ws' where
    r: "stateless_retrieve K (int (length rows)) e ws = (Inr (Some r), ws')" "rows_of r = rev (drop (nat e) rows)" by auto
  have "nat e < length rows" "nat (e + 1) = Suc (nat e)" using assms(2,3) by simp_all
  then have "rev (drop (nat e) rows) = row_slice rows (int (length rows)) e @ [rows ! nat e]"
    using assms(3) by (simp add: row_slice_def Cons_nth_drop_Suc [symmetric])
  with r show ?thesis by simp
qed

section \<open>A server to move cursors on\<close>

text \<open>It has one cursor, over the same rows whatever the query; it reads the commands as the contract writes them, and refuses
  to move a cursor backward that was declared NO SCROLL.\<close>

type_synonym cursor_demo = "(access_policy \<times> table_rows \<times> nat) option"

definition demo_view :: "access_policy \<Rightarrow> cursor_demo \<Rightarrow> (table_rows \<times> nat) option" where
  "demo_view ap s = (case s of None \<Rightarrow> None | Some (ap', rows, p) \<Rightarrow> if ap' = ap then Some (rows, p) else None)"

definition stride_value :: "string \<Rightarrow> int" where
  "stride_value s = (if s = ''ALL'' then all_rows else if s = ''BACKWARD'' then backward_all
     else case from_string_arithmetic cpp_int s of Inl _ \<Rightarrow> 0 | Inr v \<Rightarrow> v)"

definition until_blank :: "string \<Rightarrow> string" where
  "until_blank s = takeWhile (\<lambda>c. c \<noteq> CHR '' '') s"

definition cursor_result :: "ExecStatusType \<Rightarrow> string \<Rightarrow> table_rows \<Rightarrow> pgresult" where
  "cursor_result st m rs = \<lparr>res_status = st, res_message = m, res_sqlstate = None, res_columns = 1, res_rows = rs\<rparr>"

definition demo_rows3 :: table_rows where
  "demo_rows3 = [[Some ''a''], [Some ''b''], [Some ''c'']]"

definition cursor_demo_exec :: "string \<Rightarrow> cursor_demo \<Rightarrow> pgresult option \<times> cursor_demo" where
  "cursor_demo_exec cmd s =
     (case s of
        None \<Rightarrow>
          (Some (cursor_result PGRES_COMMAND_OK [] []),
           Some (if is_prefix ''DECLARE q NO SCROLL'' cmd then Forward_only else Random_access, demo_rows3, 0))
      | Some (ap, rows, p) \<Rightarrow>
          let m = stride_value (until_blank (tl (dropWhile (\<lambda>c. c \<noteq> CHR '' '') cmd))); (rs, p') = scroll rows p m in
          if \<not> can_scroll ap m then (Some (cursor_result PGRES_FATAL_ERROR ''cursor can only scan forward'' []), s)
          else
            (Some (if hd cmd = CHR ''F'' then cursor_result PGRES_TUPLES_OK [] rs
                   else cursor_result PGRES_COMMAND_OK (nat_to_string (length rs)) []), Some (ap, rows, p')))"

definition cursor_demo_pq :: "cursor_demo libpq" where
  "cursor_demo_pq = \<lparr>PQconnectdb = (\<lambda>_ s. (Some 0, s)), PQstatus_ok = (\<lambda>_ _. True), PQerrorMessage = (\<lambda>_ _. []),
     PQprotocolVersion = (\<lambda>_ _. 3), PQserverVersion = (\<lambda>_ _. 150000), PQclientEncoding = (\<lambda>_ _. 6),
     pg_encoding_to_char = (\<lambda>_. ''UTF8''), PQexec = (\<lambda>_ q s. cursor_demo_exec q s), PQexecParams = (\<lambda>_ q _ s. (None, s)),
     PQconsumeInput = (\<lambda>_ s. (True, s)), PQnotifies = (\<lambda>_ s. s), PQescapeStringConn = (\<lambda>_ t _. Some t), PQfinish = (\<lambda>_ s. s)\<rparr>"

definition cursor_demo :: "cursor_demo cursor_libpq" where
  "cursor_demo = \<lparr>ck = \<lparr>pq = cursor_demo_pq, PQgetCopyData = (\<lambda>_ s. (-2, [], s)), PQputCopyData = (\<lambda>_ _ s. (-1, s)),
     PQputCopyEnd = (\<lambda>_ s. (-1, s)), PQgetResult = (\<lambda>_ s. (None, s)), PQescapeIdentifier = (\<lambda>_ t _. Some ''q'')\<rparr>,
     PQcmdTuples = res_message\<rparr>"

lemma int_to_string_chars: "\<forall>c \<in> set (int_to_string m). c \<noteq> CHR 0x00 \<and> c \<noteq> CHR '' '' \<and> c \<noteq> CHR ''A'' \<and> c \<noteq> CHR ''B''"
proof -
  have "is_digit_c c \<Longrightarrow> c \<noteq> CHR 0x00 \<and> c \<noteq> CHR '' '' \<and> c \<noteq> CHR ''A'' \<and> c \<noteq> CHR ''B''" for c
    by (auto simp: is_digit_c_def less_eq_char_def)
  with nat_to_string_digits [of "nat (- m)"] nat_to_string_digits [of "nat m"] show ?thesis by (auto simp: int_to_string_def)
qed

lemma stride_value_stridestring:
  assumes "backward_all < m" "m < all_rows"
  shows "stride_value (until_blank (stridestring m @ '' IN q'')) = m"
proof -
  have u: "until_blank (int_to_string m @ '' IN q'') = int_to_string m"
    unfolding until_blank_def by (subst takeWhile_append2) (use int_to_string_chars [of m] in auto)
  have "CHR ''A'' \<notin> set (int_to_string m)" "CHR ''B'' \<notin> set (int_to_string m)"
    using int_to_string_chars [of m] by blast+
  then have "int_to_string m \<noteq> ''ALL''" "int_to_string m \<noteq> ''BACKWARD''" by (metis list.set_intros(1))+
  moreover have "from_string_arithmetic cpp_int (int_to_string m) = Inr m"
    using int.from_text [of m True] assms by (simp add: integer_type_def all_rows_def backward_all_def INT_MAX_def INT_MIN_def)
  ultimately show ?thesis using assms by (simp add: stridestring_def u stride_value_def)
qed

lemma stride_value_scroll:
  "scroll rows p (stride_value (until_blank (stridestring m @ '' IN q''))) = scroll rows p m"
proof -
  consider "all_rows \<le> m" | "m \<le> backward_all" "\<not> all_rows \<le> m" | "backward_all < m" "m < all_rows" by linarith
  then show ?thesis
  proof cases
    case 1
    then have "stride_value (until_blank (stridestring m @ '' IN q'')) = all_rows"
      by (simp add: stridestring_def until_blank_def stride_value_def)
    with 1 show ?thesis by (simp add: scroll_def all_rows_def INT_MAX_def)
  next
    case 2
    then have "stride_value (until_blank (stridestring m @ '' IN q'')) = backward_all"
      by (simp add: stridestring_def until_blank_def stride_value_def)
    with 2 show ?thesis by (simp add: scroll_def backward_all_def INT_MIN_def)
  next
    case 3
    then show ?thesis by (simp add: stride_value_stridestring)
  qed
qed

lemma stride_value_sign: "can_scroll ap (stride_value (until_blank (stridestring m @ '' IN q''))) \<longleftrightarrow> can_scroll ap m"
proof -
  consider "all_rows \<le> m" | "m \<le> backward_all" "\<not> all_rows \<le> m" | "backward_all < m" "m < all_rows" by linarith
  then show ?thesis
  proof cases
    case 1
    then show ?thesis
      by (simp add: stridestring_def until_blank_def stride_value_def can_scroll_def all_rows_def INT_MAX_def)
  next
    case 2
    then show ?thesis
      by (simp add: stridestring_def until_blank_def stride_value_def can_scroll_def backward_all_def INT_MIN_def)
  qed (simp add: stride_value_stridestring)
qed

lemma stridestring_no_zero: "\<forall>c \<in> set (stridestring m). c \<noteq> CHR 0x00"
  using int_to_string_chars [of m] by (simp add: stridestring_def)

lemma cursor_demo_serves: "cursor_server cursor_demo ap con nm ''q'' (demo_view ap)"
proof -
  have c: "c_string (verb @ '' '' @ stridestring m @ '' IN q'') = verb @ '' '' @ stridestring m @ '' IN q''"
    if "verb = ''FETCH'' \<or> verb = ''MOVE''" for verb m
    unfolding c_string_def takeWhile_eq_all_conv
    using that stridestring_no_zero [of m] by (elim disjE) (simp_all add: ball_Un)
  have f: "\<exists>r. cursor_demo_exec (c_string (''FETCH '' @ stridestring m @ '' IN '' @ ''q'')) (Some (ap, rows, p)) = (Some r, Some (ap, rows, snd (scroll rows p m))) \<and>
      res_status r = PGRES_TUPLES_OK \<and> res_rows r = fst (scroll rows p m)" if "can_scroll ap m" for rows p m
    using that c [of "''FETCH''" m] stride_value_scroll [of rows p m] stride_value_sign [of ap m]
    by (simp add: cursor_demo_exec_def cursor_result_def case_prod_unfold Let_def)
  have m: "\<exists>r. cursor_demo_exec (c_string (''MOVE '' @ stridestring m @ '' IN '' @ ''q'')) (Some (ap, rows, p)) = (Some r, Some (ap, rows, snd (scroll rows p m))) \<and>
      res_status r = PGRES_COMMAND_OK \<and> res_message r = nat_to_string (length (fst (scroll rows p m)))" if "can_scroll ap m" for rows p m
    using that c [of "''MOVE''" m] stride_value_scroll [of rows p m] stride_value_sign [of ap m]
    by (simp add: cursor_demo_exec_def cursor_result_def case_prod_unfold Let_def)
  have v: "demo_view ap s = Some (rows, p) \<longleftrightarrow> s = Some (ap, rows, p)" for s rows p
    by (auto simp: demo_view_def split: option.splits if_splits)
  show ?thesis
    unfolding cursor_server_def v
    using f m by (simp add: cursor_demo_def cursor_demo_pq_def enc_group_def enc_group_names_def v)
qed

definition cursor_scope :: "cursor_demo scope" where
  "cursor_scope = \<lparr>srv = None, cn = \<lparr>m_conn = 0, m_trans = Some (trans_guest new_transaction), notices = []\<rparr>,
     tx = new_transaction\<lparr>m_registered := True, m_status := Active\<rparr>\<rparr>"

lemma demo_cursor:
  "\<exists>c w. new_sql_cursor (ck cursor_demo) 4 ''SELECT x; '' ''cur'' ap Read_only Owned False cursor_scope = (Inr (Some c), w) \<and>
     demo_view ap (srv w) = Some (demo_rows3, 0) \<and> (\<forall>r. m_empty_result c = Some r \<longrightarrow> res_rows r = [])"
proof -
  have e: "find_query_end ''SELECT x; '' UTF8 = Inr (Some 8)" by code_simp
  have f: "cursor_demo_exec (c_string (declare_text ''q'' ''SELECT x'' ap Read_only False)) None =
      (Some (cursor_result PGRES_COMMAND_OK [] []), Some (ap, demo_rows3, 0))"
    by (cases ap) (simp_all add: cursor_demo_exec_def declare_text_def c_string_def is_prefix_def)
  have z: "scroll demo_rows3 0 0 = ([], 0)" by (simp add: scroll_def all_rows_def INT_MAX_def)
  have st: "stride_value (until_blank ''0 IN q'') = 0"
    using int.from_text [of 0 True] by (simp add: stride_value_def until_blank_def integer_type_def int_to_string_def nat_to_string.simps digit_char_values)
  have g: "cursor_demo_exec (c_string ''FETCH 0 IN q'') (Some (ap, demo_rows3, 0)) =
      (Some (cursor_result PGRES_TUPLES_OK [] []), Some (ap, demo_rows3, 0))"
    by (simp add: cursor_demo_exec_def c_string_def st z can_scroll_def)
  have v: "demo_view ap (Some (ap, demo_rows3, 0)) = Some (demo_rows3, 0)" by (simp add: demo_view_def)
  show ?thesis
    using e f g v
    by (simp add: new_sql_cursor_def Let_def bindA_def bindO_def liftR_def retA_def encoding_id_def cursor_demo_def cursor_demo_pq_def
        enc_group_def enc_group_names_def quote_name_def tx_exec_def check_pending_error_def with_command_def finallyA_def
        register_focus_def unregister_focus_def check_unique_register_def check_unique_unregister_def direct_exec_def conn_exec_def
        make_result_def get_notifs_def check_status_def status_error_def cursor_result_def init_empty_result_def conn_op_def on_fst_def
        cursor_scope_def new_transaction_def command_guest_def)
qed

lemma sql_cursor_tracks_witness:
  "\<exists>c w ws. new_sql_cursor (ck cursor_demo) 4 ''SELECT x; '' ''cur'' Random_access Read_only Owned False cursor_scope = (Inr (Some c), w) \<and>
     cursor_ops cursor_demo [Fetch 2, Move 5, Fetch (-1), Move backward_all] (w, c) =
       (Inr (Some [Fetched [[Some ''a''], [Some ''b'']] 2 2, Moved 1 2 4, Fetched [[Some ''c'']] (-1) 3, Moved 2 (-3) 0]), ws)"
proof -
  let ?ops = "[Fetch 2, Move 5, Fetch (-1), Move backward_all]"
  from demo_cursor obtain c w where c: "new_sql_cursor (ck cursor_demo) 4 ''SELECT x; '' ''cur'' Random_access Read_only Owned False cursor_scope = (Inr (Some c), w)"
    "demo_view Random_access (srv w) = Some (demo_rows3, 0)" "\<forall>r. m_empty_result c = Some r \<longrightarrow> res_rows r = []" by blast
  have n: "int (length demo_rows3) < all_rows" by (simp add: demo_rows3_def all_rows_def INT_MAX_def)
  have d: "\<forall>x \<in> set ?ops. INT_MIN < distance x \<and> distance x \<le> INT_MAX \<and> can_scroll Random_access (distance x)"
    by (simp add: backward_all_def INT_MIN_def INT_MAX_def can_scroll_def)
  have "scroll_ops demo_rows3 ?ops 0 =
      [Fetched [[Some ''a''], [Some ''b'']] 2 2, Moved 1 2 4, Fetched [[Some ''c'']] (-1) 3, Moved 2 (-3) 0]"
    by (simp add: demo_rows3_def scroll_def Let_def all_rows_def backward_all_def INT_MAX_def INT_MIN_def)
  with sql_cursor_tracks [OF c(1) cursor_demo_serves c(2) n c(3) d] c(1) show ?thesis by auto
qed

lemma demo_cursor_rel:
  obtains c w where "cursor_rel cursor_demo Random_access ''q'' (demo_view Random_access) demo_rows3 0 (w, c)"
proof -
  from demo_cursor obtain c w where c: "new_sql_cursor (ck cursor_demo) 4 ''SELECT x; '' ''cur'' Random_access Read_only Owned False cursor_scope = (Inr (Some c), w)"
    "demo_view Random_access (srv w) = Some (demo_rows3, 0)" "\<forall>r. m_empty_result c = Some r \<longrightarrow> res_rows r = []" by blast
  have "int (length demo_rows3) < all_rows" by (simp add: demo_rows3_def all_rows_def INT_MAX_def)
  from new_sql_cursor_rel [OF c(1) cursor_demo_serves c(2) this c(3)] show thesis by (rule that)
qed

lemma stateless_retrieve_slice_witness:
  "\<exists>w c r ws. demo_view Random_access (srv w) = Some (demo_rows3, 0) \<and> stateless_retrieve cursor_demo 2 0 (w, c) = (Inr (Some r), ws) \<and>
     rows_of r = [[Some ''c''], [Some ''b'']]"
proof -
  obtain w c where r: "cursor_rel cursor_demo Random_access ''q'' (demo_view Random_access) demo_rows3 0 (w, c)" by (rule demo_cursor_rel)
  have n: "\<not> (2 = int (length demo_rows3) \<and> 0 \<le> (0 :: int) \<and> (0 :: int) < 2)" by (simp add: demo_rows3_def)
  have s: "row_slice demo_rows3 2 0 = [[Some ''c''], [Some ''b'']]" by (simp add: row_slice_def demo_rows3_def)
  from stateless_retrieve_slice [OF r n] s r show ?thesis by (fastforce simp: demo_rows3_def cursor_rel_def)
qed

lemma stateless_backward_from_end_witness:
  "\<exists>w c r ws. demo_view Random_access (srv w) = Some (demo_rows3, 0) \<and> stateless_retrieve cursor_demo 3 1 (w, c) = (Inr (Some r), ws) \<and>
     rows_of r = [[Some ''c''], [Some ''b'']]"
proof -
  obtain w c where r: "cursor_rel cursor_demo Random_access ''q'' (demo_view Random_access) demo_rows3 0 (w, c)" by (rule demo_cursor_rel)
  have n: "(0 :: int) \<le> 1" "1 < int (length demo_rows3)" by (simp_all add: demo_rows3_def)
  have s: "row_slice demo_rows3 3 1 = [[Some ''c'']]" "demo_rows3 ! nat 1 = [Some ''b'']" "int (length demo_rows3) = 3"
    by (simp_all add: row_slice_def demo_rows3_def)
  from stateless_backward_from_end [OF r n, unfolded s] obtain x ws where
    "stateless_retrieve cursor_demo 3 1 (w, c) = (Inr (Some x), ws)" "rows_of x = [[Some ''c''], [Some ''b'']]" by auto
  moreover have "demo_view Random_access (srv w) = Some (demo_rows3, 0)" using r by (simp add: cursor_rel_def)
  ultimately show ?thesis by blast
qed

section \<open>The end of a query\<close>

text \<open>
  Glyph by glyph, what is cut off is the longest run of blanks and semicolons at the end, and reading backwards in an
  encoding of single bytes gives the same.
\<close>

definition useless_glyph :: "string \<Rightarrow> bool" where
  "useless_glyph g \<longleftrightarrow> length g = 1 \<and> useless_trail (hd g)"

lemma last_useful_bytes: "last_useful t (length t) = length (rev (dropWhile useless_trail (rev t)))"
proof (induction t rule: rev_induct)
  case (snoc c t)
  have "last_useful (t @ [c]) n = last_useful t n" if "n \<le> length t" for n
    using that by (induction n) (auto simp: nth_append)
  with snoc show ?case by (simp add: nth_append)
qed simp

definition query_glyphs :: "string list \<Rightarrow> string list" where
  "query_glyphs gs = rev (dropWhile useless_glyph (rev gs))"

lemma query_glyphs_Cons: "query_glyphs (g # gs) = (if query_glyphs gs = [] \<and> useless_glyph g then [] else g # query_glyphs gs)"
  by (auto simp: query_glyphs_def dropWhile_append dropWhile_eq_Nil_conv)

lemma find_end_glyphs:
  assumes "list_all (is_glyph enc) gs"
  shows "for_glyphs enc (\<lambda>b e en. if e - b > 1 \<or> \<not> useless_trail ((a @ concat gs) ! b) then e else en) (a @ concat gs) (length a) acc =
    (Inr (Some ()), if query_glyphs gs = [] then acc else length a + length (concat (query_glyphs gs)))"
  using assms
proof (induction gs arbitrary: a acc)
  case Nil
  show ?case by (subst for_glyphs.simps) (simp add: query_glyphs_def)
next
  case (Cons g gs)
  let ?s = "a @ concat (g # gs)"
  have g: "is_glyph enc g" "g \<noteq> []" using Cons.prems by (auto simp: is_glyph_def)
  have "get_glyph_scanner enc ?s (length ?s) (length a) = Inr (Some (length a + length g))"
    using glyph_at [OF g(1), of a "length ?s" "concat gs"] by simp
  moreover have "length a < length ?s" "?s ! length a = hd g" using g(2) by (cases g; simp)+
  moreover have "(length a + length g - length a > 1 \<or> \<not> useless_trail (hd g)) = (\<not> useless_glyph g)"
    using g(2) by (cases g) (auto simp: useless_glyph_def)
  moreover have "?s = (a @ g) @ concat gs" by simp
  ultimately show ?case
    using Cons.IH [of "a @ g"] Cons.prems
    by (subst for_glyphs.simps) (simp add: query_glyphs_Cons)
qed

lemma query_bytes: "concat (query_glyphs (map (\<lambda>c. [c]) t)) = rev (dropWhile useless_trail (rev t))"
proof -
  have "useless_glyph \<circ> (\<lambda>c. [c]) = useless_trail" by (simp add: fun_eq_iff useless_glyph_def)
  then have "query_glyphs (map (\<lambda>c. [c]) t) = map (\<lambda>c. [c]) (rev (dropWhile useless_trail (rev t)))"
    by (simp add: query_glyphs_def dropWhile_map rev_map)
  then show ?thesis by simp
qed

lemma find_query_end_glyphs:
  assumes "list_all (is_glyph enc) gs"
  shows "find_query_end (concat gs) enc = Inr (Some (length (concat (query_glyphs gs))))"
proof (cases "enc = MONOBYTE")
  case True
  have "gs = map (\<lambda>c. [c]) (concat gs)"
    using assms True
  proof (induction gs)
    case (Cons g gs)
    then have "g \<noteq> []" "length g = 1"
      by (auto simp: is_glyph_def get_glyph_scanner_def scan_MONOBYTE_def glyph_end_def split: if_splits)
    then obtain c where "g = [c]" by (cases g) auto
    with Cons show ?case by simp
  qed simp
  then have "concat (query_glyphs gs) = rev (dropWhile useless_trail (rev (concat gs)))" using query_bytes by metis
  with True last_useful_bytes [of "concat gs"] show ?thesis by (simp add: find_query_end_def)
next
  case False
  have e: "query_glyphs gs = [] \<Longrightarrow> concat (query_glyphs gs) = []" by simp
  show ?thesis using False find_end_glyphs [OF assms, of "[]" 0] by (auto simp: find_query_end_def e)
qed

end
