(* ===== verification/Pqxx_Cursor_Stream.thy ===== *)
theory Pqxx_Cursor_Stream
  imports Pqxx_Cursor_Spec
begin

text \<open>
  \<open>icursorstream\<close> and \<open>icursor_iterator\<close> (\<open>src/cursor.cxx\<close>, \<open>include/pqxx/cursor.hxx\<close>): blocks of rows read through a
  cursor.  The iterators on a stream are a doubly linked list of pointers, so streams and iterators live in a store,
  a function from addresses to live objects; a null pointer is \<open>None\<close>.  The outcome \<open>None\<close> of an operation is undefined
  behaviour: a null pointer is followed or an \<open>int\<close> overflows, or the walk along a circular list does not end.
\<close>

section \<open>State\<close>

record icursorstream =
  m_cur :: sql_cursor
  m_stride :: int
  m_realpos :: int
  m_reqpos :: int
  m_iterators :: "nat option"
  m_done :: bool

record icursor_iterator =
  m_stream :: "nat option"
  m_here :: "pgresult option"
  it_pos :: int
  m_prev :: "nat option"
  m_next :: "nat option"

record 's cursor_store =
  ic_scope :: "'s scope"
  streams :: "nat \<Rightarrow> icursorstream"
  iters :: "nat \<Rightarrow> icursor_iterator"

definition upd_stream :: "nat \<Rightarrow> (icursorstream \<Rightarrow> icursorstream) \<Rightarrow> 's cursor_store \<Rightarrow> 's cursor_store" where
  "upd_stream sid f w = w\<lparr>streams := (streams w)(sid := f (streams w sid))\<rparr>"

definition upd_iter :: "nat \<Rightarrow> (icursor_iterator \<Rightarrow> icursor_iterator) \<Rightarrow> 's cursor_store \<Rightarrow> 's cursor_store" where
  "upd_iter i f w = w\<lparr>iters := (iters w)(i := f (iters w i))\<rparr>"

text \<open>An action on the cursor of a stream.\<close>

definition with_cursor :: "nat \<Rightarrow> ('s cursor_state, 'a) act \<Rightarrow> ('s cursor_store, 'a) act" where
  "with_cursor sid m = (\<lambda>w.
     case m (ic_scope w, m_cur (streams w sid)) of
       (r, (sc, c)) \<Rightarrow> (r, upd_stream sid (\<lambda>s. s\<lparr>m_cur := c\<rparr>) (w\<lparr>ic_scope := sc\<rparr>)))"

text \<open>A result that is checked for overflow.\<close>

definition int_result :: "int \<Rightarrow> ('w, int option) act" where
  "int_result v = retA (fits_int v)"

section \<open>The stream\<close>

definition stride_error :: "int \<Rightarrow> exn" where
  "stride_error n = Pqxx_argument_error (''Attempt to set cursor stride to '' @ int_to_string n)"

definition set_stride :: "nat \<Rightarrow> int \<Rightarrow> ('s cursor_store, unit option) act" where
  "set_stride sid n = (\<lambda>w.
     if n < 1 then (Inl (stride_error n), w) else (Inr (Some ()), upd_stream sid (\<lambda>s. s\<lparr>m_stride := n\<rparr>) w))"

text \<open>The constructors; if they throw, the destructor of the cursor closes it.\<close>

definition init_stream :: "'s copy_libpq \<Rightarrow> nat \<Rightarrow> sql_cursor \<Rightarrow> int \<Rightarrow> ('s cursor_store, unit option) act" where
  "init_stream K sid c sstride = (\<lambda>w.
     case set_stride sid sstride (upd_stream sid (\<lambda>_. \<lparr>m_cur = c, m_stride = sstride, m_realpos = 0, m_reqpos = 0,
         m_iterators = None, m_done = False\<rparr>) w) of
       (Inl e, w) \<Rightarrow> bindO (with_cursor sid (close_sql_cursor K)) (\<lambda>_. throwA e) w
     | x \<Rightarrow> x)"

definition new_icursorstream :: "'s copy_libpq \<Rightarrow> int \<Rightarrow> nat \<Rightarrow> string \<Rightarrow> string \<Rightarrow> int \<Rightarrow> ('s cursor_store, unit option) act" where
  "new_icursorstream K uid sid query basename sstride = (\<lambda>w.
     case new_sql_cursor K uid query basename Forward_only Read_only Owned False (ic_scope w) of
       (Inl e, sc) \<Rightarrow> (Inl e, w\<lparr>ic_scope := sc\<rparr>)
     | (Inr None, sc) \<Rightarrow> (Inr None, w\<lparr>ic_scope := sc\<rparr>)
     | (Inr (Some c), sc) \<Rightarrow> init_stream K sid c sstride (w\<lparr>ic_scope := sc\<rparr>))"

definition adopt_icursorstream :: "'s copy_libpq \<Rightarrow> nat \<Rightarrow> string \<Rightarrow> int \<Rightarrow> ownership_policy \<Rightarrow> ('s cursor_store, unit option) act" where
  "adopt_icursorstream K sid cname sstride op = init_stream K sid (adopt_sql_cursor cname op) sstride"

definition fetchblock :: "'s cursor_libpq \<Rightarrow> nat \<Rightarrow> ('s cursor_store, pgresult option option) act" where
  "fetchblock K sid = (\<lambda>w.
     bindO (with_cursor sid (fetch K (m_stride (streams w sid)))) (\<lambda>(r, _) w.
     bindO (int_result (m_realpos (streams w sid) + int (length (rows_of r)))) (\<lambda>p w.
       (Inr (Some r), upd_stream sid (\<lambda>s. s\<lparr>m_realpos := p, m_done := m_done s \<or> rows_of r = []\<rparr>) w)) w) w)"

text \<open>The number of rows is a \<open>std::streamsize\<close>, converted to \<open>int\<close>.\<close>

definition to_int :: "int \<Rightarrow> int" where
  "to_int n = (n - INT_MIN) mod 2 ^ 32 + INT_MIN"

definition ignore_rows :: "'s cursor_libpq \<Rightarrow> nat \<Rightarrow> int \<Rightarrow> ('s cursor_store, unit option) act" where
  "ignore_rows K sid n =
     bindO (with_cursor sid (move_cursor K (to_int n))) (\<lambda>(offset, _) w.
     bindO (int_result (m_realpos (streams w sid) + offset)) (\<lambda>p w.
       (Inr (Some ()), upd_stream sid (\<lambda>s. s\<lparr>m_realpos := p, m_done := m_done s \<or> offset < n\<rparr>) w)) w)"

definition forward :: "nat \<Rightarrow> int \<Rightarrow> ('s cursor_store, int option) act" where
  "forward sid n = (\<lambda>w.
     case fits_int (n * m_stride (streams w sid)) of
       None \<Rightarrow> (Inr None, w)
     | Some d \<Rightarrow>
         bindO (int_result (m_reqpos (streams w sid) + d)) (\<lambda>p w.
           (Inr (Some p), upd_stream sid (\<lambda>s. s\<lparr>m_reqpos := p\<rparr>) w)) w)"

definition insert_iterator :: "nat \<Rightarrow> nat \<Rightarrow> 's cursor_store \<Rightarrow> 's cursor_store" where
  "insert_iterator sid i w =
     (let first = m_iterators (streams w sid);
          w = upd_iter i (\<lambda>x. x\<lparr>m_next := first\<rparr>) w;
          w = (case first of None \<Rightarrow> w | Some h \<Rightarrow> upd_iter h (\<lambda>x. x\<lparr>m_prev := Some i\<rparr>) w)
      in upd_stream sid (\<lambda>s. s\<lparr>m_iterators := Some i\<rparr>) w)"

definition remove_iterator :: "nat \<Rightarrow> nat \<Rightarrow> ('s cursor_store, unit option) act" where
  "remove_iterator sid i = (\<lambda>w.
     let unlink = upd_iter i (\<lambda>x. x\<lparr>m_prev := None, m_next := None\<rparr>); prev = m_prev (iters w i); nxt = m_next (iters w i) in
     if m_iterators (streams w sid) = Some i then
       (Inr (Some ()), unlink (case nxt of
            None \<Rightarrow> upd_stream sid (\<lambda>s. s\<lparr>m_iterators := nxt\<rparr>) w
          | Some h \<Rightarrow> upd_iter h (\<lambda>x. x\<lparr>m_prev := None\<rparr>) (upd_stream sid (\<lambda>s. s\<lparr>m_iterators := nxt\<rparr>) w)))
     else
       case prev of
         None \<Rightarrow> (Inr None, w)
       | Some p \<Rightarrow>
           let w = upd_iter p (\<lambda>x. x\<lparr>m_next := nxt\<rparr>) w in
           (Inr (Some ()), unlink (case nxt of None \<Rightarrow> w | Some h \<Rightarrow> upd_iter h (\<lambda>x. x\<lparr>m_prev := prev\<rparr>) w)))"

section \<open>Filling the iterators\<close>

text \<open>The iterators of a list, in its order.\<close>

partial_function (option) walk :: "(nat \<Rightarrow> icursor_iterator) \<Rightarrow> nat option \<Rightarrow> nat list option" where
  "walk h p = (case p of
       None \<Rightarrow> Some []
     | Some a \<Rightarrow> Option.bind (walk h (m_next (h a))) (\<lambda>l. Some (a # l)))"

text \<open>Insertion into the multimap, behind the entries with the same key.\<close>

fun todo_insert :: "int \<times> nat \<Rightarrow> (int \<times> nat) list \<Rightarrow> (int \<times> nat) list" where
  "todo_insert e [] = [e]"
| "todo_insert e (x # xs) = (if fst x \<le> fst e then x # todo_insert e xs else e # x # xs)"

definition fill :: "pgresult option \<Rightarrow> nat \<Rightarrow> 's cursor_store \<Rightarrow> 's cursor_store" where
  "fill r i = upd_iter i (\<lambda>x. x\<lparr>m_here := r\<rparr>)"

function service_todo :: "'s cursor_libpq \<Rightarrow> nat \<Rightarrow> (int \<times> nat) list \<Rightarrow> ('s cursor_store, unit option) act" where
  "service_todo K sid [] = retA (Some ())"
| "service_todo K sid (e # es) = (\<lambda>w.
     bindO (if fst e > m_realpos (streams w sid) then ignore_rows K sid (fst e - m_realpos (streams w sid)) else retA (Some ())) (\<lambda>_.
     bindO (fetchblock K sid) (\<lambda>r w.
     service_todo K sid (dropWhile (\<lambda>x. fst x = fst e) es)
       (fold (\<lambda>x. fill r (snd x)) (e # takeWhile (\<lambda>x. fst x = fst e) es) w))) w)"
  by pat_completeness auto
termination
  by (relation "measure (\<lambda>(K, sid, todo). length todo)") (auto simp: le_imp_less_Suc length_dropWhile_le)

declare service_todo.simps [simp del]

definition service_iterators :: "'s cursor_libpq \<Rightarrow> nat \<Rightarrow> int \<Rightarrow> ('s cursor_store, unit option) act" where
  "service_iterators K sid topos = (\<lambda>w.
     if topos < m_realpos (streams w sid) then (Inr (Some ()), w)
     else
       case walk (iters w) (m_iterators (streams w sid)) of
         None \<Rightarrow> (Inr None, w)
       | Some xs \<Rightarrow>
           let due = filter (\<lambda>i. it_pos (iters w i) \<ge> m_realpos (streams w sid) \<and> it_pos (iters w i) \<le> topos) xs in
           service_todo K sid (fold (\<lambda>i. todo_insert (it_pos (iters w i), i)) due []) w)"

section \<open>Iterators\<close>

definition end_iterator :: icursor_iterator where
  "end_iterator = \<lparr>m_stream = None, m_here = None, it_pos = 0, m_prev = None, m_next = None\<rparr>"

definition new_iterator :: "nat \<Rightarrow> nat \<Rightarrow> ('s cursor_store, unit option) act" where
  "new_iterator sid i =
     bindO (forward sid 0) (\<lambda>p w.
       (Inr (Some ()), insert_iterator sid i (upd_iter i (\<lambda>_. end_iterator\<lparr>m_stream := Some sid, it_pos := p\<rparr>) w)))"

definition copy_iterator :: "nat \<Rightarrow> nat \<Rightarrow> 's cursor_store \<Rightarrow> 's cursor_store" where
  "copy_iterator rhs i w =
     (let x = iters w rhs; w = upd_iter i (\<lambda>_. x\<lparr>m_prev := None, m_next := None\<rparr>) w in
      case m_stream x of None \<Rightarrow> w | Some sid \<Rightarrow> insert_iterator sid i w)"

definition destroy_iterator :: "nat \<Rightarrow> ('s cursor_store, unit option) act" where
  "destroy_iterator i = (\<lambda>w. case m_stream (iters w i) of None \<Rightarrow> (Inr (Some ()), w) | Some sid \<Rightarrow> remove_iterator sid i w)"

definition step_iterator :: "nat \<Rightarrow> int \<Rightarrow> ('s cursor_store, unit option) act" where
  "step_iterator i n = (\<lambda>w.
     case m_stream (iters w i) of
       None \<Rightarrow> (Inr None, w)
     | Some sid \<Rightarrow>
         bindO (forward sid n) (\<lambda>p w. (Inr (Some ()), upd_iter i (\<lambda>x. x\<lparr>it_pos := p, m_here := None\<rparr>) w)) w)"

definition pre_increment :: "nat \<Rightarrow> ('s cursor_store, unit option) act" where
  "pre_increment i = step_iterator i 1"

text \<open>\<open>i++\<close>; the old value is an object of its own.\<close>

definition post_increment :: "nat \<Rightarrow> nat \<Rightarrow> ('s cursor_store, unit option) act" where
  "post_increment i old = (\<lambda>w. step_iterator i 1 (copy_iterator i old w))"

definition advance_iterator :: "nat \<Rightarrow> int \<Rightarrow> ('s cursor_store, unit option) act" where
  "advance_iterator i n = (\<lambda>w.
     if n = 0 then (Inr (Some ()), w)
     else if n < 0 then (Inl (Pqxx_argument_error ''Advancing icursor_iterator by negative offset.''), w)
     else step_iterator i n w)"

definition assign_iterator :: "nat \<Rightarrow> nat \<Rightarrow> ('s cursor_store, unit option) act" where
  "assign_iterator i rhs = (\<lambda>w.
     let y = iters w rhs in
     if m_stream y = m_stream (iters w i) then (Inr (Some ()), upd_iter i (\<lambda>x. x\<lparr>m_here := m_here y, it_pos := it_pos y\<rparr>) w)
     else
       bindO (\<lambda>w. case m_stream (iters w i) of None \<Rightarrow> (Inr (Some ()), w) | Some sid \<Rightarrow> remove_iterator sid i w) (\<lambda>_ w.
         let w = upd_iter i (\<lambda>x. x\<lparr>m_here := m_here y, it_pos := it_pos y, m_stream := m_stream y\<rparr>) w in
         (Inr (Some ()), case m_stream y of None \<Rightarrow> w | Some sid \<Rightarrow> insert_iterator sid i w)) w)"

definition refresh :: "'s cursor_libpq \<Rightarrow> nat \<Rightarrow> ('s cursor_store, unit option) act" where
  "refresh K i = (\<lambda>w.
     case m_stream (iters w i) of
       None \<Rightarrow> (Inr (Some ()), w)
     | Some sid \<Rightarrow> service_iterators K sid (it_pos (iters w i)) w)"

definition deref_iterator :: "'s cursor_libpq \<Rightarrow> nat \<Rightarrow> ('s cursor_store, pgresult option option) act" where
  "deref_iterator K i = bindO (refresh K i) (\<lambda>_ w. (Inr (Some (m_here (iters w i))), w))"

definition iterators_equal :: "'s cursor_libpq \<Rightarrow> nat \<Rightarrow> nat \<Rightarrow> ('s cursor_store, bool option) act" where
  "iterators_equal K i j = (\<lambda>w.
     if m_stream (iters w i) = m_stream (iters w j) then (Inr (Some (it_pos (iters w i) = it_pos (iters w j))), w)
     else if m_stream (iters w i) \<noteq> None \<and> m_stream (iters w j) \<noteq> None then (Inr (Some False), w)
     else
       bindO (refresh K i) (\<lambda>_.
       bindO (refresh K j) (\<lambda>_ w.
         (Inr (Some (rows_of (m_here (iters w i)) = [] \<and> rows_of (m_here (iters w j)) = [])), w))) w)"

definition iterator_less :: "'s cursor_libpq \<Rightarrow> nat \<Rightarrow> nat \<Rightarrow> ('s cursor_store, bool option) act" where
  "iterator_less K i j = (\<lambda>w.
     if m_stream (iters w i) = m_stream (iters w j) then (Inr (Some (it_pos (iters w i) < it_pos (iters w j))), w)
     else
       bindO (refresh K i) (\<lambda>_.
       bindO (refresh K j) (\<lambda>_ w. (Inr (Some (rows_of (m_here (iters w i)) \<noteq> [])), w))) w)"

end
