(* ===== verification/Pqxx_Cursor_Iter.thy ===== *)
theory Pqxx_Cursor_Iter
  imports Pqxx_Cursor_Stream
begin

text \<open>
  The iterators of a cursor stream.  First the pointers: every live iterator is in the list of its stream and nowhere
  else, whatever is constructed, copied, assigned and destroyed in which order.  Then the rows: iterators that stem
  from one another read the blocks of the rows at their positions, in any order and however often, whereas one that is
  constructed on a stream that was read from before sees nothing.
\<close>

section \<open>The list of iterators\<close>

text \<open>A part of a doubly linked list: its first node has \<open>pr\<close> before it and \<open>p\<close> points to it, \<open>q\<close> is its last node and \<open>r\<close> what follows.\<close>

primrec dseg :: "(nat \<Rightarrow> icursor_iterator) \<Rightarrow> nat option \<Rightarrow> nat option \<Rightarrow> nat list \<Rightarrow> nat option \<Rightarrow> nat option \<Rightarrow> bool" where
  "dseg h pr p [] q r \<longleftrightarrow> pr = q \<and> p = r"
| "dseg h pr p (a # xs) q r \<longleftrightarrow> p = Some a \<and> m_prev (h a) = pr \<and> dseg h (Some a) (m_next (h a)) xs q r"

lemma dseg_append: "dseg h pr p (xs @ ys) q r \<longleftrightarrow> (\<exists>m n. dseg h pr p xs m n \<and> dseg h m n ys q r)"
  by (induction xs arbitrary: pr p) auto

lemma dseg_cong:
  "(\<And>a. a \<in> set xs \<Longrightarrow> m_prev (h a) = m_prev (g a) \<and> m_next (h a) = m_next (g a)) \<Longrightarrow> dseg h pr p xs q r = dseg g pr p xs q r"
  by (induction xs arbitrary: pr p) auto

lemma dseg_upd [simp]: "a \<notin> set xs \<Longrightarrow> dseg (h(a := x)) pr p xs q r = dseg h pr p xs q r"
  by (rule dseg_cong) auto

lemma dseg_walk: "dseg h pr p xs q None \<Longrightarrow> walk h p = Some xs"
  by (induction xs arbitrary: pr p) (simp_all add: walk.simps)

definition linked :: "'s cursor_store \<Rightarrow> nat \<Rightarrow> nat list \<Rightarrow> bool" where
  "linked w sid xs \<longleftrightarrow> distinct xs \<and> (\<exists>l. dseg (iters w) None (m_iterators (streams w sid)) xs l None)"

lemma linked_walk: "linked w sid xs \<Longrightarrow> walk (iters w) (m_iterators (streams w sid)) = Some xs"
  by (auto simp: linked_def dest: dseg_walk)

lemma linked_cong:
  "m_iterators (streams w sid) = m_iterators (streams w' sid) \<Longrightarrow>
   (\<And>a. a \<in> set xs \<Longrightarrow> m_prev (iters w a) = m_prev (iters w' a) \<and> m_next (iters w a) = m_next (iters w' a)) \<Longrightarrow>
   linked w sid xs = linked w' sid xs"
  using dseg_cong [of xs "iters w" "iters w'"] by (simp add: linked_def)

lemma iters_upd [simp]:
  "iters (upd_iter i f w) = (iters w)(i := f (iters w i))" "streams (upd_iter i f w) = streams w"
  "iters (upd_stream sid g w) = iters w" "streams (upd_stream sid g w) = (streams w)(sid := g (streams w sid))"
  "ic_scope (upd_iter i f w) = ic_scope w" "ic_scope (upd_stream sid g w) = ic_scope w"
  by (simp_all add: upd_iter_def upd_stream_def)

lemma linked_insert:
  assumes "linked w sid xs" "i \<notin> set xs" "m_prev (iters w i) = None"
  shows "linked (insert_iterator sid i w) sid (i # xs)"
proof (cases xs)
  case Nil
  with assms show ?thesis by (simp add: linked_def insert_iterator_def Let_def)
next
  case (Cons a ys)
  with assms obtain l where l: "m_iterators (streams w sid) = Some a" "dseg (iters w) (Some a) (m_next (iters w a)) ys l None"
    "a \<notin> set ys" "distinct ys" "a \<noteq> i" "i \<notin> set ys" by (auto simp: linked_def)
  with Cons assms(3) show ?thesis by (auto simp: linked_def insert_iterator_def Let_def intro!: exI [of _ l])
qed

lemma insert_other:
  assumes "linked w sid xs"
  shows "a \<noteq> i \<Longrightarrow> a \<notin> set xs \<Longrightarrow> iters (insert_iterator sid i w) a = iters w a"
    "sid' \<noteq> sid \<Longrightarrow> streams (insert_iterator sid i w) sid' = streams w sid'"
proof -
  have "m_iterators (streams w sid) = None \<or> (\<exists>h \<in> set xs. m_iterators (streams w sid) = Some h)"
    using assms by (cases xs) (auto simp: linked_def)
  then show "a \<noteq> i \<Longrightarrow> a \<notin> set xs \<Longrightarrow> iters (insert_iterator sid i w) a = iters w a"
    "sid' \<noteq> sid \<Longrightarrow> streams (insert_iterator sid i w) sid' = streams w sid'"
    by (auto simp: insert_iterator_def Let_def)
qed

lemma insert_fields:
  "m_stream (iters (insert_iterator sid i w) a) = m_stream (iters w a)" "m_here (iters (insert_iterator sid i w) a) = m_here (iters w a)"
  "it_pos (iters (insert_iterator sid i w) a) = it_pos (iters w a)" "ic_scope (insert_iterator sid i w) = ic_scope w"
  "m_cur (streams (insert_iterator sid i w) s) = m_cur (streams w s)" "m_stride (streams (insert_iterator sid i w) s) = m_stride (streams w s)"
  "m_realpos (streams (insert_iterator sid i w) s) = m_realpos (streams w s)" "m_reqpos (streams (insert_iterator sid i w) s) = m_reqpos (streams w s)"
  by (auto simp: insert_iterator_def Let_def split: option.split)

text \<open>What removing an iterator leaves alone.\<close>

definition same_data :: "'s cursor_store \<Rightarrow> 's cursor_store \<Rightarrow> bool" where
  "same_data w w' \<longleftrightarrow> ic_scope w' = ic_scope w \<and>
     (\<forall>a. m_stream (iters w' a) = m_stream (iters w a) \<and> m_here (iters w' a) = m_here (iters w a) \<and> it_pos (iters w' a) = it_pos (iters w a)) \<and>
     (\<forall>s. m_cur (streams w' s) = m_cur (streams w s) \<and> m_stride (streams w' s) = m_stride (streams w s) \<and>
        m_realpos (streams w' s) = m_realpos (streams w s) \<and> m_reqpos (streams w' s) = m_reqpos (streams w s))"

text \<open>Taking the first node out, and one behind another.\<close>

lemma linked_remove:
  assumes "linked w sid xs" "i \<in> set xs"
  shows "\<exists>w'. remove_iterator sid i w = (Inr (Some ()), w') \<and> linked w' sid (remove1 i xs) \<and>
    m_prev (iters w' i) = None \<and> (\<forall>a. a \<notin> set xs \<longrightarrow> iters w' a = iters w a) \<and> (\<forall>s. s \<noteq> sid \<longrightarrow> streams w' s = streams w s) \<and>
    same_data w w'"
proof -
  from split_list [OF assms(2)] obtain us vs where xs: "xs = us @ i # vs" by blast
  with assms(1) have d: "i \<notin> set us" "i \<notin> set vs" "distinct us" "distinct vs" "set us \<inter> set vs = {}" by (auto simp: linked_def)
  then have rm: "remove1 i xs = us @ vs" by (simp add: xs remove1_append)
  from assms(1) obtain l q where s: "dseg (iters w) None (m_iterators (streams w sid)) us q (Some i)" "m_prev (iters w i) = q"
    "dseg (iters w) (Some i) (m_next (iters w i)) vs l None" by (auto simp: linked_def xs dseg_append)
  have nxt: "m_next (iters w i) = (case vs of [] \<Rightarrow> None | v # _ \<Rightarrow> Some v)" using s(3) by (cases vs) auto
  show ?thesis
  proof (cases us rule: rev_cases)
    case Nil
    with s have "m_iterators (streams w sid) = Some i" "q = None" by simp_all
    with s nxt d show ?thesis
      by (cases vs) (auto simp: rm Nil remove_iterator_def Let_def linked_def xs same_data_def)
  next
    case (snoc ts t)
    with s(1) have f: "m_iterators (streams w sid) \<noteq> Some i" using d(1) by (cases ts) auto
    from s(1) snoc obtain m where t: "q = Some t" "m_next (iters w t) = Some i" "m_prev (iters w t) = m"
      "dseg (iters w) None (m_iterators (streams w sid)) ts m (Some t)" by (auto simp: dseg_append)
    have dt: "t \<notin> set ts" "t \<noteq> i" "t \<notin> set vs" "i \<notin> set ts" "set ts \<inter> set vs = {}" using d snoc by auto
    have rm': "remove1 i xs = (ts @ [t]) @ vs" by (simp add: rm snoc)
    have in': "a \<in> set xs \<longleftrightarrow> a \<in> set ts \<or> a = t \<or> a = i \<or> a \<in> set vs" for a by (auto simp: xs snoc)
    have dts: "distinct ts" using d snoc by auto
    show ?thesis unfolding rm' in'
      using s nxt d f t dt dts by (cases vs) (auto simp: remove_iterator_def Let_def linked_def dseg_append same_data_def)
  qed
qed

section \<open>Every live iterator is in its stream's list\<close>

text \<open>\<open>S\<close> are the live streams, \<open>I\<close> the live iterators.\<close>

definition iterators_ok :: "'s cursor_store \<Rightarrow> nat set \<Rightarrow> nat set \<Rightarrow> bool" where
  "iterators_ok w S I \<longleftrightarrow> (\<forall>i \<in> I. m_stream (iters w i) = None \<and> m_prev (iters w i) = None \<or> m_stream (iters w i) \<in> Some ` S) \<and>
     (\<forall>s \<in> S. \<exists>xs. linked w s xs \<and> set xs = {i \<in> I. m_stream (iters w i) = Some s})"

lemma iterators_ok_list:
  assumes "iterators_ok w S I" "s \<in> S"
  obtains xs where "linked w s xs" "set xs = {i \<in> I. m_stream (iters w i) = Some s}"
  using assms by (auto simp: iterators_ok_def)

text \<open>What is outside of the lists does not matter.\<close>

definition same_links :: "'s cursor_store \<Rightarrow> 's cursor_store \<Rightarrow> nat set \<Rightarrow> bool" where
  "same_links w w' I \<longleftrightarrow> (\<forall>s. m_iterators (streams w' s) = m_iterators (streams w s)) \<and>
     (\<forall>i \<in> I. m_stream (iters w' i) = m_stream (iters w i) \<and> m_prev (iters w' i) = m_prev (iters w i) \<and> m_next (iters w' i) = m_next (iters w i))"

lemma iterators_ok_cong:
  assumes "iterators_ok w S I" "same_links w w' I"
  shows "iterators_ok w' S I"
  unfolding iterators_ok_def
proof (intro conjI ballI)
  fix i assume "i \<in> I"
  with assms show "m_stream (iters w' i) = None \<and> m_prev (iters w' i) = None \<or> m_stream (iters w' i) \<in> Some ` S"
    by (auto simp: iterators_ok_def same_links_def)
next
  fix s assume "s \<in> S"
  with assms(1) obtain xs where xs: "linked w s xs" "set xs = {i \<in> I. m_stream (iters w i) = Some s}" by (rule iterators_ok_list)
  have "linked w s xs = linked w' s xs"
    by (rule linked_cong) (use assms(2) xs(2) in \<open>auto simp: same_links_def\<close>)
  with xs assms(2) show "\<exists>xs. linked w' s xs \<and> set xs = {i \<in> I. m_stream (iters w' i) = Some s}"
    by (intro exI [of _ xs]) (auto simp: same_links_def)
qed

lemma iterators_ok_null:
  "iterators_ok w S I \<Longrightarrow> m_stream (iters w i) = None \<Longrightarrow> m_prev (iters w i) = None \<Longrightarrow> iterators_ok w S (insert i I)"
proof -
  assume a: "iterators_ok w S I" "m_stream (iters w i) = None" "m_prev (iters w i) = None"
  have "{j \<in> I. m_stream (iters w j) = Some s} = {j \<in> insert i I. m_stream (iters w j) = Some s}" for s using a(2) by auto
  with a show ?thesis by (simp add: iterators_ok_def)
qed

lemma iterators_ok_forget:
  assumes "iterators_ok w S I" "m_stream (iters w i) = None"
  shows "iterators_ok w S (I - {i})"
proof -
  have "{j \<in> I. m_stream (iters w j) = Some s} = {j \<in> I - {i}. m_stream (iters w j) = Some s}" for s using assms(2) by auto
  with assms(1) show ?thesis by (simp add: iterators_ok_def)
qed

lemma iterators_ok_insert:
  assumes "iterators_ok w S I" "i \<notin> I" "m_stream (iters w i) = Some sid" "sid \<in> S" "m_prev (iters w i) = None"
  shows "iterators_ok (insert_iterator sid i w) S (insert i I)"
  unfolding iterators_ok_def insert_fields
proof (intro conjI ballI)
  fix j assume j: "j \<in> insert i I"
  from assms(1,4) obtain xs where xs: "linked w sid xs" "set xs = {i \<in> I. m_stream (iters w i) = Some sid}" by (rule iterators_ok_list)
  have "iters (insert_iterator sid i w) j = iters w j" if "m_stream (iters w j) = None"
    by (rule insert_other(1) [OF xs(1)]) (use that assms(3) xs(2) in auto)
  then show "m_stream (iters w j) = None \<and> m_prev (iters (insert_iterator sid i w) j) = None \<or> m_stream (iters w j) \<in> Some ` S"
    using assms j by (auto simp: iterators_ok_def)
next
  fix s assume s: "s \<in> S"
  from assms(1,4) obtain xs where xs: "linked w sid xs" "set xs = {i \<in> I. m_stream (iters w i) = Some sid}" by (rule iterators_ok_list)
  show "\<exists>xs. linked (insert_iterator sid i w) s xs \<and> set xs = {j \<in> insert i I. m_stream (iters w j) = Some s}"
  proof (cases "s = sid")
    case True
    from linked_insert [OF xs(1) _ assms(5)] xs(2) assms(2,3) True show ?thesis by (intro exI [of _ "i # xs"]) auto
  next
    case False
    from assms(1) s obtain ys where ys: "linked w s ys" "set ys = {i \<in> I. m_stream (iters w i) = Some s}" by (rule iterators_ok_list)
    have o: "iters (insert_iterator sid i w) a = iters w a" if "a \<in> set ys" for a
      by (rule insert_other(1) [OF xs(1)]) (use that ys(2) xs(2) False assms(2) in auto)
    have "linked w s ys = linked (insert_iterator sid i w) s ys"
      by (rule linked_cong) (simp_all add: o insert_other(2) [OF xs(1) False])
    with ys(1) have l: "linked (insert_iterator sid i w) s ys" by (rule iffD1 [rotated])
    have "set ys = {j \<in> insert i I. m_stream (iters w j) = Some s}" unfolding ys(2) using False assms(3) by auto
    with l show ?thesis by blast
  qed
qed

lemma iterators_ok_remove:
  assumes "iterators_ok w S I" "i \<in> I" "m_stream (iters w i) = Some sid"
  shows "\<exists>w'. remove_iterator sid i w = (Inr (Some ()), w') \<and> iterators_ok w' S (I - {i}) \<and> m_prev (iters w' i) = None \<and> same_data w w'"
proof -
  have sid: "sid \<in> S" using assms by (auto simp: iterators_ok_def)
  from assms(1) sid obtain xs where xs: "linked w sid xs" "set xs = {i \<in> I. m_stream (iters w i) = Some sid}" by (rule iterators_ok_list)
  have "i \<in> set xs" using xs(2) assms(2,3) by simp
  from linked_remove [OF xs(1) this] obtain w' where
    w': "remove_iterator sid i w = (Inr (Some ()), w')" "linked w' sid (remove1 i xs)" "m_prev (iters w' i) = None"
      "\<And>a. a \<notin> set xs \<Longrightarrow> iters w' a = iters w a" "\<And>s. s \<noteq> sid \<Longrightarrow> streams w' s = streams w s"
      "same_data w w'" by blast
  have "\<exists>xs. linked w' s xs \<and> set xs = {j \<in> I - {i}. m_stream (iters w j) = Some s}" if s: "s \<in> S" for s
  proof (cases "s = sid")
    case True
    have "set (remove1 i xs) = {j \<in> I - {i}. m_stream (iters w j) = Some sid}"
      using xs by (auto simp: linked_def set_remove1_eq)
    with w'(2) True show ?thesis by blast
  next
    case False
    from assms(1) s obtain ys where ys: "linked w s ys" "set ys = {i \<in> I. m_stream (iters w i) = Some s}" by (rule iterators_ok_list)
    have o: "iters w' a = iters w a" if "a \<in> set ys" for a
      by (rule w'(4)) (use that ys(2) xs(2) False in auto)
    have "linked w s ys = linked w' s ys"
      by (rule linked_cong) (simp_all add: o w'(5) [OF False])
    with ys False assms(3) show ?thesis by (intro exI [of _ ys]) auto
  qed
  moreover have "m_stream (iters w' j) = None \<and> m_prev (iters w' j) = None \<or> m_stream (iters w' j) \<in> Some ` S" if "j \<in> I" for j
  proof -
    have "iters w' j = iters w j" if "m_stream (iters w j) = None" by (rule w'(4)) (simp add: xs(2) that)
    with assms(1) \<open>j \<in> I\<close> w'(6) show ?thesis by (auto simp: iterators_ok_def same_data_def)
  qed
  ultimately have "iterators_ok w' S (I - {i})" using w'(6) by (simp add: iterators_ok_def same_data_def)
  with w'(1,3,6) show ?thesis by blast
qed

section \<open>What reading leaves alone\<close>

definition read_frame :: "'s cursor_store \<Rightarrow> 's cursor_store \<Rightarrow> bool" where
  "read_frame w w' \<longleftrightarrow>
     (\<forall>i. m_stream (iters w' i) = m_stream (iters w i) \<and> it_pos (iters w' i) = it_pos (iters w i) \<and>
        m_prev (iters w' i) = m_prev (iters w i) \<and> m_next (iters w' i) = m_next (iters w i)) \<and>
     (\<forall>s. m_iterators (streams w' s) = m_iterators (streams w s) \<and> m_reqpos (streams w' s) = m_reqpos (streams w s) \<and>
        m_stride (streams w' s) = m_stride (streams w s))"

definition reading :: "('s cursor_store, 'a) act \<Rightarrow> bool" where
  "reading m \<longleftrightarrow> (\<forall>w. read_frame w (snd (m w)))"

lemma read_frame_refl [simp]: "read_frame w w"
  by (simp add: read_frame_def)

lemma read_frame_trans: "read_frame w w' \<Longrightarrow> read_frame w' w'' \<Longrightarrow> read_frame w w''"
  by (simp add: read_frame_def)

lemma read_frame_links: "read_frame w w' \<Longrightarrow> same_links w w' I"
  by (simp add: read_frame_def same_links_def)

lemma readingD: "reading m \<Longrightarrow> m w = (r, w') \<Longrightarrow> read_frame w w'"
  unfolding reading_def by (metis snd_conv)

lemma reading_retA [simp]: "reading (retA x)"
  by (simp add: reading_def retA_def)

lemma reading_bind:
  assumes "reading m" "\<And>x w1. read_frame w1 (snd (f x w1))"
  shows "read_frame w (snd (bindO m f w))"
proof -
  obtain r w1 where m: "m w = (r, w1)" by (cases "m w")
  then have "read_frame w w1" using assms(1) readingD by blast
  with assms(2) show ?thesis
    by (auto simp: bindO_def m split: sum.split option.split intro: read_frame_trans)
qed

lemma reading_bindO: "reading m \<Longrightarrow> (\<And>x. reading (f x)) \<Longrightarrow> reading (bindO m f)"
  unfolding reading_def by (intro allI reading_bind) (simp_all add: reading_def)

lemma reading_with_cursor [simp]: "reading (with_cursor sid m)"
  by (auto simp: reading_def with_cursor_def read_frame_def split: prod.split)

lemma reading_int_result [simp]: "reading (int_result v)"
  by (simp add: int_result_def)

lemma reading_fetchblock [simp]: "reading (fetchblock K sid)"
  unfolding reading_def fetchblock_def case_prod_unfold
  by (intro allI reading_bind reading_with_cursor reading_int_result) (simp add: read_frame_def)

lemma reading_ignore_rows [simp]: "reading (ignore_rows K sid n)"
  unfolding ignore_rows_def case_prod_unfold
  by (intro reading_bindO reading_with_cursor) (unfold reading_def, intro allI reading_bind reading_int_result, simp add: read_frame_def)

lemma read_frame_fill: "read_frame w (fold (\<lambda>x. fill r (snd x)) es w)"
proof (induction es arbitrary: w)
  case (Cons e es)
  have "read_frame w (fill r (snd e) w)" by (simp add: fill_def read_frame_def)
  from read_frame_trans [OF this Cons.IH] show ?case by simp
qed simp

lemma reading_service_todo [simp]: "reading (service_todo K sid todo)"
proof (induction K sid todo rule: service_todo.induct)
  case (1 K sid)
  show ?case by (simp add: service_todo.simps)
next
  case (2 K sid e es)
  show ?case
    unfolding reading_def service_todo.simps(2)
  proof (intro allI reading_bind reading_bindO reading_fetchblock)
    fix w r and w1 :: "'a cursor_store"
    let ?w2 = "fold (\<lambda>x. fill r (snd x)) (e # takeWhile (\<lambda>x. fst x = fst e) es) w1"
    have "read_frame ?w2 (snd (service_todo K sid (dropWhile (\<lambda>x. fst x = fst e) es) ?w2))"
      using 2 by (simp add: reading_def)
    with read_frame_fill show "read_frame w1 (snd (service_todo K sid (dropWhile (\<lambda>x. fst x = fst e) es) ?w2))"
      by (rule read_frame_trans)
  qed simp_all
qed

lemma reading_service_iterators [simp]: "reading (service_iterators K sid topos)"
  unfolding reading_def service_iterators_def Let_def
  using reading_service_todo [of K sid] by (auto simp: reading_def split: option.split)

lemma reading_refresh [simp]: "reading (refresh K i)"
  unfolding reading_def refresh_def
  using reading_service_iterators [of K] by (auto simp: reading_def split: option.split)

lemma reading_result: "reading (\<lambda>w. (f w, w))"
  by (simp add: reading_def)

lemma reading_deref [simp]: "reading (deref_iterator K i)"
  unfolding deref_iterator_def by (intro reading_bindO reading_refresh reading_result)

lemma reading_equal [simp]: "reading (iterators_equal K i j)"
proof -
  have "reading (bindO (refresh K i) (\<lambda>_. bindO (refresh K j) (\<lambda>_ w.
         (Inr (Some (rows_of (m_here (iters w i)) = [] \<and> rows_of (m_here (iters w j)) = [])), w))))"
    by (intro reading_bindO reading_refresh reading_result)
  then show ?thesis by (simp add: reading_def iterators_equal_def)
qed

lemma reading_less [simp]: "reading (iterator_less K i j)"
proof -
  have "reading (bindO (refresh K i) (\<lambda>_. bindO (refresh K j) (\<lambda>_ w. (Inr (Some (rows_of (m_here (iters w i)) \<noteq> [])), w))))"
    by (intro reading_bindO reading_refresh reading_result)
  then show ?thesis by (simp add: reading_def iterator_less_def)
qed

section \<open>Programs that use iterators\<close>

text \<open>What a program does with streams and iterators; the results of reading and comparing are not kept here.\<close>

datatype iterator_op =
    Default nat
  | Construct nat nat
  | Copy nat nat
  | Assign nat nat
  | Destroy nat
  | Increment nat
  | Increment_after nat nat
  | Advance nat int
  | Deref nat
  | Equal nat nat
  | Less nat nat
  | Get nat
  | Ignore nat int
  | Set_stride nat int

definition discard :: "('w, 'a option) act \<Rightarrow> ('w, unit option) act" where
  "discard m = bindO m (\<lambda>_. retA (Some ()))"

fun apply_op :: "'s cursor_libpq \<Rightarrow> iterator_op \<Rightarrow> ('s cursor_store, unit option) act" where
  "apply_op K (Default i) = (\<lambda>w. (Inr (Some ()), upd_iter i (\<lambda>_. end_iterator) w))"
| "apply_op K (Construct s i) = new_iterator s i"
| "apply_op K (Copy rhs i) = (\<lambda>w. (Inr (Some ()), copy_iterator rhs i w))"
| "apply_op K (Assign i rhs) = assign_iterator i rhs"
| "apply_op K (Destroy i) = destroy_iterator i"
| "apply_op K (Increment i) = pre_increment i"
| "apply_op K (Increment_after i old) = post_increment i old"
| "apply_op K (Advance i n) = advance_iterator i n"
| "apply_op K (Deref i) = discard (deref_iterator K i)"
| "apply_op K (Equal i j) = discard (iterators_equal K i j)"
| "apply_op K (Less i j) = discard (iterator_less K i j)"
| "apply_op K (Get s) = discard (fetchblock K s)"
| "apply_op K (Ignore s n) = ignore_rows K s n"
| "apply_op K (Set_stride s n) = set_stride s n"

text \<open>Only live streams and iterators are used, and a new iterator gets a place of its own.\<close>

fun live_op :: "nat set \<Rightarrow> nat set \<Rightarrow> iterator_op \<Rightarrow> bool" where
  "live_op S I (Default i) \<longleftrightarrow> i \<notin> I"
| "live_op S I (Construct s i) \<longleftrightarrow> s \<in> S \<and> i \<notin> I"
| "live_op S I (Copy rhs i) \<longleftrightarrow> rhs \<in> I \<and> i \<notin> I"
| "live_op S I (Assign i rhs) \<longleftrightarrow> i \<in> I \<and> rhs \<in> I"
| "live_op S I (Destroy i) \<longleftrightarrow> i \<in> I"
| "live_op S I (Increment i) \<longleftrightarrow> i \<in> I"
| "live_op S I (Increment_after i old) \<longleftrightarrow> i \<in> I \<and> old \<notin> I"
| "live_op S I (Advance i n) \<longleftrightarrow> i \<in> I"
| "live_op S I (Deref i) \<longleftrightarrow> i \<in> I"
| "live_op S I (Equal i j) \<longleftrightarrow> i \<in> I \<and> j \<in> I"
| "live_op S I (Less i j) \<longleftrightarrow> i \<in> I \<and> j \<in> I"
| "live_op S I (Get s) \<longleftrightarrow> s \<in> S"
| "live_op S I (Ignore s n) \<longleftrightarrow> s \<in> S"
| "live_op S I (Set_stride s n) \<longleftrightarrow> s \<in> S"

fun live_after :: "iterator_op \<Rightarrow> nat set \<Rightarrow> nat set" where
  "live_after (Default i) I = insert i I"
| "live_after (Construct s i) I = insert i I"
| "live_after (Copy rhs i) I = insert i I"
| "live_after (Destroy i) I = I - {i}"
| "live_after (Increment_after i old) I = insert old I"
| "live_after _ I = I"

text \<open>
  A step may throw, but the behaviour is defined.  \<open>P\<close> restricts the operations further.
\<close>

inductive iterator_runs :: "'s cursor_libpq \<Rightarrow> nat set \<Rightarrow> ('s cursor_store \<Rightarrow> iterator_op \<Rightarrow> bool) \<Rightarrow>
    's cursor_store \<times> nat set \<Rightarrow> 's cursor_store \<times> nat set \<Rightarrow> bool" for K S P x where
  start: "iterator_runs K S P x x"
| step: "iterator_runs K S P x (w, I) \<Longrightarrow> live_op S I a \<Longrightarrow> P w a \<Longrightarrow> apply_op K a w = (r, w') \<Longrightarrow> r \<noteq> Inr None \<Longrightarrow>
     iterator_runs K S P x (w', live_after a I)"

inductive_cases iterator_runsE: "iterator_runs K S P x y"

section \<open>The list is kept\<close>

lemma reading_discard [simp]: "reading m \<Longrightarrow> reading (discard m)"
  by (simp add: discard_def reading_bindO)

lemma iterators_ok_reading: "iterators_ok w S I \<Longrightarrow> reading m \<Longrightarrow> m w = (r, w') \<Longrightarrow> iterators_ok w' S I"
  using iterators_ok_cong read_frame_links readingD by metis

lemma iterators_ok_outside: "iterators_ok w S I \<Longrightarrow> i \<notin> I \<Longrightarrow> iterators_ok (upd_iter i f w) S I"
  by (erule iterators_ok_cong) (auto simp: same_links_def)

lemma iterators_ok_data:
  "iterators_ok w S I \<Longrightarrow> (\<And>x. m_stream (f x) = m_stream x \<and> m_prev (f x) = m_prev x \<and> m_next (f x) = m_next x) \<Longrightarrow>
   iterators_ok (upd_iter i f w) S I"
  by (erule iterators_ok_cong) (auto simp: same_links_def)

lemma forward_cases:
  assumes "forward s n w = (r, w')"
  shows "(r = Inr None \<or> (\<exists>p. r = Inr (Some p) \<and> p = m_reqpos (streams w s) + n * m_stride (streams w s) \<and>
      w' = upd_stream s (\<lambda>x. x\<lparr>m_reqpos := p\<rparr>) w))"
  using assms by (auto simp: forward_def int_result_def fits_int_def bindO_def retA_def split: option.splits if_splits)

lemma iterators_ok_stream:
  "iterators_ok w S I \<Longrightarrow> (\<And>x. m_iterators (f x) = m_iterators x) \<Longrightarrow> iterators_ok (upd_stream s f w) S I"
  by (erule iterators_ok_cong) (auto simp: same_links_def)

lemma copy_iterator_ok:
  assumes "iterators_ok w S I" "rhs \<in> I" "i \<notin> I"
  shows "iterators_ok (copy_iterator rhs i w) S (insert i I)"
proof -
  let ?w = "upd_iter i (\<lambda>_. (iters w rhs)\<lparr>m_prev := None, m_next := None\<rparr>) w"
  have ok: "iterators_ok ?w S I" using assms(1,3) by (rule iterators_ok_outside)
  show ?thesis
  proof (cases "m_stream (iters w rhs)")
    case None
    then show ?thesis using iterators_ok_null [OF ok, of i] by (simp add: copy_iterator_def Let_def)
  next
    case (Some s)
    with assms have "s \<in> S" by (auto simp: iterators_ok_def)
    then show ?thesis using iterators_ok_insert [OF ok assms(3), of s] Some by (simp add: copy_iterator_def Let_def)
  qed
qed

lemma step_iterator_ok:
  assumes "iterators_ok w S I" "step_iterator i n w = (r, w')" "r \<noteq> Inr None"
  shows "iterators_ok w' S I"
proof -
  from assms(2,3) obtain s where s: "m_stream (iters w i) = Some s" by (auto simp: step_iterator_def split: option.splits)
  obtain r1 w1 where f: "forward s n w = (r1, w1)" by (cases "forward s n w")
  from forward_cases [OF f] show ?thesis
    using assms s f by (auto simp: step_iterator_def bindO_def intro!: iterators_ok_data iterators_ok_stream)
qed

lemma new_iterator_ok:
  assumes "iterators_ok w S I" "i \<notin> I" "s \<in> S" "new_iterator s i w = (r, w')" "r \<noteq> Inr None"
  shows "iterators_ok w' S (insert i I)"
proof -
  obtain r1 w1 where f: "forward s 0 w = (r1, w1)" by (cases "forward s 0 w")
  from forward_cases [OF f] assms(4,5) f obtain p where p: "w1 = upd_stream s (\<lambda>x. x\<lparr>m_reqpos := p\<rparr>) w"
    "w' = insert_iterator s i (upd_iter i (\<lambda>_. end_iterator\<lparr>m_stream := Some s, it_pos := p\<rparr>) w1)"
    by (auto simp: new_iterator_def bindO_def)
  have "iterators_ok (upd_iter i (\<lambda>_. end_iterator\<lparr>m_stream := Some s, it_pos := p\<rparr>) w1) S I"
    unfolding p(1) using assms(1,2) by (intro iterators_ok_outside iterators_ok_stream) simp_all
  from iterators_ok_insert [OF this assms(2), of s] assms(3) show ?thesis by (simp add: p(2) end_iterator_def)
qed

lemma destroy_iterator_ok:
  assumes "iterators_ok w S I" "i \<in> I"
  shows "\<exists>w'. destroy_iterator i w = (Inr (Some ()), w') \<and> iterators_ok w' S (I - {i}) \<and> same_data w w'"
proof (cases "m_stream (iters w i)")
  case None
  with iterators_ok_forget [OF assms(1)] show ?thesis by (simp add: destroy_iterator_def same_data_def)
next
  case (Some s)
  from iterators_ok_remove [OF assms Some] Some show ?thesis by (auto simp: destroy_iterator_def)
qed

lemma assign_iterator_ok:
  assumes "iterators_ok w S I" "i \<in> I" "rhs \<in> I"
  shows "\<exists>w'. assign_iterator i rhs w = (Inr (Some ()), w') \<and> iterators_ok w' S I"
proof (cases "m_stream (iters w rhs) = m_stream (iters w i)")
  case True
  then show ?thesis using assms(1) by (auto simp: assign_iterator_def Let_def intro!: iterators_ok_data)
next
  case False
  let ?y = "iters w rhs"
  obtain w1 where w1: "destroy_iterator i w = (Inr (Some ()), w1)" "iterators_ok w1 S (I - {i})" using destroy_iterator_ok [OF assms(1,2)] by blast
  have pr: "m_prev (iters w1 i) = None"
    using assms(1,2) w1(1) iterators_ok_remove [OF assms(1,2)]
    by (cases "m_stream (iters w i)") (auto simp: destroy_iterator_def iterators_ok_def)
  let ?w2 = "upd_iter i (\<lambda>x. x\<lparr>m_here := m_here ?y, it_pos := it_pos ?y, m_stream := m_stream ?y\<rparr>) w1"
  have a: "assign_iterator i rhs w = (Inr (Some ()), case m_stream ?y of None \<Rightarrow> ?w2 | Some sid \<Rightarrow> insert_iterator sid i ?w2)"
    using False w1(1) by (simp add: assign_iterator_def Let_def bindO_def destroy_iterator_def split: option.splits)
  have ok: "iterators_ok ?w2 S (I - {i})" using w1(2) by (rule iterators_ok_outside) simp
  have i: "insert i (I - {i}) = I" using assms(2) by blast
  show ?thesis
  proof (cases "m_stream ?y")
    case None
    have "iterators_ok ?w2 S (insert i (I - {i}))" by (rule iterators_ok_null [OF ok]) (simp_all add: None pr)
    then show ?thesis unfolding i by (simp add: a None)
  next
    case (Some s)
    with assms(1,3) have s: "s \<in> S" by (auto simp: iterators_ok_def)
    have "iterators_ok (insert_iterator s i ?w2) S (insert i (I - {i}))"
      by (rule iterators_ok_insert [OF ok _ _ s]) (simp_all add: Some pr)
    then show ?thesis unfolding i by (simp add: a Some)
  qed
qed

lemma advance_iterator_ok:
  "iterators_ok w S I \<Longrightarrow> advance_iterator i n w = (r, w') \<Longrightarrow> r \<noteq> Inr None \<Longrightarrow> iterators_ok w' S I"
  by (auto simp: advance_iterator_def dest: step_iterator_ok split: if_splits)

lemma set_stride_ok: "iterators_ok w S I \<Longrightarrow> set_stride s n w = (r, w') \<Longrightarrow> iterators_ok w' S I"
  by (auto simp: set_stride_def intro: iterators_ok_stream split: if_splits)

lemma apply_op_ok:
  assumes "iterators_ok w S I" "live_op S I a" "apply_op K a w = (r, w')" "r \<noteq> Inr None"
  shows "iterators_ok w' S (live_after a I)"
proof (cases a)
  case (Default i)
  with assms(1-3) have "iterators_ok w' S I" "iters w' i = end_iterator" by (auto intro!: iterators_ok_outside)
  then have "iterators_ok w' S (insert i I)" by (intro iterators_ok_null) (simp_all add: end_iterator_def)
  with Default show ?thesis by simp
next
  case (Construct s i)
  with assms show ?thesis by (auto intro: new_iterator_ok)
next
  case (Copy rhs i)
  with assms show ?thesis by (auto intro: copy_iterator_ok)
next
  case (Assign i rhs)
  with assms assign_iterator_ok [OF assms(1), of i rhs] show ?thesis by auto
next
  case (Destroy i)
  with assms destroy_iterator_ok [OF assms(1), of i] show ?thesis by auto
next
  case (Increment i)
  with assms show ?thesis by (auto simp: pre_increment_def intro: step_iterator_ok)
next
  case (Increment_after i old)
  with assms(1,2) have "iterators_ok (copy_iterator i old w) S (insert old I)" by (simp add: copy_iterator_ok)
  with Increment_after assms(3,4) show ?thesis by (auto simp: post_increment_def intro: step_iterator_ok)
next
  case (Advance i n)
  with assms show ?thesis by (auto intro: advance_iterator_ok)
next
  case (Set_stride s n)
  with assms show ?thesis by (auto intro: set_stride_ok)
qed (use assms(3) in \<open>auto intro: iterators_ok_reading [OF assms(1), rotated]\<close>)

lemma iterator_runs_ok:
  assumes "iterator_runs K S P (w0, I0) x" "iterators_ok w0 S I0"
  shows "iterators_ok (fst x) S (snd x)"
  using assms by induction (auto intro: apply_op_ok)

lemma iterators_ok_none: "(\<And>s. s \<in> S \<Longrightarrow> m_iterators (streams w s) = None) \<Longrightarrow> iterators_ok w S {}"
  by (auto simp: iterators_ok_def linked_def)

text \<open>
  C27. Whatever a program does with the live iterators of some streams, throwing operations included, every stream's
  list holds exactly the live iterators on it, each once: assigning and destroying any of them never follows a null
  pointer, and the walk of \<open>service_iterators\<close> ends and finds them all.
\<close>

theorem iterator_lists_kept:
  assumes "\<And>s. s \<in> S \<Longrightarrow> m_iterators (streams w0 s) = None" "iterator_runs K S (\<lambda>_ _. True) (w0, {}) (w, I)"
  shows "(\<forall>s \<in> S. \<exists>xs. walk (iters w) (m_iterators (streams w s)) = Some xs \<and> distinct xs \<and> set xs = {i \<in> I. m_stream (iters w i) = Some s}) \<and>
    (\<forall>i \<in> I. fst (destroy_iterator i w) = Inr (Some ()) \<and> (\<forall>rhs \<in> I. fst (assign_iterator i rhs w) = Inr (Some ())))"
proof (intro conjI ballI)
  have ok: "iterators_ok w S I"
    using iterator_runs_ok [OF assms(2)] iterators_ok_none [OF assms(1)] by simp
  show "\<exists>xs. walk (iters w) (m_iterators (streams w s)) = Some xs \<and> distinct xs \<and> set xs = {i \<in> I. m_stream (iters w i) = Some s}" if "s \<in> S" for s
    using iterators_ok_list [OF ok that] linked_walk by (metis linked_def)
  fix i assume i: "i \<in> I"
  from destroy_iterator_ok [OF ok i] show "fst (destroy_iterator i w) = Inr (Some ())" by auto
  fix rhs assume "rhs \<in> I"
  from assign_iterator_ok [OF ok i this] show "fst (assign_iterator i rhs w) = Inr (Some ())" by auto
qed

text \<open>An iterator, a copy of it and an end iterator; the first is destroyed and the last assigned the copy.\<close>

lemma iterator_lists_kept_witness:
  "\<exists>w0 w xs. m_iterators (streams w0 0) = None \<and> iterator_runs cursor_demo {0} (\<lambda>_ _. True) (w0, {}) (w, {2, 3}) \<and>
     walk (iters w) (m_iterators (streams w 0)) = Some xs \<and> set xs = {2, 3} \<and> fst (destroy_iterator 3 w) = Inr (Some ())"
proof -
  define w0 :: "cursor_demo cursor_store" where
    "w0 = \<lparr>ic_scope = cursor_scope, streams = (\<lambda>_. \<lparr>m_cur = adopt_sql_cursor [] Loose, m_stride = 1, m_realpos = 0, m_reqpos = 0,
       m_iterators = None, m_done = False\<rparr>), iters = (\<lambda>_. end_iterator)\<rparr>"
  obtain a wa where a: "apply_op cursor_demo (Construct 0 1) w0 = (a, wa)" by fastforce
  obtain b wb where b: "apply_op cursor_demo (Copy 1 2) wa = (b, wb)" by fastforce
  obtain c wc where c: "apply_op cursor_demo (Default 3) wb = (c, wc)" by fastforce
  obtain d wd where d: "apply_op cursor_demo (Destroy 1) wc = (d, wd)" by fastforce
  obtain e we where e: "apply_op cursor_demo (Assign 3 2) wd = (e, we)" by fastforce
  note ev = new_iterator_def forward_def fits_int_def INT_MIN_def INT_MAX_def int_result_def bindO_def retA_def insert_iterator_def Let_def
    end_iterator_def copy_iterator_def destroy_iterator_def remove_iterator_def assign_iterator_def
  from a have wa: "a \<noteq> Inr None" "m_iterators (streams wa 0) = Some 1" "iters wa 1 = end_iterator\<lparr>m_stream := Some 0\<rparr>" by (auto simp: ev w0_def)
  from b wa have wb: "b \<noteq> Inr None" "m_iterators (streams wb 0) = Some 2" "iters wb 1 = end_iterator\<lparr>m_stream := Some 0, m_prev := Some 2\<rparr>"
    "iters wb 2 = end_iterator\<lparr>m_stream := Some 0, m_next := Some 1\<rparr>" by (auto simp: ev)
  from c wb have wc: "c \<noteq> Inr None" "m_iterators (streams wc 0) = Some 2" "iters wc 1 = end_iterator\<lparr>m_stream := Some 0, m_prev := Some 2\<rparr>"
    "iters wc 2 = end_iterator\<lparr>m_stream := Some 0, m_next := Some 1\<rparr>" "iters wc 3 = end_iterator" by auto
  from d wc have wd: "d \<noteq> Inr None" "m_iterators (streams wd 0) = Some 2" "iters wd 2 = end_iterator\<lparr>m_stream := Some 0\<rparr>" "iters wd 3 = end_iterator"
    by (auto simp: ev)
  from e wd have we: "e \<noteq> Inr None" "m_stream (iters we 2) = Some 0" "m_stream (iters we 3) = Some 0" by (auto simp: ev)
  have "iterator_runs cursor_demo {0} (\<lambda>_ _. True) (w0, {})
      (we, live_after (Assign 3 2) (live_after (Destroy 1) (live_after (Default 3) (live_after (Copy 1 2) (live_after (Construct 0 1) {})))))"
    by (rule iterator_runs.step [OF iterator_runs.step [OF iterator_runs.step [OF iterator_runs.step [OF iterator_runs.step [OF
        iterator_runs.start _ _ a] _ _ b] _ _ c] _ _ d] _ _ e])
      (use wa(1) wb(1) wc(1) wd(1) we(1) in simp_all)
  moreover have "live_after (Assign 3 2) (live_after (Destroy 1) (live_after (Default 3) (live_after (Copy 1 2) (live_after (Construct 0 1) {})))) = {2, 3}"
    by auto
  ultimately have run: "iterator_runs cursor_demo {0} (\<lambda>_ _. True) (w0, {}) (we, {2, 3})" by simp
  have n: "m_iterators (streams w0 s) = None" if "s \<in> {0}" for s by (simp add: w0_def)
  from iterator_lists_kept [OF n run] obtain xs where "walk (iters we) (m_iterators (streams we 0)) = Some xs"
    "set xs = {i \<in> {2, 3}. m_stream (iters we i) = Some 0}" "fst (destroy_iterator 3 we) = Inr (Some ())" by fastforce
  with run n we show ?thesis by (intro exI [of _ w0] exI [of _ we] exI [of _ xs]) auto
qed

end
