(* ===== verification/Pqxx_Cursor_Blocks.thy ===== *)
theory Pqxx_Cursor_Blocks
  imports Pqxx_Cursor_Iter
begin

text \<open>
  The rows that iterators read.  The contract of the server is that of \<open>Pqxx_Cursor_Spec\<close>, for the cursor of a stream,
  which is declared NO SCROLL.  \<open>m_realpos\<close> counts the rows
  that the cursor has passed; \<open>service_iterators\<close> gives every iterator up to the one that is read the block at its
  position.  So iterators that stem from the first one on a stream read the blocks at their positions in any order and
  however often; one that is constructed after something was read reads nothing.
\<close>

section \<open>Blocks\<close>

definition block :: "table_rows \<Rightarrow> int \<Rightarrow> int \<Rightarrow> table_rows" where
  "block rows k pos = take (nat k) (drop (nat pos) rows)"

definition stream_rel :: "'s cursor_libpq \<Rightarrow> string \<Rightarrow> ('s \<Rightarrow> (table_rows \<times> nat) option) \<Rightarrow> table_rows \<Rightarrow> nat \<Rightarrow> int \<Rightarrow> 's cursor_store \<Rightarrow> bool" where
  "stream_rel K q view rows sid k w \<longleftrightarrow> m_stride (streams w sid) = k \<and> 1 \<le> k \<and> k \<le> INT_MAX \<and>
     (\<exists>p. cursor_rel K Forward_only q view rows p (ic_scope w, m_cur (streams w sid)) \<and> m_realpos (streams w sid) = int (min p (length rows)))"

lemma stream_relE:
  assumes "stream_rel K q view rows sid k w"
  obtains p where "cursor_rel K Forward_only q view rows p (ic_scope w, m_cur (streams w sid))" "m_realpos (streams w sid) = int (min p (length rows))"
    "m_stride (streams w sid) = k" "1 \<le> k" "k \<le> INT_MAX" "int (length rows) < all_rows"
  using assms by (auto simp: stream_rel_def cursor_rel_def)

lemma scroll_rows:
  assumes "0 \<le> m" "int (length rows) < all_rows"
  shows "fst (scroll rows p m) = take (nat m) (drop p rows)"
    and "min (snd (scroll rows p m)) (length rows) = min (p + nat m) (length rows)"
  using assms by (auto simp: scroll_def Let_def)

lemma scroll_count:
  assumes "0 \<le> m" "int (length rows) < all_rows"
  shows "int (min p (length rows)) + int (length (fst (scroll rows p m))) = int (min (snd (scroll rows p m)) (length rows))"
proof -
  have "int (min p n) + int (min (n - p) j) = int (min (p + j) n)" for n j :: nat by arith
  then show ?thesis by (simp only: scroll_rows [OF assms] length_take length_drop)
qed

lemma scroll_pos:
  assumes "0 \<le> m" "int (length rows) < all_rows"
  shows "min (int (min p (length rows)) + m) (int (length rows)) = int (min (snd (scroll rows p m)) (length rows))"
  using assms(1) unfolding scroll_rows(2) [OF assms] by (simp add: min_def nat_le_iff algebra_simps) arith

lemma fits_rows: "0 \<le> x \<Longrightarrow> x \<le> int n \<Longrightarrow> int n < all_rows \<Longrightarrow> fits_int x = Some x"
  by (simp add: fits_int_def all_rows_def INT_MAX_def INT_MIN_def)

lemma fetchblock_ok:
  assumes "stream_rel K q view rows sid k w"
  shows "\<exists>r w'. fetchblock K sid w = (Inr (Some r), w') \<and> stream_rel K q view rows sid k w' \<and> iters w' = iters w \<and>
    rows_of r = block rows k (m_realpos (streams w sid)) \<and>
    m_realpos (streams w' sid) = min (m_realpos (streams w sid) + k) (int (length rows))"
proof -
  from assms obtain p where p: "cursor_rel K Forward_only q view rows p (ic_scope w, m_cur (streams w sid))" "m_realpos (streams w sid) = int (min p (length rows))"
    "m_stride (streams w sid) = k" "1 \<le> k" "k \<le> INT_MAX" "int (length rows) < all_rows" by (rule stream_relE)
  have k: "INT_MIN < k" "0 \<le> k" using p(4) by (simp_all add: INT_MIN_def)
  from fetch_ok [OF p(1) k(1) p(5)] k(2) obtain r ws' where
    f: "fetch K k (ic_scope w, m_cur (streams w sid)) = (Inr (Some (r, int (snd (scroll rows p k)) - int p)), ws')"
      "rows_of r = fst (scroll rows p k)" "cursor_rel K Forward_only q view rows (snd (scroll rows p k)) ws'" by (auto simp: can_scroll_def)
  obtain sc c where ws': "ws' = (sc, c)" by (cases ws')
  have b: "rows_of r = block rows k (m_realpos (streams w sid))"
    using scroll_rows(1) [OF k(2) p(6), of p] by (simp add: f(2) block_def p(2) min_def)
  have n: "int (min p (length rows)) + int (length (rows_of r)) = int (min (snd (scroll rows p k)) (length rows))"
    using scroll_count [OF k(2) p(6), of p] by (simp add: f(2))
  also have "\<dots> = min (int (min p (length rows)) + k) (int (length rows))"
    by (rule scroll_pos [OF k(2) p(6), symmetric])
  finally have m: "min (int (min p (length rows)) + k) (int (length rows)) = int (min (snd (scroll rows p k)) (length rows))" using n by simp
  have fi: "fits_int (int (min p (length rows)) + int (length (rows_of r))) = Some (int (min (snd (scroll rows p k)) (length rows)))"
    unfolding n by (rule fits_rows [OF _ _ p(6)]) simp_all
  let ?w' = "upd_stream sid (\<lambda>s. s\<lparr>m_realpos := int (min (snd (scroll rows p k)) (length rows)), m_done := m_done s \<or> rows_of r = []\<rparr>)
    (upd_stream sid (\<lambda>s. s\<lparr>m_cur := c\<rparr>) (w\<lparr>ic_scope := sc\<rparr>))"
  have e: "fetchblock K sid w = (Inr (Some r), ?w')"
    by (simp add: fetchblock_def bindO_def with_cursor_def p(2,3) f(1) ws' int_result_def retA_def fi)
  show ?thesis
    unfolding e p(2) m using f(3) p(3-5) b [unfolded p(2)]
    by (intro exI [of _ r] exI [of _ ?w'] conjI) (auto simp: stream_rel_def ws')
qed

lemma to_int_id: "0 \<le> m \<Longrightarrow> m \<le> INT_MAX \<Longrightarrow> to_int m = m"
  by (simp add: to_int_def INT_MAX_def INT_MIN_def)

lemma ignore_rows_ok:
  assumes "stream_rel K q view rows sid k w" "0 \<le> m" "m \<le> INT_MAX"
  shows "\<exists>w'. ignore_rows K sid m w = (Inr (Some ()), w') \<and> stream_rel K q view rows sid k w' \<and> iters w' = iters w \<and>
    m_realpos (streams w' sid) = min (m_realpos (streams w sid) + m) (int (length rows))"
proof -
  from assms(1) obtain p where p: "cursor_rel K Forward_only q view rows p (ic_scope w, m_cur (streams w sid))" "m_realpos (streams w sid) = int (min p (length rows))"
    "m_stride (streams w sid) = k" "1 \<le> k" "k \<le> INT_MAX" "int (length rows) < all_rows" by (rule stream_relE)
  have m0: "INT_MIN < m" using assms(2) by (simp add: INT_MIN_def)
  from move_ok [OF p(1) m0 assms(3)] assms(2) obtain ws' where
    f: "move_cursor K m (ic_scope w, m_cur (streams w sid)) =
        (Inr (Some (int (length (fst (scroll rows p m))), int (snd (scroll rows p m)) - int p)), ws')"
      "cursor_rel K Forward_only q view rows (snd (scroll rows p m)) ws'" by (auto simp: can_scroll_def)
  obtain sc c where ws': "ws' = (sc, c)" by (cases ws')
  have n: "int (min p (length rows)) + int (length (fst (scroll rows p m))) = int (min (snd (scroll rows p m)) (length rows))"
    by (rule scroll_count [OF assms(2) p(6)])
  have m: "min (int (min p (length rows)) + m) (int (length rows)) = int (min (snd (scroll rows p m)) (length rows))"
    by (rule scroll_pos [OF assms(2) p(6)])
  have fi: "fits_int (int (min p (length rows)) + int (length (fst (scroll rows p m)))) = Some (int (min (snd (scroll rows p m)) (length rows)))"
    unfolding n by (rule fits_rows [OF _ _ p(6)]) simp_all
  let ?w' = "upd_stream sid (\<lambda>s. s\<lparr>m_realpos := int (min (snd (scroll rows p m)) (length rows)),
      m_done := m_done s \<or> int (length (fst (scroll rows p m))) < m\<rparr>) (upd_stream sid (\<lambda>s. s\<lparr>m_cur := c\<rparr>) (w\<lparr>ic_scope := sc\<rparr>))"
  have e: "ignore_rows K sid m w = (Inr (Some ()), ?w')"
    by (simp add: ignore_rows_def to_int_id [OF assms(2,3)] bindO_def with_cursor_def p(2) f(1) ws' int_result_def retA_def fi)
  show ?thesis
    unfolding e p(2) m using f(2) p(3-5)
    by (intro exI [of _ ?w'] conjI) (auto simp: stream_rel_def ws')
qed

section \<open>Serving the iterators\<close>

text \<open>Positions in order, and a stride apart from one another.\<close>

fun spaced :: "int \<Rightarrow> int \<Rightarrow> (int \<times> nat) list \<Rightarrow> bool" where
  "spaced k lo [] \<longleftrightarrow> True"
| "spaced k lo (e # es) \<longleftrightarrow> lo \<le> fst e \<and> fst e \<le> INT_MAX \<and> (\<forall>x \<in> set es. fst x = fst e \<or> fst e + k \<le> fst x) \<and> spaced k lo es"

lemma spaced_lower: "spaced k lo es \<Longrightarrow> (\<And>x. x \<in> set es \<Longrightarrow> lo' \<le> fst x) \<Longrightarrow> spaced k lo' es"
  by (induction es) auto

lemma spaced_dropWhile: "spaced k lo (e # es) \<Longrightarrow> 1 \<le> k \<Longrightarrow> spaced k (fst e + k) (dropWhile (\<lambda>x. fst x = fst e) es)"
proof (induction es)
  case (Cons x es)
  show ?case
  proof (cases "fst x = fst e")
    case False
    with Cons.prems have x: "fst e + k \<le> fst x" by auto
    have "spaced k (fst e + k) (x # es)"
      by (rule spaced_lower [of k lo]) (use Cons.prems x in auto)
    with False show ?thesis by simp
  qed (use Cons in auto)
qed simp

lemma fold_fill_iters:
  "iters (fold (\<lambda>x. fill r (snd x)) es w) = (\<lambda>i. if i \<in> snd ` set es then (iters w i)\<lparr>m_here := r\<rparr> else iters w i)"
  "streams (fold (\<lambda>x. fill r (snd x)) es w) = streams w" "ic_scope (fold (\<lambda>x. fill r (snd x)) es w) = ic_scope w"
  by (induction es arbitrary: w) (auto simp: fill_def fun_eq_iff)

lemma stream_rel_cong: "stream_rel K q view rows sid k w \<Longrightarrow> ic_scope w' = ic_scope w \<Longrightarrow> streams w' sid = streams w sid \<Longrightarrow>
    stream_rel K q view rows sid k w'"
  by (simp add: stream_rel_def)

text \<open>The first of the entries, and those with the same position.\<close>

lemma service_first:
  assumes "stream_rel K q view rows sid k w" "m_realpos (streams w sid) \<le> fst e" "fst e \<le> INT_MAX"
  shows "\<exists>r w'. service_todo K sid (e # es) w = service_todo K sid (dropWhile (\<lambda>x. fst x = fst e) es) w' \<and>
    stream_rel K q view rows sid k w' \<and> rows_of r = block rows k (fst e) \<and>
    iters w' = (\<lambda>i. if i = snd e \<or> i \<in> snd ` set (takeWhile (\<lambda>x. fst x = fst e) es) then (iters w i)\<lparr>m_here := r\<rparr> else iters w i) \<and>
    m_realpos (streams w' sid) = min (fst e + k) (int (length rows))"
proof -
  let ?n = "int (length rows)"
  have r0: "0 \<le> m_realpos (streams w sid)" "m_realpos (streams w sid) \<le> ?n" using assms(1) by (auto elim: stream_relE)
  have k: "1 \<le> k" using assms(1) by (rule stream_relE)
  obtain w1 where w1: "(if fst e > m_realpos (streams w sid) then ignore_rows K sid (fst e - m_realpos (streams w sid)) else retA (Some ())) w =
      (Inr (Some ()), w1)" "stream_rel K q view rows sid k w1" "iters w1 = iters w" "m_realpos (streams w1 sid) = min (fst e) ?n"
  proof (cases "fst e > m_realpos (streams w sid)")
    case True
    with ignore_rows_ok [OF assms(1), of "fst e - m_realpos (streams w sid)"] r0 assms(3) that show thesis by auto
  next
    case False
    with assms(1,2) r0 that [of w] show thesis by (simp add: retA_def)
  qed
  from fetchblock_ok [OF w1(2)] obtain r w2 where
    w2: "fetchblock K sid w1 = (Inr (Some r), w2)" "stream_rel K q view rows sid k w2" "iters w2 = iters w1"
      "rows_of r = block rows k (min (fst e) ?n)" "m_realpos (streams w2 sid) = min (min (fst e) ?n + k) ?n"
    unfolding w1(4) by blast
  let ?w3 = "fold (\<lambda>x. fill r (snd x)) (e # takeWhile (\<lambda>x. fst x = fst e) es) w2"
  have "service_todo K sid (e # es) w = service_todo K sid (dropWhile (\<lambda>x. fst x = fst e) es) ?w3"
    using w1(1) w2(1) by (simp add: service_todo.simps bindO_def)
  moreover have "block rows k (min (fst e) ?n) = block rows k (fst e)" by (simp add: block_def min_def)
  moreover have "min (min (fst e) ?n + k) ?n = min (fst e + k) ?n" using k by auto
  moreover have "stream_rel K q view rows sid k ?w3" using w2(2) by (rule stream_rel_cong) (simp_all only: fold_fill_iters)
  moreover have "m_realpos (streams ?w3 sid) = m_realpos (streams w2 sid)" by (simp only: fold_fill_iters)
  moreover have "iters ?w3 = (\<lambda>i. if i = snd e \<or> i \<in> snd ` set (takeWhile (\<lambda>x. fst x = fst e) es) then (iters w i)\<lparr>m_here := r\<rparr> else iters w i)"
    unfolding fold_fill_iters w2(3) w1(3) by (simp add: fun_eq_iff)
  ultimately show ?thesis using w2(4,5) by (intro exI [of _ r] exI [of _ ?w3] conjI) simp_all
qed

text \<open>All of the entries.  The cursor passes no position that comes a stride behind the entries.\<close>

lemma set_takeWhile_dropWhile: "set xs = set (takeWhile P xs) \<union> set (dropWhile P xs)"
  by (metis set_append takeWhile_dropWhile_id)

lemma service_todo_ok:
  assumes "stream_rel K q view rows sid k w" "spaced k (m_realpos (streams w sid)) todo" "distinct (map snd todo)"
  shows "\<exists>w'. service_todo K sid todo w = (Inr (Some ()), w') \<and> stream_rel K q view rows sid k w' \<and>
    (\<forall>e \<in> set todo. rows_of (m_here (iters w' (snd e))) = block rows k (fst e)) \<and>
    (\<forall>i. i \<notin> snd ` set todo \<longrightarrow> iters w' i = iters w i) \<and>
    (\<forall>x. (\<forall>e \<in> set todo. fst e + k \<le> x) \<longrightarrow> m_realpos (streams w sid) \<le> x \<longrightarrow> m_realpos (streams w' sid) \<le> x)"
  using assms
proof (induction K sid todo arbitrary: w rule: service_todo.induct)
  case (1 K sid)
  then show ?case by (simp add: service_todo.simps retA_def)
next
  case (2 K sid e es)
  let ?same = "\<lambda>x :: int \<times> nat. fst x = fst e"
  have lo: "m_realpos (streams w sid) \<le> fst e" "fst e \<le> INT_MAX" using "2.prems"(2) by simp_all
  have k: "1 \<le> k" using "2.prems"(1) by (rule stream_relE)
  from service_first [OF "2.prems"(1) lo, of es] obtain r w1 where
    w1: "service_todo K sid (e # es) w = service_todo K sid (dropWhile ?same es) w1" "stream_rel K q view rows sid k w1"
      "rows_of r = block rows k (fst e)"
      "\<And>i. iters w1 i = (if i = snd e \<or> i \<in> snd ` set (takeWhile ?same es) then (iters w i)\<lparr>m_here := r\<rparr> else iters w i)"
      "m_realpos (streams w1 sid) = min (fst e + k) (int (length rows))" by auto
  have "spaced k (m_realpos (streams w1 sid)) (dropWhile ?same es)"
  proof (rule spaced_lower [OF spaced_dropWhile [OF "2.prems"(2) k]])
    fix x assume x: "x \<in> set (dropWhile ?same es)"
    then have "fst e + k \<le> fst x"
    proof -
      have "spaced k lo xs \<Longrightarrow> y \<in> set xs \<Longrightarrow> lo \<le> fst y" for lo xs and y :: "int \<times> nat" by (induction xs) auto
      from this [OF spaced_dropWhile [OF "2.prems"(2) k] x] show ?thesis .
    qed
    with w1(5) show "m_realpos (streams w1 sid) \<le> fst x" by simp
  qed
  moreover have "distinct (map snd (dropWhile ?same es))"
    using "2.prems"(3) by (metis distinct.simps(2) distinct_append list.simps(9) map_append takeWhile_dropWhile_id)
  ultimately obtain w' where
    w': "service_todo K sid (dropWhile ?same es) w1 = (Inr (Some ()), w')" "stream_rel K q view rows sid k w'"
      "\<And>e'. e' \<in> set (dropWhile ?same es) \<Longrightarrow> rows_of (m_here (iters w' (snd e'))) = block rows k (fst e')"
      "\<And>i. i \<notin> snd ` set (dropWhile ?same es) \<Longrightarrow> iters w' i = iters w1 i"
      "\<And>x. \<forall>e' \<in> set (dropWhile ?same es). fst e' + k \<le> x \<Longrightarrow> m_realpos (streams w1 sid) \<le> x \<Longrightarrow> m_realpos (streams w' sid) \<le> x"
    using "2.IH" [OF w1(2)] by blast
  have dis: "snd x \<notin> snd ` set (dropWhile ?same es)" if "x = e \<or> x \<in> set (takeWhile ?same es)" for x
  proof -
    have "distinct (map snd ((e # takeWhile ?same es) @ dropWhile ?same es))" using "2.prems"(3) by simp
    then have "snd ` set (e # takeWhile ?same es) \<inter> snd ` set (dropWhile ?same es) = {}" unfolding map_append distinct_append by simp
    with that show ?thesis by (metis disjoint_iff image_eqI list.set_intros)
  qed
  have "rows_of (m_here (iters w' (snd x))) = block rows k (fst x)" if "x \<in> set (e # es)" for x
  proof (cases "x \<in> set (dropWhile ?same es)")
    case False
    with that have x: "x = e \<or> x \<in> set (takeWhile ?same es)" using set_takeWhile_dropWhile [of es ?same] by auto
    then have "fst x = fst e" using set_takeWhileD by fastforce
    with w'(4) [OF dis [OF x]] w1(3,4) x show ?thesis by auto
  qed (rule w'(3))
  moreover have "iters w' i = iters w i" if "i \<notin> snd ` set (e # es)" for i
    using that w'(4) [of i] w1(4) [of i] set_takeWhile_dropWhile [of es ?same] by (auto simp: image_Un)
  moreover have "m_realpos (streams w' sid) \<le> x" if "\<forall>e' \<in> set (e # es). fst e' + k \<le> x" for x
    using that w'(5) [of x] w1(5) set_takeWhile_dropWhile [of es ?same] by auto
  ultimately show ?case unfolding w1(1) w'(1) using w'(2) by (intro exI [of _ w']) auto
qed

lemma todo_insert_set: "set (todo_insert e xs) = insert e (set xs)"
  by (induction xs) auto

lemma todo_insert_sorted: "sorted (map fst xs) \<Longrightarrow> sorted (map fst (todo_insert e xs))"
  by (induction xs) (auto simp: todo_insert_set)

lemma todo_insert_distinct: "distinct (map snd (todo_insert e xs)) \<longleftrightarrow> snd e \<notin> snd ` set xs \<and> distinct (map snd xs)"
  by (induction xs) (auto simp: todo_insert_set)

lemma todo_fold:
  "set (fold (\<lambda>i. todo_insert (f i, i)) due acc) = (\<lambda>i. (f i, i)) ` set due \<union> set acc"
  "sorted (map fst acc) \<Longrightarrow> sorted (map fst (fold (\<lambda>i. todo_insert (f i, i)) due acc))"
  "distinct due \<Longrightarrow> distinct (map snd acc) \<Longrightarrow> set due \<inter> snd ` set acc = {} \<Longrightarrow>
    distinct (map snd (fold (\<lambda>i. todo_insert (f i, i)) due acc))"
  by (induction due arbitrary: acc) (auto simp: todo_insert_set todo_insert_sorted todo_insert_distinct)

lemma spaced_sorted:
  "sorted (map fst xs) \<Longrightarrow> (\<And>x. x \<in> set xs \<Longrightarrow> lo \<le> fst x \<and> fst x \<le> INT_MAX) \<Longrightarrow>
   (\<And>x y. x \<in> set xs \<Longrightarrow> y \<in> set xs \<Longrightarrow> fst x < fst y \<Longrightarrow> fst x + k \<le> fst y) \<Longrightarrow> spaced k lo xs"
proof (induction xs)
  case (Cons a xs)
  have "fst x = fst a \<or> fst a + k \<le> fst x" if "x \<in> set xs" for x
    using that Cons.prems(1) Cons.prems(3) [of a x] by fastforce
  with Cons show ?case by simp
qed simp

text \<open>Multiples of the stride.\<close>

lemma multiples_apart: "(k :: int) dvd a \<Longrightarrow> k dvd b \<Longrightarrow> a < b \<Longrightarrow> a + k \<le> b"
  using zdvd_imp_le [of k "b - a"] dvd_diff [of k b a] by simp

lemma service_iterators_ok:
  assumes "stream_rel K q view rows sid k w" "linked w sid xs"
    and "\<forall>i \<in> set xs. k dvd it_pos (iters w i) \<and> it_pos (iters w i) \<le> INT_MAX"
  shows "\<exists>w'. service_iterators K sid topos w = (Inr (Some ()), w') \<and> stream_rel K q view rows sid k w' \<and>
    (\<forall>i \<in> set xs. m_realpos (streams w sid) \<le> it_pos (iters w i) \<and> it_pos (iters w i) \<le> topos \<longrightarrow>
      rows_of (m_here (iters w' i)) = block rows k (it_pos (iters w i))) \<and>
    (\<forall>i. \<not> (i \<in> set xs \<and> m_realpos (streams w sid) \<le> it_pos (iters w i) \<and> it_pos (iters w i) \<le> topos) \<longrightarrow> iters w' i = iters w i) \<and>
    (\<forall>x. k dvd x \<longrightarrow> topos < x \<longrightarrow> m_realpos (streams w sid) \<le> x \<longrightarrow> m_realpos (streams w' sid) \<le> x)"
proof (cases "topos < m_realpos (streams w sid)")
  case True
  then show ?thesis using assms(1) by (intro exI [of _ w]) (auto simp: service_iterators_def)
next
  case False
  let ?due = "filter (\<lambda>i. it_pos (iters w i) \<ge> m_realpos (streams w sid) \<and> it_pos (iters w i) \<le> topos) xs"
  let ?todo = "fold (\<lambda>i. todo_insert (it_pos (iters w i), i)) ?due []"
  have s: "service_iterators K sid topos w = service_todo K sid ?todo w"
    using False linked_walk [OF assms(2)] by (simp add: service_iterators_def Let_def)
  have set: "set ?todo = (\<lambda>i. (it_pos (iters w i), i)) ` set ?due" by (simp add: todo_fold)
  have "distinct (map snd ?todo)" using assms(2) by (intro todo_fold) (simp_all add: linked_def)
  moreover have "spaced k (m_realpos (streams w sid)) ?todo"
  proof (rule spaced_sorted)
    show "sorted (map fst ?todo)" by (rule todo_fold) simp
  qed (use assms(3) set in \<open>auto intro: multiples_apart\<close>)
  ultimately obtain w' where
    w': "service_todo K sid ?todo w = (Inr (Some ()), w')" "stream_rel K q view rows sid k w'"
      "\<And>e. e \<in> set ?todo \<Longrightarrow> rows_of (m_here (iters w' (snd e))) = block rows k (fst e)"
      "\<And>i. i \<notin> snd ` set ?todo \<Longrightarrow> iters w' i = iters w i"
      "\<And>x. \<forall>e \<in> set ?todo. fst e + k \<le> x \<Longrightarrow> m_realpos (streams w sid) \<le> x \<Longrightarrow> m_realpos (streams w' sid) \<le> x"
    using service_todo_ok [OF assms(1)] by blast
  show ?thesis
  proof (intro exI [of _ w'] conjI allI impI ballI)
    show "service_iterators K sid topos w = (Inr (Some ()), w')" by (simp add: s w'(1))
  next
    fix i assume "i \<in> set xs" "m_realpos (streams w sid) \<le> it_pos (iters w i) \<and> it_pos (iters w i) \<le> topos"
    then show "rows_of (m_here (iters w' i)) = block rows k (it_pos (iters w i))"
      using w'(3) [of "(it_pos (iters w i), i)"] set by auto
  next
    fix i assume "\<not> (i \<in> set xs \<and> m_realpos (streams w sid) \<le> it_pos (iters w i) \<and> it_pos (iters w i) \<le> topos)"
    then show "iters w' i = iters w i"
      by (intro w'(4)) (auto simp: set)
  next
    fix x assume x: "k dvd x" "topos < x" "m_realpos (streams w sid) \<le> x"
    have "fst e + k \<le> x" if "e \<in> set ?todo" for e
      using that set x(1,2) assms(3) by (auto intro!: multiples_apart)
    with w'(5) x(3) show "m_realpos (streams w' sid) \<le> x" by blast
  qed (rule w'(2))
qed

section \<open>Programs that read blocks\<close>

text \<open>
  An iterator on the stream is at a block that was requested; if the cursor is behind its position, then the iterator has its rows.
\<close>

definition good_iterator :: "table_rows \<Rightarrow> nat \<Rightarrow> int \<Rightarrow> icursorstream \<Rightarrow> icursor_iterator \<Rightarrow> bool" where
  "good_iterator rows sid k st x \<longleftrightarrow> m_stream x = None \<and> m_here x = None \<or>
     m_stream x = Some sid \<and> k dvd it_pos x \<and> 0 \<le> it_pos x \<and> it_pos x \<le> m_reqpos st \<and>
     (it_pos x < m_realpos st \<longrightarrow> rows_of (m_here x) = block rows k (it_pos x))"

definition requests_ok :: "int \<Rightarrow> icursorstream \<Rightarrow> bool" where
  "requests_ok k st \<longleftrightarrow> k dvd m_reqpos st \<and> 0 \<le> m_reqpos st \<and> m_reqpos st \<le> INT_MAX \<and> m_realpos st \<le> m_reqpos st + k"

definition blocks_ok ::
    "'s cursor_libpq \<Rightarrow> string \<Rightarrow> ('s \<Rightarrow> (table_rows \<times> nat) option) \<Rightarrow> table_rows \<Rightarrow> nat \<Rightarrow> int \<Rightarrow> 's cursor_store \<Rightarrow> nat set \<Rightarrow> bool" where
  "blocks_ok K q view rows sid k w I \<longleftrightarrow> iterators_ok w {sid} I \<and> stream_rel K q view rows sid k w \<and>
     requests_ok k (streams w sid) \<and> (\<forall>i \<in> I. good_iterator rows sid k (streams w sid) (iters w i))"

text \<open>Reading keeps this, and brings the rows.\<close>

lemma service_blocks:
  assumes "blocks_ok K q view rows sid k w I" "topos \<le> m_reqpos (streams w sid)"
  shows "\<exists>w'. service_iterators K sid topos w = (Inr (Some ()), w') \<and> blocks_ok K q view rows sid k w' I \<and> read_frame w w' \<and>
    (\<forall>i \<in> I. m_stream (iters w i) = Some sid \<and> it_pos (iters w i) \<le> topos \<longrightarrow> rows_of (m_here (iters w' i)) = block rows k (it_pos (iters w i)))"
proof -
  note b = assms(1) [unfolded blocks_ok_def]
  have good: "good_iterator rows sid k (streams w sid) (iters w i)" if "i \<in> I" for i using b that by blast
  from b obtain xs where xs: "linked w sid xs" "set xs = {i \<in> I. m_stream (iters w i) = Some sid}" using iterators_ok_list by blast
  have pos: "\<forall>i \<in> set xs. k dvd it_pos (iters w i) \<and> it_pos (iters w i) \<le> INT_MAX"
  proof
    fix i assume "i \<in> set xs"
    then have "good_iterator rows sid k (streams w sid) (iters w i)" "m_stream (iters w i) = Some sid" using good xs(2) by auto
    with b show "k dvd it_pos (iters w i) \<and> it_pos (iters w i) \<le> INT_MAX" by (auto simp: good_iterator_def requests_ok_def)
  qed
  have sr: "stream_rel K q view rows sid k w" using b by blast
  from service_iterators_ok [OF sr xs(1) pos, of topos] obtain w' where
    w': "service_iterators K sid topos w = (Inr (Some ()), w')" "stream_rel K q view rows sid k w'"
    and read: "\<forall>i \<in> set xs. m_realpos (streams w sid) \<le> it_pos (iters w i) \<and> it_pos (iters w i) \<le> topos \<longrightarrow>
        rows_of (m_here (iters w' i)) = block rows k (it_pos (iters w i))"
    and kept: "\<forall>i. \<not> (i \<in> set xs \<and> m_realpos (streams w sid) \<le> it_pos (iters w i) \<and> it_pos (iters w i) \<le> topos) \<longrightarrow> iters w' i = iters w i"
    and bound: "\<forall>x. k dvd x \<longrightarrow> topos < x \<longrightarrow> m_realpos (streams w sid) \<le> x \<longrightarrow> m_realpos (streams w' sid) \<le> x"
    by (elim exE conjE) simp
  have fr: "read_frame w w'" using readingD [OF reading_service_iterators w'(1)] .
  then have f: "m_reqpos (streams w' sid) = m_reqpos (streams w sid)" "\<And>i. it_pos (iters w' i) = it_pos (iters w i)"
    "\<And>i. m_stream (iters w' i) = m_stream (iters w i)" by (simp_all add: read_frame_def)
  have k: "1 \<le> k" using w'(2) by (rule stream_relE)
  have "m_realpos (streams w' sid) \<le> m_reqpos (streams w sid) + k"
    by (rule bound [rule_format]) (use b assms(2) k in \<open>auto simp: requests_ok_def\<close>)
  with b have req: "requests_ok k (streams w' sid)" by (simp add: requests_ok_def f)
  have here: "rows_of (m_here (iters w' i)) = block rows k (it_pos (iters w i))"
    if i: "i \<in> I" "m_stream (iters w i) = Some sid" "it_pos (iters w i) \<le> topos" for i
  proof (cases "m_realpos (streams w sid) \<le> it_pos (iters w i)")
    case True
    with i read xs(2) show ?thesis by simp
  next
    case False
    with good [OF i(1)] i(2) kept show ?thesis by (auto simp: good_iterator_def)
  qed
  have "good_iterator rows sid k (streams w' sid) (iters w' i)" if i: "i \<in> I" for i
  proof (cases "m_stream (iters w i)")
    case None
    with good [OF i] kept xs(2) show ?thesis by (simp add: good_iterator_def)
  next
    case (Some s)
    have "rows_of (m_here (iters w' i)) = block rows k (it_pos (iters w i))" if "it_pos (iters w i) < m_realpos (streams w' sid)"
    proof (cases "it_pos (iters w i) \<le> topos")
      case True
      with here i good [OF i] Some show ?thesis by (simp add: good_iterator_def)
    next
      case False
      have "k dvd it_pos (iters w i)" using good [OF i] Some by (simp add: good_iterator_def)
      with that False bound [rule_format, of "it_pos (iters w i)"] have "it_pos (iters w i) < m_realpos (streams w sid)" by linarith
      with good [OF i] Some have "rows_of (m_here (iters w i)) = block rows k (it_pos (iters w i))" by (simp add: good_iterator_def)
      moreover have "iters w' i = iters w i" using kept [rule_format, of i] False by simp
      ultimately show ?thesis by simp
    qed
    with good [OF i] Some show ?thesis by (simp add: good_iterator_def f)
  qed
  moreover have "iterators_ok w' {sid} I" using b iterators_ok_cong read_frame_links [OF fr] by blast
  ultimately have "blocks_ok K q view rows sid k w' I" using w'(2) req by (simp add: blocks_ok_def)
  with w'(1) fr here show ?thesis by blast
qed

lemma refresh_blocks:
  assumes "blocks_ok K q view rows sid k w I" "i \<in> I"
  shows "\<exists>w'. refresh K i w = (Inr (Some ()), w') \<and> blocks_ok K q view rows sid k w' I \<and> read_frame w w' \<and>
    rows_of (m_here (iters w' i)) = (if m_stream (iters w i) = None then [] else block rows k (it_pos (iters w i)))"
proof -
  have g: "good_iterator rows sid k (streams w sid) (iters w i)" using assms by (simp add: blocks_ok_def)
  show ?thesis
  proof (cases "m_stream (iters w i)")
    case None
    with g assms(1) show ?thesis by (simp add: refresh_def good_iterator_def rows_of_def)
  next
    case (Some s)
    with g have "s = sid" "it_pos (iters w i) \<le> m_reqpos (streams w sid)" by (auto simp: good_iterator_def)
    with service_blocks [OF assms(1), of "it_pos (iters w i)"] assms(2) Some show ?thesis by (auto simp: refresh_def)
  qed
qed

text \<open>Operations on iterators: \<open>i\<close> becomes a copy of \<open>rhs\<close>, and the streams stay.\<close>

definition copied :: "'s cursor_store \<Rightarrow> 's cursor_store \<Rightarrow> nat \<Rightarrow> nat \<Rightarrow> bool" where
  "copied w w' rhs i \<longleftrightarrow> ic_scope w' = ic_scope w \<and>
     (\<forall>a. let x = iters w (if a = i then rhs else a) in
        m_stream (iters w' a) = m_stream x \<and> m_here (iters w' a) = m_here x \<and> it_pos (iters w' a) = it_pos x) \<and>
     (\<forall>s. m_cur (streams w' s) = m_cur (streams w s) \<and> m_stride (streams w' s) = m_stride (streams w s) \<and>
        m_realpos (streams w' s) = m_realpos (streams w s) \<and> m_reqpos (streams w' s) = m_reqpos (streams w s))"

lemma copied_same: "same_data w w' \<Longrightarrow> copied w w' i i"
  by (simp add: same_data_def copied_def)

lemma copy_iterator_copied: "copied w (copy_iterator rhs i w) rhs i"
  by (auto simp: copied_def copy_iterator_def Let_def insert_fields split: option.split)

lemma assign_iterator_copied:
  assumes "iterators_ok w S I" "i \<in> I" "assign_iterator i rhs w = (r, w')"
  shows "copied w w' rhs i"
proof (cases "m_stream (iters w rhs) = m_stream (iters w i)")
  case True
  with assms(3) show ?thesis by (auto simp: assign_iterator_def Let_def copied_def)
next
  case False
  obtain w1 where w1: "destroy_iterator i w = (Inr (Some ()), w1)" "same_data w w1" using destroy_iterator_ok [OF assms(1,2)] by blast
  let ?y = "iters w rhs"
  let ?w2 = "upd_iter i (\<lambda>x. x\<lparr>m_here := m_here ?y, it_pos := it_pos ?y, m_stream := m_stream ?y\<rparr>) w1"
  have "assign_iterator i rhs w = (Inr (Some ()), case m_stream ?y of None \<Rightarrow> ?w2 | Some sid \<Rightarrow> insert_iterator sid i ?w2)"
    using False w1(1) by (simp add: assign_iterator_def Let_def bindO_def destroy_iterator_def split: option.splits)
  then have w': "w' = (case m_stream ?y of None \<Rightarrow> ?w2 | Some sid \<Rightarrow> insert_iterator sid i ?w2)" using assms(3) by simp
  have "copied w ?w2 rhs i" using w1(2) by (simp add: copied_def same_data_def)
  then show ?thesis unfolding w' copied_def by (cases "m_stream ?y") (simp_all add: insert_fields)
qed

lemma copied_blocks:
  assumes "blocks_ok K q view rows sid k w I" "copied w w' rhs i" "iterators_ok w' {sid} I'" "rhs \<in> I" "I' \<subseteq> insert i I"
  shows "blocks_ok K q view rows sid k w' I'"
proof -
  have "good_iterator rows sid k (streams w' sid) (iters w' a)" if "a \<in> I'" for a
  proof -
    have "good_iterator rows sid k (streams w sid) (iters w (if a = i then rhs else a))"
      using assms(1,4,5) that by (auto simp: blocks_ok_def)
    with assms(2) show ?thesis unfolding copied_def Let_def good_iterator_def by simp
  qed
  with assms(1-3) show ?thesis by (auto simp: blocks_ok_def stream_rel_def requests_ok_def copied_def)
qed

text \<open>Moving on requests a block that was not asked for before.\<close>

lemma step_blocks:
  assumes "blocks_ok K q view rows sid k w I" "i \<in> I" "1 \<le> n" "step_iterator i n w = (r, w')" "r \<noteq> Inr None"
  shows "blocks_ok K q view rows sid k w' I"
proof -
  note b = assms(1) [unfolded blocks_ok_def]
  have good: "good_iterator rows sid k (streams w sid) (iters w a)" if "a \<in> I" for a using b that by blast
  from assms(4,5) obtain s where s: "m_stream (iters w i) = Some s" by (auto simp: step_iterator_def split: option.splits)
  with good [OF assms(2)] have s: "m_stream (iters w i) = Some sid" by (simp add: good_iterator_def)
  have k: "m_stride (streams w sid) = k" "1 \<le> k" using b by (auto elim: stream_relE)
  let ?p = "m_reqpos (streams w sid) + n * k"
  obtain r1 w1 where f: "forward sid n w = (r1, w1)" by (cases "forward sid n w")
  from forward_cases [OF f] assms(4,5) f s k have f1: "r1 = Inr (Some ?p)" "w1 = upd_stream sid (\<lambda>x. x\<lparr>m_reqpos := ?p\<rparr>) w"
    by (auto simp: step_iterator_def bindO_def)
  with assms(4) f s have w': "w' = upd_iter i (\<lambda>x. x\<lparr>it_pos := ?p, m_here := None\<rparr>) (upd_stream sid (\<lambda>x. x\<lparr>m_reqpos := ?p\<rparr>) w)"
    by (simp add: step_iterator_def bindO_def)
  have "fits_int ?p = Some ?p"
    using f f1 k by (auto simp: forward_def bindO_def int_result_def retA_def fits_int_def split: option.splits if_splits)
  then have mx: "?p \<le> INT_MAX" by (simp add: fits_int_def split: if_splits)
  have "1 * k \<le> n * k" using assms(3) k(2) by (intro mult_right_mono) auto
  then have p: "m_reqpos (streams w sid) + k \<le> ?p" by simp
  have "requests_ok k (streams w sid)" using b by blast
  then have np: "k dvd ?p" "0 \<le> ?p" "m_realpos (streams w sid) \<le> ?p + k" "\<not> ?p < m_realpos (streams w sid)" using p k(2) unfolding requests_ok_def by (simp, linarith, linarith, linarith)
  with mx have req: "requests_ok k (streams w' sid)" unfolding requests_ok_def w' by simp
  have "good_iterator rows sid k (streams w' sid) (iters w' a)" if "a \<in> I" for a
  proof (cases "a = i")
    case True
    then show ?thesis using s np unfolding good_iterator_def w' by simp
  next
    case False
    have "it_pos (iters w a) \<le> m_reqpos (streams w sid) \<Longrightarrow> it_pos (iters w a) \<le> ?p" using p k(2) by linarith
    with False good [OF that] show ?thesis unfolding good_iterator_def w' by auto
  qed
  with b req step_iterator_ok [OF _ assms(4,5)] show ?thesis by (auto simp: blocks_ok_def stream_rel_def w')
qed

lemma construct_blocks:
  assumes "blocks_ok K q view rows sid k w I" "i \<notin> I" "m_realpos (streams w sid) \<le> m_reqpos (streams w sid)" "new_iterator sid i w = (r, w')" "r \<noteq> Inr None"
  shows "blocks_ok K q view rows sid k w' (insert i I)"
proof -
  note b = assms(1) [unfolded blocks_ok_def]
  obtain r1 w1 where f: "forward sid 0 w = (r1, w1)" by (cases "forward sid 0 w")
  from forward_cases [OF f] assms(4,5) f have w': "w1 = upd_stream sid (\<lambda>x. x\<lparr>m_reqpos := m_reqpos (streams w sid)\<rparr>) w"
    "w' = insert_iterator sid i (upd_iter i (\<lambda>_. end_iterator\<lparr>m_stream := Some sid, it_pos := m_reqpos (streams w sid)\<rparr>) w1)"
    by (auto simp: new_iterator_def bindO_def)
  have "good_iterator rows sid k (streams w' sid) (iters w' a)" if "a \<in> insert i I" for a
    using b assms(3) that unfolding good_iterator_def w' insert_fields by (auto simp: requests_ok_def)
  moreover have "iterators_ok w' {sid} (insert i I)" using b assms(2,4,5) by (auto intro: new_iterator_ok)
  ultimately show ?thesis using b by (simp add: blocks_ok_def stream_rel_def requests_ok_def w' insert_fields)
qed

text \<open>
  A program that leaves the stream alone, and constructs iterators only as long as nothing was read behind the last
  request.
\<close>

fun orderly :: "nat \<Rightarrow> 's cursor_store \<Rightarrow> iterator_op \<Rightarrow> bool" where
  "orderly sid w (Construct s i) \<longleftrightarrow> m_realpos (streams w sid) \<le> m_reqpos (streams w sid)"
| "orderly sid w (Get s) \<longleftrightarrow> False"
| "orderly sid w (Ignore s n) \<longleftrightarrow> False"
| "orderly sid w (Set_stride s n) \<longleftrightarrow> False"
| "orderly sid w a \<longleftrightarrow> True"

lemma refresh_two_blocks:
  assumes "blocks_ok K q view rows sid k w I" "i \<in> I" "j \<in> I"
  shows "\<exists>w'. bindO (refresh K i) (\<lambda>_. bindO (refresh K j) f) w = f () w' \<and> blocks_ok K q view rows sid k w' I \<and> read_frame w w' \<and>
    rows_of (m_here (iters w' j)) = (if m_stream (iters w j) = None then [] else block rows k (it_pos (iters w j)))"
proof -
  from refresh_blocks [OF assms(1,2)] obtain w1 where
    w1: "refresh K i w = (Inr (Some ()), w1)" "blocks_ok K q view rows sid k w1 I" "read_frame w w1" by blast
  from refresh_blocks [OF w1(2) assms(3)] obtain w2 where
    w2: "refresh K j w1 = (Inr (Some ()), w2)" "blocks_ok K q view rows sid k w2 I" "read_frame w1 w2"
      "rows_of (m_here (iters w2 j)) = (if m_stream (iters w1 j) = None then [] else block rows k (it_pos (iters w1 j)))" by blast
  with w1(1,3) read_frame_trans [OF w1(3) w2(3)] show ?thesis
    by (intro exI [of _ w2]) (simp add: bindO_def read_frame_def)
qed

lemma equal_blocks:
  assumes "blocks_ok K q view rows sid k w I" "i \<in> I" "j \<in> I"
  shows "\<exists>b w'. iterators_equal K i j w = (Inr (Some b), w') \<and> blocks_ok K q view rows sid k w' I"
  using refresh_two_blocks [OF assms, of "\<lambda>_ w. (Inr (Some (rows_of (m_here (iters w i)) = [] \<and> rows_of (m_here (iters w j)) = [])), w)"] assms(1)
  by (auto simp: iterators_equal_def)

lemma less_blocks:
  assumes "blocks_ok K q view rows sid k w I" "i \<in> I" "j \<in> I"
  shows "\<exists>b w'. iterator_less K i j w = (Inr (Some b), w') \<and> blocks_ok K q view rows sid k w' I"
  using refresh_two_blocks [OF assms, of "\<lambda>_ w. (Inr (Some (rows_of (m_here (iters w i)) \<noteq> [])), w)"] assms(1)
  by (auto simp: iterator_less_def)

lemma deref_blocks:
  assumes "blocks_ok K q view rows sid k w I" "i \<in> I"
  shows "\<exists>r w'. deref_iterator K i w = (Inr (Some r), w') \<and> blocks_ok K q view rows sid k w' I \<and>
    rows_of r = (if m_stream (iters w i) = None then [] else block rows k (it_pos (iters w i)))"
  using refresh_blocks [OF assms] by (auto simp: deref_iterator_def bindO_def)

lemma apply_op_blocks:
  assumes "blocks_ok K q view rows sid k w I" "live_op {sid} I a" "orderly sid w a" "apply_op K a w = (r, w')" "r \<noteq> Inr None"
  shows "blocks_ok K q view rows sid k w' (live_after a I)"
proof -
  have ok: "iterators_ok w {sid} I" using assms(1) by (simp add: blocks_ok_def)
  have ok': "iterators_ok w' {sid} (live_after a I)" by (rule apply_op_ok [OF ok assms(2,4,5)])
  show ?thesis
  proof (cases a)
    case (Default i)
    then have "w' = upd_iter i (\<lambda>_. end_iterator) w" "i \<notin> I" using assms(2,4) by simp_all
    with assms(1) ok' Default show ?thesis
      by (auto simp: blocks_ok_def stream_rel_def good_iterator_def end_iterator_def)
  next
    case (Construct s i)
    with assms construct_blocks [OF assms(1)] show ?thesis by auto
  next
    case (Copy rhs i)
    with assms ok' copied_blocks [OF assms(1) copy_iterator_copied, of rhs i "insert i I"] show ?thesis by auto
  next
    case (Assign i rhs)
    with assms ok' assign_iterator_copied [OF ok, of i rhs] copied_blocks [OF assms(1), of w' rhs i I] show ?thesis by auto
  next
    case (Destroy i)
    with assms(2,4) destroy_iterator_ok [OF ok, of i] have "copied w w' i i" "i \<in> I" by (auto intro: copied_same)
    with copied_blocks [OF assms(1), of w' i i "I - {i}"] ok' Destroy show ?thesis by auto
  next
    case (Increment i)
    with assms show ?thesis using step_blocks [OF assms(1), of i 1] by (simp add: pre_increment_def)
  next
    case (Increment_after i old)
    with assms(2) have i: "i \<in> I" "old \<notin> I" by simp_all
    have "blocks_ok K q view rows sid k (copy_iterator i old w) (insert old I)"
      using copied_blocks [OF assms(1) copy_iterator_copied copy_iterator_ok [OF ok i]] i(1) by simp
    from step_blocks [OF this, of i 1] i Increment_after assms(4,5) show ?thesis by (simp add: post_increment_def)
  next
    case (Advance i n)
    with assms step_blocks [OF assms(1), of i n r w'] show ?thesis by (auto simp: advance_iterator_def split: if_splits)
  next
    case (Deref i)
    with assms deref_blocks [OF assms(1), of i] show ?thesis by (auto simp: discard_def bindO_def retA_def)
  next
    case (Equal i j)
    with assms equal_blocks [OF assms(1), of i j] show ?thesis by (auto simp: discard_def bindO_def retA_def)
  next
    case (Less i j)
    with assms less_blocks [OF assms(1), of i j] show ?thesis by (auto simp: discard_def bindO_def retA_def)
  qed (use assms(3) in auto)
qed

lemma iterator_runs_blocks:
  assumes "iterator_runs K {sid} (orderly sid) (w0, I0) x" "blocks_ok K q view rows sid k w0 I0"
  shows "blocks_ok K q view rows sid k (fst x) (snd x)"
  using assms by induction (auto intro: apply_op_blocks)

lemma fresh_blocks:
  "stream_rel K q view rows sid k w \<Longrightarrow> m_realpos (streams w sid) = 0 \<Longrightarrow> m_reqpos (streams w sid) = 0 \<Longrightarrow>
   m_iterators (streams w sid) = None \<Longrightarrow> blocks_ok K q view rows sid k w {}"
  using iterators_ok_none [of "{sid}" w] by (auto simp: blocks_ok_def requests_ok_def INT_MAX_def elim: stream_relE)

lemma block_empty: "1 \<le> k \<Longrightarrow> 0 \<le> pos \<Longrightarrow> block rows k pos = [] \<longleftrightarrow> int (length rows) \<le> pos"
  by (auto simp: block_def)

lemma equal_end_blocks:
  assumes "blocks_ok K q view rows sid k w I" "i \<in> I" "m_stream (iters w i) = Some sid" "e \<in> I" "m_stream (iters w e) = None"
  shows "\<exists>w'. iterators_equal K i e w = (Inr (Some (int (length rows) \<le> it_pos (iters w i))), w')"
proof -
  have "good_iterator rows sid k (streams w sid) (iters w i)" "1 \<le> k" using assms(1,2) by (auto simp: blocks_ok_def elim: stream_relE)
  with assms(3) have n: "block rows k (it_pos (iters w i)) = [] \<longleftrightarrow> int (length rows) \<le> it_pos (iters w i)"
    by (intro block_empty) (auto simp: good_iterator_def)
  from refresh_blocks [OF assms(1,2)] assms(3) obtain w1 where
    w1: "refresh K i w = (Inr (Some ()), w1)" "blocks_ok K q view rows sid k w1 I" "read_frame w w1"
      "rows_of (m_here (iters w1 i)) = block rows k (it_pos (iters w i))" by auto
  have e: "m_stream (iters w1 e) = None" using w1(3) assms(5) by (simp add: read_frame_def)
  with w1(2) assms(4) have "m_here (iters w1 e) = None" by (auto simp: blocks_ok_def good_iterator_def)
  with e w1(1,4) n assms(3,5) show ?thesis
    by (simp add: iterators_equal_def bindO_def refresh_def rows_of_def)
qed

text \<open>A new stream.\<close>

lemma new_icursorstream_fields:
  assumes "new_icursorstream K uid sid query base k w = (Inr (Some ()), w0)"
  shows "\<exists>c. new_sql_cursor K uid query base Forward_only Read_only Owned False (ic_scope w) = (Inr (Some c), ic_scope w0) \<and> 1 \<le> k \<and>
    streams w0 sid = \<lparr>m_cur = c, m_stride = k, m_realpos = 0, m_reqpos = 0, m_iterators = None, m_done = False\<rparr>"
proof -
  obtain r sc where n: "new_sql_cursor K uid query base Forward_only Read_only Owned False (ic_scope w) = (r, sc)" by fastforce
  with assms obtain c where r: "r = Inr (Some c)" by (auto simp: new_icursorstream_def split: sum.splits option.splits)
  have "1 \<le> k"
    using assms by (auto simp: new_icursorstream_def n r init_stream_def set_stride_def bindO_def throwA_def split: if_splits prod.splits sum.splits option.splits)
  with assms n r show ?thesis by (auto simp: new_icursorstream_def init_stream_def set_stride_def)
qed

lemma new_icursorstream_fresh:
  assumes "new_icursorstream L uid sid query base k w = (Inr (Some ()), w0)" "k \<le> INT_MAX"
    and "cursor_server K Forward_only (m_conn (cn (ic_scope w0))) (c_name (m_cur (streams w0 sid))) q view"
    and "view (srv (ic_scope w0)) = Some (rows, 0)" "int (length rows) < all_rows"
    and "\<forall>r. m_empty_result (m_cur (streams w0 sid)) = Some r \<longrightarrow> res_rows r = []"
  shows "stream_rel K q view rows sid k w0 \<and> blocks_ok K q view rows sid k w0 {}"
proof -
  from new_icursorstream_fields [OF assms(1)] obtain c where
    c: "new_sql_cursor L uid query base Forward_only Read_only Owned False (ic_scope w) = (Inr (Some c), ic_scope w0)" "1 \<le> k"
      "streams w0 sid = \<lparr>m_cur = c, m_stride = k, m_realpos = 0, m_reqpos = 0, m_iterators = None, m_done = False\<rparr>" by blast
  have "cursor_rel K Forward_only q view rows 0 (ic_scope w0, c)"
    by (rule new_sql_cursor_rel [OF c(1)]) (use assms(3-6) c(3) in simp_all)
  then have "stream_rel K q view rows sid k w0"
    using c(2,3) assms(2) by (auto simp: stream_rel_def intro!: exI [of _ 0])
  with fresh_blocks c(3) show ?thesis by fastforce
qed

text \<open>
  C15. On a server that keeps its contract for a cursor that only goes forward, which stands before fewer than
  \<open>cursor_base::all()\<close> rows and whose \<open>FETCH 0\<close> gave none: whatever a program does with the iterators of a new stream, in whatever order it reads, copies, assigns and advances
  them (but it does not read or skip rows through the stream itself or change its stride, and constructs an iterator on
  the stream only while no row behind the last requested position was read), each of them on the stream dereferences to the block of the rows at its position, again and again,
  and it equals the end iterator exactly if its position is behind the rows.
\<close>

theorem icursor_blocks:
  assumes "new_icursorstream (ck K) uid sid query base k w = (Inr (Some ()), w0)" "k \<le> INT_MAX"
    and "cursor_server K Forward_only (m_conn (cn (ic_scope w0))) (c_name (m_cur (streams w0 sid))) q view"
    and "view (srv (ic_scope w0)) = Some (rows, 0)" "int (length rows) < all_rows"
    and "\<forall>r. m_empty_result (m_cur (streams w0 sid)) = Some r \<longrightarrow> res_rows r = []"
    and "iterator_runs K {sid} (orderly sid) (w0, {}) (w1, I)"
    and "i \<in> I" "m_stream (iters w1 i) = Some sid" "e \<in> I" "m_stream (iters w1 e) = None"
  shows "(\<exists>r w2. deref_iterator K i w1 = (Inr (Some r), w2) \<and> rows_of r = take (nat k) (drop (nat (it_pos (iters w1 i))) rows)) \<and>
    (\<exists>w2. iterators_equal K i e w1 = (Inr (Some (int (length rows) \<le> it_pos (iters w1 i))), w2))"
proof
  have b: "blocks_ok K q view rows sid k w1 I"
    using iterator_runs_blocks [OF assms(7)] new_icursorstream_fresh [OF assms(1-6)] by simp
  from deref_blocks [OF b assms(8)] assms(9)
  show "\<exists>r w2. deref_iterator K i w1 = (Inr (Some r), w2) \<and> rows_of r = take (nat k) (drop (nat (it_pos (iters w1 i))) rows)"
    by (auto simp: block_def)
  from equal_end_blocks [OF b assms(8-11)] show "\<exists>w2. iterators_equal K i e w1 = (Inr (Some (int (length rows) \<le> it_pos (iters w1 i))), w2)" .
qed

text \<open>
  An iterator that is constructed on a stream after rows were read through the stream or through another iterator,
  as \<open>m_realpos\<close> then says, stands on a block that it will never get: it dereferences to an empty result without asking
  the server, and equals the end iterator, although rows remain.
\<close>

theorem late_iterator_blind:
  assumes "m_reqpos (streams w sid) < m_realpos (streams w sid)" "INT_MIN \<le> m_reqpos (streams w sid)" "m_reqpos (streams w sid) \<le> INT_MAX"
    and "e \<noteq> i" "iters w e = end_iterator"
  shows "\<exists>w1. new_iterator sid i w = (Inr (Some ()), w1) \<and> deref_iterator K i w1 = (Inr (Some None), w1) \<and>
    iterators_equal K i e w1 = (Inr (Some True), w1)"
proof -
  have f: "forward sid 0 w = (Inr (Some (m_reqpos (streams w sid))), upd_stream sid (\<lambda>s. s\<lparr>m_reqpos := m_reqpos (streams w sid)\<rparr>) w)"
    using assms(2,3) by (simp add: forward_def fits_int_def INT_MIN_def INT_MAX_def int_result_def bindO_def retA_def)
  define w1 where "w1 = insert_iterator sid i (upd_iter i (\<lambda>_. end_iterator\<lparr>m_stream := Some sid, it_pos := m_reqpos (streams w sid)\<rparr>)
    (upd_stream sid (\<lambda>s. s\<lparr>m_reqpos := m_reqpos (streams w sid)\<rparr>) w))"
  have n: "new_iterator sid i w = (Inr (Some ()), w1)" by (simp add: new_iterator_def bindO_def f w1_def)
  have i: "m_stream (iters w1 i) = Some sid" "m_here (iters w1 i) = None" "it_pos (iters w1 i) < m_realpos (streams w1 sid)"
    using assms(1) unfolding w1_def insert_fields by (simp_all add: end_iterator_def)
  have e: "m_stream (iters w1 e) = None" "m_here (iters w1 e) = None"
    using assms(4,5) unfolding w1_def insert_fields by (simp_all add: end_iterator_def)
  have r: "refresh K i w1 = (Inr (Some ()), w1)" "refresh K e w1 = (Inr (Some ()), w1)"
    using i e by (simp_all add: refresh_def service_iterators_def)
  show ?thesis
    using n i e r by (intro exI [of _ w1]) (simp add: deref_iterator_def iterators_equal_def bindO_def rows_of_def)
qed

section \<open>An example\<close>

text \<open>The server of \<open>Pqxx_Cursor_Spec\<close>, with three rows.\<close>

definition demo_store :: "cursor_demo cursor_store" where
  "demo_store = \<lparr>ic_scope = cursor_scope, streams = (\<lambda>_. \<lparr>m_cur = adopt_sql_cursor [] Loose, m_stride = 1, m_realpos = 0, m_reqpos = 0,
     m_iterators = None, m_done = False\<rparr>), iters = (\<lambda>_. end_iterator)\<rparr>"

lemma demo_stream:
  assumes "1 \<le> k"
  obtains w0 c where "new_icursorstream (ck cursor_demo) 4 0 ''SELECT x; '' ''cur'' k demo_store = (Inr (Some ()), w0)"
    "demo_view Forward_only (srv (ic_scope w0)) = Some (demo_rows3, 0)" "\<forall>r. m_empty_result (m_cur (streams w0 0)) = Some r \<longrightarrow> res_rows r = []"
    "streams w0 0 = \<lparr>m_cur = c, m_stride = k, m_realpos = 0, m_reqpos = 0, m_iterators = None, m_done = False\<rparr>"
    "iters w0 = (\<lambda>_. end_iterator)"
proof -
  from demo_cursor [of Forward_only] obtain c sc where
    c: "new_sql_cursor (ck cursor_demo) 4 ''SELECT x; '' ''cur'' Forward_only Read_only Owned False cursor_scope = (Inr (Some c), sc)"
      "demo_view Forward_only (srv sc) = Some (demo_rows3, 0)" "\<forall>r. m_empty_result c = Some r \<longrightarrow> res_rows r = []" by blast
  obtain r w0 where n: "new_icursorstream (ck cursor_demo) 4 0 ''SELECT x; '' ''cur'' k demo_store = (r, w0)" by fastforce
  with assms c have "r = Inr (Some ())" "demo_view Forward_only (srv (ic_scope w0)) = Some (demo_rows3, 0)"
    "streams w0 0 = \<lparr>m_cur = c, m_stride = k, m_realpos = 0, m_reqpos = 0, m_iterators = None, m_done = False\<rparr>" "iters w0 = (\<lambda>_. end_iterator)"
    by (auto simp: new_icursorstream_def demo_store_def init_stream_def set_stride_def)
  with n c(3) show thesis by (intro that) simp_all
qed

lemma demo_rows3_small: "int (length demo_rows3) < all_rows"
  by (simp add: demo_rows3_def all_rows_def INT_MAX_def)

text \<open>Two rows at a time: \<open>i\<close>, the end, and \<open>i++\<close>.\<close>

lemma icursor_blocks_witness:
  "\<exists>w0 w1 r w2 w3. iterator_runs cursor_demo {0} (orderly 0) (w0, {}) (w1, {1, 2, 3}) \<and>
     deref_iterator cursor_demo 1 w1 = (Inr (Some r), w2) \<and> rows_of r = [[Some ''c'']] \<and>
     iterators_equal cursor_demo 1 2 w1 = (Inr (Some False), w3)"
proof -
  obtain w0 c where w0: "new_icursorstream (ck cursor_demo) 4 0 ''SELECT x; '' ''cur'' 2 demo_store = (Inr (Some ()), w0)"
    "demo_view Forward_only (srv (ic_scope w0)) = Some (demo_rows3, 0)" "\<forall>r. m_empty_result (m_cur (streams w0 0)) = Some r \<longrightarrow> res_rows r = []"
    "streams w0 0 = \<lparr>m_cur = c, m_stride = 2, m_realpos = 0, m_reqpos = 0, m_iterators = None, m_done = False\<rparr>"
    by (rule demo_stream [of 2]) simp_all
  obtain a wa where a: "apply_op cursor_demo (Construct 0 1) w0 = (a, wa)" by fastforce
  obtain b wb where b: "apply_op cursor_demo (Default 2) wa = (b, wb)" by fastforce
  obtain d wd where d: "apply_op cursor_demo (Increment_after 1 3) wb = (d, wd)" by fastforce
  note ev = new_iterator_def forward_def fits_int_def INT_MIN_def INT_MAX_def int_result_def bindO_def retA_def insert_iterator_def Let_def
    end_iterator_def post_increment_def copy_iterator_def step_iterator_def
  from a w0(4) have wa: "a \<noteq> Inr None" "m_iterators (streams wa 0) = Some 1" "m_stride (streams wa 0) = 2" "m_reqpos (streams wa 0) = 0"
    "iters wa 1 = end_iterator\<lparr>m_stream := Some 0\<rparr>" by (auto simp: ev)
  from b wa have wb: "b \<noteq> Inr None" "m_iterators (streams wb 0) = Some 1" "m_stride (streams wb 0) = 2" "m_reqpos (streams wb 0) = 0"
    "iters wb 1 = end_iterator\<lparr>m_stream := Some 0\<rparr>" "iters wb 2 = end_iterator" by auto
  from d wb have wd: "d \<noteq> Inr None" "m_stream (iters wd 1) = Some 0" "it_pos (iters wd 1) = 2" "m_stream (iters wd 2) = None" by (auto simp: ev)
  have "iterator_runs cursor_demo {0} (orderly 0) (w0, {}) (wd, live_after (Increment_after 1 3) (live_after (Default 2) (live_after (Construct 0 1) {})))"
    by (rule iterator_runs.step [OF iterator_runs.step [OF iterator_runs.step [OF iterator_runs.start _ _ a] _ _ b] _ _ d])
      (use w0(4) wa(1) wb(1) wd(1) in simp_all)
  then have run: "iterator_runs cursor_demo {0} (orderly 0) (w0, {}) (wd, {3, 2, 1})" by simp
  have "(2 :: int) \<le> INT_MAX" by (simp add: INT_MAX_def)
  from icursor_blocks [OF w0(1) this cursor_demo_serves w0(2) demo_rows3_small w0(3) run _ wd(2) _ wd(4)]
  obtain r w2 w3 where "deref_iterator cursor_demo 1 wd = (Inr (Some r), w2)" "rows_of r = take (nat 2) (drop (nat 2) demo_rows3)"
    "iterators_equal cursor_demo 1 2 wd = (Inr (Some (int (length demo_rows3) \<le> 2)), w3)"
    unfolding wd(3) by auto
  moreover have "{1, 2, 3} = {3, 2, 1 :: nat}" by auto
  ultimately show ?thesis using run by (simp add: demo_rows3_def) blast
qed

text \<open>One \<open>get\<close>, and then an iterator, which takes two of the three rows for the end.\<close>

lemma late_iterator_blind_witness:
  "\<exists>w r w1 w2. fetchblock cursor_demo 0 w = (Inr (Some r), w1) \<and> rows_of r = [[Some ''a'']] \<and> new_iterator 0 1 w1 = (Inr (Some ()), w2) \<and>
     deref_iterator cursor_demo 1 w2 = (Inr (Some None), w2) \<and> iterators_equal cursor_demo 1 2 w2 = (Inr (Some True), w2)"
proof -
  obtain w0 c where w0: "new_icursorstream (ck cursor_demo) 4 0 ''SELECT x; '' ''cur'' 1 demo_store = (Inr (Some ()), w0)"
    "demo_view Forward_only (srv (ic_scope w0)) = Some (demo_rows3, 0)" "\<forall>r. m_empty_result (m_cur (streams w0 0)) = Some r \<longrightarrow> res_rows r = []"
    "streams w0 0 = \<lparr>m_cur = c, m_stride = 1, m_realpos = 0, m_reqpos = 0, m_iterators = None, m_done = False\<rparr>" "iters w0 = (\<lambda>_. end_iterator)"
    by (rule demo_stream [of 1]) simp_all
  have "(1 :: int) \<le> INT_MAX" by (simp add: INT_MAX_def)
  with new_icursorstream_fresh [OF w0(1) _ cursor_demo_serves w0(2) demo_rows3_small w0(3)]
  have "stream_rel cursor_demo ''q'' (demo_view Forward_only) demo_rows3 0 1 w0" by blast
  from fetchblock_ok [OF this] w0(4,5) obtain r w1 where
    w1: "fetchblock cursor_demo 0 w0 = (Inr (Some r), w1)" "rows_of r = [[Some ''a'']]" "iters w1 2 = end_iterator" "m_realpos (streams w1 0) = 1"
    by (auto simp: block_def demo_rows3_def)
  have "m_reqpos (streams w1 0) = 0" using readingD [OF reading_fetchblock w1(1)] w0(4) by (simp add: read_frame_def)
  then have q: "m_reqpos (streams w1 0) < m_realpos (streams w1 0)" "INT_MIN \<le> m_reqpos (streams w1 0)" "m_reqpos (streams w1 0) \<le> INT_MAX" "2 \<noteq> (1 :: nat)"
    by (simp_all add: w1(4) INT_MIN_def INT_MAX_def)
  from late_iterator_blind [OF q w1(3)] w1(1,2) show ?thesis by blast
qed

end
