(* ===== verification/Spec2Isabelle.thy ===== *)
theory Spec2Isabelle
  imports Safe_Queue INI_File HTML_Words HTML_Links Pg_Server DB_Client HTTP_Client HTTP_Server Web_Server HTML_Parser Web_Crawler Pqxx_Encodings Pqxx_Array Pqxx_Conversions Pqxx_Date Pqxx_Composite Pqxx_Stream Pqxx_Copy Pqxx_Stream_Query Pqxx_Pipeline Pqxx_Pipeline_Spec Pqxx_Pipeline_Errors Pqxx_Range Pqxx_Cursor Pqxx_Cursor_Spec Pqxx_Cursor_Stream Pqxx_Cursor_Iter Pqxx_Cursor_Blocks
begin

text \<open>
  A web crawler and a search server over one database (C++17, Boost.Beast, Boost.Asio, OpenSSL, libpqxx).

  The program.  \<open>Crawler/WebCrawler.cpp\<close> reads the configuration (\<open>Include/INI_File.h\<close>), opens the database
  (\<open>Include/DB_Client.h\<close>) and starts worker threads that take links from a queue (\<open>Include/Safe_Queue.h\<close>),
  download them (\<open>Include/HTTP_HTTPs_Client.h\<close>), count the words of the page and collect its links
  (\<open>Include/HTML_parser.h\<close>, \<open>Include/Utils.h\<close>) and write the counts into the database.
  \<open>Server/WebServer.cpp\<close> accepts connections; \<open>Include/HTTP_Server.h\<close> answers a GET with a form and a POST
  with the pages that contain the words of the query, ordered by the number of occurrences.  The database is
  reached through the copy of libpqxx 7.8.1 in the repository.

  The theories, from the bottom up.

  \<^item> \<open>Prelude\<close>: exceptions, results (\<open>exn + 'a\<close>), computations over an outside world, list lemmas.
  \<^item> \<open>Cpp_String\<close>, \<open>Cpp_Stream\<close>, \<open>Cpp_Regex\<close>, \<open>Cpp_Map\<close>: what the program uses of the standard library.
    Sizes are \<open>size_t\<close> with its wrap-around where the code computes with \<open>npos\<close>; a regular expression is
    matched by a backtracking matcher that tries the alternatives in the order of the ECMAScript grammar;
    \<open>ordered_map\<close> is the interface of \<open>std::map\<close>.
  \<^item> \<open>Utils\<close>: \<open>Include/Utils.h\<close>.  Percent-decoding undoes encoding; a link made of an address and back is the
    same address, for hosts and queries of the regular form.
  \<^item> \<open>INI_File\<close>: the parser of the configuration.  It reads what is written in the format and rejects any file with
    a malformed line; the text of an error does not survive, since what is thrown is the \<open>data()\<close> of a local string.
  \<^item> \<open>Safe_Queue\<close>: the queue and its contract, the locale \<open>fifo\<close>.
  \<^item> \<open>HTML_Words\<close>, \<open>HTML_Links\<close>, \<open>HTML_Parser\<close>: \<open>Include/HTML_parser.h\<close>.  The word loop over iterators equals a
    specification by filtering the words of the text outside of tags; the links are exactly those of the
    anchors of the page; \<open>parse\<close> composes download, words, links and database.
  \<^item> \<open>Pqxx_Base\<close>, \<open>Pqxx_Transaction\<close>: what \<open>DB_Client\<close> goes through in libpqxx: results and SQL errors, the
    registration of transactions, the life of connections and transactions, with commit, abort and the
    destructors.  libpq itself is a record of operations, a parameter.
  \<^item> \<open>Pg_Server\<close>, \<open>DB_Client\<close>: the statements, their documented effect on the three tables (\<open>serves\<close>, the
    hypothesis on the server), a reference server that satisfies it, and the index.  The contract speaks of a server
    that accepts connections, of statements sent while no other session is in a transaction, and of texts that are
    valid UTF-8 and short enough for the index of their column; serial numbers may run out, and the texts of errors are
    left open.  Which statements fail is a schedule in the state (\<open>calm\<close>: none).  The abstract state is the
    table \<open>quantity\<close> from keyword and address to a number; every method is a refinement of an operation on it.
  \<^item> \<open>HTTP_Client\<close>: download with redirections, over a record of network operations.
  \<^item> \<open>HTTP_Server\<close>, \<open>Web_Server\<close>: one request, and the connections with their read, write and deadline handlers as
    steps over a socket.  A posted value that ends in a percent sign is undefined behaviour, as in the code.
  \<^item> \<open>Web_Crawler\<close>: the threads as a step relation over the queue, the mutex and the outside; the main thread is
    one of them.
  \<^item> \<open>Pqxx_Encodings\<close>, \<open>Pqxx_Conversions\<close>, \<open>Pqxx_Array\<close>, \<open>Pqxx_Composite\<close>: text handling of libpqxx: the glyph
    scanners of all encoding groups and the searches built on them, conversions of integers, strings and
    binary data in buffers, arrays and composite values.
  \<^item> \<open>Pqxx_Stream\<close>, \<open>Pqxx_Copy\<close>, \<open>Pqxx_Stream_Query\<close>: streaming rows with COPY (\<open>stream_to\<close>, \<open>stream_from\<close> and
    \<open>stream_query\<close>).  A stream is an object beside the scope of its connection and transaction, and an operation an
    action on both; the state that an exception leaves behind is part of the model.  The COPY functions of libpq
    are parameters.  \<open>Pqxx_Copy\<close> holds what \<open>stream_to\<close> and \<open>stream_from\<close> promise together.
  \<^item> \<open>Pqxx_Date\<close>: dates (\<open>time.cxx\<close>), with the calendar of the server, which has no year zero.
  \<^item> \<open>Pqxx_Pipeline\<close>, \<open>Pqxx_Pipeline_Spec\<close>, \<open>Pqxx_Pipeline_Errors\<close>: \<open>pipeline.cxx\<close>, queries sent in batches ahead
    of their results.  The map of queries is ordered by identifier, an iterator is a key or the end, and the
    asynchronous half of libpq is a record of parameters.  \<open>Pqxx_Pipeline_Spec\<close> states the contract of a server that
    runs batches in order (\<open>batch_server\<close>, with a server that satisfies it) and the abstract pipeline, which executes
    a query when it is inserted; \<open>Pqxx_Pipeline_Errors\<close> follows what happens when a batch fails, is cancelled or
    flushed.
  \<^item> \<open>Pqxx_Range\<close>: ranges of values (\<open>range.hxx\<close>) over any linear order.  Intersection and containment against the
    set of values; the text of a range, over any type that keeps the contract \<open>string_traits\<close>.
  \<^item> \<open>Pqxx_Cursor\<close>, \<open>Pqxx_Cursor_Spec\<close>: \<open>sql_cursor.cxx\<close> and the stateless cursor.  The server's cursor is a position
    among its rows (\<open>scroll\<close>, \<open>cursor_server\<close>), which goes backward only if it was declared SCROLL; the object follows
    it from the numbers of rows alone.
  \<^item> \<open>Pqxx_Cursor_Stream\<close>, \<open>Pqxx_Cursor_Iter\<close>, \<open>Pqxx_Cursor_Blocks\<close>: \<open>icursorstream\<close> and \<open>icursor_iterator\<close>
    (\<open>cursor.cxx\<close>).  Streams and iterators live in a store, since the iterators on a stream are a doubly linked list
    of pointers.  \<open>iterator_runs\<close> is what a program does with them, step by step; \<open>Pqxx_Cursor_Iter\<close> keeps the lists
    through it, \<open>Pqxx_Cursor_Blocks\<close> shows which rows the iterators read.

  What the lemmas show.  Type and well-formedness: every text of a link resolves to a link with a rooted query.  State: invariants of connections (one read and one response at most; a connection ends with its socket shut down
  after the response, or closed by the timer) and of the
  crawler (at most one worker in the critical section, depths between zero and the configured one), and the lists
  of cursor iterators, by rule induction.  Function: adding a link is the refinement of one update of \<open>quantity\<close>; a pipeline gives
  the answers of the abstract one for every sequence of calls, whatever the timing of the server; a cursor object
  is always at the position of the server's cursor, and the iterators of a cursor stream read the blocks at their
  positions; searching after indexing finds the page with its count (the last theorem of this theory, which joins
  crawler and server).  Termination: every schedule of the crawler ends or reaches a state in which a worker waits for
  ever, and such a state is reachable; the handlers of the server are bounded by the connections accepted, and when
  none is left every connection is released.
  Errors: what each error of configuration, network, database and text becomes, and which escape.  Round trips:
  configuration files, percent-decoding, addresses, arrays, composite values, integers, binary data, dates, ranges, rows
  sent through COPY.  Streams: an open one holds the focus of its transaction, reading never leaves the row
  buffer whatever the server sends, a failed row spoils the next one, and a query for a single empty string is
  read out of bounds.  Pipelines after an error: flushing keeps the error, a batch whose replay succeeds makes the
  next step read through the end of the map, and a cancelled pipeline fails at the next insertion; a stateless
  cursor read backward from the end gives one row too many; an iterator that is constructed on a cursor stream after
  something was read sees nothing.  Bounds: no
  scanner leaves the text, except one; array access stays inside the storage; conversions stay inside their
  buffers, except for a composite value of one field.

  Bounds and fuel.  No model uses fuel.  The loops over the lines a server sends, and the walk along the list of iterators, need not end and are
  partial functions, with theorems that they return when the server comes to an end and the list is well formed.  All others are structural or have a measure: the text that is left, and for
  the matcher of regular expressions also the depth of the expression.  A download follows at most one
  redirection, as the code does.  Sizes of texts are assumed below \<open>npos\<close> or \<open>max_size\<close> where a
  statement depends on positions; a count is assumed to be an \<open>int\<close> where the code has one.  Undefined
  behaviour that the model can reach (reading or writing outside of a buffer, signed overflow) is the outcome
  \<open>None\<close>.

  Not modelled.  Console set-up and output; the locale of the C++ runtime; the timing of threads other than by the
  order of their steps; memory exhaustion; TLS and certificates (operations of the network record;
  \<open>root_certificates.hpp\<close> is data the program does not call); the implementation of PostgreSQL, libpq, Boost
  and OpenSSL, which are parameters; the classes of libpqxx the program does not reach other than the ones named
  above (large objects, robust transactions, notifications, prepared statements).
\<close>

section \<open>From page to search result\<close>


lemma sum_counts_le: "distinct ks \<Longrightarrow> sum_list (map (count_list xs) ks) \<le> length xs"
proof -
  assume "distinct ks"
  then have "sum_list (map (count_list xs) ks) = sum (count_list xs) (set ks)"
    by (rule sum_list_distinct_conv_sum_set)
  also have "\<dots> \<le> sum (count_list xs) (set ks \<union> set xs)" by (rule sum_mono2) auto
  also have "\<dots> = length xs" by (rule sum_count_set) auto
  finally show ?thesis .
qed

lemma int_sum_list: "int (sum_list (map f xs)) = sum_list (map (\<lambda>x. int (f x)) xs)"
  by (induction xs) simp_all

lemma distinct_query_words: "distinct (query_words s)"
  by (simp add: query_words_def)

lemma page_words_length: "length (page_words html) \<le> length (page_text html)"
  using scan_length(1) [of "page_text html"]
  by (simp add: page_words_def indexed_words_def) (meson le_trans length_filter_le)

text \<open>A row is among the first \<open>n\<close> of a ranking if fewer than \<open>n\<close> rows with other urls have at least its count.\<close>

lemma ranked_take:
  assumes "ranked rows" "(h, x) \<in> set rows" "\<forall>i. (i, x) \<in> set rows \<longrightarrow> i = h" "card {r \<in> set rows. snd r \<noteq> x \<and> h \<le> fst r} < n"
  shows "(h, x) \<in> set (take n rows)"
proof -
  from assms(2) obtain a b where r: "rows = a @ (h, x) # b" by (meson split_list)
  have a: "set a \<subseteq> {r \<in> set rows. snd r \<noteq> x \<and> h \<le> fst r}"
    using assms(1,3) unfolding r ranked_def by (fastforce simp: sorted_wrt_append)
  have "distinct a"
    using assms(1) unfolding r ranked_def sorted_wrt_append by (induction a) auto
  then have "length a = card (set a)" by (simp add: distinct_card)
  also have "\<dots> \<le> card {r \<in> set rows. snd r \<noteq> x \<and> h \<le> fst r}" by (rule card_mono [OF _ a]) simp
  finally have "length a < n" using assms(4) by linarith
  then obtain k where "n - length a = Suc k" by (cases "n - length a") auto
  then show ?thesis unfolding r by simp
qed

lemma answer_take:
  assumes "is_answer t ks rows" "(h, x) \<in> set rows" "card {u. u \<noteq> x \<and> found_on t ks u \<and> h \<le> total t ks u} < n"
  shows "(h, x) \<in> set (take n rows)"
proof (rule ranked_take [OF _ assms(2)])
  show "ranked rows" "\<forall>i. (i, x) \<in> set rows \<longrightarrow> i = h" using assms(1,2) by (auto simp: is_answer_def)
  have "{r \<in> set rows. snd r \<noteq> x \<and> h \<le> fst r} =
      (\<lambda>u. (total t ks u, u)) ` {u. u \<noteq> x \<and> found_on t ks u \<and> h \<le> total t ks u}"
    using assms(1) by (auto simp: is_answer_def image_iff)
  then have "card {r \<in> set rows. snd r \<noteq> x \<and> h \<le> fst r} = card {u. u \<noteq> x \<and> found_on t ks u \<and> h \<le> total t ks u}"
    by (simp add: card_image inj_on_def)
  with assms(3) show "card {r \<in> set rows. snd r \<noteq> x \<and> h \<le> fst r} < n" by simp
qed

text \<open>
  C4. From page to search result.  Let the hypotheses of C2 hold (a database server that keeps its contract and does
  not fail, with consistent tables, no open transaction and numbers left; a downloaded page with words of at most 2000
  letters and well-formed links; an address new to the table, valid UTF-8, at most 2000 bytes, without a quote), so that
  the crawler's parser indexes the page.  A search request of the form, of at most a megabyte and with a value that can
  be decoded, sent afterwards for words of which at least one is on the page, where the earlier sums of counts fit
  \<open>INT_MAX\<close>, is answered with the first ten rows of a ranking of the page, with the number of occurrences of all the
  words of the query in the text read from it, and of the pages found before.  The page is among the rows printed if
  fewer than ten of the other pages have at least its number.
\<close>

theorem indexed_page_found:
  assumes "serves L sem (connectionString (p_db p))" "server_ok (sem s)" "calm (sem s)"
    and "getContent N (p_link p) n = (Inr html, n')" "fits html" "int (length (page_text html)) \<le> INT_MAX"
    and "short_words html" "seq_room (card (set (page_words html))) (sem s)"
    and "safe_literal (GetURL p)" "id_of (url_rows (committed (sem s))) (GetURL p) = None"
    and "extractLink (p_link p) html = Inr links"
    and "connectionString db = connectionString (p_db p)" "search_request q v" "query_words (toLower v) = ks"
    and "set ks \<inter> set (page_words html) \<noteq> {}" "\<forall>u. total (committed (sem s)) ks u \<le> INT_MAX"
    and "hits = int (sum_list (map (count_list (page_words html)) ks))"
  shows "\<exists>p' s' rows s''. parse N L p (n, s) = (Inr (Some (True, p')), (n', s')) \<and>
    processRequest L db q s' = (Inr (Some (out (table_page rows) (set_html (post_response q)))), s'') \<and> ranked rows \<and>
    (hits, GetURL p) \<in> set rows \<and>
    (card {u. u \<noteq> GetURL p \<and> found_on (committed (sem s)) ks u \<and> hits \<le> total (committed (sem s)) ks u} < 10 \<longrightarrow>
       (hits, GetURL p) \<in> set (take 10 rows)) \<and>
    (\<forall>i u. u \<noteq> GetURL p \<longrightarrow> ((i, u) \<in> set rows \<longleftrightarrow>
       found_on (committed (sem s)) ks u \<and> i = total (committed (sem s)) ks u))"
proof -
  let ?ws = "page_words html" and ?t = "committed (sem s)"
  have pg: "pg_server L sem (connectionString (p_db p))" by (rule pg_server.intro) (rule assms(1))
  have "?ws \<noteq> []" "ks \<noteq> []" using assms(15) by auto
  from pg_server.parse_new [OF pg assms(2,3) refl assms(4-6) this(1) assms(7-11)] obtain p' s' where
    p': "parse N L p (n, s) = (Inr (Some (True, p')), (n', s'))" "server_ok (sem s')" "calm (sem s')"
    and q: "\<And>k u. quantity (committed (sem s')) k u =
      (if u = GetURL p then (if k \<in> set ?ws then Some (int (count_list ?ws k)) else None) else quantity ?t k u)" by blast
  let ?t' = "committed (sem s')"
  have c: "count_of (if k \<in> set ?ws then Some (int (count_list ?ws k)) else None) = int (count_list ?ws k)" for k
    by (simp add: count_of_def count_list_0_iff)
  have other: "total ?t' ks u = total ?t ks u" "found_on ?t' ks u \<longleftrightarrow> found_on ?t ks u" if "u \<noteq> GetURL p" for u
    using that by (simp_all add: total_def found_on_def q)
  have own: "total ?t' ks (GetURL p) = int (sum_list (map (count_list ?ws) ks))"
    by (simp add: total_def q c int_sum_list)
  have "distinct ks" using distinct_query_words assms(14) by blast
  from sum_counts_le [OF this, of ?ws] page_words_length [of html] assms(6)
  have "int (sum_list (map (count_list ?ws) ks)) \<le> INT_MAX" by linarith
  with own other(1) assms(16) have max: "\<forall>u. total ?t' ks u \<le> INT_MAX" by metis
  from pg_server.search_serves [OF pg assms(12) p'(2,3) assms(13,14) \<open>ks \<noteq> []\<close> max] obtain rows s'' where
    r: "is_answer ?t' ks rows" "processRequest L db q s' = (Inr (Some (
      if rows \<noteq> [] then out (table_page rows) (set_html (post_response q)) else print_not_found (post_response q))), s'')" by blast
  have "found_on ?t' ks (GetURL p)" using assms(15) by (auto simp: found_on_def q)
  with r(1) own have m: "(hits, GetURL p) \<in> set rows" by (simp add: is_answer_def assms(17))
  have "{u. u \<noteq> GetURL p \<and> found_on ?t' ks u \<and> hits \<le> total ?t' ks u} =
      {u. u \<noteq> GetURL p \<and> found_on ?t ks u \<and> hits \<le> total ?t ks u}" using other by auto
  with answer_take [OF r(1) m, of 10]
  have t: "card {u. u \<noteq> GetURL p \<and> found_on ?t ks u \<and> hits \<le> total ?t ks u} < 10 \<longrightarrow> (hits, GetURL p) \<in> set (take 10 rows)"
    by simp
  from m have "rows \<noteq> []" by auto
  moreover have "\<forall>i u. u \<noteq> GetURL p \<longrightarrow> ((i, u) \<in> set rows \<longleftrightarrow> found_on ?t ks u \<and> i = total ?t ks u)"
    using r(1) other by (simp add: is_answer_def)
  moreover have "ranked rows" using r(1) by (simp add: is_answer_def)
  ultimately show ?thesis using p'(1) r(2) m t by auto
qed

theorem indexed_page_found_witness:
  "\<exists>p' s' rows s''. parse scripted ref_libpq sample_parser ([sample_page], sample_state []) = (Inr (Some (True, p')), ([], s')) \<and>
     processRequest ref_libpq sample_db (sample_query ''Stork+hello'') s' =
       (Inr (Some (out (table_page rows) (set_html (post_response (sample_query ''Stork+hello''))))), s'') \<and>
     (2, ''https://wiki.org/index'') \<in> set (take 10 rows) \<and> (7, ''http://a.org/'') \<in> set rows"
proof -
  let ?t = "committed (ref_state (sample_state []))" and ?ks = "[''stork'', ''hello'']" and ?html = "concat (body sample_page)"
  have p: "connectionString sample_db = connectionString (p_db sample_parser)" "p_link sample_parser = wiki"
    "GetURL sample_parser = ''https://wiki.org/index''"
    by (simp_all add: sample_parser_def GetURL_def wiki_def)
  have u: "safe_literal (GetURL sample_parser)" "id_of (url_rows ?t) (GetURL sample_parser) = None"
    by (simp_all add: p wiki_literal sample_facts sample_tables_def id_of_def)
  have w: "query_words (toLower ''Stork+hello'') = ?ks" by code_simp
  have q: "quantity ?t ''hello'' u = (if u = ''http://a.org/'' then Some 7 else None)" "quantity ?t ''stork'' u = None" for u
    by (simp_all add: sample_facts sample_tables_def id_of_def quantity_def)
  have tot: "total ?t ?ks u = (if u = ''http://a.org/'' then 7 else 0)" for u
    by (simp add: total_def q count_of_def)
  have t: "\<forall>u. total ?t ?ks u \<le> INT_MAX" "total ?t ?ks ''http://a.org/'' = 7"
    unfolding tot by (simp_all add: INT_MAX_def)
  have sr: "search_request (sample_query ''Stork+hello'') ''Stork+hello''" by (rule search_request_sample) simp_all
  have i: "set ?ks \<inter> set (page_words ?html) \<noteq> {}" unfolding sample_page_facts(1) by simp
  have s: "2 = int (sum_list (map (count_list (page_words ?html)) ?ks))" unfolding sample_page_facts(1) by simp
  have f: "found_on ?t ?ks u \<longleftrightarrow> u = ''http://a.org/''" for u by (simp add: found_on_def q)
  have ne: "''http://a.org/'' \<noteq> GetURL sample_parser" unfolding p(3) by simp
  from indexed_page_found [of ref_libpq ref_state sample_parser, OF serves_ref sample_facts(1) sample_calm,
      of scripted "[sample_page]" ?html "[]" "[''https://wiki.org/nest'']" sample_db, unfolded p(2),
      OF sample_download sample_page_facts(3,4) sample_page_words u sample_page_facts(2) p(1) sr w i t(1) s]
  obtain p' s' rows s'' where r: "parse scripted ref_libpq sample_parser ([sample_page], sample_state []) = (Inr (Some (True, p')), ([], s'))"
    "processRequest ref_libpq sample_db (sample_query ''Stork+hello'') s' =
       (Inr (Some (out (table_page rows) (set_html (post_response (sample_query ''Stork+hello''))))), s'')"
    and c: "card {u. u \<noteq> GetURL sample_parser \<and> found_on ?t ?ks u \<and> 2 \<le> total ?t ?ks u} < 10 \<longrightarrow>
       (2, GetURL sample_parser) \<in> set (take 10 rows)"
    and o: "\<forall>i u. u \<noteq> GetURL sample_parser \<longrightarrow> ((i, u) \<in> set rows \<longleftrightarrow> found_on ?t ?ks u \<and> i = total ?t ?ks u)"
    by (elim exE conjE) (rule that)
  have "card {u. u \<noteq> GetURL sample_parser \<and> found_on ?t ?ks u \<and> 2 \<le> total ?t ?ks u} \<le> card {''http://a.org/''}"
    unfolding f by (rule card_mono) auto
  with c have "(2, GetURL sample_parser) \<in> set (take 10 rows)" by simp
  moreover note iffD2 [OF mp [OF spec [OF spec [OF o, of 7], of "''http://a.org/''"] ne] conjI [OF iffD2 [OF f refl] t(2) [symmetric]]]
  ultimately show ?thesis using r unfolding p(3) by (intro exI conjI)
qed

end
